(* ===== verification/Noxa_Prelude.thy ===== *)
theory Noxa_Prelude
  imports "HOL-Library.Code_Target_Nat" Main "HOL-Library.AList" "HOL-Library.Word"
begin

text \<open>
  Shared vocabulary of the development. The theory holds
  \<^item> the JavaScript \<^verbatim>\<open>Map\<close> as an association list with insertion order
    (\<open>jget\<close>, \<open>jset\<close>, \<open>jdel\<close>, ...), the interface locale \<open>ordered_store\<close> that
    states what its clients rely on, and the interpretation \<open>jm\<close> that discharges it;
  \<^item> the interface \<open>step_machine\<close> of a component that reacts to a sequence of
    events, with the lemmas that lift one-step facts to whole runs;
  \<^item> the dynamically typed JavaScript values a message handler receives
    (\<open>jsv\<close>) and the language's number predicates (\<^verbatim>\<open>Number.isInteger\<close>,
    \<^verbatim>\<open>Number.isSafeInteger\<close>, the conversion \<^verbatim>\<open>x | 0\<close>);
  \<^item> byte helpers (\<^verbatim>\<open>DataView.getUint32\<close>, checked array reads) and list lemmas.
\<close>

named_theorems jmap_simps \<open>rewriting of ordered maps\<close>

unbundle bit_operations_syntax

section \<open>JavaScript maps\<close>

type_synonym ('k, 'v) jmap = "('k \<times> 'v) list"

definition jget :: "('k, 'v) jmap \<Rightarrow> 'k \<Rightarrow> 'v option" where
  "jget m k = map_of m k"

definition jset :: "'k \<Rightarrow> 'v \<Rightarrow> ('k, 'v) jmap \<Rightarrow> ('k, 'v) jmap" where
  "jset k v m = AList.update k v m"

definition jdel :: "'k \<Rightarrow> ('k, 'v) jmap \<Rightarrow> ('k, 'v) jmap" where
  "jdel k m = filter (\<lambda>(a, _). a \<noteq> k) m"

definition jhas :: "('k, 'v) jmap \<Rightarrow> 'k \<Rightarrow> bool" where
  "jhas m k \<longleftrightarrow> jget m k \<noteq> None"

definition jkeys :: "('k, 'v) jmap \<Rightarrow> 'k list" where
  "jkeys m = map fst m"

definition jvals :: "('k, 'v) jmap \<Rightarrow> 'v list" where
  "jvals m = map snd m"

abbreviation jsize :: "('k, 'v) jmap \<Rightarrow> nat" where
  "jsize m \<equiv> length m"

definition jwf :: "('k, 'v) jmap \<Rightarrow> bool" where
  "jwf m \<longleftrightarrow> distinct (jkeys m)"

text \<open>In-place update of one entry (\<^verbatim>\<open>const x = m.get(k); x.f = ...\<close>): the entry
  object is shared, so writing a field of it changes what the map holds.\<close>

definition jupd :: "'k \<Rightarrow> ('v \<Rightarrow> 'v) \<Rightarrow> ('k, 'v) jmap \<Rightarrow> ('k, 'v) jmap" where
  "jupd k f m = map (\<lambda>(a, v). (a, if a = k then f v else v)) m"

lemma jget_Nil [simp, jmap_simps]: "jget [] k = None"
  by (simp add: jget_def)

lemma jget_Cons [jmap_simps]: "jget ((a, v) # m) k = (if a = k then Some v else jget m k)"
  by (simp add: jget_def)

lemma jget_jset [simp, jmap_simps]: "jget (jset k v m) k' = (if k' = k then Some v else jget m k')"
  by (simp add: jget_def jset_def update_conv')

lemma jget_filter: "jget (filter (\<lambda>(a, _). P a) m) k = (if P k then jget m k else None)"
  by (induction m) (auto simp: jget_def)

lemma jget_jdel [simp, jmap_simps]: "jget (jdel k m) k' = (if k' = k then None else jget m k')"
  by (simp add: jdel_def jget_filter)

lemma jget_jupd [simp, jmap_simps]:
  "jget (jupd k f m) k' = (if k' = k then map_option f (jget m k') else jget m k')"
  by (induction m) (auto simp: jupd_def jget_def)

lemma jget_Some_iff_in_keys: "k \<in> set (jkeys m) \<longleftrightarrow> (\<exists>v. jget m k = Some v)"
  by (metis domD domI dom_map_of_conv_image_fst jget_def jkeys_def list.set_map)

lemma jget_None_iff: "jget m k = None \<longleftrightarrow> k \<notin> set (jkeys m)"
  using jget_Some_iff_in_keys [of k m] by auto

lemma jhas_iff: "jhas m k \<longleftrightarrow> k \<in> set (jkeys m)"
  by (simp add: jhas_def jget_None_iff)

lemma jhas_jset [simp, jmap_simps]: "jhas (jset k v m) k' \<longleftrightarrow> k' = k \<or> jhas m k'"
  by (simp add: jhas_def)

lemma jhas_jdel [simp, jmap_simps]: "jhas (jdel k m) k' \<longleftrightarrow> k' \<noteq> k \<and> jhas m k'"
  by (simp add: jhas_def)

lemma jhas_jupd [simp, jmap_simps]: "jhas (jupd k f m) k' \<longleftrightarrow> jhas m k'"
  by (simp add: jhas_def)

lemma jhas_SomeI: "jget m k = Some v \<Longrightarrow> jhas m k"
  by (simp add: jhas_def)

lemma jget_in: "jget m k = Some v \<Longrightarrow> (k, v) \<in> set m"
  by (simp add: jget_def map_of_SomeD)

lemma jget_iff_in: "jwf m \<Longrightarrow> jget m k = Some v \<longleftrightarrow> (k, v) \<in> set m"
  by (simp add: jget_def jwf_def jkeys_def)

lemma jkeys_jset: "jkeys (jset k v m) = (if k \<in> set (jkeys m) then jkeys m else jkeys m @ [k])"
  by (simp add: jkeys_def jset_def update_keys)

lemma set_jkeys_jset [simp]: "set (jkeys (jset k v m)) = insert k (set (jkeys m))"
  by (auto simp: jkeys_jset)

lemma set_jset_cases: "(a, b) \<in> set (jset k v m) \<Longrightarrow> a = k \<and> b = v \<or> (a, b) \<in> set m"
  unfolding jset_def by (induction m) (auto split: if_splits)

lemma jkeys_filter: "jkeys (filter (\<lambda>(a, _). P a) m) = filter P (jkeys m)"
  by (induction m) (auto simp: jkeys_def)

lemma jkeys_jdel: "jkeys (jdel k m) = filter (\<lambda>a. a \<noteq> k) (jkeys m)"
  by (simp add: jdel_def jkeys_filter)

lemma set_jkeys_jdel [simp]: "set (jkeys (jdel k m)) = set (jkeys m) - {k}"
  by (auto simp: jkeys_jdel)

lemma jkeys_jupd [simp]: "jkeys (jupd k f m) = jkeys m"
  by (induction m) (auto simp: jkeys_def jupd_def)

lemma jsize_jupd [simp]: "jsize (jupd k f m) = jsize m"
  by (simp add: jupd_def)

lemma jsize_keys: "jsize m = length (jkeys m)"
  by (simp add: jkeys_def)

lemma jsize_jset: "jsize (jset k v m) = (if jhas m k then jsize m else Suc (jsize m))"
  by (simp add: jsize_keys jkeys_jset jhas_iff del: length_map)

lemma jsize_jdel_le: "jsize (jdel k m) \<le> jsize m"
  by (simp add: jdel_def)

lemma jwf_Nil [simp]: "jwf []"
  by (simp add: jwf_def jkeys_def)

lemma jwf_jset [simp]: "jwf m \<Longrightarrow> jwf (jset k v m)"
  by (simp add: jwf_def jkeys_jset)

lemma jwf_filter [simp]: "jwf m \<Longrightarrow> jwf (filter P m)"
  unfolding jwf_def jkeys_def by (rule distinct_map_filter)

lemma jwf_jdel [simp]: "jwf m \<Longrightarrow> jwf (jdel k m)"
  by (simp add: jdel_def)

lemma jwf_jupd [simp]: "jwf m \<Longrightarrow> jwf (jupd k f m)"
  by (simp add: jwf_def)

lemma jwf_tl: "jwf m \<Longrightarrow> jwf (tl m)"
  by (cases m) (auto simp: jwf_def jkeys_def)

lemma jsize_jdel: "jwf m \<Longrightarrow> jhas m k \<Longrightarrow> Suc (jsize (jdel k m)) = jsize m"
proof (induction m)
  case (Cons x xs)
  show ?case
  proof (cases "fst x = k")
    case True
    with Cons.prems have "k \<notin> set (jkeys xs)" by (auto simp: jwf_def jkeys_def)
    then have "filter (\<lambda>(a, _). a \<noteq> k) xs = xs"
      by (auto simp: jkeys_def filter_id_conv image_iff split: prod.splits)
    with True show ?thesis by (cases x) (simp add: jdel_def)
  next
    case False
    with Cons show ?thesis
      by (cases x) (auto simp: jdel_def jwf_def jkeys_def jhas_def jget_def)
  qed
qed (simp add: jhas_def)

lemma jdel_notin: "k \<notin> set (jkeys m) \<Longrightarrow> jdel k m = m"
  by (auto simp: jdel_def jkeys_def filter_id_conv image_iff split: prod.splits)

lemma jdel_first: "jwf m \<Longrightarrow> m \<noteq> [] \<Longrightarrow> jdel (hd (jkeys m)) m = tl m"
proof (cases m)
  case (Cons x xs)
  moreover assume "jwf m"
  ultimately have "fst x \<notin> set (jkeys xs)" by (simp add: jwf_def jkeys_def)
  then have "jdel (fst x) xs = xs" by (rule jdel_notin)
  with Cons show ?thesis by (cases x) (simp add: jkeys_def jdel_def)
qed simp

lemma jvals_jupd: "jwf m \<Longrightarrow> v \<in> set (jvals (jupd k f m)) \<Longrightarrow>
    v \<in> set (jvals m) \<or> (\<exists>u. jget m k = Some u \<and> v = f u)"
  by (force simp: jvals_def jupd_def jget_iff_in image_iff split: if_splits)

lemma jvals_mem: "v \<in> set (jvals m) \<longleftrightarrow> (\<exists>k. (k, v) \<in> set m)"
  by (force simp: jvals_def)

text \<open>
  The interface that the clients of a JavaScript \<^verbatim>\<open>Map\<close> rely on: what a lookup
  returns after an update, that \<^verbatim>\<open>set\<close> appends new keys at the end of the iteration
  order and keeps the place of old ones, and the well-formedness every operation keeps.
\<close>

locale ordered_store =
  fixes get :: "'m \<Rightarrow> 'k \<Rightarrow> 'v option"
    and put :: "'k \<Rightarrow> 'v \<Rightarrow> 'm \<Rightarrow> 'm"
    and del :: "'k \<Rightarrow> 'm \<Rightarrow> 'm"
    and keys :: "'m \<Rightarrow> 'k list"
    and invar :: "'m \<Rightarrow> bool"
  assumes get_put: "invar m \<Longrightarrow> get (put k v m) k' = (if k' = k then Some v else get m k')"
    and get_del: "invar m \<Longrightarrow> get (del k m) k' = (if k' = k then None else get m k')"
    and get_keys: "invar m \<Longrightarrow> get m k = None \<longleftrightarrow> k \<notin> set (keys m)"
    and keys_put: "invar m \<Longrightarrow> keys (put k v m) = (if k \<in> set (keys m) then keys m else keys m @ [k])"
    and keys_del: "invar m \<Longrightarrow> keys (del k m) = filter (\<lambda>a. a \<noteq> k) (keys m)"
    and keys_distinct: "invar m \<Longrightarrow> distinct (keys m)"
    and invar_put: "invar m \<Longrightarrow> invar (put k v m)"
    and invar_del: "invar m \<Longrightarrow> invar (del k m)"
begin

text \<open>\<^verbatim>\<open>if (!m.has(k) && m.size >= cap) throw; m.set(k, v)\<close> keeps the capacity.\<close>

lemma guarded_put_bound:
  assumes "invar m" and "length (keys m) \<le> cap"
    and "get m k \<noteq> None \<or> length (keys m) < cap"
  shows "length (keys (put k v m)) \<le> cap"
  using assms by (auto simp: keys_put get_keys)

text \<open>\<^verbatim>\<open>m.delete(k); m.set(k, v)\<close> moves the key to the end of the iteration order.\<close>

lemma reinsert_keys:
  "invar m \<Longrightarrow> keys (put k v (del k m)) = filter (\<lambda>a. a \<noteq> k) (keys m) @ [k]"
  by (simp add: keys_put keys_del invar_del)

lemma reinsert_get:
  "invar m \<Longrightarrow> get (put k v (del k m)) k' = (if k' = k then Some v else get m k')"
  by (simp add: get_put get_del invar_del)

lemma reinsert_length:
  "invar m \<Longrightarrow> length (keys (put k v (del k m))) \<le> Suc (length (keys m))"
  by (simp add: reinsert_keys)

end

interpretation jm: ordered_store jget jset jdel jkeys jwf
  by unfold_locales (auto simp: jget_None_iff jkeys_jset jkeys_jdel jwf_def split: if_splits)

section \<open>Event-driven components\<close>

text \<open>
  Every stateful component of the program reacts to a sequence of calls. The locale
  fixes one transition function and lifts what holds of one step to every run: an
  invariant, a quantity that never decreases, and a fact that once true stays true
  while the invariant holds.
\<close>

locale step_machine =
  fixes step :: "'e \<Rightarrow> 's \<Rightarrow> 's"
begin

definition run :: "'e list \<Rightarrow> 's \<Rightarrow> 's" where
  "run es s = fold step es s"

lemma run_Nil [simp]: "run [] s = s"
  by (simp add: run_def)

lemma run_Cons [simp]: "run (e # es) s = run es (step e s)"
  by (simp add: run_def)

lemma run_append [simp]: "run (es @ fs) s = run fs (run es s)"
  by (simp add: run_def)

lemma run_invariant:
  assumes "\<And>s e. e \<in> set es \<Longrightarrow> I s \<Longrightarrow> I (step e s)" and "I s"
  shows "I (run es s)"
  using assms by (induction es arbitrary: s) auto

lemma run_mono:
  fixes f :: "'s \<Rightarrow> 'b::preorder"
  assumes "\<And>s e. e \<in> set es \<Longrightarrow> I s \<Longrightarrow> I (step e s)" and "I s"
    and "\<And>s e. e \<in> set es \<Longrightarrow> I s \<Longrightarrow> f s \<le> f (step e s)"
  shows "f s \<le> f (run es s)"
  using assms
proof (induction es arbitrary: s)
  case (Cons e es)
  have "f s \<le> f (step e s)" using Cons.prems by simp
  also have "\<dots> \<le> f (run es (step e s))"
    by (rule Cons.IH) (use Cons.prems in auto)
  finally show ?case by simp
qed simp

text \<open>A run in which every step satisfies a condition on the event and the state it meets.\<close>

fun guarded :: "('e \<Rightarrow> 's \<Rightarrow> bool) \<Rightarrow> 'e list \<Rightarrow> 's \<Rightarrow> bool" where
  "guarded G [] s = True"
| "guarded G (e # es) s = (G e s \<and> guarded G es (step e s))"

lemma guarded_append: "guarded G (es @ fs) s \<longleftrightarrow> guarded G es s \<and> guarded G fs (run es s)"
  by (induction es arbitrary: s) auto

lemma guarded_invariant:
  assumes "guarded G es s" and "I s" and "\<And>s e. G e s \<Longrightarrow> I s \<Longrightarrow> I (step e s)"
  shows "I (run es s)"
  using assms(1,2) by (induction es arbitrary: s) (auto intro: assms(3))

lemma run_stable:
  assumes "\<And>s e. e \<in> set es \<Longrightarrow> I s \<Longrightarrow> I (step e s)" and "I s"
    and "\<And>s e. e \<in> set es \<Longrightarrow> I s \<Longrightarrow> P s \<Longrightarrow> P (step e s)" and "P s"
  shows "P (run es s)"
proof -
  have "I (run es s) \<and> P (run es s)"
    using assms by (induction es arbitrary: s) auto
  then show ?thesis ..
qed

end

section \<open>JavaScript values and numbers\<close>

text \<open>
  What a handler can find in a message. A number is an integer or something that is not
  (\<open>JFrac\<close>: a fraction, an infinity or NaN); strings are lists of code units up to 255,
  which is all the validators of the program distinguish.
\<close>

datatype jsv =
    JUndef
  | JNull
  | JBool bool
  | JNum int
  | JFrac
  | JStr string
  | JBytes "8 word list"
  | JArr "jsv list"
  | JObj "(string \<times> jsv) list"

definition max_safe_integer :: int where
  "max_safe_integer = 9007199254740991"

fun is_integer :: "jsv \<Rightarrow> bool" where
  "is_integer (JNum _) = True"
| "is_integer _ = False"

fun is_safe_integer :: "jsv \<Rightarrow> bool" where
  "is_safe_integer (JNum i) = (\<bar>i\<bar> \<le> max_safe_integer)"
| "is_safe_integer _ = False"

fun is_string :: "jsv \<Rightarrow> bool" where
  "is_string (JStr _) = True"
| "is_string _ = False"

lemma is_integer_iff: "is_integer v \<longleftrightarrow> (\<exists>i. v = JNum i)"
  by (cases v) auto

lemma is_safe_integer_iff: "is_safe_integer v \<longleftrightarrow> (\<exists>i. v = JNum i \<and> \<bar>i\<bar> \<le> max_safe_integer)"
  by (cases v) auto

lemma is_string_iff: "is_string v \<longleftrightarrow> (\<exists>s. v = JStr s)"
  by (cases v) auto

text \<open>Property access on a value: a missing field, or a field of a value that has none,
  is \<^verbatim>\<open>undefined\<close> (the program always guards with \<^verbatim>\<open>?.\<close> or a prior check).\<close>

fun field :: "jsv \<Rightarrow> string \<Rightarrow> jsv" where
  "field (JObj fs) k = (case map_of fs k of Some v \<Rightarrow> v | None \<Rightarrow> JUndef)"
| "field _ k = JUndef"

text \<open>The bitwise conversion \<^verbatim>\<open>x | 0\<close>: reduce modulo 2^32 and read as two's complement.\<close>

definition to_int32 :: "int \<Rightarrow> int" where
  "to_int32 x = sint (word_of_int x :: 32 word)"

lemma to_int32_range: "- (2 ^ 31) \<le> to_int32 x \<and> to_int32 x < 2 ^ 31"
  using sint_ge [of "word_of_int x :: 32 word"] sint_lt [of "word_of_int x :: 32 word"]
  by (simp add: to_int32_def)

lemma to_int32_id:
  assumes "- (2 ^ 31) \<le> x" and "x < 2 ^ 31"
  shows "to_int32 x = x"
  using assms by (simp add: to_int32_def signed_of_int signed_take_bit_int_eq_self)

lemma to_int32_uint_diff: "to_int32 (uint (a :: 32 word) - uint b) = sint (a - b)"
  by (simp add: to_int32_def)

section \<open>Bytes\<close>

type_synonym bytes = "8 word list"

text \<open>Reading past the end of a typed array yields \<^verbatim>\<open>undefined\<close>.\<close>

definition byte_at :: "bytes \<Rightarrow> nat \<Rightarrow> 8 word option" where
  "byte_at bs i = (if i < length bs then Some (bs ! i) else None)"

lemma byte_at_Some [simp]: "byte_at bs i = Some b \<longleftrightarrow> i < length bs \<and> bs ! i = b"
  by (auto simp: byte_at_def)

text \<open>\<^verbatim>\<open>DataView.getUint32(offset)\<close>: big endian.\<close>

definition get_uint32 :: "bytes \<Rightarrow> nat \<Rightarrow> 32 word" where
  "get_uint32 bs i = word_of_nat (unat (bs ! i) * 16777216 + unat (bs ! (i + 1)) * 65536
     + unat (bs ! (i + 2)) * 256 + unat (bs ! (i + 3)))"

lemma unat_byte_lt: "unat (b :: 8 word) < 256"
  using unsigned_less [of b] by simp

lemma base256_digit:
  fixes x y c d :: nat
  assumes "x * 256 + c = y * 256 + d" and "c < 256" and "d < 256"
  shows "x = y \<and> c = d"
proof -
  have "x = (x * 256 + c) div 256" and "y = (y * 256 + d) div 256" using assms(2,3) by simp_all
  then have "x = y" using assms(1) by simp
  then show ?thesis using assms(1) by simp
qed

lemma base256_unique:
  fixes a b c d a' b' c' d' :: nat
  assumes "a * 16777216 + b * 65536 + c * 256 + d = a' * 16777216 + b' * 65536 + c' * 256 + d'"
    and "b < 256" "c < 256" "d < 256" "b' < 256" "c' < 256" "d' < 256"
  shows "a = a' \<and> b = b' \<and> c = c' \<and> d = d'"
proof -
  have "((a * 256 + b) * 256 + c) * 256 + d = ((a' * 256 + b') * 256 + c') * 256 + d'"
    using assms(1) by simp
  then have "(a * 256 + b) * 256 + c = (a' * 256 + b') * 256 + c' \<and> d = d'"
    by (rule base256_digit) fact+
  moreover from this have "a * 256 + b = a' * 256 + b' \<and> c = c'"
    by (intro base256_digit) (use assms in auto)
  moreover from this have "a = a' \<and> b = b'"
    by (intro base256_digit) (use assms in auto)
  ultimately show ?thesis by simp
qed

lemma unat_get_uint32:
  "unat (get_uint32 bs i) = unat (bs ! i) * 16777216 + unat (bs ! (i + 1)) * 65536
     + unat (bs ! (i + 2)) * 256 + unat (bs ! (i + 3))" (is "_ = ?n")
proof -
  have "?n < 2 ^ 32"
    using unat_byte_lt [of "bs ! i"] unat_byte_lt [of "bs ! (i + 1)"]
      unat_byte_lt [of "bs ! (i + 2)"] unat_byte_lt [of "bs ! (i + 3)"] by simp
  then show ?thesis
    unfolding get_uint32_def
    by (simp only: unsigned_of_nat of_nat_id) (rule take_bit_nat_eq_self, simp)
qed

lemma get_uint32_inject:
  assumes "get_uint32 bs i = get_uint32 cs i"
  shows "bs ! i = cs ! i \<and> bs ! (i + 1) = cs ! (i + 1) \<and> bs ! (i + 2) = cs ! (i + 2) \<and> bs ! (i + 3) = cs ! (i + 3)"
proof -
  have "unat (get_uint32 bs i) = unat (get_uint32 cs i)" using assms by simp
  then have "unat (bs ! i) = unat (cs ! i) \<and> unat (bs ! (i + 1)) = unat (cs ! (i + 1))
      \<and> unat (bs ! (i + 2)) = unat (cs ! (i + 2)) \<and> unat (bs ! (i + 3)) = unat (cs ! (i + 3))"
    unfolding unat_get_uint32 by (rule base256_unique) (rule unat_byte_lt)+
  then show ?thesis by (simp only: word_unat_eq_iff simp_thms)
qed

section \<open>Lists\<close>

lemma fold_invariant:
  assumes "\<And>x s. x \<in> set xs \<Longrightarrow> I s \<Longrightarrow> I (f x s)" and "I s"
  shows "I (fold f xs s)"
  using assms by (induction xs arbitrary: s) auto

lemma find_SomeD: "List.find P xs = Some x \<Longrightarrow> x \<in> set xs \<and> P x"
  by (induction xs) (auto split: if_splits)

lemma length_filter_lt: "x \<in> set xs \<Longrightarrow> \<not> P x \<Longrightarrow> length (filter P xs) < length xs"
  by (rule length_filter_less)

end
