(* ===== verification/Media_Replay.thy ===== *)
theory Media_Replay
  imports Noxa_Prelude
begin

text \<open>
  The replay window of an encrypted media key (client/frontend/src/media-replay.js).
  A window keeps, for every RTP source it has seen, the newest RTP timestamp and the
  (timestamp, counter) tokens accepted within \<open>timestampWindow\<close> of it.
  The theory models \<^verbatim>\<open>MediaReplayWindow.check\<close> with 32-bit timestamps and the signed
  modular distance of the source, and shows that no IV is accepted twice while the
  timestamps of a key stay within half the timestamp range, that the window is bounded
  on every input, and that it accepts every fresh frame of a stream that fits it.
\<close>

section \<open>Model\<close>

record replay_source =
  newest :: "32 word"
  frames :: "(32 word \<times> 32 word, 32 word) jmap"

record replay_window =
  sources :: "(32 word, replay_source) jmap"
  maxSources :: nat
  maxFrames :: nat
  timestampWindow :: int

datatype verdict = VOk | VDuplicate | VOld | VFull | VInvalid

definition new_window :: replay_window where
  "new_window = \<lparr>sources = [], maxSources = 8, maxFrames = 8192, timestampWindow = 1800000\<rparr>"

text \<open>The part of \<^verbatim>\<open>check\<close> that follows the lookup of the source. The token
  \<^verbatim>\<open>${timestamp}:${counter}\<close> is the pair of its two numbers.\<close>

definition check_source ::
  "int \<Rightarrow> nat \<Rightarrow> 32 word \<Rightarrow> 32 word \<Rightarrow> replay_source \<Rightarrow> verdict \<times> replay_source" where
  "check_source window max_frames timestamp counter src =
     (let token = (timestamp, counter);
          distance = to_int32 (uint timestamp - uint (newest src))
      in if jhas (frames src) token then (VDuplicate, src)
         else if distance < - window then (VOld, src)
         else let src' = (if distance > 0
                then src\<lparr>newest := timestamp,
                  frames := filter (\<lambda>(_, seenAt). \<not> to_int32 (uint timestamp - uint seenAt) > window) (frames src)\<rparr>
                else src)
              in if jsize (frames src') \<ge> max_frames then (VFull, src')
                 else (VOk, src'\<lparr>frames := jset token timestamp (frames src')\<rparr>))"

text \<open>\<^verbatim>\<open>sources.get(ssrc)\<close>, or a new source while there is room for one.\<close>

definition lookup_source :: "32 word \<Rightarrow> 32 word \<Rightarrow> replay_window \<Rightarrow> replay_source option" where
  "lookup_source ssrc timestamp w = (case jget (sources w) ssrc of
     Some src \<Rightarrow> Some src
   | None \<Rightarrow> if jsize (sources w) \<ge> maxSources w then None
             else Some \<lparr>newest = timestamp, frames = []\<rparr>)"

definition check_bytes :: "bytes \<Rightarrow> replay_window \<Rightarrow> verdict \<times> replay_window" where
  "check_bytes bs w =
     (let ssrc = get_uint32 bs 0; timestamp = get_uint32 bs 4; counter = get_uint32 bs 8
      in (case lookup_source ssrc timestamp w of
            None \<Rightarrow> (VFull, w)
          | Some src0 \<Rightarrow>
              (case check_source (timestampWindow w) (maxFrames w) timestamp counter src0 of
                 (v, src) \<Rightarrow> (v, w\<lparr>sources := jset ssrc src (sources w)\<rparr>))))"

definition check :: "jsv \<Rightarrow> replay_window \<Rightarrow> verdict \<times> replay_window" where
  "check iv w = (case iv of
     JBytes bs \<Rightarrow> (if length bs \<noteq> 12 then (VInvalid, w) else check_bytes bs w)
   | _ \<Rightarrow> (VInvalid, w))"

definition accept :: "jsv \<Rightarrow> replay_window \<Rightarrow> bool \<times> replay_window" where
  "accept iv w = (let (v, w') = check iv w in (v = VOk, w'))"

text \<open>The IVs a window accepts out of a sequence, in order.\<close>

fun accepted :: "jsv list \<Rightarrow> replay_window \<Rightarrow> jsv list" where
  "accepted [] w = []"
| "accepted (iv # ivs) w =
     (case accept iv w of (ok, w') \<Rightarrow> (if ok then iv # accepted ivs w' else accepted ivs w'))"

section \<open>Shared lemmas\<close>

definition iv_triple :: "bytes \<Rightarrow> 32 word \<times> 32 word \<times> 32 word" where
  "iv_triple bs = (get_uint32 bs 0, get_uint32 bs 4, get_uint32 bs 8)"

lemma iv_triple_inject:
  assumes "length bs = 12" and "length cs = 12" and "iv_triple bs = iv_triple cs"
  shows "bs = cs"
proof (rule nth_equalityI)
  show "length bs = length cs" using assms by simp
next
  fix i assume "i < length bs"
  then have "i = 0 \<or> i = 1 \<or> i = 2 \<or> i = 3 \<or> i = 4 \<or> i = 5 \<or> i = 6 \<or> i = 7 \<or> i = 8
      \<or> i = 9 \<or> i = 10 \<or> i = 11" using assms(1) by simp arith
  moreover have "get_uint32 bs 0 = get_uint32 cs 0" "get_uint32 bs 4 = get_uint32 cs 4"
    "get_uint32 bs 8 = get_uint32 cs 8" using assms(3) by (simp_all add: iv_triple_def)
  note this [THEN get_uint32_inject]
  ultimately show "bs ! i = cs ! i" by (auto simp: numeral_2_eq_2 numeral_3_eq_3)
qed

text \<open>How far a timestamp lies above a reference timestamp.\<close>

definition off :: "32 word \<Rightarrow> 32 word \<Rightarrow> int" where
  "off base t = uint (t - base)"

lemma distance_off:
  assumes "off base a < 2 ^ 31" and "off base b < 2 ^ 31"
  shows "to_int32 (uint a - uint b) = off base a - off base b"
proof -
  have "to_int32 (uint a - uint b) = sint ((a - base) - (b - base))"
    by (simp add: to_int32_uint_diff)
  also have "\<dots> = to_int32 (uint (a - base) - uint (b - base))"
    by (simp only: to_int32_uint_diff)
  also have "\<dots> = uint (a - base) - uint (b - base)"
  proof (rule to_int32_id)
    have "0 \<le> uint (a - base)" and "0 \<le> uint (b - base)" by simp_all
    with assms show "- (2 ^ 31) \<le> uint (a - base) - uint (b - base)"
      and "uint (a - base) - uint (b - base) < 2 ^ 31" by (unfold off_def) linarith+
  qed
  finally show ?thesis by (simp add: off_def)
qed

text \<open>What one check does to the window, in terms of the triple of its IV.\<close>

lemma check_cases:
  obtains (invalid) "check iv w = (VInvalid, w)"
    "\<And>bs. iv = JBytes bs \<Longrightarrow> length bs \<noteq> 12"
  | (no_room) bs where "iv = JBytes bs" "length bs = 12"
      "lookup_source (get_uint32 bs 0) (get_uint32 bs 4) w = None" "check iv w = (VFull, w)"
  | (source) bs src0 v src where "iv = JBytes bs" "length bs = 12"
      "lookup_source (get_uint32 bs 0) (get_uint32 bs 4) w = Some src0"
      "check_source (timestampWindow w) (maxFrames w) (get_uint32 bs 4) (get_uint32 bs 8) src0 = (v, src)"
      "check iv w = (v, w\<lparr>sources := jset (get_uint32 bs 0) src (sources w)\<rparr>)"
proof (cases "\<exists>bs. iv = JBytes bs \<and> length bs = 12")
  case True
  then obtain bs where bs: "iv = JBytes bs" "length bs = 12" by blast
  then have eq: "check iv w = check_bytes bs w" by (simp add: check_def)
  show ?thesis
  proof (cases "lookup_source (get_uint32 bs 0) (get_uint32 bs 4) w")
    case None
    with bs eq show ?thesis by (intro that(2)) (simp_all add: check_bytes_def)
  next
    case (Some src0)
    then show ?thesis
      using bs eq that(3) [OF bs Some]
      by (cases "check_source (timestampWindow w) (maxFrames w) (get_uint32 bs 4) (get_uint32 bs 8) src0")
        (simp add: check_bytes_def)
  qed
next
  case False
  then show ?thesis by (intro that(1)) (auto simp: check_def split: jsv.splits)
qed

lemma check_keeps_limits:
  "maxSources (snd (check iv w)) = maxSources w"
  "maxFrames (snd (check iv w)) = maxFrames w"
  "timestampWindow (snd (check iv w)) = timestampWindow w"
  by (cases rule: check_cases [of iv w]; simp)+

section \<open>The window is bounded\<close>

definition source_wf :: "nat \<Rightarrow> replay_source \<Rightarrow> bool" where
  "source_wf cap src \<longleftrightarrow> jwf (frames src) \<and> jsize (frames src) \<le> cap
     \<and> (\<forall>(tok, seen) \<in> set (frames src). seen = fst tok)"

definition window_wf :: "replay_window \<Rightarrow> bool" where
  "window_wf w \<longleftrightarrow> jwf (sources w) \<and> jsize (sources w) \<le> maxSources w
     \<and> (\<forall>(s, src) \<in> set (sources w). source_wf (maxFrames w) src)"

lemma new_window_wf: "window_wf new_window"
  by (simp add: window_wf_def new_window_def)

lemma check_source_wf:
  assumes "source_wf cap src" and "check_source win cap t c src = (v, src')"
  shows "source_wf cap src'"
proof -
  have pruned: "source_wf cap (src\<lparr>newest := n, frames := filter P (frames src)\<rparr>)" for n P
    using assms(1) by (auto simp: source_wf_def intro: order_trans [OF length_filter_le])
  have put: "source_wf cap (s\<lparr>frames := jset (t, c) t (frames s)\<rparr>)"
    if "source_wf cap s" and "jsize (frames s) < cap" for s
    using that by (auto simp: source_wf_def jsize_jset dest!: set_jset_cases)
  define src1 where "src1 = (if to_int32 (uint t - uint (newest src)) > 0
      then src\<lparr>newest := t, frames := filter (\<lambda>(_, seenAt). \<not> to_int32 (uint t - uint seenAt) > win) (frames src)\<rparr>
      else src)"
  have src1: "source_wf cap src1" using assms(1) pruned by (simp add: src1_def)
  have "src' = src \<or> src' = src1 \<or> (src' = src1\<lparr>frames := jset (t, c) t (frames src1)\<rparr> \<and> jsize (frames src1) < cap)"
    using assms(2) unfolding src1_def [symmetric] check_source_def Let_def
    by (auto split: if_splits)
  then show ?thesis using assms(1) src1 put [OF src1] by auto
qed

lemma check_wf:
  assumes wf: "window_wf w"
  shows "window_wf (snd (check iv w))"
proof (cases rule: check_cases [of iv w])
  case (source bs src0 v src)
  have "source_wf (maxFrames w) src0"
    using wf source(3)
    by (auto simp: window_wf_def source_wf_def lookup_source_def jwf_def jkeys_def
        dest!: jget_in split: option.splits if_splits)
  then have "source_wf (maxFrames w) src" by (rule check_source_wf) (rule source(4))
  moreover have "jhas (sources w) (get_uint32 bs 0) \<or> jsize (sources w) < maxSources w"
    using source(3) by (auto simp: lookup_source_def jhas_def split: option.splits if_splits)
  ultimately show ?thesis
    using wf source(5)
    by (auto simp: window_wf_def jsize_jset dest!: set_jset_cases)
qed (use wf in auto)

interpretation replay: step_machine "\<lambda>iv w. snd (check iv w)" .

lemma run_wf: "window_wf w \<Longrightarrow> window_wf (replay.run ivs w)"
  by (rule replay.run_invariant) (rule check_wf)

lemma run_keeps_limits:
  "maxSources (replay.run ivs w) = maxSources w \<and> maxFrames (replay.run ivs w) = maxFrames w
     \<and> timestampWindow (replay.run ivs w) = timestampWindow w"
  by (rule replay.run_invariant [where I = "\<lambda>w'. maxSources w' = maxSources w
        \<and> maxFrames w' = maxFrames w \<and> timestampWindow w' = timestampWindow w"])
    (simp_all add: check_keeps_limits)

section \<open>No IV is accepted twice\<close>

fun triple_of :: "jsv \<Rightarrow> 32 word \<times> 32 word \<times> 32 word" where
  "triple_of (JBytes bs) = iv_triple bs"
| "triple_of _ = (0, 0, 0)"

text \<open>What a source remembers of the tokens \<open>T\<close> it has accepted: each is still
  listed or lies more than a window behind the newest timestamp.\<close>

definition remembers :: "32 word \<Rightarrow> int \<Rightarrow> (32 word \<times> 32 word) set \<Rightarrow> replay_source \<Rightarrow> bool" where
  "remembers base win T src \<longleftrightarrow> off base (newest src) < 2 ^ 31
     \<and> (\<forall>(tok, seen) \<in> set (frames src). seen = fst tok \<and> off base seen < 2 ^ 31)
     \<and> (\<forall>(t, c) \<in> T. off base t < 2 ^ 31
          \<and> (jhas (frames src) (t, c) \<or> off base (newest src) - off base t > win))"

lemma remembers_fresh: "off base t < 2 ^ 31 \<Longrightarrow> remembers base win {} \<lparr>newest = t, frames = []\<rparr>"
  by (simp add: remembers_def)

lemma remembers_advance:
  assumes rem: "remembers base win T src" and t: "off base t < 2 ^ 31"
    and ahead: "to_int32 (uint t - uint (newest src)) > 0"
  shows "remembers base win T (src\<lparr>newest := t,
    frames := filter (\<lambda>(_, seenAt). \<not> to_int32 (uint t - uint seenAt) > win) (frames src)\<rparr>)"
    (is "remembers _ _ _ (src\<lparr>newest := t, frames := ?fs\<rparr>)")
proof -
  have fs: "?fs = filter (\<lambda>(tok, _). off base t - off base (fst tok) \<le> win) (frames src)"
    using rem t by (intro filter_cong) (auto simp: remembers_def distance_off)
  have "off base (newest src) < off base t"
    using rem t ahead by (simp add: remembers_def distance_off [of base])
  then have gap: "off base t - off base u > win" if "off base (newest src) - off base u > win" for u
    using that by linarith
  have keep: "jhas ?fs (u, c) \<or> off base t - off base u > win" if "(u, c) \<in> T" for u c
  proof (cases "off base t - off base u \<le> win")
    case True
    then have "jhas (frames src) (u, c)" using rem gap [of u] that by (fastforce simp: remembers_def)
    with True show ?thesis
      unfolding fs jhas_def by (simp add: jget_filter [of "\<lambda>tok. off base t - off base (fst tok) \<le> win"])
  qed simp
  show ?thesis
    using rem t keep unfolding remembers_def by auto
qed

lemma remembers_put:
  assumes "remembers base win T src" and "off base t < 2 ^ 31"
  shows "remembers base win (insert (t, c) T) (src\<lparr>frames := jset (t, c) t (frames src)\<rparr>)"
  using assms by (auto simp: remembers_def dest!: set_jset_cases)

lemma check_source_remembers:
  assumes rem: "remembers base win T src" and t: "off base t < 2 ^ 31"
    and run: "check_source win cap t c src = (v, src')"
  shows "remembers base win (if v = VOk then insert (t, c) T else T) src'"
    and "v = VOk \<Longrightarrow> (t, c) \<notin> T"
proof -
  let ?d = "to_int32 (uint t - uint (newest src))"
  define src1 where "src1 = (if ?d > 0
      then src\<lparr>newest := t, frames := filter (\<lambda>(_, seenAt). \<not> to_int32 (uint t - uint seenAt) > win) (frames src)\<rparr>
      else src)"
  have rem1: "remembers base win T src1"
    using rem remembers_advance [OF rem t] by (simp add: src1_def)
  have cases: "(v \<noteq> VOk \<and> (src' = src \<or> src' = src1)) \<or>
      (v = VOk \<and> src' = src1\<lparr>frames := jset (t, c) t (frames src1)\<rparr> \<and> \<not> jhas (frames src) (t, c) \<and> \<not> ?d < - win)"
    using run unfolding src1_def [symmetric] check_source_def Let_def by (auto split: if_splits)
  then show "remembers base win (if v = VOk then insert (t, c) T else T) src'"
    using rem rem1 remembers_put [OF rem1 t] by auto
  have "?d = off base t - off base (newest src)"
    using rem t by (simp add: remembers_def distance_off)
  then show "(t, c) \<notin> T" if "v = VOk"
    using that cases rem by (auto simp: remembers_def)
qed

definition window_remembers ::
  "(32 word \<Rightarrow> 32 word) \<Rightarrow> (32 word \<times> 32 word \<times> 32 word) set \<Rightarrow> replay_window \<Rightarrow> bool" where
  "window_remembers base A w \<longleftrightarrow> (\<forall>s. case jget (sources w) s of
      None \<Rightarrow> {p. (s, p) \<in> A} = {}
    | Some src \<Rightarrow> remembers (base s) (timestampWindow w) {p. (s, p) \<in> A} src)"

text \<open>The timestamps of the IVs lie in the half range above a base chosen per source.\<close>

definition half_range :: "(32 word \<Rightarrow> 32 word) \<Rightarrow> jsv \<Rightarrow> bool" where
  "half_range base iv \<longleftrightarrow> (\<forall>bs. iv = JBytes bs \<longrightarrow> off (base (get_uint32 bs 0)) (get_uint32 bs 4) < 2 ^ 31)"

lemma accept_remembers:
  assumes rem: "window_remembers base A w" and half: "half_range base iv"
    and run: "accept iv w = (ok, w')"
  shows "window_remembers base (if ok then insert (triple_of iv) A else A) w'"
    and "ok \<Longrightarrow> triple_of iv \<notin> A"
proof -
  have "window_remembers base (if ok then insert (triple_of iv) A else A) w' \<and> (ok \<longrightarrow> triple_of iv \<notin> A)"
  proof (cases rule: check_cases [of iv w])
    case (source bs src0 v src)
    let ?s = "get_uint32 bs 0" and ?t = "get_uint32 bs 4" and ?c = "get_uint32 bs 8"
    let ?T = "{p. (?s, p) \<in> A}"
    have t: "off (base ?s) ?t < 2 ^ 31" using half source(1) by (simp add: half_range_def)
    have tr: "triple_of iv = (?s, ?t, ?c)" using source(1) by (simp add: iv_triple_def)
    have "remembers (base ?s) (timestampWindow w) ?T src0"
    proof (cases "jget (sources w) ?s")
      case None
      then have "?T = {}" and "src0 = \<lparr>newest = ?t, frames = []\<rparr>"
        using rem [unfolded window_remembers_def, rule_format, of ?s] source(3)
        by (auto simp: lookup_source_def split: if_splits)
      then show ?thesis by (simp only: remembers_fresh [OF t])
    next
      case (Some src1)
      then show ?thesis
        using rem [unfolded window_remembers_def, rule_format, of ?s] source(3)
        by (simp add: lookup_source_def)
    qed
    note cs = check_source_remembers [OF this t source(4)]
    have res: "ok = (v = VOk)" "w' = w\<lparr>sources := jset ?s src (sources w)\<rparr>"
      using run source(5) by (auto simp: accept_def)
    define A' where "A' = (if ok then insert (triple_of iv) A else A)"
    have here: "{p. (?s, p) \<in> A'} = (if v = VOk then insert (?t, ?c) ?T else ?T)"
      using tr res by (auto simp: A'_def)
    have there: "{p. (s, p) \<in> A'} = {p. (s, p) \<in> A}" if "s \<noteq> ?s" for s
      using that tr by (auto simp: A'_def)
    have "window_remembers base A' w'"
      unfolding window_remembers_def
    proof
      fix s
      show "case jget (sources w') s of None \<Rightarrow> {p. (s, p) \<in> A'} = {}
        | Some src \<Rightarrow> remembers (base s) (timestampWindow w') {p. (s, p) \<in> A'} src"
        using cs(1) here there [of s] rem [unfolded window_remembers_def, rule_format, of s] res
        by (cases "s = ?s"; cases "jget (sources w) s") simp_all
    qed
    then show ?thesis using cs(2) res tr unfolding A'_def by auto
  qed (use rem run in \<open>auto simp: accept_def\<close>)
  then show "window_remembers base (if ok then insert (triple_of iv) A else A) w'"
    and "ok \<Longrightarrow> triple_of iv \<notin> A" by auto
qed

lemma accepted_fresh:
  assumes "window_remembers base A w" and "\<forall>iv \<in> set ivs. half_range base iv"
  shows "distinct (map triple_of (accepted ivs w)) \<and> triple_of ` set (accepted ivs w) \<inter> A = {}"
  using assms
proof (induction ivs arbitrary: A w)
  case (Cons iv ivs)
  obtain ok w' where run: "accept iv w = (ok, w')" by force
  have half: "half_range base iv" using Cons.prems by simp
  note step = accept_remembers [OF Cons.prems(1) half run]
  have "distinct (map triple_of (accepted ivs w')) \<and>
      triple_of ` set (accepted ivs w') \<inter> (if ok then insert (triple_of iv) A else A) = {}"
    using Cons.IH [OF step(1)] Cons.prems(2) by simp
  then show ?case using step(2) run by (cases ok) auto
qed simp

lemma window_remembers_empty: "sources w = [] \<Longrightarrow> window_remembers base {} w"
  by (simp add: window_remembers_def)

lemma accepted_distinct:
  assumes "sources w = []" and "\<forall>iv \<in> set ivs. half_range base iv"
  shows "distinct (accepted ivs w)"
  using accepted_fresh [OF window_remembers_empty [OF assms(1)] assms(2)]
  by (simp add: distinct_map)

section \<open>A stream that fits the window is accepted\<close>

text \<open>The state after some frames of a stream whose timestamps stay within one window
  of a base: \<open>n\<close> frames were checked, all of them among the triples \<open>P\<close>.\<close>

definition fitting :: "(32 word \<Rightarrow> 32 word) \<Rightarrow> (32 word \<times> 32 word \<times> 32 word) set \<Rightarrow> nat
    \<Rightarrow> 32 word set \<Rightarrow> replay_window \<Rightarrow> bool" where
  "fitting base P n S w \<longleftrightarrow> jwf (sources w) \<and> set (jkeys (sources w)) \<subseteq> S
     \<and> (\<forall>s src. jget (sources w) s = Some src \<longrightarrow>
          off (base s) (newest src) \<le> timestampWindow w \<and> jsize (frames src) \<le> n
          \<and> (\<forall>tok. jhas (frames src) tok \<longrightarrow> (s, tok) \<in> P))"

lemma jhas_filterD: "jhas (filter Q m) k \<Longrightarrow> jhas m k"
  by (auto simp: jhas_iff jkeys_def)

lemma check_source_accepts:
  assumes "off base t \<le> win" and "off base (newest src) \<le> win" and "win < 2 ^ 31"
    and "\<not> jhas (frames src) (t, c)" and "jsize (frames src) < cap"
  obtains src' where "check_source win cap t c src = (VOk, src')"
    "newest src' = newest src \<or> newest src' = t" "jsize (frames src') \<le> Suc (jsize (frames src))"
    "\<And>tok. jhas (frames src') tok \<Longrightarrow> tok = (t, c) \<or> jhas (frames src) tok"
proof -
  let ?d = "to_int32 (uint t - uint (newest src))"
  define src1 where "src1 = (if ?d > 0
      then src\<lparr>newest := t, frames := filter (\<lambda>(_, seenAt). \<not> to_int32 (uint t - uint seenAt) > win) (frames src)\<rparr>
      else src)"
  have "?d = off base t - off base (newest src)"
    using assms by (intro distance_off) auto
  moreover have "0 \<le> off base t" by (simp add: off_def)
  ultimately have "\<not> ?d < - win" using assms(2) by linarith
  moreover have small: "jsize (frames src1) \<le> jsize (frames src)" by (simp add: src1_def)
  ultimately have "check_source win cap t c src = (VOk, src1\<lparr>frames := jset (t, c) t (frames src1)\<rparr>)"
    using assms(4,5) unfolding src1_def [symmetric] check_source_def Let_def by simp
  then show ?thesis
  proof (rule that)
    show "newest (src1\<lparr>frames := jset (t, c) t (frames src1)\<rparr>) = newest src \<or>
        newest (src1\<lparr>frames := jset (t, c) t (frames src1)\<rparr>) = t"
      by (simp add: src1_def)
    show "jsize (frames (src1\<lparr>frames := jset (t, c) t (frames src1)\<rparr>)) \<le> Suc (jsize (frames src))"
      using small by (simp add: jsize_jset)
    show "tok = (t, c) \<or> jhas (frames src) tok"
      if "jhas (frames (src1\<lparr>frames := jset (t, c) t (frames src1)\<rparr>)) tok" for tok
      using that by (auto simp: src1_def dest: jhas_filterD split: if_splits)
  qed
qed

lemma fitting_room:
  assumes "fitting base P n S w" and "finite S" and "card S \<le> maxSources w" and "s \<in> S"
    and "jget (sources w) s = None"
  shows "jsize (sources w) < maxSources w"
proof -
  have "set (jkeys (sources w)) \<subset> S"
    using assms by (auto simp: fitting_def jget_None_iff)
  then have "card (set (jkeys (sources w))) < card S" using assms(2) by (rule psubset_card_mono [rotated])
  then show ?thesis
    using assms by (simp add: fitting_def jwf_def distinct_card jsize_keys del: length_map)
qed

lemma fitting_accept:
  assumes fit: "fitting base P n S w" and S: "finite S" "card S \<le> maxSources w"
    and bs: "length bs = 12" "get_uint32 bs 0 \<in> S"
    and near: "off (base (get_uint32 bs 0)) (get_uint32 bs 4) \<le> timestampWindow w"
    and win: "timestampWindow w < 2 ^ 31" and new: "iv_triple bs \<notin> P" and n: "n < maxFrames w"
  obtains w' where "accept (JBytes bs) w = (True, w')" "fitting base (insert (iv_triple bs) P) (Suc n) S w'"
    "maxSources w' = maxSources w" "maxFrames w' = maxFrames w" "timestampWindow w' = timestampWindow w"
proof -
  let ?s = "get_uint32 bs 0" and ?t = "get_uint32 bs 4" and ?c = "get_uint32 bs 8"
  obtain src0 where src0: "lookup_source ?s ?t w = Some src0"
      "off (base ?s) (newest src0) \<le> timestampWindow w" "jsize (frames src0) \<le> n"
      "\<And>tok. jhas (frames src0) tok \<Longrightarrow> (?s, tok) \<in> P"
  proof (cases "jget (sources w) ?s")
    case None
    then show ?thesis
      using fitting_room [OF fit S bs(2) None] near
      by (intro that [of "\<lparr>newest = ?t, frames = []\<rparr>"]) (auto simp: lookup_source_def jhas_def)
  next
    case (Some src)
    then show ?thesis using fit by (intro that [of src]) (auto simp: lookup_source_def fitting_def)
  qed
  have "\<not> jhas (frames src0) (?t, ?c)" using new src0(4) by (auto simp: iv_triple_def)
  moreover have "jsize (frames src0) < maxFrames w" using src0(3) n by simp
  ultimately obtain src where src: "check_source (timestampWindow w) (maxFrames w) ?t ?c src0 = (VOk, src)"
      "newest src = newest src0 \<or> newest src = ?t" "jsize (frames src) \<le> Suc (jsize (frames src0))"
      "\<And>tok. jhas (frames src) tok \<Longrightarrow> tok = (?t, ?c) \<or> jhas (frames src0) tok"
    using check_source_accepts [OF near src0(2) win] by metis
  have run: "accept (JBytes bs) w = (True, w\<lparr>sources := jset ?s src (sources w)\<rparr>)"
    using bs(1) src0(1) src(1) by (simp add: accept_def check_def check_bytes_def Let_def)
  moreover have "fitting base (insert (iv_triple bs) P) (Suc n) S (w\<lparr>sources := jset ?s src (sources w)\<rparr>)"
    using fit bs(2) near src src0 by (fastforce simp: fitting_def iv_triple_def)
  ultimately show ?thesis by (rule that) simp_all
qed

lemma fitting_stream_accepted:
  assumes "fitting base P n S w" and "finite S" "card S \<le> maxSources w" "timestampWindow w < 2 ^ 31"
    and "\<forall>bs \<in> set bss. length bs = 12 \<and> get_uint32 bs 0 \<in> S \<and> iv_triple bs \<notin> P
           \<and> off (base (get_uint32 bs 0)) (get_uint32 bs 4) \<le> timestampWindow w"
    and "distinct bss" and "n + length bss \<le> maxFrames w"
  shows "accepted (map JBytes bss) w = map JBytes bss"
  using assms
proof (induction bss arbitrary: P n w)
  case (Cons bs bss)
  have "length bs = 12" and "get_uint32 bs 0 \<in> S" and "iv_triple bs \<notin> P"
    and "off (base (get_uint32 bs 0)) (get_uint32 bs 4) \<le> timestampWindow w"
    and "n < maxFrames w"
    using Cons.prems by simp_all
  then obtain w' where w': "accept (JBytes bs) w = (True, w')"
      "fitting base (insert (iv_triple bs) P) (Suc n) S w'"
      "maxSources w' = maxSources w" "maxFrames w' = maxFrames w" "timestampWindow w' = timestampWindow w"
    using fitting_accept [OF Cons.prems(1-3)] Cons.prems(4) by metis
  have "\<forall>cs \<in> set bss. iv_triple cs \<noteq> iv_triple bs"
    using Cons.prems(5,6) by (auto dest: iv_triple_inject)
  then have "accepted (map JBytes bss) w' = map JBytes bss"
    using Cons.prems w' by (intro Cons.IH [OF w'(2)]) auto
  then show ?case using w'(1) by simp
qed simp

section \<open>Properties\<close>

text \<open>Property C25: over every sequence of IVs offered to a new window, no IV is accepted twice, as
  long as the RTP timestamps of each source stay within half of the 32-bit timestamp
  range (the program renews media keys long before that).\<close>

theorem replay_at_most_once:
  assumes "\<forall>iv \<in> set ivs. half_range base iv"
  shows "distinct (accepted ivs new_window)"
  by (rule accepted_distinct [OF _ assms]) (simp add: new_window_def)

theorem replay_at_most_once_witness:
  "distinct (accepted [JBytes [0,0,0,1, 0,0,0,9, 0,0,0,0], JBytes [0,0,0,1, 0,0,0,9, 0,0,0,0]] new_window)
   \<and> accepted [JBytes [0,0,0,1, 0,0,0,9, 0,0,0,0], JBytes [0,0,0,1, 0,0,0,9, 0,0,0,0]] new_window
       = [JBytes [0,0,0,1, 0,0,0,9, 0,0,0,0]]"
proof
  show "distinct (accepted [JBytes [0,0,0,1, 0,0,0,9, 0,0,0,0], JBytes [0,0,0,1, 0,0,0,9, 0,0,0,0]] new_window)"
    by (rule replay_at_most_once [of _ "\<lambda>_. 0"])
      (simp add: half_range_def off_def get_uint32_def)
qed (simp add: accept_def check_def check_bytes_def lookup_source_def check_source_def
    new_window_def get_uint32_def to_int32_def jhas_def jsize_jset)

text \<open>The limit of half the range is needed: once the timestamps of a source have
  advanced past it, an IV that was accepted before is accepted again.\<close>

theorem replay_wraps_past_half_range:
  "\<exists>iv b c. accepted [iv, b, c, iv] new_window = [iv, b, c, iv]"
proof (intro exI)
  show "accepted [JBytes [0,0,0,1, 0,0,0,0, 0,0,0,0], JBytes [0,0,0,1, 0x70,0,0,0, 0,0,0,0],
      JBytes [0,0,0,1, 0xE0,0,0,0, 0,0,0,0], JBytes [0,0,0,1, 0,0,0,0, 0,0,0,0]] new_window
    = [JBytes [0,0,0,1, 0,0,0,0, 0,0,0,0], JBytes [0,0,0,1, 0x70,0,0,0, 0,0,0,0],
      JBytes [0,0,0,1, 0xE0,0,0,0, 0,0,0,0], JBytes [0,0,0,1, 0,0,0,0, 0,0,0,0]]"
    by (simp add: accept_def check_def check_bytes_def lookup_source_def check_source_def
        new_window_def get_uint32_def to_int32_def jhas_def jset_def jget_def)
qed

text \<open>Whatever is offered, a window never holds more than 8 sources nor more than
  8192 frames of one source.\<close>

theorem replay_window_bounded:
  "jsize (sources (fold (\<lambda>iv w. snd (check iv w)) ivs new_window)) \<le> 8
   \<and> (\<forall>s src. jget (sources (fold (\<lambda>iv w. snd (check iv w)) ivs new_window)) s = Some src
        \<longrightarrow> jsize (frames src) \<le> 8192)"
proof -
  let ?w = "replay.run ivs new_window"
  have "window_wf ?w" by (rule run_wf [OF new_window_wf])
  moreover have "maxSources ?w = 8 \<and> maxFrames ?w = 8192"
    using run_keeps_limits [of ivs new_window] by (simp add: new_window_def)
  ultimately show ?thesis
    unfolding replay.run_def [symmetric] window_wf_def source_wf_def
    by (auto dest!: jget_in)
qed

theorem replay_window_bounded_witness:
  "jsize (sources (fold (\<lambda>iv w. snd (check iv w)) [JBytes [0,0,0,1, 0,0,0,0, 0,0,0,0]] new_window)) \<le> 8"
  using replay_window_bounded [of "[JBytes [0,0,0,1, 0,0,0,0, 0,0,0,0]]"] by blast

text \<open>Property C26: the window does not drop legitimate media: distinct IVs of at most 8 sources,
  at most 8192 of them, in any order, with the timestamps of a source within one window
  (1800000 ticks) of each other, are all accepted.\<close>

theorem replay_accepts_fitting_stream:
  assumes "distinct bss" and "length bss \<le> 8192"
    and "\<forall>bs \<in> set bss. length bs = 12 \<and> off (base (get_uint32 bs 0)) (get_uint32 bs 4) \<le> 1800000"
    and "card ((\<lambda>bs. get_uint32 bs 0) ` set bss) \<le> 8"
  shows "accepted (map JBytes bss) new_window = map JBytes bss"
  by (rule fitting_stream_accepted [where base = base and P = "{}" and n = 0
        and S = "(\<lambda>bs. get_uint32 bs 0) ` set bss"])
    (use assms in \<open>auto simp: fitting_def new_window_def jkeys_def\<close>)

theorem replay_accepts_fitting_stream_witness:
  "accepted (map JBytes [[0,0,0,1, 0,0,0,5, 0,0,0,1], [0,0,0,1, 0,0,0,3, 0,0,0,0]]) new_window
   = map JBytes [[0,0,0,1, 0,0,0,5, 0,0,0,1], [0,0,0,1, 0,0,0,3, 0,0,0,0]]"
  by (rule replay_accepts_fitting_stream [of _ "\<lambda>_. 0"]) (simp_all add: off_def get_uint32_def)

end
