(* ===== verification/Media_Envelope.thy ===== *)
theory Media_Envelope
  imports Noxa_Prelude
begin

text \<open>
  The layout checks around the frame cipher
  (client/frontend/src/media-frame-envelope.js and hardware-probe-frame.js).
  An H.264 frame keeps a clear header (start codes, parameter sets and the first two
  bytes of the first slice); the rest is encrypted and escaped. The theory models the
  Annex-B scan of the header with the program's limits, the removal of the escape
  bytes and the size an encrypted frame is compared by.
  It shows that the header lies within the frame, that its normalised length differs
  by at most one byte per unit, that the header never depends on the payload behind it,
  and that unescaping inverts H.264 emulation prevention.
\<close>

unbundle bit_operations_syntax

section \<open>Model\<close>

record media_frame =
  fdata :: bytes
  fmime :: "string option"  \<comment> \<open>\<^verbatim>\<open>getMetadata().mimeType\<close>; \<open>None\<close> when absent or the call throws\<close>
  ftype :: string

definition MAX_FRAME :: nat where "MAX_FRAME = 16 * 1024 * 1024"
definition MAX_HEADER :: nat where "MAX_HEADER = 64 * 1024"

text \<open>\<^verbatim>\<open>String.prototype.toLowerCase\<close> on the ASCII letters.\<close>

definition to_lower_char :: "char \<Rightarrow> char" where
  "to_lower_char c = (let n = of_char c :: nat in if 65 \<le> n \<and> n \<le> 90 then char_of (n + 32) else c)"

definition to_lower :: "string \<Rightarrow> string" where
  "to_lower s = map to_lower_char s"

definition frameMime :: "media_frame \<Rightarrow> string" where
  "frameMime f = (case fmime f of None \<Rightarrow> '''' | Some m \<Rightarrow> to_lower m)"

definition startCode :: "bytes \<Rightarrow> nat \<Rightarrow> nat" where
  "startCode bs i =
     (if byte_at bs i \<noteq> Some 0 \<or> byte_at bs (i + 1) \<noteq> Some 0 then 0
      else if byte_at bs (i + 2) = Some 1 then 3
      else if byte_at bs (i + 2) = Some 0 \<and> byte_at bs (i + 3) = Some 1 then 4 else 0)"

definition h264TemporalPrefix :: "bytes \<Rightarrow> bool" where
  "h264TemporalPrefix nal \<longleftrightarrow> length nal \<ge> 5 \<and> length nal \<le> 16
     \<and> nal ! 0 AND 0x80 = 0 \<and> nal ! 0 AND 31 = 14
     \<and> nal ! 1 AND 0x80 \<noteq> 0 \<and> nal ! 2 = 0x80 \<and> nal ! 3 AND 0x10 = 0
     \<and> nal ! 3 AND 3 = 3 \<and> drop_bit 5 (nal ! 3) \<le> 2"

text \<open>\<^verbatim>\<open>subarray(from, to)\<close>.\<close>

definition subarray :: "bytes \<Rightarrow> nat \<Rightarrow> nat \<Rightarrow> bytes" where
  "subarray bs i j = take (j - i) (drop i bs)"

text \<open>The inner loop: the next start code at or after a position, or the end.\<close>

function nal_end :: "bytes \<Rightarrow> nat \<Rightarrow> nat" where
  "nal_end bs e = (if e < length bs \<and> startCode bs e = 0 then nal_end bs (Suc e) else e)"
  by pat_completeness auto
termination
  by (relation "measure (\<lambda>(bs, e). length bs - e)") auto

declare nal_end.simps [simp del]

record clear_header =
  hlength :: nat
  normalized :: nat

text \<open>One iteration of the outer loop: give up, return the header, or go on behind the
  unit with the new \<^verbatim>\<open>offset\<close>, \<^verbatim>\<open>normalized\<close> and \<^verbatim>\<open>prefix\<close>.\<close>

datatype nal_result = NReject | NDone clear_header | NNext nat nat "bytes option"

definition clear_header_step :: "bytes \<Rightarrow> nat \<Rightarrow> nat \<Rightarrow> bytes option \<Rightarrow> nal_result" where
  "clear_header_step bs offset norm prefix =
     (let code = startCode bs offset; nal = offset + code; type = bs ! nal AND 31;
          end = nal_end bs (nal + 1); unit = subarray bs nal end
      in if code = 0 then NReject
         else if nal + 1 \<ge> length bs \<or> bs ! nal AND 0x80 \<noteq> 0 then NReject
         else if type = 1 \<or> type = 5 then
           (case prefix of
              Some p \<Rightarrow> if (p ! 1 AND 0x40 \<noteq> 0) \<noteq> (type = 5) then NReject
                         else NDone \<lparr>hlength = nal + 2, normalized = norm + 4 + 2\<rparr>
            | None \<Rightarrow> NDone \<lparr>hlength = nal + 2, normalized = norm + 4 + 2\<rparr>)
         else if type \<notin> {6, 7, 8, 9, 12, 14} then NReject
         else if end > MAX_HEADER then NReject
         else if type = 14 then
           (if prefix \<noteq> None \<or> \<not> h264TemporalPrefix unit then NReject
            else NNext end (norm + 4 + (end - nal)) (Some unit))
         else NNext end (norm + 4 + (end - nal)) prefix)"

function clear_header_loop ::
  "bytes \<Rightarrow> nat \<Rightarrow> nat \<Rightarrow> nat \<Rightarrow> bytes option \<Rightarrow> clear_header option" where
  "clear_header_loop bs offset norm nals prefix =
     (if offset < length bs \<and> offset \<le> MAX_HEADER \<and> nals < 128 then
        (case clear_header_step bs offset norm prefix of
           NReject \<Rightarrow> None
         | NDone h \<Rightarrow> Some h
         | NNext offset' norm' prefix' \<Rightarrow> clear_header_loop bs offset' norm' (Suc nals) prefix')
      else None)"
  by pat_completeness auto
termination
  by (relation "measure (\<lambda>(bs, offset, norm, nals, prefix). 128 - nals)") auto

declare clear_header_loop.simps [simp del]

definition h264ClearHeader :: "bytes \<Rightarrow> clear_header option" where
  "h264ClearHeader bs = clear_header_loop bs 0 0 0 None"

text \<open>Whether the byte at an index is an escape byte of the encrypted tail.\<close>

definition escape_at :: "bytes \<Rightarrow> nat \<Rightarrow> bool" where
  "escape_at bs i \<longleftrightarrow> i \<ge> 2 \<and> bs ! i = 3 \<and> bs ! (i - 1) = 0 \<and> bs ! (i - 2) = 0
     \<and> i + 1 < length bs \<and> bs ! (i + 1) \<le> 3"

definition unescapeTail :: "bytes \<Rightarrow> bytes" where
  "unescapeTail bs = map (nth bs) (filter (\<lambda>i. \<not> escape_at bs i) [0..<length bs])"

record envelope =
  esize :: nat
  tail :: bytes

definition mediaFrameEnvelope :: "media_frame \<Rightarrow> bool \<Rightarrow> envelope option" where
  "mediaFrameEnvelope f encrypted =
     (let bs = fdata f in
      if length bs = 0 \<or> length bs > MAX_FRAME then None
      else if frameMime f \<noteq> ''video/h264'' then Some \<lparr>esize = length bs, tail = bs\<rparr>
      else case h264ClearHeader bs of
          None \<Rightarrow> None
        | Some header \<Rightarrow>
            let raw = drop (hlength header) bs;
                t = (if encrypted then unescapeTail raw else raw)
            in Some \<lparr>esize = normalized header + length t, tail = t\<rparr>)"

text \<open>The neutral probe pictures sent while no hardware encoder is proven.\<close>

definition probe_VP8 :: bytes where
  "probe_VP8 = [0x10,0x02,0x00,0x9d,0x01,0x2a,0x08,0x00,0x08,0x00,0x00,0x47,0x08,0x85,0x85,0x88,0x85,0x84,0x88,0x02,0x02,0x00,0x0c,0x0d,0x60,0x00,0xfe,0xff,0xab,0x50,0x80]"

definition probe_H264 :: bytes where
  "probe_H264 = [0,0,0,1,0x67,0x42,0xc0,0x1f,0x0f,0xd9,0x1f,0x88,0x88,0x84,0,0,3,0,4,0,0,3,0,0xc8,0x3c,0x60,0xc9,0x20,0,0,0,1,0x68,0x87,0xcb,0x83,0xcb,0x20,0,0,0,1,0x65,0x88,0x84,0x0a,0xf2,0x62,0x80,0,0xa7,0xbe]"

definition hardwareProbeFrame :: "media_frame \<Rightarrow> bytes option" where
  "hardwareProbeFrame f =
     (if frameMime f = ''video/h264'' then Some probe_H264
      else if frameMime f = ''video/vp8'' \<and> ftype f = ''key'' then Some probe_VP8
      else None)"

section \<open>The header scan\<close>

lemma startCode_cases: "startCode bs i = 0 \<or> startCode bs i = 3 \<or> startCode bs i = 4"
  by (auto simp: startCode_def)

lemma startCode_bound: "startCode bs i \<noteq> 0 \<Longrightarrow> i + startCode bs i \<le> length bs"
  by (auto simp: startCode_def split: if_splits)

lemma nal_end_ge: "e \<le> nal_end bs e"
proof (induction bs e rule: nal_end.induct)
  case (1 bs e)
  then show ?case by (subst nal_end.simps) auto
qed

lemma nal_end_le: "e \<le> length bs \<Longrightarrow> nal_end bs e \<le> length bs"
proof (induction bs e rule: nal_end.induct)
  case (1 bs e)
  then show ?case by (subst nal_end.simps) auto
qed

lemma nal_end_none_between: "e \<le> j \<Longrightarrow> j < nal_end bs e \<Longrightarrow> startCode bs j = 0"
proof (induction bs e rule: nal_end.induct)
  case (1 bs e)
  then show ?case
    by (cases "e < length bs \<and> startCode bs e = 0"; cases "j = e") (auto simp: nal_end.simps [of bs e])
qed

lemma nal_end_stop: "nal_end bs e < length bs \<Longrightarrow> startCode bs (nal_end bs e) \<noteq> 0"
proof (induction bs e rule: nal_end.induct)
  case (1 bs e)
  then show ?case
    by (cases "e < length bs \<and> startCode bs e = 0") (auto simp: nal_end.simps [of bs e])
qed

text \<open>What an iteration that returns a header, or goes on, has found.\<close>

lemma clear_header_step_done:
  assumes "clear_header_step bs offset norm prefix = NDone h"
  shows "startCode bs offset \<noteq> 0 \<and> offset + startCode bs offset + 1 < length bs
    \<and> h = \<lparr>hlength = offset + startCode bs offset + 2, normalized = norm + 4 + 2\<rparr>"
  using assms unfolding clear_header_step_def Let_def
  by (auto split: if_splits option.splits simp del: One_nat_def)

lemma clear_header_step_next:
  assumes "clear_header_step bs offset norm prefix = NNext e norm' prefix'"
  shows "startCode bs offset \<noteq> 0 \<and> offset + startCode bs offset + 1 < length bs
    \<and> e = nal_end bs (offset + startCode bs offset + 1)
    \<and> norm' = norm + 4 + (e - (offset + startCode bs offset))"
  using assms unfolding clear_header_step_def Let_def
  by (auto split: if_splits option.splits simp del: One_nat_def)

lemma clear_header_loop_bounds:
  assumes "clear_header_loop bs offset norm nals prefix = Some h"
    and "offset \<le> norm" and "norm \<le> offset + nals"
  shows "offset + 5 \<le> hlength h \<and> hlength h \<le> length bs
    \<and> hlength h \<le> normalized h \<and> normalized h \<le> hlength h + 128"
  using assms
proof (induction bs offset norm nals prefix rule: clear_header_loop.induct)
  case (1 bs offset norm nals prefix)
  let ?code = "startCode bs offset"
  from 1(2) have guard: "offset < length bs \<and> offset \<le> MAX_HEADER \<and> nals < 128"
    by (subst (asm) clear_header_loop.simps) (simp split: if_splits)
  show ?case
  proof (cases "clear_header_step bs offset norm prefix")
    case NReject
    with 1(2) guard show ?thesis by (simp add: clear_header_loop.simps [of bs offset])
  next
    case (NDone h')
    with 1(2) guard have "h = h'" by (simp add: clear_header_loop.simps [of bs offset])
    then show ?thesis
      using clear_header_step_done [OF NDone] startCode_cases [of bs offset] 1(3,4) guard by auto
  next
    case (NNext e norm' prefix')
    note step = clear_header_step_next [OF NNext]
    have e: "offset + ?code + 1 \<le> e" using nal_end_ge step by simp
    have code: "?code = 3 \<or> ?code = 4" using step startCode_cases [of bs offset] by auto
    have "e \<le> norm'" and "norm' \<le> e + Suc nals"
      using e code step 1(3,4) by auto
    moreover have "clear_header_loop bs e norm' (Suc nals) prefix' = Some h"
      using 1(2) guard NNext by (simp add: clear_header_loop.simps [of bs offset])
    ultimately have "e + 5 \<le> hlength h \<and> hlength h \<le> length bs
        \<and> hlength h \<le> normalized h \<and> normalized h \<le> hlength h + 128"
      using 1(1) [OF guard NNext] by blast
    then show ?thesis using e by linarith
  qed
qed

lemma h264ClearHeader_bounds:
  assumes "h264ClearHeader bs = Some h"
  shows "5 \<le> hlength h \<and> hlength h \<le> length bs \<and> hlength h \<le> normalized h \<and> normalized h \<le> hlength h + 128"
  using clear_header_loop_bounds [OF assms [unfolded h264ClearHeader_def]] by simp

section \<open>The header does not depend on the payload\<close>

definition agree :: "nat \<Rightarrow> bytes \<Rightarrow> bytes \<Rightarrow> bool" where
  "agree n bs cs \<longleftrightarrow> n \<le> length bs \<and> n \<le> length cs \<and> (\<forall>i < n. bs ! i = cs ! i)"

lemma agree_byte_at: "agree n bs cs \<Longrightarrow> i < n \<Longrightarrow> byte_at bs i = byte_at cs i"
  by (auto simp: agree_def byte_at_def)

lemma startCode_agree_inner: "agree n bs cs \<Longrightarrow> i + 3 < n \<Longrightarrow> startCode cs i = startCode bs i"
  using agree_byte_at [of n bs cs i] agree_byte_at [of n bs cs "i + 1"]
    agree_byte_at [of n bs cs "i + 2"] agree_byte_at [of n bs cs "i + 3"]
  by (simp add: startCode_def)

lemma startCode_agree_found:
  assumes "agree n bs cs" and "startCode bs i \<noteq> 0" and "i + startCode bs i \<le> n"
  shows "startCode cs i = startCode bs i"
proof (cases "i + 3 < n")
  case True
  then show ?thesis using assms(1) by (rule startCode_agree_inner [rotated])
next
  case False
  then have "startCode bs i = 3" and "i + 3 = n"
    using assms(2,3) startCode_cases [of bs i] by auto
  then show ?thesis
    using agree_byte_at [OF assms(1), of i] agree_byte_at [OF assms(1), of "i + 1"]
      agree_byte_at [OF assms(1), of "i + 2"]
    by (auto simp: startCode_def split: if_splits)
qed

lemma nal_end_agree:
  assumes "agree n bs cs" and "nal_end bs e < length bs"
    and "nal_end bs e + startCode bs (nal_end bs e) \<le> n" and "e \<le> length bs"
  shows "nal_end cs e = nal_end bs e"
  using assms
proof (induction bs e rule: nal_end.induct)
  case (1 bs e)
  let ?E = "nal_end bs e"
  have found: "startCode bs ?E \<noteq> 0" by (rule nal_end_stop) (rule 1(3))
  show ?case
  proof (cases "e < length bs \<and> startCode bs e = 0")
    case True
    then have E: "?E = nal_end bs (Suc e)" by (simp add: nal_end.simps [of bs e])
    then have "Suc e \<le> ?E" using nal_end_ge by simp
    moreover have "?E + 3 \<le> n" using found startCode_cases [of bs ?E] 1(4) by auto
    ultimately have "e + 3 < n" by linarith
    then have "startCode cs e = 0" and "e < length cs"
      using startCode_agree_inner [OF 1(2)] True 1(2) by (auto simp: agree_def)
    then have "nal_end cs e = nal_end cs (Suc e)" by (simp add: nal_end.simps [of cs e])
    then show ?thesis using 1(1) [OF True 1(2)] 1(3,4) E True by simp
  next
    case False
    then have E: "?E = e" by (subst nal_end.simps) auto
    then have "startCode cs e = startCode bs e"
      using startCode_agree_found [OF 1(2)] found 1(4) by simp
    then show ?thesis using E found by (simp add: nal_end.simps [of cs e])
  qed
qed

lemma subarray_agree: "agree n bs cs \<Longrightarrow> j \<le> n \<Longrightarrow> subarray cs i j = subarray bs i j"
  by (rule nth_equalityI) (auto simp: subarray_def agree_def)

lemma clear_header_step_agree_done:
  assumes agree: "agree (hlength h) bs cs" and step: "clear_header_step bs offset norm prefix = NDone h"
  shows "clear_header_step cs offset norm prefix = NDone h"
proof -
  note d = clear_header_step_done [OF step]
  have code: "startCode cs offset = startCode bs offset"
    by (rule startCode_agree_found [OF agree]) (use d in auto)
  moreover have "cs ! (offset + startCode bs offset) = bs ! (offset + startCode bs offset)"
    "offset + startCode bs offset + 1 < length cs"
    using agree d by (auto simp: agree_def)
  ultimately show ?thesis
    using step d unfolding clear_header_step_def Let_def
    by (auto split: if_splits option.splits simp del: One_nat_def)
qed

lemma clear_header_step_agree_next:
  assumes agree: "agree n bs cs" and step: "clear_header_step bs offset norm prefix = NNext e norm' prefix'"
    and e: "e < length bs" "e + startCode bs e \<le> n"
  shows "clear_header_step cs offset norm prefix = NNext e norm' prefix'"
proof -
  note d = clear_header_step_next [OF step]
  let ?nal = "offset + startCode bs offset"
  have end_bs: "nal_end bs (?nal + 1) = e" using d by simp
  have "?nal + 1 \<le> e" using nal_end_ge [of "?nal + 1" bs] d by simp
  then have code: "startCode cs offset = startCode bs offset"
    using d e by (intro startCode_agree_found [OF agree]) auto
  have end_cs: "nal_end cs (?nal + 1) = e"
    using nal_end_agree [OF agree, of "?nal + 1"] d e by simp
  have "startCode bs e \<noteq> 0" using nal_end_stop [of bs "?nal + 1"] d e by simp
  then have "e < n" using e by simp
  with \<open>?nal + 1 \<le> e\<close> agree have nth: "cs ! ?nal = bs ! ?nal" and "?nal + 1 < length cs"
    by (auto simp: agree_def)
  then have long: "(length cs \<le> ?nal + 1) = False" "(length bs \<le> ?nal + 1) = False"
    using d by simp_all
  have unit: "subarray cs ?nal e = subarray bs ?nal e"
    by (rule subarray_agree [OF agree]) (use e in simp)
  have "clear_header_step cs offset norm prefix = clear_header_step bs offset norm prefix"
    unfolding clear_header_step_def Let_def code
    by (simp only: end_bs end_cs nth long unit)
  then show ?thesis using step by simp
qed

lemma clear_header_loop_start:
  "clear_header_loop bs offset norm nals prefix = Some h \<Longrightarrow>
     offset < length bs \<and> startCode bs offset \<noteq> 0 \<and> offset \<le> MAX_HEADER \<and> nals < 128"
  by (subst (asm) clear_header_loop.simps)
    (auto split: if_splits nal_result.splits dest!: clear_header_step_done clear_header_step_next)

lemma clear_header_loop_reaches:
  "clear_header_loop bs offset norm nals prefix = Some h \<Longrightarrow> offset + startCode bs offset + 2 \<le> hlength h"
proof (induction bs offset norm nals prefix rule: clear_header_loop.induct)
  case (1 bs offset norm nals prefix)
  have guard: "offset < length bs \<and> offset \<le> MAX_HEADER \<and> nals < 128"
    using clear_header_loop_start [OF 1(2)] by simp
  show ?case
  proof (cases "clear_header_step bs offset norm prefix")
    case (NNext e norm' prefix')
    then have "e + startCode bs e + 2 \<le> hlength h"
      using 1(1) [OF guard NNext] 1(2) guard by (simp add: clear_header_loop.simps [of bs offset])
    then show ?thesis
      using clear_header_step_next [OF NNext] nal_end_ge [of "offset + startCode bs offset + 1" bs] by simp
  qed (use 1(2) guard in \<open>auto simp: clear_header_loop.simps [of bs offset] dest: clear_header_step_done\<close>)
qed

lemma clear_header_loop_agree:
  assumes "clear_header_loop bs offset norm nals prefix = Some h" and "agree (hlength h) bs cs"
  shows "clear_header_loop cs offset norm nals prefix = Some h"
  using assms
proof (induction bs offset norm nals prefix rule: clear_header_loop.induct)
  case (1 bs offset norm nals prefix)
  have guard: "offset < length bs \<and> offset \<le> MAX_HEADER \<and> nals < 128"
    using clear_header_loop_start [OF 1(2)] by simp
  have "offset < length cs"
    using clear_header_loop_reaches [OF 1(2)] 1(3) by (simp add: agree_def)
  then have guard_cs: "offset < length cs \<and> offset \<le> MAX_HEADER \<and> nals < 128" using guard by simp
  show ?case
  proof (cases "clear_header_step bs offset norm prefix")
    case NReject
    with 1(2) guard show ?thesis by (simp add: clear_header_loop.simps [of bs offset])
  next
    case (NDone h')
    with 1(2) guard have "h = h'" by (simp add: clear_header_loop.simps [of bs offset])
    then have "clear_header_step cs offset norm prefix = NDone h"
      using clear_header_step_agree_done [OF 1(3)] NDone by simp
    then show ?thesis using guard_cs by (simp add: clear_header_loop.simps [of cs offset])
  next
    case (NNext e norm' prefix')
    then have rest: "clear_header_loop bs e norm' (Suc nals) prefix' = Some h"
      using 1(2) guard by (simp add: clear_header_loop.simps [of bs offset])
    then have "clear_header_step cs offset norm prefix = NNext e norm' prefix'"
      using clear_header_step_agree_next [OF 1(3) NNext] clear_header_loop_start [OF rest]
        clear_header_loop_reaches [OF rest] by simp
    moreover have "clear_header_loop cs e norm' (Suc nals) prefix' = Some h"
      by (rule 1(1) [OF guard NNext rest 1(3)])
    ultimately show ?thesis using guard_cs by (simp add: clear_header_loop.simps [of cs offset])
  qed
qed

section \<open>Unescaping\<close>

text \<open>The emulation prevention of H.264 (Annex B): inside a unit, two zero bytes followed
  by a byte up to 3 get a byte 3 in between. This is what the cipher applies to an
  encrypted tail; \<open>z\<close> counts the zero bytes written last.\<close>

fun rbsp_escape :: "nat \<Rightarrow> bytes \<Rightarrow> bytes" where
  "rbsp_escape z [] = []"
| "rbsp_escape z (b # bs) =
     (if z \<ge> 2 \<and> b \<le> 3 then 3 # b # rbsp_escape (if b = 0 then 1 else 0) bs
      else b # rbsp_escape (if b = 0 then Suc z else 0) bs)"

definition trailing_zeros :: "bytes \<Rightarrow> nat" where
  "trailing_zeros bs = length (takeWhile (\<lambda>b. b = 0) (rev bs))"

definition unescape_from :: "bytes \<Rightarrow> nat \<Rightarrow> bytes" where
  "unescape_from bs i = map (nth bs) (filter (\<lambda>j. \<not> escape_at bs j) [i..<length bs])"

lemma unescape_from_step:
  "i < length bs \<Longrightarrow> unescape_from bs i = (if escape_at bs i then [] else [bs ! i]) @ unescape_from bs (Suc i)"
  by (simp add: unescape_from_def upt_conv_Cons)

lemma trailing_zeros_snoc: "trailing_zeros (bs @ [b]) = (if b = 0 then Suc (trailing_zeros bs) else 0)"
  by (simp add: trailing_zeros_def)

lemma trailing_zeros_two:
  "trailing_zeros bs \<ge> 2 \<longleftrightarrow> length bs \<ge> 2 \<and> bs ! (length bs - 1) = 0 \<and> bs ! (length bs - 2) = 0"
proof (cases bs rule: rev_cases)
  case (snoc cs b)
  then show ?thesis
    by (cases cs rule: rev_cases) (auto simp: trailing_zeros_def nth_append)
qed (simp add: trailing_zeros_def)

lemma unescape_escape_from:
  "trailing_zeros pre = z \<Longrightarrow> unescape_from (pre @ rbsp_escape z xs) (length pre) = xs"
proof (induction xs arbitrary: pre z)
  case Nil
  then show ?case by (simp add: unescape_from_def)
next
  case (Cons b xs)
  show ?case
  proof (cases "z \<ge> 2 \<and> b \<le> 3")
    case True
    let ?full = "pre @ 3 # b # rbsp_escape (if b = 0 then 1 else 0) xs"
    have tz: "trailing_zeros (pre @ [3, b]) = (if b = 0 then 1 else 0)"
      using trailing_zeros_snoc [of "pre @ [3]" b] trailing_zeros_snoc [of pre 3] by simp
    have "escape_at ?full (length pre)"
      using True Cons.prems trailing_zeros_two [of pre]
      by (auto simp: escape_at_def nth_append)
    moreover have "\<not> escape_at ?full (Suc (length pre))"
      by (auto simp: escape_at_def nth_append)
    ultimately have "unescape_from ?full (length pre) = b # unescape_from ?full (length (pre @ [3, b]))"
      by (simp add: unescape_from_step nth_append)
    also have "unescape_from ?full (length (pre @ [3, b])) = xs"
      using Cons.IH [OF tz] by simp
    finally show ?thesis using True by simp
  next
    case False
    let ?full = "pre @ b # rbsp_escape (if b = 0 then Suc z else 0) xs"
    have tz: "trailing_zeros (pre @ [b]) = (if b = 0 then Suc z else 0)"
      using Cons.prems by (simp add: trailing_zeros_snoc)
    have "\<not> escape_at ?full (length pre)"
      using False Cons.prems trailing_zeros_two [of pre]
      by (auto simp: escape_at_def nth_append)
    then have "unescape_from ?full (length pre) = b # unescape_from ?full (length (pre @ [b]))"
      by (simp add: unescape_from_step)
    also have "unescape_from ?full (length (pre @ [b])) = xs"
      using Cons.IH [OF tz] by simp
    finally show ?thesis using False by auto
  qed
qed

lemma unescapeTail_escape: "unescapeTail (rbsp_escape 0 xs) = xs"
  using unescape_escape_from [of "[]" 0 xs]
  by (simp add: trailing_zeros_def unescape_from_def unescapeTail_def)

lemma unescapeTail_length: "length (unescapeTail bs) \<le> length bs"
  using length_filter_le [of "\<lambda>i. \<not> escape_at bs i" "[0..<length bs]"] by (simp add: unescapeTail_def)

section \<open>The envelope as an interface\<close>

lemma mediaFrameEnvelope_size:
  assumes "mediaFrameEnvelope f enc = Some env"
  shows "length (tail env) \<le> esize env \<and> esize env \<le> length (fdata f) + 128 \<and> 0 < length (fdata f)"
proof (cases "frameMime f = ''video/h264''")
  case True
  then obtain h where h: "h264ClearHeader (fdata f) = Some h"
    and t: "tail env = (if enc then unescapeTail (drop (hlength h) (fdata f)) else drop (hlength h) (fdata f))"
    and e: "esize env = normalized h + length (tail env)" and "0 < length (fdata f)"
    using assms by (auto simp: mediaFrameEnvelope_def Let_def split: if_splits option.splits)
  have "length (tail env) \<le> length (fdata f) - hlength h"
    using t unescapeTail_length [of "drop (hlength h) (fdata f)"] by simp
  then show ?thesis using h264ClearHeader_bounds [OF h] e \<open>0 < length (fdata f)\<close> by auto
next
  case False
  then show ?thesis
    using assms by (auto simp: mediaFrameEnvelope_def Let_def split: if_splits)
qed

lemma mediaFrameEnvelope_other:
  "frameMime f \<noteq> ''video/h264'' \<Longrightarrow> mediaFrameEnvelope f enc = Some env \<Longrightarrow>
     tail env = fdata f \<and> esize env = length (fdata f)"
  by (auto simp: mediaFrameEnvelope_def Let_def split: if_splits)

section \<open>Properties\<close>

text \<open>Property C27: the envelope of an encrypted H.264 frame recovers exactly the ciphertext: for any
  frame with a clear header and any ciphertext behind it, escaped as H.264 demands, the
  tail of the envelope is the ciphertext and the size is the normalised header plus its
  length. So the size comparison around the cipher sees true lengths, whatever bytes the
  cipher produced.\<close>

theorem encrypted_envelope_recovers_ciphertext:
  assumes "h264ClearHeader plain = Some h" and "frameMime f = ''video/h264''"
    and "fdata f = take (hlength h) plain @ rbsp_escape 0 cipher"
    and "length (fdata f) \<le> MAX_FRAME"
  shows "mediaFrameEnvelope f True = Some \<lparr>esize = normalized h + length cipher, tail = cipher\<rparr>"
proof -
  note b = h264ClearHeader_bounds [OF assms(1)]
  have "agree (hlength h) plain (fdata f)"
    using b assms(3) by (auto simp: agree_def nth_append)
  then have "h264ClearHeader (fdata f) = Some h"
    using clear_header_loop_agree assms(1) unfolding h264ClearHeader_def by blast
  moreover have "drop (hlength h) (fdata f) = rbsp_escape 0 cipher"
    using b assms(3) by simp
  moreover have "0 < length (fdata f)" using b assms(3) by auto
  ultimately show ?thesis
    using assms(2,4) by (simp add: mediaFrameEnvelope_def Let_def unescapeTail_escape)
qed

theorem encrypted_envelope_recovers_ciphertext_witness:
  "mediaFrameEnvelope \<lparr>fdata = take 6 [0, 0, 0, 1, 0x65, 0x88, 9, 9] @ rbsp_escape 0 [0, 0, 1, 7],
      fmime = Some ''video/H264'', ftype = ''key''\<rparr> True
   = Some \<lparr>esize = 6 + 4, tail = [0, 0, 1, 7]\<rparr>"
proof -
  have h: "h264ClearHeader [0, 0, 0, 1, 0x65, 0x88, 9, 9] = Some \<lparr>hlength = 6, normalized = 6\<rparr>"
    by (simp add: h264ClearHeader_def clear_header_loop.simps clear_header_step_def startCode_def
        byte_at_def MAX_HEADER_def Let_def)
  have "char_of (104::nat) = CHR ''h''" by code_simp
  then show ?thesis
    using encrypted_envelope_recovers_ciphertext [OF h, of
        "\<lparr>fdata = take 6 [0, 0, 0, 1, 0x65, 0x88, 9, 9] @ rbsp_escape 0 [0, 0, 1, 7],
          fmime = Some ''video/H264'', ftype = ''key''\<rparr>" "[0, 0, 1, 7]"]
    by (simp add: frameMime_def to_lower_def to_lower_char_def MAX_FRAME_def)
qed

text \<open>The clear header of an H.264 frame lies inside the frame, covers at least one start
  code and two slice bytes, and normalising its start codes to four bytes makes it longer
  by at most one byte for each of the at most 128 units.\<close>

theorem clear_header_bounds:
  assumes "h264ClearHeader bs = Some h"
  shows "5 \<le> hlength h \<and> hlength h \<le> length bs
    \<and> hlength h \<le> normalized h \<and> normalized h \<le> hlength h + 128"
  by (rule h264ClearHeader_bounds [OF assms])

theorem clear_header_bounds_witness:
  "h264ClearHeader [0, 0, 1, 0x65, 0x88, 9] = Some \<lparr>hlength = 5, normalized = 6\<rparr>
   \<and> (5::nat) \<le> 5 \<and> (5::nat) \<le> 6"
proof -
  have h: "h264ClearHeader [0, 0, 1, 0x65, 0x88, 9] = Some \<lparr>hlength = 5, normalized = 6\<rparr>"
    by (simp add: h264ClearHeader_def clear_header_loop.simps clear_header_step_def startCode_def
        byte_at_def MAX_HEADER_def Let_def)
  with clear_header_bounds [OF h] show ?thesis by simp
qed

end
