(* ===== verification/Media_Worker.thy ===== *)
theory Media_Worker
  imports Media_Replay Media_Envelope
begin

text \<open>
  The media encryption worker (client/frontend/src/media-e2ee-core.js). The page talks to
  it by messages; every message but \<^verbatim>\<open>attach\<close> is queued and the operations run one after
  the other, but each operation suspends at its \<^verbatim>\<open>await\<close>s, and between two segments of an
  operation frames run through the transforms in front of and behind the cipher.

  The model makes this explicit. A worker state holds the maps of the source, the
  endpoint objects in a heap (a transform closure keeps its endpoint object after the
  endpoint was detached), the queue of operations and the continuation \<open>cont\<close> of
  the running one: a list of segments (\<open>task\<close>), one for each \<^verbatim>\<open>await\<close> of the source.
  A segment boundary is a point where any other event may happen; the model has one at
  every \<^verbatim>\<open>await\<close> and some more between the segments of a loop.
  The frame cipher is the third-party LiveKit worker: the model records the commands
  sent to it and lets it return any frame whatever.
\<close>

section \<open>Constants and validation\<close>

definition IV_LENGTH :: nat where "IV_LENGTH = 12"
definition OVERHEAD :: nat where "OVERHEAD = 16 + IV_LENGTH + 2"
definition MIN_ENCRYPTED :: nat where "MIN_ENCRYPTED = 1 + OVERHEAD"
definition KEYRING :: nat where "KEYRING = 16"
definition MAX_LIVE_EPOCHS :: nat where "MAX_LIVE_EPOCHS = 4"
definition MAX_PIDS :: nat where "MAX_PIDS = 512"
definition MAX_ENDPOINTS :: nat where "MAX_ENDPOINTS = 512"
definition MAX_RETIRED_MARKERS :: nat where "MAX_RETIRED_MARKERS = 4096"
definition HARDWARE_PROOF_MS :: int where "HARDWARE_PROOF_MS = 1000"
definition INITIAL_KEYFRAME_HOLD_MS :: int where "INITIAL_KEYFRAME_HOLD_MS = 1000"
definition MAX_INITIAL_KEYFRAME_BYTES :: nat where "MAX_INITIAL_KEYFRAME_BYTES = 1024 * 1024"
definition MAX_RECEIVE_EPOCH_AGE :: int where "MAX_RECEIVE_EPOCH_AGE = 12 * 60 * 1000"

datatype drop_reason = DUnbound | DEmpty | DPlaintext | DNokey | DCodec | DStale | DUnauthenticated
  | DReplay | DReplayOld | DReplayFull | DReplayInvalid | DUnencrypted | DHardware

text \<open>\<^verbatim>\<open>PID_RE\<close>: 1 to 160 printable ASCII characters.\<close>

definition pid_char :: "char \<Rightarrow> bool" where
  "pid_char c \<longleftrightarrow> (let n = of_char c :: nat in 0x21 \<le> n \<and> n \<le> 0x7e)"

definition pid_re :: "string \<Rightarrow> bool" where
  "pid_re s \<longleftrightarrow> 1 \<le> length s \<and> length s \<le> 160 \<and> list_all pid_char s"

text \<open>\<^verbatim>\<open>ENDPOINT_RE\<close>: lower-case letters, a colon, 1 to 64 word characters or hyphens.\<close>

definition lower_char :: "char \<Rightarrow> bool" where
  "lower_char c \<longleftrightarrow> (let n = of_char c :: nat in 97 \<le> n \<and> n \<le> 122)"

definition endpoint_char :: "char \<Rightarrow> bool" where
  "endpoint_char c \<longleftrightarrow> (let n = of_char c :: nat in (65 \<le> n \<and> n \<le> 90) \<or> (97 \<le> n \<and> n \<le> 122)
     \<or> (48 \<le> n \<and> n \<le> 57) \<or> n = 95 \<or> n = 45)"

definition endpoint_re :: "string \<Rightarrow> bool" where
  "endpoint_re s \<longleftrightarrow> (let pre = takeWhile lower_char s; rest = drop (length pre) s
     in pre \<noteq> [] \<and> rest \<noteq> [] \<and> hd rest = CHR '':'' \<and> 1 \<le> length (tl rest) \<and> length (tl rest) \<le> 64
        \<and> list_all endpoint_char (tl rest))"

fun validPid :: "jsv \<Rightarrow> bool" where
  "validPid (JStr s) = pid_re s"
| "validPid _ = False"

fun validEpoch :: "jsv \<Rightarrow> bool" where
  "validEpoch (JNum e) = (is_safe_integer (JNum e) \<and> e > 0)"
| "validEpoch _ = False"

fun validKid :: "jsv \<Rightarrow> bool" where
  "validKid (JNum k) = (k \<ge> 0 \<and> k < int KEYRING)"
| "validKid _ = False"

fun validEndpointId :: "jsv \<Rightarrow> bool" where
  "validEndpointId (JStr s) = endpoint_re s"
| "validEndpointId _ = False"

fun the_str :: "jsv \<Rightarrow> string" where
  "the_str (JStr s) = s"
| "the_str _ = ''''"

fun the_num :: "jsv \<Rightarrow> int" where
  "the_num (JNum i) = i"
| "the_num _ = 0"

fun the_bytes :: "jsv \<Rightarrow> bytes" where
  "the_bytes (JBytes b) = b"
| "the_bytes _ = []"

fun is_bytes :: "jsv \<Rightarrow> bool" where
  "is_bytes (JBytes _) = True"
| "is_bytes _ = False"

text \<open>A default parameter applies when the field is \<^verbatim>\<open>undefined\<close>.\<close>

fun default_to :: "jsv \<Rightarrow> jsv \<Rightarrow> jsv" where
  "default_to d JUndef = d"
| "default_to d v = v"

datatype operation = Encode | Decode
datatype media_kind = Audio | Video

definition codecAllowed :: "media_frame \<Rightarrow> media_kind \<Rightarrow> bool" where
  "codecAllowed f kind =
     (let mime = frameMime f in case kind of
        Video \<Rightarrow> mime = ''video/vp8'' \<or> mime = ''video/h264''
      | Audio \<Rightarrow> mime = '''' \<or> mime = ''audio/opus'')"

section \<open>State\<close>

datatype material = Junk nat | Imported bytes

record epoch_entry =
  e_kid :: nat
  e_key :: material
  e_fp :: bytes
  e_at :: int
  e_seq :: nat  \<comment> \<open>the identity of the entry object\<close>

record pid_state =
  epochs :: "(int, epoch_entry) jmap"
  active :: int
  retired :: int

text \<open>What a held key frame was admitted under (\<^verbatim>\<open>scope\<close> of the hardware hold).\<close>

record hw_scope =
  sc_gen :: nat
  sc_pid :: string
  sc_sourceTag :: string
  sc_epoch :: int
  sc_entry :: epoch_entry

datatype hold_reason = HProof | HTimeout | HCancelled

record hw_hold =
  h_scope :: hw_scope
  h_deadline :: int
  h_frame :: media_frame
  h_fid :: nat

record endpoint =
  ep_id :: string
  ep_operation :: operation
  ep_kind :: media_kind
  ep_libraryID :: nat
  ep_aborted :: bool
  ep_pid :: string
  ep_gen :: nat
  ep_ready :: bool
  ep_kids :: "(nat, int) jmap"
  ep_dropped :: "drop_reason \<Rightarrow> nat"
  ep_frames :: nat
  ep_authenticated :: bool
  ep_transformer :: bool
  ep_hardwareRequired :: bool
  ep_hardwareUntil :: int
  ep_hardwareCheckAt :: int
  ep_hardwareProbed :: bool
  ep_hardwareProven :: bool
  ep_hardwareHoldAttempted :: bool
  ep_hardwareHold :: "hw_hold option"
  ep_needsKeyframe :: bool
  ep_sourceTag :: string

definition new_endpoint :: "string \<Rightarrow> operation \<Rightarrow> media_kind \<Rightarrow> nat \<Rightarrow> bool \<Rightarrow> bool \<Rightarrow> endpoint" where
  "new_endpoint eid operation kind libraryID transformer hardwareRequired =
     \<lparr>ep_id = eid, ep_operation = operation, ep_kind = kind, ep_libraryID = libraryID,
      ep_aborted = False, ep_pid = '''', ep_gen = 0, ep_ready = False, ep_kids = [],
      ep_dropped = (\<lambda>_. 0), ep_frames = 0, ep_authenticated = False, ep_transformer = transformer,
      ep_hardwareRequired = hardwareRequired, ep_hardwareUntil = 0, ep_hardwareCheckAt = 0,
      ep_hardwareProbed = False, ep_hardwareProven = False, ep_hardwareHoldAttempted = False,
      ep_hardwareHold = None, ep_needsKeyframe = False, ep_sourceTag = ''''\<rparr>"

text \<open>Commands to the cipher library; an endpoint is named by its library slot.\<close>

datatype lk_call =
    LEnable nat
  | LFence nat
  | LSetKey nat material nat bool  \<comment> \<open>library slot, key, index, \<^verbatim>\<open>updateCurrentKeyIndex\<close>\<close>
  | LTransform nat operation
  | LRemoveTransform nat
  | LInit

datatype page_event =
    HardwareCheck string
  | HardwareReady string string
  | FirstFrame string nat
  | KeyFrameRequest nat
  | GenerateKeyFrame nat
  | AttachFailed jsv

record input =
  i_gen :: nat
  i_pid :: string
  i_epoch :: int
  i_n :: nat
  i_iv :: bytes
  i_initialScope :: "hw_scope option"
  i_heldOriginal :: bool

record lib_slot =
  ls_id :: nat
  ls_operation :: operation
  ls_kind :: media_kind

text \<open>A frame handed on by the output transform.\<close>

record emission =
  em_ref :: nat
  em_operation :: operation
  em_pid :: string
  em_epoch :: int
  em_iv :: bytes
  em_frame :: media_frame

datatype worker_error = InvalidEndpoint | AlreadyAttached | EndpointCapacity | CryptorCapacity
  | InvalidProof | InvalidBinding | InvalidKey | RetiredEpoch | ConflictingKey | KeyCapacity
  | NewerEpochHoldsSlot | UnknownEpoch | OlderThanActive | InvalidRetirement | InvalidPid | UnknownOperation

datatype result = ROk | RVersion | RPending | RGen nat | RGenAuth nat bool | RSuperseded nat
  | RHwSuperseded | RInstalled bool

text \<open>The messages of the page; the fields are whatever the page sent.\<close>

datatype op =
    OInit
  | OAttach jsv jsv jsv bool
  | ODetach jsv
  | OHardwareProof jsv jsv jsv jsv
  | OBind jsv jsv jsv
  | OKey jsv jsv jsv jsv
  | OActivate jsv jsv
  | ORetire jsv jsv
  | ORetireOne jsv jsv
  | OForget jsv
  | OUnknown

datatype bind_kont = BUnbind nat | BBind string nat

datatype task =
    TStart op
  | TRetire string int
  | TScrub string nat int "nat list"
  | TSetJunk nat nat
  | TFence
  | TReply result
  | TDetachScrub nat
  | TDetachRemove nat string
  | TDetachFree lib_slot
  | TInstall nat bind_kont
  | TInstallScrub nat "(nat \<times> int \<times> epoch_entry) list" "nat list" bind_kont
  | TInstallKeys nat "(nat \<times> int \<times> epoch_entry) list" bind_kont
  | TBindFinish nat string nat "(nat \<times> int) list"
  | TKeyDigest string int nat bytes
  | TKeyImport string int nat bytes
  | TKeyEvict string
  | TKeyInstall string int nat bytes
  | TKeyFinish string int nat "nat list"
  | TRetireEnd string int
  | TForgetEnd string

record worker =
  clock :: int
  stats_encrypted :: nat
  stats_decrypted :: nat
  stats_cryptorErrors :: nat
  stats_dropped :: "drop_reason \<Rightarrow> nat"
  pids :: "(string, pid_state) jmap"
  retiredMarks :: "(string, int) jmap"
  freeLibrarySlots :: "lib_slot list"
  librarySlots :: nat
  heap :: "nat \<Rightarrow> endpoint"
  nextRef :: nat
  endpoints :: "(string, nat) jmap"
  windows :: "(string \<times> int, replay_window) jmap"
  pendingBinds :: "(string, string \<times> string) jmap"
  initialized :: bool
  fenceSeq :: nat
  junkSeq :: nat
  entrySeq :: nat
  inputs :: "(nat \<times> nat, input) jmap"
  heldDone :: "(nat \<times> hw_hold \<times> hold_reason) list"
  lk_log :: "lk_call list"
  page_log :: "page_event list"
  emitted :: "emission list"
  replies :: "(worker_error + result) list"
  opQueue :: "task list"
  cont :: "task list"

definition new_worker :: worker where
  "new_worker = \<lparr>clock = 0, stats_encrypted = 0, stats_decrypted = 0, stats_cryptorErrors = 0,
     stats_dropped = (\<lambda>_. 0), pids = [], retiredMarks = [], freeLibrarySlots = [], librarySlots = 0,
     heap = (\<lambda>_. new_endpoint '''' Encode Audio 0 False False), nextRef = 0, endpoints = [],
     windows = [], pendingBinds = [], initialized = False, fenceSeq = 0, junkSeq = 0, entrySeq = 0,
     inputs = [], heldDone = [], lk_log = [], page_log = [], emitted = [], replies = [],
     opQueue = [], cont = []\<rparr>"

section \<open>Helpers\<close>

definition upd_ep :: "nat \<Rightarrow> (endpoint \<Rightarrow> endpoint) \<Rightarrow> worker \<Rightarrow> worker" where
  "upd_ep ref f s = s\<lparr>heap := (heap s)(ref := f (heap s ref))\<rparr>"

definition lk :: "lk_call \<Rightarrow> worker \<Rightarrow> worker" where
  "lk c s = s\<lparr>lk_log := lk_log s @ [c]\<rparr>"

definition send :: "page_event \<Rightarrow> worker \<Rightarrow> worker" where
  "send e s = s\<lparr>page_log := page_log s @ [e]\<rparr>"

definition drop_frame :: "nat \<Rightarrow> drop_reason \<Rightarrow> worker \<Rightarrow> worker" where
  "drop_frame ref reason s =
     upd_ep ref (\<lambda>ep. ep\<lparr>ep_dropped := (ep_dropped ep)(reason := ep_dropped ep reason + 1)\<rparr>)
       (s\<lparr>stats_dropped := (stats_dropped s)(reason := stats_dropped s reason + 1)\<rparr>)"

definition ep_refs :: "worker \<Rightarrow> nat list" where
  "ep_refs s = jvals (endpoints s)"

definition bound_refs :: "string \<Rightarrow> worker \<Rightarrow> nat list" where
  "bound_refs pid s = filter (\<lambda>r. ep_pid (heap s r) = pid) (ep_refs s)"

definition epoch_of :: "worker \<Rightarrow> string \<Rightarrow> int \<Rightarrow> epoch_entry option" where
  "epoch_of s pid epoch = (case jget (pids s) pid of None \<Rightarrow> None | Some st \<Rightarrow> jget (epochs st) epoch)"

definition liveEpoch :: "worker \<Rightarrow> string \<Rightarrow> int \<Rightarrow> bool" where
  "liveEpoch s pid epoch \<longleftrightarrow> epoch_of s pid epoch \<noteq> None"

definition activeEpoch :: "worker \<Rightarrow> string \<Rightarrow> int" where
  "activeEpoch s pid = (case jget (pids s) pid of None \<Rightarrow> 0 | Some st \<Rightarrow> active st)"

definition retiredThrough :: "worker \<Rightarrow> string \<Rightarrow> int" where
  "retiredThrough s pid =
     max (case jget (pids s) pid of None \<Rightarrow> 0 | Some st \<Rightarrow> retired st)
         (case jget (retiredMarks s) pid of None \<Rightarrow> 0 | Some r \<Rightarrow> r)"

text \<open>\<^verbatim>\<open>while (retiredMarks.size > MAX) retiredMarks.delete(first key)\<close>: the oldest
  entries go until the map fits.\<close>

definition evict_marks :: "(string, int) jmap \<Rightarrow> (string, int) jmap" where
  "evict_marks m = drop (jsize m - MAX_RETIRED_MARKERS) m"

definition mark :: "string \<Rightarrow> int \<Rightarrow> worker \<Rightarrow> worker" where
  "mark pid epoch s =
     (let s1 = s\<lparr>retiredMarks := jdel pid (retiredMarks s)\<rparr>;
          m = jset pid (max epoch (retiredThrough s1 pid)) (retiredMarks s1)
      in s1\<lparr>retiredMarks := evict_marks m\<rparr>)"

text \<open>\<^verbatim>\<open>held.finish(reason)\<close>: the suspended input transform may continue.\<close>

definition finish_hold :: "nat \<Rightarrow> hold_reason \<Rightarrow> worker \<Rightarrow> worker" where
  "finish_hold ref reason s = (case ep_hardwareHold (heap s ref) of
     None \<Rightarrow> s
   | Some h \<Rightarrow> (upd_ep ref (\<lambda>ep. ep\<lparr>ep_hardwareHold := None\<rparr>) s)\<lparr>heldDone := heldDone s @ [(ref, h, reason)]\<rparr>)"

definition cancelHardwareHold :: "nat \<Rightarrow> worker \<Rightarrow> worker" where
  "cancelHardwareHold ref s = finish_hold ref HCancelled s"

definition hardwareScopeCurrent :: "worker \<Rightarrow> nat \<Rightarrow> hw_scope \<Rightarrow> bool" where
  "hardwareScopeCurrent s ref sc \<longleftrightarrow>
     (let ep = heap s ref in
      jget (endpoints s) (ep_id ep) = Some ref \<and> ep_ready ep \<and> \<not> ep_aborted ep
      \<and> ep_gen ep = sc_gen sc \<and> ep_pid ep = sc_pid sc \<and> ep_sourceTag ep = sc_sourceTag sc
      \<and> activeEpoch s (sc_pid sc) = sc_epoch sc \<and> epoch_of s (sc_pid sc) (sc_epoch sc) = Some (sc_entry sc)
      \<and> jget (ep_kids ep) (e_kid (sc_entry sc)) = Some (sc_epoch sc))"

definition fresh_junk :: "worker \<Rightarrow> material \<times> worker" where
  "fresh_junk s = (Junk (junkSeq s), s\<lparr>junkSeq := Suc (junkSeq s)\<rparr>)"

definition fence :: "worker \<Rightarrow> worker" where
  "fence s = lk (LFence (Suc (fenceSeq s))) (s\<lparr>fenceSeq := Suc (fenceSeq s)\<rparr>)"

definition push :: "task list \<Rightarrow> worker \<Rightarrow> worker" where
  "push ts s = s\<lparr>cont := ts @ cont s\<rparr>"

definition reply :: "result \<Rightarrow> worker \<Rightarrow> worker" where
  "reply r s = s\<lparr>replies := replies s @ [Inr r]\<rparr>"

text \<open>A thrown error rejects the operation: its remaining segments do not run.\<close>

definition fail :: "worker_error \<Rightarrow> worker \<Rightarrow> worker" where
  "fail e s = s\<lparr>replies := replies s @ [Inl e], cont := []\<rparr>"

section \<open>Retiring an epoch\<close>

definition drop_epoch :: "int \<Rightarrow> pid_state \<Rightarrow> pid_state" where
  "drop_epoch epoch st = st\<lparr>epochs := jdel epoch (epochs st), retired := max (retired st) epoch,
     active := (if active st = epoch then 0 else active st)\<rparr>"

text \<open>The synchronous part of \<^verbatim>\<open>retireEpoch\<close>: the epoch leaves every map at once, so frames
  under it are dropped from now on; scrubbing the library slots follows endpoint by
  endpoint.\<close>

definition retire_maps :: "string \<Rightarrow> int \<Rightarrow> worker \<Rightarrow> worker" where
  "retire_maps pid epoch s =
     (let held = filter (\<lambda>r. ep_pid (heap s r) = pid \<and>
            (case ep_hardwareHold (heap s r) of None \<Rightarrow> False | Some h \<Rightarrow> sc_epoch (h_scope h) = epoch)) (ep_refs s);
          s1 = fold cancelHardwareHold held s;
          s2 = s1\<lparr>pids := jupd pid (drop_epoch epoch) (pids s1)\<rparr>;
          s3 = mark pid epoch s2
      in s3\<lparr>windows := jdel (pid, epoch) (windows s3)\<rparr>)"

definition retireEpoch :: "string \<Rightarrow> int \<Rightarrow> worker \<Rightarrow> worker" where
  "retireEpoch pid epoch s = (case epoch_of s pid epoch of
     None \<Rightarrow> s
   | Some entry \<Rightarrow> push [TScrub pid (e_kid entry) epoch (ep_refs s)] (retire_maps pid epoch s))"

text \<open>The loop over the endpoints: each affected endpoint loses the key slot, then (after
  \<^verbatim>\<open>await junk()\<close>) the library slot is overwritten.\<close>

fun scrub :: "string \<Rightarrow> nat \<Rightarrow> int \<Rightarrow> nat list \<Rightarrow> worker \<Rightarrow> worker" where
  "scrub pid kid epoch [] s = s"
| "scrub pid kid epoch (r # rs) s =
     (if ep_pid (heap s r) \<noteq> pid \<or> jget (ep_kids (heap s r)) kid \<noteq> Some epoch
      then scrub pid kid epoch rs s
      else push [TSetJunk r kid, TScrub pid kid epoch rs]
             (upd_ep r (\<lambda>ep. ep\<lparr>ep_kids := jdel kid (ep_kids ep)\<rparr>) s))"

definition set_junk :: "nat \<Rightarrow> nat \<Rightarrow> worker \<Rightarrow> worker" where
  "set_junk r kid s = (case fresh_junk s of (j, s') \<Rightarrow> lk (LSetKey (ep_libraryID (heap s' r)) j kid False) s')"

section \<open>Installing keys into an endpoint\<close>

text \<open>\<^verbatim>\<open>wanted\<close>: key slot to live epoch of the endpoint's publication (a later epoch in the
  same slot replaces an earlier one, as \<^verbatim>\<open>Map.set\<close> does).\<close>

definition wanted_slots :: "worker \<Rightarrow> string \<Rightarrow> (nat \<times> int \<times> epoch_entry) list" where
  "wanted_slots s pid = (case jget (pids s) pid of
     None \<Rightarrow> []
   | Some st \<Rightarrow> fold (\<lambda>(epoch, entry) m. jset (e_kid entry) (epoch, entry) m) (epochs st) [])"

definition install_start :: "nat \<Rightarrow> bind_kont \<Rightarrow> worker \<Rightarrow> worker" where
  "install_start r k s =
     push [TInstallScrub r (wanted_slots s (ep_pid (heap s r))) (jkeys (ep_kids (heap s r))) k] s"

fun install_scrub :: "nat \<Rightarrow> (nat \<times> int \<times> epoch_entry) list \<Rightarrow> nat list \<Rightarrow> bind_kont \<Rightarrow> worker \<Rightarrow> worker" where
  "install_scrub r wanted [] k s = push [TInstallKeys r wanted k] s"
| "install_scrub r wanted (kid # rest) k s =
     (if map_option fst (jget wanted kid) = jget (ep_kids (heap s r)) kid
      then install_scrub r wanted rest k s
      else push [TSetJunk r kid, TInstallScrub r wanted rest k]
             (upd_ep r (\<lambda>ep. ep\<lparr>ep_kids := jdel kid (ep_kids ep)\<rparr>) s))"

definition install_keys :: "nat \<Rightarrow> (nat \<times> int \<times> epoch_entry) list \<Rightarrow> bind_kont \<Rightarrow> worker \<Rightarrow> worker" where
  "install_keys r wanted k s =
     (let ep = heap s r;
          missing = filter (\<lambda>(kid, epoch, entry). jget (ep_kids ep) kid \<noteq> Some epoch) wanted;
          s1 = fold (\<lambda>(kid, epoch, entry). lk (LSetKey (ep_libraryID ep) (e_key entry) kid
                 (ep_operation ep = Encode \<and> activeEpoch s (ep_pid ep) = epoch))) missing s
      in case k of
           BUnbind gen \<Rightarrow> reply (RGen gen) s1
         | BBind pid gen \<Rightarrow>
             push [TFence, TBindFinish r pid gen (map (\<lambda>(kid, epoch, entry). (kid, epoch)) missing)] s1)"

section \<open>Attaching an endpoint\<close>

text \<open>\<^verbatim>\<open>freeLibrarySlots\<close>: a free slot of the same shape if there is one, else the first
  free slot, else a new slot while fewer than the maximum exist.\<close>

definition take_slot :: "operation \<Rightarrow> media_kind \<Rightarrow> worker \<Rightarrow> (nat \<times> worker) option" where
  "take_slot operation kind s =
     (let free = freeLibrarySlots s;
          matching = length (takeWhile (\<lambda>sl. \<not> (ls_operation sl = operation \<and> ls_kind sl = kind)) free);
          available = (if matching < length free then Some matching else if free \<noteq> [] then Some 0 else None)
      in case available of
           Some i \<Rightarrow> Some (ls_id (free ! i), s\<lparr>freeLibrarySlots := take i free @ drop (Suc i) free\<rparr>)
         | None \<Rightarrow> if librarySlots s < MAX_ENDPOINTS
                   then Some (Suc (librarySlots s), s\<lparr>librarySlots := Suc (librarySlots s)\<rparr>) else None)"

fun operation_of :: "jsv \<Rightarrow> operation option" where
  "operation_of (JStr t) = (if t = ''encode'' then Some Encode else if t = ''decode'' then Some Decode else None)"
| "operation_of _ = None"

fun kind_of :: "jsv \<Rightarrow> media_kind option" where
  "kind_of (JStr t) = (if t = ''audio'' then Some Audio else if t = ''video'' then Some Video else None)"
| "kind_of _ = None"

definition attach :: "jsv \<Rightarrow> jsv \<Rightarrow> jsv \<Rightarrow> bool \<Rightarrow> bool \<Rightarrow> worker \<Rightarrow> worker_error + worker" where
  "attach idv operationv kindv transformer hardwareRequired s =
     (case (operation_of operationv, kind_of kindv) of
        (Some operation, Some kind) \<Rightarrow>
          if \<not> validEndpointId idv then Inl InvalidEndpoint
          else let eid = the_str idv in
            if jhas (endpoints s) eid then Inl AlreadyAttached
            else if jsize (endpoints s) \<ge> MAX_ENDPOINTS then Inl EndpointCapacity
            else (case take_slot operation kind s of
                None \<Rightarrow> Inl CryptorCapacity
              | Some (slot, s1) \<Rightarrow>
                  let ref = nextRef s1;
                      s2 = s1\<lparr>heap := (heap s1)(ref := new_endpoint eid operation kind slot transformer hardwareRequired),
                             nextRef := Suc ref, endpoints := jset eid ref (endpoints s1)\<rparr>;
                      s3 = (case jget (pendingBinds s2) eid of
                              None \<Rightarrow> s2
                            | Some (pid, tag) \<Rightarrow> s2\<lparr>pendingBinds := jdel eid (pendingBinds s2),
                                opQueue := opQueue s2 @ [TStart (OBind idv (JStr pid) (JStr tag))]\<rparr>)
                  in Inr (lk (LTransform slot operation) (lk (LEnable slot) s3)))
      | _ \<Rightarrow> Inl InvalidEndpoint)"

section \<open>Operations\<close>

definition ref_of :: "worker \<Rightarrow> jsv \<Rightarrow> nat option" where
  "ref_of s idv = (case idv of JStr i \<Rightarrow> jget (endpoints s) i | _ \<Rightarrow> None)"

definition pid_state_of :: "worker \<Rightarrow> jsv \<Rightarrow> pid_state option" where
  "pid_state_of s pidv = (case pidv of JStr p \<Rightarrow> jget (pids s) p | _ \<Rightarrow> None)"

definition start_init :: "worker \<Rightarrow> worker" where
  "start_init s = (if initialized s then reply RVersion s
     else push [TReply RVersion] (lk LInit (s\<lparr>initialized := True\<rparr>)))"

definition start_detach :: "jsv \<Rightarrow> worker \<Rightarrow> worker" where
  "start_detach idv s =
     (if \<not> validEndpointId idv then fail InvalidEndpoint s
      else let eid = the_str idv; s1 = s\<lparr>pendingBinds := jdel eid (pendingBinds s)\<rparr> in
        (case jget (endpoints s1) eid of
           None \<Rightarrow> reply ROk s1
         | Some r \<Rightarrow>
             push [TDetachScrub r, TDetachRemove r eid, TFence,
                   TDetachFree \<lparr>ls_id = ep_libraryID (heap s1 r), ls_operation = ep_operation (heap s1 r), ls_kind = ep_kind (heap s1 r)\<rparr>,
                   TReply ROk]
               (upd_ep r (\<lambda>ep. ep\<lparr>ep_ready := False, ep_gen := Suc (ep_gen ep), ep_pid := '''', ep_kids := [],
                    ep_hardwareUntil := 0, ep_aborted := True\<rparr>) (cancelHardwareHold r s1))))"

definition detach_scrub :: "nat \<Rightarrow> worker \<Rightarrow> worker" where
  "detach_scrub r s = (case fresh_junk s of (j, s1) \<Rightarrow>
     fold (\<lambda>kid. lk (LSetKey (ep_libraryID (heap s r)) j kid False)) [0..<KEYRING] s1)"

definition detach_remove :: "nat \<Rightarrow> string \<Rightarrow> worker \<Rightarrow> worker" where
  "detach_remove r eid s = lk (LRemoveTransform (ep_libraryID (heap s r))) (s\<lparr>endpoints := jdel eid (endpoints s)\<rparr>)"

definition start_hardwareProof :: "jsv \<Rightarrow> jsv \<Rightarrow> jsv \<Rightarrow> jsv \<Rightarrow> worker \<Rightarrow> worker" where
  "start_hardwareProof idv pidv tagv enabledv s =
     (let tag = default_to (JStr '''') tagv in
      case (ref_of s idv, enabledv) of
        (Some r, JBool enabled) \<Rightarrow>
          let ep = heap s r in
          if ep_operation ep \<noteq> Encode \<or> ep_kind ep \<noteq> Video then fail InvalidProof s
          else if pidv \<noteq> JStr (ep_pid ep) \<or> tag \<noteq> JStr (ep_sourceTag ep) then reply RHwSuperseded s
          else let wasActive = ep_hardwareUntil ep > clock s;
                   s1 = upd_ep r (\<lambda>ep. ep\<lparr>ep_hardwareUntil := (if enabled then clock s + HARDWARE_PROOF_MS else 0)\<rparr>) s
               in if \<not> enabled then reply ROk s1
                  else let s2 = upd_ep r (\<lambda>ep. ep\<lparr>ep_hardwareProven := True\<rparr>) s1;
                           s3 = (case ep_hardwareHold (heap s2 r) of
                                   None \<Rightarrow> s2
                                 | Some h \<Rightarrow> if hardwareScopeCurrent s2 r (h_scope h)
                                     then finish_hold r (if clock s2 < h_deadline h then HProof else HTimeout) s2 else s2);
                           s4 = (if wasActive then s3
                                 else send (HardwareReady (ep_id ep) (ep_pid ep))
                                   ((if ep_transformer ep then send (GenerateKeyFrame r) else (\<lambda>s. s))
                                     (upd_ep r (\<lambda>ep. ep\<lparr>ep_needsKeyframe := True\<rparr>) s3)))
                       in reply ROk s4
      | _ \<Rightarrow> fail InvalidProof s)"

definition start_bind :: "jsv \<Rightarrow> jsv \<Rightarrow> jsv \<Rightarrow> worker \<Rightarrow> worker" where
  "start_bind idv pidv tagv s =
     (let tag = default_to (JStr '''') tagv in
      if \<not> validEndpointId idv \<or> (pidv \<noteq> JStr '''' \<and> \<not> validPid pidv) \<or> (tag \<noteq> JStr '''' \<and> \<not> validPid tag)
      then fail InvalidBinding s
      else let eid = the_str idv; pid = the_str pidv; sourceTag = the_str tag in
        (case jget (endpoints s) eid of
           None \<Rightarrow>
             if \<not> jhas (pendingBinds s) eid \<and> jsize (pendingBinds s) \<ge> MAX_ENDPOINTS then fail EndpointCapacity s
             else reply RPending (s\<lparr>pendingBinds := jset eid (pid, sourceTag) (pendingBinds s)\<rparr>)
         | Some r \<Rightarrow>
             let ep = heap s r in
             if ep_pid ep = pid \<and> ep_ready ep \<and> ep_sourceTag ep = sourceTag
             then reply (RGenAuth (ep_gen ep) (ep_authenticated ep)) s
             else let s1 = cancelHardwareHold r s;
                      changed = (ep_pid ep \<noteq> pid);
                      gen = Suc (ep_gen ep);
                      s2 = upd_ep r (\<lambda>ep. ep\<lparr>ep_ready := False, ep_gen := gen, ep_hardwareUntil := 0,
                             ep_hardwareProbed := False, ep_hardwareProven := False, ep_hardwareHoldAttempted := False,
                             ep_needsKeyframe := False, ep_sourceTag := sourceTag, ep_pid := pid,
                             ep_authenticated := False, ep_kids := (if changed then [] else ep_kids ep)\<rparr>) s1
                  in push ((if changed then map (TSetJunk r) [0..<KEYRING] else [])
                           @ [TInstall r (if pid = '''' then BUnbind gen else BBind pid gen)]) s2))"

definition bind_finish :: "nat \<Rightarrow> string \<Rightarrow> nat \<Rightarrow> (nat \<times> int) list \<Rightarrow> worker \<Rightarrow> worker" where
  "bind_finish r pid gen installed s =
     (if ep_gen (heap s r) \<noteq> gen then reply (RSuperseded (ep_gen (heap s r))) s
      else reply (RGen gen)
        (upd_ep r (\<lambda>ep. ep\<lparr>ep_kids := fold (\<lambda>(kid, epoch) m. if liveEpoch s pid epoch then jset kid epoch m else m)
             installed (ep_kids ep), ep_ready := True\<rparr>) s))"

text \<open>\<^verbatim>\<open>key\<close>: \<open>digest\<close> stands for SHA-256 of the platform.\<close>

definition start_key :: "jsv \<Rightarrow> jsv \<Rightarrow> jsv \<Rightarrow> jsv \<Rightarrow> worker \<Rightarrow> worker" where
  "start_key pidv epochv kidv keyv s =
     (if \<not> validPid pidv \<or> \<not> validEpoch epochv \<or> \<not> validKid kidv \<or> \<not> is_bytes keyv \<or> length (the_bytes keyv) \<noteq> 32
      then fail InvalidKey s
      else if the_num epochv \<le> retiredThrough s (the_str pidv) then fail RetiredEpoch s
      else push [TKeyDigest (the_str pidv) (the_num epochv) (nat (the_num kidv)) (the_bytes keyv)] s)"

definition key_digest :: "(bytes \<Rightarrow> bytes) \<Rightarrow> string \<Rightarrow> int \<Rightarrow> nat \<Rightarrow> bytes \<Rightarrow> worker \<Rightarrow> worker" where
  "key_digest digest pid epoch kid key s =
     (case epoch_of s pid epoch of
        Some existing \<Rightarrow>
          if e_fp existing \<noteq> digest key \<or> e_kid existing \<noteq> kid then fail ConflictingKey s
          else reply (RInstalled False) s
      | None \<Rightarrow>
          (case jget (pids s) pid of
             Some _ \<Rightarrow> push [TKeyImport pid epoch kid key] s
           | None \<Rightarrow>
               if jsize (pids s) \<ge> MAX_PIDS then fail KeyCapacity s
               else push [TKeyImport pid epoch kid key]
                 (s\<lparr>pids := jset pid \<lparr>epochs = [], active = 0, retired = retiredThrough s pid\<rparr> (pids s)\<rparr>)))"

definition live_epochs :: "worker \<Rightarrow> string \<Rightarrow> (int, epoch_entry) jmap" where
  "live_epochs s pid = (case jget (pids s) pid of None \<Rightarrow> [] | Some st \<Rightarrow> epochs st)"

definition key_import :: "string \<Rightarrow> int \<Rightarrow> nat \<Rightarrow> bytes \<Rightarrow> worker \<Rightarrow> worker" where
  "key_import pid epoch kid key s =
     (if epoch \<le> retiredThrough s pid \<or> liveEpoch s pid epoch then fail RetiredEpoch s
      else if \<exists>(old, entry) \<in> set (live_epochs s pid). e_kid entry = kid \<and> old > epoch then fail NewerEpochHoldsSlot s
      else push (map (TRetire pid) (jkeys (filter (\<lambda>(old, entry). e_kid entry = kid) (live_epochs s pid)))
                 @ [TKeyEvict pid, TKeyInstall pid epoch kid key]) s)"

definition key_evict :: "string \<Rightarrow> worker \<Rightarrow> worker" where
  "key_evict pid s =
     (if jsize (live_epochs s pid) \<ge> MAX_LIVE_EPOCHS
      then push [TRetire pid (Min (set (jkeys (live_epochs s pid)))), TKeyEvict pid] s else s)"

definition key_install :: "(bytes \<Rightarrow> bytes) \<Rightarrow> string \<Rightarrow> int \<Rightarrow> nat \<Rightarrow> bytes \<Rightarrow> worker \<Rightarrow> worker" where
  "key_install digest pid epoch kid key s =
     (let entry = \<lparr>e_kid = kid, e_key = Imported key, e_fp = digest key, e_at = clock s, e_seq = entrySeq s\<rparr>;
          s1 = s\<lparr>pids := jupd pid (\<lambda>st. st\<lparr>epochs := jset epoch entry (epochs st)\<rparr>) (pids s), entrySeq := Suc (entrySeq s)\<rparr>;
          waiting = bound_refs pid s1;
          s2 = fold (\<lambda>r. lk (LSetKey (ep_libraryID (heap s r)) (Imported key) kid False)) waiting s1
      in push [TFence, TKeyFinish pid epoch kid waiting] s2)"

definition key_finish :: "string \<Rightarrow> int \<Rightarrow> nat \<Rightarrow> nat list \<Rightarrow> worker \<Rightarrow> worker" where
  "key_finish pid epoch kid waiting s =
     reply (RInstalled True)
       (fold (\<lambda>r s. if ep_pid (heap s r) = pid \<and> liveEpoch s pid epoch
                    then upd_ep r (\<lambda>ep. ep\<lparr>ep_kids := jset kid epoch (ep_kids ep)\<rparr>) s else s) waiting s)"

definition start_activate :: "jsv \<Rightarrow> jsv \<Rightarrow> worker \<Rightarrow> worker" where
  "start_activate pidv epochv s =
     (case (pid_state_of s pidv, epochv) of
        (Some st, JNum epoch) \<Rightarrow>
          (case jget (epochs st) epoch of
             None \<Rightarrow> fail UnknownEpoch s
           | Some entry \<Rightarrow>
               if active st \<noteq> 0 \<and> epoch < active st then fail OlderThanActive s
               else let pid = the_str pidv;
                        s1 = (if active st \<noteq> epoch then fold cancelHardwareHold (bound_refs pid s) s else s);
                        s2 = s1\<lparr>pids := jupd pid (\<lambda>st. st\<lparr>active := epoch\<rparr>) (pids s1)\<rparr>;
                        s3 = fold (\<lambda>r. lk (LSetKey (ep_libraryID (heap s r)) (e_key entry) (e_kid entry) True))
                               (filter (\<lambda>r. ep_operation (heap s2 r) = Encode) (bound_refs pid s2)) s2
                    in push [TFence, TReply ROk] s3)
      | _ \<Rightarrow> fail UnknownEpoch s)"

definition start_retire :: "jsv \<Rightarrow> jsv \<Rightarrow> worker \<Rightarrow> worker" where
  "start_retire pidv throughv s =
     (if \<not> validPid pidv \<or> \<not> is_safe_integer throughv then fail InvalidRetirement s
      else let pid = the_str pidv; through = the_num throughv in
        push (map (TRetire pid) (filter (\<lambda>e. e \<le> through) (jkeys (live_epochs s pid)))
              @ [TRetireEnd pid through, TFence, TReply ROk]) s)"

definition retire_end :: "string \<Rightarrow> int \<Rightarrow> worker \<Rightarrow> worker" where
  "retire_end pid through s =
     (let s1 = (if through > 0 then mark pid through s else s)
      in s1\<lparr>pids := jupd pid (\<lambda>st. st\<lparr>retired := max (retired st) through\<rparr>) (pids s1)\<rparr>)"

definition start_retireOne :: "jsv \<Rightarrow> jsv \<Rightarrow> worker \<Rightarrow> worker" where
  "start_retireOne pidv epochv s =
     (if \<not> validPid pidv \<or> \<not> validEpoch epochv then fail InvalidRetirement s
      else push [TRetire (the_str pidv) (the_num epochv), TFence, TReply ROk] s)"

definition start_forget :: "jsv \<Rightarrow> worker \<Rightarrow> worker" where
  "start_forget pidv s =
     (if \<not> validPid pidv then fail InvalidPid s
      else let pid = the_str pidv; s1 = fold cancelHardwareHold (bound_refs pid s) s in
        push (map (TRetire pid) (jkeys (live_epochs s1 pid)) @ [TForgetEnd pid, TFence, TReply ROk]) s1)"

definition forget_end :: "string \<Rightarrow> worker \<Rightarrow> worker" where
  "forget_end pid s = s\<lparr>pids := jdel pid (pids s)\<rparr>"

definition start_attach :: "jsv \<Rightarrow> jsv \<Rightarrow> jsv \<Rightarrow> bool \<Rightarrow> worker \<Rightarrow> worker" where
  "start_attach idv operationv kindv hardwareRequired s =
     (case attach idv operationv kindv False hardwareRequired s of
        Inl e \<Rightarrow> s\<lparr>replies := replies s @ [Inl e]\<rparr>
      | Inr s' \<Rightarrow> reply ROk s')"

text \<open>\<^verbatim>\<open>onrtctransform\<close>: the other way an endpoint attaches; a failure is reported to the page.\<close>

definition onrtctransform :: "jsv \<Rightarrow> jsv \<Rightarrow> jsv \<Rightarrow> bool \<Rightarrow> worker \<Rightarrow> worker" where
  "onrtctransform idv operationv kindv hardwareRequired s =
     (case attach idv operationv kindv True hardwareRequired s of
        Inl e \<Rightarrow> send (AttachFailed idv) s
      | Inr s' \<Rightarrow> s')"

fun start_op :: "op \<Rightarrow> worker \<Rightarrow> worker" where
  "start_op OInit s = start_init s"
| "start_op (OAttach i p k h) s = start_attach i p k h s"
| "start_op (ODetach i) s = start_detach i s"
| "start_op (OHardwareProof i p t e) s = start_hardwareProof i p t e s"
| "start_op (OBind i p t) s = start_bind i p t s"
| "start_op (OKey p e k b) s = start_key p e k b s"
| "start_op (OActivate p e) s = start_activate p e s"
| "start_op (ORetire p t) s = start_retire p t s"
| "start_op (ORetireOne p e) s = start_retireOne p e s"
| "start_op (OForget p) s = start_forget p s"
| "start_op OUnknown s = fail UnknownOperation s"

text \<open>One segment of the running operation.\<close>

fun run_task :: "(bytes \<Rightarrow> bytes) \<Rightarrow> task \<Rightarrow> worker \<Rightarrow> worker" where
  "run_task digest (TStart o1) s = start_op o1 s"
| "run_task digest (TRetire pid epoch) s = retireEpoch pid epoch s"
| "run_task digest (TScrub pid kid epoch rs) s = scrub pid kid epoch rs s"
| "run_task digest (TSetJunk r kid) s = set_junk r kid s"
| "run_task digest TFence s = fence s"
| "run_task digest (TReply r) s = reply r s"
| "run_task digest (TDetachScrub r) s = detach_scrub r s"
| "run_task digest (TDetachRemove r eid) s = detach_remove r eid s"
| "run_task digest (TDetachFree sl) s = s\<lparr>freeLibrarySlots := freeLibrarySlots s @ [sl]\<rparr>"
| "run_task digest (TInstall r k) s = install_start r k s"
| "run_task digest (TInstallScrub r w ks k) s = install_scrub r w ks k s"
| "run_task digest (TInstallKeys r w k) s = install_keys r w k s"
| "run_task digest (TBindFinish r pid gen inst) s = bind_finish r pid gen inst s"
| "run_task digest (TKeyDigest pid epoch kid key) s = key_digest digest pid epoch kid key s"
| "run_task digest (TKeyImport pid epoch kid key) s = key_import pid epoch kid key s"
| "run_task digest (TKeyEvict pid) s = key_evict pid s"
| "run_task digest (TKeyInstall pid epoch kid key) s = key_install digest pid epoch kid key s"
| "run_task digest (TKeyFinish pid epoch kid ws) s = key_finish pid epoch kid ws s"
| "run_task digest (TRetireEnd pid through) s = retire_end pid through s"
| "run_task digest (TForgetEnd pid) s = forget_end pid s"

text \<open>The queue: the next segment of the running operation, or the next operation.\<close>

definition advance :: "(bytes \<Rightarrow> bytes) \<Rightarrow> worker \<Rightarrow> worker" where
  "advance digest s = (case cont s of
     t # ts \<Rightarrow> run_task digest t (s\<lparr>cont := ts\<rparr>)
   | [] \<Rightarrow> (case opQueue s of [] \<Rightarrow> s | t # ts \<Rightarrow> run_task digest t (s\<lparr>opQueue := ts\<rparr>)))"

text \<open>\<^verbatim>\<open>onmessage\<close>: \<^verbatim>\<open>attach\<close> runs at once, everything else is queued.\<close>

fun onmessage :: "op \<Rightarrow> worker \<Rightarrow> worker" where
  "onmessage OUnknown s = s\<lparr>replies := replies s @ [Inl UnknownOperation]\<rparr>"
| "onmessage (OAttach i p k h) s = start_attach i p k h s"
| "onmessage o1 s = s\<lparr>opQueue := opQueue s @ [TStart o1]\<rparr>"

section \<open>Frames\<close>

text \<open>The input transform. A frame that passes is noted in \<open>inputs\<close> and goes to the cipher.\<close>

definition screen_gate :: "worker \<Rightarrow> nat \<Rightarrow> bool" where
  "screen_gate s r \<longleftrightarrow> ep_hardwareRequired (heap s r) \<and> ep_pid (heap s r) = ''self|screen''"

definition admit_encode :: "nat \<Rightarrow> nat \<Rightarrow> media_frame \<Rightarrow> hw_scope option \<Rightarrow> bool \<Rightarrow> worker \<Rightarrow> worker" where
  "admit_encode r fid frame initialScope heldOriginal s =
     (case mediaFrameEnvelope frame False of
        None \<Rightarrow> drop_frame r DCodec s
      | Some env \<Rightarrow> s\<lparr>inputs := jset (r, fid) \<lparr>i_gen = ep_gen (heap s r), i_pid = ep_pid (heap s r), i_epoch = 0,
            i_n = esize env, i_iv = [], i_initialScope = initialScope, i_heldOriginal = heldOriginal\<rparr> (inputs s)\<rparr>)"

definition pre_encode_tail :: "nat \<Rightarrow> nat \<Rightarrow> media_frame \<Rightarrow> hw_scope option \<Rightarrow> bool \<Rightarrow> worker \<Rightarrow> worker" where
  "pre_encode_tail r fid frame initialScope heldOriginal s =
     (let ep = heap s r in
      if screen_gate s r \<and> clock s \<ge> ep_hardwareUntil ep then
        (if ep_hardwareProbed ep \<or> ep_hardwareProven ep then drop_frame r DHardware s
         else case hardwareProbeFrame frame of
             None \<Rightarrow> drop_frame r DHardware s
           | Some probe \<Rightarrow> admit_encode r fid (frame\<lparr>fdata := probe\<rparr>) initialScope heldOriginal
               (upd_ep r (\<lambda>ep. ep\<lparr>ep_hardwareProbed := True\<rparr>) s))
      else if ep_needsKeyframe ep then
        (if ftype frame \<noteq> ''key'' then drop_frame r DHardware s
         else admit_encode r fid frame initialScope heldOriginal
                (upd_ep r (\<lambda>ep. ep\<lparr>ep_needsKeyframe := False\<rparr>) s))
      else admit_encode r fid frame initialScope heldOriginal s)"

text \<open>\<^verbatim>\<open>waitForInitialHardwareProof\<close>: hold the frame under the current scope. When there
  is nothing to hold under, the promise is resolved as cancelled at once, which drops the
  frame as stale.\<close>

definition begin_hold :: "nat \<Rightarrow> nat \<Rightarrow> media_frame \<Rightarrow> worker \<Rightarrow> worker" where
  "begin_hold r fid frame s =
     (let ep = heap s r; epoch = activeEpoch s (ep_pid ep) in
      case epoch_of s (ep_pid ep) epoch of
        None \<Rightarrow> drop_frame r DStale s
      | Some entry \<Rightarrow>
          let sc = \<lparr>sc_gen = ep_gen ep, sc_pid = ep_pid ep, sc_sourceTag = ep_sourceTag ep, sc_epoch = epoch, sc_entry = entry\<rparr> in
          if \<not> hardwareScopeCurrent s r sc then drop_frame r DStale s
          else upd_ep r (\<lambda>ep. ep\<lparr>ep_hardwareHold := Some \<lparr>h_scope = sc,
                 h_deadline = clock s + INITIAL_KEYFRAME_HOLD_MS, h_frame = frame, h_fid = fid\<rparr>\<rparr>) s)"

definition pre_encode :: "nat \<Rightarrow> nat \<Rightarrow> media_frame \<Rightarrow> worker \<Rightarrow> worker" where
  "pre_encode r fid frame s =
     (let ep = heap s r in
      if ep_kids ep = [] \<or> activeEpoch s (ep_pid ep) = 0 then drop_frame r DNokey s
      else let s1 = (if screen_gate s r \<and> clock s \<ge> ep_hardwareCheckAt ep
                     then send (HardwareCheck (ep_id ep)) (upd_ep r (\<lambda>ep. ep\<lparr>ep_hardwareCheckAt := clock s + 300\<rparr>) s)
                     else s)
           in if screen_gate s1 r \<and> clock s1 \<ge> ep_hardwareUntil ep \<and> \<not> ep_hardwareProbed ep \<and> \<not> ep_hardwareProven ep
                 \<and> \<not> ep_hardwareHoldAttempted ep \<and> ftype frame = ''key'' \<and> length (fdata frame) \<le> MAX_INITIAL_KEYFRAME_BYTES
                 \<and> mediaFrameEnvelope frame False \<noteq> None
              then begin_hold r fid frame (upd_ep r (\<lambda>ep. ep\<lparr>ep_hardwareHoldAttempted := True\<rparr>) s1)
              else pre_encode_tail r fid frame None False s1)"

text \<open>The input transform continues after the hold ended.\<close>

definition resume_held :: "worker \<Rightarrow> worker" where
  "resume_held s = (case heldDone s of
     [] \<Rightarrow> s
   | (r, h, reason) # rest \<Rightarrow>
       let s1 = s\<lparr>heldDone := rest\<rparr>; sc = h_scope h in
       if reason = HCancelled \<or> \<not> hardwareScopeCurrent s1 r sc then drop_frame r DStale s1
       else if (reason = HProof \<and> clock s1 \<ge> h_deadline h) \<or> (reason \<noteq> HProof \<and> ep_hardwareProven (heap s1 r))
       then drop_frame r DHardware s1
       else pre_encode_tail r (h_fid h) (h_frame h) (Some sc) (reason = HProof) s1)"

definition pre_decode :: "nat \<Rightarrow> nat \<Rightarrow> media_frame \<Rightarrow> worker \<Rightarrow> worker" where
  "pre_decode r fid frame s =
     (let ep = heap s r in
      case mediaFrameEnvelope frame True of
        None \<Rightarrow> drop_frame r DCodec s
      | Some env \<Rightarrow>
          let bs = tail env; len = length bs in
          if len < MIN_ENCRYPTED \<or> bs ! (len - 2) \<noteq> word_of_nat IV_LENGTH then drop_frame r DPlaintext s
          else let kid = unat (bs ! (len - 1)) in
            (case jget (ep_kids ep) kid of
               None \<Rightarrow> drop_frame r DNokey s
             | Some epoch \<Rightarrow>
                 if epoch = 0 then drop_frame r DNokey s
                 else (case epoch_of s (ep_pid ep) epoch of
                     None \<Rightarrow> drop_frame r DNokey s
                   | Some entry \<Rightarrow>
                       if clock s - e_at entry > MAX_RECEIVE_EPOCH_AGE then drop_frame r DStale s
                       else s\<lparr>inputs := jset (r, fid) \<lparr>i_gen = ep_gen ep, i_pid = ep_pid ep, i_epoch = epoch,
                              i_n = esize env, i_iv = take IV_LENGTH (drop (len - 2 - IV_LENGTH) bs),
                              i_initialScope = None, i_heldOriginal = False\<rparr> (inputs s)\<rparr>)))"

definition pre_transform :: "nat \<Rightarrow> nat \<Rightarrow> media_frame \<Rightarrow> worker \<Rightarrow> worker" where
  "pre_transform r fid frame s =
     (let ep = heap s r in
      if \<not> ep_ready ep \<or> ep_pid ep = '''' then drop_frame r DUnbound s
      else if fdata frame = [] then drop_frame r DEmpty s
      else if \<not> codecAllowed frame (ep_kind ep) then drop_frame r DCodec s
      else case ep_operation ep of
          Encode \<Rightarrow> pre_encode r fid frame s
        | Decode \<Rightarrow> pre_decode r fid frame s)"

text \<open>The output transform.\<close>

definition dropInitialFrame :: "nat \<Rightarrow> input \<Rightarrow> worker \<Rightarrow> worker" where
  "dropInitialFrame r inp s =
     (let ep = heap s r;
          same = (case i_initialScope inp of None \<Rightarrow> False | Some sc \<Rightarrow> ep_sourceTag ep = sc_sourceTag sc);
          s1 = (if i_heldOriginal inp \<and> ep_ready ep \<and> \<not> ep_aborted ep \<and> ep_gen ep = i_gen inp \<and> ep_pid ep = i_pid inp \<and> same
                then upd_ep r (\<lambda>ep. ep\<lparr>ep_hardwareUntil := 0, ep_needsKeyframe := True\<rparr>) s else s)
      in drop_frame r DStale s1)"

definition emit :: "emission \<Rightarrow> worker \<Rightarrow> worker" where
  "emit e s = s\<lparr>emitted := emitted s @ [e]\<rparr>"

text \<open>The trailer of an encrypted frame: the key slot and its IV-length byte.\<close>

definition trailer_epoch :: "worker \<Rightarrow> nat \<Rightarrow> bytes \<Rightarrow> int option" where
  "trailer_epoch s r bs =
     (if length bs < 2 \<or> bs ! (length bs - 2) \<noteq> word_of_nat IV_LENGTH then None
      else case jget (ep_kids (heap s r)) (unat (bs ! (length bs - 1))) of
          None \<Rightarrow> None
        | Some epoch \<Rightarrow> if liveEpoch s (ep_pid (heap s r)) epoch then Some epoch else None)"

definition post_encode :: "nat \<Rightarrow> media_frame \<Rightarrow> input \<Rightarrow> worker \<Rightarrow> worker" where
  "post_encode r frame inp s =
     (let lost = (case i_initialScope inp of None \<Rightarrow> False
                  | Some sc \<Rightarrow> \<not> hardwareScopeCurrent s r sc \<or> (i_heldOriginal inp \<and> clock s \<ge> ep_hardwareUntil (heap s r))) in
      if lost then dropInitialFrame r inp s
      else case mediaFrameEnvelope frame True of
          None \<Rightarrow> drop_frame r DUnencrypted s
        | Some env \<Rightarrow>
            if esize env \<noteq> i_n inp + OVERHEAD then drop_frame r DUnencrypted s
            else (case trailer_epoch s r (tail env) of
                None \<Rightarrow> drop_frame r DUnencrypted s
              | Some epoch \<Rightarrow>
                  if (case i_initialScope inp of None \<Rightarrow> False | Some sc \<Rightarrow> epoch \<noteq> sc_epoch sc) then dropInitialFrame r inp s
                  else emit \<lparr>em_ref = r, em_operation = Encode, em_pid = ep_pid (heap s r), em_epoch = epoch, em_iv = [], em_frame = frame\<rparr>
                    (upd_ep r (\<lambda>ep. ep\<lparr>ep_frames := Suc (ep_frames ep)\<rparr>) (s\<lparr>stats_encrypted := Suc (stats_encrypted s)\<rparr>))))"

fun replay_drop :: "verdict \<Rightarrow> drop_reason" where
  "replay_drop VDuplicate = DReplay"
| "replay_drop VOld = DReplayOld"
| "replay_drop VFull = DReplayFull"
| "replay_drop _ = DReplayInvalid"

definition first_frame :: "nat \<Rightarrow> worker \<Rightarrow> worker" where
  "first_frame r s =
     (let ep = heap s r in
      if ep_authenticated ep then s
      else let s1 = send (FirstFrame (ep_id ep) (ep_gen ep)) (upd_ep r (\<lambda>ep. ep\<lparr>ep_authenticated := True\<rparr>) s)
           in if ep_kind ep = Video \<and> ep_transformer ep then send (KeyFrameRequest r) s1 else s1)"

definition post_decode :: "nat \<Rightarrow> media_frame \<Rightarrow> input \<Rightarrow> worker \<Rightarrow> worker" where
  "post_decode r frame inp s =
     (if \<not> liveEpoch s (i_pid inp) (i_epoch inp) then drop_frame r DStale s
      else if map_option (\<lambda>env. int (esize env)) (mediaFrameEnvelope frame False) \<noteq> Some (int (i_n inp) - int OVERHEAD)
      then drop_frame r DUnauthenticated s
      else let key = (i_pid inp, i_epoch inp);
               window = (case jget (windows s) key of None \<Rightarrow> new_window | Some w \<Rightarrow> w)
           in case check (JBytes (i_iv inp)) window of
             (v, window') \<Rightarrow>
               let s1 = s\<lparr>windows := jset key window' (windows s)\<rparr> in
               if v \<noteq> VOk then drop_frame r (replay_drop v) s1
               else emit \<lparr>em_ref = r, em_operation = Decode, em_pid = i_pid inp, em_epoch = i_epoch inp, em_iv = i_iv inp, em_frame = frame\<rparr>
                 (first_frame r (upd_ep r (\<lambda>ep. ep\<lparr>ep_frames := Suc (ep_frames ep)\<rparr>)
                    (s1\<lparr>stats_decrypted := Suc (stats_decrypted s1)\<rparr>))))"

definition post_transform :: "nat \<Rightarrow> nat \<Rightarrow> media_frame \<Rightarrow> worker \<Rightarrow> worker" where
  "post_transform r fid frame s =
     (let ep = heap s r; s1 = s\<lparr>inputs := jdel (r, fid) (inputs s)\<rparr> in
      case jget (inputs s) (r, fid) of
        None \<Rightarrow> drop_frame r DStale s1
      | Some inp \<Rightarrow>
          if i_gen inp \<noteq> ep_gen ep \<or> i_pid inp \<noteq> ep_pid ep \<or> \<not> ep_ready ep then drop_frame r DStale s1
          else case ep_operation ep of
              Encode \<Rightarrow> post_encode r frame inp s1
            | Decode \<Rightarrow> post_decode r frame inp s1)"

section \<open>The worker as a machine\<close>

text \<open>Everything that can happen next: a message, a new pair of streams, a segment of the
  running operation, a frame before or after the cipher, the end of a hold, a timer, the
  passing of time, an error report of the library.\<close>

datatype event =
    EMessage op
  | ERtcTransform jsv jsv jsv bool
  | EAdvance
  | EPre nat nat media_frame
  | EPost nat nat media_frame
  | EResumeHeld
  | EHoldTimeout nat
  | ETick nat
  | ELibraryError

fun worker_step :: "(bytes \<Rightarrow> bytes) \<Rightarrow> event \<Rightarrow> worker \<Rightarrow> worker" where
  "worker_step digest (EMessage m) s = onmessage m s"
| "worker_step digest (ERtcTransform i p k h) s = onrtctransform i p k h s"
| "worker_step digest EAdvance s = advance digest s"
| "worker_step digest (EPre r fid frame) s = (if r < nextRef s then pre_transform r fid frame s else s)"
| "worker_step digest (EPost r fid frame) s = (if r < nextRef s then post_transform r fid frame s else s)"
| "worker_step digest EResumeHeld s = resume_held s"
| "worker_step digest (EHoldTimeout r) s = (case ep_hardwareHold (heap s r) of
     None \<Rightarrow> s | Some h \<Rightarrow> if clock s \<ge> h_deadline h then finish_hold r HTimeout s else s)"
| "worker_step digest (ETick d) s = s\<lparr>clock := clock s + int d\<rparr>"
| "worker_step digest ELibraryError s = s\<lparr>stats_cryptorErrors := Suc (stats_cryptorErrors s)\<rparr>"

definition worker_run :: "(bytes \<Rightarrow> bytes) \<Rightarrow> event list \<Rightarrow> worker \<Rightarrow> worker" where
  "worker_run digest es s = fold (worker_step digest) es s"

end
