(* ===== verification/Media_Worker_Frames.thy ===== *)
theory Media_Worker_Frames
  imports Media_Worker
begin

text \<open>
  What each helper of the media worker leaves unchanged, as simplification rules: the
  invariants of the worker (\<open>Media_Worker_Safety\<close>) are about a few maps, and most helpers
  touch none of them.
\<close>

section \<open>What the helpers leave unchanged\<close>

lemma upd_ep_frame [simp]:
  "clock (upd_ep r f s) = clock s"
  "pids (upd_ep r f s) = pids s"
  "retiredMarks (upd_ep r f s) = retiredMarks s"
  "windows (upd_ep r f s) = windows s"
  "emitted (upd_ep r f s) = emitted s"
  "cont (upd_ep r f s) = cont s"
  "opQueue (upd_ep r f s) = opQueue s"
  "endpoints (upd_ep r f s) = endpoints s"
  "nextRef (upd_ep r f s) = nextRef s"
  "librarySlots (upd_ep r f s) = librarySlots s"
  "freeLibrarySlots (upd_ep r f s) = freeLibrarySlots s"
  "pendingBinds (upd_ep r f s) = pendingBinds s"
  "inputs (upd_ep r f s) = inputs s"
  "heldDone (upd_ep r f s) = heldDone s"
  "lk_log (upd_ep r f s) = lk_log s"
  by (simp_all add: upd_ep_def)

lemma lk_frame [simp]:
  "clock (lk c s) = clock s"
  "pids (lk c s) = pids s"
  "retiredMarks (lk c s) = retiredMarks s"
  "windows (lk c s) = windows s"
  "emitted (lk c s) = emitted s"
  "cont (lk c s) = cont s"
  "opQueue (lk c s) = opQueue s"
  "endpoints (lk c s) = endpoints s"
  "nextRef (lk c s) = nextRef s"
  "librarySlots (lk c s) = librarySlots s"
  "freeLibrarySlots (lk c s) = freeLibrarySlots s"
  "pendingBinds (lk c s) = pendingBinds s"
  "inputs (lk c s) = inputs s"
  "heldDone (lk c s) = heldDone s"
  "heap (lk c s) = heap s"
  by (simp_all add: lk_def)

lemma send_frame [simp]:
  "clock (send e s) = clock s"
  "pids (send e s) = pids s"
  "retiredMarks (send e s) = retiredMarks s"
  "windows (send e s) = windows s"
  "emitted (send e s) = emitted s"
  "cont (send e s) = cont s"
  "opQueue (send e s) = opQueue s"
  "endpoints (send e s) = endpoints s"
  "nextRef (send e s) = nextRef s"
  "librarySlots (send e s) = librarySlots s"
  "freeLibrarySlots (send e s) = freeLibrarySlots s"
  "pendingBinds (send e s) = pendingBinds s"
  "inputs (send e s) = inputs s"
  "heldDone (send e s) = heldDone s"
  "lk_log (send e s) = lk_log s"
  "heap (send e s) = heap s"
  by (simp_all add: send_def)

lemma drop_frame_frame [simp]:
  "clock (drop_frame r d s) = clock s"
  "pids (drop_frame r d s) = pids s"
  "retiredMarks (drop_frame r d s) = retiredMarks s"
  "windows (drop_frame r d s) = windows s"
  "emitted (drop_frame r d s) = emitted s"
  "cont (drop_frame r d s) = cont s"
  "opQueue (drop_frame r d s) = opQueue s"
  "endpoints (drop_frame r d s) = endpoints s"
  "nextRef (drop_frame r d s) = nextRef s"
  "librarySlots (drop_frame r d s) = librarySlots s"
  "freeLibrarySlots (drop_frame r d s) = freeLibrarySlots s"
  "pendingBinds (drop_frame r d s) = pendingBinds s"
  "inputs (drop_frame r d s) = inputs s"
  "heldDone (drop_frame r d s) = heldDone s"
  "lk_log (drop_frame r d s) = lk_log s"
  by (simp_all add: drop_frame_def)

lemma reply_frame [simp]:
  "clock (reply q s) = clock s"
  "pids (reply q s) = pids s"
  "retiredMarks (reply q s) = retiredMarks s"
  "windows (reply q s) = windows s"
  "emitted (reply q s) = emitted s"
  "cont (reply q s) = cont s"
  "opQueue (reply q s) = opQueue s"
  "endpoints (reply q s) = endpoints s"
  "nextRef (reply q s) = nextRef s"
  "librarySlots (reply q s) = librarySlots s"
  "freeLibrarySlots (reply q s) = freeLibrarySlots s"
  "pendingBinds (reply q s) = pendingBinds s"
  "inputs (reply q s) = inputs s"
  "heldDone (reply q s) = heldDone s"
  "lk_log (reply q s) = lk_log s"
  "heap (reply q s) = heap s"
  by (simp_all add: reply_def)

lemma fail_frame [simp]:
  "clock (fail e s) = clock s"
  "pids (fail e s) = pids s"
  "retiredMarks (fail e s) = retiredMarks s"
  "windows (fail e s) = windows s"
  "emitted (fail e s) = emitted s"
  "opQueue (fail e s) = opQueue s"
  "endpoints (fail e s) = endpoints s"
  "nextRef (fail e s) = nextRef s"
  "librarySlots (fail e s) = librarySlots s"
  "freeLibrarySlots (fail e s) = freeLibrarySlots s"
  "pendingBinds (fail e s) = pendingBinds s"
  "inputs (fail e s) = inputs s"
  "heldDone (fail e s) = heldDone s"
  "lk_log (fail e s) = lk_log s"
  "heap (fail e s) = heap s"
  by (simp_all add: fail_def)

lemma push_frame [simp]:
  "clock (push ts s) = clock s"
  "pids (push ts s) = pids s"
  "retiredMarks (push ts s) = retiredMarks s"
  "windows (push ts s) = windows s"
  "emitted (push ts s) = emitted s"
  "opQueue (push ts s) = opQueue s"
  "endpoints (push ts s) = endpoints s"
  "nextRef (push ts s) = nextRef s"
  "librarySlots (push ts s) = librarySlots s"
  "freeLibrarySlots (push ts s) = freeLibrarySlots s"
  "pendingBinds (push ts s) = pendingBinds s"
  "inputs (push ts s) = inputs s"
  "heldDone (push ts s) = heldDone s"
  "lk_log (push ts s) = lk_log s"
  "heap (push ts s) = heap s"
  by (simp_all add: push_def)

lemma fence_frame [simp]:
  "clock (fence s) = clock s"
  "pids (fence s) = pids s"
  "retiredMarks (fence s) = retiredMarks s"
  "windows (fence s) = windows s"
  "emitted (fence s) = emitted s"
  "cont (fence s) = cont s"
  "opQueue (fence s) = opQueue s"
  "endpoints (fence s) = endpoints s"
  "nextRef (fence s) = nextRef s"
  "librarySlots (fence s) = librarySlots s"
  "freeLibrarySlots (fence s) = freeLibrarySlots s"
  "pendingBinds (fence s) = pendingBinds s"
  "inputs (fence s) = inputs s"
  "heldDone (fence s) = heldDone s"
  "heap (fence s) = heap s"
  by (simp_all add: fence_def)

lemma finish_hold_frame [simp]:
  "clock (finish_hold r q s) = clock s"
  "pids (finish_hold r q s) = pids s"
  "retiredMarks (finish_hold r q s) = retiredMarks s"
  "windows (finish_hold r q s) = windows s"
  "emitted (finish_hold r q s) = emitted s"
  "cont (finish_hold r q s) = cont s"
  "opQueue (finish_hold r q s) = opQueue s"
  "endpoints (finish_hold r q s) = endpoints s"
  "nextRef (finish_hold r q s) = nextRef s"
  "librarySlots (finish_hold r q s) = librarySlots s"
  "freeLibrarySlots (finish_hold r q s) = freeLibrarySlots s"
  "pendingBinds (finish_hold r q s) = pendingBinds s"
  "inputs (finish_hold r q s) = inputs s"
  "lk_log (finish_hold r q s) = lk_log s"
  by (simp_all add: finish_hold_def split: option.split)

lemma cancelHardwareHold_frame [simp]:
  "clock (cancelHardwareHold r s) = clock s"
  "pids (cancelHardwareHold r s) = pids s"
  "retiredMarks (cancelHardwareHold r s) = retiredMarks s"
  "windows (cancelHardwareHold r s) = windows s"
  "emitted (cancelHardwareHold r s) = emitted s"
  "cont (cancelHardwareHold r s) = cont s"
  "opQueue (cancelHardwareHold r s) = opQueue s"
  "endpoints (cancelHardwareHold r s) = endpoints s"
  "nextRef (cancelHardwareHold r s) = nextRef s"
  "librarySlots (cancelHardwareHold r s) = librarySlots s"
  "freeLibrarySlots (cancelHardwareHold r s) = freeLibrarySlots s"
  "pendingBinds (cancelHardwareHold r s) = pendingBinds s"
  "inputs (cancelHardwareHold r s) = inputs s"
  "lk_log (cancelHardwareHold r s) = lk_log s"
  by (simp_all add: cancelHardwareHold_def)

lemma emit_frame [simp]:
  "clock (emit m s) = clock s"
  "pids (emit m s) = pids s"
  "retiredMarks (emit m s) = retiredMarks s"
  "windows (emit m s) = windows s"
  "cont (emit m s) = cont s"
  "opQueue (emit m s) = opQueue s"
  "endpoints (emit m s) = endpoints s"
  "nextRef (emit m s) = nextRef s"
  "librarySlots (emit m s) = librarySlots s"
  "freeLibrarySlots (emit m s) = freeLibrarySlots s"
  "pendingBinds (emit m s) = pendingBinds s"
  "inputs (emit m s) = inputs s"
  "heldDone (emit m s) = heldDone s"
  "lk_log (emit m s) = lk_log s"
  "heap (emit m s) = heap s"
  by (simp_all add: emit_def)

lemma mark_frame [simp]:
  "clock (mark p e s) = clock s"
  "pids (mark p e s) = pids s"
  "windows (mark p e s) = windows s"
  "emitted (mark p e s) = emitted s"
  "cont (mark p e s) = cont s"
  "opQueue (mark p e s) = opQueue s"
  "endpoints (mark p e s) = endpoints s"
  "nextRef (mark p e s) = nextRef s"
  "librarySlots (mark p e s) = librarySlots s"
  "freeLibrarySlots (mark p e s) = freeLibrarySlots s"
  "pendingBinds (mark p e s) = pendingBinds s"
  "inputs (mark p e s) = inputs s"
  "heldDone (mark p e s) = heldDone s"
  "lk_log (mark p e s) = lk_log s"
  "heap (mark p e s) = heap s"
  by (simp_all add: mark_def Let_def)

lemma fold_cancel_frame [simp]:
  "clock (fold cancelHardwareHold rs s) = clock s"
  "pids (fold cancelHardwareHold rs s) = pids s"
  "retiredMarks (fold cancelHardwareHold rs s) = retiredMarks s"
  "windows (fold cancelHardwareHold rs s) = windows s"
  "emitted (fold cancelHardwareHold rs s) = emitted s"
  "cont (fold cancelHardwareHold rs s) = cont s"
  "opQueue (fold cancelHardwareHold rs s) = opQueue s"
  "endpoints (fold cancelHardwareHold rs s) = endpoints s"
  "nextRef (fold cancelHardwareHold rs s) = nextRef s"
  "librarySlots (fold cancelHardwareHold rs s) = librarySlots s"
  "freeLibrarySlots (fold cancelHardwareHold rs s) = freeLibrarySlots s"
  "pendingBinds (fold cancelHardwareHold rs s) = pendingBinds s"
  "inputs (fold cancelHardwareHold rs s) = inputs s"
  "lk_log (fold cancelHardwareHold rs s) = lk_log s"
  by (induction rs arbitrary: s) simp_all

lemma fold_lk_frame [simp]:
  "clock (fold (\<lambda>x. lk (c x)) xs s) = clock s"
  "pids (fold (\<lambda>x. lk (c x)) xs s) = pids s"
  "retiredMarks (fold (\<lambda>x. lk (c x)) xs s) = retiredMarks s"
  "windows (fold (\<lambda>x. lk (c x)) xs s) = windows s"
  "emitted (fold (\<lambda>x. lk (c x)) xs s) = emitted s"
  "cont (fold (\<lambda>x. lk (c x)) xs s) = cont s"
  "opQueue (fold (\<lambda>x. lk (c x)) xs s) = opQueue s"
  "endpoints (fold (\<lambda>x. lk (c x)) xs s) = endpoints s"
  "nextRef (fold (\<lambda>x. lk (c x)) xs s) = nextRef s"
  "librarySlots (fold (\<lambda>x. lk (c x)) xs s) = librarySlots s"
  "freeLibrarySlots (fold (\<lambda>x. lk (c x)) xs s) = freeLibrarySlots s"
  "pendingBinds (fold (\<lambda>x. lk (c x)) xs s) = pendingBinds s"
  "inputs (fold (\<lambda>x. lk (c x)) xs s) = inputs s"
  "heldDone (fold (\<lambda>x. lk (c x)) xs s) = heldDone s"
  "heap (fold (\<lambda>x. lk (c x)) xs s) = heap s"
  by (induction xs arbitrary: s) simp_all

lemma cont_simps [simp]:
  "cont (push ts s) = ts @ cont s" "cont (fail e s) = []"
  "heap (upd_ep r f s) = (heap s)(r := f (heap s r))"
  "emitted (emit m s) = emitted s @ [m]"
  by (simp_all add: push_def fail_def upd_ep_def emit_def)

text \<open>The views of the key state depend on the maps only.\<close>

lemma views_cong:
  "pids s = pids t \<Longrightarrow> epoch_of s = epoch_of t"
  "pids s = pids t \<Longrightarrow> liveEpoch s = liveEpoch t"
  "pids s = pids t \<Longrightarrow> activeEpoch s = activeEpoch t"
  "pids s = pids t \<Longrightarrow> live_epochs s = live_epochs t"
  "pids s = pids t \<Longrightarrow> retiredMarks s = retiredMarks t \<Longrightarrow> retiredThrough s = retiredThrough t"
  by (simp_all add: fun_eq_iff epoch_of_def liveEpoch_def activeEpoch_def live_epochs_def retiredThrough_def)

lemma upd_ep_views [simp]:
  "epoch_of (upd_ep r f s) = epoch_of s"
  "liveEpoch (upd_ep r f s) = liveEpoch s"
  "activeEpoch (upd_ep r f s) = activeEpoch s"
  "live_epochs (upd_ep r f s) = live_epochs s"
  "retiredThrough (upd_ep r f s) = retiredThrough s"
  by (simp_all add: fun_eq_iff epoch_of_def liveEpoch_def activeEpoch_def live_epochs_def retiredThrough_def)

lemma lk_views [simp]:
  "epoch_of (lk c s) = epoch_of s"
  "liveEpoch (lk c s) = liveEpoch s"
  "activeEpoch (lk c s) = activeEpoch s"
  "live_epochs (lk c s) = live_epochs s"
  "retiredThrough (lk c s) = retiredThrough s"
  by (simp_all add: fun_eq_iff epoch_of_def liveEpoch_def activeEpoch_def live_epochs_def retiredThrough_def)

lemma send_views [simp]:
  "epoch_of (send e s) = epoch_of s"
  "liveEpoch (send e s) = liveEpoch s"
  "activeEpoch (send e s) = activeEpoch s"
  "live_epochs (send e s) = live_epochs s"
  "retiredThrough (send e s) = retiredThrough s"
  by (simp_all add: fun_eq_iff epoch_of_def liveEpoch_def activeEpoch_def live_epochs_def retiredThrough_def)

lemma drop_frame_views [simp]:
  "epoch_of (drop_frame r d s) = epoch_of s"
  "liveEpoch (drop_frame r d s) = liveEpoch s"
  "activeEpoch (drop_frame r d s) = activeEpoch s"
  "live_epochs (drop_frame r d s) = live_epochs s"
  "retiredThrough (drop_frame r d s) = retiredThrough s"
  by (simp_all add: fun_eq_iff epoch_of_def liveEpoch_def activeEpoch_def live_epochs_def retiredThrough_def)

lemma reply_views [simp]:
  "epoch_of (reply q s) = epoch_of s"
  "liveEpoch (reply q s) = liveEpoch s"
  "activeEpoch (reply q s) = activeEpoch s"
  "live_epochs (reply q s) = live_epochs s"
  "retiredThrough (reply q s) = retiredThrough s"
  by (simp_all add: fun_eq_iff epoch_of_def liveEpoch_def activeEpoch_def live_epochs_def retiredThrough_def)

lemma fail_views [simp]:
  "epoch_of (fail e s) = epoch_of s"
  "liveEpoch (fail e s) = liveEpoch s"
  "activeEpoch (fail e s) = activeEpoch s"
  "live_epochs (fail e s) = live_epochs s"
  "retiredThrough (fail e s) = retiredThrough s"
  by (simp_all add: fun_eq_iff epoch_of_def liveEpoch_def activeEpoch_def live_epochs_def retiredThrough_def)

lemma push_views [simp]:
  "epoch_of (push ts s) = epoch_of s"
  "liveEpoch (push ts s) = liveEpoch s"
  "activeEpoch (push ts s) = activeEpoch s"
  "live_epochs (push ts s) = live_epochs s"
  "retiredThrough (push ts s) = retiredThrough s"
  by (simp_all add: fun_eq_iff epoch_of_def liveEpoch_def activeEpoch_def live_epochs_def retiredThrough_def)

lemma fence_views [simp]:
  "epoch_of (fence s) = epoch_of s"
  "liveEpoch (fence s) = liveEpoch s"
  "activeEpoch (fence s) = activeEpoch s"
  "live_epochs (fence s) = live_epochs s"
  "retiredThrough (fence s) = retiredThrough s"
  by (simp_all add: fun_eq_iff epoch_of_def liveEpoch_def activeEpoch_def live_epochs_def retiredThrough_def)

lemma finish_hold_views [simp]:
  "epoch_of (finish_hold r q s) = epoch_of s"
  "liveEpoch (finish_hold r q s) = liveEpoch s"
  "activeEpoch (finish_hold r q s) = activeEpoch s"
  "live_epochs (finish_hold r q s) = live_epochs s"
  "retiredThrough (finish_hold r q s) = retiredThrough s"
  by (simp_all add: fun_eq_iff epoch_of_def liveEpoch_def activeEpoch_def live_epochs_def retiredThrough_def)

lemma cancelHardwareHold_views [simp]:
  "epoch_of (cancelHardwareHold r s) = epoch_of s"
  "liveEpoch (cancelHardwareHold r s) = liveEpoch s"
  "activeEpoch (cancelHardwareHold r s) = activeEpoch s"
  "live_epochs (cancelHardwareHold r s) = live_epochs s"
  "retiredThrough (cancelHardwareHold r s) = retiredThrough s"
  by (simp_all add: fun_eq_iff epoch_of_def liveEpoch_def activeEpoch_def live_epochs_def retiredThrough_def)

lemma emit_views [simp]:
  "epoch_of (emit m s) = epoch_of s"
  "liveEpoch (emit m s) = liveEpoch s"
  "activeEpoch (emit m s) = activeEpoch s"
  "live_epochs (emit m s) = live_epochs s"
  "retiredThrough (emit m s) = retiredThrough s"
  by (simp_all add: fun_eq_iff epoch_of_def liveEpoch_def activeEpoch_def live_epochs_def retiredThrough_def)

lemma fold_cancel_views [simp]:
  "epoch_of (fold cancelHardwareHold rs s) = epoch_of s"
  "liveEpoch (fold cancelHardwareHold rs s) = liveEpoch s"
  "activeEpoch (fold cancelHardwareHold rs s) = activeEpoch s"
  "live_epochs (fold cancelHardwareHold rs s) = live_epochs s"
  "retiredThrough (fold cancelHardwareHold rs s) = retiredThrough s"
  by (simp_all add: fun_eq_iff epoch_of_def liveEpoch_def activeEpoch_def live_epochs_def retiredThrough_def)

lemma fold_lk_views [simp]:
  "epoch_of (fold (\<lambda>x. lk (c x)) xs s) = epoch_of s"
  "liveEpoch (fold (\<lambda>x. lk (c x)) xs s) = liveEpoch s"
  "activeEpoch (fold (\<lambda>x. lk (c x)) xs s) = activeEpoch s"
  "live_epochs (fold (\<lambda>x. lk (c x)) xs s) = live_epochs s"
  "retiredThrough (fold (\<lambda>x. lk (c x)) xs s) = retiredThrough s"
  by (simp_all add: fun_eq_iff epoch_of_def liveEpoch_def activeEpoch_def live_epochs_def retiredThrough_def)

lemma record_views [simp]:
  "epoch_of (s\<lparr>cont := x0\<rparr>) = epoch_of s"
  "epoch_of (s\<lparr>opQueue := x1\<rparr>) = epoch_of s"
  "epoch_of (s\<lparr>windows := x2\<rparr>) = epoch_of s"
  "epoch_of (s\<lparr>endpoints := x3\<rparr>) = epoch_of s"
  "epoch_of (s\<lparr>inputs := x4\<rparr>) = epoch_of s"
  "epoch_of (s\<lparr>heldDone := x5\<rparr>) = epoch_of s"
  "epoch_of (s\<lparr>pendingBinds := x6\<rparr>) = epoch_of s"
  "epoch_of (s\<lparr>freeLibrarySlots := x7\<rparr>) = epoch_of s"
  "epoch_of (s\<lparr>clock := x8\<rparr>) = epoch_of s"
  "liveEpoch (s\<lparr>cont := x0\<rparr>) = liveEpoch s"
  "liveEpoch (s\<lparr>opQueue := x1\<rparr>) = liveEpoch s"
  "liveEpoch (s\<lparr>windows := x2\<rparr>) = liveEpoch s"
  "liveEpoch (s\<lparr>endpoints := x3\<rparr>) = liveEpoch s"
  "liveEpoch (s\<lparr>inputs := x4\<rparr>) = liveEpoch s"
  "liveEpoch (s\<lparr>heldDone := x5\<rparr>) = liveEpoch s"
  "liveEpoch (s\<lparr>pendingBinds := x6\<rparr>) = liveEpoch s"
  "liveEpoch (s\<lparr>freeLibrarySlots := x7\<rparr>) = liveEpoch s"
  "liveEpoch (s\<lparr>clock := x8\<rparr>) = liveEpoch s"
  "activeEpoch (s\<lparr>cont := x0\<rparr>) = activeEpoch s"
  "activeEpoch (s\<lparr>opQueue := x1\<rparr>) = activeEpoch s"
  "activeEpoch (s\<lparr>windows := x2\<rparr>) = activeEpoch s"
  "activeEpoch (s\<lparr>endpoints := x3\<rparr>) = activeEpoch s"
  "activeEpoch (s\<lparr>inputs := x4\<rparr>) = activeEpoch s"
  "activeEpoch (s\<lparr>heldDone := x5\<rparr>) = activeEpoch s"
  "activeEpoch (s\<lparr>pendingBinds := x6\<rparr>) = activeEpoch s"
  "activeEpoch (s\<lparr>freeLibrarySlots := x7\<rparr>) = activeEpoch s"
  "activeEpoch (s\<lparr>clock := x8\<rparr>) = activeEpoch s"
  "live_epochs (s\<lparr>cont := x0\<rparr>) = live_epochs s"
  "live_epochs (s\<lparr>opQueue := x1\<rparr>) = live_epochs s"
  "live_epochs (s\<lparr>windows := x2\<rparr>) = live_epochs s"
  "live_epochs (s\<lparr>endpoints := x3\<rparr>) = live_epochs s"
  "live_epochs (s\<lparr>inputs := x4\<rparr>) = live_epochs s"
  "live_epochs (s\<lparr>heldDone := x5\<rparr>) = live_epochs s"
  "live_epochs (s\<lparr>pendingBinds := x6\<rparr>) = live_epochs s"
  "live_epochs (s\<lparr>freeLibrarySlots := x7\<rparr>) = live_epochs s"
  "live_epochs (s\<lparr>clock := x8\<rparr>) = live_epochs s"
  "retiredThrough (s\<lparr>cont := x0\<rparr>) = retiredThrough s"
  "retiredThrough (s\<lparr>opQueue := x1\<rparr>) = retiredThrough s"
  "retiredThrough (s\<lparr>windows := x2\<rparr>) = retiredThrough s"
  "retiredThrough (s\<lparr>endpoints := x3\<rparr>) = retiredThrough s"
  "retiredThrough (s\<lparr>inputs := x4\<rparr>) = retiredThrough s"
  "retiredThrough (s\<lparr>heldDone := x5\<rparr>) = retiredThrough s"
  "retiredThrough (s\<lparr>pendingBinds := x6\<rparr>) = retiredThrough s"
  "retiredThrough (s\<lparr>freeLibrarySlots := x7\<rparr>) = retiredThrough s"
  "retiredThrough (s\<lparr>clock := x8\<rparr>) = retiredThrough s"
  by (simp_all add: fun_eq_iff epoch_of_def liveEpoch_def activeEpoch_def live_epochs_def retiredThrough_def)

end
