(* ===== verification/Media_Worker_Safety.thy ===== *)
theory Media_Worker_Safety
  imports Media_Worker_Frames
begin

text \<open>
  What the media worker guarantees on every interleaving of messages, operation segments
  and frames: bounded state, one live epoch per key slot, no return of a retired epoch,
  no plaintext behind the output transform, no frame delivered twice.
  Each section proves one invariant, first for every segment and every handler, then for
  every run through the interpretation \<open>media_worker\<close> of the step machine.
\<close>

section \<open>The key state\<close>

definition state_ok :: "pid_state \<Rightarrow> bool" where
  "state_ok st \<longleftrightarrow> jwf (epochs st) \<and> jsize (epochs st) \<le> MAX_LIVE_EPOCHS
     \<and> (\<forall>e1 e2 x y. jget (epochs st) e1 = Some x \<longrightarrow> jget (epochs st) e2 = Some y \<longrightarrow> e_kid x = e_kid y \<longrightarrow> e1 = e2)
     \<and> (active st = 0 \<or> jhas (epochs st) (active st))
     \<and> (\<forall>e x. jget (epochs st) e = Some x \<longrightarrow> 0 < e \<and> e_kid x < KEYRING)"

definition key_inv :: "worker \<Rightarrow> bool" where
  "key_inv s \<longleftrightarrow> jwf (pids s) \<and> jsize (pids s) \<le> MAX_PIDS
     \<and> (\<forall>p st. jget (pids s) p = Some st \<longrightarrow> state_ok st)
     \<and> jwf (retiredMarks s) \<and> jsize (retiredMarks s) \<le> MAX_RETIRED_MARKERS
     \<and> (\<forall>p st m. jget (pids s) p = Some st \<longrightarrow> jget (retiredMarks s) p = Some m \<longrightarrow> m \<le> retired st)
     \<and> (\<forall>p e. jhas (windows s) (p, e) \<longrightarrow> liveEpoch s p e)"

lemma key_inv_cong:
  "pids s = pids t \<Longrightarrow> retiredMarks s = retiredMarks t \<Longrightarrow> windows s = windows t \<Longrightarrow> key_inv s = key_inv t"
  by (simp add: key_inv_def views_cong(2) [of s t])

lemma new_worker_key_inv: "key_inv new_worker"
  by (simp add: key_inv_def new_worker_def jhas_def)

lemma jget_drop: "jwf m \<Longrightarrow> jget (drop n m) k = Some v \<Longrightarrow> jget m k = Some v"
proof -
  assume wf: "jwf m" and "jget (drop n m) k = Some v"
  then have "(k, v) \<in> set m" by (blast dest: jget_in in_set_dropD)
  with wf show ?thesis by (simp add: jget_iff_in)
qed

lemma jwf_drop: "jwf m \<Longrightarrow> jwf (drop n m)"
  by (simp add: jwf_def jkeys_def drop_map [symmetric] distinct_drop)

lemma evict_marks_props:
  assumes "jwf m"
  shows "jwf (evict_marks m)" "jsize (evict_marks m) \<le> MAX_RETIRED_MARKERS"
    "jget (evict_marks m) k = Some v \<Longrightarrow> jget m k = Some v"
    "jsize m \<le> MAX_RETIRED_MARKERS \<Longrightarrow> evict_marks m = m"
  using assms by (auto simp: evict_marks_def jwf_drop intro: jget_drop)

definition state_retired :: "worker \<Rightarrow> string \<Rightarrow> int" where
  "state_retired s p = (case jget (pids s) p of None \<Rightarrow> 0 | Some st \<Rightarrow> retired st)"

lemma mark_eq: "retiredMarks (mark p e s) =
    evict_marks (jset p (max e (max (state_retired s p) 0)) (jdel p (retiredMarks s)))"
  by (simp add: mark_def Let_def retiredThrough_def state_retired_def)

lemma mark_key_inv:
  assumes inv: "key_inv s" and le: "\<And>st. jget (pids s) p = Some st \<Longrightarrow> max e 0 \<le> retired st"
  shows "key_inv (mark p e s)"
proof -
  let ?m = "jset p (max e (max (state_retired s p) 0)) (jdel p (retiredMarks s))"
  have wf: "jwf ?m" using inv by (simp add: key_inv_def)
  have "m \<le> retired st" if "jget (pids s) q = Some st" and "jget (evict_marks ?m) q = Some m" for q st m
  proof -
    have "jget ?m q = Some m" by (rule evict_marks_props(3) [OF wf that(2)])
    then show ?thesis
      using that(1) inv le by (auto simp: key_inv_def state_retired_def split: if_splits)
  qed
  then show ?thesis
    using inv evict_marks_props(1,2) [OF wf] by (auto simp: key_inv_def mark_eq views_cong(2) [of "mark p e s" s])
qed

lemma retire_maps_eqs:
  "pids (retire_maps p e s) = jupd p (drop_epoch e) (pids s)"
  "windows (retire_maps p e s) = jdel (p, e) (windows s)"
  "cont (retire_maps p e s) = cont s" "opQueue (retire_maps p e s) = opQueue s"
  "emitted (retire_maps p e s) = emitted s" "endpoints (retire_maps p e s) = endpoints s"
  "librarySlots (retire_maps p e s) = librarySlots s" "freeLibrarySlots (retire_maps p e s) = freeLibrarySlots s"
  "pendingBinds (retire_maps p e s) = pendingBinds s" "nextRef (retire_maps p e s) = nextRef s"
  by (simp_all add: retire_maps_def Let_def)

lemma drop_epoch_simps [simp]:
  "epochs (drop_epoch e st) = jdel e (epochs st)" "retired (drop_epoch e st) = max (retired st) e"
  by (simp_all add: drop_epoch_def)

lemma retire_maps_live:
  "epoch_of (retire_maps p e s) p' e' = (if p' = p \<and> e' = e then None else epoch_of s p' e')"
  "liveEpoch (retire_maps p e s) p' e' = (liveEpoch s p' e' \<and> \<not> (p' = p \<and> e' = e))"
  by (auto simp: epoch_of_def liveEpoch_def retire_maps_eqs split: option.splits)

lemma state_ok_drop: "state_ok st \<Longrightarrow> state_ok (drop_epoch e st)"
  unfolding state_ok_def drop_epoch_def
  by (auto intro: order_trans [OF jsize_jdel_le])

lemma retire_maps_key_inv:
  assumes inv: "key_inv s" and live: "liveEpoch s p e"
  shows "key_inv (retire_maps p e s)"
proof -
  define s2 where "s2 = (fold cancelHardwareHold (filter (\<lambda>r. ep_pid (heap s r) = p \<and>
            (case ep_hardwareHold (heap s r) of None \<Rightarrow> False | Some h \<Rightarrow> sc_epoch (h_scope h) = e)) (ep_refs s)) s)
      \<lparr>pids := pids (retire_maps p e s), windows := jdel (p, e) (windows s)\<rparr>"
  obtain st where st: "jget (pids s) p = Some st" and "jhas (epochs st) e"
    using live by (auto simp: liveEpoch_def epoch_of_def jhas_def split: option.splits)
  then have pos: "0 < e" using inv by (auto simp: key_inv_def state_ok_def jhas_def)
  have live2: "liveEpoch s2 p' e' = (liveEpoch s p' e' \<and> \<not> (p' = p \<and> e' = e))" for p' e'
    using retire_maps_live(2) [of p e s p' e'] views_cong(2) [of s2 "retire_maps p e s"] by (simp add: s2_def)
  have st2: "\<exists>st0. jget (pids s) q = Some st0 \<and> (state_ok st0 \<longrightarrow> state_ok st') \<and> retired st0 \<le> retired st'"
    if "jget (pids s2) q = Some st'" for q st'
    using that state_ok_drop [of _ e] by (auto simp: s2_def retire_maps_eqs split: if_splits)
  have "key_inv s2"
    unfolding key_inv_def
  proof (intro conjI allI impI)
    show "jwf (pids s2)" "jsize (pids s2) \<le> MAX_PIDS" "jwf (retiredMarks s2)"
      "jsize (retiredMarks s2) \<le> MAX_RETIRED_MARKERS"
      using inv by (simp_all add: key_inv_def s2_def retire_maps_eqs)
    show "state_ok st'" if "jget (pids s2) q = Some st'" for q st'
      using st2 [OF that] inv by (auto simp: key_inv_def)
    show "m \<le> retired st'" if "jget (pids s2) q = Some st'" and "jget (retiredMarks s2) q = Some m" for q st' m
    proof -
      have "jget (retiredMarks s) q = Some m" using that(2) by (simp add: s2_def)
      then show ?thesis using st2 [OF that(1)] inv by (fastforce simp: key_inv_def)
    qed
    show "liveEpoch s2 q f" if "jhas (windows s2) (q, f)" for q f
      using that inv unfolding live2 by (auto simp: key_inv_def s2_def)
  qed
  then have "key_inv (mark p e s2)"
    using pos st by (intro mark_key_inv) (auto simp: s2_def retire_maps_eqs)
  moreover have "retiredMarks (retire_maps p e s) = retiredMarks (mark p e s2)"
    by (simp add: retire_maps_def Let_def s2_def mark_eq state_retired_def retire_maps_eqs)
  ultimately show ?thesis
    by (subst key_inv_cong [of _ "mark p e s2"]) (simp_all add: s2_def retire_maps_eqs)
qed

section \<open>The continuation of the running operation\<close>

fun is_start :: "task \<Rightarrow> bool" where
  "is_start (TStart _) = True"
| "is_start _ = False"

text \<open>Segments of \<^verbatim>\<open>key\<close> that are always the last of a continuation.\<close>

fun key_last :: "task \<Rightarrow> bool" where
  "key_last (TKeyDigest _ _ _ _) = True"
| "key_last (TKeyImport _ _ _ _) = True"
| "key_last (TKeyInstall _ _ _ _) = True"
| "key_last _ = False"

fun is_forget :: "task \<Rightarrow> bool" where
  "is_forget (TForgetEnd _) = True"
| "is_forget _ = False"

text \<open>What a segment found about the key it is about to handle.\<close>

definition key_ready :: "worker \<Rightarrow> task list \<Rightarrow> task \<Rightarrow> bool" where
  "key_ready s ts t = (case t of
     TKeyDigest pid e kid key \<Rightarrow> 0 < e \<and> kid < KEYRING
   | TKeyImport pid e kid key \<Rightarrow> 0 < e \<and> kid < KEYRING \<and> jhas (pids s) pid
   | TKeyInstall pid e kid key \<Rightarrow> 0 < e \<and> kid < KEYRING \<and> jhas (pids s) pid \<and> \<not> liveEpoch s pid e
       \<and> (\<forall>old x. epoch_of s pid old = Some x \<longrightarrow> e_kid x = kid \<longrightarrow> TRetire pid old \<in> set ts)
       \<and> (jsize (live_epochs s pid) < MAX_LIVE_EPOCHS \<or> TKeyEvict pid \<in> set ts)
   | TForgetEnd pid \<Rightarrow> (\<forall>e. liveEpoch s pid e \<longrightarrow> TRetire pid e \<in> set ts)
   | _ \<Rightarrow> True)"

text \<open>A continuation: no start segment, the key segments last, behind a \<^verbatim>\<open>forget\<close> only its end,
  and every segment ready under the segments in front of it.\<close>

fun cont_ok :: "worker \<Rightarrow> task list \<Rightarrow> task list \<Rightarrow> bool" where
  "cont_ok s pre [] = True"
| "cont_ok s pre (t # ts) = (\<not> is_start t \<and> (key_last t \<longrightarrow> ts = [])
     \<and> (is_forget t \<longrightarrow> set ts \<subseteq> {TFence, TReply ROk}) \<and> key_ready s pre t \<and> cont_ok s (pre @ [t]) ts)"

definition cont_inv :: "worker \<Rightarrow> bool" where
  "cont_inv s \<longleftrightarrow> list_all is_start (opQueue s) \<and> cont_ok s [] (cont s)"

lemma key_ready_mono:
  assumes "key_ready s pre t" and "set pre - R \<subseteq> set pre'"
    and "\<And>p. jhas (pids s) p \<Longrightarrow> jhas (pids s') p"
    and "\<And>p e x. epoch_of s' p e = Some x \<Longrightarrow> epoch_of s p e = Some x \<and> TRetire p e \<notin> R"
    and "\<And>p. jsize (live_epochs s' p) \<le> jsize (live_epochs s p)"
    and "\<And>p. TKeyEvict p \<in> R \<Longrightarrow> jsize (live_epochs s' p) < MAX_LIVE_EPOCHS"
  shows "key_ready s' pre' t"
proof (cases t)
  case (TKeyInstall pid e kid key)
  have "jsize (live_epochs s' pid) < MAX_LIVE_EPOCHS \<or> TKeyEvict pid \<in> set pre'"
    using assms(1,2) assms(5,6) [of pid] TKeyInstall
    by (cases "TKeyEvict pid \<in> R") (auto simp: key_ready_def)
  moreover have "TRetire pid old \<in> set pre'" if "epoch_of s' pid old = Some x" "e_kid x = kid" for old x
    using assms(1,2) assms(4) [OF that(1)] that(2) TKeyInstall by (auto simp: key_ready_def)
  moreover have "\<not> liveEpoch s' pid e"
    using assms(1) assms(4) [of pid e] TKeyInstall
    by (cases "epoch_of s' pid e") (auto simp: key_ready_def liveEpoch_def)
  ultimately show ?thesis
    using assms(1,3) TKeyInstall by (auto simp: key_ready_def)
next
  case (TForgetEnd pid)
  have "TRetire pid e \<in> set pre'" if "liveEpoch s' pid e" for e
  proof -
    obtain x where "epoch_of s' pid e = Some x" using \<open>liveEpoch s' pid e\<close> by (auto simp: liveEpoch_def)
    from assms(4) [OF this] show ?thesis
      using assms(1,2) TForgetEnd by (auto simp: key_ready_def liveEpoch_def)
  qed
  then show ?thesis using TForgetEnd by (simp add: key_ready_def)
qed (use assms(1,3) in \<open>auto simp: key_ready_def\<close>)

lemma cont_ok_mono:
  assumes "cont_ok s pre ts" and "set pre - R \<subseteq> set pre'"
    and "\<And>p. jhas (pids s) p \<Longrightarrow> jhas (pids s') p"
    and "\<And>p e x. epoch_of s' p e = Some x \<Longrightarrow> epoch_of s p e = Some x \<and> TRetire p e \<notin> R"
    and "\<And>p. jsize (live_epochs s' p) \<le> jsize (live_epochs s p)"
    and "\<And>p. TKeyEvict p \<in> R \<Longrightarrow> jsize (live_epochs s' p) < MAX_LIVE_EPOCHS"
  shows "cont_ok s' pre' ts"
  using assms(1,2)
proof (induction ts arbitrary: pre pre')
  case (Cons t ts)
  have "key_ready s' pre' t"
    using key_ready_mono [of s pre t R pre' s'] Cons.prems assms(3-6) by simp
  moreover have "cont_ok s' (pre' @ [t]) ts"
    by (rule Cons.IH [of "pre @ [t]"]) (use Cons.prems in auto)
  ultimately show ?case using Cons.prems by simp
qed simp

text \<open>A segment that keeps the key maps and pushes only neutral segments.\<close>

definition neutral :: "task \<Rightarrow> bool" where
  "neutral t \<longleftrightarrow> \<not> is_start t \<and> \<not> key_last t \<and> \<not> is_forget t"

lemma cont_ok_append_neutral:
  "list_all neutral us \<Longrightarrow> cont_ok s pre (us @ ts) \<longleftrightarrow> cont_ok s (pre @ us) ts"
proof (induction us arbitrary: pre)
  case (Cons u us)
  then have "key_ready s pre u" by (cases u) (auto simp: neutral_def key_ready_def)
  with Cons show ?case by (auto simp: neutral_def)
qed simp

lemma cont_ok_neutral_step:
  assumes "cont_ok s [] (t # ts)" and same: "pids s' = pids s"
    and us: "list_all neutral us"
    and "\<And>p e. t = TRetire p e \<Longrightarrow> \<not> liveEpoch s p e"
    and "\<And>p. t = TKeyEvict p \<Longrightarrow> jsize (live_epochs s p) < MAX_LIVE_EPOCHS \<or> TKeyEvict p \<in> set us"
  shows "cont_ok s' [] (us @ ts)"
proof -
  have "cont_ok s [t] ts" using assms(1) by simp
  then have "cont_ok s' ([] @ us) ts"
  proof (rule cont_ok_mono [where R = "{t} - set us"])
    show "set [t] - ({t} - set us) \<subseteq> set ([] @ us)" by auto
    show "epoch_of s p e = Some x \<and> TRetire p e \<notin> {t} - set us" if "epoch_of s' p e = Some x" for p e x
      using that assms(4) views_cong(1) [OF same] by (auto simp: liveEpoch_def)
    show "jsize (live_epochs s' p) < MAX_LIVE_EPOCHS" if "TKeyEvict p \<in> {t} - set us" for p
      using that assms(5) views_cong(4) [OF same] by auto
  qed (simp_all add: same views_cong(4) [OF same])
  then show ?thesis using cont_ok_append_neutral [OF us, of s' "[]" ts] by simp
qed

text \<open>Steps that leave the key maps, the log, the queue and the continuation alone.\<close>

definition calm :: "worker \<Rightarrow> worker \<Rightarrow> bool" where
  "calm s s' \<longleftrightarrow> pids s' = pids s \<and> retiredMarks s' = retiredMarks s \<and> windows s' = windows s
     \<and> emitted s' = emitted s \<and> opQueue s' = opQueue s \<and> cont s' = cont s"

lemma calm_simps [simp]:
  "calm s s"
  "calm s (upd_ep r f s') = calm s s'"
  "calm s (lk c s') = calm s s'"
  "calm s (send e s') = calm s s'"
  "calm s (drop_frame r d s') = calm s s'"
  "calm s (reply q s') = calm s s'"
  "calm s (fence s') = calm s s'"
  "calm s (finish_hold r h s') = calm s s'"
  "calm s (cancelHardwareHold r s') = calm s s'"
  "calm s (fold cancelHardwareHold rs s') = calm s s'"
  "calm s (fold (\<lambda>x. lk (g x)) xs s') = calm s s'"
  "calm s (s'\<lparr>endpoints := es\<rparr>) = calm s s'"
  "calm s (s'\<lparr>pendingBinds := pb\<rparr>) = calm s s'"
  "calm s (s'\<lparr>initialized := b\<rparr>) = calm s s'"
  "calm s (s'\<lparr>junkSeq := n\<rparr>) = calm s s'"
  "calm s (s'\<lparr>freeLibrarySlots := fl\<rparr>) = calm s s'"
  "calm s (s'\<lparr>inputs := inp\<rparr>) = calm s s'"
  "calm s (s'\<lparr>heldDone := hds\<rparr>) = calm s s'"
  "calm s (s'\<lparr>clock := t\<rparr>) = calm s s'"
  "calm s (s'\<lparr>replies := rp\<rparr>) = calm s s'"
  "calm s (s'\<lparr>stats_encrypted := n\<rparr>) = calm s s'"
  "calm s (s'\<lparr>stats_cryptorErrors := n\<rparr>) = calm s s'"
  by (simp_all add: calm_def)

lemma calm_fold: "(\<And>x s. calm s (f x s)) \<Longrightarrow> calm s (fold f xs s)"
proof (induction xs arbitrary: s)
  case (Cons x xs)
  from Cons.IH [OF Cons.prems, of "f x s"] Cons.prems [of s x] show ?case by (simp add: calm_def)
qed simp

text \<open>Segments that, unless they fail, only push neutral segments.\<close>

definition quiet :: "worker \<Rightarrow> worker \<Rightarrow> bool" where
  "quiet s s' \<longleftrightarrow> pids s' = pids s \<and> retiredMarks s' = retiredMarks s \<and> windows s' = windows s
     \<and> emitted s' = emitted s \<and> opQueue s' = opQueue s
     \<and> (cont s' = [] \<or> (\<exists>us. cont s' = us @ cont s \<and> list_all neutral us))"

lemma quiet_calm: "calm s s' \<Longrightarrow> quiet s s'"
  by (auto simp: calm_def quiet_def)

lemma quiet_push: "calm s s' \<Longrightarrow> list_all neutral us \<Longrightarrow> quiet s (push us s')"
  by (auto simp: calm_def quiet_def)

lemma quiet_fail: "calm s s' \<Longrightarrow> quiet s (fail e s')"
  by (simp add: calm_def quiet_def)

lemmas quiet_intros [simp] = quiet_push quiet_fail quiet_calm

lemma neutral_simps [simp]:
  "neutral (TRetire p e)" "neutral (TScrub p k e rs)" "neutral (TSetJunk r k)" "neutral TFence" "neutral (TReply q)"
  "neutral (TDetachScrub r)" "neutral (TDetachRemove r i)" "neutral (TDetachFree sl)" "neutral (TInstall r b)"
  "neutral (TInstallScrub r w ks b)" "neutral (TInstallKeys r w b)" "neutral (TBindFinish r p g xs)"
  "neutral (TKeyEvict p)" "neutral (TKeyFinish p e k rs)" "neutral (TRetireEnd p e)"
  by (simp_all add: neutral_def)

lemma list_all_neutral_map [simp]: "(\<And>x. neutral (f x)) \<Longrightarrow> list_all neutral (map f xs)"
  by (simp add: list_all_iff)

lemma scrub_quiet: "quiet s (scrub pid kid epoch rs s)"
  by (induction rs) simp_all

lemma set_junk_quiet: "quiet s (set_junk r kid s)"
  by (simp add: set_junk_def fresh_junk_def)

lemma detach_scrub_quiet: "quiet s (detach_scrub r s)"
  by (simp add: detach_scrub_def fresh_junk_def)

lemma detach_remove_quiet: "quiet s (detach_remove r i s)"
  by (simp add: detach_remove_def)

lemma install_scrub_quiet: "quiet s (install_scrub r wanted ks k s)"
  by (induction ks) simp_all

lemma install_keys_quiet: "quiet s (install_keys r wanted k s)"
  by (cases k) (simp_all add: install_keys_def Let_def calm_fold split_beta)

lemma bind_finish_quiet: "quiet s (bind_finish r pid gen inst s)"
  by (simp add: bind_finish_def)

lemma key_finish_quiet: "quiet s (key_finish pid e k ws s)"
  unfolding key_finish_def by (intro quiet_calm) (auto intro!: calm_fold)

lemma install_start_quiet: "quiet s (install_start r k s)"
  by (simp add: install_start_def)

lemma start_init_quiet: "quiet s (start_init s)"
  by (simp add: start_init_def)

lemma start_detach_quiet: "quiet s (start_detach i s)"
  by (simp add: start_detach_def Let_def split: option.split)

lemma start_hardwareProof_quiet: "quiet s (start_hardwareProof i p t e s)"
proof (cases "ref_of s i")
  case (Some r)
  then show ?thesis
    by (cases e) (simp_all add: start_hardwareProof_def Let_def split: option.split)
qed (simp add: start_hardwareProof_def)

lemma start_bind_quiet: "quiet s (start_bind i p t s)"
  by (simp add: start_bind_def Let_def split: option.split)

lemma start_retireOne_quiet: "quiet s (start_retireOne p e s)"
  by (simp add: start_retireOne_def)

lemma start_retire_quiet: "quiet s (start_retire p e s)"
  by (simp add: start_retire_def Let_def)

lemmas quiet_tasks = scrub_quiet set_junk_quiet detach_scrub_quiet detach_remove_quiet install_scrub_quiet install_keys_quiet
  bind_finish_quiet key_finish_quiet install_start_quiet start_init_quiet start_detach_quiet
  start_hardwareProof_quiet start_bind_quiet start_retireOne_quiet start_retire_quiet

lemma quiet_keeps:
  assumes inv: "key_inv s" "cont_inv s" and s: "cont s = t # ts" and q: "quiet (s\<lparr>cont := ts\<rparr>) s'"
    and "\<And>p e. t = TRetire p e \<Longrightarrow> \<not> liveEpoch s p e"
    and "\<And>p. t = TKeyEvict p \<Longrightarrow> jsize (live_epochs s p) < MAX_LIVE_EPOCHS"
  shows "key_inv s' \<and> cont_inv s'"
proof
  show "key_inv s'" using inv(1) q by (subst key_inv_cong [of _ s]) (auto simp: quiet_def)
  have same: "pids s' = pids s" and "opQueue s' = opQueue s" using q by (auto simp: quiet_def)
  have "cont_ok s' [] (cont s')"
  proof (cases "cont s' = []")
    case False
    then obtain us where "cont s' = us @ ts" "list_all neutral us" using q by (auto simp: quiet_def)
    then show ?thesis
      using cont_ok_neutral_step [of s t ts s' us] assms(5,6) inv(2) s same by (simp add: cont_inv_def)
  qed simp
  then show "cont_inv s'" using inv(2) \<open>opQueue s' = opQueue s\<close> by (simp add: cont_inv_def)
qed

lemma quiet_keeps_idle:
  assumes inv: "key_inv s" "cont_inv s" and s: "cont s = []" "opQueue s = t # ts"
    and q: "quiet (s\<lparr>opQueue := ts\<rparr>) s'"
  shows "key_inv s' \<and> cont_inv s'"
proof
  show "key_inv s'" using inv(1) q by (subst key_inv_cong [of _ s]) (auto simp: quiet_def)
  have "cont_ok s' [] (cont s')"
    using q s(1) cont_ok_append_neutral [of "cont s'" s' "[]" "[]"] by (auto simp: quiet_def)
  then show "cont_inv s'" using inv(2) s q by (auto simp: cont_inv_def quiet_def)
qed


section \<open>The segments that change the key maps\<close>

definition safe_state :: "worker \<Rightarrow> bool" where
  "safe_state s \<longleftrightarrow> key_inv s \<and> cont_inv s"

lemma live_epochs_get [simp]: "jget (live_epochs s p) e = epoch_of s p e"
  by (simp add: live_epochs_def epoch_of_def split: option.split)

lemma jkeys_live: "e \<in> set (jkeys (live_epochs s p)) \<longleftrightarrow> liveEpoch s p e"
  using jhas_iff [of "live_epochs s p" e] by (simp add: jhas_def liveEpoch_def)

lemma live_epochs_retire: "jsize (live_epochs (retire_maps p e s) q) \<le> jsize (live_epochs s q)"
  by (auto simp: live_epochs_def retire_maps_eqs jsize_jdel_le split: option.split)

lemma retireEpoch_safe:
  assumes inv: "safe_state s" and c: "cont s = TRetire p e # ts"
  shows "safe_state (retireEpoch p e (s\<lparr>cont := ts\<rparr>))"
proof (cases "epoch_of s p e")
  case None
  then have "quiet (s\<lparr>cont := ts\<rparr>) (retireEpoch p e (s\<lparr>cont := ts\<rparr>))" by (simp add: retireEpoch_def)
  with None show ?thesis
    using quiet_keeps [OF _ _ c] inv by (auto simp: safe_state_def liveEpoch_def)
next
  case (Some entry)
  let ?s0 = "s\<lparr>cont := ts\<rparr>"
  let ?s' = "push [TScrub p (e_kid entry) e (ep_refs ?s0)] (retire_maps p e ?s0)"
  have eq: "retireEpoch p e ?s0 = ?s'" using Some by (simp add: retireEpoch_def)
  have "key_inv ?s0" using inv by (subst key_inv_cong [of _ s]) (simp_all add: safe_state_def)
  then have "key_inv (retire_maps p e ?s0)" by (rule retire_maps_key_inv) (simp add: liveEpoch_def Some)
  then have ki: "key_inv ?s'" by (subst key_inv_cong [of _ "retire_maps p e ?s0"]) simp_all
  have "cont_ok s [TRetire p e] ts" using inv c by (simp add: safe_state_def cont_inv_def)
  then have "cont_ok ?s' [TScrub p (e_kid entry) e (ep_refs ?s0)] ts"
    by (rule cont_ok_mono [where R = "{TRetire p e}"])
      (use live_epochs_retire [of p e ?s0] in \<open>auto simp: retire_maps_eqs retire_maps_live split: if_splits\<close>)
  then show ?thesis
    unfolding eq using ki inv by (simp add: safe_state_def cont_inv_def retire_maps_eqs key_ready_def)
qed

lemma key_inv_new_pid:
  assumes inv: "key_inv s" and free: "\<not> jhas (pids s) p" and cap: "jsize (pids s) < MAX_PIDS"
    and s': "pids s' = jset p \<lparr>epochs = [], active = 0, retired = retiredThrough s p\<rparr> (pids s)"
      "retiredMarks s' = retiredMarks s" "windows s' = windows s"
  shows "key_inv s'"
proof -
  have none: "jget (pids s) p = None" using free by (simp add: jhas_def)
  then have "liveEpoch s' = liveEpoch s"
    by (auto simp: fun_eq_iff liveEpoch_def epoch_of_def s')
  moreover have "jsize (pids s') \<le> MAX_PIDS" using free cap by (simp add: s' jsize_jset)
  moreover have "state_ok \<lparr>epochs = [], active = 0, retired = r\<rparr>" for r
    by (simp add: state_ok_def)
  ultimately show ?thesis
    using inv by (auto simp: key_inv_def s' retiredThrough_def split: if_splits)
qed

lemma key_inv_frame [simp]:
  "key_inv (s\<lparr>cont := c\<rparr>) = key_inv s"
  "key_inv (s\<lparr>opQueue := oq\<rparr>) = key_inv s"
  "key_inv (push us s) = key_inv s"
  "key_inv (reply q s) = key_inv s"
  "key_inv (fail e s) = key_inv s"
  "key_inv (fence s) = key_inv s"
  "key_inv (fold (\<lambda>x. lk (g x)) xs s) = key_inv s"
  "key_inv (fold cancelHardwareHold rs s) = key_inv s"
  by (simp_all add: key_inv_def)

lemma safe_last:
  assumes "safe_state s" "key_inv s'" "opQueue s' = opQueue s" "cont s' = []"
  shows "safe_state s'"
  using assms by (simp add: safe_state_def cont_inv_def)

lemma key_digest_safe:
  assumes inv: "safe_state s" and c: "cont s = TKeyDigest p e k b # ts"
  shows "safe_state (key_digest digest p e k b (s\<lparr>cont := ts\<rparr>))"
proof -
  let ?s0 = "s\<lparr>cont := ts\<rparr>"
  let ?s1 = "?s0\<lparr>pids := jset p \<lparr>epochs = [], active = 0, retired = retiredThrough s p\<rparr> (pids s)\<rparr>"
  have ts: "ts = []" and ek: "0 < e" "k < KEYRING"
    using inv c by (auto simp: safe_state_def cont_inv_def key_ready_def)
  have ki: "key_inv s" using inv by (simp add: safe_state_def)
  have next_seg: "safe_state (push [TKeyImport p e k b] s')"
    if "key_inv s'" "jhas (pids s') p" "cont s' = []" "opQueue s' = opQueue s" for s'
    using that ek inv by (simp add: safe_state_def cont_inv_def key_ready_def)
  show ?thesis
  proof (cases "epoch_of s p e")
    case (Some x)
    then show ?thesis using ki ts by (simp add: key_digest_def safe_last [OF inv])
  next
    case None
    have "key_inv ?s1" if "\<not> jhas (pids s) p" "jsize (pids s) < MAX_PIDS"
      by (rule key_inv_new_pid [OF ki that]) simp_all
    with None show ?thesis
      using next_seg [of ?s0] next_seg [of ?s1] ki ts
      by (auto simp: key_digest_def jhas_def safe_last [OF inv] split: option.split)
  qed
qed


lemma key_import_safe:
  assumes inv: "safe_state s" and c: "cont s = TKeyImport p e k b # ts"
  shows "safe_state (key_import p e k b (s\<lparr>cont := ts\<rparr>))"
proof -
  let ?s0 = "s\<lparr>cont := ts\<rparr>"
  let ?us = "map (TRetire p) (jkeys (filter (\<lambda>(old, entry). e_kid entry = k) (live_epochs s p))) @ [TKeyEvict p]"
  let ?s' = "push (?us @ [TKeyInstall p e k b]) ?s0"
  have ts: "ts = []" and ek: "0 < e" "k < KEYRING" "jhas (pids s) p"
    using inv c by (auto simp: safe_state_def cont_inv_def key_ready_def)
  have "TRetire p old \<in> set ?us" if "epoch_of s p old = Some x" "e_kid x = k" for old x
    using jget_in [of "live_epochs s p" old x] that by (force simp: jkeys_def)
  then have "key_ready ?s' ?us (TKeyInstall p e k b)" if "\<not> liveEpoch s p e"
    using that ek by (auto simp: key_ready_def)
  moreover have "list_all neutral ?us" by simp
  ultimately have "cont_ok ?s' [] (?us @ [TKeyInstall p e k b])" if "\<not> liveEpoch s p e"
    using that by (simp add: cont_ok_append_neutral del: append_assoc)
  then have "safe_state ?s'" if "\<not> liveEpoch s p e"
    using that inv ts by (simp add: safe_state_def cont_inv_def)
  moreover have "safe_state (fail er ?s0)" for er using inv by (intro safe_last [OF inv]) (simp_all add: safe_state_def)
  ultimately show ?thesis by (simp add: key_import_def)
qed

lemma key_evict_safe:
  assumes inv: "safe_state s" and c: "cont s = TKeyEvict p # ts"
  shows "safe_state (key_evict p (s\<lparr>cont := ts\<rparr>))"
proof (cases "jsize (live_epochs s p) \<ge> MAX_LIVE_EPOCHS")
  case True
  let ?us = "[TRetire p (Min (set (jkeys (live_epochs s p)))), TKeyEvict p]"
  have "cont_ok (push ?us (s\<lparr>cont := ts\<rparr>)) [] (?us @ ts)"
    using inv c by (intro cont_ok_neutral_step [of s "TKeyEvict p"]) (simp_all add: safe_state_def cont_inv_def)
  with True inv show ?thesis by (simp add: key_evict_def safe_state_def cont_inv_def)
next
  case False
  with quiet_keeps [OF _ _ c, of "key_evict p (s\<lparr>cont := ts\<rparr>)"] inv
  show ?thesis by (simp add: key_evict_def safe_state_def)
qed

lemma state_ok_add:
  assumes "state_ok st" "0 < e" "e_kid x < KEYRING" "jget (epochs st) e = None"
    and "\<And>old y. jget (epochs st) old = Some y \<Longrightarrow> e_kid y \<noteq> e_kid x" and "jsize (epochs st) < MAX_LIVE_EPOCHS"
  shows "state_ok (st\<lparr>epochs := jset e x (epochs st)\<rparr>)"
  unfolding state_ok_def
proof (intro conjI allI impI)
  fix e1 e2 x1 x2
  assume "jget (epochs (st\<lparr>epochs := jset e x (epochs st)\<rparr>)) e1 = Some x1"
    "jget (epochs (st\<lparr>epochs := jset e x (epochs st)\<rparr>)) e2 = Some x2" "e_kid x1 = e_kid x2"
  then show "e1 = e2"
    using assms(1) assms(5) [of e1 x1] assms(5) [of e2 x2] by (auto simp: state_ok_def split: if_splits)
qed (use assms in \<open>auto simp: state_ok_def jsize_jset jhas_def split: if_splits\<close>)

lemma key_install_safe:
  assumes inv: "safe_state s" and c: "cont s = TKeyInstall p e k b # ts"
  shows "safe_state (key_install digest p e k b (s\<lparr>cont := ts\<rparr>))" (is "safe_state ?s'")
proof -
  define x where "x = \<lparr>e_kid = k, e_key = Imported b, e_fp = digest b, e_at = clock s, e_seq = entrySeq s\<rparr>"
  have ts: "ts = []" and ki: "key_inv s" and ek: "0 < e" "k < KEYRING" "jhas (pids s) p" "epoch_of s p e = None"
    and free: "epoch_of s p old = Some y \<Longrightarrow> e_kid y \<noteq> k"
    and cap: "jsize (live_epochs s p) < MAX_LIVE_EPOCHS" for old y
    using inv c by (auto simp: safe_state_def cont_inv_def key_ready_def liveEpoch_def)
  obtain st where st: "jget (pids s) p = Some st" using ek(3) by (auto simp: jhas_def)
  have "state_ok (st\<lparr>epochs := jset e x (epochs st)\<rparr>)"
    using ki st ek free cap by (intro state_ok_add) (auto simp: key_inv_def x_def epoch_of_def live_epochs_def)
  moreover have p': "pids ?s' = jupd p (\<lambda>st. st\<lparr>epochs := jset e x (epochs st)\<rparr>) (pids s)"
    "retiredMarks ?s' = retiredMarks s" "windows ?s' = windows s" "opQueue ?s' = opQueue s"
    by (simp_all add: key_install_def Let_def x_def)
  moreover have "liveEpoch ?s' q f" if "liveEpoch s q f" for q f
    using that by (auto simp: liveEpoch_def epoch_of_def p' split: option.splits if_splits)
  ultimately have "key_inv ?s'"
    using ki st unfolding key_inv_def by (auto split: if_splits)
  moreover have "cont ?s' = [TFence, TKeyFinish p e k (bound_refs p (s\<lparr>cont := ts, pids := pids ?s', entrySeq := Suc (entrySeq s)\<rparr>))]"
    by (simp add: key_install_def Let_def x_def ts)
  ultimately show ?thesis using inv p' by (simp add: safe_state_def cont_inv_def key_ready_def)
qed


lemma retire_end_eqs:
  "pids (retire_end p t s) = jupd p (\<lambda>st. st\<lparr>retired := max (retired st) t\<rparr>) (pids s)"
  "retiredMarks (retire_end p t s) = (if t > 0 then retiredMarks (mark p t s) else retiredMarks s)"
  "windows (retire_end p t s) = windows s" "cont (retire_end p t s) = cont s" "opQueue (retire_end p t s) = opQueue s"
  "emitted (retire_end p t s) = emitted s"
  by (simp_all add: retire_end_def Let_def)

lemma retire_end_views:
  "epoch_of (retire_end p t s) = epoch_of s" "liveEpoch (retire_end p t s) = liveEpoch s"
  "jsize (live_epochs (retire_end p t s) q) = jsize (live_epochs s q)"
  by (auto simp: fun_eq_iff liveEpoch_def epoch_of_def live_epochs_def retire_end_eqs split: option.splits)

lemma retire_end_key_inv:
  assumes inv: "key_inv s"
  shows "key_inv (retire_end p t s)"
proof -
  let ?m = "jset p (max t (max (state_retired s p) 0)) (jdel p (retiredMarks s))"
  have wf: "jwf ?m" using inv by (simp add: key_inv_def)
  have get: "jget ?m q = Some m" if "jget (evict_marks ?m) q = Some m" for q m
    by (rule evict_marks_props(3) [OF wf that])
  have ok: "state_ok (st\<lparr>retired := r\<rparr>) = state_ok st" for st r by (simp add: state_ok_def)
  have "m \<le> retired st" if "jget (pids (retire_end p t s)) q = Some st" "jget (retiredMarks (retire_end p t s)) q = Some m" for q st m
  proof (cases "t > 0")
    case True
    then have "jget ?m q = Some m" using that(2) get by (simp add: retire_end_eqs mark_eq)
    then show ?thesis using that(1) inv True
      by (auto simp: retire_end_eqs key_inv_def state_retired_def split: if_splits)
  next
    case False
    then show ?thesis using that inv by (fastforce simp: retire_end_eqs key_inv_def split: if_splits)
  qed
  moreover have "state_ok st" if "jget (pids (retire_end p t s)) q = Some st" for q st
    using that inv by (auto simp: retire_end_eqs key_inv_def ok split: if_splits)
  moreover have "jwf (pids (retire_end p t s))" "jsize (pids (retire_end p t s)) \<le> MAX_PIDS"
    "jwf (retiredMarks (retire_end p t s))" "jsize (retiredMarks (retire_end p t s)) \<le> MAX_RETIRED_MARKERS"
    using inv evict_marks_props(1,2) [OF wf] by (simp_all add: key_inv_def retire_end_eqs mark_eq)
  moreover have "liveEpoch (retire_end p t s) q e" if "jhas (windows (retire_end p t s)) (q, e)" for q e
    using that inv by (simp add: key_inv_def retire_end_views retire_end_eqs)
  ultimately show ?thesis by (metis key_inv_def)
qed

lemma retire_end_safe:
  assumes inv: "safe_state s" and c: "cont s = TRetireEnd p t # ts"
  shows "safe_state (retire_end p t (s\<lparr>cont := ts\<rparr>))"
proof -
  have "cont_ok s [TRetireEnd p t] ts" using inv c by (simp add: safe_state_def cont_inv_def)
  then have "cont_ok (retire_end p t (s\<lparr>cont := ts\<rparr>)) [] ts"
    by (rule cont_ok_mono [where R = "{TRetireEnd p t}"]) (simp_all add: retire_end_views retire_end_eqs)
  then show ?thesis
    using inv retire_end_key_inv [of "s\<lparr>cont := ts\<rparr>" p t] by (simp add: safe_state_def cont_inv_def retire_end_eqs)
qed

lemma forget_end_safe:
  assumes inv: "safe_state s" and c: "cont s = TForgetEnd p # ts"
  shows "safe_state (forget_end p (s\<lparr>cont := ts\<rparr>))" (is "safe_state ?s'")
proof -
  have dead: "\<not> liveEpoch s p e" and ts: "set ts \<subseteq> {TFence, TReply ROk}" and ki: "key_inv s" for e
    using inv c by (auto simp: safe_state_def cont_inv_def key_ready_def)
  have live: "liveEpoch ?s' q f = liveEpoch s q f" for q f
    using dead [of f] by (auto simp: forget_end_def liveEpoch_def epoch_of_def)
  have "key_inv ?s'"
    using ki le_trans [OF jsize_jdel_le] unfolding key_inv_def live
    by (auto simp: forget_end_def split: if_splits)
  moreover have "list_all neutral ts" using ts by (auto simp: list_all_iff)
  ultimately show ?thesis
    using inv cont_ok_append_neutral [of ts ?s' "[]" "[]"] by (simp add: safe_state_def cont_inv_def forget_end_def)
qed

section \<open>Starting an operation\<close>

lemma start_activate_safe:
  assumes inv: "safe_state s" and idle: "cont s = []"
  shows "safe_state (start_activate p e s)"
proof (cases "pid_state_of s p")
  case None
  then show ?thesis using inv by (intro safe_last [OF inv]) (auto simp: start_activate_def safe_state_def)
next
  case (Some st)
  have fl: "safe_state (fail er s)" for er
    using inv by (intro safe_last [OF inv]) (simp_all add: safe_state_def)
  obtain pid where pid: "p = JStr pid" "jget (pids s) pid = Some st"
    using Some by (auto simp: pid_state_of_def split: jsv.splits)
  show ?thesis
  proof (cases "\<exists>n x. e = JNum n \<and> jget (epochs st) n = Some x \<and> \<not> (active st \<noteq> 0 \<and> n < active st)")
    case False
    then show ?thesis using fl Some by (auto simp: start_activate_def split: jsv.split option.split)
  next
    case True
    then obtain n x where n: "e = JNum n" "jget (epochs st) n = Some x" "\<not> (active st \<noteq> 0 \<and> n < active st)" by auto
    let ?s' = "start_activate p e s"
    have eqs: "pids ?s' = jupd pid (\<lambda>st. st\<lparr>active := n\<rparr>) (pids s)" "retiredMarks ?s' = retiredMarks s"
      "windows ?s' = windows s" "opQueue ?s' = opQueue s" "cont ?s' = [TFence, TReply ROk]"
      using n Some pid by (auto simp: start_activate_def Let_def idle)
    have live: "liveEpoch ?s' = liveEpoch s"
      by (auto simp: fun_eq_iff liveEpoch_def epoch_of_def eqs split: option.splits)
    have "key_inv ?s'"
      using inv n pid unfolding key_inv_def live eqs
      by (auto simp: safe_state_def key_inv_def state_ok_def jhas_def split: if_splits)
    then show ?thesis using inv by (simp add: safe_state_def cont_inv_def eqs key_ready_def)
  qed
qed

lemma start_key_safe:
  assumes inv: "safe_state s" and idle: "cont s = []"
  shows "safe_state (start_key p e k b s)"
proof -
  have "nat (the_num k) < KEYRING" if "validKid k"
    using that by (cases k) auto
  moreover have "0 < the_num e" if "validEpoch e"
    using that by (cases e) auto
  ultimately show ?thesis
    using inv idle by (simp add: start_key_def safe_state_def cont_inv_def key_ready_def)
qed

lemma start_forget_safe:
  assumes inv: "safe_state s" and idle: "cont s = []"
  shows "safe_state (start_forget p s)"
proof -
  let ?us = "map (TRetire (the_str p)) (jkeys (live_epochs s (the_str p)))"
  have "cont_ok s' [] (?us @ [TForgetEnd (the_str p), TFence, TReply ROk])" if "liveEpoch s' = liveEpoch s" for s'
    using that by (subst cont_ok_append_neutral) (auto simp: key_ready_def jkeys_live)
  then show ?thesis
    using inv idle by (simp add: start_forget_def Let_def safe_state_def cont_inv_def)
qed


lemma take_slot_calm: "take_slot oper kd s = Some (slot, s1) \<Longrightarrow> calm s s1"
  by (auto simp: take_slot_def Let_def calm_def split: option.splits if_splits)

lemma attach_frame:
  assumes "attach i oper kd tr hw s = Inr s'"
  obtains qs where "pids s' = pids s" "retiredMarks s' = retiredMarks s" "windows s' = windows s"
    "emitted s' = emitted s" "cont s' = cont s" "opQueue s' = opQueue s @ qs" "list_all is_start qs"
proof -
  obtain oper' kd' where ok: "operation_of oper = Some oper'" "kind_of kd = Some kd'"
    using assms by (auto simp: attach_def split: option.splits)
  obtain slot s1 where t: "take_slot oper' kd' s = Some (slot, s1)"
    using assms ok by (auto simp: attach_def Let_def split: option.splits if_splits)
  from take_slot_calm [OF t] show ?thesis
    using assms ok t that by (auto simp: attach_def Let_def calm_def split: option.splits if_splits)
qed

lemma attach_safe:
  assumes inv: "safe_state s" and a: "attach i oper kd tr hw s = Inr s'"
  shows "safe_state s'"
proof -
  obtain qs where eqs: "pids s' = pids s" "retiredMarks s' = retiredMarks s" "windows s' = windows s"
    "cont s' = cont s" "opQueue s' = opQueue s @ qs" "list_all is_start qs"
    by (rule attach_frame [OF a])
  have "cont_ok s' [] (cont s)"
    by (rule cont_ok_mono [where s = s and pre = "[]" and R = "{}"])
      (use inv eqs views_cong [of s' s] in \<open>auto simp: safe_state_def cont_inv_def\<close>)
  then show ?thesis using inv eqs by (simp add: safe_state_def cont_inv_def key_inv_cong [of s' s])
qed

lemma safe_calm:
  assumes "safe_state s" "calm s s'"
  shows "safe_state s'"
proof -
  have "cont_ok s' [] (cont s)"
    by (rule cont_ok_mono [where s = s and pre = "[]" and R = "{}"])
      (use assms views_cong [of s' s] in \<open>auto simp: safe_state_def cont_inv_def calm_def\<close>)
  then show ?thesis using assms by (simp add: safe_state_def cont_inv_def calm_def key_inv_cong [of s' s])
qed

lemma start_attach_safe: "safe_state s \<Longrightarrow> safe_state (start_attach i oper kd hw s)"
  by (cases "attach i oper kd False hw s")
    (auto simp: start_attach_def intro: safe_calm attach_safe)

lemma onrtctransform_safe: "safe_state s \<Longrightarrow> safe_state (onrtctransform i oper kd hw s)"
  by (cases "attach i oper kd True hw s")
    (auto simp: onrtctransform_def intro: safe_calm attach_safe)

lemma start_op_safe:
  assumes inv: "safe_state s" and idle: "cont s = []" "opQueue s = t # ts"
  shows "safe_state (start_op o1 (s\<lparr>opQueue := ts\<rparr>))"
proof -
  have q: "safe_state s'" if "quiet (s\<lparr>opQueue := ts\<rparr>) s'" for s'
    using quiet_keeps_idle [OF _ _ idle that] inv by (simp add: safe_state_def)
  have "safe_state (s\<lparr>opQueue := ts\<rparr>)" by (rule q) simp
  moreover have "cont (s\<lparr>opQueue := ts\<rparr>) = []" by (simp add: idle)
  ultimately show ?thesis
    using q quiet_tasks start_activate_safe start_key_safe start_forget_safe start_attach_safe
    by (cases o1) auto
qed

lemma run_task_safe:
  assumes inv: "safe_state s" and c: "cont s = t # ts"
  shows "safe_state (run_task digest t (s\<lparr>cont := ts\<rparr>))"
proof -
  have q: "safe_state s'" if "quiet (s\<lparr>cont := ts\<rparr>) s'" "\<And>p e. t \<noteq> TRetire p e" "\<And>p. t \<noteq> TKeyEvict p" for s'
    using quiet_keeps [OF _ _ c that(1)] inv that(2,3) by (simp add: safe_state_def)
  show ?thesis
  proof (cases t)
    case (TStart o1)
    then show ?thesis using inv c by (simp add: safe_state_def cont_inv_def)
  qed (use inv c in \<open>auto intro: q quiet_tasks retireEpoch_safe key_digest_safe key_import_safe key_evict_safe
      key_install_safe retire_end_safe forget_end_safe\<close>)
qed

lemma advance_safe:
  assumes inv: "safe_state s"
  shows "safe_state (advance digest s)"
proof (cases "cont s")
  case (Cons t ts)
  then show ?thesis using run_task_safe [OF inv Cons] by (simp add: advance_def)
next
  case Nil
  show ?thesis
  proof (cases "opQueue s")
    case (Cons t ts)
    then obtain o1 where "t = TStart o1"
      using inv by (cases t) (auto simp: safe_state_def cont_inv_def)
    with start_op_safe [OF inv Nil Cons, of o1] Nil Cons show ?thesis by (simp add: advance_def)
  qed (simp add: advance_def Nil inv)
qed

lemma onmessage_safe: "safe_state s \<Longrightarrow> safe_state (onmessage m s)"
proof (cases m)
  case (OAttach i oper kd hw)
  assume "safe_state s" then show ?thesis using OAttach by (simp add: start_attach_safe)
next
  case OUnknown
  assume "safe_state s" then show ?thesis using OUnknown by (auto intro: safe_calm)
qed (auto simp: safe_state_def cont_inv_def intro!: cont_ok_mono [where s = s and pre = "[]" and R = "{}"])


section \<open>Frames leave the keys alone\<close>

lemma admit_encode_calm [simp]: "calm s (admit_encode r fid f sc ho s') = calm s s'"
  by (simp add: admit_encode_def split: option.split)

lemma pre_encode_tail_calm [simp]: "calm s (pre_encode_tail r fid f sc ho s') = calm s s'"
  by (simp add: pre_encode_tail_def Let_def split: option.split)

lemma begin_hold_calm [simp]: "calm s (begin_hold r fid f s') = calm s s'"
  by (simp add: begin_hold_def Let_def split: option.split)

lemma pre_encode_calm [simp]: "calm s (pre_encode r fid f s') = calm s s'"
  by (simp add: pre_encode_def Let_def)

lemma pre_decode_calm [simp]: "calm s (pre_decode r fid f s') = calm s s'"
  by (simp add: pre_decode_def Let_def split: option.split)

lemma pre_transform_calm [simp]: "calm s (pre_transform r fid f s') = calm s s'"
  by (simp add: pre_transform_def Let_def split: operation.split)

lemma resume_held_calm [simp]: "calm s (resume_held s') = calm s s'"
  by (auto simp: resume_held_def Let_def split: list.split)

text \<open>The output transform changes the windows, and only of live epochs, and the log of
  emitted frames.\<close>

lemma first_frame_calm [simp]: "calm s (first_frame r s') = calm s s'"
  by (simp add: first_frame_def Let_def)

lemma dropInitialFrame_calm [simp]: "calm s (dropInitialFrame r inp s') = calm s s'"
  by (simp add: dropInitialFrame_def Let_def)

lemma calm_frame: "calm s s' \<Longrightarrow> pids s' = pids s \<and> retiredMarks s' = retiredMarks s \<and> windows s' = windows s
   \<and> emitted s' = emitted s \<and> opQueue s' = opQueue s \<and> cont s' = cont s"
  by (simp add: calm_def)

lemma post_encode_cases:
  obtains "calm s (post_encode r f inp s)"
  | env epoch where "mediaFrameEnvelope f True = Some env" "esize env = i_n inp + OVERHEAD"
      "trailer_epoch s r (tail env) = Some epoch"
      "post_encode r f inp s = emit \<lparr>em_ref = r, em_operation = Encode, em_pid = ep_pid (heap s r), em_epoch = epoch,
         em_iv = [], em_frame = f\<rparr> (upd_ep r (\<lambda>ep. ep\<lparr>ep_frames := Suc (ep_frames ep)\<rparr>)
            (s\<lparr>stats_encrypted := Suc (stats_encrypted s)\<rparr>))"
proof (cases "mediaFrameEnvelope f True")
  case None
  then show ?thesis using that(1) by (simp add: post_encode_def)
next
  case (Some env)
  then have "calm s (post_encode r f inp s) \<or> esize env = i_n inp + OVERHEAD \<and>
     (\<exists>epoch. trailer_epoch s r (tail env) = Some epoch \<and>
      post_encode r f inp s = emit \<lparr>em_ref = r, em_operation = Encode, em_pid = ep_pid (heap s r), em_epoch = epoch,
         em_iv = [], em_frame = f\<rparr> (upd_ep r (\<lambda>ep. ep\<lparr>ep_frames := Suc (ep_frames ep)\<rparr>)
            (s\<lparr>stats_encrypted := Suc (stats_encrypted s)\<rparr>)))"
    by (simp add: post_encode_def Let_def split: option.split)
  with Some that show ?thesis by blast
qed

lemma post_decode_cases:
  obtains "calm s (post_decode r f inp s)"
  | w' v where "liveEpoch s (i_pid inp) (i_epoch inp)" "v \<noteq> VOk"
      "check (JBytes (i_iv inp)) (case jget (windows s) (i_pid inp, i_epoch inp) of None \<Rightarrow> new_window | Some w \<Rightarrow> w) = (v, w')"
      "calm (s\<lparr>windows := jset (i_pid inp, i_epoch inp) w' (windows s)\<rparr>) (post_decode r f inp s)"
  | w' s1 where "liveEpoch s (i_pid inp) (i_epoch inp)"
      "check (JBytes (i_iv inp)) (case jget (windows s) (i_pid inp, i_epoch inp) of None \<Rightarrow> new_window | Some w \<Rightarrow> w) = (VOk, w')"
      "calm (s\<lparr>windows := jset (i_pid inp, i_epoch inp) w' (windows s)\<rparr>) s1"
      "post_decode r f inp s = emit \<lparr>em_ref = r, em_operation = Decode, em_pid = i_pid inp, em_epoch = i_epoch inp,
         em_iv = i_iv inp, em_frame = f\<rparr> s1"
proof (cases "liveEpoch s (i_pid inp) (i_epoch inp)
    \<and> map_option (\<lambda>env. int (esize env)) (mediaFrameEnvelope f False) = Some (int (i_n inp) - int OVERHEAD)")
  case False
  then show ?thesis using that(1) by (auto simp: post_decode_def)
next
  case True
  obtain v w' where ch: "check (JBytes (i_iv inp))
      (case jget (windows s) (i_pid inp, i_epoch inp) of None \<Rightarrow> new_window | Some w \<Rightarrow> w) = (v, w')"
    by fastforce
  have st: "calm s0 (s0\<lparr>stats_decrypted := n\<rparr>)" for s0 n by (simp add: calm_def)
  show ?thesis
  proof (cases "v = VOk")
    case False
    with True ch have "calm (s\<lparr>windows := jset (i_pid inp, i_epoch inp) w' (windows s)\<rparr>) (post_decode r f inp s)"
      by (simp add: post_decode_def Let_def)
    with True False ch that(2) show ?thesis by blast
  next
    case v: True
    show ?thesis
      by (rule that(3)) (use True v ch st in \<open>auto simp: post_decode_def Let_def\<close>)
  qed
qed

lemma safe_windows:
  assumes "safe_state s" "liveEpoch s p e" "calm (s\<lparr>windows := jset (p, e) w (windows s)\<rparr>) s'"
  shows "safe_state s'"
proof (rule safe_calm [OF _ assms(3)])
  let ?s = "s\<lparr>windows := jset (p, e) w (windows s)\<rparr>"
  have "cont_ok ?s [] (cont s)"
    by (rule cont_ok_mono [where s = s and pre = "[]" and R = "{}"])
      (use assms in \<open>auto simp: safe_state_def cont_inv_def\<close>)
  then show "safe_state ?s"
    using assms(1,2) by (auto simp: safe_state_def cont_inv_def key_inv_def)
qed

lemma safe_emit: "safe_state s \<Longrightarrow> safe_state (emit m s)"
  by (auto simp: safe_state_def cont_inv_def key_inv_cong [of "emit m s" s]
      intro: cont_ok_mono [where s = s and pre = "[]" and R = "{}"])

lemma post_encode_safe: "safe_state s \<Longrightarrow> safe_state (post_encode r f inp s)"
  by (rule post_encode_cases [of s r f inp]) (auto intro!: safe_emit intro: safe_calm)

lemma post_decode_safe: "safe_state s \<Longrightarrow> safe_state (post_decode r f inp s)"
  by (rule post_decode_cases [of s r f inp]) (auto intro: safe_calm safe_emit safe_windows)

lemma post_transform_safe: "safe_state s \<Longrightarrow> safe_state (post_transform r fid f s)"
  by (auto simp: post_transform_def Let_def intro!: post_encode_safe post_decode_safe
      intro: safe_calm split: option.split operation.split)

lemma worker_step_safe: "safe_state s \<Longrightarrow> safe_state (worker_step digest e s)"
  by (cases e) (auto simp: onmessage_safe onrtctransform_safe advance_safe post_transform_safe
      intro: safe_calm split: option.split)

interpretation media_worker: step_machine "worker_step digest" for digest .

lemma worker_run_eq: "worker_run digest es s = media_worker.run digest es s"
  by (simp add: worker_run_def media_worker.run_def)

lemma new_worker_safe: "safe_state new_worker"
  by (simp add: safe_state_def cont_inv_def new_worker_key_inv) (simp add: new_worker_def)

lemma worker_run_safe: "safe_state (worker_run digest es new_worker)"
  unfolding worker_run_eq by (rule media_worker.run_invariant) (simp_all add: worker_step_safe new_worker_safe)

end
