(* ===== verification/Media_Worker_Guarantees.thy ===== *)
theory Media_Worker_Guarantees
  imports Media_Worker_Safety
begin

text \<open>
  What the media worker guarantees along a run. Every step of the worker has one of nine
  effects on the key maps and the log of emitted frames (\<open>effect\<close>, an abstract key ring);
  the guarantees are proved over the effects: bounded key state, one epoch per key slot,
  a retired epoch does not come back, no frame is delivered twice, and nothing leaves the
  output transform unencrypted.
\<close>

section \<open>The effects of a step\<close>

fun installs :: "string \<Rightarrow> int \<Rightarrow> task \<Rightarrow> bool" where
  "installs p e (TKeyInstall p' e' _ _) = (p' = p \<and> e' = e)"
| "installs p e _ = False"

definition pending_install :: "worker \<Rightarrow> string \<Rightarrow> int \<Rightarrow> bool" where
  "pending_install s p e \<longleftrightarrow> list_ex (installs p e) (cont s)"

inductive effect :: "worker \<Rightarrow> worker \<Rightarrow> bool" for s where
  Same: "pids s' = pids s \<Longrightarrow> retiredMarks s' = retiredMarks s \<Longrightarrow> windows s' = windows s \<Longrightarrow>
    emitted s' = emitted s \<Longrightarrow> effect s s'"
| Encoded: "pids s' = pids s \<Longrightarrow> retiredMarks s' = retiredMarks s \<Longrightarrow> windows s' = windows s \<Longrightarrow>
    emitted s' = emitted s @ [m] \<Longrightarrow> em_operation m = Encode \<Longrightarrow> effect s s'"
| Checked: "pids s' = pids s \<Longrightarrow> retiredMarks s' = retiredMarks s \<Longrightarrow> liveEpoch s p e \<Longrightarrow>
    jget (inputs s) k = Some inp \<Longrightarrow> i_pid inp = p \<Longrightarrow> i_epoch inp = e \<Longrightarrow> i_iv inp = iv \<Longrightarrow>
    check (JBytes iv) (case jget (windows s) (p, e) of None \<Rightarrow> new_window | Some w \<Rightarrow> w) = (v, w') \<Longrightarrow>
    windows s' = jset (p, e) w' (windows s) \<Longrightarrow>
    emitted s' = emitted s @ (if v = VOk then [m] else []) \<Longrightarrow>
    em_operation m = Decode \<Longrightarrow> em_pid m = p \<Longrightarrow> em_epoch m = e \<Longrightarrow> em_iv m = iv \<Longrightarrow> effect s s'"
| Retired: "liveEpoch s p e \<Longrightarrow> pids s' = jupd p (drop_epoch e) (pids s) \<Longrightarrow>
    retiredMarks s' = retiredMarks (retire_maps p e s) \<Longrightarrow> windows s' = jdel (p, e) (windows s) \<Longrightarrow>
    emitted s' = emitted s \<Longrightarrow> effect s s'"
| Opened: "\<not> jhas (pids s) p \<Longrightarrow> pids s' = jset p \<lparr>epochs = [], active = 0, retired = retiredThrough s p\<rparr> (pids s) \<Longrightarrow>
    retiredMarks s' = retiredMarks s \<Longrightarrow> windows s' = windows s \<Longrightarrow> emitted s' = emitted s \<Longrightarrow> effect s s'"
| Installed: "pending_install s p e \<Longrightarrow> \<not> liveEpoch s p e \<Longrightarrow>
    pids s' = jupd p (\<lambda>st. st\<lparr>epochs := jset e x (epochs st)\<rparr>) (pids s) \<Longrightarrow>
    retiredMarks s' = retiredMarks s \<Longrightarrow> windows s' = windows s \<Longrightarrow> emitted s' = emitted s \<Longrightarrow> effect s s'"
| Raised: "cont s = TRetireEnd p t # ts \<Longrightarrow> pids s' = pids (retire_end p t s) \<Longrightarrow>
    retiredMarks s' = retiredMarks (retire_end p t s) \<Longrightarrow> windows s' = windows s \<Longrightarrow> emitted s' = emitted s \<Longrightarrow> effect s s'"
| Forgotten: "(\<And>e. \<not> liveEpoch s p e) \<Longrightarrow> pids s' = jdel p (pids s) \<Longrightarrow>
    retiredMarks s' = retiredMarks s \<Longrightarrow> windows s' = windows s \<Longrightarrow> emitted s' = emitted s \<Longrightarrow> effect s s'"
| Activated: "liveEpoch s p e \<Longrightarrow> pids s' = jupd p (\<lambda>st. st\<lparr>active := e\<rparr>) (pids s) \<Longrightarrow>
    retiredMarks s' = retiredMarks s \<Longrightarrow> windows s' = windows s \<Longrightarrow> emitted s' = emitted s \<Longrightarrow> effect s s'"

lemma calm_effect: "calm s s' \<Longrightarrow> effect s s'"
  by (auto simp: calm_def intro: Same)

lemma quiet_effect:
  "quiet (s\<lparr>cont := ts\<rparr>) s' \<Longrightarrow> effect s s'" "quiet (s\<lparr>opQueue := ts\<rparr>) s' \<Longrightarrow> effect s s'"
  by (auto simp: quiet_def intro: Same)

lemma retireEpoch_effect: "effect s (retireEpoch p e (s\<lparr>cont := ts\<rparr>))"
proof (cases "epoch_of s p e")
  case (Some x)
  have "retiredMarks (retire_maps p e (s\<lparr>cont := ts\<rparr>)) = retiredMarks (retire_maps p e s)"
    by (simp add: retire_maps_def Let_def mark_eq state_retired_def)
  with Some show ?thesis
    by (intro Retired [of s p e]) (simp_all add: liveEpoch_def retireEpoch_def retire_maps_eqs)
qed (auto simp: retireEpoch_def intro: Same)

lemma key_digest_effect: "effect s (key_digest digest p e k b (s\<lparr>cont := ts\<rparr>))"
proof (cases "epoch_of s p e = None \<and> \<not> jhas (pids s) p \<and> jsize (pids s) < MAX_PIDS")
  case True
  then show ?thesis
    by (intro Opened [of s p]) (auto simp: key_digest_def jhas_def)
next
  case False
  then show ?thesis
    by (intro Same) (auto simp: key_digest_def jhas_def split: option.split)
qed

lemma key_install_effect:
  assumes "safe_state s" "cont s = TKeyInstall p e k b # ts"
  shows "effect s (key_install digest p e k b (s\<lparr>cont := ts\<rparr>))"
  using assms
  by (intro Installed [of s p e _ "\<lparr>e_kid = k, e_key = Imported b, e_fp = digest b, e_at = clock s, e_seq = entrySeq s\<rparr>"])
    (auto simp: pending_install_def key_install_def Let_def safe_state_def cont_inv_def key_ready_def)

lemma retire_end_effect: "cont s = TRetireEnd p t # ts \<Longrightarrow> effect s (retire_end p t (s\<lparr>cont := ts\<rparr>))"
  by (rule Raised) (auto simp: retire_end_eqs mark_eq state_retired_def)

lemma forget_end_effect:
  "safe_state s \<Longrightarrow> cont s = TForgetEnd p # ts \<Longrightarrow> effect s (forget_end p (s\<lparr>cont := ts\<rparr>))"
  by (rule Forgotten [of s p]) (simp_all add: forget_end_def safe_state_def cont_inv_def key_ready_def)

lemma start_activate_effect: "effect s (start_activate p e (s\<lparr>opQueue := ts\<rparr>))"
proof (cases "\<exists>st n x. pid_state_of s p = Some st \<and> e = JNum n \<and> jget (epochs st) n = Some x \<and> \<not> (active st \<noteq> 0 \<and> n < active st)")
  case True
  then obtain st n x pid where n: "p = JStr pid" "jget (pids s) pid = Some st" "e = JNum n"
    "jget (epochs st) n = Some x" "\<not> (active st \<noteq> 0 \<and> n < active st)"
    by (auto simp: pid_state_of_def split: jsv.splits)
  show ?thesis
    by (rule Activated [of s pid n])
      (use n in \<open>auto simp: start_activate_def Let_def pid_state_of_def liveEpoch_def epoch_of_def\<close>)
next
  case False
  then show ?thesis
    by (intro Same) (auto simp: start_activate_def pid_state_of_def split: jsv.split option.split)
qed

lemma attach_effect: "attach i oper kd tr hw (s\<lparr>opQueue := ts\<rparr>) = Inr s' \<Longrightarrow> effect s s'"
  "attach i oper kd tr hw s = Inr s' \<Longrightarrow> effect s s'"
  by (erule attach_frame, rule Same, simp_all)+

lemma start_op_effect: "effect s (start_op o1 (s\<lparr>opQueue := ts\<rparr>))"
proof (cases o1)
  case (OAttach i oper kd hw)
  show ?thesis
  proof (cases "attach i oper kd False hw (s\<lparr>opQueue := ts\<rparr>)")
    case (Inr s')
    then show ?thesis
      using attach_effect(1) [OF Inr] OAttach by (auto simp: start_attach_def elim!: effect.cases intro: effect.intros)
  qed (auto simp: OAttach start_attach_def intro: Same)
qed (auto simp: start_key_def start_forget_def Let_def intro: quiet_effect quiet_tasks start_activate_effect Same)

lemma advance_effect:
  assumes inv: "safe_state s"
  shows "effect s (advance digest s)"
proof (cases "cont s")
  case (Cons t ts)
  have "effect s (run_task digest t (s\<lparr>cont := ts\<rparr>))"
  proof (cases t)
    case (TStart o1)
    then show ?thesis using inv Cons by (simp add: safe_state_def cont_inv_def)
  qed (use inv Cons in \<open>auto simp: key_import_def key_evict_def intro: quiet_effect(1) quiet_tasks retireEpoch_effect
      key_digest_effect key_install_effect retire_end_effect forget_end_effect Same\<close>)
  then show ?thesis by (simp add: advance_def Cons)
next
  case Nil
  show ?thesis
  proof (cases "opQueue s")
    case (Cons t ts)
    then obtain o1 where "t = TStart o1" using inv by (cases t) (auto simp: safe_state_def cont_inv_def)
    with start_op_effect [of s o1 ts] Nil Cons show ?thesis by (simp add: advance_def)
  qed (simp add: advance_def Nil Same)
qed


lemma post_transform_effect: "effect s (post_transform r fid f s)"
proof -
  let ?s1 = "s\<lparr>inputs := jdel (r, fid) (inputs s)\<rparr>"
  have enc: "effect s (post_encode r f inp ?s1)" for inp
    by (rule post_encode_cases [of ?s1 r f inp]) (auto simp: calm_def intro: Same Encoded)
  have dec: "effect s (post_decode r f inp ?s1)" if inp: "jget (inputs s) (r, fid) = Some inp" for inp
  proof (rule post_decode_cases [of ?s1 r f inp])
    fix w' v
    assume a: "liveEpoch ?s1 (i_pid inp) (i_epoch inp)" "v \<noteq> VOk"
      "check (JBytes (i_iv inp)) (case jget (windows ?s1) (i_pid inp, i_epoch inp) of None \<Rightarrow> new_window | Some w \<Rightarrow> w) = (v, w')"
      "calm (?s1\<lparr>windows := jset (i_pid inp, i_epoch inp) w' (windows ?s1)\<rparr>) (post_decode r f inp ?s1)"
    show ?thesis
      by (rule Checked [where k = "(r, fid)" and inp = inp and p = "i_pid inp" and e = "i_epoch inp" and iv = "i_iv inp" and v = v and w' = w' and m =
            "\<lparr>em_ref = r, em_operation = Decode, em_pid = i_pid inp, em_epoch = i_epoch inp, em_iv = i_iv inp, em_frame = f\<rparr>"])
        (use a in \<open>simp_all add: calm_def inp\<close>)
  next
    fix w' s1
    assume a: "liveEpoch ?s1 (i_pid inp) (i_epoch inp)"
      "check (JBytes (i_iv inp)) (case jget (windows ?s1) (i_pid inp, i_epoch inp) of None \<Rightarrow> new_window | Some w \<Rightarrow> w) = (VOk, w')"
      "calm (?s1\<lparr>windows := jset (i_pid inp, i_epoch inp) w' (windows ?s1)\<rparr>) s1"
      "post_decode r f inp ?s1 = emit \<lparr>em_ref = r, em_operation = Decode, em_pid = i_pid inp, em_epoch = i_epoch inp,
         em_iv = i_iv inp, em_frame = f\<rparr> s1"
    show ?thesis
      by (rule Checked [where k = "(r, fid)" and inp = inp and p = "i_pid inp" and e = "i_epoch inp" and iv = "i_iv inp" and v = VOk and w' = w' and m =
            "\<lparr>em_ref = r, em_operation = Decode, em_pid = i_pid inp, em_epoch = i_epoch inp, em_iv = i_iv inp, em_frame = f\<rparr>"])
        (use a in \<open>simp_all add: calm_def inp\<close>)
  qed (auto simp: calm_def intro: Same)
  show ?thesis
    by (simp add: post_transform_def Let_def enc dec split: option.split operation.split) (auto intro: calm_effect)
qed

lemma step_effect:
  assumes inv: "safe_state s"
  shows "effect s (worker_step digest ev s)"
proof (cases ev)
  case (EMessage m)
  then show ?thesis
    by (cases m) (auto simp: start_attach_def intro: Same attach_effect(2) elim!: attach_frame split: sum.split)
next
  case (ERtcTransform i oper kd hw)
  then show ?thesis
    by (auto simp: onrtctransform_def intro: Same attach_effect(2) split: sum.split)
qed (auto simp: inv intro: advance_effect post_transform_effect calm_effect Same split: option.split)

text \<open>An installation is pending only for an epoch above the retired ones.\<close>

lemma neutral_pending: "list_all neutral us \<Longrightarrow> \<not> list_ex (installs p e) us"
proof (induction us)
  case (Cons t us)
  then show ?case by (cases t) (auto simp: neutral_def)
qed simp

lemma retires_pending [simp]: "\<not> list_ex (installs p e) (map (TRetire q) xs)"
  by (rule neutral_pending) simp

lemma quiet_pending: "quiet s s' \<Longrightarrow> pending_install s' p e \<Longrightarrow> pending_install s p e"
  by (auto simp: quiet_def pending_install_def neutral_pending)

lemma run_task_pending:
  assumes "pending_install (run_task digest t s) p e" and st: "\<not> is_start t"
  shows "pending_install s p e \<or> retiredThrough s p < e \<and> \<not> liveEpoch s p e"
proof -
  have q: "quiet s (run_task digest t s) \<Longrightarrow> ?thesis" using quiet_pending assms(1) by blast
  show ?thesis
  proof (cases t)
    case (TRetire p' e')
    then show ?thesis using assms(1) by (auto simp: retireEpoch_def pending_install_def retire_maps_eqs split: option.splits)
  next
    case (TKeyDigest p' e' k' b')
    then show ?thesis using assms(1) by (auto simp: key_digest_def pending_install_def split: option.splits if_splits)
  next
    case (TKeyImport p' e' k' b')
    then show ?thesis using assms(1) by (auto simp: key_import_def pending_install_def split: if_splits)
  next
    case (TKeyEvict p')
    then show ?thesis using assms(1) by (auto simp: key_evict_def pending_install_def split: if_splits)
  next
    case (TKeyInstall p' e' k' b')
    then show ?thesis using assms(1) by (auto simp: key_install_def Let_def pending_install_def)
  next
    case (TRetireEnd p' t')
    then show ?thesis using assms(1) by (auto simp: retire_end_eqs pending_install_def)
  next
    case (TForgetEnd p')
    then show ?thesis using assms(1) by (auto simp: forget_end_def pending_install_def)
  qed (use q st quiet_tasks in auto)
qed

lemma start_op_pending:
  assumes "pending_install (start_op o1 s) p e"
  shows "pending_install s p e"
proof -
  have q: "quiet s (start_op o1 s) \<Longrightarrow> ?thesis" using quiet_pending assms by blast
  show ?thesis
  proof (cases o1)
    case (OAttach i oper kd hw)
    then show ?thesis using assms
      by (auto simp: start_attach_def pending_install_def elim!: attach_frame split: sum.splits)
  next
    case (OActivate p' e')
    then show ?thesis using assms
      by (auto simp: start_activate_def Let_def pending_install_def split: option.splits jsv.splits if_splits)
  qed (use q quiet_tasks assms in \<open>auto simp: start_key_def start_forget_def Let_def pending_install_def split: if_splits\<close>)
qed

lemma frames_cont [simp]: "cont (pre_transform r fid f s) = cont s" "cont (resume_held s) = cont s"
  using calm_frame [of s "pre_transform r fid f s"] calm_frame [of s "resume_held s"] by simp_all

lemma step_pending:
  assumes inv: "safe_state s" and pend: "pending_install (worker_step digest ev s) p e"
  shows "pending_install s p e \<or> retiredThrough s p < e \<and> \<not> liveEpoch s p e"
proof (cases ev)
  case (EMessage m)
  then show ?thesis using pend
    by (cases m) (auto simp: start_attach_def pending_install_def elim!: attach_frame split: sum.splits)
next
  case (ERtcTransform i oper kd hw)
  then show ?thesis using pend
    by (auto simp: onrtctransform_def pending_install_def elim!: attach_frame split: sum.splits)
next
  case EAdvance
  show ?thesis
  proof (cases "cont s")
    case (Cons t ts)
    then have "\<not> is_start t" using inv by (simp add: safe_state_def cont_inv_def)
    with run_task_pending [of digest t "s\<lparr>cont := ts\<rparr>" p e] show ?thesis
      using pend EAdvance Cons by (auto simp: advance_def pending_install_def)
  next
    case Nil
    show ?thesis
    proof (cases "opQueue s")
      case (Cons t ts)
      then obtain o1 where "t = TStart o1" using inv by (cases t) (auto simp: safe_state_def cont_inv_def)
      with start_op_pending [of o1 "s\<lparr>opQueue := ts\<rparr>" p e] show ?thesis
        using pend EAdvance Nil Cons by (auto simp: advance_def pending_install_def)
    qed (use pend EAdvance Nil in \<open>simp add: advance_def\<close>)
  qed
next
  case (EPost r fid f)
  have "cont (post_transform r fid f s) = cont s"
    by (auto simp: post_transform_def Let_def calm_def split: option.split operation.split
        intro: post_encode_cases [of "s\<lparr>inputs := jdel (r, fid) (inputs s)\<rparr>" r f]
          post_decode_cases [of "s\<lparr>inputs := jdel (r, fid) (inputs s)\<rparr>" r f])
  with EPost pend show ?thesis by (simp add: pending_install_def split: if_splits)
qed (use pend in \<open>auto simp: pending_install_def split: option.splits if_splits\<close>)


section \<open>A retired epoch does not come back\<close>

text \<open>The memory of retired epochs lives in the state of the publication and, when the
  publication is forgotten, in \<open>retiredMarks\<close>. It survives a step unless the map of marks is
  full (the oldest mark is evicted) or a \<^verbatim>\<open>retire\<close> for a forgotten publication names an epoch
  below the mark.\<close>

definition lowers_mark :: "worker \<Rightarrow> bool" where
  "lowers_mark s \<longleftrightarrow> (case cont s of
     TRetireEnd p t # _ \<Rightarrow> \<not> jhas (pids s) p \<and> 0 < t \<and> t < retiredThrough s p
   | _ \<Rightarrow> False)"

definition marks_kept :: "event \<Rightarrow> worker \<Rightarrow> bool" where
  "marks_kept ev s \<longleftrightarrow> jsize (retiredMarks s) < MAX_RETIRED_MARKERS \<and> \<not> lowers_mark s"

definition marked_through :: "worker \<Rightarrow> string \<Rightarrow> int" where
  "marked_through s p = (case jget (retiredMarks s) p of None \<Rightarrow> 0 | Some m \<Rightarrow> m)"

definition marks_agree :: "worker \<Rightarrow> bool" where
  "marks_agree s \<longleftrightarrow> (\<forall>p st. jget (pids s) p = Some st \<longrightarrow> retired st = max 0 (marked_through s p))"

lemma marks_agree_through: "marks_agree s \<Longrightarrow> retiredThrough s p = max 0 (marked_through s p)"
  by (auto simp: marks_agree_def retiredThrough_def marked_through_def split: option.split)

definition burned :: "string \<Rightarrow> int \<Rightarrow> worker \<Rightarrow> bool" where
  "burned p e s \<longleftrightarrow> \<not> liveEpoch s p e \<and> \<not> pending_install s p e \<and> e \<le> retiredThrough s p"

lemma evict_fit:
  assumes "jsize m < MAX_RETIRED_MARKERS"
  shows "evict_marks (jset p v (jdel p m)) = jset p v (jdel p m)"
proof -
  have "jsize (jset p v (jdel p m)) \<le> MAX_RETIRED_MARKERS"
    using assms jsize_jdel_le [of p m] by (auto simp: jsize_jset)
  then show ?thesis by (simp add: evict_marks_def)
qed

lemma retire_maps_marks:
  assumes "jsize (retiredMarks s) < MAX_RETIRED_MARKERS" "jget (pids s) p = Some st" "0 < e"
  shows "retiredMarks (retire_maps p e s) = jset p (max (retired st) e) (jdel p (retiredMarks s))"
  using assms by (simp add: retire_maps_def Let_def mark_eq evict_fit state_retired_def max.commute max.left_commute)

lemma live_pos:
  assumes "safe_state s" "liveEpoch s p e"
  obtains st where "jget (pids s) p = Some st" "0 < e"
  using assms by (fastforce simp: liveEpoch_def epoch_of_def safe_state_def key_inv_def state_ok_def split: option.splits)

lemma effect_memory:
  assumes inv: "safe_state s" and eff: "effect s s'" and room: "jsize (retiredMarks s) < MAX_RETIRED_MARKERS"
    and low: "\<not> lowers_mark s" and agree: "marks_agree s"
  shows "marks_agree s' \<and> retiredThrough s p \<le> retiredThrough s' p"
  using eff
proof cases
  case (Retired q e)
  obtain st where st: "jget (pids s) q = Some st" "0 < e" by (rule live_pos [OF inv Retired(1)])
  note m = retire_maps_marks [OF room st]
  have "marks_agree s'"
    using agree st unfolding marks_agree_def marked_through_def Retired(2,3) m by (auto split: if_splits)
  moreover have "max 0 (marked_through s p) \<le> max 0 (marked_through s' p)"
    using agree st unfolding marks_agree_def marked_through_def Retired(2,3) m by (auto split: if_splits)
  ultimately show ?thesis using agree by (simp add: marks_agree_through)
next
  case (Opened q)
  have "marks_agree s'"
    using agree marks_agree_through [OF agree, of q] Opened by (auto simp: marks_agree_def marked_through_def split: if_splits)
  with agree show ?thesis by (simp add: marks_agree_through marked_through_def Opened)
next
  case (Installed q e x)
  have "marks_agree s'"
    using agree Installed by (auto simp: marks_agree_def marked_through_def split: if_splits)
  with agree show ?thesis by (simp add: marks_agree_through marked_through_def Installed)
next
  case (Activated q e)
  have "marks_agree s'"
    using agree Activated by (auto simp: marks_agree_def marked_through_def split: if_splits)
  with agree show ?thesis by (simp add: marks_agree_through marked_through_def Activated)
next
  case (Forgotten q)
  have "marks_agree s'"
    using agree Forgotten by (auto simp: marks_agree_def marked_through_def split: if_splits)
  with agree show ?thesis by (simp add: marks_agree_through marked_through_def Forgotten)
next
  case (Raised q t ts)
  have low': "jhas (pids s) q \<or> t \<le> 0 \<or> retiredThrough s q \<le> t"
    using low Raised(1) by (auto simp: lowers_mark_def)
  have m: "retiredMarks s' = (if 0 < t then jset q (max t (max (state_retired s q) 0)) (jdel q (retiredMarks s)) else retiredMarks s)"
    using Raised(3) room by (simp add: retire_end_eqs mark_eq evict_fit)
  have "marks_agree s'"
    using agree unfolding marks_agree_def marked_through_def m Raised(2) retire_end_eqs
    by (auto simp: state_retired_def split: if_splits)
  moreover have "max 0 (marked_through s p) \<le> max 0 (marked_through s' p)"
    using agree low' marks_agree_through [OF agree, of q] unfolding marks_agree_def marked_through_def m
    by (cases "jget (pids s) q") (auto simp: state_retired_def jhas_def split: if_splits)
  ultimately show ?thesis using agree by (simp add: marks_agree_through)
qed (use agree in \<open>auto simp: marks_agree_def marked_through_def retiredThrough_def\<close>)

lemma effect_live:
  assumes "effect s s'" "liveEpoch s' p e"
  shows "liveEpoch s p e \<or> pending_install s p e"
  using assms(1)
proof cases
  case (Retired q f)
  then show ?thesis using assms(2) by (auto simp: liveEpoch_def epoch_of_def split: option.splits if_splits)
next
  case (Opened q)
  then show ?thesis using assms(2) by (auto simp: liveEpoch_def epoch_of_def split: option.splits if_splits)
next
  case (Installed q f x)
  then show ?thesis using assms(2) by (auto simp: liveEpoch_def epoch_of_def split: option.splits if_splits)
next
  case (Raised q t ts)
  then show ?thesis using assms(2) views_cong(2) [of s' "retire_end q t s"] by (simp add: retire_end_views)
next
  case (Forgotten q)
  then show ?thesis using assms(2) by (auto simp: liveEpoch_def epoch_of_def split: option.splits if_splits)
next
  case (Activated q f)
  then show ?thesis using assms(2) by (auto simp: liveEpoch_def epoch_of_def split: option.splits if_splits)
qed (use assms(2) views_cong(2) [of s' s] in auto)


lemma cont_ok_ready: "cont_ok s pre ts \<Longrightarrow> t \<in> set ts \<Longrightarrow> \<exists>pre'. key_ready s pre' t"
  by (induction ts arbitrary: pre) auto

lemma pending_not_live:
  assumes "safe_state s" "pending_install s p e"
  shows "\<not> liveEpoch s p e"
proof -
  obtain t where t: "t \<in> set (cont s)" "installs p e t"
    using assms(2) by (auto simp: pending_install_def list_ex_iff)
  then obtain pre where "key_ready s pre t"
    using cont_ok_ready [OF _ t(1)] assms(1) by (auto simp: safe_state_def cont_inv_def)
  with t(2) show ?thesis by (cases t) (auto simp: key_ready_def)
qed

lemma effect_retires:
  assumes inv: "safe_state s" and eff: "effect s s'" and live: "liveEpoch s p e" and dead: "\<not> liveEpoch s' p e"
  shows "e \<le> retiredThrough s' p"
  using eff
proof cases
  case (Retired q f)
  then have "q = p \<and> f = e" using live dead by (auto simp: liveEpoch_def epoch_of_def split: option.splits if_splits)
  then show ?thesis using Retired live
    by (auto simp: retiredThrough_def liveEpoch_def epoch_of_def split: option.splits)
next
  case (Opened q)
  then show ?thesis using live dead by (auto simp: liveEpoch_def epoch_of_def jhas_def split: option.splits if_splits)
next
  case (Installed q f x)
  then show ?thesis using live dead by (auto simp: liveEpoch_def epoch_of_def split: option.splits if_splits)
next
  case (Raised q t ts)
  then show ?thesis using live dead views_cong(2) [of s' "retire_end q t s"] by (simp add: retire_end_views)
next
  case (Forgotten q)
  then show ?thesis using live dead by (auto simp: liveEpoch_def epoch_of_def split: option.splits if_splits)
next
  case (Activated q f)
  then show ?thesis using live dead by (auto simp: liveEpoch_def epoch_of_def split: option.splits if_splits)
qed (use live dead views_cong(2) [of s' s] in auto)

definition remembering :: "worker \<Rightarrow> bool" where
  "remembering s \<longleftrightarrow> safe_state s \<and> marks_agree s"


lemma step_remembering:
  assumes "marks_kept ev s" "remembering s"
  shows "remembering (worker_step digest ev s)" "retiredThrough s p \<le> retiredThrough (worker_step digest ev s) p"
  using assms effect_memory [OF _ step_effect, of s digest ev p] worker_step_safe [of s digest ev]
  by (auto simp: remembering_def marks_kept_def)

lemma step_burned:
  assumes "marks_kept ev s" "remembering s" "burned p e s"
  shows "burned p e (worker_step digest ev s)"
proof -
  have s: "safe_state s" using assms(2) by (simp add: remembering_def)
  then show ?thesis
    using assms(3) effect_live [OF step_effect [OF s], of digest ev p e] step_pending [OF s, of digest ev p e]
      step_remembering(2) [OF assms(1,2), where digest = digest and p = p]
    by (auto simp: burned_def)
qed

lemma step_alive_or_burned:
  assumes "marks_kept ev s" "remembering s" "liveEpoch s p e \<or> burned p e s"
  shows "liveEpoch (worker_step digest ev s) p e \<or> burned p e (worker_step digest ev s)"
proof (cases "liveEpoch s p e")
  case True
  have s: "safe_state s" using assms(2) by (simp add: remembering_def)
  have "burned p e (worker_step digest ev s)" if dead: "\<not> liveEpoch (worker_step digest ev s) p e"
  proof -
    have "e \<le> retiredThrough (worker_step digest ev s) p"
      by (rule effect_retires [OF s step_effect [OF s] True dead])
    moreover have "\<not> pending_install (worker_step digest ev s) p e"
      using step_pending [OF s, of digest ev p e] pending_not_live [OF s, of p e] True dead
      by auto
    ultimately show ?thesis using dead by (simp add: burned_def)
  qed
  then show ?thesis by blast
qed (use step_burned assms in auto)

lemma guarded_burned:
  assumes "media_worker.guarded digest marks_kept es s" "remembering s" "liveEpoch s p e \<or> burned p e s"
  shows "remembering (worker_run digest es s)"
    "liveEpoch (worker_run digest es s) p e \<or> burned p e (worker_run digest es s)"
    "burned p e s \<Longrightarrow> burned p e (worker_run digest es s)"
proof -
  show "remembering (worker_run digest es s)"
    unfolding worker_run_eq
    by (rule media_worker.guarded_invariant [OF assms(1), where I = remembering]) (use assms(2) step_remembering(1) in auto)
  have "remembering (worker_run digest es s) \<and> (liveEpoch (worker_run digest es s) p e \<or> burned p e (worker_run digest es s))"
    unfolding worker_run_eq
    by (rule media_worker.guarded_invariant [OF assms(1), where I = "\<lambda>s. remembering s \<and> (liveEpoch s p e \<or> burned p e s)"])
      (use assms(2,3) step_remembering(1) step_alive_or_burned in blast)+
  then show "liveEpoch (worker_run digest es s) p e \<or> burned p e (worker_run digest es s)" by blast
  show "burned p e (worker_run digest es s)" if "burned p e s"
  proof -
    have "remembering (worker_run digest es s) \<and> burned p e (worker_run digest es s)"
      unfolding worker_run_eq
      by (rule media_worker.guarded_invariant [OF assms(1), where I = "\<lambda>s. remembering s \<and> burned p e s"])
        (use assms(2) that step_remembering(1) step_burned in blast)+
    then show ?thesis by blast
  qed
qed

lemma new_worker_remembering: "remembering new_worker"
  using new_worker_safe by (simp add: remembering_def marks_agree_def new_worker_def)

lemma worker_run_append: "worker_run digest (es @ fs) s = worker_run digest fs (worker_run digest es s)"
  by (simp add: worker_run_def)


text \<open>The guard of a run as an executable function.\<close>

fun memory_kept :: "(bytes \<Rightarrow> bytes) \<Rightarrow> event list \<Rightarrow> worker \<Rightarrow> bool" where
  "memory_kept digest [] s = True"
| "memory_kept digest (ev # evs) s = (marks_kept ev s \<and> memory_kept digest evs (worker_step digest ev s))"

lemma memory_kept_guarded: "memory_kept digest es s = media_worker.guarded digest marks_kept es s"
  by (induction es arbitrary: s) simp_all

section \<open>No frame is delivered twice\<close>

definition delivered :: "worker \<Rightarrow> (string \<times> int \<times> bytes) list" where
  "delivered s = map (\<lambda>m. (em_pid m, em_epoch m, em_iv m)) (filter (\<lambda>m. em_operation m = Decode) (emitted s))"

definition delivered_triples :: "worker \<Rightarrow> string \<Rightarrow> int \<Rightarrow> (32 word \<times> 32 word \<times> 32 word) set" where
  "delivered_triples s p e = {iv_triple iv | iv. (p, e, iv) \<in> set (delivered s)}"

definition window_of :: "worker \<Rightarrow> string \<Rightarrow> int \<Rightarrow> replay_window" where
  "window_of s p e = (case jget (windows s) (p, e) of None \<Rightarrow> new_window | Some w \<Rightarrow> w)"

definition replay_inv :: "(string \<Rightarrow> int \<Rightarrow> 32 word \<Rightarrow> 32 word) \<Rightarrow> worker \<Rightarrow> bool" where
  "replay_inv base s \<longleftrightarrow> distinct (delivered s)
     \<and> (\<forall>p e iv. (p, e, iv) \<in> set (delivered s) \<longrightarrow> liveEpoch s p e \<or> burned p e s)
     \<and> (\<forall>p e. liveEpoch s p e \<longrightarrow> window_remembers (base p e) (delivered_triples s p e) (window_of s p e))"

text \<open>The IVs at hand lie in the half range above a base per key and source.\<close>

definition inputs_half_range :: "(string \<Rightarrow> int \<Rightarrow> 32 word \<Rightarrow> 32 word) \<Rightarrow> worker \<Rightarrow> bool" where
  "inputs_half_range base s \<longleftrightarrow> list_all (\<lambda>(_, inp). i_epoch inp = 0 \<or>
     off (base (i_pid inp) (i_epoch inp) (get_uint32 (i_iv inp) 0)) (get_uint32 (i_iv inp) 4) < 2 ^ 31) (inputs s)"

lemma window_of_dead:
  assumes "safe_state s" "\<not> liveEpoch s p e"
  shows "window_of s p e = new_window"
  using assms by (auto simp: window_of_def safe_state_def key_inv_def jhas_def split: option.split)

lemma effect_window_other:
  assumes "safe_state s" "effect s s'" "emitted s' = emitted s \<or> (\<exists>m. emitted s' = emitted s @ [m] \<and> em_operation m = Encode)"
    "windows s' = windows s \<or> (\<exists>q f. windows s' = jdel (q, f) (windows s) \<and> \<not> liveEpoch s' q f)"
    "replay_inv base s" "liveEpoch s' p e"
  shows "window_remembers (base p e) (delivered_triples s p e) (window_of s' p e)"
proof -
  have win: "window_of s' p e = window_of s p e" using assms(4,6) by (auto simp: window_of_def)
  show ?thesis
  proof (cases "liveEpoch s p e")
    case True
    then show ?thesis using assms(5) win by (simp add: replay_inv_def)
  next
    case False
    then have "pending_install s p e" using effect_live [OF assms(2,6)] by simp
    then have "delivered_triples s p e = {}"
      using False assms(5) by (auto simp: delivered_triples_def replay_inv_def burned_def)
    moreover have "window_of s p e = new_window" by (rule window_of_dead [OF assms(1) False])
    ultimately show ?thesis using win by (simp add: window_remembers_empty new_window_def)
  qed
qed

lemma effect_windows:
  assumes "effect s s'"
  obtains (Other) "emitted s' = emitted s \<or> (\<exists>m. emitted s' = emitted s @ [m] \<and> em_operation m = Encode)"
     "windows s' = windows s \<or> (\<exists>q f. windows s' = jdel (q, f) (windows s) \<and> \<not> liveEpoch s' q f)"
  | (Check) k inp v w' m where "pids s' = pids s" "jget (inputs s) k = Some inp" "liveEpoch s (i_pid inp) (i_epoch inp)"
     "check (JBytes (i_iv inp)) (window_of s (i_pid inp) (i_epoch inp)) = (v, w')"
     "windows s' = jset (i_pid inp, i_epoch inp) w' (windows s)"
     "emitted s' = emitted s @ (if v = VOk then [m] else [])"
     "em_operation m = Decode" "em_pid m = i_pid inp" "em_epoch m = i_epoch inp" "em_iv m = i_iv inp"
  using assms
proof cases
  case (Retired q f)
  then have "\<not> liveEpoch s' q f" by (auto simp: liveEpoch_def epoch_of_def split: option.splits)
  with Retired that(1) show ?thesis by blast
next
  case (Checked p e k inp iv v w' m)
  then show ?thesis using that(2) [of k inp v w' m] by (simp add: window_of_def)
qed (use that(1) in auto)

lemma jget_list_all: "jget m k = Some v \<Longrightarrow> list_all P m \<Longrightarrow> P (k, v)"
  using jget_in [of m k v] by (auto simp: list_all_iff)

lemma check_step_replay:
  assumes inv: "safe_state s" "replay_inv base s" and half: "inputs_half_range base s"
    and inp: "jget (inputs s) k = Some inp" and live: "liveEpoch s (i_pid inp) (i_epoch inp)"
    and ch: "check (JBytes (i_iv inp)) (window_of s (i_pid inp) (i_epoch inp)) = (v, w')"
  shows "window_remembers (base (i_pid inp) (i_epoch inp))
      (if v = VOk then insert (iv_triple (i_iv inp)) (delivered_triples s (i_pid inp) (i_epoch inp))
       else delivered_triples s (i_pid inp) (i_epoch inp)) w'"
    "v = VOk \<Longrightarrow> (i_pid inp, i_epoch inp, i_iv inp) \<notin> set (delivered s)"
proof -
  obtain st where "0 < i_epoch inp" by (rule live_pos [OF inv(1) live])
  then have h: "half_range (base (i_pid inp) (i_epoch inp)) (JBytes (i_iv inp))"
    using jget_list_all [OF inp half [unfolded inputs_half_range_def]] by (simp add: half_range_def)
  have rem: "window_remembers (base (i_pid inp) (i_epoch inp)) (delivered_triples s (i_pid inp) (i_epoch inp))
      (window_of s (i_pid inp) (i_epoch inp))" using inv(2) live by (simp add: replay_inv_def)
  have acc: "accept (JBytes (i_iv inp)) (window_of s (i_pid inp) (i_epoch inp)) = (v = VOk, w')"
    using ch by (simp add: accept_def)
  note ar = accept_remembers [OF rem h acc]
  show "window_remembers (base (i_pid inp) (i_epoch inp))
      (if v = VOk then insert (iv_triple (i_iv inp)) (delivered_triples s (i_pid inp) (i_epoch inp))
       else delivered_triples s (i_pid inp) (i_epoch inp)) w'" using ar(1) by (auto split: if_splits)
  show "(i_pid inp, i_epoch inp, i_iv inp) \<notin> set (delivered s)" if "v = VOk"
    using ar(2) that by (auto simp: delivered_triples_def)
qed


lemma delivered_append:
  "emitted s' = emitted s @ [m] \<Longrightarrow> em_operation m = Encode \<Longrightarrow> delivered s' = delivered s"
  "emitted s' = emitted s @ [m] \<Longrightarrow> em_operation m = Decode \<Longrightarrow>
     delivered s' = delivered s @ [(em_pid m, em_epoch m, em_iv m)]"
  "emitted s' = emitted s \<Longrightarrow> delivered s' = delivered s"
  by (simp_all add: delivered_def)

lemma step_replay_inv:
  assumes g: "marks_kept ev s" "inputs_half_range base s" and inv: "remembering s" "replay_inv base s"
  shows "replay_inv base (worker_step digest ev s)"
proof -
  let ?s' = "worker_step digest ev s"
  have s: "safe_state s" using inv(1) by (simp add: remembering_def)
  have known: "liveEpoch ?s' p e \<or> burned p e ?s'" if "(p, e, iv) \<in> set (delivered s)" for p e iv
    using inv(2) that step_alive_or_burned [OF g(1) inv(1), of p e] unfolding replay_inv_def by blast
  show ?thesis
  proof (rule effect_windows [OF step_effect [OF s, of digest ev]])
    assume em: "emitted ?s' = emitted s \<or> (\<exists>m. emitted ?s' = emitted s @ [m] \<and> em_operation m = Encode)"
      and win: "windows ?s' = windows s \<or> (\<exists>q f. windows ?s' = jdel (q, f) (windows s) \<and> \<not> liveEpoch ?s' q f)"
    have d: "delivered ?s' = delivered s" using em delivered_append by blast
    then have "delivered_triples ?s' = delivered_triples s" by (simp add: fun_eq_iff delivered_triples_def)
    with d show ?thesis
      using effect_window_other [OF s step_effect [OF s] em win inv(2)] inv(2) known by (auto simp: replay_inv_def)
  next
    fix k inp v w' m
    assume c: "pids ?s' = pids s" "jget (inputs s) k = Some inp" "liveEpoch s (i_pid inp) (i_epoch inp)"
     "check (JBytes (i_iv inp)) (window_of s (i_pid inp) (i_epoch inp)) = (v, w')"
     "windows ?s' = jset (i_pid inp, i_epoch inp) w' (windows s)"
     "emitted ?s' = emitted s @ (if v = VOk then [m] else [])"
     "em_operation m = Decode" "em_pid m = i_pid inp" "em_epoch m = i_epoch inp" "em_iv m = i_iv inp"
    note fresh = check_step_replay [OF s inv(2) g(2) c(2-4)]
    have live: "liveEpoch ?s' = liveEpoch s" by (rule views_cong(2) [OF c(1)])
    have d: "delivered ?s' = delivered s @ (if v = VOk then [(i_pid inp, i_epoch inp, i_iv inp)] else [])"
      using c(6-10) delivered_append(2) [of ?s' s m] delivered_append(3) [of ?s' s] by (cases "v = VOk") auto
    have tr: "delivered_triples ?s' p e = (if v = VOk \<and> p = i_pid inp \<and> e = i_epoch inp
        then insert (iv_triple (i_iv inp)) (delivered_triples s p e) else delivered_triples s p e)" for p e
      by (auto simp: delivered_triples_def d)
    have win: "window_of ?s' p e = (if p = i_pid inp \<and> e = i_epoch inp then w' else window_of s p e)" for p e
      by (auto simp: window_of_def c(5))
    show ?thesis
      unfolding replay_inv_def live
    proof (intro conjI allI impI)
      show "distinct (delivered ?s')" using inv(2) fresh(2) by (auto simp: d replay_inv_def)
      show "liveEpoch s p e \<or> burned p e ?s'" if "(p, e, iv) \<in> set (delivered ?s')" for p e iv
        using that known c(3) by (auto simp: d live split: if_splits)
      show "window_remembers (base p e) (delivered_triples ?s' p e) (window_of ?s' p e)" if "liveEpoch s p e" for p e
        using that fresh(1) inv(2) by (auto simp: tr win replay_inv_def split: if_splits)
    qed
  qed
qed

fun replay_guard :: "(bytes \<Rightarrow> bytes) \<Rightarrow> (string \<Rightarrow> int \<Rightarrow> 32 word \<Rightarrow> 32 word) \<Rightarrow> event list \<Rightarrow> worker \<Rightarrow> bool" where
  "replay_guard digest base [] s = True"
| "replay_guard digest base (ev # evs) s = (marks_kept ev s \<and> inputs_half_range base s
     \<and> replay_guard digest base evs (worker_step digest ev s))"

lemma replay_guard_guarded:
  "replay_guard digest base es s = media_worker.guarded digest (\<lambda>ev s. marks_kept ev s \<and> inputs_half_range base s) es s"
  by (induction es arbitrary: s) simp_all

lemma new_worker_replay_inv: "replay_inv base new_worker"
  by (simp add: replay_inv_def delivered_def new_worker_def liveEpoch_def epoch_of_def)

lemma run_replay_inv:
  assumes "replay_guard digest base es new_worker"
  shows "replay_inv base (worker_run digest es new_worker)"
proof -
  have "remembering (worker_run digest es new_worker) \<and> replay_inv base (worker_run digest es new_worker)"
    unfolding worker_run_eq
    by (rule media_worker.guarded_invariant [OF assms [unfolded replay_guard_guarded],
          where I = "\<lambda>s. remembering s \<and> replay_inv base s"])
      (use new_worker_remembering new_worker_replay_inv step_remembering(1) step_replay_inv in blast)+
  then show ?thesis by blast
qed


section \<open>What leaves the output transform\<close>

text \<open>A frame that the encoder emits is longer than what went into the cipher by exactly the
  overhead of the cipher and carries the IV-length byte and a key slot of a live epoch; a frame
  that the decoder emits is shorter by the overhead, belongs to a live epoch and has an IV that the
  replay window of the epoch accepts. Either was
  admitted under the binding the endpoint still has.\<close>

definition encoded_ok :: "worker \<Rightarrow> nat \<Rightarrow> input \<Rightarrow> emission \<Rightarrow> bool" where
  "encoded_ok s r inp m \<longleftrightarrow>
     (case mediaFrameEnvelope (em_frame m) True of
        Some env \<Rightarrow>
          esize env = i_n inp + 30 \<and> 2 \<le> length (tail env) \<and> tail env ! (length (tail env) - 2) = 12
          \<and> jget (ep_kids (heap s r)) (unat (last (tail env))) = Some (em_epoch m)
      | None \<Rightarrow> False)"

definition decoded_ok :: "worker \<Rightarrow> input \<Rightarrow> emission \<Rightarrow> bool" where
  "decoded_ok s inp m \<longleftrightarrow>
     (case mediaFrameEnvelope (em_frame m) False of
        Some env \<Rightarrow> esize env + 30 = i_n inp \<and> em_epoch m = i_epoch inp \<and> em_iv m = i_iv inp
          \<and> fst (check (JBytes (em_iv m)) (window_of s (em_pid m) (em_epoch m))) = VOk
      | None \<Rightarrow> False)"

definition emission_ok :: "worker \<Rightarrow> nat \<Rightarrow> nat \<Rightarrow> emission \<Rightarrow> bool" where
  "emission_ok s r fid m \<longleftrightarrow>
     (case jget (inputs s) (r, fid) of
        Some inp \<Rightarrow> ep_ready (heap s r) \<and> i_gen inp = ep_gen (heap s r) \<and> i_pid inp = ep_pid (heap s r)
          \<and> em_operation m = ep_operation (heap s r) \<and> em_pid m = ep_pid (heap s r) \<and> liveEpoch s (em_pid m) (em_epoch m)
          \<and> (case em_operation m of Encode \<Rightarrow> encoded_ok s r inp m | Decode \<Rightarrow> decoded_ok s inp m)
      | None \<Rightarrow> False)"

lemma trailer_epochD:
  assumes "trailer_epoch s r bs = Some e"
  shows "2 \<le> length bs" "bs ! (length bs - 2) = 12" "jget (ep_kids (heap s r)) (unat (last bs)) = Some e"
    "liveEpoch s (ep_pid (heap s r)) e"
proof -
  show "2 \<le> length bs" "bs ! (length bs - 2) = 12" "liveEpoch s (ep_pid (heap s r)) e"
    using assms by (auto simp: trailer_epoch_def IV_LENGTH_def split: if_splits option.splits)
  then have "last bs = bs ! (length bs - 1)" by (intro last_conv_nth) auto
  then show "jget (ep_kids (heap s r)) (unat (last bs)) = Some e"
    using assms by (auto simp: trailer_epoch_def split: if_splits option.splits)
qed

lemma post_transform_bound:
  assumes "emitted (post_transform r fid f s) \<noteq> emitted s"
  obtains inp where "jget (inputs s) (r, fid) = Some inp" "i_gen inp = ep_gen (heap s r)" "i_pid inp = ep_pid (heap s r)"
    "ep_ready (heap s r)"
    "post_transform r fid f s = (case ep_operation (heap s r) of
       Encode \<Rightarrow> post_encode r f inp (s\<lparr>inputs := jdel (r, fid) (inputs s)\<rparr>)
     | Decode \<Rightarrow> post_decode r f inp (s\<lparr>inputs := jdel (r, fid) (inputs s)\<rparr>))"
  using assms that by (auto simp: post_transform_def Let_def split: option.splits if_splits)

lemma post_encode_ok:
  assumes "emitted (post_encode r f inp s) \<noteq> emitted s"
  shows "\<exists>m. emitted (post_encode r f inp s) = emitted s @ [m] \<and> em_operation m = Encode \<and> em_frame m = f
    \<and> em_pid m = ep_pid (heap s r) \<and> liveEpoch s (em_pid m) (em_epoch m) \<and> encoded_ok s r inp m"
proof (rule post_encode_cases [of s r f inp])
  fix env epoch
  assume a: "mediaFrameEnvelope f True = Some env" "esize env = i_n inp + OVERHEAD"
    "trailer_epoch s r (tail env) = Some epoch"
    "post_encode r f inp s = emit \<lparr>em_ref = r, em_operation = Encode, em_pid = ep_pid (heap s r), em_epoch = epoch,
       em_iv = [], em_frame = f\<rparr> (upd_ep r (\<lambda>ep. ep\<lparr>ep_frames := Suc (ep_frames ep)\<rparr>)
          (s\<lparr>stats_encrypted := Suc (stats_encrypted s)\<rparr>))"
  show ?thesis
    using trailer_epochD [OF a(3)] a by (simp add: encoded_ok_def OVERHEAD_def IV_LENGTH_def)
qed (use assms in \<open>simp add: calm_def\<close>)

lemma post_decode_ok:
  assumes "emitted (post_decode r f inp s) \<noteq> emitted s"
  shows "\<exists>m. emitted (post_decode r f inp s) = emitted s @ [m] \<and> em_operation m = Decode \<and> em_frame m = f
    \<and> em_pid m = i_pid inp \<and> liveEpoch s (em_pid m) (em_epoch m) \<and> decoded_ok s inp m"
proof -
  have "mediaFrameEnvelope f False \<noteq> None \<and> (\<forall>env. mediaFrameEnvelope f False = Some env \<longrightarrow> esize env + 30 = i_n inp)"
    using assms by (auto simp: post_decode_def OVERHEAD_def IV_LENGTH_def split: if_splits)
  then show ?thesis
    using assms by (cases rule: post_decode_cases [of s r f inp]) (auto simp: calm_def decoded_ok_def window_of_def)
qed

lemma post_transform_ok:
  assumes "emitted (post_transform r fid f s) \<noteq> emitted s"
  shows "\<exists>m. emitted (post_transform r fid f s) = emitted s @ [m] \<and> em_frame m = f \<and> emission_ok s r fid m"
proof -
  let ?s1 = "s\<lparr>inputs := jdel (r, fid) (inputs s)\<rparr>"
  obtain inp where inp: "jget (inputs s) (r, fid) = Some inp" "i_gen inp = ep_gen (heap s r)" "i_pid inp = ep_pid (heap s r)"
    "ep_ready (heap s r)"
    "post_transform r fid f s = (case ep_operation (heap s r) of
       Encode \<Rightarrow> post_encode r f inp ?s1 | Decode \<Rightarrow> post_decode r f inp ?s1)"
    by (rule post_transform_bound [OF assms])
  have enc: "encoded_ok ?s1 r inp m = encoded_ok s r inp m" for m by (simp add: encoded_ok_def split: option.split)
  have dec: "decoded_ok ?s1 inp m = decoded_ok s inp m" for m by (simp add: decoded_ok_def window_of_def split: option.split)
  show ?thesis
  proof (cases "ep_operation (heap s r)")
    case Encode
    then show ?thesis
      using post_encode_ok [of r f inp ?s1] assms inp enc by (auto simp: emission_ok_def)
  next
    case Decode
    then show ?thesis
      using post_decode_ok [of r f inp ?s1] assms inp dec by (auto simp: emission_ok_def)
  qed
qed

text \<open>Nothing but the output transform emits a frame.\<close>

lemma quiet_emitted: "quiet s s' \<Longrightarrow> emitted s' = emitted s"
  by (simp add: quiet_def)

lemma start_op_emitted: "emitted (start_op o1 s) = emitted s"
proof (cases o1)
  case (OAttach i oper kd hw)
  then show ?thesis by (auto simp: start_attach_def elim: attach_frame split: sum.splits)
next
  case (OActivate p e)
  then show ?thesis by (simp add: start_activate_def Let_def split: option.split jsv.split)
qed (use quiet_tasks [THEN quiet_emitted] in \<open>auto simp: start_key_def start_forget_def Let_def\<close>)

lemma run_task_emitted: "emitted (run_task digest t s) = emitted s"
  by (cases t) (auto simp: quiet_tasks [THEN quiet_emitted] start_op_emitted retireEpoch_def retire_maps_eqs key_digest_def
      key_import_def key_evict_def key_install_def retire_end_eqs forget_end_def Let_def split: option.split)

lemma emitted_only_post:
  assumes "emitted (worker_step digest ev s) \<noteq> emitted s"
  obtains r fid f where "ev = EPost r fid f" "r < nextRef s"
proof (cases ev)
  case (EMessage m)
  then show ?thesis using assms
    by (cases m) (auto simp: start_attach_def elim: attach_frame split: sum.splits)
next
  case (ERtcTransform i oper kd hw)
  then show ?thesis using assms by (auto simp: onrtctransform_def elim: attach_frame split: sum.splits)
next
  case EAdvance
  then show ?thesis using assms by (auto simp: advance_def run_task_emitted split: list.splits)
next
  case (EPre r fid f)
  then show ?thesis using assms calm_frame [of s "pre_transform r fid f s"] by (auto split: if_splits)
next
  case EResumeHeld
  then show ?thesis using assms calm_frame [of s "resume_held s"] by auto
qed (use assms that in \<open>auto split: option.splits if_splits\<close>)


section \<open>Concrete runs\<close>

definition opus :: "bytes \<Rightarrow> media_frame" where
  "opus bs = \<lparr>fdata = bs, fmime = None, ftype = ''''\<rparr>"

definition settle :: "nat \<Rightarrow> event list" where
  "settle n = replicate n EAdvance"

definition sample_key :: "int \<Rightarrow> int \<Rightarrow> event" where
  "sample_key epoch kid = EMessage (OKey (JStr ''a'') (JNum epoch) (JNum kid) (JBytes (replicate 32 7)))"

text \<open>An audio receiver bound to a publication with one key, one frame delivered.\<close>

definition sample_receive :: "event list" where
  "sample_receive = [EMessage (OAttach (JStr ''rx:1'') (JStr ''decode'') (JStr ''audio'') False),
     EMessage (OBind (JStr ''rx:1'') (JStr ''a'') JUndef), sample_key 7 1] @ settle 40
     @ [EPre 0 0 (opus ([9] @ replicate 16 0 @ [0, 0, 0, 1, 0, 0, 0, 5, 0, 0, 0, 2] @ [12, 1])), EPost 0 0 (opus [9])]"

definition sample_send :: "event list" where
  "sample_send = [EMessage (OAttach (JStr ''tx:1'') (JStr ''encode'') (JStr ''audio'') False),
     EMessage (OBind (JStr ''tx:1'') (JStr ''a'') JUndef), sample_key 7 1, EMessage (OActivate (JStr ''a'') (JNum 7))] @ settle 40
     @ [EPre 0 0 (opus [9])]"

definition sample_retire :: "event list" where
  "sample_retire = EMessage (ORetire (JStr ''a'') (JNum 10)) # settle 6 @ EMessage (OForget (JStr ''a'')) # settle 4"

section \<open>Theorems\<close>

text \<open>Property C22: on every run of the media worker the key state stays bounded: at most 512
  publications, at most four live epochs each, at most 4096 retirement marks.\<close>

theorem worker_key_state_bounded:
  "jsize (pids (worker_run digest es new_worker)) \<le> 512
   \<and> jsize (retiredMarks (worker_run digest es new_worker)) \<le> 4096
   \<and> (\<forall>p. jsize (live_epochs (worker_run digest es new_worker) p) \<le> 4)"
  using worker_run_safe [of digest es]
  by (auto simp: safe_state_def key_inv_def state_ok_def live_epochs_def MAX_PIDS_def MAX_RETIRED_MARKERS_def
      MAX_LIVE_EPOCHS_def split: option.split)

text \<open>Property C21: on every run a key slot of a publication belongs to at most one live epoch
  (so a received frame's slot byte names one key), slots lie in the key ring, and the epoch a
  sender uses is live.\<close>

theorem worker_one_epoch_per_slot:
  assumes "epoch_of (worker_run digest es new_worker) p e1 = Some x1"
    and "epoch_of (worker_run digest es new_worker) p e2 = Some x2" and "e_kid x1 = e_kid x2"
  shows "e1 = e2 \<and> e_kid x1 < 16 \<and> 0 < e1
    \<and> (activeEpoch (worker_run digest es new_worker) p = 0
       \<or> liveEpoch (worker_run digest es new_worker) p (activeEpoch (worker_run digest es new_worker) p))"
  using worker_run_safe [of digest es] assms
  by (auto simp: safe_state_def key_inv_def state_ok_def epoch_of_def liveEpoch_def activeEpoch_def jhas_def KEYRING_def
      split: option.splits)

theorem worker_one_epoch_per_slot_witness:
  "epoch_of (worker_run id (sample_key 7 1 # settle 10) new_worker) ''a'' 7
     = Some \<lparr>e_kid = 1, e_key = Imported (replicate 32 7), e_fp = replicate 32 7, e_at = 0, e_seq = 0\<rparr>
   \<and> liveEpoch (worker_run id (sample_key 7 1 # settle 10) new_worker) ''a'' 7
   \<and> (1::nat) < 16"
proof -
  let ?s = "worker_run id (sample_key 7 1 # settle 10) new_worker"
  have e: "epoch_of ?s ''a'' 7
     = Some \<lparr>e_kid = 1, e_key = Imported (replicate 32 7), e_fp = replicate 32 7, e_at = 0, e_seq = 0\<rparr>"
    by code_simp
  from worker_one_epoch_per_slot [OF e e refl] e show ?thesis by (simp add: liveEpoch_def)
qed

text \<open>Property C5: once an epoch of a publication was live and is live no more, it never becomes
  live again, as long as the worker's memory of retired epochs is kept (fewer than 4096 marks
  and no retirement that lowers the mark of a forgotten publication).\<close>

theorem retired_epoch_never_returns:
  assumes "memory_kept digest (es @ fs @ gs) new_worker"
    and "liveEpoch (worker_run digest es new_worker) p e"
    and "\<not> liveEpoch (worker_run digest (es @ fs) new_worker) p e"
  shows "\<not> liveEpoch (worker_run digest (es @ fs @ gs) new_worker) p e"
proof -
  have g: "media_worker.guarded digest marks_kept es new_worker"
    "media_worker.guarded digest marks_kept fs (worker_run digest es new_worker)"
    "media_worker.guarded digest marks_kept gs (worker_run digest (es @ fs) new_worker)"
    using assms(1) by (auto simp: memory_kept_guarded media_worker.guarded_append worker_run_eq)
  have r1: "remembering (worker_run digest es new_worker)"
    unfolding worker_run_eq
    by (rule media_worker.guarded_invariant [OF g(1), where I = remembering])
      (use new_worker_remembering step_remembering(1) in auto)
  note b = guarded_burned [OF g(2) r1 disjI1 [OF assms(2)]]
  have b2: "burned p e (worker_run digest (es @ fs) new_worker)"
    using b(2) assms(3) by (simp add: worker_run_append)
  have "remembering (worker_run digest (es @ fs) new_worker)" using b(1) by (simp add: worker_run_append)
  from guarded_burned(3) [OF g(3) this disjI2 [OF b2] b2] show ?thesis
    by (simp add: burned_def worker_run_append)
qed

theorem retired_epoch_never_returns_witness:
  "\<not> liveEpoch (worker_run id ((sample_key 7 1 # settle 8) @ sample_retire @ (sample_key 7 1 # settle 8)) new_worker) ''a'' 7"
proof (rule retired_epoch_never_returns)
  show "memory_kept id ((sample_key 7 1 # settle 8) @ sample_retire @ (sample_key 7 1 # settle 8)) new_worker" by code_simp
  show "liveEpoch (worker_run id (sample_key 7 1 # settle 8) new_worker) ''a'' 7" by code_simp
  show "\<not> liveEpoch (worker_run id ((sample_key 7 1 # settle 8) @ sample_retire) new_worker) ''a'' 7" by code_simp
qed

text \<open>Without that condition the claim fails. \<^verbatim>\<open>mark\<close> drops the old mark before it
  takes the maximum, so a late \<^verbatim>\<open>retire\<close> through epoch 5 of a publication that was retired
  through epoch 10 and forgotten lowers the mark, and the retired epoch 7 is installed again.\<close>

theorem late_retire_revives_epoch:
  "liveEpoch (worker_run digest (sample_key 7 1 # settle 8) new_worker) ''a'' 7
   \<and> retiredThrough (worker_run digest ((sample_key 7 1 # settle 8) @ sample_retire) new_worker) ''a'' = 10
   \<and> liveEpoch (worker_run digest ((sample_key 7 1 # settle 8) @ sample_retire
        @ EMessage (ORetire (JStr ''a'') (JNum 5)) # settle 4 @ sample_key 7 1 # settle 8) new_worker) ''a'' 7"
  by code_simp

text \<open>Property C19: no frame is delivered twice: while the memory of retired epochs is kept (fewer than 4096
  marks and no retirement that lowers the mark of a forgotten publication) and the RTP timestamps of
  a key stay within half their range, the (publication, epoch, IV)
  triples of the frames a receiver hands to the decoder are distinct, whatever frames arrive
  and however they interleave with key changes.\<close>

theorem worker_delivers_once:
  assumes "replay_guard digest base es new_worker"
  shows "distinct (delivered (worker_run digest es new_worker))"
  using run_replay_inv [OF assms] by (simp add: replay_inv_def)

theorem worker_delivers_once_witness:
  "distinct (delivered (worker_run id (sample_receive @ drop 43 sample_receive) new_worker))
   \<and> delivered (worker_run id (sample_receive @ drop 43 sample_receive) new_worker)
       = [(''a'', 7, [0, 0, 0, 1, 0, 0, 0, 5, 0, 0, 0, 2])]"
proof
  show "distinct (delivered (worker_run id (sample_receive @ drop 43 sample_receive) new_worker))"
    by (rule worker_delivers_once [where base = "\<lambda>_ _ _. 0"]) code_simp
  show "delivered (worker_run id (sample_receive @ drop 43 sample_receive) new_worker)
       = [(''a'', 7, [0, 0, 0, 1, 0, 0, 0, 5, 0, 0, 0, 2])]" by code_simp
qed

text \<open>Property C1: in every state, the only event that hands a frame on is the output transform
  of an attached endpoint, and the frame it hands on was admitted under the binding the
  endpoint still has and under a live epoch; a sent frame is longer than the admitted one by
  exactly the 30 bytes of the cipher and ends in the IV-length byte and the slot of that epoch
  (nothing leaves in the clear); a received one is shorter than the admitted one by those 30 bytes, which
  the library strips only from a frame it decrypted, and the replay window of its epoch accepts its IV.\<close>

theorem worker_emits_only_protected:
  assumes "emitted (worker_step digest ev s) \<noteq> emitted s"
  shows "\<exists>r fid m. ev = EPost r fid (em_frame m) \<and> r < nextRef s
    \<and> emitted (worker_step digest ev s) = emitted s @ [m] \<and> emission_ok s r fid m"
proof -
  obtain r fid f where ev: "ev = EPost r fid f" "r < nextRef s" by (rule emitted_only_post [OF assms])
  then have "emitted (post_transform r fid f s) \<noteq> emitted s" using assms by simp
  from post_transform_ok [OF this] ev show ?thesis by auto
qed

theorem worker_emits_only_protected_witness:
  "\<exists>r fid m. EPost 0 0 (opus ([9] @ replicate 28 0 @ [12, 1])) = EPost r fid (em_frame m)
     \<and> r < nextRef (worker_run id sample_send new_worker)
     \<and> emitted (worker_step id (EPost 0 0 (opus ([9] @ replicate 28 0 @ [12, 1]))) (worker_run id sample_send new_worker))
       = emitted (worker_run id sample_send new_worker) @ [m]
     \<and> emission_ok (worker_run id sample_send new_worker) r fid m"
proof (rule worker_emits_only_protected)
  have "length (emitted (worker_step id (EPost 0 0 (opus ([9] @ replicate 28 0 @ [12, 1]))) (worker_run id sample_send new_worker))) = 1
    \<and> length (emitted (worker_run id sample_send new_worker)) = 0"
    by code_simp
  then show "emitted (worker_step id (EPost 0 0 (opus ([9] @ replicate 28 0 @ [12, 1]))) (worker_run id sample_send new_worker))
     \<noteq> emitted (worker_run id sample_send new_worker)" by (metis zero_neq_one)
qed

end
