(* ===== verification/Js_Text.thy ===== *)
theory Js_Text
  imports Noxa_Prelude "HOL-Library.Char_ord" "HOL-Library.List_Lexorder"
begin

text \<open>
  Text of the JavaScript runtime, shared by the components that build or parse it: decimal
  numerals (\<^verbatim>\<open>String(n)\<close>), splitting, base64 (\<^verbatim>\<open>btoa\<close>, \<^verbatim>\<open>atob\<close>) with its round trip, UTF-8
  (\<^verbatim>\<open>TextEncoder\<close>, \<^verbatim>\<open>TextDecoder\<close>) and the lemmas about them. Strings are sequences of the code
  points below 256.
\<close>

section \<open>Text\<close>

text \<open>\<^verbatim>\<open>String(n)\<close> of an integer.\<close>

fun string_of_nat :: "nat \<Rightarrow> string" where
  "string_of_nat n = (if n < 10 then [char_of (48 + n)] else string_of_nat (n div 10) @ [char_of (48 + n mod 10)])"

declare string_of_nat.simps [simp del]

definition string_of_int :: "int \<Rightarrow> string" where
  "string_of_int i = (if i < 0 then CHR ''-'' # string_of_nat (nat (- i)) else string_of_nat (nat i))"

text \<open>\<^verbatim>\<open>text.split(".")\<close>.\<close>

fun split_dots :: "string \<Rightarrow> string list" where
  "split_dots [] = [[]]"
| "split_dots (c # cs) = (if c = CHR ''.'' then [] # split_dots cs
     else case split_dots cs of [] \<Rightarrow> [[c]] | p # ps \<Rightarrow> (c # p) # ps)"

section \<open>Base64\<close>

definition b64_alphabet :: string where
  "b64_alphabet = ''ABCDEFGHIJKLMNOPQRSTUVWXYZabcdefghijklmnopqrstuvwxyz0123456789+/''"

definition b64_char :: "nat \<Rightarrow> char" where
  "b64_char n = b64_alphabet ! n"

definition b64_index :: "char \<Rightarrow> nat" where
  "b64_index c = length (takeWhile (\<lambda>d. d \<noteq> c) b64_alphabet)"

definition byte_of :: "nat \<Rightarrow> 8 word" where
  "byte_of n = word_of_nat n"

fun b64 :: "bytes \<Rightarrow> string" where
  "b64 [] = []"
| "b64 [a] = [b64_char (unat a div 4), b64_char (unat a mod 4 * 16), CHR ''='', CHR ''='']"
| "b64 [a, b] = [b64_char (unat a div 4), b64_char (unat a mod 4 * 16 + unat b div 16),
     b64_char (unat b mod 16 * 4), CHR ''='']"
| "b64 (a # b # c # bs) = [b64_char (unat a div 4), b64_char (unat a mod 4 * 16 + unat b div 16),
     b64_char (unat b mod 16 * 4 + unat c div 64), b64_char (unat c mod 64)] @ b64 bs"

text \<open>\<^verbatim>\<open>atob\<close> on well-formed text: the callers have checked the alphabet and the length.\<close>

fun unb64 :: "string \<Rightarrow> bytes" where
  "unb64 (w # x # y # z # cs) =
     (let p = b64_index w; q = b64_index x; r = b64_index y; s = b64_index z in
      if y = CHR ''='' then [byte_of (p * 4 + q div 16)]
      else if z = CHR ''='' then [byte_of (p * 4 + q div 16), byte_of (q mod 16 * 16 + r div 4)]
      else [byte_of (p * 4 + q div 16), byte_of (q mod 16 * 16 + r div 4), byte_of (r mod 4 * 64 + s)] @ unb64 cs)"
| "unb64 _ = []"

section \<open>Base64 round trip\<close>

lemma index_of_nth: "distinct xs \<Longrightarrow> n < length xs \<Longrightarrow> length (takeWhile (\<lambda>d. d \<noteq> xs ! n) xs) = n"
proof (induction xs arbitrary: n)
  case (Cons x xs)
  then show ?case by (cases n) auto
qed simp

lemma b64_alphabet_props: "distinct b64_alphabet" "length b64_alphabet = 64" "CHR ''='' \<notin> set b64_alphabet"
  by (simp_all add: b64_alphabet_def)

lemma b64_index_char: "n < 64 \<Longrightarrow> b64_index (b64_char n) = n"
  unfolding b64_index_def b64_char_def by (rule index_of_nth) (simp_all add: b64_alphabet_props)

lemma b64_char_in: "n < 64 \<Longrightarrow> b64_char n \<in> set b64_alphabet"
  by (simp add: b64_char_def b64_alphabet_props)

lemma b64_char_pad: "n < 64 \<Longrightarrow> b64_char n \<noteq> CHR ''=''"
  using b64_char_in b64_alphabet_props(3) by metis

lemma byte_of_unat [simp]: "byte_of (unat b) = b"
  by (simp add: byte_of_def)

lemma sextets:
  fixes a b c :: "8 word"
  shows "unat a div 4 < 64" "unat a mod 4 * 16 + unat b div 16 < 64" "unat b mod 16 * 4 + unat c div 64 < 64"
    "unat c mod 64 < 64" "unat a mod 4 * 16 < 64" "unat b mod 16 * 4 < 64"
  using unat_byte_lt [of a] unat_byte_lt [of b] unat_byte_lt [of c] by simp_all

lemma byte_digits [simp]:
  fixes b :: "8 word"
  shows "unat b div 16 div 16 = 0" "unat b div 16 mod 16 = unat b div 16"
    "unat b div 64 div 4 = 0" "unat b div 64 mod 4 = unat b div 64"
  using unat_byte_lt [of b] by (simp_all add: div_mult2_eq [symmetric])

lemma unb64_b64: "unb64 (b64 bs) = bs"
  by (induction bs rule: b64.induct) (simp_all add: Let_def b64_char_pad b64_index_char sextets)

lemma b64_length: "length (b64 bs) = 4 * ((length bs + 2) div 3)"
proof (induction bs rule: b64.induct)
  case (4 a b c bs)
  have "(length bs + 5) div 3 = Suc ((length bs + 2) div 3)" by presburger
  with 4 show ?case by (simp add: add.commute)
qed simp_all

text \<open>The text of a key: for a length of 2 modulo 3 (32 is) there is one padding character.\<close>

lemma b64_shape:
  assumes "length bs mod 3 = 2"
  shows "list_all (\<lambda>c. c \<in> set b64_alphabet) (butlast (b64 bs)) \<and> b64 bs \<noteq> [] \<and> last (b64 bs) = CHR ''=''"
  using assms
proof (induction bs rule: b64.induct)
  case (4 a b c bs)
  then have "length bs mod 3 = 2" by simp
  with 4 show ?case by (simp add: b64_char_in sextets butlast_append)
qed (simp_all add: b64_char_in sextets)

section \<open>Numerals\<close>

lemma digit_inj: "(m::nat) < 10 \<Longrightarrow> n < 10 \<Longrightarrow> (char_of (48 + m) :: char) = char_of (48 + n) \<Longrightarrow> m = n"
proof -
  assume "m < 10" "n < 10" and eq: "(char_of (48 + m) :: char) = char_of (48 + n)"
  then have "of_char (char_of (48 + m) :: char) = (of_char (char_of (48 + n) :: char) :: nat)" by simp
  with \<open>m < 10\<close> \<open>n < 10\<close> show ?thesis by (simp add: of_char_of)
qed

lemma string_of_nat_ne: "string_of_nat n \<noteq> []"
  by (subst string_of_nat.simps) simp

lemma string_of_nat_inj: "string_of_nat m = string_of_nat n \<Longrightarrow> m = n"
proof (induction m arbitrary: n rule: string_of_nat.induct)
  case (1 m)
  show ?case
  proof (cases "m < 10 \<or> n < 10")
    case True
    then show ?thesis using 1(2) string_of_nat_ne [symmetric] string_of_nat_ne digit_inj
      by (subst (asm) (1 2) string_of_nat.simps) (auto split: if_splits)
  next
    case False
    then have "string_of_nat (m div 10) = string_of_nat (n div 10)"
      and "(char_of (48 + m mod 10) :: char) = char_of (48 + n mod 10)"
      using 1(2) by (subst (asm) (1 2) string_of_nat.simps, simp)+
    then have "m div 10 = n div 10" "m mod 10 = n mod 10"
      using 1(1) False digit_inj [of "m mod 10" "n mod 10"] by simp_all
    then show ?thesis by (metis div_mult_mod_eq)
  qed
qed

lemma string_of_nat_digit: "c \<in> set (string_of_nat n) \<Longrightarrow> c \<noteq> CHR ''-''"
proof (induction n rule: string_of_nat.induct)
  case (1 n)
  have d: "(char_of (48 + k) :: char) \<noteq> CHR ''-''" if "k < 10" for k :: nat
  proof
    assume "(char_of (48 + k) :: char) = CHR ''-''"
    then have "(of_char (char_of (48 + k) :: char) :: nat) = of_char (CHR ''-'')" by simp
    with that show False by (simp add: of_char_of)
  qed
  show ?case using 1 d [of n] d [of "n mod 10"]
    by (subst (asm) (2) string_of_nat.simps) (auto split: if_splits)
qed

lemma string_of_int_inj: "string_of_int i = string_of_int j \<Longrightarrow> i = j"
proof -
  assume eq: "string_of_int i = string_of_int j"
  have minus: "CHR ''-'' # t \<noteq> string_of_nat n" for t n
    using string_of_nat_digit [of "CHR ''-''" n] by (metis list.set_intros(1))
  show ?thesis
    using eq minus minus [symmetric] string_of_nat_inj [of "nat i" "nat j"] string_of_nat_inj [of "nat (- i)" "nat (- j)"]
    by (auto simp: string_of_int_def split: if_splits)
qed

section \<open>Strings of values, truth\<close>

fun join :: "string \<Rightarrow> string list \<Rightarrow> string" where
  "join sep [] = []"
| "join sep [t] = t"
| "join sep (t # ts) = t @ sep @ join sep ts"

text \<open>\<^verbatim>\<open>String(v)\<close>, also where a value is used as text (a template, a regular expression test).
  A number that is not an integer has no text of its own in the model.\<close>

fun js_string :: "jsv \<Rightarrow> string" where
  "js_string JUndef = ''undefined''"
| "js_string JNull = ''null''"
| "js_string (JBool b) = (if b then ''true'' else ''false'')"
| "js_string (JNum i) = string_of_int i"
| "js_string JFrac = ''NaN''"
| "js_string (JStr t) = t"
| "js_string (JBytes bs) = join '','' (map (\<lambda>b. string_of_nat (unat b)) bs)"
| "js_string (JArr vs) = join '','' (map (\<lambda>v. if v = JUndef \<or> v = JNull then [] else js_string v) vs)"
| "js_string (JObj fs) = ''[object Object]''"

text \<open>The condition of an \<^verbatim>\<open>if\<close>.\<close>

fun truthy :: "jsv \<Rightarrow> bool" where
  "truthy JUndef = False"
| "truthy JNull = False"
| "truthy (JBool b) = b"
| "truthy (JNum i) = (i \<noteq> 0)"
| "truthy (JStr t) = (t \<noteq> [])"
| "truthy _ = True"

fun str_of :: "jsv \<Rightarrow> string" where
  "str_of (JStr t) = t"
| "str_of _ = []"

fun int_of :: "jsv \<Rightarrow> int" where
  "int_of (JNum i) = i"
| "int_of _ = 0"

fun arr_of :: "jsv \<Rightarrow> jsv list" where
  "arr_of (JArr vs) = vs"
| "arr_of _ = []"

fun is_arr :: "jsv \<Rightarrow> bool" where
  "is_arr (JArr _) = True"
| "is_arr _ = False"

definition safe_positive :: "jsv \<Rightarrow> bool" where  \<comment> \<open>\<^verbatim>\<open>Number.isSafeInteger(n) && n > 0\<close>\<close>
  "safe_positive v \<longleftrightarrow> is_safe_integer v \<and> int_of v > 0"

lemma safe_positive_iff: "safe_positive v \<longleftrightarrow> (\<exists>i. v = JNum i \<and> 0 < i \<and> i \<le> max_safe_integer)"
  by (auto simp: safe_positive_def is_safe_integer_iff)

definition digit_char :: "char \<Rightarrow> bool" where
  "digit_char c \<longleftrightarrow> CHR ''0'' \<le> c \<and> c \<le> CHR ''9''"

definition hex_char :: "char \<Rightarrow> bool" where  \<comment> \<open>\<^verbatim>\<open>[a-f0-9]\<close>\<close>
  "hex_char c \<longleftrightarrow> digit_char c \<or> (CHR ''a'' \<le> c \<and> c \<le> CHR ''f'')"

definition hash_text :: "string \<Rightarrow> bool" where  \<comment> \<open>\<^verbatim>\<open>/^[a-f0-9]{64}$/\<close>\<close>
  "hash_text t \<longleftrightarrow> length t = 64 \<and> list_all hex_char t"

text \<open>\<^verbatim>\<open>/^tls-sha256:[a-f0-9]{64}$/\<close>.\<close>

definition server_text :: "string \<Rightarrow> bool" where
  "server_text t \<longleftrightarrow> take 11 t = ''tls-sha256:'' \<and> hash_text (drop 11 t)"

definition hex_byte :: "8 word \<Rightarrow> string" where  \<comment> \<open>\<^verbatim>\<open>b.toString(16).padStart(2, "0")\<close>\<close>
  "hex_byte b = [''0123456789abcdef'' ! (unat b div 16), ''0123456789abcdef'' ! (unat b mod 16)]"

section \<open>UTF-8\<close>

definition utf8_char :: "char \<Rightarrow> bytes" where
  "utf8_char c = (let n = of_char c :: nat in if n < 128 then [byte_of n] else [byte_of (192 + n div 64), byte_of (128 + n mod 64)])"

definition utf8 :: "string \<Rightarrow> bytes" where
  "utf8 t = concat (map utf8_char t)"

text \<open>\<^verbatim>\<open>TextDecoder\<close> with \<^verbatim>\<open>fatal\<close>: malformed input, and code points above 255, give None.\<close>

fun utf8_decode :: "bytes \<Rightarrow> string option" where
  "utf8_decode [] = Some []"
| "utf8_decode (b # bs) =
     (if unat b < 128 then map_option ((#) (char_of (unat b))) (utf8_decode bs)
      else case bs of
          c # cs \<Rightarrow> if 194 \<le> unat b \<and> unat b \<le> 195 \<and> 128 \<le> unat c \<and> unat c < 192
                    then map_option ((#) (char_of ((unat b - 192) * 64 + (unat c - 128)))) (utf8_decode cs) else None
        | [] \<Rightarrow> None)"

text \<open>\<^verbatim>\<open>TextDecoder\<close> drops a byte order mark first.\<close>

definition byte_order_mark :: bytes where "byte_order_mark = [0xEF, 0xBB, 0xBF]"

definition text_decode :: "bytes \<Rightarrow> string option" where
  "text_decode b = utf8_decode (if take 3 b = byte_order_mark then drop 3 b else b)"

section \<open>\<^verbatim>\<open>atob\<close>\<close>

definition js_space :: "char \<Rightarrow> bool" where
  "js_space c \<longleftrightarrow> c \<in> {CHR 0x20, CHR 0x09, CHR 0x0A, CHR 0x0C, CHR 0x0D}"

definition regex_space :: "char \<Rightarrow> bool" where  \<comment> \<open>\<^verbatim>\<open>\s\<close>\<close>
  "regex_space c \<longleftrightarrow> js_space c \<or> c = CHR 0x0B \<or> c = CHR 0xA0"

definition trim :: "string \<Rightarrow> string" where
  "trim t = rev (dropWhile regex_space (rev (dropWhile regex_space t)))"

definition text_includes :: "string \<Rightarrow> string \<Rightarrow> bool" where  \<comment> \<open>\<^verbatim>\<open>t.includes(needle)\<close>\<close>
  "text_includes t needle \<longleftrightarrow> list_ex (\<lambda>i. take (length needle) (drop i t) = needle) [0..<Suc (length t)]"

fun b64_groups :: "nat list \<Rightarrow> bytes" where
  "b64_groups (p # q # r # s # ns) =
     [byte_of (p * 4 + q div 16), byte_of (q mod 16 * 16 + r div 4), byte_of (r mod 4 * 64 + s)] @ b64_groups ns"
| "b64_groups [p, q, r] = [byte_of (p * 4 + q div 16), byte_of (q mod 16 * 16 + r div 4)]"
| "b64_groups [p, q] = [byte_of (p * 4 + q div 16)]"
| "b64_groups _ = []"

definition strip_pad :: "string \<Rightarrow> string" where
  "strip_pad t = (if length t mod 4 = 0 \<and> t \<noteq> [] \<and> last t = CHR ''=''
     then let u = butlast t in if u \<noteq> [] \<and> last u = CHR ''='' then butlast u else u else t)"

definition atob :: "string \<Rightarrow> bytes option" where
  "atob t = (let u = strip_pad (filter (\<lambda>c. \<not> js_space c) t) in
     if length u mod 4 = 1 \<or> (\<exists>c \<in> set u. c \<notin> set b64_alphabet) then None else Some (b64_groups (map b64_index u)))"

text \<open>\<^verbatim>\<open>text.replace(/=+$/, "")\<close>.\<close>

definition drop_pad :: "string \<Rightarrow> string" where
  "drop_pad t = rev (dropWhile (\<lambda>c. c = CHR ''='') (rev t))"

section \<open>Facts about encodings\<close>

lemma of_char_lt [simp]: "(of_char (c :: char) :: nat) < 256"
  by (cases c) (simp add: of_char_def)

lemma unat_byte_of [simp]: "n < 256 \<Longrightarrow> unat (byte_of n) = n"
  by (simp add: byte_of_def unsigned_of_nat take_bit_nat_eq_self_iff)

lemma utf8_decode_char: "utf8_decode (utf8_char c @ bs) = map_option ((#) c) (utf8_decode bs)"
proof -
  have lt: "(of_char c :: nat) < 4 * 64" by simp
  then have "of_char c div 64 * 64 + of_char c mod 64 = (of_char c :: nat)" "(of_char c :: nat) div 64 < 4"
    by (simp, intro less_mult_imp_div_less)
  moreover have "2 \<le> (of_char c :: nat) div 64" if "\<not> (of_char c :: nat) < 128" using that by simp
  ultimately show ?thesis using lt by (simp add: utf8_char_def Let_def)
qed

lemma utf8_decode_utf8 [simp]: "utf8_decode (utf8 t) = Some t"
  by (induction t) (simp_all add: utf8_def utf8_decode_char)

lemma text_decode_Nil [simp]: "text_decode [] = Some []"
  by (simp add: text_decode_def byte_order_mark_def)

lemma mark_refused: "utf8_decode (0xEF # bs) = None"
  by (cases bs) simp_all

lemma text_decode_utf8 [simp]: "text_decode (utf8 t) = Some t"
proof -
  have "take 3 (utf8 t) \<noteq> byte_order_mark"
  proof
    assume "take 3 (utf8 t) = byte_order_mark"
    then have "utf8 t = byte_order_mark @ drop 3 (utf8 t)" by (metis append_take_drop_id)
    then have "utf8_decode (utf8 t) = None" by (subst (asm) byte_order_mark_def) (metis append_Cons mark_refused)
    then show False by simp
  qed
  then show ?thesis by (simp add: text_decode_def)
qed

lemma utf8_inject [simp]: "utf8 t = utf8 u \<longleftrightarrow> t = u"
  using utf8_decode_utf8 by (metis option.inject)

lemma utf8_append [simp]: "utf8 (t @ u) = utf8 t @ utf8 u"
  by (simp add: utf8_def)

text \<open>The sextets of an encoding, without its padding.\<close>

fun b64_nums :: "bytes \<Rightarrow> nat list" where
  "b64_nums [] = []"
| "b64_nums [a] = [unat a div 4, unat a mod 4 * 16]"
| "b64_nums [a, b] = [unat a div 4, unat a mod 4 * 16 + unat b div 16, unat b mod 16 * 4]"
| "b64_nums (a # b # c # bs) = [unat a div 4, unat a mod 4 * 16 + unat b div 16, unat b mod 16 * 4 + unat c div 64, unat c mod 64] @ b64_nums bs"

lemma b64_nums_lt: "n \<in> set (b64_nums bs) \<Longrightarrow> n < 64"
  by (induction bs rule: b64_nums.induct) (auto simp: sextets)

lemma b64_groups_nums: "b64_groups (b64_nums bs) = bs"
  by (induction bs rule: b64_nums.induct) simp_all

lemma b64_nums_mod: "length (b64_nums bs) mod 4 \<noteq> 1"
  by (induction bs rule: b64_nums.induct) simp_all

lemma b64_text: "\<exists>n \<le> 2. b64 bs = map b64_char (b64_nums bs) @ replicate n CHR ''='' \<and> (length (b64_nums bs) + n) mod 4 = 0"
proof (induction bs rule: b64.induct)
  case (2 a)
  show ?case by (rule exI [of _ 2]) (simp add: numeral_2_eq_2)
next
  case (3 a b)
  show ?case by (rule exI [of _ 1]) simp
next
  case (4 a b c bs)
  then obtain n where n: "n \<le> 2 \<and> b64 bs = map b64_char (b64_nums bs) @ replicate n CHR ''='' \<and> (length (b64_nums bs) + n) mod 4 = 0"
    by (rule exE)
  have "(4 + (length (b64_nums bs) + n)) mod 4 = 0" using n by (simp only: mod_add_self1)
  then show ?case using n by (intro exI [of _ n] conjI) simp_all
qed simp

lemma strip_pad_text:
  assumes "CHR ''='' \<notin> set t" "n \<le> 2" "(length t + n) mod 4 = 0"
  shows "strip_pad (t @ replicate n CHR ''='') = t"
proof -
  have l: "t = [] \<or> last t \<noteq> CHR ''=''" using assms(1) by (metis last_in_set)
  have "n = 0 \<or> n = 1 \<or> n = 2" using assms(2) by auto
  then show ?thesis
    using assms(3) l by (auto simp: strip_pad_def numeral_2_eq_2 butlast_append)
qed

lemma alphabet_no_space: "c \<in> set b64_alphabet \<Longrightarrow> \<not> js_space c"
  by (auto simp: b64_alphabet_def js_space_def)

lemma atob_b64 [simp]: "atob (b64 bs) = Some bs"
proof -
  let ?t = "map b64_char (b64_nums bs)"
  obtain n where n: "n \<le> 2" "b64 bs = ?t @ replicate n CHR ''=''" "(length ?t + n) mod 4 = 0"
    using b64_text [of bs] by auto
  have alph: "c \<in> set b64_alphabet" if "c \<in> set ?t" for c
    using that b64_nums_lt b64_char_in by auto
  have pad: "CHR ''='' \<notin> set ?t" using alph b64_alphabet_props(3) by blast
  have "filter (\<lambda>c. \<not> js_space c) (b64 bs) = b64 bs"
    unfolding n(2) using alph alphabet_no_space by (auto simp: filter_id_conv js_space_def)
  then have s: "strip_pad (filter (\<lambda>c. \<not> js_space c) (b64 bs)) = ?t"
    using strip_pad_text [OF pad n(1,3)] n(2) by simp
  have m: "map (b64_index \<circ> b64_char) (b64_nums bs) = b64_nums bs"
    by (rule map_idI) (simp add: b64_index_char b64_nums_lt)
  show ?thesis
    unfolding atob_def s Let_def using alph b64_nums_mod [of bs] by (auto simp: m b64_groups_nums)
qed

lemma string_of_nat_digits: "c \<in> set (string_of_nat n) \<Longrightarrow> digit_char c"
proof (induction n rule: string_of_nat.induct)
  case (1 n)
  have d: "digit_char (char_of (48 + k))" if "k < 10" for k :: nat
  proof -
    have "k \<in> {0, 1, 2, 3, 4, 5, 6, 7, 8, 9}" using that by auto
    then show ?thesis by (auto simp: digit_char_def less_eq_char_def)
  qed
  show ?case using 1 d [of n] d [of "n mod 10"]
    by (subst (asm) (2) string_of_nat.simps) (auto split: if_splits)
qed

end
