(* ===== verification/Media_Key_Control.thy ===== *)
theory Media_Key_Control
  imports Js_Text
begin

text \<open>
  The data of channel media keys (first part of client/frontend/src/media-keys.js): names of
  publications, the recipients of a sender's keys out of the channel roster, the control
  message that carries an epoch's keys, its validation at the receiver, and the inbox that
  keeps controls while the voice session starts. Keys travel as base64 text inside the
  control; the platform's SHA-256 and HKDF are parameters.
\<close>

section \<open>Text\<close>

definition newline :: char where "newline = CHR 0x0A"

definition b64url :: "bytes \<Rightarrow> string" where
  "b64url bs = takeWhile (\<lambda>c. c \<noteq> CHR ''='')
     (map (\<lambda>c. if c = CHR ''+'' then CHR ''-'' else if c = CHR ''/'' then CHR ''_'' else c) (b64 bs))"

text \<open>\<^verbatim>\<open>KEYS_B64\<close>: 43 characters of the alphabet and one padding character.\<close>

definition keys_b64 :: "string \<Rightarrow> bool" where
  "keys_b64 t \<longleftrightarrow> length t = 44 \<and> list_all (\<lambda>c. c \<in> set b64_alphabet) (take 43 t) \<and> last t = CHR ''=''"

definition id_char :: "char \<Rightarrow> bool" where
  "id_char c \<longleftrightarrow> (let n = of_char c :: nat in 0x21 \<le> n \<and> n \<le> 0x7e)"

definition id_re :: "string \<Rightarrow> bool" where
  "id_re t \<longleftrightarrow> 1 \<le> length t \<and> length t \<le> 128 \<and> list_all id_char t"

section \<open>Publications and recipients\<close>

definition SLOTS :: "string list" where
  "SLOTS = [''mic'', ''cam'', ''screen'', ''screenaudio'']"

definition slotOf :: "string option \<Rightarrow> string" where
  "slotOf slot = (case slot of None \<Rightarrow> ''mic'' | Some t \<Rightarrow> if t = '''' then ''mic'' else t)"

definition publicationPid :: "string \<Rightarrow> string option \<Rightarrow> string" where
  "publicationPid clientID slot = clientID @ ''|'' @ slotOf slot"

definition senderPid :: "string option \<Rightarrow> string" where
  "senderPid slot = ''self|'' @ slotOf slot"

text \<open>A roster entry as the server sends it. The client ID is a string or a number or missing;
  the other fields are whatever the message has.\<close>

datatype client_ref = CStr string | CNum int | CMissing

fun client_string :: "client_ref \<Rightarrow> string" where  \<comment> \<open>\<^verbatim>\<open>String(c.client_id)\<close>\<close>
  "client_string (CStr t) = t"
| "client_string (CNum n) = string_of_int n"
| "client_string CMissing = ''undefined''"

fun client_string_or_empty :: "client_ref \<Rightarrow> string" where  \<comment> \<open>\<^verbatim>\<open>String(c.client_id ?? "")\<close>\<close>
  "client_string_or_empty CMissing = ''''"
| "client_string_or_empty c = client_string c"

record roster_entry =
  client_id :: client_ref
  channel_id :: jsv
  status_field :: jsv
  media_device :: jsv
  unique_id :: jsv
  nickname_field :: jsv

record self_info =
  channelID :: int
  clientID :: string
  principal :: string
  device :: string

record recipient =
  r_principal :: string
  r_device :: string
  r_clientID :: string
  r_nickname :: string

definition inChannel :: "roster_entry \<Rightarrow> int \<Rightarrow> bool" where
  "inChannel c channel \<longleftrightarrow> channel_id c = JNum channel"

fun str_or_empty :: "jsv \<Rightarrow> string" where
  "str_or_empty (JStr t) = t"
| "str_or_empty _ = ''''"

definition device_key :: "string \<Rightarrow> string \<Rightarrow> string" where  \<comment> \<open>\<^verbatim>\<open>`${principal}\n${device}`\<close>\<close>
  "device_key p d = p @ [newline] @ d"

definition rid :: "recipient \<Rightarrow> string" where
  "rid r = device_key (r_principal r) (r_device r)"

definition recipient_of :: "self_info \<Rightarrow> roster_entry \<Rightarrow> recipient option" where
  "recipient_of self c =
     (let dev = str_or_empty (media_device c); prin = str_or_empty (unique_id c);
          client = client_string_or_empty (client_id c) in
      if \<not> inChannel c (channelID self) \<or> status_field c = JStr ''invisible'' \<or> dev = '''' \<or> prin = '''' \<or> client = '''' then None
      else if client = clientID self \<or> dev = device self then None
      else if \<not> id_re dev \<or> \<not> id_re prin then None
      else Some \<lparr>r_principal = prin, r_device = dev, r_clientID = client, r_nickname = str_or_empty (nickname_field c)\<rparr>)"

definition collect_recipients :: "self_info \<Rightarrow> roster_entry list \<Rightarrow> (string, recipient) jmap" where
  "collect_recipients self roster =
     fold (\<lambda>c seen. case recipient_of self c of None \<Rightarrow> seen | Some r \<Rightarrow> jset (rid r) r seen) roster []"

definition recipientsOf :: "roster_entry list \<Rightarrow> self_info \<Rightarrow> recipient list" where
  "recipientsOf roster self = sort_key rid (jvals (collect_recipients self roster))"

definition channelDevices :: "roster_entry list \<Rightarrow> int \<Rightarrow> (string \<times> string) list" where
  "channelDevices roster channel = jvals (fold (\<lambda>c seen.
     if \<not> inChannel c channel \<or> status_field c = JStr ''invisible'' \<or> str_or_empty (media_device c) = '''' \<or> \<not> is_string (unique_id c)
     then seen
     else let p = str_or_empty (unique_id c); d = str_or_empty (media_device c) in jset (device_key p d) (p, d) seen) roster [])"

fun sessionFeatures :: "jsv \<Rightarrow> string list" where
  "sessionFeatures (JStr t) = tl (split_dots t)"
| "sessionFeatures _ = []"

type_synonym slot_keys = "(string, bytes) jmap"

text \<open>\<open>hkdf ikm info\<close> stands for the platform's HKDF-SHA-256.\<close>

definition RATCHET_INFO :: string where "RATCHET_INFO = ''noxa-media-ratchet-v1''"

definition ratchetKeys :: "(bytes \<Rightarrow> string \<Rightarrow> bytes) \<Rightarrow> slot_keys \<Rightarrow> slot_keys" where
  "ratchetKeys hkdf keys = map (\<lambda>slot. (slot, hkdf (case jget keys slot of Some k \<Rightarrow> k | None \<Rightarrow> [])
     (RATCHET_INFO @ ''|'' @ slot))) SLOTS"

text \<open>\<open>sha\<close> stands for SHA-256 of the UTF-8 text.\<close>

definition membershipDigest :: "(string \<Rightarrow> bytes) \<Rightarrow> (string \<times> string) list \<Rightarrow> string" where
  "membershipDigest sha entries =
     b64url (sha (concat (sort (remdups (map (\<lambda>(p, d). device_key p d @ [newline]) entries)))))"

section \<open>The control\<close>

definition MEDIA_KEY_KIND :: string where "MEDIA_KEY_KIND = ''media-key''"
definition MEDIA_SCOPE_TYPE :: string where "MEDIA_SCOPE_TYPE = ''channel-media''"
definition CONTROL_TTL_S :: int where "CONTROL_TTL_S = 120"
definition MAX_PENDING :: nat where "MAX_PENDING = 64"

definition slot_key :: "slot_keys \<Rightarrow> string \<Rightarrow> bytes" where
  "slot_key keys slot = (case jget keys slot of Some k \<Rightarrow> k | None \<Rightarrow> [])"

definition buildMediaKeyBody :: "int \<Rightarrow> int \<Rightarrow> int \<Rightarrow> string \<Rightarrow> string \<Rightarrow> nat \<Rightarrow> string \<Rightarrow> nat \<Rightarrow> slot_keys \<Rightarrow> jsv" where
  "buildMediaKeyBody channel epoch nowSeconds client session kid members count keys = JObj [
     (''kind'', JStr MEDIA_KEY_KIND),
     (''scope'', JObj [(''type'', JStr MEDIA_SCOPE_TYPE), (''id'', JStr (string_of_int channel))]),
     (''epoch'', JNum epoch),
     (''expires_at'', JNum (nowSeconds + CONTROL_TTL_S)),
     (''data'', JObj [(''v'', JNum 1), (''client'', JStr client), (''session'', JStr session), (''kid'', JNum (int kid)),
        (''members'', JStr members), (''n'', JNum (int count)),
        (''keys'', JObj (map (\<lambda>slot. (slot, JStr (b64 (slot_key keys slot)))) SLOTS))])]"

record parsed =
  p_client :: string
  p_session :: string
  p_kid :: nat
  p_members :: string
  p_n :: nat
  p_keys :: slot_keys

fun obj_keys :: "jsv \<Rightarrow> string list" where
  "obj_keys (JObj fs) = remdups (map fst fs)"
| "obj_keys _ = []"

fun is_obj :: "jsv \<Rightarrow> bool" where
  "is_obj (JObj _) = True"
| "is_obj (JBytes _) = True"
| "is_obj _ = False"

definition id_field :: "jsv \<Rightarrow> bool" where
  "id_field v \<longleftrightarrow> (case v of JStr t \<Rightarrow> id_re t | _ \<Rightarrow> False)"

definition int_between :: "int \<Rightarrow> int \<Rightarrow> jsv \<Rightarrow> bool" where
  "int_between lo hi v \<longleftrightarrow> (case v of JNum n \<Rightarrow> lo \<le> n \<and> n \<le> hi | _ \<Rightarrow> False)"

definition keys_field :: "jsv \<Rightarrow> bool" where
  "keys_field v \<longleftrightarrow> length (obj_keys v) = length SLOTS
     \<and> list_all (\<lambda>slot. case field v slot of JStr t \<Rightarrow> keys_b64 t | _ \<Rightarrow> False) SLOTS"

definition num_of :: "jsv \<Rightarrow> int" where
  "num_of v = (case v of JNum n \<Rightarrow> n | _ \<Rightarrow> 0)"

definition parseMediaKeyControl :: "jsv \<Rightarrow> int \<Rightarrow> string + parsed" where
  "parseMediaKeyControl control channel =
     (let d = field control ''data''; keys = field d ''keys'' in
      if field control ''kind'' \<noteq> JStr MEDIA_KEY_KIND then Inl ''kind''
      else if field (field control ''scope'') ''type'' \<noteq> JStr MEDIA_SCOPE_TYPE
            \<or> field (field control ''scope'') ''id'' \<noteq> JStr (string_of_int channel) then Inl ''scope''
      else if \<not> is_safe_integer (field control ''epoch'') \<or> num_of (field control ''epoch'') \<le> 0 then Inl ''epoch''
      else if \<not> is_obj d then Inl ''data''
      else if list_ex (\<lambda>k. k \<notin> set [''v'', ''client'', ''session'', ''kid'', ''members'', ''n'', ''keys'']) (obj_keys d)
            \<or> field d ''v'' \<noteq> JNum 1 then Inl ''version''
      else if \<not> id_field (field d ''client'') \<or> \<not> id_field (field d ''session'') then Inl ''data''
      else if \<not> int_between 0 15 (field d ''kid'') \<or> \<not> is_string (field d ''members'') \<or> length (str_or_empty (field d ''members'')) > 64
            \<or> \<not> int_between 1 10000 (field d ''n'') then Inl ''data''
      else if \<not> keys_field keys then Inl ''keys''
      else Inr \<lparr>p_client = str_or_empty (field d ''client''), p_session = str_or_empty (field d ''session''),
             p_kid = nat (num_of (field d ''kid'')), p_members = str_or_empty (field d ''members''),
             p_n = nat (num_of (field d ''n'')),
             p_keys = map (\<lambda>slot. (slot, unb64 (str_or_empty (field keys slot)))) SLOTS\<rparr>)"

section \<open>The startup inbox\<close>

record inbox_entry =
  ib_at :: int
  ib_control :: jsv

type_synonym inbox = "(string, inbox_entry) jmap"

definition fresh :: "jsv \<Rightarrow> int \<Rightarrow> int \<Rightarrow> bool" where
  "fresh control at receivedAt \<longleftrightarrow> is_safe_integer (field control ''expiresAt'')
     \<and> num_of (field control ''expiresAt'') * 1000 > at \<and> at - receivedAt < CONTROL_TTL_S * 1000"

definition own_fields :: "jsv \<Rightarrow> jsv" where
  "own_fields control = JObj (map (\<lambda>k. (k, field control k)) [''sender'', ''senderDevice'', ''kind'', ''scope'', ''epoch'', ''expiresAt'', ''data''])"

definition inbox_key :: "jsv \<Rightarrow> parsed \<Rightarrow> string" where
  "inbox_key control v = str_or_empty (field control ''sender'') @ [newline] @ str_or_empty (field control ''senderDevice'')
     @ [newline] @ p_client v"

definition inbox_receive :: "int \<Rightarrow> jsv \<Rightarrow> int \<Rightarrow> inbox \<Rightarrow> string \<times> inbox" where
  "inbox_receive at control channel pending =
     (let kept = filter (\<lambda>(_, e). fresh (ib_control e) at (ib_at e)) pending in
      case parseMediaKeyControl control channel of
        Inl reason \<Rightarrow> (reason, kept)
      | Inr v \<Rightarrow>
          if \<not> id_field (field control ''sender'') \<or> \<not> id_field (field control ''senderDevice'') then (''sender'', kept)
          else if \<not> fresh control at at then (''expired'', kept)
          else let key = inbox_key control v in
            (case jget kept key of
               Some previous \<Rightarrow>
                 if num_of (field (ib_control previous) ''epoch'') \<ge> num_of (field control ''epoch'') then (''stale'', kept)
                 else (''pending'', jset key \<lparr>ib_at = at, ib_control = own_fields control\<rparr> kept)
             | None \<Rightarrow>
                 if jsize kept \<ge> MAX_PENDING then (''pending-full'', kept)
                 else (''pending'', jset key \<lparr>ib_at = at, ib_control = own_fields control\<rparr> kept)))"

text \<open>\<^verbatim>\<open>drain\<close>: the controls handed to the engine, and the emptied inbox.\<close>

definition inbox_drain :: "int \<Rightarrow> inbox \<Rightarrow> jsv list \<times> inbox" where
  "inbox_drain at pending = (map ib_control (filter (\<lambda>e. fresh (ib_control e) at (ib_at e)) (jvals pending)), [])"


section \<open>Keys as text\<close>

lemma b64_key_text: "length k = 32 \<Longrightarrow> keys_b64 (b64 k)"
  using b64_shape [of k] b64_length [of k] by (simp add: keys_b64_def butlast_conv_take)

section \<open>Recipients\<close>

lemma device_key_inj:
  assumes "id_re p" "id_re q" "device_key p d = device_key q e"
  shows "p = q \<and> d = e"
proof -
  have nl: "\<not> id_char newline" by code_simp
  have stop: "takeWhile id_char (device_key p d) = p" if "id_re p" for p d
    using that nl by (simp add: device_key_def id_re_def takeWhile_append2 list_all_iff)
  have "p = q" using stop [OF assms(1)] stop [OF assms(2)] assms(3) by metis
  with assms(3) show ?thesis by (simp add: device_key_def)
qed

lemma collect_get:
  "jget (collect_recipients self roster) k =
     (case filter (\<lambda>r. rid r = k) (List.map_filter (recipient_of self) roster) of [] \<Rightarrow> None | rs \<Rightarrow> Some (last rs))"
proof (induction roster rule: rev_induct)
  case Nil
  then show ?case by (simp add: collect_recipients_def List.map_filter_def)
next
  case (snoc c roster)
  then show ?case
    by (cases "recipient_of self c")
      (auto simp: collect_recipients_def List.map_filter_def split: list.splits)
qed

lemma collect_wf: "jwf (collect_recipients self roster)"
proof (induction roster rule: rev_induct)
  case (snoc c roster)
  then show ?case by (simp add: collect_recipients_def split: option.split)
qed (simp add: collect_recipients_def)

lemma collect_rid: "jget (collect_recipients self roster) k = Some r \<Longrightarrow> rid r = k"
proof -
  let ?rs = "filter (\<lambda>r. rid r = k) (List.map_filter (recipient_of self) roster)"
  assume "jget (collect_recipients self roster) k = Some r"
  then have "?rs \<noteq> []" "r = last ?rs" unfolding collect_get by (auto split: list.splits)
  then have "r \<in> set ?rs" using last_in_set by metis
  then show ?thesis by simp
qed

lemma set_recipientsOf:
  "r \<in> set (recipientsOf roster self) \<longleftrightarrow> jget (collect_recipients self roster) (rid r) = Some r"
proof -
  have "r \<in> set (recipientsOf roster self) \<longleftrightarrow> (\<exists>k. (k, r) \<in> set (collect_recipients self roster))"
    by (force simp: recipientsOf_def jvals_def)
  also have "\<dots> \<longleftrightarrow> (\<exists>k. jget (collect_recipients self roster) k = Some r)"
    by (simp add: jget_iff_in [OF collect_wf])
  also have "\<dots> \<longleftrightarrow> jget (collect_recipients self roster) (rid r) = Some r"
    using collect_rid by blast
  finally show ?thesis .
qed

lemma recipient_of_SomeD:
  assumes "recipient_of self c = Some r"
  shows "channel_id c = JNum (channelID self)" "status_field c \<noteq> JStr ''invisible''"
    "media_device c = JStr (r_device r)" "unique_id c = JStr (r_principal r)"
    "r_device r \<noteq> device self" "r_clientID r \<noteq> clientID self" "id_re (r_device r)" "id_re (r_principal r)"
proof -
  have s: "v = JStr (str_or_empty v)" if "str_or_empty v \<noteq> ''''" for v using that by (cases v) auto
  show "channel_id c = JNum (channelID self)" "status_field c \<noteq> JStr ''invisible''"
    "r_device r \<noteq> device self" "r_clientID r \<noteq> clientID self" "id_re (r_device r)" "id_re (r_principal r)"
    using assms by (auto simp: recipient_of_def inChannel_def Let_def split: if_splits)
  show "media_device c = JStr (r_device r)" "unique_id c = JStr (r_principal r)"
    using assms s by (auto simp: recipient_of_def Let_def split: if_splits)
qed

lemma recipientsOf_entry:
  assumes "r \<in> set (recipientsOf roster self)"
  shows "\<exists>c \<in> set roster. recipient_of self c = Some r"
proof -
  let ?rs = "filter (\<lambda>x. rid x = rid r) (List.map_filter (recipient_of self) roster)"
  have "jget (collect_recipients self roster) (rid r) = Some r" using assms by (simp add: set_recipientsOf)
  then have "?rs \<noteq> []" "r = last ?rs" unfolding collect_get by (auto split: list.splits)
  then have "r \<in> set ?rs" using last_in_set by metis
  then show ?thesis by (force simp: List.map_filter_def)
qed

lemma recipientsOf_complete:
  assumes "c \<in> set roster" "recipient_of self c = Some r"
  shows "rid r \<in> rid ` set (recipientsOf roster self)"
proof -
  let ?rs = "filter (\<lambda>x. rid x = rid r) (List.map_filter (recipient_of self) roster)"
  have "r \<in> set ?rs" using assms by (force simp: List.map_filter_def)
  then obtain r' where "jget (collect_recipients self roster) (rid r) = Some r'"
    unfolding collect_get by (cases ?rs) auto
  then have "r' \<in> set (recipientsOf roster self)" "rid r' = rid r"
    using collect_rid [of self roster "rid r" r'] by (auto simp: set_recipientsOf)
  then show ?thesis by (metis imageI)
qed

lemma distinct_rid_recipientsOf: "distinct (map rid (recipientsOf roster self))"
proof -
  let ?m = "collect_recipients self roster"
  have "map rid (jvals ?m) = jkeys ?m"
  proof -
    have "rid v = k" if "(k, v) \<in> set ?m" for k v
      using that collect_rid jget_iff_in [OF collect_wf] by blast
    then show ?thesis by (auto simp: jvals_def jkeys_def)
  qed
  then have "distinct (map rid (jvals ?m))" using collect_wf by (simp add: jwf_def)
  then show ?thesis by (simp add: recipientsOf_def distinct_map)
qed


section \<open>Validation\<close>

lemma keys_field_text:
  assumes "keys_field v" "slot \<in> set SLOTS"
  obtains t where "field v slot = JStr t" "keys_b64 t"
  using assms by (cases "field v slot") (auto simp: keys_field_def list_all_iff)

lemma keys_b64_split:
  assumes "keys_b64 t"
  shows "length (unb64 t) = 32"
proof -
  have step: "length (unb64 (w # x # y # z # cs)) = 3 + length (unb64 cs)"
    if "y \<noteq> CHR ''=''" "z \<noteq> CHR ''=''" for w x y z cs
    using that by (simp add: Let_def)
  have main: "length (unb64 cs) = 3 * n + 2"
    if "length cs = 4 * n + 4" "CHR ''='' \<notin> set (butlast cs)" "last cs = CHR ''=''" for n cs
    using that
  proof (induction n arbitrary: cs)
    case 0
    then obtain w x y z where "cs = [w, x, y, z]" by (auto simp: length_Suc_conv numeral_eq_Suc)
    with 0 show ?case by (auto simp: Let_def)
  next
    case (Suc n)
    then obtain w x y z ds where cs: "cs = w # x # y # z # ds" "length ds = 4 * n + 4"
      by (auto simp: length_Suc_conv numeral_eq_Suc)
    then have "ds \<noteq> []" by auto
    with cs Suc.prems have "CHR ''='' \<notin> set (butlast ds)" "last ds = CHR ''=''" "y \<noteq> CHR ''=''" "z \<noteq> CHR ''=''" by auto
    with Suc.IH [OF cs(2)] step cs show ?case by simp
  qed
  have "CHR ''='' \<notin> set (take 43 t)" using assms b64_alphabet_props(3) by (auto simp: keys_b64_def list_all_iff)
  then show ?thesis using main [of t 10] assms by (simp add: keys_b64_def butlast_conv_take)
qed

lemma parse_fields:
  assumes "parseMediaKeyControl control channel = Inr v"
  shows "field control ''kind'' = JStr MEDIA_KEY_KIND"
    "field (field control ''scope'') ''id'' = JStr (string_of_int channel)"
    "field (field control ''scope'') ''type'' = JStr MEDIA_SCOPE_TYPE"
    "is_safe_integer (field control ''epoch'')" "0 < num_of (field control ''epoch'')"
    "id_re (p_client v)" "id_re (p_session v)" "p_kid v \<le> 15" "length (p_members v) \<le> 64" "1 \<le> p_n v" "p_n v \<le> 10000"
    "map fst (p_keys v) = SLOTS" "\<And>k. k \<in> snd ` set (p_keys v) \<Longrightarrow> length k = 32"
proof -
  let ?d = "field control ''data''"
  have ok: "field control ''kind'' = JStr MEDIA_KEY_KIND"
    "field (field control ''scope'') ''id'' = JStr (string_of_int channel)"
    "field (field control ''scope'') ''type'' = JStr MEDIA_SCOPE_TYPE"
    "is_safe_integer (field control ''epoch'')" "0 < num_of (field control ''epoch'')"
    "id_field (field ?d ''client'')" "id_field (field ?d ''session'')" "int_between 0 15 (field ?d ''kid'')"
    "length (str_or_empty (field ?d ''members'')) \<le> 64" "int_between 1 10000 (field ?d ''n'')" "keys_field (field ?d ''keys'')"
    and v: "v = \<lparr>p_client = str_or_empty (field ?d ''client''), p_session = str_or_empty (field ?d ''session''),
       p_kid = nat (num_of (field ?d ''kid'')), p_members = str_or_empty (field ?d ''members''),
       p_n = nat (num_of (field ?d ''n'')),
       p_keys = map (\<lambda>slot. (slot, unb64 (str_or_empty (field (field ?d ''keys'') slot)))) SLOTS\<rparr>"
    using assms by (auto simp: parseMediaKeyControl_def Let_def not_le split: if_splits)
  show "field control ''kind'' = JStr MEDIA_KEY_KIND"
    "field (field control ''scope'') ''id'' = JStr (string_of_int channel)"
    "field (field control ''scope'') ''type'' = JStr MEDIA_SCOPE_TYPE"
    "is_safe_integer (field control ''epoch'')" "0 < num_of (field control ''epoch'')" by (rule ok)+
  show "id_re (p_client v)" "id_re (p_session v)" "length (p_members v) \<le> 64"
    using ok(6,7,9) by (auto simp: v id_field_def split: jsv.splits)
  show "p_kid v \<le> 15" "1 \<le> p_n v" "p_n v \<le> 10000"
    using ok(8,10) by (auto simp: v int_between_def num_of_def split: jsv.splits)
  show "map fst (p_keys v) = SLOTS" by (simp add: v comp_def)
  show "length k = 32" if k: "k \<in> snd ` set (p_keys v)" for k
  proof -
    obtain slot where s: "slot \<in> set SLOTS" "k = unb64 (str_or_empty (field (field ?d ''keys'') slot))"
      using k by (auto simp: v)
    obtain t where "field (field ?d ''keys'') slot = JStr t" "keys_b64 t" by (rule keys_field_text [OF ok(11) s(1)])
    then show ?thesis using s(2) keys_b64_split by simp
  qed
qed


section \<open>The inbox\<close>

lemma own_fields_get [simp]:
  "field (own_fields control) ''sender'' = field control ''sender''"
  "field (own_fields control) ''senderDevice'' = field control ''senderDevice''"
  "field (own_fields control) ''kind'' = field control ''kind''"
  "field (own_fields control) ''scope'' = field control ''scope''"
  "field (own_fields control) ''epoch'' = field control ''epoch''"
  "field (own_fields control) ''expiresAt'' = field control ''expiresAt''"
  "field (own_fields control) ''data'' = field control ''data''"
  by (simp_all add: own_fields_def)

lemma parse_own_fields: "parseMediaKeyControl (own_fields control) channel = parseMediaKeyControl control channel"
  by (simp add: parseMediaKeyControl_def Let_def)

lemma fresh_own_fields: "fresh (own_fields control) at r = fresh control at r"
  by (simp add: fresh_def)

definition inbox_ok :: "int \<Rightarrow> inbox \<Rightarrow> bool" where
  "inbox_ok channel pending \<longleftrightarrow> jwf pending \<and> jsize pending \<le> MAX_PENDING
     \<and> (\<forall>k e. jget pending k = Some e \<longrightarrow>
          (\<exists>v. parseMediaKeyControl (ib_control e) channel = Inr v \<and> inbox_key (ib_control e) v = k))"

lemma jget_filterD: "jwf m \<Longrightarrow> jget (filter P m) k = Some v \<Longrightarrow> jget m k = Some v"
  using jget_in [of "filter P m" k v] by (simp add: jget_iff_in)

lemma inbox_ok_filter: "inbox_ok channel m \<Longrightarrow> inbox_ok channel (filter P m)"
  unfolding inbox_ok_def using jget_filterD [of m P] by (auto simp: jwf_filter intro: le_trans [OF length_filter_le])

lemma inbox_receive_ok:
  assumes "inbox_ok channel m"
  shows "inbox_ok channel (snd (inbox_receive at control channel m))"
proof -
  let ?kept = "filter (\<lambda>(_, e). fresh (ib_control e) at (ib_at e)) m"
  have kept: "inbox_ok channel ?kept" by (rule inbox_ok_filter [OF assms])
  have put: "inbox_ok channel (jset (inbox_key control v) \<lparr>ib_at = at, ib_control = own_fields control\<rparr> ?kept)"
    if "parseMediaKeyControl control channel = Inr v" "jhas ?kept (inbox_key control v) \<or> jsize ?kept < MAX_PENDING" for v
    using that kept
    by (auto simp: inbox_ok_def parse_own_fields jsize_jset inbox_key_def split: if_splits)
  show ?thesis
    using kept put by (auto simp: inbox_receive_def Let_def jhas_def split: sum.split option.split)
qed

lemma inbox_epoch_mono:
  assumes "jget m k = Some e" "jwf m" "fresh (ib_control e) at (ib_at e)"
  obtains e' where "jget (snd (inbox_receive at control channel m)) k = Some e'"
    "num_of (field (ib_control e) ''epoch'') \<le> num_of (field (ib_control e') ''epoch'')"
proof -
  let ?kept = "filter (\<lambda>(_, e). fresh (ib_control e) at (ib_at e)) m"
  have e: "jget ?kept k = Some e"
    using assms jwf_filter [OF assms(2)] by (simp add: jget_iff_in)
  have "\<exists>e'. jget (snd (inbox_receive at control channel m)) k = Some e' \<and>
      num_of (field (ib_control e) ''epoch'') \<le> num_of (field (ib_control e') ''epoch'')"
    using e by (auto simp: inbox_receive_def Let_def split: sum.split option.split)
  with that show ?thesis by blast
qed

section \<open>Theorems\<close>

text \<open>Property C28: a control that a sender builds is accepted by every receiver in the same
  channel, and the receiver reads exactly the sender's client, session, key slot, membership
  digest and keys; in any other channel it is refused for its scope.\<close>

theorem media_key_control_roundtrip:
  assumes "0 < epoch" "epoch \<le> max_safe_integer" "id_re client" "id_re session" "kid \<le> 15" "length members \<le> 64"
    "1 \<le> n" "n \<le> 10000" "map fst keys = SLOTS" "list_all (\<lambda>(_, k). length k = 32) keys"
  shows "parseMediaKeyControl (buildMediaKeyBody channel epoch now client session kid members n keys) channel'
    = (if channel' = channel
       then Inr \<lparr>p_client = client, p_session = session, p_kid = kid, p_members = members, p_n = n, p_keys = keys\<rparr>
       else Inl ''scope'')"
proof -
  obtain a b c d where keys: "keys = [(''mic'', a), (''cam'', b), (''screen'', c), (''screenaudio'', d)]"
    using assms(9) by (auto simp: SLOTS_def map_eq_Cons_conv)
  have len: "length a = 32" "length b = 32" "length c = 32" "length d = 32" using assms(10) by (simp_all add: keys)
  note texts = len [THEN b64_key_text]
  show ?thesis
    using assms(1-8) texts string_of_int_inj [of channel channel']
    by (auto simp: parseMediaKeyControl_def buildMediaKeyBody_def Let_def num_of_def id_field_def int_between_def keys_field_def
        slot_key_def keys SLOTS_def jget_def unb64_b64)
qed

theorem media_key_control_roundtrip_witness:
  "parseMediaKeyControl (buildMediaKeyBody 5 7 0 ''c1'' ''s.r1'' 3 ''m'' 2 (map (\<lambda>s. (s, replicate 32 9)) SLOTS)) 5
    = Inr \<lparr>p_client = ''c1'', p_session = ''s.r1'', p_kid = 3, p_members = ''m'', p_n = 2, p_keys = map (\<lambda>s. (s, replicate 32 9)) SLOTS\<rparr>"
proof -
  have "id_re ''c1''" "id_re ''s.r1''" by code_simp+
  then show ?thesis
    using media_key_control_roundtrip [of 7 "''c1''" "''s.r1''" 3 "''m''" 2 "map (\<lambda>s. (s, replicate 32 9)) SLOTS" 5 0 5]
    by (simp add: max_safe_integer_def SLOTS_def)
qed

text \<open>Property C29: a control that passes validation names this channel, has a positive safe
  epoch, identifiers of 1 to 128 printable characters, a key slot of the 16-slot ring, a
  bounded member count, and exactly one 32-byte key for every publication slot.\<close>

theorem parsed_control_is_bounded:
  assumes "parseMediaKeyControl control channel = Inr v"
  shows "field (field control ''scope'') ''id'' = JStr (string_of_int channel) \<and> 0 < num_of (field control ''epoch'')
    \<and> id_re (p_client v) \<and> id_re (p_session v) \<and> p_kid v < 16 \<and> length (p_members v) \<le> 64 \<and> 1 \<le> p_n v \<and> p_n v \<le> 10000
    \<and> map fst (p_keys v) = SLOTS \<and> list_all (\<lambda>(_, k). length k = 32) (p_keys v)"
proof -
  note f = parse_fields [OF assms]
  have "list_all (\<lambda>(_, k). length k = 32) (p_keys v)" using f(13) by (force simp: list_all_iff)
  with f(2,5-12) show ?thesis by simp
qed

theorem parsed_control_is_bounded_witness:
  "\<exists>v. parseMediaKeyControl (buildMediaKeyBody 5 7 0 ''c1'' ''s.r1'' 3 ''m'' 2 (map (\<lambda>s. (s, replicate 32 9)) SLOTS)) 5 = Inr v
    \<and> p_kid v < 16"
proof -
  let ?c = "buildMediaKeyBody 5 7 0 ''c1'' ''s.r1'' 3 ''m'' 2 (map (\<lambda>s. (s, replicate 32 9)) SLOTS)"
  have "\<not> (case parseMediaKeyControl ?c 5 of Inl _ \<Rightarrow> True | Inr _ \<Rightarrow> False)" by code_simp
  then obtain v where v: "parseMediaKeyControl ?c 5 = Inr v" by (cases "parseMediaKeyControl ?c 5") auto
  with parsed_control_is_bounded [OF v] show ?thesis by blast
qed

text \<open>The recipients of a sender's keys are exactly the devices that a visible
  session of the sender's own channel announces, never the sender's own device or client, and
  no device appears twice.\<close>

theorem recipients_are_channel_devices:
  "distinct (map rid (recipientsOf roster self))
   \<and> (\<forall>r. r \<in> set (recipientsOf roster self) \<longrightarrow> r_device r \<noteq> device self \<and> r_clientID r \<noteq> clientID self
        \<and> (\<exists>c \<in> set roster. channel_id c = JNum (channelID self) \<and> status_field c \<noteq> JStr ''invisible''
             \<and> media_device c = JStr (r_device r) \<and> unique_id c = JStr (r_principal r)))
   \<and> rid ` set (recipientsOf roster self) = rid ` set (List.map_filter (recipient_of self) roster)"
proof (intro conjI allI impI)
  show "distinct (map rid (recipientsOf roster self))" by (rule distinct_rid_recipientsOf)
  fix r assume r: "r \<in> set (recipientsOf roster self)"
  obtain c where c: "c \<in> set roster" "recipient_of self c = Some r" using recipientsOf_entry [OF r] by blast
  note d = recipient_of_SomeD [OF c(2)]
  show "r_device r \<noteq> device self" "r_clientID r \<noteq> clientID self" by (rule d)+
  show "\<exists>c \<in> set roster. channel_id c = JNum (channelID self) \<and> status_field c \<noteq> JStr ''invisible''
     \<and> media_device c = JStr (r_device r) \<and> unique_id c = JStr (r_principal r)"
    using c(1) d(1-4) by blast
next
  show "rid ` set (recipientsOf roster self) = rid ` set (List.map_filter (recipient_of self) roster)"
    using recipientsOf_entry recipientsOf_complete by (force simp: List.map_filter_def)
qed

theorem recipients_are_channel_devices_witness:
  "distinct (map rid (recipientsOf [\<lparr>client_id = CStr ''c2'', channel_id = JNum 5, status_field = JUndef, media_device = JStr ''d2'',
      unique_id = JStr ''p2'', nickname_field = JStr ''n''\<rparr>] \<lparr>channelID = 5, clientID = ''c1'', principal = ''p1'', device = ''d1''\<rparr>))"
  by (rule recipients_are_channel_devices [THEN conjunct1])

text \<open>The startup inbox never holds more than 64 controls, every control in it is
  valid for the channel and filed under its own publisher, receiving another control never
  replaces a fresh one by an older epoch, and draining hands over each of the fresh ones once.\<close>

theorem startup_inbox_sound:
  assumes "inbox_ok channel pending"
  shows "inbox_ok channel (snd (inbox_receive at control channel pending))
    \<and> jsize (snd (inbox_receive at control channel pending)) \<le> 64
    \<and> (\<forall>k e. jget pending k = Some e \<longrightarrow> fresh (ib_control e) at (ib_at e) \<longrightarrow>
         (\<exists>e'. jget (snd (inbox_receive at control channel pending)) k = Some e' \<and>
           num_of (field (ib_control e) ''epoch'') \<le> num_of (field (ib_control e') ''epoch'')))
    \<and> (\<forall>c \<in> set (fst (inbox_drain at pending)). \<exists>v. parseMediaKeyControl c channel = Inr v)
    \<and> length (fst (inbox_drain at pending)) \<le> 64 \<and> snd (inbox_drain at pending) = []"
proof -
  have ok: "inbox_ok channel (snd (inbox_receive at control channel pending))" by (rule inbox_receive_ok [OF assms])
  have "jwf pending" using assms by (simp add: inbox_ok_def)
  then have "\<exists>v. parseMediaKeyControl c channel = Inr v" if "c \<in> set (fst (inbox_drain at pending))" for c
    using that assms by (fastforce simp: inbox_drain_def inbox_ok_def jvals_def jget_iff_in)
  moreover have "length (fst (inbox_drain at pending)) \<le> 64"
    using assms by (auto simp: inbox_drain_def inbox_ok_def MAX_PENDING_def jvals_def intro: le_trans [OF length_filter_le])
  moreover have "jsize (snd (inbox_receive at control channel pending)) \<le> 64"
    using ok by (simp add: inbox_ok_def MAX_PENDING_def)
  moreover have "\<exists>e'. jget (snd (inbox_receive at control channel pending)) k = Some e' \<and>
      num_of (field (ib_control e) ''epoch'') \<le> num_of (field (ib_control e') ''epoch'')"
    if "jget pending k = Some e" "fresh (ib_control e) at (ib_at e)" for k e
    by (rule inbox_epoch_mono [OF that(1) \<open>jwf pending\<close> that(2), of control channel]) blast
  moreover have "snd (inbox_drain at pending) = []" by (simp add: inbox_drain_def)
  ultimately show ?thesis using ok by blast
qed

theorem startup_inbox_sound_witness:
  "inbox_ok 5 (snd (inbox_receive 0 JNull 5 []))"
  by (rule startup_inbox_sound [THEN conjunct1]) (simp add: inbox_ok_def)

end
