(* ===== verification/Media_Key_Engine.thy ===== *)
theory Media_Key_Engine
  imports Media_Key_Control
begin

text \<open>
  The engine that distributes channel media keys (\<^verbatim>\<open>MediaKeyEngine\<close> in
  client/frontend/src/media-keys.js).

  A rekey is an asynchronous routine; the model keeps the point it is suspended at in
  \<open>en_phase\<close>, and the worker calls, control sends, key installations and timers it started in
  fields of the state. Every \<^verbatim>\<open>await\<close> is a point where any other event may happen. Timers carry
  the clock value they are armed for and fire at any time from then on (\<open>VTick\<close> moves the clock, which may also step back); the bounded waits
  before an activation may end at any time (the model has the races of the source with
  arbitrary delays). A send starts at any time after its distribution started.
  The platform (random numbers, HKDF, SHA-256) is a parameter. The fields \<open>media_log\<close>,
  \<open>send_log\<close>, \<open>issue_log\<close> and \<open>accept_log\<close> record what the engine did and steer nothing.
  Not modelled: the status listener and its throttle timer (status is a function of the state
  here), the text of delivery errors.
\<close>

section \<open>Constants\<close>

definition RENEW_MS :: int where "RENEW_MS = 5 * 60 * 1000"
definition REMOVAL_ACTIVATE_DEADLINE_MS :: int where "REMOVAL_ACTIVATE_DEADLINE_MS = 2000"
definition RECEIVE_GRACE_MS :: int where "RECEIVE_GRACE_MS = 10000"
definition ACTIVATE_DELAY_MS :: int where "ACTIVATE_DELAY_MS = 2500"
definition ACTIVATE_MAX_WAIT_MS :: int where "ACTIVATE_MAX_WAIT_MS = 8000"
definition SWITCH_GRACE_MS :: int where "SWITCH_GRACE_MS = ACTIVATE_MAX_WAIT_MS + ACTIVATE_DELAY_MS + RECEIVE_GRACE_MS"
definition RETRY_REKEY_MAX_MS :: int where "RETRY_REKEY_MAX_MS = 2000"
definition SENDER_RETIRE_MS :: int where "SENDER_RETIRE_MS = 1500"
definition DEBOUNCE_MS :: int where "DEBOUNCE_MS = 200"
definition REMOVAL_BOUND_MS :: int where "REMOVAL_BOUND_MS = DEBOUNCE_MS + REMOVAL_ACTIVATE_DEADLINE_MS"
definition RETRY_FAILED_MS :: int where "RETRY_FAILED_MS = 10000"
definition MAX_RETRY_DELAY_MS :: int where "MAX_RETRY_DELAY_MS = 60000"
definition PENDING_MS :: int where "PENDING_MS = 15000"
definition MEMBERSHIP_SETTLE_MS :: int where "MEMBERSHIP_SETTLE_MS = 5000"
definition CONCURRENCY :: nat where "CONCURRENCY = 6"
definition RATCHET_FEATURE :: string where "RATCHET_FEATURE = ''r1''"

datatype rekey_reason = RNone | RMembership | RPublication | RStart | RRenewal | RRemoval

fun REASON_RANK :: "rekey_reason \<Rightarrow> nat" where
  "REASON_RANK RNone = 0"
| "REASON_RANK RMembership = 1"
| "REASON_RANK RPublication = 1"
| "REASON_RANK RStart = 2"
| "REASON_RANK RRenewal = 2"
| "REASON_RANK RRemoval = 3"

section \<open>State\<close>

record platform =
  random :: "nat \<Rightarrow> bytes"
  hkdf :: "bytes \<Rightarrow> string \<Rightarrow> bytes"
  sha :: "string \<Rightarrow> bytes"

datatype media_call =
    MSetKey string int nat bytes
  | MActivate string int
  | MRetire string int
  | MRetireOne string int
  | MForget string

record pub_state =
  ps_id :: nat  \<comment> \<open>the identity of the object\<close>
  ps_principal :: string
  ps_device :: string
  ps_epochs :: "int list"
  ps_members :: string
  ps_n :: nat
  ps_session :: string
  ps_announced :: int
  ps_next :: int

record pending_control =
  pc_control :: jsv
  pc_value :: parsed
  pc_at :: int
  pc_gen :: nat

record removal =
  rm_seq :: nat
  rm_due :: bool
  rm_deadline :: int

record delivery =
  d_ok :: "string list"
  d_failed :: "string list"
  d_kid :: nat
  d_keys :: slot_keys
  d_members :: string
  d_count :: nat
  d_chain :: "string list"
  d_inherited :: "string list"

text \<open>One call of \<^verbatim>\<open>#distribute\<close>: the recipients not started yet and those in flight.
  \<open>ds_retry\<close> is the attempt number when it is a retry.\<close>

record distribution =
  ds_gen :: nat
  ds_epoch :: int
  ds_queue :: "recipient list"
  ds_flight :: "recipient list"
  ds_body :: jsv
  ds_retry :: "nat option"

record rekey_ctx =
  k_gen :: nat
  k_self :: self_info
  k_created :: nat
  k_urgent :: bool
  k_previous :: int
  k_recipients :: "recipient list"
  k_head :: "delivery option"
  k_keys :: slot_keys
  k_epoch :: int
  k_kid :: nat
  k_chain :: "string list"
  k_members :: string

datatype phase =
    PIdle
  | PKeys rekey_ctx
  | PDigest rekey_ctx
  | PInstall rekey_ctx nat
  | PWaitUrgent rekey_ctx
  | PWaitSettle rekey_ctx bool  \<comment> \<open>whether the wait was interrupted by a removal\<close>
  | PActivate rekey_ctx nat

text \<open>A key installation of a received control, or of its successor (\<^verbatim>\<open>#preinstallSuccessor\<close>).\<close>

record install =
  in_gen :: nat
  in_client :: string
  in_state :: nat
  in_epoch :: int
  in_value :: parsed
  in_next :: nat

record preinstall =
  pi_gen :: nat
  pi_client :: string
  pi_state :: nat
  pi_epoch :: int
  pi_kid :: nat
  pi_keys :: slot_keys
  pi_next :: "nat option"  \<comment> \<open>None while the successor keys are derived\<close>

record retire_timer =
  rt_at :: int
  rt_gen :: "nat option"  \<comment> \<open>the generation it is checked against, if any\<close>
  rt_pids :: "string list"
  rt_through :: int

text \<open>Audit entries: an issued epoch, a control sent, a control accepted.\<close>

record issue =
  is_gen :: nat
  is_epoch :: int
  is_created :: nat
  is_rids :: "string list"
  is_parent :: "int option"

record sent_control =
  sn_gen :: nat
  sn_epoch :: int
  sn_rid :: string

record accepted_control =
  ac_line :: string
  ac_epoch :: int

record engine =
  en_now :: int
  en_gen :: nat
  en_self :: "self_info option"
  en_session :: string
  en_roster :: "roster_entry list"
  en_recipients :: "recipient list"
  en_recipientKey :: string
  en_epoch :: int
  en_kid :: nat
  en_members :: string
  en_sentTo :: "(string, int) jmap"
  en_busy :: bool
  en_again :: bool
  en_runGen :: nat
  en_debounce :: "int option"
  en_renew :: "int option"
  en_retry :: "(int \<times> nat \<times> int \<times> nat option) option"
  en_retryArmed :: int
  en_busyOrPending :: bool
  en_publishers :: "(string, pub_state) jmap"
  en_pending :: "pending_control list"
  en_failed :: "(string, recipient) jmap"
  en_reason :: rekey_reason
  en_pendingRemovals :: "removal list"
  en_seq :: nat
  en_removalDebounce :: bool
  en_runFailures :: nat
  en_runRetry :: "int option"
  en_paused :: bool
  en_activating :: "(int \<times> nat) list"
  en_activeRecipients :: "recipient list"
  en_deliveries :: "(int, delivery) jmap"
  en_rosterAt :: int
  en_settle :: "int option"
  en_checks :: "(nat \<times> string) list"
  en_mismatch :: "(string \<times> string) list"
  en_activeEpoch :: int
  en_lastError :: bool
  en_phase :: phase
  en_dists :: "distribution list"
  en_installs :: "install list"
  en_preinstalls :: "preinstall list"
  en_retireTimers :: "retire_timer list"
  en_randSeq :: nat
  en_stateSeq :: nat
  en_ignored :: "string list"
  en_applied :: nat
  en_sent :: nat
  en_failures :: nat
  en_epochs :: nat
  en_invisible :: nat
  issuedEpochs :: "(string, int) jmap"
  acceptedEpochs :: "(string, int) jmap"
  media_log :: "media_call list"
  send_log :: "sent_control list"
  issue_log :: "issue list"
  accept_log :: "accepted_control list"

definition new_engine :: engine where
  "new_engine = \<lparr>en_now = 0, en_gen = 0, en_self = None, en_session = '''', en_roster = [], en_recipients = [],
     en_recipientKey = '''', en_epoch = 0, en_kid = 15, en_members = '''', en_sentTo = [], en_busy = False, en_again = False,
     en_runGen = 0, en_debounce = None, en_renew = None, en_retry = None, en_retryArmed = 0, en_busyOrPending = False,
     en_publishers = [], en_pending = [], en_failed = [], en_reason = RNone, en_pendingRemovals = [], en_seq = 0,
     en_removalDebounce = False, en_runFailures = 0, en_runRetry = None, en_paused = False, en_activating = [],
     en_activeRecipients = [], en_deliveries = [], en_rosterAt = 0, en_settle = None, en_checks = [], en_mismatch = [],
     en_activeEpoch = 0, en_lastError = False, en_phase = PIdle, en_dists = [], en_installs = [], en_preinstalls = [],
     en_retireTimers = [], en_randSeq = 0, en_stateSeq = 0, en_ignored = [], en_applied = 0, en_sent = 0, en_failures = 0,
     en_epochs = 0, en_invisible = 0, issuedEpochs = [], acceptedEpochs = [], media_log = [], send_log = [], issue_log = [],
     accept_log = []\<rparr>"

section \<open>Helpers\<close>

definition running :: "engine \<Rightarrow> bool" where
  "running s \<longleftrightarrow> en_self s \<noteq> None"

definition media :: "media_call list \<Rightarrow> engine \<Rightarrow> engine" where
  "media cs s = s\<lparr>media_log := media_log s @ cs\<rparr>"

definition epoch_line :: "(string, int) jmap \<Rightarrow> string \<Rightarrow> int" where  \<comment> \<open>\<^verbatim>\<open>map.get(key) || 0\<close>\<close>
  "epoch_line m k = (case jget m k of None \<Rightarrow> 0 | Some e \<Rightarrow> e)"

definition self_key :: "self_info \<Rightarrow> string" where
  "self_key self = device_key (principal self) (device self)"

definition ignore :: "string \<Rightarrow> engine \<Rightarrow> engine" where
  "ignore reason s = s\<lparr>en_ignored := en_ignored s @ [reason]\<rparr>"

definition roster_find :: "string \<Rightarrow> roster_entry list \<Rightarrow> roster_entry option" where
  "roster_find client roster = List.find (\<lambda>c. client_string (client_id c) = client) roster"

definition invisible :: "engine \<Rightarrow> bool" where
  "invisible s \<longleftrightarrow> (case en_self s of None \<Rightarrow> False
     | Some self \<Rightarrow> (case roster_find (clientID self) (en_roster s) of None \<Rightarrow> False
         | Some c \<Rightarrow> status_field c = JStr ''invisible''))"

definition isRecipient :: "engine \<Rightarrow> recipient \<Rightarrow> bool" where
  "isRecipient s r \<longleftrightarrow> (\<exists>c \<in> set (en_recipients s). r_principal c = r_principal r \<and> r_device c = r_device r)"

text \<open>Both copies of the sender's own key: the sending publication and the echo of it.\<close>

definition own_pids :: "string \<Rightarrow> string list" where
  "own_pids client = concat (map (\<lambda>slot. [senderPid (Some slot), publicationPid client (Some slot)]) SLOTS)"

definition retire_own :: "string \<Rightarrow> int \<Rightarrow> engine \<Rightarrow> engine" where
  "retire_own client epoch s = media (map (\<lambda>pid. MRetireOne pid epoch) (own_pids client)) s"

definition own_client :: "engine \<Rightarrow> string" where
  "own_client s = (case en_self s of None \<Rightarrow> '''' | Some self \<Rightarrow> clientID self)"

section \<open>Scheduling\<close>

definition schedule :: "rekey_reason \<Rightarrow> int \<Rightarrow> engine \<Rightarrow> engine" where
  "schedule reason delay s =
     (if \<not> running s then s
      else let s1 = (if \<not> en_busyOrPending s \<or> REASON_RANK reason \<ge> REASON_RANK (en_reason s) then s\<lparr>en_reason := reason\<rparr> else s);
               s2 = s1\<lparr>en_busyOrPending := True\<rparr>
           in if en_removalDebounce s2 then s2
              else s2\<lparr>en_removalDebounce := (reason = RRemoval), en_debounce := Some (en_now s2 + delay)\<rparr>)"

definition scheduleMembershipCheck :: "engine \<Rightarrow> engine" where
  "scheduleMembershipCheck s = s\<lparr>en_settle := Some (en_now s + MEMBERSHIP_SETTLE_MS)\<rparr>"

definition scheduleRetry :: "nat \<Rightarrow> int \<Rightarrow> engine \<Rightarrow> engine" where
  "scheduleRetry gen epoch s =
     (if en_failed s = [] \<or> en_retryArmed s = epoch then s
      else s\<lparr>en_retryArmed := epoch, en_retry := Some (en_now s + RETRY_FAILED_MS, gen, epoch, None)\<rparr>)"

text \<open>\<^verbatim>\<open>#noteRemoval\<close>: the removal takes the next sequence number, its deadline timer is armed,
  and a wait of a rekey that does not cover it is interrupted.\<close>

definition interrupt :: "phase \<Rightarrow> phase" where
  "interrupt p = (case p of PWaitSettle c _ \<Rightarrow> PWaitSettle c True | _ \<Rightarrow> p)"

definition noteRemoval :: "engine \<Rightarrow> engine" where
  "noteRemoval s = s\<lparr>en_seq := Suc (en_seq s),
     en_pendingRemovals := en_pendingRemovals s @ [\<lparr>rm_seq = Suc (en_seq s), rm_due = False, rm_deadline = en_now s + REMOVAL_BOUND_MS\<rparr>],
     en_phase := interrupt (en_phase s)\<rparr>"

text \<open>The deadline timer of a removal.\<close>

definition removal_due :: "nat \<Rightarrow> engine \<Rightarrow> engine" where
  "removal_due sq s =
     (if \<not> (\<exists>r \<in> set (en_pendingRemovals s). rm_seq r = sq \<and> \<not> rm_due r \<and> rm_deadline r \<le> en_now s) then s
      else let s1 = s\<lparr>en_pendingRemovals := map (\<lambda>r. if rm_seq r = sq then r\<lparr>rm_due := True\<rparr> else r) (en_pendingRemovals s)\<rparr>;
               partial_acts = filter (\<lambda>a. snd a < sq) (en_activating s1);
               s2 = s1\<lparr>en_activating := filter (\<lambda>a. snd a \<ge> sq) (en_activating s1)\<rparr>;
               s3 = fold (\<lambda>a. retire_own (own_client s) (fst a)) partial_acts s2
           in if (en_activeEpoch s3 = 0 \<or> en_paused s3) \<and> partial_acts = [] then s3
              else let s4 = (if en_activeEpoch s3 \<noteq> 0 \<and> \<not> en_paused s3 then retire_own (own_client s) (en_activeEpoch s3) s3 else s3)
                   in s4\<lparr>en_paused := True\<rparr>)"

section \<open>Start and stop\<close>

definition start :: "platform \<Rightarrow> self_info \<Rightarrow> engine \<Rightarrow> engine" where
  "start pf self s =
     (if running s \<or> channelID self = 0 \<or> clientID self = '''' \<or> principal self = '''' \<or> device self = '''' then s
      else schedule RStart 0 (s\<lparr>en_self := Some self, en_epoch := epoch_line (issuedEpochs s) (self_key self),
             en_session := b64url (random pf (en_randSeq s)) @ ''.'' @ RATCHET_FEATURE, en_randSeq := Suc (en_randSeq s),
             en_gen := Suc (en_gen s), en_renew := Some (en_now s + RENEW_MS)\<rparr>))"

definition stop_pids :: "self_info \<Rightarrow> (string, pub_state) jmap \<Rightarrow> string list" where
  "stop_pids self pubs = map (\<lambda>slot. senderPid (Some slot)) SLOTS
     @ concat (map (\<lambda>c. map (\<lambda>slot. publicationPid c (Some slot)) SLOTS) (jkeys pubs))
     @ map (\<lambda>slot. publicationPid (clientID self) (Some slot)) SLOTS"

definition stop :: "engine \<Rightarrow> engine" where
  "stop s = (case en_self s of
     None \<Rightarrow> s
   | Some self \<Rightarrow> media (map MForget (stop_pids self (en_publishers s)))
       (s\<lparr>en_gen := Suc (en_gen s), en_debounce := None, en_renew := None, en_retry := None, en_retryArmed := 0, en_settle := None,
          en_self := None, en_publishers := [], en_pending := [], en_failed := [], en_sentTo := [], en_runRetry := None,
          en_paused := False, en_activating := [], en_pendingRemovals := [], en_removalDebounce := False, en_deliveries := [],
          en_activeRecipients := [], en_phase := interrupt (en_phase s)\<rparr>))"

section \<open>Receiving keys\<close>

definition bound :: "engine \<Rightarrow> jsv \<Rightarrow> parsed \<Rightarrow> bool" where
  "bound s control v \<longleftrightarrow> (case (en_self s, roster_find (p_client v) (en_roster s)) of
     (Some self, Some c) \<Rightarrow> inChannel c (channelID self) \<and> unique_id c = field control ''sender''
        \<and> media_device c = field control ''senderDevice''
   | _ \<Rightarrow> False)"

definition control_line :: "jsv \<Rightarrow> string" where
  "control_line control = device_key (str_or_empty (field control ''sender'')) (str_or_empty (field control ''senderDevice''))"

definition control_epoch :: "jsv \<Rightarrow> int" where
  "control_epoch control = num_of (field control ''epoch'')"

definition set_slot :: "string \<Rightarrow> nat \<Rightarrow> int \<Rightarrow> nat \<Rightarrow> slot_keys \<Rightarrow> media_call" where
  "set_slot client n epoch kid keys = MSetKey (publicationPid client (Some (SLOTS ! n))) epoch kid (slot_key keys (SLOTS ! n))"

text \<open>\<^verbatim>\<open>#apply\<close>: the synchronous part, up to the first worker call of the installation.\<close>

definition apply_control :: "jsv \<Rightarrow> parsed \<Rightarrow> engine \<Rightarrow> engine" where
  "apply_control control v s =
     (let line = control_line control; epoch = control_epoch control in
      if epoch \<le> epoch_line (acceptedEpochs s) line then ignore ''stale'' s
      else let s1 = s\<lparr>acceptedEpochs := jset line epoch (acceptedEpochs s),
                     accept_log := accept_log s @ [\<lparr>ac_line = line, ac_epoch = epoch\<rparr>]\<rparr>;
               old = jget (en_publishers s1) (p_client v);
               staleNext = (case old of None \<Rightarrow> 0 | Some st \<Rightarrow> if ps_next st \<noteq> epoch then ps_next st else 0);
               s2 = (if staleNext \<noteq> 0 then media (map (\<lambda>slot. MRetireOne (publicationPid (p_client v) (Some slot)) staleNext) SLOTS) s1 else s1);
               dev = str_or_empty (field control ''senderDevice'');
               base = (case old of
                   Some st \<Rightarrow> if ps_device st = dev then st\<lparr>ps_next := 0\<rparr>
                     else \<lparr>ps_id = en_stateSeq s2, ps_principal = str_or_empty (field control ''sender''), ps_device = dev, ps_epochs = [],
                        ps_members = p_members v, ps_n = p_n v, ps_session = '''', ps_announced = 0, ps_next = 0\<rparr>
                 | None \<Rightarrow> \<lparr>ps_id = en_stateSeq s2, ps_principal = str_or_empty (field control ''sender''), ps_device = dev, ps_epochs = [],
                        ps_members = p_members v, ps_n = p_n v, ps_session = '''', ps_announced = 0, ps_next = 0\<rparr>);
               st' = base\<lparr>ps_members := p_members v, ps_n := p_n v, ps_session := p_session v, ps_announced := epoch\<rparr>;
               s3 = scheduleMembershipCheck (s2\<lparr>en_publishers := jset (p_client v) st' (en_publishers s2), en_stateSeq := Suc (en_stateSeq s2)\<rparr>)
           in media [set_slot (p_client v) 0 epoch (p_kid v) (p_keys v)]
                (s3\<lparr>en_installs := en_installs s3 @ [\<lparr>in_gen = en_gen s3, in_client = p_client v, in_state = ps_id st', in_epoch = epoch,
                   in_value = v, in_next = 0\<rparr>]\<rparr>))"

definition receive :: "jsv \<Rightarrow> engine \<Rightarrow> engine" where
  "receive control s = (case en_self s of
     None \<Rightarrow> ignore ''inactive'' s
   | Some self \<Rightarrow> (case parseMediaKeyControl control (channelID self) of
       Inl reason \<Rightarrow> ignore reason s
     | Inr v \<Rightarrow>
         if field control ''senderDevice'' = JStr (device self) then ignore ''own'' s
         else if \<not> bound s control v then
           (let kept = filter (\<lambda>p. en_now s - pc_at p < PENDING_MS) (en_pending s); s1 = s\<lparr>en_pending := kept\<rparr>
            in if length kept \<ge> MAX_PENDING then ignore ''pending-full'' s1
               else s1\<lparr>en_pending := kept @ [\<lparr>pc_control = control, pc_value = v, pc_at = en_now s, pc_gen = en_gen s\<rparr>]\<rparr>)
         else apply_control control v s))"

definition drainPending :: "engine \<Rightarrow> engine" where
  "drainPending s =
     (let (s', keep) = fold (\<lambda>p (s, keep).
        if pc_gen p \<noteq> en_gen s \<or> en_now s - pc_at p \<ge> PENDING_MS then (s, keep)
        else if bound s (pc_control p) (pc_value p) then (apply_control (pc_control p) (pc_value p) s, keep)
        else (s, keep @ [p])) (en_pending s) (s, [])
      in s'\<lparr>en_pending := keep\<rparr>)"

text \<open>Whether the publisher object an installation started for is still the current one.\<close>

definition current_state :: "engine \<Rightarrow> nat \<Rightarrow> string \<Rightarrow> nat \<Rightarrow> bool" where
  "current_state s gen client st \<longleftrightarrow> gen = en_gen s \<and> map_option ps_id (jget (en_publishers s) client) = Some st"

definition upd_pub :: "string \<Rightarrow> (pub_state \<Rightarrow> pub_state) \<Rightarrow> engine \<Rightarrow> engine" where
  "upd_pub client f s = s\<lparr>en_publishers := jupd client f (en_publishers s)\<rparr>"

text \<open>The completion handler of an installation.\<close>

definition install_done :: "install \<Rightarrow> engine \<Rightarrow> engine" where
  "install_done i s =
     (let client = in_client i; v = in_value i in
      if \<not> current_state s (in_gen i) client (in_state i)
      then media (map (\<lambda>slot. MRetire (publicationPid client (Some slot)) (in_epoch i)) SLOTS) s
      else let st = the (jget (en_publishers s) client);
               all = sort (ps_epochs st @ [in_epoch i]);
               s1 = upd_pub client (\<lambda>st. st\<lparr>ps_epochs := [last all]\<rparr>) s;
               s2 = (if butlast all = [] then s1
                     else s1\<lparr>en_retireTimers := en_retireTimers s1 @ [\<lparr>rt_at = en_now s1 + SWITCH_GRACE_MS, rt_gen = None,
                            rt_pids = map (\<lambda>slot. publicationPid client (Some slot)) SLOTS, rt_through = last (butlast all)\<rparr>]\<rparr>);
               s3 = s2\<lparr>en_applied := Suc (en_applied s2)\<rparr>
           in if in_epoch i = ps_announced st \<and> RATCHET_FEATURE \<in> set (sessionFeatures (JStr (p_session v)))
              then s3\<lparr>en_preinstalls := en_preinstalls s3 @ [\<lparr>pi_gen = in_gen i, pi_client = client, pi_state = in_state i,
                     pi_epoch = in_epoch i, pi_kid = p_kid v, pi_keys = p_keys v, pi_next = None\<rparr>]\<rparr>
              else s3)"

definition drop_nth :: "nat \<Rightarrow> 'a list \<Rightarrow> 'a list" where
  "drop_nth n xs = take n xs @ drop (Suc n) xs"

text \<open>The worker answered the pending call of the \<open>n\<close>-th installation.\<close>

definition install_answer :: "nat \<Rightarrow> bool \<Rightarrow> engine \<Rightarrow> engine" where
  "install_answer n ok s =
     (if n \<ge> length (en_installs s) then s
      else let i = en_installs s ! n; s0 = s\<lparr>en_installs := drop_nth n (en_installs s)\<rparr> in
        if \<not> ok then ignore ''install''
            (media (map (\<lambda>slot. MRetireOne (publicationPid (in_client i) (Some slot)) (in_epoch i)) SLOTS) s0)
        else if Suc (in_next i) \<ge> length SLOTS \<or> \<not> current_state s0 (in_gen i) (in_client i) (in_state i)
        then install_done i s0
        else media [set_slot (in_client i) (Suc (in_next i)) (in_epoch i) (p_kid (in_value i)) (p_keys (in_value i))]
               (s\<lparr>en_installs := (en_installs s)[n := i\<lparr>in_next := Suc (in_next i)\<rparr>]\<rparr>))"

definition set_successor :: "preinstall \<Rightarrow> slot_keys \<Rightarrow> nat \<Rightarrow> media_call" where
  "set_successor p next_keys n = set_slot (pi_client p) n (pi_epoch p + 1) ((pi_kid p + 1) mod 16) next_keys"

definition preinstall_answer :: "platform \<Rightarrow> nat \<Rightarrow> bool \<Rightarrow> engine \<Rightarrow> engine" where
  "preinstall_answer pf n ok s =
     (if n \<ge> length (en_preinstalls s) then s
      else let p = en_preinstalls s ! n; s0 = s\<lparr>en_preinstalls := drop_nth n (en_preinstalls s)\<rparr>;
               successor = pi_epoch p + 1; next_keys = ratchetKeys (hkdf pf) (pi_keys p) in
        if \<not> ok then s0
        else case pi_next p of
          None \<Rightarrow>
            (case jget (en_publishers s) (pi_client p) of
               None \<Rightarrow> s0
             | Some st \<Rightarrow>
                 if \<not> current_state s (pi_gen p) (pi_client p) (pi_state p) \<or> ps_announced st \<noteq> pi_epoch p \<or> ps_next st \<noteq> 0
                   \<or> successor \<le> epoch_line (acceptedEpochs s) (device_key (ps_principal st) (ps_device st)) then s0
                 else media [set_successor p next_keys 0]
                        (upd_pub (pi_client p) (\<lambda>st. st\<lparr>ps_next := successor\<rparr>)
                          (s\<lparr>en_preinstalls := (en_preinstalls s)[n := p\<lparr>pi_next := Some 0\<rparr>]\<rparr>)))
        | Some k \<Rightarrow>
            if Suc k \<ge> length SLOTS \<or> \<not> current_state s (pi_gen p) (pi_client p) (pi_state p)
              \<or> map_option ps_next (jget (en_publishers s) (pi_client p)) \<noteq> Some successor then s0
            else media [set_successor p next_keys (Suc k)]
                   (s\<lparr>en_preinstalls := (en_preinstalls s)[n := p\<lparr>pi_next := Some (Suc k)\<rparr>]\<rparr>))"


section \<open>Distribution\<close>

text \<open>\<^verbatim>\<open>record(r, result)\<close>.\<close>

definition record_result :: "nat \<Rightarrow> int \<Rightarrow> recipient \<Rightarrow> bool \<Rightarrow> engine \<Rightarrow> engine" where
  "record_result gen epoch r ok s =
     (if gen \<noteq> en_gen s then s
      else let s1 = s\<lparr>en_deliveries := jupd epoch (\<lambda>d. if ok then d\<lparr>d_ok := List.insert (rid r) (d_ok d), d_failed := removeAll (rid r) (d_failed d)\<rparr>
                         else d\<lparr>d_failed := List.insert (rid r) (d_failed d)\<rparr>) (en_deliveries s)\<rparr>
           in if en_epoch s1 \<noteq> epoch then s1
              else if ok then s1\<lparr>en_sent := Suc (en_sent s1), en_sentTo := jset (rid r) epoch (en_sentTo s1), en_failed := jdel (rid r) (en_failed s1)\<rparr>
              else let s2 = s1\<lparr>en_failures := Suc (en_failures s1), en_failed := jset (rid r) r (en_failed s1)\<rparr>
                   in if en_activeEpoch s2 = epoch then scheduleRetry gen epoch s2 else s2)"

text \<open>What follows when the last delivery of a distribution settled.\<close>

definition distribution_settled :: "distribution \<Rightarrow> engine \<Rightarrow> engine" where
  "distribution_settled d s = (case ds_retry d of
     None \<Rightarrow> if ds_gen d = en_gen s \<and> en_epoch s = ds_epoch d \<and> en_activeEpoch s = ds_epoch d
             then scheduleRetry (ds_gen d) (ds_epoch d) s else s
   | Some attempt \<Rightarrow>
       if ds_gen d \<noteq> en_gen s \<or> en_epoch s \<noteq> ds_epoch d \<or> en_failed s = []
       then (if en_retryArmed s = ds_epoch d then s\<lparr>en_retryArmed := 0\<rparr> else s)
       else s\<lparr>en_retry := Some (en_now s + min MAX_RETRY_DELAY_MS (RETRY_FAILED_MS * (int attempt + 1)), ds_gen d, ds_epoch d, Some (Suc attempt))\<rparr>)"

text \<open>\<^verbatim>\<open>#distribute\<close>: an epoch whose material is gone sends nothing.\<close>

definition start_distribution :: "nat \<Rightarrow> recipient list \<Rightarrow> int \<Rightarrow> nat option \<Rightarrow> engine \<Rightarrow> engine" where
  "start_distribution gen rs epoch attempt s =
     (case (en_self s, jget (en_deliveries s) epoch) of
        (Some self, Some d) \<Rightarrow>
          let dist = \<lparr>ds_gen = gen, ds_epoch = epoch, ds_queue = rs, ds_flight = [],
                ds_body = buildMediaKeyBody (channelID self) epoch (en_now s div 1000) (clientID self) (en_session s) (d_kid d)
                  (d_members d) (d_count d) (d_keys d), ds_retry = attempt\<rparr>
          in if rs = [] then distribution_settled dist s else s\<lparr>en_dists := en_dists s @ [dist]\<rparr>
      | _ \<Rightarrow> distribution_settled \<lparr>ds_gen = gen, ds_epoch = epoch, ds_queue = [], ds_flight = [], ds_body = JNull, ds_retry = attempt\<rparr> s)"

definition put_dist :: "nat \<Rightarrow> distribution \<Rightarrow> engine \<Rightarrow> engine" where
  "put_dist n d s =
     (if ds_queue d = [] \<and> ds_flight d = [] then distribution_settled d (s\<lparr>en_dists := drop_nth n (en_dists s)\<rparr>)
      else s\<lparr>en_dists := (en_dists s)[n := d]\<rparr>)"

text \<open>A free worker of the pool takes the next recipient.\<close>

definition pump :: "nat \<Rightarrow> engine \<Rightarrow> engine" where
  "pump n s =
     (if n \<ge> length (en_dists s) then s
      else let d = en_dists s ! n in
        case ds_queue d of
          [] \<Rightarrow> s
        | r # rs \<Rightarrow>
            if length (ds_flight d) \<ge> CONCURRENCY then s
            else if ds_gen d \<noteq> en_gen s \<or> invisible s then put_dist n (d\<lparr>ds_queue := rs\<rparr>) (record_result (ds_gen d) (ds_epoch d) r False s)
            else if \<not> isRecipient s r then put_dist n (d\<lparr>ds_queue := rs\<rparr>) s
            else (s\<lparr>send_log := send_log s @ [\<lparr>sn_gen = ds_gen d, sn_epoch = ds_epoch d, sn_rid = rid r\<rparr>],
                    en_dists := (en_dists s)[n := d\<lparr>ds_queue := rs, ds_flight := r # ds_flight d\<rparr>]\<rparr>))"

text \<open>A send settled: admitted, refused or timed out.\<close>

definition send_answer :: "nat \<Rightarrow> nat \<Rightarrow> bool \<Rightarrow> engine \<Rightarrow> engine" where
  "send_answer n m ok s =
     (if n \<ge> length (en_dists s) \<or> m \<ge> length (ds_flight (en_dists s ! n)) then s
      else let d = en_dists s ! n; r = ds_flight d ! m
           in put_dist n (d\<lparr>ds_flight := drop_nth m (ds_flight d)\<rparr>) (record_result (ds_gen d) (ds_epoch d) r ok s))"

text \<open>The retry timer: the first attempt re-checks the epoch when the timer fires.\<close>

definition retry_timer :: "engine \<Rightarrow> engine" where
  "retry_timer s = (case en_retry s of
     None \<Rightarrow> s
   | Some (t, gen, epoch, attempt) \<Rightarrow>
       if t > en_now s then s
       else let s1 = s\<lparr>en_retry := None\<rparr>; n = (case attempt of None \<Rightarrow> 1 | Some k \<Rightarrow> k) in
         if gen \<noteq> en_gen s1 \<or> en_epoch s1 \<noteq> epoch then (if en_retryArmed s1 = epoch then s1\<lparr>en_retryArmed := 0\<rparr> else s1)
         else let again = filter (\<lambda>r. rid r \<in> rid ` set (en_recipients s1)) (jvals (en_failed s1)) in
           if again = [] then (if en_retryArmed s1 = epoch then s1\<lparr>en_retryArmed := 0\<rparr> else s1)
           else start_distribution gen again epoch (Some n) s1)"

section \<open>The rekey routine\<close>

definition ratchetCapable :: "engine \<Rightarrow> string \<Rightarrow> bool" where
  "ratchetCapable s i =
     (let mine = filter (\<lambda>st. device_key (ps_principal st) (ps_device st) = i) (jvals (en_publishers s)) in
      mine \<noteq> [] \<and> list_all (\<lambda>st. RATCHET_FEATURE \<in> set (sessionFeatures (JStr (ps_session st)))) mine
      \<and> list_all (\<lambda>c. \<not> ((case en_self s of None \<Rightarrow> False | Some self \<Rightarrow> inChannel c (channelID self))
            \<and> is_string (unique_id c) \<and> is_string (media_device c)
            \<and> device_key (str_or_empty (unique_id c)) (str_or_empty (media_device c)) = i)
          \<or> jhas (en_publishers s) (client_string (client_id c))) (en_roster s))"

definition ratchetHead :: "engine \<Rightarrow> rekey_reason \<Rightarrow> string list \<Rightarrow> string \<Rightarrow> delivery option" where
  "ratchetHead s reason rids selfKey =
     (let act = en_activeEpoch s in
      if (reason \<noteq> RMembership \<and> reason \<noteq> RPublication) \<or> en_pendingRemovals s \<noteq> [] \<or> en_paused s then None
      else if act = 0 \<or> en_epoch s \<noteq> act \<or> epoch_line (issuedEpochs s) selfKey \<noteq> act then None
      else case jget (en_deliveries s) act of
          None \<Rightarrow> None
        | Some head \<Rightarrow>
            if list_all (\<lambda>i. i \<in> set rids \<and> i \<in> set (d_ok head) \<and> ratchetCapable s i) (d_chain head) then Some head else None)"

text \<open>\<^verbatim>\<open>run\<close> ends: normally, or by a worker call that failed.\<close>

definition run_end :: "engine \<Rightarrow> engine" where
  "run_end s = s\<lparr>en_runFailures := 0, en_runRetry := None, en_busy := False, en_phase := PIdle\<rparr>"

definition run_fail :: "engine \<Rightarrow> engine" where
  "run_fail s =
     (let s0 = s\<lparr>en_busy := False, en_phase := PIdle\<rparr> in
      if en_runGen s0 \<noteq> en_gen s0 then s0
      else let s1 = s0\<lparr>en_lastError := True\<rparr> in
        if en_pendingRemovals s1 = [] then s1
        else s1\<lparr>en_runFailures := Suc (en_runFailures s1),
                en_runRetry := Some (en_now s1 + min RETRY_REKEY_MAX_MS (100 * 2 ^ min (en_runFailures s1) 10))\<rparr>)"

text \<open>The keys of the new epoch are at hand: number the epoch, pick its key slot, go on to the
  membership digest.\<close>

definition number_epoch :: "rekey_ctx \<Rightarrow> engine \<Rightarrow> engine" where
  "number_epoch c s =
     (let selfKey = self_key (k_self c); rids = map rid (k_recipients c);
          epoch = (case k_head c of Some _ \<Rightarrow> k_previous c + 1
                   | None \<Rightarrow> max (en_epoch s + 2) (max (epoch_line (issuedEpochs s) selfKey + 2) (en_now s)));
          kid = (case k_head c of Some h \<Rightarrow> (d_kid h + 1) mod 16 | None \<Rightarrow> (en_kid s + 2) mod 16);
          chain = remdups ((case k_head c of Some h \<Rightarrow> d_chain h | None \<Rightarrow> []) @ rids)
      in s\<lparr>issuedEpochs := jset selfKey epoch (issuedEpochs s),
           issue_log := issue_log s @ [\<lparr>is_gen = k_gen c, is_epoch = epoch, is_created = k_created c, is_rids = rids,
              is_parent = (case k_head c of Some _ \<Rightarrow> Some (k_previous c) | None \<Rightarrow> None)\<rparr>],
           en_phase := PDigest (c\<lparr>k_epoch := epoch, k_kid := kid, k_chain := chain\<rparr>)\<rparr>)"

definition rekey_begin :: "platform \<Rightarrow> engine \<Rightarrow> engine" where
  "rekey_begin pf s =
     (case en_self s of
        None \<Rightarrow> run_end s
      | Some self \<Rightarrow>
          let s1 = s\<lparr>en_seq := Suc (en_seq s), en_reason := RNone, en_busyOrPending := False\<rparr>;
              reason = en_reason s in
          if invisible s1 then run_end (s1\<lparr>en_invisible := Suc (en_invisible s1)\<rparr>)
          else let rs = recipientsOf (en_roster s1) self;
                   s2 = s1\<lparr>en_recipients := rs\<rparr>;
                   head = ratchetHead s2 reason (map rid rs) (self_key self);
                   c = \<lparr>k_gen = en_runGen s2, k_self = self, k_created = en_seq s2, k_urgent = (en_pendingRemovals s2 \<noteq> []),
                        k_previous = en_activeEpoch s2, k_recipients = rs, k_head = head, k_keys = [], k_epoch = 0, k_kid = 0,
                        k_chain = [], k_members = ''''\<rparr>
               in case head of
                    Some h \<Rightarrow> s2\<lparr>en_phase := PKeys (c\<lparr>k_keys := ratchetKeys (hkdf pf) (d_keys h)\<rparr>)\<rparr>
                  | None \<Rightarrow> number_epoch (c\<lparr>k_keys := map (\<lambda>n. (SLOTS ! n, random pf (en_randSeq s2 + n))) [0..<length SLOTS]\<rparr>)
                      (s2\<lparr>en_randSeq := en_randSeq s2 + length SLOTS\<rparr>))"

text \<open>The routine returned: run it again when something asked for it.\<close>

definition rekey_return :: "platform \<Rightarrow> engine \<Rightarrow> engine" where
  "rekey_return pf s =
     (if en_again s \<and> en_runGen s = en_gen s then rekey_begin pf (s\<lparr>en_again := False\<rparr>) else run_end s)"

definition run :: "platform \<Rightarrow> engine \<Rightarrow> engine" where
  "run pf s =
     (if en_busy s then s\<lparr>en_again := True\<rparr>
      else rekey_begin pf (s\<lparr>en_busy := True, en_again := False, en_runGen := en_gen s\<rparr>))"

text \<open>Back to the previous epoch's material (shared by the two ways to give an epoch up).\<close>

definition give_up_epoch :: "rekey_ctx \<Rightarrow> bool \<Rightarrow> engine \<Rightarrow> engine" where
  "give_up_epoch c clear_retry s =
     (let s1 = retire_own (clientID (k_self c)) (k_epoch c) s;
          s2 = (if en_epoch s1 = k_epoch c
                then let back = (if k_previous c \<noteq> 0 then k_previous c else k_epoch c);
                         s' = s1\<lparr>en_epoch := back, en_sentTo := [], en_failed := []\<rparr>;
                         s'' = (if clear_retry then s'\<lparr>en_retry := None, en_retryArmed := 0\<rparr> else s')
                     in case jget (en_deliveries s'') back of None \<Rightarrow> s''
                        | Some d \<Rightarrow> s''\<lparr>en_kid := d_kid d, en_members := d_members d\<rparr>
                else s1)
      in s2\<lparr>en_deliveries := jdel (k_epoch c) (en_deliveries s2), en_again := True\<rparr>)"

text \<open>The decision to activate, and the first worker call of the activation.\<close>

definition newer_due :: "rekey_ctx \<Rightarrow> engine \<Rightarrow> bool" where
  "newer_due c s \<longleftrightarrow> (\<exists>r \<in> set (en_pendingRemovals s). rm_due r \<and> rm_seq r > k_created c)"

definition activate_stage :: "platform \<Rightarrow> rekey_ctx \<Rightarrow> engine \<Rightarrow> engine" where
  "activate_stage pf c s =
     (if k_gen c \<noteq> en_gen s \<or> en_epoch s \<noteq> k_epoch c then rekey_return pf s
      else if newer_due c s then rekey_return pf (give_up_epoch c False s)
      else media [MActivate (senderPid (Some (SLOTS ! 0))) (k_epoch c)]
             (s\<lparr>en_activating := en_activating s @ [(k_epoch c, k_created c)], en_phase := PActivate c 0\<rparr>))"

definition newer_removal :: "rekey_ctx \<Rightarrow> engine \<Rightarrow> bool" where
  "newer_removal c s \<longleftrightarrow> (\<exists>r \<in> set (en_pendingRemovals s). rm_seq r > k_created c)"

definition after_install :: "platform \<Rightarrow> rekey_ctx \<Rightarrow> engine \<Rightarrow> engine" where
  "after_install pf c s =
     (if k_gen c \<noteq> en_gen s then rekey_return pf s
      else let epoch = k_epoch c;
               s1 = s\<lparr>en_epoch := epoch, en_kid := k_kid c, en_members := k_members c, en_epochs := Suc (en_epochs s),
                      en_failed := [], en_sentTo := [],
                      en_deliveries := jset epoch \<lparr>d_ok = [], d_failed = [], d_kid = k_kid c, d_keys = k_keys c, d_members = k_members c,
                        d_count = length (k_recipients c) + 1, d_chain = k_chain c,
                        d_inherited = (case k_head c of None \<Rightarrow> [] | Some h \<Rightarrow> d_ok h)\<rparr> (en_deliveries s)\<rparr>;
               s2 = start_distribution (k_gen c) (k_recipients c) epoch None s1;
               covered = filter (\<lambda>r. rm_seq r < k_created c) (en_pendingRemovals s2)
           in if k_previous c = 0 \<or> k_head c \<noteq> None
              then (if newer_removal c s2 then rekey_return pf (give_up_epoch c True s2) else activate_stage pf c s2)
              else if k_urgent c \<and> covered \<noteq> [] then s2\<lparr>en_phase := PWaitUrgent c\<rparr>
              else if newer_removal c s2 then rekey_return pf (give_up_epoch c True s2)
              else s2\<lparr>en_phase := PWaitSettle c False\<rparr>)"

text \<open>The \<open>n\<close>-th of the eight key writes: the sending publication and its echo, slot by slot.\<close>

definition own_write :: "rekey_ctx \<Rightarrow> nat \<Rightarrow> media_call" where
  "own_write c n = MSetKey (own_pids (clientID (k_self c)) ! n) (k_epoch c) (k_kid c) (slot_key (k_keys c) (SLOTS ! (n div 2)))"

text \<open>Every slot activated: the epoch is the active one; a removal newer than it whose deadline
  passed meanwhile pauses the sender, older removals are satisfied.\<close>

definition become_active :: "rekey_ctx \<Rightarrow> engine \<Rightarrow> engine" where
  "become_active c s =
     (let epoch = k_epoch c; client = clientID (k_self c);
          s1 = scheduleRetry (k_gen c) epoch (s\<lparr>en_activeEpoch := epoch, en_activeRecipients := k_recipients c\<rparr>);
          s2 = (if newer_due c s1 then retire_own client epoch (s1\<lparr>en_paused := True\<rparr>) else s1\<lparr>en_paused := False\<rparr>);
          s3 = s2\<lparr>en_deliveries := filter (\<lambda>(old, _). \<not> old < epoch) (en_deliveries s2),
                  en_pendingRemovals := filter (\<lambda>r. rm_seq r > k_created c) (en_pendingRemovals s2)\<rparr>;
          s4 = (if en_pendingRemovals s3 \<noteq> [] then s3\<lparr>en_again := True\<rparr> else s3)
      in if k_previous c \<noteq> 0
         then s4\<lparr>en_retireTimers := en_retireTimers s4 @ [\<lparr>rt_at = en_now s4 + SENDER_RETIRE_MS, rt_gen = Some (k_gen c),
                rt_pids = own_pids client, rt_through = k_previous c\<rparr>]\<rparr> else s4)"

definition after_activate :: "platform \<Rightarrow> rekey_ctx \<Rightarrow> engine \<Rightarrow> engine" where
  "after_activate pf c s =
     (let s0 = s\<lparr>en_activating := filter (\<lambda>a. fst a > k_epoch c) (en_activating s)\<rparr>
      in rekey_return pf (if k_gen c \<noteq> en_gen s0 then s0 else become_active c s0))"

text \<open>The routine resumes: what it awaited arrived (\<open>ok\<close>) or failed.\<close>

definition resume :: "platform \<Rightarrow> bool \<Rightarrow> engine \<Rightarrow> engine" where
  "resume pf ok s = (case en_phase s of
     PIdle \<Rightarrow> s
   | PKeys c \<Rightarrow> if \<not> ok then run_fail s else if k_gen c \<noteq> en_gen s then rekey_return pf s else number_epoch c s
   | PDigest c \<Rightarrow>
       if \<not> ok then run_fail s
       else if k_gen c \<noteq> en_gen s then rekey_return pf s
       else let c1 = c\<lparr>k_members := membershipDigest (sha pf) (map (\<lambda>r. (r_principal r, r_device r)) (k_recipients c)
                  @ [(principal (k_self c), device (k_self c))])\<rparr>
            in media [own_write c1 0] (s\<lparr>en_phase := PInstall c1 0\<rparr>)
   | PInstall c n \<Rightarrow>
       if \<not> ok then run_fail s
       else if Suc n \<ge> 2 * length SLOTS then after_install pf c s
       else if Suc n mod 2 = 0 \<and> k_gen c \<noteq> en_gen s then rekey_return pf s
       else media [own_write c (Suc n)] (s\<lparr>en_phase := PInstall c (Suc n)\<rparr>)
   | PWaitUrgent c \<Rightarrow> activate_stage pf c s
   | PWaitSettle c interrupted \<Rightarrow>
       if interrupted then rekey_return pf (if k_gen c = en_gen s then give_up_epoch c True s else s)
       else activate_stage pf c s
   | PActivate c n \<Rightarrow>
       if \<not> ok then run_fail s
       else if Suc n \<ge> length SLOTS then after_activate pf c s
       else media [MActivate (senderPid (Some (SLOTS ! Suc n))) (k_epoch c)] (s\<lparr>en_phase := PActivate c (Suc n)\<rparr>))"

section \<open>Roster\<close>

definition publisher_gone :: "roster_entry list \<Rightarrow> self_info \<Rightarrow> string \<times> pub_state \<Rightarrow> bool" where
  "publisher_gone roster self p \<longleftrightarrow> (case roster_find (fst p) roster of
     None \<Rightarrow> True
   | Some c \<Rightarrow> \<not> inChannel c (channelID self) \<or> unique_id c \<noteq> JStr (ps_principal (snd p)) \<or> media_device c \<noteq> JStr (ps_device (snd p)))"

definition recipient_key :: "recipient list \<Rightarrow> string" where
  "recipient_key rs = (case rs of [] \<Rightarrow> '''' | r # rest \<Rightarrow> rid r @ concat (map (\<lambda>r. newline # rid r) rest))"

text \<open>Publishers that left, or whose device or channel changed, lose their keys.\<close>

definition forget_gone :: "self_info \<Rightarrow> engine \<Rightarrow> engine" where
  "forget_gone self s =
     (let gone = filter (publisher_gone (en_roster s) self) (en_publishers s)
      in media (concat (map (\<lambda>(c, _). map (\<lambda>slot. MForget (publicationPid c (Some slot))) SLOTS) gone))
           (s\<lparr>en_publishers := filter (\<lambda>p. \<not> publisher_gone (en_roster s) self p) (en_publishers s)\<rparr>))"

definition recipients_changed :: "recipient list \<Rightarrow> engine \<Rightarrow> engine" where
  "recipients_changed rs s =
     (if recipient_key rs = en_recipientKey s then s
      else let left = filter (\<lambda>r. rid r \<notin> rid ` set rs) (en_recipients s);
               s1 = (if left \<noteq> [] then noteRemoval s else s)
           in schedule (if left \<noteq> [] then RRemoval else RMembership) DEBOUNCE_MS
                (s1\<lparr>en_recipientKey := recipient_key rs, en_recipients := rs\<rparr>))"

definition setRoster :: "roster_entry list \<Rightarrow> engine \<Rightarrow> engine" where
  "setRoster clients s =
     (let s0 = s\<lparr>en_roster := clients\<rparr> in
      case en_self s0 of
        None \<Rightarrow> s0
      | Some self \<Rightarrow>
          if invisible s0 then s0\<lparr>en_invisible := Suc (en_invisible s0)\<rparr>
          else let s1 = scheduleMembershipCheck (s0\<lparr>en_rosterAt := en_now s0\<rparr>)
               in recipients_changed (recipientsOf (en_roster s1) self) (drainPending (forget_gone self s1)))"

definition publicationsChanged :: "engine \<Rightarrow> engine" where
  "publicationsChanged s = (if running s then schedule RPublication DEBOUNCE_MS s else s)"

section \<open>Timers and membership warnings\<close>

definition debounce_timer :: "platform \<Rightarrow> engine \<Rightarrow> engine" where
  "debounce_timer pf s = (case en_debounce s of
     Some t \<Rightarrow> if t \<le> en_now s then run pf (s\<lparr>en_debounce := None, en_removalDebounce := False\<rparr>) else s
   | None \<Rightarrow> s)"

definition renew_timer :: "engine \<Rightarrow> engine" where
  "renew_timer s = (case en_renew s of
     Some t \<Rightarrow> if t \<le> en_now s then schedule RRenewal 0 (s\<lparr>en_renew := Some (t + RENEW_MS)\<rparr>) else s
   | None \<Rightarrow> s)"

definition run_retry_timer :: "platform \<Rightarrow> engine \<Rightarrow> engine" where
  "run_retry_timer pf s = (case en_runRetry s of
     Some t \<Rightarrow> if t \<le> en_now s then run pf (s\<lparr>en_runRetry := None\<rparr>) else s
   | None \<Rightarrow> s)"

definition retire_timer_fired :: "nat \<Rightarrow> engine \<Rightarrow> engine" where
  "retire_timer_fired n s =
     (if n \<ge> length (en_retireTimers s) then s
      else let t = en_retireTimers s ! n; s1 = s\<lparr>en_retireTimers := drop_nth n (en_retireTimers s)\<rparr> in
        if rt_at t > en_now s then s
        else if rt_gen t \<noteq> None \<and> rt_gen t \<noteq> Some (en_gen s) then s1
        else media (map (\<lambda>pid. MRetire pid (rt_through t)) (rt_pids t)) s1)"

definition settle_timer :: "platform \<Rightarrow> engine \<Rightarrow> engine" where
  "settle_timer pf s = (case (en_settle s, en_self s) of
     (Some t, Some self) \<Rightarrow>
       if t > en_now s then s
       else let s1 = s\<lparr>en_settle := None\<rparr> in
         if en_now s1 - en_rosterAt s1 < MEMBERSHIP_SETTLE_MS - 50 then s1
         else s1\<lparr>en_checks := en_checks s1 @ [(en_gen s1, membershipDigest (sha pf) (channelDevices (en_roster s1) (channelID self)))]\<rparr>
   | _ \<Rightarrow> s)"

definition check_done :: "engine \<Rightarrow> engine" where
  "check_done s = (case en_checks s of
     [] \<Rightarrow> s
   | (gen, own) # rest \<Rightarrow>
       let s1 = s\<lparr>en_checks := rest\<rparr> in
       if gen \<noteq> en_gen s1 then s1
       else s1\<lparr>en_mismatch := map (\<lambda>(c, st). (c, ps_principal st))
              (filter (\<lambda>(_, st). ps_members st \<noteq> '''' \<and> ps_members st \<noteq> own) (en_publishers s1))\<rparr>)"

section \<open>Status\<close>

definition verifiedPublisher :: "string \<Rightarrow> engine \<Rightarrow> string" where
  "verifiedPublisher client s = (case jget (en_publishers s) client of
     None \<Rightarrow> ''''
   | Some st \<Rightarrow>
       if ps_epochs st = [] then ''''
       else case (roster_find client (en_roster s), en_self s) of
           (Some c, Some self) \<Rightarrow> if inChannel c (channelID self) \<and> unique_id c = JStr (ps_principal st) \<and> media_device c = JStr (ps_device st)
             then ps_principal st else ''''
         | _ \<Rightarrow> '''')"

definition publisher_ready :: "string \<Rightarrow> engine \<Rightarrow> bool" where
  "publisher_ready client s = (case jget (en_publishers s) client of
     None \<Rightarrow> False
   | Some st \<Rightarrow> ps_announced st \<noteq> 0 \<and> ps_announced st \<in> set (ps_epochs st))"

datatype engine_state = SOff | SKeying | SPaused | SPartial | SEncrypted

definition holds_active :: "engine \<Rightarrow> string \<Rightarrow> bool" where
  "holds_active s i = (case jget (en_deliveries s) (en_activeEpoch s) of None \<Rightarrow> False
     | Some d \<Rightarrow> i \<in> set (d_ok d) \<or> i \<in> set (d_inherited d))"

definition status_current :: "engine \<Rightarrow> recipient list" where
  "status_current s = filter (isRecipient s) (en_activeRecipients s)"

definition status_failed :: "engine \<Rightarrow> recipient list" where
  "status_failed s = (case jget (en_deliveries s) (en_activeEpoch s) of None \<Rightarrow> []
     | Some d \<Rightarrow> filter (\<lambda>r. rid r \<in> set (d_failed d) \<and> \<not> holds_active s (rid r)) (status_current s))"

definition keyHolders :: "engine \<Rightarrow> recipient list" where
  "keyHolders s = filter (\<lambda>r. holds_active s (rid r)) (status_current s)"

definition waiting :: "engine \<Rightarrow> nat" where
  "waiting s = (case jget (en_deliveries s) (en_activeEpoch s) of None \<Rightarrow> 0
     | Some d \<Rightarrow> length (filter (\<lambda>r. isRecipient s r \<and> rid r \<notin> set (d_ok d) \<and> rid r \<notin> set (d_inherited d)
           \<and> rid r \<notin> set (d_failed d)) (en_activeRecipients s)))"

definition status :: "engine \<Rightarrow> engine_state" where
  "status s = (if \<not> running s then SOff else if en_activeEpoch s = 0 then SKeying else if en_paused s then SPaused
     else if status_failed s \<noteq> [] then SPartial else SEncrypted)"

section \<open>The engine as a machine\<close>

datatype engine_event =
    VStart self_info
  | VStop
  | VRoster "roster_entry list"
  | VPublications
  | VReceive jsv
  | VDebounce
  | VRenew
  | VRunRetry
  | VRemovalDue nat
  | VRetry
  | VRetire nat
  | VSettle
  | VCheckDone
  | VResume bool
  | VPump nat
  | VSendAnswer nat nat bool
  | VInstall nat bool
  | VPreinstall nat bool
  | VTick int

fun engine_step :: "platform \<Rightarrow> engine_event \<Rightarrow> engine \<Rightarrow> engine" where
  "engine_step pf (VStart self) s = start pf self s"
| "engine_step pf VStop s = stop s"
| "engine_step pf (VRoster clients) s = setRoster clients s"
| "engine_step pf VPublications s = publicationsChanged s"
| "engine_step pf (VReceive control) s = receive control s"
| "engine_step pf VDebounce s = debounce_timer pf s"
| "engine_step pf VRenew s = renew_timer s"
| "engine_step pf VRunRetry s = run_retry_timer pf s"
| "engine_step pf (VRemovalDue sq) s = removal_due sq s"
| "engine_step pf VRetry s = retry_timer s"
| "engine_step pf (VRetire n) s = retire_timer_fired n s"
| "engine_step pf VSettle s = settle_timer pf s"
| "engine_step pf VCheckDone s = check_done s"
| "engine_step pf (VResume ok) s = resume pf ok s"
| "engine_step pf (VPump n) s = pump n s"
| "engine_step pf (VSendAnswer n m ok) s = send_answer n m ok s"
| "engine_step pf (VInstall n ok) s = install_answer n ok s"
| "engine_step pf (VPreinstall n ok) s = preinstall_answer pf n ok s"
| "engine_step pf (VTick d) s = s\<lparr>en_now := en_now s + d\<rparr>"

definition engine_run :: "platform \<Rightarrow> engine_event list \<Rightarrow> engine \<Rightarrow> engine" where
  "engine_run pf es s = fold (engine_step pf) es s"

end
