(* ===== verification/Media_Key_Safety.thy ===== *)
theory Media_Key_Safety
  imports Media_Key_Engine
begin

text \<open>
  What the media key engine guarantees on every interleaving of roster changes, worker
  answers, deliveries and timers: the key of an epoch is sent only to the devices that were
  recipients when the epoch was created, nobody else can derive it either, epochs never
  repeat, a removal whose deadline passed leaves no usable sending epoch behind, and received
  epochs of a device only ever go up.
\<close>

section \<open>Steps that leave the issued epochs alone\<close>

definition still :: "engine \<Rightarrow> engine \<Rightarrow> bool" where
  "still s s' \<longleftrightarrow> en_gen s' = en_gen s \<and> en_self s' = en_self s \<and> en_epoch s' = en_epoch s \<and> en_failed s' = en_failed s
     \<and> en_deliveries s' = en_deliveries s \<and> en_phase s' = en_phase s \<and> en_dists s' = en_dists s \<and> issue_log s' = issue_log s
     \<and> send_log s' = send_log s \<and> issuedEpochs s' = issuedEpochs s \<and> en_runGen s' = en_runGen s
     \<and> en_paused s' = en_paused s \<and> en_activeEpoch s' = en_activeEpoch s \<and> en_pendingRemovals s' = en_pendingRemovals s
     \<and> en_seq s' = en_seq s \<and> en_activating s' = en_activating s \<and> en_busy s' = en_busy s"

lemma still_refl [simp]: "still s s"
  by (simp add: still_def)

lemma still_trans: "still s s' \<Longrightarrow> still s' s'' \<Longrightarrow> still s s''"
  by (simp add: still_def)

lemma still_simps [simp]:
  "still s (media cs s') = still s s'"
  "still s (ignore r s') = still s s'"
  "still s (scheduleMembershipCheck s') = still s s'"
  "still s (scheduleRetry g e s') = still s s'"
  "still s (upd_pub c f s') = still s s'"
  by (simp_all add: still_def media_def ignore_def scheduleMembershipCheck_def scheduleRetry_def upd_pub_def)

lemma schedule_still [simp]: "still s (schedule r d s') = still s s'"
  by (simp add: schedule_def Let_def still_def)

lemma still_updates [simp]:
  "still s (s'\<lparr>acceptedEpochs := a\<rparr>) = still s s'"
  "still s (s'\<lparr>acceptedEpochs := a, accept_log := l\<rparr>) = still s s'"
  "still s (s'\<lparr>en_publishers := p\<rparr>) = still s s'"
  "still s (s'\<lparr>en_publishers := p, en_stateSeq := n\<rparr>) = still s s'"
  "still s (s'\<lparr>en_installs := i\<rparr>) = still s s'"
  "still s (s'\<lparr>en_preinstalls := pre\<rparr>) = still s s'"
  "still s (s'\<lparr>en_pending := q\<rparr>) = still s s'"
  "still s (s'\<lparr>en_retireTimers := rt\<rparr>) = still s s'"
  "still s (s'\<lparr>en_applied := n\<rparr>) = still s s'"
  "still s (s'\<lparr>en_settle := st\<rparr>) = still s s'"
  "still s (s'\<lparr>en_checks := ch\<rparr>) = still s s'"
  "still s (s'\<lparr>en_mismatch := mm\<rparr>) = still s s'"
  "still s (s'\<lparr>en_renew := rn\<rparr>) = still s s'"
  "still s (s'\<lparr>en_retry := rt'\<rparr>) = still s s'"
  "still s (s'\<lparr>en_retryArmed := ra\<rparr>) = still s s'"
  "still s (s'\<lparr>en_now := t\<rparr>) = still s s'"
  "still s (s'\<lparr>en_debounce := db, en_removalDebounce := rb\<rparr>) = still s s'"
  "still s (s'\<lparr>en_runRetry := rr\<rparr>) = still s s'"
  "still s (s'\<lparr>en_again := ag\<rparr>) = still s s'"
  by (simp_all add: still_def)

lemma apply_control_still [simp]: "still s (apply_control c v s') = still s s'"
  by (simp add: apply_control_def Let_def)

lemma receive_still [simp]: "still s (receive c s') = still s s'"
  by (auto simp: receive_def Let_def split: option.split sum.split)

lemma drain_fold_still:
  "still s (fst (fold (\<lambda>p (s, keep).
        if pc_gen p \<noteq> en_gen s \<or> en_now s - pc_at p \<ge> PENDING_MS then (s, keep)
        else if bound s (pc_control p) (pc_value p) then (apply_control (pc_control p) (pc_value p) s, keep)
        else (s, keep @ [p])) ps (s', k))) = still s s'"
  by (induction ps arbitrary: s' k) auto

lemma drainPending_still [simp]: "still s (drainPending s') = still s s'"
  using drain_fold_still [of s "en_pending s'" s' "[]"] by (simp add: drainPending_def split_beta)

lemma install_answer_still [simp]: "still s (install_answer n ok s') = still s s'"
  by (simp add: install_answer_def install_done_def Let_def)

lemma preinstall_answer_still [simp]: "still s (preinstall_answer pf n ok s') = still s s'"
  by (simp add: preinstall_answer_def Let_def split: option.split)

lemma timers_still [simp]:
  "still s (renew_timer s') = still s s'" "still s (settle_timer pf s') = still s s'" "still s (check_done s') = still s s'"
  "still s (retire_timer_fired n s') = still s s'" "still s (publicationsChanged s') = still s s'"
  by (simp_all add: renew_timer_def settle_timer_def check_done_def retire_timer_fired_def publicationsChanged_def Let_def
      split: option.split list.split)

lemma distribution_settled_still [simp]: "still s (distribution_settled d s') = still s s'"
  by (simp add: distribution_settled_def split: option.split)

section \<open>Issued epochs\<close>

definition issued :: "engine \<Rightarrow> nat \<Rightarrow> int \<Rightarrow> string set \<Rightarrow> bool" where
  "issued s g e R \<longleftrightarrow> (\<exists>i \<in> set (issue_log s). is_gen i = g \<and> is_epoch i = e \<and> R \<subseteq> set (is_rids i))"

text \<open>An issue of that epoch whose recipients all lie in a set.\<close>

definition issued_within :: "engine \<Rightarrow> nat \<Rightarrow> int \<Rightarrow> string set \<Rightarrow> bool" where
  "issued_within s g e R \<longleftrightarrow> (\<exists>i \<in> set (issue_log s). is_gen i = g \<and> is_epoch i = e \<and> set (is_rids i) \<subseteq> R)"

definition last_issued :: "engine \<Rightarrow> int" where
  "last_issued s = (case en_self s of None \<Rightarrow> 0 | Some self \<Rightarrow> epoch_line (issuedEpochs s) (self_key self))"

definition ctx_ok :: "engine \<Rightarrow> rekey_ctx \<Rightarrow> bool" where
  "ctx_ok s c \<longleftrightarrow> k_gen c = en_gen s \<longrightarrow> en_self s = Some (k_self c) \<and> issued s (k_gen c) (k_epoch c) (rid ` set (k_recipients c))
     \<and> issued_within s (k_gen c) (k_epoch c) (set (k_chain c))"

fun phase_ok :: "engine \<Rightarrow> phase \<Rightarrow> bool" where
  "phase_ok s PIdle = True"
| "phase_ok s (PKeys c) = (k_gen c = en_gen s \<longrightarrow> en_self s = Some (k_self c) \<and>
     (\<exists>h. k_head c = Some h \<and> set (d_chain h) \<subseteq> rid ` set (k_recipients c)
        \<and> issued_within s (k_gen c) (k_previous c) (set (d_chain h))) \<and> last_issued s = k_previous c)"
| "phase_ok s (PDigest c) = ctx_ok s c"
| "phase_ok s (PInstall c n) = ctx_ok s c"
| "phase_ok s (PWaitUrgent c) = ctx_ok s c"
| "phase_ok s (PWaitSettle c b) = ctx_ok s c"
| "phase_ok s (PActivate c n) = ctx_ok s c"

fun phase_gen :: "phase \<Rightarrow> nat option" where
  "phase_gen PIdle = None"
| "phase_gen (PKeys c) = Some (k_gen c)"
| "phase_gen (PDigest c) = Some (k_gen c)"
| "phase_gen (PInstall c n) = Some (k_gen c)"
| "phase_gen (PWaitUrgent c) = Some (k_gen c)"
| "phase_gen (PWaitSettle c b) = Some (k_gen c)"
| "phase_gen (PActivate c n) = Some (k_gen c)"

definition issue_inv :: "engine \<Rightarrow> bool" where
  "issue_inv s \<longleftrightarrow>
     (\<forall>i \<in> set (issue_log s). is_gen i \<le> en_gen s \<and> (is_gen i = en_gen s \<longrightarrow> en_self s \<noteq> None \<and> is_epoch i \<le> last_issued s))
     \<and> sorted_wrt (\<lambda>i j. is_gen i < is_gen j \<or> is_gen i = is_gen j \<and> is_epoch i < is_epoch j) (issue_log s)
     \<and> (\<forall>i \<in> set (issue_log s). \<forall>e. is_parent i = Some e \<longrightarrow> issued_within s (is_gen i) e (set (is_rids i)))
     \<and> (\<forall>e d. jget (en_deliveries s) e = Some d \<longrightarrow> issued_within s (en_gen s) e (set (d_chain d)))
     \<and> (\<forall>d \<in> set (en_dists s). issued s (ds_gen d) (ds_epoch d) (rid ` set (ds_queue d @ ds_flight d)))
     \<and> (\<forall>r \<in> set (jvals (en_failed s)). issued s (en_gen s) (en_epoch s) {rid r})
     \<and> (\<forall>n \<in> set (send_log s). issued s (sn_gen n) (sn_epoch n) {sn_rid n})
     \<and> phase_ok s (en_phase s) \<and> (\<forall>g. phase_gen (en_phase s) = Some g \<longrightarrow> g \<le> en_gen s) \<and> en_runGen s \<le> en_gen s
     \<and> (en_self s = None \<longrightarrow> en_deliveries s = [] \<and> en_failed s = [])"

lemma issued_cong: "issue_log s' = issue_log s \<Longrightarrow> issued s' = issued s \<and> issued_within s' = issued_within s"
  by (simp add: fun_eq_iff issued_def issued_within_def)

lemma issued_mono: "set (issue_log s) \<subseteq> set (issue_log s') \<Longrightarrow> issued s g e R \<Longrightarrow> issued s' g e R"
  "set (issue_log s) \<subseteq> set (issue_log s') \<Longrightarrow> issued_within s g e R \<Longrightarrow> issued_within s' g e R"
  by (auto simp: issued_def issued_within_def)

lemma last_issued_cong: "en_self s' = en_self s \<Longrightarrow> issuedEpochs s' = issuedEpochs s \<Longrightarrow> last_issued s' = last_issued s"
  by (simp add: last_issued_def split: option.split)

lemma phase_ok_cong:
  "issue_log s' = issue_log s \<Longrightarrow> en_gen s' = en_gen s \<Longrightarrow> en_self s' = en_self s \<Longrightarrow> issuedEpochs s' = issuedEpochs s \<Longrightarrow>
   phase_ok s' p = phase_ok s p"
  using issued_cong [of s' s] last_issued_cong [of s' s] by (cases p) (simp_all add: ctx_ok_def)

lemma issue_inv_cong:
  assumes "issue_log s' = issue_log s" "en_gen s' = en_gen s" "en_self s' = en_self s" "issuedEpochs s' = issuedEpochs s"
    "en_deliveries s' = en_deliveries s" "en_dists s' = en_dists s" "en_failed s' = en_failed s" "en_epoch s' = en_epoch s"
    "send_log s' = send_log s" "en_runGen s' = en_runGen s" "phase_ok s (en_phase s) \<Longrightarrow> phase_ok s (en_phase s')"
    "phase_gen (en_phase s') = phase_gen (en_phase s)"
    "issue_inv s"
  shows "issue_inv s'"
  using assms issued_cong [OF assms(1)] phase_ok_cong [OF assms(1-4)] last_issued_cong [OF assms(3,4)]
  by (simp add: issue_inv_def)

lemma still_issue_inv: "still s s' \<Longrightarrow> issue_inv s \<Longrightarrow> issue_inv s'"
  by (rule issue_inv_cong [of s' s]) (simp_all add: still_def)


lemma interrupt_ok [simp]: "phase_ok s (interrupt p) = phase_ok s p" "phase_gen (interrupt p) = phase_gen p"
  by (cases p; simp add: interrupt_def)+

lemma noteRemoval_issue_inv: "issue_inv s \<Longrightarrow> issue_inv (noteRemoval s)"
  by (rule issue_inv_cong [of _ s]) (simp_all add: noteRemoval_def)

lemma forget_gone_still [simp]: "still s (forget_gone self s') = still s s'"
  by (simp add: forget_gone_def Let_def)

lemma roster_still [simp]:
  "still s (s'\<lparr>en_roster := r\<rparr>) = still s s'" "still s (s'\<lparr>en_rosterAt := t\<rparr>) = still s s'"
  "still s (s'\<lparr>en_invisible := n\<rparr>) = still s s'"
  by (simp_all add: still_def)

lemma recipients_changed_issue_inv:
  assumes inv: "issue_inv s"
  shows "issue_inv (recipients_changed rs s)"
proof -
  have upd: "issue_inv (schedule r d (s'\<lparr>en_recipientKey := k, en_recipients := rs\<rparr>))" if "issue_inv s'" for r d s' k
  proof -
    have "issue_inv (s'\<lparr>en_recipientKey := k, en_recipients := rs\<rparr>)"
      by (rule issue_inv_cong [OF _ _ _ _ _ _ _ _ _ _ _ _ that]) simp_all
    then show ?thesis by (rule still_issue_inv [rotated]) simp
  qed
  show ?thesis
    using upd [OF inv] upd [OF noteRemoval_issue_inv [OF inv]] inv by (simp add: recipients_changed_def Let_def)
qed

lemma setRoster_issue_inv:
  assumes "issue_inv s"
  shows "issue_inv (setRoster clients s)"
proof -
  let ?s1 = "scheduleMembershipCheck (s\<lparr>en_roster := clients, en_rosterAt := en_now s\<rparr>)"
  have "issue_inv (drainPending (forget_gone self ?s1))" for self
    by (rule still_issue_inv [OF _ assms]) simp
  moreover have "issue_inv (s\<lparr>en_roster := clients\<rparr>)" "issue_inv (s\<lparr>en_roster := clients, en_invisible := n\<rparr>)" for n
    by (rule still_issue_inv [OF _ assms], simp)+
  ultimately show ?thesis
    by (simp add: setRoster_def Let_def recipients_changed_issue_inv split: option.split)
qed

lemma still_sym: "still s s' \<Longrightarrow> still s' s"
  by (simp add: still_def)

lemma issue_inv_iff: "still s s' \<Longrightarrow> issue_inv s' = issue_inv s"
  using still_issue_inv still_sym by blast

lemma media_issue_inv [simp]: "issue_inv (media cs s) = issue_inv s"
  by (rule issue_inv_iff) simp

lemma fold_retire_media: "\<exists>cs. fold (\<lambda>a. retire_own c (fst a)) acts s = media cs s"
proof (induction acts arbitrary: s)
  case Nil
  have "s = media [] s" by (simp add: media_def)
  then show ?case by auto
next
  case (Cons a acts)
  then obtain cs where "fold (\<lambda>a. retire_own c (fst a)) acts (retire_own c (fst a) s) = media cs (retire_own c (fst a) s)" by blast
  moreover have "media xs (media ys s) = media (ys @ xs) s" for xs ys by (simp add: media_def)
  ultimately show ?case unfolding fold.simps comp_def retire_own_def by metis
qed

lemma removal_due_issue_inv:
  assumes "issue_inv s"
  shows "issue_inv (removal_due sq s)"
proof -
  have upd: "issue_inv (s'\<lparr>en_paused := b\<rparr>)" "issue_inv (s'\<lparr>en_pendingRemovals := rs, en_activating := acts\<rparr>)"
    if "issue_inv s'" for s' b rs acts
    by (rule issue_inv_cong [OF _ _ _ _ _ _ _ _ _ _ _ _ that], simp_all)+
  let ?acts = "filter (\<lambda>a. snd a < sq) (en_activating s)"
  let ?s2 = "s\<lparr>en_pendingRemovals := map (\<lambda>r. if rm_seq r = sq then r\<lparr>rm_due := True\<rparr> else r) (en_pendingRemovals s),
     en_activating := filter (\<lambda>a. snd a \<ge> sq) (en_activating s)\<rparr>"
  obtain cs where "fold (\<lambda>a. retire_own (own_client s) (fst a)) ?acts ?s2 = media cs ?s2" using fold_retire_media by blast
  then show ?thesis using assms upd by (simp add: removal_due_def Let_def retire_own_def)
qed


text \<open>A new generation: nothing of it was issued yet, so only the logs and the distributions of
  older generations have to be kept.\<close>

lemma issue_inv_new_gen:
  assumes inv: "issue_inv s" and new: "en_gen s' = Suc (en_gen s)" "issue_log s' = issue_log s" "send_log s' = send_log s"
    "en_dists s' = en_dists s" "en_deliveries s' = []" "en_failed s' = []" "en_runGen s' = en_runGen s"
    "phase_gen (en_phase s') = phase_gen (en_phase s)"
  shows "issue_inv s'"
proof -
  note cong = issued_cong [OF new(2)]
  have g: "phase_gen (en_phase s') = Some g \<Longrightarrow> g < en_gen s'" for g
    using inv new(1,8) by (fastforce simp: issue_inv_def)
  have "phase_ok s' (en_phase s')"
    by (cases "en_phase s'") (use g in \<open>auto simp: ctx_ok_def\<close>)
  moreover have "is_gen i < en_gen s'" if "i \<in> set (issue_log s)" for i
    using that inv new(1) by (fastforce simp: issue_inv_def)
  ultimately show ?thesis
    using inv new cong g by (fastforce simp: issue_inv_def jvals_def)
qed

lemma stop_issue_inv: "issue_inv s \<Longrightarrow> issue_inv (stop s)"
proof (cases "en_self s")
  case (Some self)
  assume inv: "issue_inv s"
  show ?thesis
    by (rule issue_inv_new_gen [OF inv]) (simp_all add: stop_def Some media_def)
qed (simp add: stop_def)

lemma start_issue_inv:
  assumes inv: "issue_inv s"
  shows "issue_inv (start pf self s)"
proof (cases "running s \<or> channelID self = 0 \<or> clientID self = '''' \<or> principal self = '''' \<or> device self = ''''")
  case False
  let ?s = "s\<lparr>en_self := Some self, en_epoch := epoch_line (issuedEpochs s) (self_key self),
             en_session := b64url (random pf (en_randSeq s)) @ ''.'' @ RATCHET_FEATURE, en_randSeq := Suc (en_randSeq s),
             en_gen := Suc (en_gen s), en_renew := Some (en_now s + RENEW_MS)\<rparr>"
  have idle: "en_deliveries s = []" "en_failed s = []" using False inv by (auto simp: running_def issue_inv_def)
  have "issue_inv ?s" by (rule issue_inv_new_gen [OF inv]) (simp_all add: idle)
  then have "issue_inv (schedule RStart 0 ?s)" by (rule still_issue_inv [rotated]) simp
  then show ?thesis using False by (simp add: start_def)
qed (auto simp: start_def inv)

section \<open>Deliveries\<close>

lemma jupd_chain:
  assumes "\<forall>e d. jget m e = Some d \<longrightarrow> P e (d_chain d)" "\<And>d. d_chain (f d) = d_chain d"
  shows "\<forall>e d. jget (jupd k f m) e = Some d \<longrightarrow> P e (d_chain d)"
  using assms by (auto split: if_splits)


lemma issued_running: "issue_inv s \<Longrightarrow> issued s (en_gen s) e R \<Longrightarrow> en_self s \<noteq> None"
  by (auto simp: issue_inv_def issued_def)

lemma jvals_Nil: "jvals [] = []"
  by (simp add: jvals_def)

lemma failed_issued: "issue_inv s \<Longrightarrow> r \<in> set (jvals (en_failed s)) \<Longrightarrow> issued s (en_gen s) (en_epoch s) {rid r}"
  by (simp add: issue_inv_def)

lemma delivery_issued:
  "issue_inv s \<Longrightarrow> jget (en_deliveries s) e = Some d \<Longrightarrow> issued_within s (en_gen s) e (set (d_chain d))"
  by (simp add: issue_inv_def)

text \<open>Changing the deliveries without their chains, the failures and the distributions within
  the issued recipients.\<close>

lemma issue_inv_deliver:
  assumes inv: "issue_inv s"
    and same: "issue_log s' = issue_log s" "en_gen s' = en_gen s" "en_self s' = en_self s" "issuedEpochs s' = issuedEpochs s"
      "en_epoch s' = en_epoch s" "en_runGen s' = en_runGen s" "en_phase s' = en_phase s"
    and del: "\<And>e d. jget (en_deliveries s') e = Some d \<Longrightarrow> \<exists>d0. jget (en_deliveries s) e = Some d0 \<and> d_chain d0 = d_chain d"
    and dists: "\<And>d. d \<in> set (en_dists s') \<Longrightarrow> issued s (ds_gen d) (ds_epoch d) (rid ` set (ds_queue d @ ds_flight d))"
    and failed: "\<And>r. r \<in> set (jvals (en_failed s')) \<Longrightarrow> issued s (en_gen s) (en_epoch s) {rid r}"
    and sends: "\<And>n. n \<in> set (send_log s') \<Longrightarrow> issued s (sn_gen n) (sn_epoch n) {sn_rid n}"
    and idle: "en_self s = None \<Longrightarrow> en_deliveries s' = [] \<and> en_failed s' = []"
  shows "issue_inv s'"
proof -
  have "issued_within s (en_gen s) e (set (d_chain d))" if get: "jget (en_deliveries s') e = Some d" for e d
  proof -
    obtain d0 where d0: "jget (en_deliveries s) e = Some d0" "d_chain d0 = d_chain d" using del [OF get] by blast
    from delivery_issued [OF inv d0(1)] d0(2) show ?thesis by simp
  qed
  then show ?thesis
    using inv same dists failed sends idle issued_cong [OF same(1)] phase_ok_cong [OF same(1-4)] last_issued_cong [OF same(3,4)]
    unfolding issue_inv_def by simp
qed

lemma jvals_jset_subset: "set (jvals (jset k v m)) \<subseteq> insert v (set (jvals m))"
proof
  fix x assume "x \<in> set (jvals (jset k v m))"
  then obtain k' where "(k', x) \<in> set (jset k v m)" by (auto simp: jvals_def)
  then show "x \<in> insert v (set (jvals m))" by (force dest: set_jset_cases simp: jvals_def)
qed

lemma jvals_jdel_subset: "set (jvals (jdel k m)) \<subseteq> set (jvals m)"
  by (auto simp: jvals_def jdel_def)

lemma record_result_issue_inv:
  assumes inv: "issue_inv s" and r: "issued s gen epoch {rid r}"
  shows "issue_inv (record_result gen epoch r ok s)"
proof (cases "gen = en_gen s")
  case True
  have alive: "en_self s \<noteq> None" using issued_running [OF inv] r True by blast
  have f: "issued s (en_gen s) (en_epoch s) {rid q}" if "q \<in> set (jvals (en_failed s))" for q
    using that inv by (simp add: issue_inv_def)
  have upd: "issue_inv (record_result gen epoch r ok s)" if "en_failed (record_result gen epoch r ok s) = F"
    "\<And>q. q \<in> set (jvals F) \<Longrightarrow> issued s (en_gen s) (en_epoch s) {rid q}" for F
  proof (rule issue_inv_deliver [OF inv])
    show "\<exists>d0. jget (en_deliveries s) e = Some d0 \<and> d_chain d0 = d_chain d"
      if "jget (en_deliveries (record_result gen epoch r ok s)) e = Some d" for e d
      using that True by (auto simp: record_result_def Let_def scheduleRetry_def split: if_splits)
  qed (use that alive inv True in \<open>auto simp: record_result_def Let_def scheduleRetry_def issue_inv_def split: if_splits\<close>)
  show ?thesis
    by (rule upd [OF refl])
      (use f r True jvals_jset_subset [of "rid r" r "en_failed s"] jvals_jdel_subset [of "rid r" "en_failed s"]
        in \<open>auto simp: record_result_def Let_def scheduleRetry_def split: if_splits\<close>)
qed (simp add: record_result_def inv)


lemma distribution_settled_issue_inv [simp]: "issue_inv s \<Longrightarrow> issue_inv (distribution_settled d s)"
  by (rule still_issue_inv [of s]) simp_all

lemma set_drop_nth: "set (drop_nth n xs) \<subseteq> set xs"
  by (auto simp: drop_nth_def dest: in_set_takeD in_set_dropD)

lemma dists_issue_inv:
  assumes inv: "issue_inv s" and ds: "\<And>d. d \<in> set ds \<Longrightarrow> issued s (ds_gen d) (ds_epoch d) (rid ` set (ds_queue d @ ds_flight d))"
  shows "issue_inv (s\<lparr>en_dists := ds\<rparr>)"
  by (rule issue_inv_deliver [OF inv]) (use ds inv in \<open>auto simp: issue_inv_def\<close>)

lemma dist_issued: "issue_inv s \<Longrightarrow> d \<in> set (en_dists s) \<Longrightarrow> issued s (ds_gen d) (ds_epoch d) (rid ` set (ds_queue d @ ds_flight d))"
  by (simp add: issue_inv_def)

lemma issued_subset: "issued s g e R \<Longrightarrow> R' \<subseteq> R \<Longrightarrow> issued s g e R'"
  by (auto simp: issued_def)

lemma put_dist_issue_inv:
  assumes inv: "issue_inv s" and d: "issued s (ds_gen d) (ds_epoch d) (rid ` set (ds_queue d @ ds_flight d))"
  shows "issue_inv (put_dist n d s)"
proof -
  have "issue_inv (s\<lparr>en_dists := drop_nth n (en_dists s)\<rparr>)"
    using set_drop_nth [of n "en_dists s"] dist_issued [OF inv] by (intro dists_issue_inv [OF inv]) blast
  moreover have "issue_inv (s\<lparr>en_dists := (en_dists s)[n := d]\<rparr>)"
    using set_update_subset_insert [of "en_dists s" n d] dist_issued [OF inv] d by (intro dists_issue_inv [OF inv]) blast
  ultimately show ?thesis by (simp add: put_dist_def)
qed

lemma record_result_log [simp]: "issue_log (record_result gen epoch r ok s) = issue_log s"
  by (simp add: record_result_def Let_def scheduleRetry_def)

lemma pump_issue_inv:
  assumes inv: "issue_inv s"
  shows "issue_inv (pump n s)"
proof (cases "n < length (en_dists s) \<and> ds_queue (en_dists s ! n) \<noteq> []")
  case True
  let ?d = "en_dists s ! n"
  obtain r rs where q: "ds_queue ?d = r # rs" using True by (cases "ds_queue ?d") auto
  have d: "issued s (ds_gen ?d) (ds_epoch ?d) (rid ` set (ds_queue ?d @ ds_flight ?d))"
    using dist_issued [OF inv] True by simp
  have r: "issued s (ds_gen ?d) (ds_epoch ?d) {rid r}" by (rule issued_subset [OF d]) (simp add: q)
  have rest: "issued s (ds_gen ?d) (ds_epoch ?d) (rid ` set (ds_queue (?d\<lparr>ds_queue := rs\<rparr>) @ ds_flight (?d\<lparr>ds_queue := rs\<rparr>)))"
    by (rule issued_subset [OF d]) (auto simp: q)
  have skip: "issue_inv (put_dist n (?d\<lparr>ds_queue := rs\<rparr>) s)"
    "issue_inv (put_dist n (?d\<lparr>ds_queue := rs\<rparr>) (record_result (ds_gen ?d) (ds_epoch ?d) r False s))"
    using put_dist_issue_inv [OF inv] put_dist_issue_inv [OF record_result_issue_inv [OF inv r]] rest
      issued_cong [OF record_result_log] by simp_all
  let ?s' = "s\<lparr>send_log := send_log s @ [\<lparr>sn_gen = ds_gen ?d, sn_epoch = ds_epoch ?d, sn_rid = rid r\<rparr>],
      en_dists := (en_dists s)[n := ?d\<lparr>ds_queue := rs, ds_flight := r # ds_flight ?d\<rparr>]\<rparr>"
  have "issue_inv ?s'"
  proof (rule issue_inv_deliver [OF inv])
    have "issued s (ds_gen ?d) (ds_epoch ?d) (rid ` set (rs @ r # ds_flight ?d))"
      by (rule issued_subset [OF d]) (auto simp: q)
    then show "issued s (ds_gen d') (ds_epoch d') (rid ` set (ds_queue d' @ ds_flight d'))" if "d' \<in> set (en_dists ?s')" for d'
      using that set_update_subset_insert [of "en_dists s" n "?d\<lparr>ds_queue := rs, ds_flight := r # ds_flight ?d\<rparr>"] dist_issued [OF inv, of d']
      by (cases "d' \<in> set (en_dists s)") auto
  qed (use inv r in \<open>auto simp: issue_inv_def\<close>)
  then show ?thesis using True q skip inv by (auto simp: pump_def Let_def)
qed (auto simp: pump_def Let_def inv split: list.split)


lemma send_answer_issue_inv:
  assumes inv: "issue_inv s"
  shows "issue_inv (send_answer n m ok s)"
proof (cases "n < length (en_dists s) \<and> m < length (ds_flight (en_dists s ! n))")
  case True
  let ?d = "en_dists s ! n"
  have d: "issued s (ds_gen ?d) (ds_epoch ?d) (rid ` set (ds_queue ?d @ ds_flight ?d))"
    using dist_issued [OF inv] True by simp
  have r: "issued s (ds_gen ?d) (ds_epoch ?d) {rid (ds_flight ?d ! m)}"
    by (rule issued_subset [OF d]) (use True in auto)
  have rest: "issued s (ds_gen ?d) (ds_epoch ?d) (rid ` set (ds_queue ?d @ drop_nth m (ds_flight ?d)))"
    by (rule issued_subset [OF d]) (use set_drop_nth [of m "ds_flight ?d"] in auto)
  show ?thesis
    using True put_dist_issue_inv [OF record_result_issue_inv [OF inv r, of ok], where d = "?d\<lparr>ds_flight := drop_nth m (ds_flight ?d)\<rparr>" and n = n]
      rest issued_cong [OF record_result_log] by (simp add: send_answer_def Let_def)
qed (auto simp: send_answer_def inv)

lemma start_distribution_issue_inv:
  assumes inv: "issue_inv s" and rs: "issued s gen epoch (rid ` set rs)"
  shows "issue_inv (start_distribution gen rs epoch attempt s)"
proof -
  have "issue_inv (s\<lparr>en_dists := en_dists s @ [d]\<rparr>)" if "ds_gen d = gen" "ds_epoch d = epoch" "ds_queue d = rs" "ds_flight d = []" for d
    by (rule dists_issue_inv [OF inv]) (use that rs dist_issued [OF inv] in auto)
  then show ?thesis
    using inv by (auto simp: start_distribution_def Let_def split: option.split)
qed

lemma sorted_wrt_unique:
  "sorted_wrt R xs \<Longrightarrow> i \<in> set xs \<Longrightarrow> j \<in> set xs \<Longrightarrow> \<not> R i j \<Longrightarrow> \<not> R j i \<Longrightarrow> i = j"
  by (induction xs) auto

lemma issue_unique:
  assumes inv: "issue_inv s" and ij: "i \<in> set (issue_log s)" "j \<in> set (issue_log s)"
    and eq: "is_gen i = is_gen j" "is_epoch i = is_epoch j"
  shows "i = j"
proof (rule sorted_wrt_unique [OF _ ij])
  show "sorted_wrt (\<lambda>i j. is_gen i < is_gen j \<or> is_gen i = is_gen j \<and> is_epoch i < is_epoch j) (issue_log s)"
    using inv by (simp add: issue_inv_def)
qed (use eq in simp_all)

lemma issue_inv_retry [simp]:
  "issue_inv (s\<lparr>en_retry := x\<rparr>) = issue_inv s" "issue_inv (s\<lparr>en_retryArmed := y\<rparr>) = issue_inv s"
  by (rule issue_inv_iff, simp)+

lemma retry_timer_issue_inv:
  assumes inv: "issue_inv s"
  shows "issue_inv (retry_timer s)"
proof -
  let ?again = "filter (\<lambda>r. rid r \<in> rid ` set (en_recipients s)) (jvals (en_failed s))"
  have "issued s (en_gen s) (en_epoch s) (rid ` set ?again)" if "?again \<noteq> []"
  proof -
    have one: "issued s (en_gen s) (en_epoch s) {rid r}" if "r \<in> set (jvals (en_failed s))" for r
      using inv that by (simp add: issue_inv_def)
    obtain r0 where "r0 \<in> set ?again" using \<open>?again \<noteq> []\<close> by (cases ?again) auto
    then obtain i where i: "i \<in> set (issue_log s)" "is_gen i = en_gen s" "is_epoch i = en_epoch s"
      using one by (auto simp: issued_def)
    have "rid r \<in> set (is_rids i)" if r: "r \<in> set ?again" for r
    proof -
      obtain j where j: "j \<in> set (issue_log s)" "is_gen j = en_gen s" "is_epoch j = en_epoch s" "rid r \<in> set (is_rids j)"
        using one [of r] r by (auto simp: issued_def)
      have "i = j" by (rule issue_unique [OF inv i(1) j(1)]) (simp_all add: i j)
      with j show ?thesis by simp
    qed
    then show ?thesis using i by (auto simp: issued_def)
  qed
  moreover have "issue_inv (start_distribution (en_gen s) ?again (en_epoch s) (Some k) (s\<lparr>en_retry := None\<rparr>))"
    if "issued s (en_gen s) (en_epoch s) (rid ` set ?again)" for k
    by (rule start_distribution_issue_inv) (use inv that issued_cong [of "s\<lparr>en_retry := None\<rparr>" s] in auto)
  ultimately show ?thesis
    using inv by (auto simp: retry_timer_def Let_def split: option.split)
qed


section \<open>The rekey routine\<close>

text \<open>What the routine changes apart from the phase; the phase is set last.\<close>

lemma issue_inv_phase:
  assumes "issue_inv s" "phase_ok s p" "\<And>g. phase_gen p = Some g \<Longrightarrow> g \<le> en_gen s"
  shows "issue_inv (s\<lparr>en_phase := p\<rparr>)"
proof -
  have "phase_ok (s\<lparr>en_phase := p\<rparr>) q = phase_ok s q" for q by (rule phase_ok_cong) simp_all
  then show ?thesis
    using assms issued_cong [of "s\<lparr>en_phase := p\<rparr>" s] last_issued_cong [of "s\<lparr>en_phase := p\<rparr>" s] by (simp add: issue_inv_def)
qed

lemma issue_inv_other:
  assumes "issue_inv s" "issue_log s' = issue_log s" "en_gen s' = en_gen s" "en_self s' = en_self s" "issuedEpochs s' = issuedEpochs s"
    "en_deliveries s' = en_deliveries s" "en_dists s' = en_dists s" "en_failed s' = en_failed s" "en_epoch s' = en_epoch s"
    "send_log s' = send_log s" "en_runGen s' = en_runGen s" "en_phase s' = en_phase s"
  shows "issue_inv s'"
  by (rule issue_inv_cong [of s' s]) (use assms in simp_all)

lemma run_end_issue_inv: "issue_inv s \<Longrightarrow> issue_inv (run_end s)"
  using issue_inv_phase [of "s\<lparr>en_runFailures := 0, en_runRetry := None, en_busy := False\<rparr>" PIdle]
    issue_inv_other [of s "s\<lparr>en_runFailures := 0, en_runRetry := None, en_busy := False\<rparr>"]
  by (simp add: run_end_def)

lemma run_fail_issue_inv:
  assumes "issue_inv s"
  shows "issue_inv (run_fail s)"
proof -
  have 1: "issue_inv (s\<lparr>en_busy := False\<rparr>)" by (rule issue_inv_other [OF assms]) simp_all
  have 2: "issue_inv (s\<lparr>en_busy := False, en_phase := PIdle\<rparr>)" using issue_inv_phase [OF 1, of PIdle] by simp
  show ?thesis
    by (rule issue_inv_other [OF 2]) (simp_all add: run_fail_def Let_def)
qed

lemma number_epoch_issue_inv:
  assumes inv: "issue_inv s" and self: "en_self s = Some (k_self c)" and gen: "k_gen c = en_gen s"
    and head: "\<And>h. k_head c = Some h \<Longrightarrow> set (d_chain h) \<subseteq> rid ` set (k_recipients c)
        \<and> issued_within s (k_gen c) (k_previous c) (set (d_chain h)) \<and> last_issued s = k_previous c"
  shows "issue_inv (number_epoch c s)"
proof -
  let ?s = "number_epoch c s"
  define e where "e = (case k_head c of Some _ \<Rightarrow> k_previous c + 1
     | None \<Rightarrow> max (en_epoch s + 2) (max (epoch_line (issuedEpochs s) (self_key (k_self c)) + 2) (en_now s)))"
  define i where "i = \<lparr>is_gen = k_gen c, is_epoch = e, is_created = k_created c, is_rids = map rid (k_recipients c),
     is_parent = (case k_head c of Some _ \<Rightarrow> Some (k_previous c) | None \<Rightarrow> None)\<rparr>"
  define c' where "c' = c\<lparr>k_epoch := e, k_kid := (case k_head c of Some h \<Rightarrow> (d_kid h + 1) mod 16 | None \<Rightarrow> (en_kid s + 2) mod 16),
     k_chain := remdups ((case k_head c of Some h \<Rightarrow> d_chain h | None \<Rightarrow> []) @ map rid (k_recipients c))\<rparr>"
  have eq: "?s = s\<lparr>issuedEpochs := jset (self_key (k_self c)) e (issuedEpochs s), issue_log := issue_log s @ [i], en_phase := PDigest c'\<rparr>"
    unfolding number_epoch_def Let_def e_def [symmetric] i_def c'_def by simp
  have new: "last_issued s < e"
    using head self by (auto simp: e_def last_issued_def split: option.split)
  have last: "last_issued ?s = e" by (simp add: eq last_issued_def self epoch_line_def)
  have sub: "set (issue_log s) \<subseteq> set (issue_log ?s)" by (auto simp: eq)
  note mono = issued_mono [OF sub]
  have iss: "issued ?s (k_gen c) e (rid ` set (k_recipients c))" "issued_within ?s (k_gen c) e (set (k_chain c'))"
    by (auto simp: issued_def issued_within_def eq i_def c'_def)
  have parent: "issued_within ?s (is_gen i) f (set (is_rids i))" if par: "is_parent i = Some f" for f
  proof -
    obtain h where h: "k_head c = Some h" "f = k_previous c" using par by (cases "k_head c") (auto simp: i_def)
    obtain j where j: "j \<in> set (issue_log s)" "is_gen j = k_gen c" "is_epoch j = f" "set (is_rids j) \<subseteq> set (d_chain h)"
      using head [OF h(1)] h(2) by (auto simp: issued_within_def)
    then have "set (is_rids j) \<subseteq> set (is_rids i)" using head [OF h(1)] by (auto simp: i_def)
    with j show ?thesis by (auto simp: issued_within_def eq i_def)
  qed
  have old: "is_gen j \<le> en_gen s \<and> (is_gen j = en_gen s \<longrightarrow> is_epoch j < e)" if "j \<in> set (issue_log s)" for j
    using inv that new by (fastforce simp: issue_inv_def)
  have "sorted_wrt (\<lambda>i j. is_gen i < is_gen j \<or> is_gen i = is_gen j \<and> is_epoch i < is_epoch j) (issue_log ?s)"
    using inv old gen by (fastforce simp: eq sorted_wrt_append i_def issue_inv_def)
  moreover have "\<forall>j \<in> set (issue_log ?s). is_gen j \<le> en_gen ?s \<and> (is_gen j = en_gen ?s \<longrightarrow> en_self ?s \<noteq> None \<and> is_epoch j \<le> last_issued ?s)"
    unfolding last using old gen self by (fastforce simp: eq i_def)
  moreover have "\<forall>j \<in> set (issue_log ?s). \<forall>f. is_parent j = Some f \<longrightarrow> issued_within ?s (is_gen j) f (set (is_rids j))"
    using parent mono(2) inv by (auto simp: eq issue_inv_def)
  moreover have "phase_ok ?s (en_phase ?s)"
  proof -
    have "en_phase ?s = PDigest c'" "en_self ?s = Some (k_self c)" by (simp_all add: eq self)
    moreover have "k_gen c' = k_gen c" "k_self c' = k_self c" "k_recipients c' = k_recipients c" "k_epoch c' = e"
      by (simp_all add: c'_def)
    ultimately show ?thesis using iss by (auto simp: ctx_ok_def)
  qed
  moreover have "\<forall>f d. jget (en_deliveries ?s) f = Some d \<longrightarrow> issued_within ?s (en_gen ?s) f (set (d_chain d))"
    using mono(2) delivery_issued [OF inv] by (simp add: eq)
  moreover have "\<forall>d \<in> set (en_dists ?s). issued ?s (ds_gen d) (ds_epoch d) (rid ` set (ds_queue d @ ds_flight d))"
    using mono(1) dist_issued [OF inv] by (simp add: eq)
  moreover have "\<forall>r \<in> set (jvals (en_failed ?s)). issued ?s (en_gen ?s) (en_epoch ?s) {rid r}"
    using mono(1) inv by (simp add: eq issue_inv_def)
  moreover have "\<forall>n \<in> set (send_log ?s). issued ?s (sn_gen n) (sn_epoch n) {sn_rid n}"
    using mono(1) inv by (simp add: eq issue_inv_def)
  moreover have "\<forall>g. phase_gen (en_phase ?s) = Some g \<longrightarrow> g \<le> en_gen ?s" "en_runGen ?s \<le> en_gen ?s"
    "en_self ?s = None \<longrightarrow> en_deliveries ?s = [] \<and> en_failed ?s = []"
    using inv gen by (simp_all add: eq c'_def issue_inv_def)
  ultimately show ?thesis unfolding issue_inv_def by blast
qed


lemma ratchetHead_SomeD:
  assumes "ratchetHead s reason rids k = Some h"
  shows "jget (en_deliveries s) (en_activeEpoch s) = Some h" "set (d_chain h) \<subseteq> set rids"
    "epoch_line (issuedEpochs s) k = en_activeEpoch s" "en_pendingRemovals s = []" "\<not> en_paused s"
  using assms by (auto simp: ratchetHead_def Let_def list_all_iff split: if_splits option.splits)

lemma rekey_begin_issue_inv:
  assumes inv: "issue_inv s" and gen: "en_runGen s = en_gen s"
  shows "issue_inv (rekey_begin pf s)"
proof (cases "en_self s")
  case None
  then show ?thesis using inv by (simp add: rekey_begin_def run_end_issue_inv)
next
  case (Some self)
  define s1 where "s1 = s\<lparr>en_seq := Suc (en_seq s), en_reason := RNone, en_busyOrPending := False\<rparr>"
  define rs where "rs = recipientsOf (en_roster s1) self"
  define s2 where "s2 = s1\<lparr>en_recipients := rs\<rparr>"
  define head where "head = ratchetHead s2 (en_reason s) (map rid rs) (self_key self)"
  define c where "c = \<lparr>k_gen = en_runGen s2, k_self = self, k_created = en_seq s2, k_urgent = (en_pendingRemovals s2 \<noteq> []),
     k_previous = en_activeEpoch s2, k_recipients = rs, k_head = head, k_keys = [], k_epoch = 0, k_kid = 0,
     k_chain = [], k_members = ''''\<rparr>"
  have i1: "issue_inv s1" and i1': "issue_inv (s1\<lparr>en_invisible := Suc (en_invisible s1)\<rparr>)" and i2: "issue_inv s2"
    and i3: "issue_inv (s2\<lparr>en_randSeq := n\<rparr>)" for n
    by (rule issue_inv_other [OF inv]; simp add: s2_def s1_def)+
  have same: "en_self s2 = Some self" "en_gen s2 = en_gen s" "en_runGen s2 = en_gen s" "issue_log s2 = issue_log s"
    using Some gen by (simp_all add: s2_def s1_def)
  have head_ok: "set (d_chain h) \<subseteq> rid ` set rs \<and> issued_within s2 (en_gen s2) (en_activeEpoch s2) (set (d_chain h))
      \<and> last_issued s2 = en_activeEpoch s2" if "head = Some h" for h
    using ratchetHead_SomeD [of s2 "en_reason s" "map rid rs" "self_key self" h] that delivery_issued [OF i2] same(1)
    by (auto simp: head_def last_issued_def)
  have eq: "rekey_begin pf s = (if invisible s1 then run_end (s1\<lparr>en_invisible := Suc (en_invisible s1)\<rparr>)
     else case head of
       Some h \<Rightarrow> s2\<lparr>en_phase := PKeys (c\<lparr>k_keys := ratchetKeys (hkdf pf) (d_keys h)\<rparr>)\<rparr>
     | None \<Rightarrow> number_epoch (c\<lparr>k_keys := map (\<lambda>n. (SLOTS ! n, random pf (en_randSeq s2 + n))) [0..<length SLOTS]\<rparr>)
          (s2\<lparr>en_randSeq := en_randSeq s2 + length SLOTS\<rparr>))"
    unfolding rekey_begin_def Some option.case Let_def s1_def [symmetric] rs_def [symmetric] s2_def [symmetric]
      head_def [symmetric] c_def [symmetric] ..
  show ?thesis
  proof (cases head)
    case None
    have "issue_inv (number_epoch (c\<lparr>k_keys := ks\<rparr>) (s2\<lparr>en_randSeq := n\<rparr>))" for ks n
      by (rule number_epoch_issue_inv [OF i3]) (use same None in \<open>simp_all add: c_def\<close>)
    then show ?thesis unfolding eq using None run_end_issue_inv [OF i1'] by simp
  next
    case (Some h)
    have "issue_inv (s2\<lparr>en_phase := PKeys (c\<lparr>k_keys := ks\<rparr>)\<rparr>)" for ks
      by (rule issue_inv_phase [OF i2]) (use same Some head_ok [OF Some] in \<open>simp_all add: c_def\<close>)
    then show ?thesis unfolding eq using Some run_end_issue_inv [OF i1'] by simp
  qed
qed

lemma rekey_return_issue_inv:
  assumes inv: "issue_inv s"
  shows "issue_inv (rekey_return pf s)"
proof -
  have "issue_inv (s\<lparr>en_again := False\<rparr>)" by (rule issue_inv_other [OF inv]) simp_all
  then show ?thesis using inv by (simp add: rekey_return_def rekey_begin_issue_inv run_end_issue_inv)
qed

lemma run_issue_inv:
  assumes inv: "issue_inv s" and idle: "\<not> en_busy s \<Longrightarrow> en_phase s = PIdle"
  shows "issue_inv (run pf s)"
proof (cases "en_busy s")
  case True
  have "issue_inv (s\<lparr>en_again := True\<rparr>)" by (rule issue_inv_other [OF inv]) simp_all
  with True show ?thesis by (simp add: run_def)
next
  case False
  let ?s = "s\<lparr>en_busy := True, en_again := False, en_runGen := en_gen s\<rparr>"
  have "issue_inv ?s"
    using inv idle [OF False] issued_cong [of ?s s] last_issued_cong [of ?s s] by (simp add: issue_inv_def)
  with False show ?thesis by (simp add: run_def rekey_begin_issue_inv)
qed

text \<open>A rekey runs only while the engine is busy.\<close>

definition busy_ok :: "engine \<Rightarrow> bool" where
  "busy_ok s \<longleftrightarrow> (en_phase s \<noteq> PIdle \<longrightarrow> en_busy s)"

definition engine_inv :: "engine \<Rightarrow> bool" where
  "engine_inv s \<longleftrightarrow> issue_inv s \<and> busy_ok s"


text \<open>The context of a rekey that is past the numbering of its epoch.\<close>

lemma ctx_ok_cong:
  "issue_log s' = issue_log s \<Longrightarrow> en_gen s' = en_gen s \<Longrightarrow> en_self s' = en_self s \<Longrightarrow> ctx_ok s' c = ctx_ok s c"
  using issued_cong [of s' s] by (simp add: ctx_ok_def)

lemma give_up_frame:
  "issue_log (give_up_epoch c b s) = issue_log s" "en_gen (give_up_epoch c b s) = en_gen s" "en_self (give_up_epoch c b s) = en_self s"
  "issuedEpochs (give_up_epoch c b s) = issuedEpochs s" "en_dists (give_up_epoch c b s) = en_dists s"
  "send_log (give_up_epoch c b s) = send_log s" "en_runGen (give_up_epoch c b s) = en_runGen s"
  "en_phase (give_up_epoch c b s) = en_phase s" "en_busy (give_up_epoch c b s) = en_busy s"
  "en_pendingRemovals (give_up_epoch c b s) = en_pendingRemovals s" "en_paused (give_up_epoch c b s) = en_paused s"
  "en_activeEpoch (give_up_epoch c b s) = en_activeEpoch s" "en_seq (give_up_epoch c b s) = en_seq s"
  "en_activating (give_up_epoch c b s) = en_activating s"
  "en_deliveries (give_up_epoch c b s) = jdel (k_epoch c) (en_deliveries s)"
  by (simp_all add: give_up_epoch_def Let_def retire_own_def media_def split: option.split)

lemma give_up_failed: "en_failed (give_up_epoch c b s) = [] \<or>
   en_failed (give_up_epoch c b s) = en_failed s \<and> en_epoch (give_up_epoch c b s) = en_epoch s"
  by (simp add: give_up_epoch_def Let_def retire_own_def media_def split: option.split)

lemma give_up_issue_inv:
  assumes inv: "issue_inv s"
  shows "issue_inv (give_up_epoch c b s)"
proof -
  let ?s = "give_up_epoch c b s"
  have "issued_within s (en_gen s) e (set (d_chain d))" if "jget (en_deliveries ?s) e = Some d" for e d
    using that delivery_issued [OF inv] by (auto simp: give_up_frame split: if_splits)
  moreover have "issued s (en_gen s) (en_epoch ?s) {rid r}" if "r \<in> set (jvals (en_failed ?s))" for r
    using that give_up_failed [of c b s] failed_issued [OF inv, of r] by (cases "en_failed ?s = []") (simp_all add: jvals_Nil)
  moreover have "en_self s = None \<longrightarrow> en_deliveries ?s = [] \<and> en_failed ?s = []"
    using inv give_up_failed [of c b s] by (auto simp: give_up_frame issue_inv_def jdel_def)
  ultimately show ?thesis
    using inv issued_cong [of ?s s] phase_ok_cong [of ?s s] last_issued_cong [of ?s s]
    unfolding issue_inv_def by (simp add: give_up_frame(1-8))
qed

lemma activate_stage_issue_inv:
  assumes inv: "issue_inv s" and c: "ctx_ok s c" "k_gen c \<le> en_gen s"
  shows "issue_inv (activate_stage pf c s)"
proof -
  let ?s = "s\<lparr>en_activating := en_activating s @ [(k_epoch c, k_created c)]\<rparr>"
  have i: "issue_inv ?s" by (rule issue_inv_other [OF inv]) simp_all
  have "issue_inv (?s\<lparr>en_phase := PActivate c 0\<rparr>)"
    by (rule issue_inv_phase [OF i]) (use c ctx_ok_cong [of ?s s c] in auto)
  then show ?thesis
    using inv by (simp add: activate_stage_def rekey_return_issue_inv give_up_issue_inv)
qed

lemma start_distribution_frame:
  "still (s\<lparr>en_dists := en_dists (start_distribution g rs e a s)\<rparr>) (start_distribution g rs e a s)"
proof -
  have "still s (distribution_settled d s)" "en_dists (distribution_settled d s) = en_dists s" for d
    using distribution_settled_still [of s d s] by (simp_all add: still_def)
  then show ?thesis
    by (simp add: start_distribution_def Let_def split: option.split)
qed

lemma after_install_issue_inv:
  assumes inv: "issue_inv s" and c: "ctx_ok s c" "k_gen c \<le> en_gen s"
  shows "issue_inv (after_install pf c s)"
proof (cases "k_gen c = en_gen s")
  case gen: True
  define d where "d = \<lparr>d_ok = [], d_failed = [], d_kid = k_kid c, d_keys = k_keys c, d_members = k_members c,
     d_count = length (k_recipients c) + 1, d_chain = k_chain c, d_inherited = (case k_head c of None \<Rightarrow> [] | Some h \<Rightarrow> d_ok h)\<rparr>"
  define s1 where "s1 = s\<lparr>en_epoch := k_epoch c, en_kid := k_kid c, en_members := k_members c, en_epochs := Suc (en_epochs s),
     en_failed := [], en_sentTo := [], en_deliveries := jset (k_epoch c) d (en_deliveries s)\<rparr>"
  define s2 where "s2 = start_distribution (k_gen c) (k_recipients c) (k_epoch c) None s1"
  have ok: "en_self s = Some (k_self c)" "issued s (k_gen c) (k_epoch c) (rid ` set (k_recipients c))"
    "issued_within s (k_gen c) (k_epoch c) (set (k_chain c))" using c(1) gen by (simp_all add: ctx_ok_def)
  have dels: "\<forall>e d'. jget (en_deliveries s1) e = Some d' \<longrightarrow> issued_within s (en_gen s) e (set (d_chain d'))"
    using ok(3) gen delivery_issued [OF inv] by (auto simp: s1_def d_def split: if_splits)
  have f: "issue_log s1 = issue_log s" "en_gen s1 = en_gen s" "en_self s1 = en_self s" "issuedEpochs s1 = issuedEpochs s"
    "en_dists s1 = en_dists s" "send_log s1 = send_log s" "en_runGen s1 = en_runGen s" "en_phase s1 = en_phase s" "en_failed s1 = []"
    by (simp_all add: s1_def)
  have i1: "issue_inv s1"
    using inv dels ok(1) issued_cong [OF f(1)] phase_ok_cong [OF f(1-4)] last_issued_cong [OF f(3,4)]
    unfolding issue_inv_def by (simp add: f jvals_def)
  have i2: "issue_inv s2" unfolding s2_def
    by (rule start_distribution_issue_inv [OF i1]) (use ok(2) issued_cong [OF f(1)] in simp)
  have f2: "issue_log s2 = issue_log s" "en_gen s2 = en_gen s" "en_self s2 = en_self s"
    using start_distribution_frame [where s = s1 and g = "k_gen c" and rs = "k_recipients c" and e = "k_epoch c" and a = None] f by (simp_all add: s2_def still_def)
  have c2: "ctx_ok s2 c" "k_gen c \<le> en_gen s2" using c ctx_ok_cong [OF f2] f2(2) by simp_all
  have wait: "issue_inv (s2\<lparr>en_phase := PWaitUrgent c\<rparr>)" "issue_inv (s2\<lparr>en_phase := PWaitSettle c False\<rparr>)"
    by (rule issue_inv_phase [OF i2]; use c2 in simp)+
  show ?thesis
    unfolding after_install_def Let_def d_def [symmetric] s1_def [symmetric] s2_def [symmetric]
    using gen wait activate_stage_issue_inv [OF i2 c2] rekey_return_issue_inv [OF give_up_issue_inv [OF i2]] by simp
qed (simp add: after_install_def inv rekey_return_issue_inv)


lemma become_active_frame:
  "issue_log (become_active c s) = issue_log s" "en_gen (become_active c s) = en_gen s" "en_self (become_active c s) = en_self s"
  "issuedEpochs (become_active c s) = issuedEpochs s" "en_dists (become_active c s) = en_dists s"
  "send_log (become_active c s) = send_log s" "en_runGen (become_active c s) = en_runGen s"
  "en_phase (become_active c s) = en_phase s" "en_failed (become_active c s) = en_failed s" "en_epoch (become_active c s) = en_epoch s"
  "en_deliveries (become_active c s) = filter (\<lambda>(old, _). \<not> old < k_epoch c) (en_deliveries s)"
  "en_busy (become_active c s) = en_busy s"
  by (simp_all add: become_active_def Let_def retire_own_def media_def scheduleRetry_def)

lemma jget_filter_key: "jget (filter (\<lambda>(k, _). P k) m) k = (if P k then jget m k else None)"
  by (induction m) (auto simp: jget_def split: if_splits)

lemma become_active_issue_inv:
  assumes inv: "issue_inv s"
  shows "issue_inv (become_active c s)"
proof (rule issue_inv_deliver [OF inv])
  show "\<exists>d0. jget (en_deliveries s) e = Some d0 \<and> d_chain d0 = d_chain d" if "jget (en_deliveries (become_active c s)) e = Some d" for e d
    using jget_filter_key [of "\<lambda>old. \<not> old < k_epoch c" "en_deliveries s" e] that by (simp add: become_active_frame split: if_splits)
qed (use inv in \<open>auto simp: become_active_frame issue_inv_def\<close>)

lemma after_activate_issue_inv:
  assumes inv: "issue_inv s"
  shows "issue_inv (after_activate pf c s)"
proof -
  have "issue_inv (s\<lparr>en_activating := filter (\<lambda>a. fst a > k_epoch c) (en_activating s)\<rparr>)"
    by (rule issue_inv_other [OF inv]) simp_all
  then show ?thesis by (simp add: after_activate_def Let_def rekey_return_issue_inv become_active_issue_inv)
qed

lemma resume_issue_inv:
  assumes inv: "issue_inv s"
  shows "issue_inv (resume pf ok s)"
proof (cases "en_phase s")
  case (PKeys c)
  then have "phase_ok s (PKeys c)" using inv by (simp add: issue_inv_def)
  then have "issue_inv (number_epoch c s)" if "k_gen c = en_gen s"
    using that by (intro number_epoch_issue_inv [OF inv]) auto
  with PKeys inv show ?thesis by (simp add: resume_def run_fail_issue_inv rekey_return_issue_inv)
next
  case (PDigest c)
  have c: "ctx_ok s c" "k_gen c \<le> en_gen s" using PDigest inv by (simp_all add: issue_inv_def)
  have "issue_inv (s\<lparr>en_phase := PInstall (c\<lparr>k_members := m\<rparr>) 0\<rparr>)" for m
    by (rule issue_inv_phase [OF inv]) (use c in \<open>simp_all add: ctx_ok_def\<close>)
  with PDigest inv show ?thesis by (simp add: resume_def Let_def run_fail_issue_inv rekey_return_issue_inv)
next
  case (PInstall c n)
  have c: "ctx_ok s c" "k_gen c \<le> en_gen s" using PInstall inv by (simp_all add: issue_inv_def)
  have "issue_inv (s\<lparr>en_phase := PInstall c (Suc n)\<rparr>)"
    by (rule issue_inv_phase [OF inv]) (use c in simp_all)
  with PInstall inv c show ?thesis
    by (simp add: resume_def run_fail_issue_inv rekey_return_issue_inv after_install_issue_inv)
next
  case (PActivate c n)
  have c: "ctx_ok s c" "k_gen c \<le> en_gen s" using PActivate inv by (simp_all add: issue_inv_def)
  have "issue_inv (s\<lparr>en_phase := PActivate c (Suc n)\<rparr>)"
    by (rule issue_inv_phase [OF inv]) (use c in simp_all)
  with PActivate inv c show ?thesis
    by (simp add: resume_def run_fail_issue_inv after_activate_issue_inv)
next
  case (PWaitUrgent c)
  then have "ctx_ok s c" "k_gen c \<le> en_gen s" using inv by (simp_all add: issue_inv_def)
  with PWaitUrgent inv show ?thesis by (simp add: resume_def activate_stage_issue_inv)
next
  case (PWaitSettle c b)
  then have "ctx_ok s c" "k_gen c \<le> en_gen s" using inv by (simp_all add: issue_inv_def)
  with PWaitSettle inv show ?thesis
    by (simp add: resume_def activate_stage_issue_inv rekey_return_issue_inv give_up_issue_inv)
qed (simp add: resume_def inv)


section \<open>The invariant holds on every run\<close>

lemma number_epoch_busy [simp]: "en_busy (number_epoch c s) = en_busy s"
  by (simp add: number_epoch_def Let_def)

lemma rekey_begin_busy: "en_busy s \<Longrightarrow> busy_ok (rekey_begin pf s)"
  by (auto simp: busy_ok_def rekey_begin_def run_end_def Let_def split: option.splits)

lemma rekey_return_busy: "en_busy s \<Longrightarrow> busy_ok (rekey_return pf s)"
  using rekey_begin_busy [of "s\<lparr>en_again := False\<rparr>" pf] by (simp add: rekey_return_def run_end_def) (simp add: busy_ok_def)

lemma start_distribution_busy [simp]: "en_busy (start_distribution g rs e a s) = en_busy s"
  by (simp add: start_distribution_def distribution_settled_def scheduleRetry_def Let_def split: option.split)

lemma activate_stage_busy: "en_busy s \<Longrightarrow> busy_ok (activate_stage pf c s)"
  by (simp add: activate_stage_def rekey_return_busy give_up_frame) (simp add: busy_ok_def media_def)

lemma after_install_busy: "en_busy s \<Longrightarrow> busy_ok (after_install pf c s)"
  by (simp add: after_install_def Let_def rekey_return_busy give_up_frame activate_stage_busy) (simp add: busy_ok_def)

lemma resume_busy:
  assumes "busy_ok s"
  shows "busy_ok (resume pf ok s)"
proof (cases "en_phase s = PIdle")
  case False
  then have b: "en_busy s" using assms by (simp add: busy_ok_def)
  have f: "busy_ok (run_fail s)" by (simp add: busy_ok_def run_fail_def Let_def)
  have n: "busy_ok (number_epoch c s)" for c using b by (simp add: busy_ok_def)
  have p: "busy_ok (media cs (s\<lparr>en_phase := p\<rparr>))" for cs p using b by (simp add: busy_ok_def media_def)
  have a: "busy_ok (after_activate pf c s)" for c
    using b by (simp add: after_activate_def Let_def rekey_return_busy become_active_frame)
  show ?thesis
    using b f n p a assms by (simp add: resume_def Let_def rekey_return_busy give_up_frame activate_stage_busy after_install_busy split: phase.split)
qed (simp add: resume_def assms)

lemma run_busy: "busy_ok s \<Longrightarrow> busy_ok (run pf s)"
  by (simp add: run_def rekey_begin_busy) (simp add: busy_ok_def)

lemma schedule_busy [simp]: "en_busy (schedule r d s) = en_busy s" "en_phase (schedule r d s) = en_phase s"
  by (simp_all add: schedule_def Let_def)


lemma still_busy: "still s s' \<Longrightarrow> busy_ok s \<Longrightarrow> busy_ok s'"
  by (simp add: still_def busy_ok_def)

lemma interrupt_idle [simp]: "interrupt p = PIdle \<longleftrightarrow> p = PIdle"
  by (cases p) (simp_all add: interrupt_def)

lemma record_result_busy [simp]:
  "en_busy (record_result g e r ok s) = en_busy s" "en_phase (record_result g e r ok s) = en_phase s"
  by (simp_all add: record_result_def scheduleRetry_def Let_def)

lemma put_dist_busy [simp]: "en_busy (put_dist n d s) = en_busy s" "en_phase (put_dist n d s) = en_phase s"
  by (simp_all add: put_dist_def distribution_settled_def scheduleRetry_def split: option.split)

lemma start_distribution_phase [simp]: "en_phase (start_distribution g rs e a s) = en_phase s"
  by (simp add: start_distribution_def distribution_settled_def scheduleRetry_def Let_def split: option.split)

lemma setRoster_busy:
  assumes "busy_ok s"
  shows "busy_ok (setRoster clients s)"
proof -
  have rc: "busy_ok (recipients_changed rs s')" if "busy_ok s'" for rs s'
    using that by (simp add: recipients_changed_def Let_def busy_ok_def noteRemoval_def)
  let ?s1 = "scheduleMembershipCheck (s\<lparr>en_roster := clients, en_rosterAt := en_now s\<rparr>)"
  have "busy_ok (drainPending (forget_gone self ?s1))" for self
    by (rule still_busy [OF _ assms]) simp
  moreover have "busy_ok (s\<lparr>en_roster := clients\<rparr>)" "busy_ok (s\<lparr>en_roster := clients, en_invisible := n\<rparr>)" for n
    using assms by (simp_all add: busy_ok_def)
  ultimately show ?thesis by (simp add: setRoster_def Let_def rc split: option.split)
qed


lemma fold_retire_frame [simp]:
  "en_busy (fold (\<lambda>a. retire_own c (fst a)) acts s) = en_busy s"
  "en_phase (fold (\<lambda>a. retire_own c (fst a)) acts s) = en_phase s"
  "en_activeEpoch (fold (\<lambda>a. retire_own c (fst a)) acts s) = en_activeEpoch s"
  "en_paused (fold (\<lambda>a. retire_own c (fst a)) acts s) = en_paused s"
  "en_pendingRemovals (fold (\<lambda>a. retire_own c (fst a)) acts s) = en_pendingRemovals s"
  by (induction acts arbitrary: s) (auto simp: retire_own_def media_def)

lemma fold_retire_log: "set (media_log s) \<subseteq> set (media_log (fold (\<lambda>a. retire_own c (fst a)) acts s))"
proof -
  obtain cs where "fold (\<lambda>a. retire_own c (fst a)) acts s = media cs s" using fold_retire_media by blast
  then show ?thesis by (simp add: media_def)
qed

lemma removal_due_busy: "busy_ok s \<Longrightarrow> busy_ok (removal_due sq s)"
  by (simp add: removal_due_def Let_def busy_ok_def retire_own_def media_def)

lemma engine_step_inv:
  assumes inv: "engine_inv s"
  shows "engine_inv (engine_step pf ev s)"
proof -
  have i: "issue_inv s" and b: "busy_ok s" using inv by (simp_all add: engine_inv_def)
  have st: "engine_inv s'" if "still s s'" for s'
    using still_issue_inv [OF that i] still_busy [OF that b] by (simp add: engine_inv_def)
  have idle: "\<not> en_busy s \<Longrightarrow> en_phase s = PIdle" using b by (auto simp: busy_ok_def)
  have rn: "engine_inv (run pf s')" if "still s s'" for s'
  proof -
    have "\<not> en_busy s' \<Longrightarrow> en_phase s' = PIdle" using idle that by (simp add: still_def)
    then show ?thesis
      using run_issue_inv [OF still_issue_inv [OF that i]] run_busy [OF still_busy [OF that b]] by (simp add: engine_inv_def)
  qed
  show ?thesis
  proof (cases ev)
    case (VStart self)
    have "busy_ok (start pf self s)" using b by (simp add: start_def busy_ok_def)
    with VStart start_issue_inv [OF i] show ?thesis by (simp add: engine_inv_def)
  next
    case VStop
    have "busy_ok (stop s)" using b by (simp add: stop_def busy_ok_def media_def split: option.split)
    with VStop stop_issue_inv [OF i] show ?thesis by (simp add: engine_inv_def)
  next
    case (VRoster clients)
    with setRoster_issue_inv [OF i] setRoster_busy [OF b] show ?thesis by (simp add: engine_inv_def)
  next
    case VDebounce
    then show ?thesis using rn inv by (simp add: debounce_timer_def split: option.split)
  next
    case VRunRetry
    then show ?thesis using rn inv by (simp add: run_retry_timer_def split: option.split)
  next
    case (VRemovalDue sq)
    with removal_due_issue_inv [OF i] removal_due_busy [OF b] show ?thesis by (simp add: engine_inv_def)
  next
    case VRetry
    have "busy_ok (retry_timer s)" using b by (auto simp: retry_timer_def Let_def busy_ok_def split: option.splits)
    with VRetry retry_timer_issue_inv [OF i] show ?thesis by (simp add: engine_inv_def)
  next
    case (VResume ok)
    with resume_issue_inv [OF i] resume_busy [OF b] show ?thesis by (simp add: engine_inv_def)
  next
    case (VPump n)
    have "busy_ok (pump n s)" using b by (auto simp: pump_def Let_def busy_ok_def split: list.splits)
    with VPump pump_issue_inv [OF i] show ?thesis by (simp add: engine_inv_def)
  next
    case (VSendAnswer n m ok)
    have "busy_ok (send_answer n m ok s)" using b by (auto simp: send_answer_def Let_def busy_ok_def)
    with VSendAnswer send_answer_issue_inv [OF i] show ?thesis by (simp add: engine_inv_def)
  qed (use st in simp_all)
qed

interpretation key_engine: step_machine "engine_step pf" for pf .

lemma engine_run_eq: "engine_run pf es s = key_engine.run pf es s"
  by (simp add: engine_run_def key_engine.run_def)

lemma new_engine_inv: "engine_inv new_engine"
  by (simp add: engine_inv_def issue_inv_def busy_ok_def new_engine_def jvals_Nil)

lemma engine_run_inv: "engine_inv (engine_run pf es new_engine)"
  unfolding engine_run_eq by (rule key_engine.run_invariant) (simp_all add: engine_step_inv new_engine_inv)

section \<open>A removal whose deadline passed\<close>

definition pause_inv :: "engine \<Rightarrow> bool" where
  "pause_inv s \<longleftrightarrow> (\<forall>r \<in> set (en_pendingRemovals s). rm_due r \<longrightarrow> en_paused s \<or> en_activeEpoch s = 0)
     \<and> (en_paused s \<longrightarrow> en_activeEpoch s \<noteq> 0 \<longrightarrow>
          (\<forall>slot \<in> set SLOTS. MRetireOne (senderPid (Some slot)) (en_activeEpoch s) \<in> set (media_log s)))"

text \<open>Steps that keep the removals, the pause and the active epoch.\<close>

definition kept :: "engine \<Rightarrow> engine \<Rightarrow> bool" where
  "kept s s' \<longleftrightarrow> en_pendingRemovals s' = en_pendingRemovals s \<and> en_paused s' = en_paused s \<and> en_activeEpoch s' = en_activeEpoch s
     \<and> set (media_log s) \<subseteq> set (media_log s')"

lemma kept_pause: "kept s s' \<Longrightarrow> pause_inv s \<Longrightarrow> pause_inv s'"
  unfolding kept_def pause_inv_def by auto

lemma kept_trans: "kept s s' \<Longrightarrow> kept s' s'' \<Longrightarrow> kept s s''"
  by (auto simp: kept_def)

lemma kept_refl [simp]: "kept s s"
  by (simp add: kept_def)

lemma kept_media: "kept s s' \<Longrightarrow> kept s (media cs s')"
  by (auto simp: kept_def media_def)


lemma kept_basic [simp]:
  "kept s (ignore r s') = kept s s'"
  "kept s (scheduleMembershipCheck s') = kept s s'"
  "kept s (scheduleRetry g e s') = kept s s'"
  "kept s (schedule reason d s') = kept s s'"
  "kept s (upd_pub c f s') = kept s s'"
  "kept s (number_epoch ctx s') = kept s s'"
  "kept s (run_end s') = kept s s'"
  "kept s (run_fail s') = kept s s'"
  by (simp_all add: kept_def ignore_def scheduleMembershipCheck_def scheduleRetry_def schedule_def upd_pub_def number_epoch_def
      run_end_def run_fail_def Let_def)

lemma kept_updates [simp]:
  "kept s (s'\<lparr>en_again := ag\<rparr>) = kept s s'"
  "kept s (s'\<lparr>en_phase := p\<rparr>) = kept s s'"
  "kept s (s'\<lparr>en_dists := ds\<rparr>) = kept s s'"
  "kept s (s'\<lparr>en_installs := i\<rparr>) = kept s s'"
  "kept s (s'\<lparr>en_preinstalls := pre\<rparr>) = kept s s'"
  "kept s (s'\<lparr>en_pending := q\<rparr>) = kept s s'"
  "kept s (s'\<lparr>en_retireTimers := rt\<rparr>) = kept s s'"
  "kept s (s'\<lparr>en_applied := n\<rparr>) = kept s s'"
  "kept s (s'\<lparr>en_settle := st\<rparr>) = kept s s'"
  "kept s (s'\<lparr>en_checks := ch\<rparr>) = kept s s'"
  "kept s (s'\<lparr>en_mismatch := mm\<rparr>) = kept s s'"
  "kept s (s'\<lparr>en_renew := rn\<rparr>) = kept s s'"
  "kept s (s'\<lparr>en_retry := rt'\<rparr>) = kept s s'"
  "kept s (s'\<lparr>en_retryArmed := ra\<rparr>) = kept s s'"
  "kept s (s'\<lparr>en_now := t\<rparr>) = kept s s'"
  "kept s (s'\<lparr>en_roster := r\<rparr>) = kept s s'"
  "kept s (s'\<lparr>en_rosterAt := t\<rparr>) = kept s s'"
  "kept s (s'\<lparr>en_invisible := n\<rparr>) = kept s s'"
  "kept s (s'\<lparr>en_activating := acts\<rparr>) = kept s s'"
  "kept s (s'\<lparr>en_recipients := rs\<rparr>) = kept s s'"
  "kept s (s'\<lparr>en_recipientKey := rk\<rparr>) = kept s s'"
  "kept s (s'\<lparr>en_debounce := db\<rparr>) = kept s s'"
  "kept s (s'\<lparr>en_removalDebounce := rb\<rparr>) = kept s s'"
  "kept s (s'\<lparr>en_runRetry := rr\<rparr>) = kept s s'"
  "kept s (s'\<lparr>en_busy := bs\<rparr>) = kept s s'"
  "kept s (s'\<lparr>en_runGen := rg\<rparr>) = kept s s'"
  "kept s (s'\<lparr>en_deliveries := ds'\<rparr>) = kept s s'"
  "kept s (s'\<lparr>en_seq := sq\<rparr>) = kept s s'"
  "kept s (s'\<lparr>en_reason := rs'\<rparr>) = kept s s'"
  "kept s (s'\<lparr>en_busyOrPending := bp\<rparr>) = kept s s'"
  "kept s (s'\<lparr>en_randSeq := n\<rparr>) = kept s s'"
  "kept s (s'\<lparr>en_publishers := pb\<rparr>) = kept s s'"
  "kept s (s'\<lparr>en_stateSeq := n\<rparr>) = kept s s'"
  "kept s (s'\<lparr>acceptedEpochs := ae\<rparr>) = kept s s'"
  "kept s (s'\<lparr>accept_log := al\<rparr>) = kept s s'"
  "kept s (s'\<lparr>send_log := sl\<rparr>) = kept s s'"
  "kept s (s'\<lparr>en_epoch := ep\<rparr>) = kept s s'"
  "kept s (s'\<lparr>en_kid := kd\<rparr>) = kept s s'"
  "kept s (s'\<lparr>en_members := mb\<rparr>) = kept s s'"
  "kept s (s'\<lparr>en_epochs := n\<rparr>) = kept s s'"
  "kept s (s'\<lparr>en_failed := fl\<rparr>) = kept s s'"
  "kept s (s'\<lparr>en_sentTo := st'\<rparr>) = kept s s'"
  "kept s (s'\<lparr>en_sent := n\<rparr>) = kept s s'"
  "kept s (s'\<lparr>en_failures := n\<rparr>) = kept s s'"
  "kept s (s'\<lparr>en_self := sf\<rparr>) = kept s s'"
  "kept s (s'\<lparr>en_gen := g\<rparr>) = kept s s'"
  "kept s (s'\<lparr>en_session := ss\<rparr>) = kept s s'"
  by (simp_all add: kept_def)

lemma kept_still: "still s s' \<Longrightarrow> set (media_log s) \<subseteq> set (media_log s') \<Longrightarrow> kept s s'"
  by (simp add: still_def kept_def)

lemma kept_apply_control: "kept s s' \<Longrightarrow> kept s (apply_control c v s')"
  by (simp add: apply_control_def Let_def kept_media)

lemma kept_receive: "kept s s' \<Longrightarrow> kept s (receive c s')"
  by (simp add: receive_def Let_def kept_apply_control split: option.split sum.split)

lemma kept_drain_fold:
  "kept s s' \<Longrightarrow> kept s (fst (fold (\<lambda>p (s, keep).
        if pc_gen p \<noteq> en_gen s \<or> en_now s - pc_at p \<ge> PENDING_MS then (s, keep)
        else if bound s (pc_control p) (pc_value p) then (apply_control (pc_control p) (pc_value p) s, keep)
        else (s, keep @ [p])) ps (s', k)))"
  by (induction ps arbitrary: s' k) (auto simp: kept_apply_control)

lemma kept_drainPending: "kept s s' \<Longrightarrow> kept s (drainPending s')"
  using kept_drain_fold [of s s' "en_pending s'" "[]"] by (simp add: drainPending_def split_beta)

lemma kept_forget_gone: "kept s s' \<Longrightarrow> kept s (forget_gone self s')"
  by (simp add: forget_gone_def Let_def kept_media)

lemma kept_installs: "kept s s' \<Longrightarrow> kept s (install_answer n ok s')" "kept s s' \<Longrightarrow> kept s (preinstall_answer pf n ok s')"
  by (simp_all add: install_answer_def install_done_def preinstall_answer_def Let_def kept_media split: option.split)

lemma kept_timers: "kept s s' \<Longrightarrow> kept s (renew_timer s')" "kept s s' \<Longrightarrow> kept s (settle_timer pf s')"
  "kept s s' \<Longrightarrow> kept s (check_done s')" "kept s s' \<Longrightarrow> kept s (retire_timer_fired n s')" "kept s s' \<Longrightarrow> kept s (publicationsChanged s')"
  by (simp_all add: renew_timer_def settle_timer_def check_done_def retire_timer_fired_def publicationsChanged_def Let_def kept_media
      split: option.split list.split)

lemma kept_distribution: "kept s (distribution_settled d s') = kept s s'" "kept s (start_distribution g rs e a s') = kept s s'"
  "kept s (put_dist n d s') = kept s s'" "kept s (record_result g e r ok s') = kept s s'"
  by (simp_all add: distribution_settled_def start_distribution_def put_dist_def record_result_def Let_def split: option.split)

lemma kept_delivery: "kept s (pump n s') = kept s s'" "kept s (send_answer n m ok s') = kept s s'" "kept s (retry_timer s') = kept s s'"
  by (simp_all add: pump_def send_answer_def retry_timer_def kept_distribution Let_def split: list.split option.split)

lemma kept_give_up: "kept s s' \<Longrightarrow> kept s (give_up_epoch c b s')"
  by (simp add: give_up_epoch_def retire_own_def Let_def kept_media split: option.split)

lemma kept_rekey_begin: "kept s (rekey_begin pf s') = kept s s'"
  by (simp add: rekey_begin_def Let_def split: option.split)

lemma kept_rekey_return: "kept s (rekey_return pf s') = kept s s'"
  by (simp add: rekey_return_def kept_rekey_begin)

lemma kept_run: "kept s (run pf s') = kept s s'"
  by (simp add: run_def kept_rekey_begin)

lemma kept_activate: "kept s s' \<Longrightarrow> kept s (activate_stage pf c s')" "kept s s' \<Longrightarrow> kept s (after_install pf c s')"
  by (simp_all add: activate_stage_def after_install_def kept_rekey_return kept_give_up kept_media kept_distribution Let_def)


lemma retire_own_log: "slot \<in> set SLOTS \<Longrightarrow> MRetireOne (senderPid (Some slot)) e \<in> set (media_log (retire_own c e s))"
  by (auto simp: retire_own_def media_def own_pids_def)

lemma removal_due_pause:
  assumes inv: "pause_inv s"
  shows "pause_inv (removal_due sq s)"
proof -
  let ?acts = "filter (\<lambda>a. snd a < sq) (en_activating s)"
  let ?rs = "map (\<lambda>r. if rm_seq r = sq then r\<lparr>rm_due := True\<rparr> else r) (en_pendingRemovals s)"
  define s3 where "s3 = fold (\<lambda>a. retire_own (own_client s) (fst a)) ?acts
     (s\<lparr>en_pendingRemovals := ?rs, en_activating := filter (\<lambda>a. snd a \<ge> sq) (en_activating s)\<rparr>)"
  have f: "en_activeEpoch s3 = en_activeEpoch s" "en_paused s3 = en_paused s" "en_pendingRemovals s3 = ?rs"
    by (simp_all add: s3_def)
  have log: "set (media_log s) \<subseteq> set (media_log s3)"
    using fold_retire_log [of "s\<lparr>en_pendingRemovals := ?rs, en_activating := filter (\<lambda>a. snd a \<ge> sq) (en_activating s)\<rparr>"]
    by (simp add: s3_def)
  let ?s4 = "if en_activeEpoch s3 \<noteq> 0 \<and> \<not> en_paused s3 then retire_own (own_client s) (en_activeEpoch s3) s3 else s3"
  have f4: "en_activeEpoch ?s4 = en_activeEpoch s" by (simp add: f retire_own_def media_def)
  have quiet: "pause_inv s3" if "en_activeEpoch s3 = 0 \<or> en_paused s3"
    using that inv log unfolding pause_inv_def f by auto
  have "MRetireOne (senderPid (Some slot)) (en_activeEpoch s) \<in> set (media_log ?s4)"
    if "slot \<in> set SLOTS" "en_activeEpoch s \<noteq> 0" for slot
    using retire_own_log [OF that(1)] that inv log by (auto simp: f pause_inv_def)
  then have pausing: "pause_inv (?s4\<lparr>en_paused := True\<rparr>)" using f4 by (simp add: pause_inv_def)
  have "removal_due sq s = (if \<not> (\<exists>r \<in> set (en_pendingRemovals s). rm_seq r = sq \<and> \<not> rm_due r \<and> rm_deadline r \<le> en_now s) then s
      else if (en_activeEpoch s3 = 0 \<or> en_paused s3) \<and> ?acts = [] then s3 else ?s4\<lparr>en_paused := True\<rparr>)"
    by (auto simp: removal_due_def Let_def s3_def)
  then show ?thesis using inv quiet pausing by (simp split: if_splits)
qed

lemma become_active_pause: "pause_inv (become_active c s)"
proof -
  define s1 where "s1 = scheduleRetry (k_gen c) (k_epoch c) (s\<lparr>en_activeEpoch := k_epoch c, en_activeRecipients := k_recipients c\<rparr>)"
  define s2 where "s2 = (if newer_due c s1 then retire_own (clientID (k_self c)) (k_epoch c) (s1\<lparr>en_paused := True\<rparr>) else s1\<lparr>en_paused := False\<rparr>)"
  let ?s = "become_active c s"
  have a: "en_activeEpoch s1 = k_epoch c" by (simp add: s1_def scheduleRetry_def)
  have r: "en_pendingRemovals s2 = en_pendingRemovals s1" "en_activeEpoch s2 = k_epoch c" "en_paused s2 = newer_due c s1"
    by (simp_all add: s2_def retire_own_def media_def a)
  have f: "en_activeEpoch ?s = en_activeEpoch s2" "en_paused ?s = en_paused s2" "media_log ?s = media_log s2"
    "en_pendingRemovals ?s = filter (\<lambda>r. rm_seq r > k_created c) (en_pendingRemovals s2)"
    by (simp_all add: become_active_def Let_def s1_def s2_def)
  have "MRetireOne (senderPid (Some slot)) (k_epoch c) \<in> set (media_log s2)" if "newer_due c s1" "slot \<in> set SLOTS" for slot
    using that retire_own_log by (simp add: s2_def)
  then show ?thesis
    unfolding pause_inv_def f r by (auto simp: newer_due_def)
qed

lemma noteRemoval_pause: "pause_inv s \<Longrightarrow> pause_inv (noteRemoval s)"
  by (auto simp: pause_inv_def noteRemoval_def)

lemma recipients_changed_pause:
  assumes "pause_inv s"
  shows "pause_inv (recipients_changed rs s)"
proof -
  have "pause_inv (schedule r d (s'\<lparr>en_recipientKey := k, en_recipients := rs\<rparr>))" if "pause_inv s'" for r d s' k
    by (rule kept_pause [OF _ that]) simp
  then show ?thesis using assms noteRemoval_pause [OF assms] by (simp add: recipients_changed_def Let_def)
qed

lemma engine_step_pause:
  assumes inv: "pause_inv s"
  shows "pause_inv (engine_step pf ev s)"
proof -
  have k: "pause_inv s'" if "kept s s'" for s' by (rule kept_pause [OF that inv])
  show ?thesis
  proof (cases ev)
    case (VStart self)
    have "kept s (start pf self s)" by (simp add: start_def)
    then show ?thesis using VStart k by simp
  next
    case VStop
    then show ?thesis using inv by (auto simp: stop_def pause_inv_def media_def split: option.split)
  next
    case (VRoster clients)
    have "pause_inv (drainPending (forget_gone self (scheduleMembershipCheck (s\<lparr>en_roster := clients, en_rosterAt := en_now s\<rparr>))))" for self
      by (rule k) (simp add: kept_drainPending kept_forget_gone)
    then show ?thesis
      using VRoster k by (simp add: setRoster_def Let_def recipients_changed_pause split: option.split)
  next
    case (VResume ok)
    have ret: "pause_inv (rekey_return pf s')" if "pause_inv s'" for s'
      by (rule kept_pause [OF _ that]) (simp add: kept_rekey_return)
    have "pause_inv (s\<lparr>en_activating := acts\<rparr>)" for acts by (rule k) simp
    then have aa: "pause_inv (after_activate pf c s)" for c
      using ret become_active_pause by (simp add: after_activate_def Let_def)
    have "kept s (resume pf ok s)" if "\<And>c n. en_phase s \<noteq> PActivate c n"
      using that by (simp add: resume_def Let_def kept_rekey_return kept_activate kept_give_up kept_media split: phase.split)
    moreover have "pause_inv (resume pf ok s)" if "en_phase s = PActivate c n" for c n
      using aa k that by (simp add: resume_def kept_media)
    ultimately show ?thesis using VResume k by (cases "en_phase s") auto
  next
    case VDebounce
    then show ?thesis using k inv by (simp add: debounce_timer_def kept_run split: option.split)
  next
    case VRunRetry
    then show ?thesis using k inv by (simp add: run_retry_timer_def kept_run split: option.split)
  qed (use k inv removal_due_pause in \<open>simp_all add: kept_receive kept_timers kept_installs kept_delivery\<close>)
qed

lemma engine_run_pause: "pause_inv (engine_run pf es new_engine)"
  unfolding engine_run_eq
  by (rule key_engine.run_invariant) (simp_all add: engine_step_pause, simp add: pause_inv_def new_engine_def)


section \<open>Accepted epochs of a device only go up\<close>

definition accept_inv :: "engine \<Rightarrow> bool" where
  "accept_inv s \<longleftrightarrow> sorted_wrt (\<lambda>a b. ac_line a = ac_line b \<longrightarrow> ac_epoch a < ac_epoch b) (accept_log s)
     \<and> (\<forall>a \<in> set (accept_log s). ac_epoch a \<le> epoch_line (acceptedEpochs s) (ac_line a))"

definition deaf :: "engine \<Rightarrow> engine \<Rightarrow> bool" where
  "deaf s s' \<longleftrightarrow> accept_log s' = accept_log s \<and> acceptedEpochs s' = acceptedEpochs s \<and> send_log s' = send_log s"

lemma deaf_accept: "deaf s s' \<Longrightarrow> accept_inv s \<Longrightarrow> accept_inv s'"
  by (simp add: deaf_def accept_inv_def)

lemma deaf_basic [simp]:
  "deaf s s" "deaf s (media cs s') = deaf s s'"
  "deaf s (ignore r s') = deaf s s'" "deaf s (scheduleMembershipCheck s') = deaf s s'"
  "deaf s (scheduleRetry g e s') = deaf s s'" "deaf s (schedule reason d s') = deaf s s'"
  "deaf s (upd_pub cl f s') = deaf s s'" "deaf s (number_epoch ctx s') = deaf s s'"
  "deaf s (run_end s') = deaf s s'" "deaf s (run_fail s') = deaf s s'" "deaf s (noteRemoval s') = deaf s s'"
  "deaf s (retire_own cl e s') = deaf s s'"
  by (simp_all add: deaf_def media_def ignore_def scheduleMembershipCheck_def scheduleRetry_def schedule_def upd_pub_def
      number_epoch_def run_end_def run_fail_def noteRemoval_def retire_own_def Let_def)

lemma deaf_updates [simp]:
  "deaf s (s'\<lparr>en_again := ag\<rparr>) = deaf s s'" "deaf s (s'\<lparr>en_phase := p\<rparr>) = deaf s s'"
  "deaf s (s'\<lparr>en_dists := ds\<rparr>) = deaf s s'" "deaf s (s'\<lparr>en_installs := i\<rparr>) = deaf s s'"
  "deaf s (s'\<lparr>en_preinstalls := pre\<rparr>) = deaf s s'" "deaf s (s'\<lparr>en_pending := q\<rparr>) = deaf s s'"
  "deaf s (s'\<lparr>en_retireTimers := rt\<rparr>) = deaf s s'" "deaf s (s'\<lparr>en_applied := n\<rparr>) = deaf s s'"
  "deaf s (s'\<lparr>en_settle := st\<rparr>) = deaf s s'" "deaf s (s'\<lparr>en_checks := ch\<rparr>) = deaf s s'"
  "deaf s (s'\<lparr>en_mismatch := mm\<rparr>) = deaf s s'" "deaf s (s'\<lparr>en_renew := rn\<rparr>) = deaf s s'"
  "deaf s (s'\<lparr>en_retry := rt'\<rparr>) = deaf s s'" "deaf s (s'\<lparr>en_retryArmed := ra\<rparr>) = deaf s s'"
  "deaf s (s'\<lparr>en_now := t\<rparr>) = deaf s s'" "deaf s (s'\<lparr>en_roster := r\<rparr>) = deaf s s'"
  "deaf s (s'\<lparr>en_rosterAt := t\<rparr>) = deaf s s'" "deaf s (s'\<lparr>en_invisible := n\<rparr>) = deaf s s'"
  "deaf s (s'\<lparr>en_activating := acts\<rparr>) = deaf s s'" "deaf s (s'\<lparr>en_recipients := rs\<rparr>) = deaf s s'"
  "deaf s (s'\<lparr>en_recipientKey := rk\<rparr>) = deaf s s'" "deaf s (s'\<lparr>en_debounce := db\<rparr>) = deaf s s'"
  "deaf s (s'\<lparr>en_removalDebounce := rb\<rparr>) = deaf s s'" "deaf s (s'\<lparr>en_runRetry := rr\<rparr>) = deaf s s'"
  "deaf s (s'\<lparr>en_busy := bs\<rparr>) = deaf s s'" "deaf s (s'\<lparr>en_runGen := rg\<rparr>) = deaf s s'"
  "deaf s (s'\<lparr>en_deliveries := ds'\<rparr>) = deaf s s'" "deaf s (s'\<lparr>en_seq := sq\<rparr>) = deaf s s'"
  "deaf s (s'\<lparr>en_reason := rs'\<rparr>) = deaf s s'" "deaf s (s'\<lparr>en_busyOrPending := bp\<rparr>) = deaf s s'"
  "deaf s (s'\<lparr>en_randSeq := n\<rparr>) = deaf s s'" "deaf s (s'\<lparr>en_publishers := pb\<rparr>) = deaf s s'"
  "deaf s (s'\<lparr>en_stateSeq := n\<rparr>) = deaf s s'"
  "deaf s (s'\<lparr>en_epoch := ep\<rparr>) = deaf s s'" "deaf s (s'\<lparr>en_kid := kd\<rparr>) = deaf s s'"
  "deaf s (s'\<lparr>en_members := mb\<rparr>) = deaf s s'" "deaf s (s'\<lparr>en_epochs := n\<rparr>) = deaf s s'"
  "deaf s (s'\<lparr>en_failed := fl\<rparr>) = deaf s s'" "deaf s (s'\<lparr>en_sentTo := st'\<rparr>) = deaf s s'"
  "deaf s (s'\<lparr>en_sent := n\<rparr>) = deaf s s'" "deaf s (s'\<lparr>en_failures := n\<rparr>) = deaf s s'"
  "deaf s (s'\<lparr>en_self := sf\<rparr>) = deaf s s'" "deaf s (s'\<lparr>en_gen := g\<rparr>) = deaf s s'"
  "deaf s (s'\<lparr>en_session := ss\<rparr>) = deaf s s'" "deaf s (s'\<lparr>en_paused := pz\<rparr>) = deaf s s'"
  "deaf s (s'\<lparr>en_pendingRemovals := pr\<rparr>) = deaf s s'" "deaf s (s'\<lparr>en_activeEpoch := ae\<rparr>) = deaf s s'"
  "deaf s (s'\<lparr>en_activeRecipients := ar\<rparr>) = deaf s s'"
  by (simp_all add: deaf_def)

lemma deaf_fold_retire [simp]: "deaf s (fold (\<lambda>a. retire_own c (fst a)) acts s') = deaf s s'"
  by (induction acts arbitrary: s') simp_all

lemma deaf_steps [simp]:
  "deaf s (forget_gone self s') = deaf s s'" "deaf s (install_answer n ok s') = deaf s s'"
  "deaf s (preinstall_answer pf n ok s') = deaf s s'" "deaf s (renew_timer s') = deaf s s'" "deaf s (settle_timer pf s') = deaf s s'"
  "deaf s (check_done s') = deaf s s'" "deaf s (retire_timer_fired n s') = deaf s s'" "deaf s (publicationsChanged s') = deaf s s'"
  "deaf s (distribution_settled d s') = deaf s s'" "deaf s (start_distribution g rs e a s') = deaf s s'"
  "deaf s (put_dist n d s') = deaf s s'" "deaf s (record_result g e r ok s') = deaf s s'"
  "deaf s (give_up_epoch ctx b s') = deaf s s'" "deaf s (rekey_begin pf s') = deaf s s'" "deaf s (removal_due sq s') = deaf s s'"
  "deaf s (become_active ctx s') = deaf s s'" "deaf s (recipients_changed rs s') = deaf s s'"
  by (simp_all add: forget_gone_def install_answer_def install_done_def preinstall_answer_def renew_timer_def settle_timer_def
      check_done_def retire_timer_fired_def publicationsChanged_def distribution_settled_def start_distribution_def put_dist_def
      record_result_def give_up_epoch_def rekey_begin_def removal_due_def become_active_def recipients_changed_def Let_def
      split: option.split list.split)

lemma deaf_stages [simp]:
  "deaf s (send_answer n m ok s') = deaf s s'" "deaf s (retry_timer s') = deaf s s'"
  "deaf s (rekey_return pf s') = deaf s s'" "deaf s (run pf s') = deaf s s'" "deaf s (start pf self s') = deaf s s'"
  by (simp_all add: send_answer_def retry_timer_def rekey_return_def run_def start_def Let_def split: list.split option.split)

lemma deaf_activate [simp]: "deaf s (activate_stage pf ctx s') = deaf s s'" "deaf s (after_activate pf ctx s') = deaf s s'"
  by (simp_all add: activate_stage_def after_activate_def Let_def)

lemma deaf_after_install [simp]: "deaf s (after_install pf ctx s') = deaf s s'"
  by (simp add: after_install_def Let_def)

lemma deaf_resume: "deaf s (resume pf ok s)"
  by (simp add: resume_def Let_def split: phase.split)

lemma deaf_stop: "deaf s (stop s)"
  by (simp add: stop_def split: option.split)

lemma apply_control_accept:
  assumes inv: "accept_inv s"
  shows "accept_inv (apply_control control v s)"
proof (cases "control_epoch control \<le> epoch_line (acceptedEpochs s) (control_line control)")
  case True
  then show ?thesis using deaf_accept [OF _ inv] by (simp add: apply_control_def Let_def)
next
  case False
  let ?s = "s\<lparr>acceptedEpochs := jset (control_line control) (control_epoch control) (acceptedEpochs s),
      accept_log := accept_log s @ [\<lparr>ac_line = control_line control, ac_epoch = control_epoch control\<rparr>]\<rparr>"
  have "accept_inv ?s"
    using inv False by (fastforce simp: accept_inv_def sorted_wrt_append epoch_line_def)
  moreover have "deaf ?s (apply_control control v s)" using False by (simp add: apply_control_def Let_def)
  ultimately show ?thesis using deaf_accept by blast
qed

lemma receive_accept:
  assumes inv: "accept_inv s"
  shows "accept_inv (receive control s)"
proof -
  have d: "accept_inv s'" if "deaf s s'" for s' by (rule deaf_accept [OF that inv])
  show ?thesis
    by (simp add: receive_def Let_def apply_control_accept [OF inv] d split: option.split sum.split)
qed

lemma drain_fold_accept:
  "accept_inv s' \<Longrightarrow> accept_inv (fst (fold (\<lambda>p (s, keep).
        if pc_gen p \<noteq> en_gen s \<or> en_now s - pc_at p \<ge> PENDING_MS then (s, keep)
        else if bound s (pc_control p) (pc_value p) then (apply_control (pc_control p) (pc_value p) s, keep)
        else (s, keep @ [p])) ps (s', k)))"
  by (induction ps arbitrary: s' k) (auto simp: apply_control_accept)

lemma drainPending_accept: "accept_inv s \<Longrightarrow> accept_inv (drainPending s)"
  using drain_fold_accept [of s "en_pending s" "[]"] by (auto simp: drainPending_def split_beta intro: deaf_accept [rotated])

text \<open>Only a worker of the pool sends, and only to a device that is a recipient right now.\<close>

lemma pump_cases:
  obtains "deaf s (pump n s)"
  | r where "n < length (en_dists s)" "ds_queue (en_dists s ! n) \<noteq> []" "r = hd (ds_queue (en_dists s ! n))" "isRecipient s r"
      "\<not> invisible s" "ds_gen (en_dists s ! n) = en_gen s"
      "send_log (pump n s) = send_log s @ [\<lparr>sn_gen = en_gen s, sn_epoch = ds_epoch (en_dists s ! n), sn_rid = rid r\<rparr>]"
      "accept_log (pump n s) = accept_log s" "acceptedEpochs (pump n s) = acceptedEpochs s"
proof (cases "n < length (en_dists s) \<and> ds_queue (en_dists s ! n) \<noteq> [] \<and> length (ds_flight (en_dists s ! n)) < CONCURRENCY
    \<and> ds_gen (en_dists s ! n) = en_gen s \<and> \<not> invisible s \<and> isRecipient s (hd (ds_queue (en_dists s ! n)))")
  case True
  then obtain r rs where "ds_queue (en_dists s ! n) = r # rs" by (cases "ds_queue (en_dists s ! n)") auto
  with True show ?thesis by (intro that(2) [of r]) (simp_all add: pump_def Let_def)
next
  case False
  have "deaf s (pump n s)"
  proof (cases "n < length (en_dists s)")
    case True
    with False show ?thesis by (cases "ds_queue (en_dists s ! n)") (auto simp: pump_def Let_def not_le)
  qed (simp add: pump_def)
  then show ?thesis by (rule that(1))
qed

lemma pump_accept: "accept_inv s \<Longrightarrow> accept_inv (pump n s)"
  by (rule pump_cases [of s n]) (auto simp: accept_inv_def deaf_def)

lemma engine_step_accept:
  assumes inv: "accept_inv s"
  shows "accept_inv (engine_step pf ev s)"
proof -
  have d: "accept_inv s'" if "deaf s s'" for s' by (rule deaf_accept [OF that inv])
  show ?thesis
  proof (cases ev)
    case (VRoster clients)
    let ?f = "\<lambda>self. forget_gone self (scheduleMembershipCheck (s\<lparr>en_roster := clients, en_rosterAt := en_now s\<rparr>))"
    have "accept_inv (drainPending (?f self))" for self
      by (rule drainPending_accept) (rule d, simp)
    then have "accept_inv (recipients_changed rs (drainPending (?f self)))" for rs self
      by (intro deaf_accept [of "drainPending (?f self)" "recipients_changed rs (drainPending (?f self))"]) simp_all
    then show ?thesis using VRoster d by (simp add: setRoster_def Let_def split: option.split)
  next
    case VDebounce
    then show ?thesis using d by (simp add: debounce_timer_def split: option.split)
  next
    case VRunRetry
    then show ?thesis using d by (simp add: run_retry_timer_def split: option.split)
  qed (use d deaf_resume deaf_stop receive_accept [OF inv] pump_accept [OF inv] in simp_all)
qed

lemma engine_run_accept: "accept_inv (engine_run pf es new_engine)"
  unfolding engine_run_eq
  by (rule key_engine.run_invariant) (simp_all add: engine_step_accept, simp add: accept_inv_def new_engine_def)


lemma still_sends: "still s s' \<Longrightarrow> send_log s' = send_log s"
  by (simp add: still_def)

lemma deaf_sends: "deaf s s' \<Longrightarrow> send_log s' = send_log s"
  by (simp add: deaf_def)

lemma setRoster_sends: "send_log (setRoster clients s) = send_log s"
proof -
  have rc: "send_log (recipients_changed rs s') = send_log s'" for rs s'
    by (rule deaf_sends) simp
  have "send_log (drainPending (forget_gone self (scheduleMembershipCheck (s\<lparr>en_roster := clients, en_rosterAt := en_now s\<rparr>)))) = send_log s" for self
    by (rule still_sends) simp
  then show ?thesis by (simp add: setRoster_def Let_def rc split: option.split)
qed

lemma only_pump_sends:
  assumes "send_log (engine_step pf ev s) \<noteq> send_log s"
  obtains n where "ev = VPump n"
proof (cases ev)
  case (VRoster clients)
  then show ?thesis using assms setRoster_sends by simp
next
  case (VReceive control)
  then show ?thesis using assms still_sends [of s "receive control s"] by simp
next
  case VDebounce
  have "deaf s (debounce_timer pf s)" by (simp add: debounce_timer_def split: option.split)
  then show ?thesis using VDebounce assms deaf_sends by simp
next
  case VRunRetry
  have "deaf s (run_retry_timer pf s)" by (simp add: run_retry_timer_def split: option.split)
  then show ?thesis using VRunRetry assms deaf_sends by simp
next
  case (VPump n)
  then show ?thesis by (rule that)
qed (use assms deaf_resume [THEN deaf_sends] deaf_stop [THEN deaf_sends] deaf_sends [of s "start pf _ s"] deaf_sends [of s "publicationsChanged s"]
    deaf_sends [of s "renew_timer s"] deaf_sends [of s "removal_due _ s"] deaf_sends [of s "retry_timer s"] deaf_sends [of s "retire_timer_fired _ s"]
    deaf_sends [of s "settle_timer pf s"] deaf_sends [of s "check_done s"] deaf_sends [of s "send_answer _ _ _ s"]
    deaf_sends [of s "install_answer _ _ s"] deaf_sends [of s "preinstall_answer pf _ _ s"] in simp_all)

section \<open>Who can know a key\<close>

text \<open>A device knows the keys of an epoch when they were sent to it, or when it knows the keys of
  an epoch of the same session from which this one was derived.\<close>

inductive knows :: "engine \<Rightarrow> nat \<Rightarrow> int \<Rightarrow> string \<Rightarrow> bool" for s where
  Sent: "n \<in> set (send_log s) \<Longrightarrow> knows s (sn_gen n) (sn_epoch n) (sn_rid n)"
| Derived: "knows s g e d \<Longrightarrow> i \<in> set (issue_log s) \<Longrightarrow> is_gen i = g \<Longrightarrow> is_parent i = Some e \<Longrightarrow> knows s g (is_epoch i) d"

lemma knows_issued:
  assumes inv: "issue_inv s"
  shows "knows s g e d \<Longrightarrow> issued s g e {d}"
proof (induction rule: knows.induct)
  case (Sent n)
  then show ?case using inv by (simp add: issue_inv_def)
next
  case (Derived g e d i)
  have "issued_within s (is_gen i) e (set (is_rids i))" using inv Derived.hyps unfolding issue_inv_def by blast
  then obtain j where j: "j \<in> set (issue_log s)" "is_gen j = g" "is_epoch j = e" "set (is_rids j) \<subseteq> set (is_rids i)"
    using Derived.hyps(3) by (auto simp: issued_within_def)
  obtain j' where j': "j' \<in> set (issue_log s)" "is_gen j' = g" "is_epoch j' = e" "d \<in> set (is_rids j')"
    using Derived.IH by (auto simp: issued_def)
  have "j' = j" using issue_unique [OF inv j'(1) j(1)] j j' by simp
  with j j' Derived.hyps show ?case by (auto simp: issued_def)
qed


section \<open>A sample session\<close>

definition sample_platform :: platform where
  "sample_platform = \<lparr>random = (\<lambda>n. replicate 32 (word_of_nat n)), hkdf = (\<lambda>k _. map ((+) 1) k), sha = (\<lambda>_. [1])\<rparr>"

definition sample_self :: self_info where
  "sample_self = \<lparr>channelID = 5, clientID = ''c1'', principal = ''p1'', device = ''d1''\<rparr>"

definition sample_entry :: "string \<Rightarrow> roster_entry" where
  "sample_entry n = \<lparr>client_id = CStr (''c'' @ n), channel_id = JNum 5, status_field = JUndef, media_device = JStr (''d'' @ n),
     unique_id = JStr (''p'' @ n), nickname_field = JUndef\<rparr>"

text \<open>One other device in the channel; the first epoch is created, installed, sent and active.\<close>

definition sample_session :: "engine_event list" where
  "sample_session = [VStart sample_self, VRoster [sample_entry ''2''], VTick 200, VDebounce] @ replicate 9 (VResume True)
     @ [VPump 0] @ replicate 4 (VResume True)"

section \<open>Theorems\<close>

text \<open>Property C2: whatever the roster, the server, the worker and the timers do, a device that
  knows the keys of an epoch (they were sent to it, or it can derive them by the ratchet from
  an epoch it knows) was among the recipients of the sender's channel when that epoch was
  created, and the epoch is unique in its session. So a joiner cannot read earlier epochs and
  a removed device cannot read later ones.\<close>

theorem key_knowledge_confined:
  assumes "knows (engine_run pf es new_engine) g e d"
  shows "\<exists>!i. i \<in> set (issue_log (engine_run pf es new_engine)) \<and> is_gen i = g \<and> is_epoch i = e
    \<and> d \<in> set (is_rids i)"
proof -
  have inv: "issue_inv (engine_run pf es new_engine)" using engine_run_inv [of pf es] by (simp add: engine_inv_def)
  obtain i where i: "i \<in> set (issue_log (engine_run pf es new_engine))" "is_gen i = g" "is_epoch i = e" "d \<in> set (is_rids i)"
    using knows_issued [OF inv assms] by (auto simp: issued_def)
  show ?thesis
  proof (rule ex1I [of _ i])
    show "j = i" if "j \<in> set (issue_log (engine_run pf es new_engine)) \<and> is_gen j = g \<and> is_epoch j = e \<and> d \<in> set (is_rids j)" for j
      using issue_unique [OF inv, of j i] that i by simp
  qed (use i in simp)
qed

theorem key_knowledge_confined_witness:
  "\<exists>!i. i \<in> set (issue_log (engine_run sample_platform sample_session new_engine)) \<and> is_gen i = 1 \<and> is_epoch i = 200
    \<and> ''p2'' @ [newline] @ ''d2'' \<in> set (is_rids i)"
proof (rule key_knowledge_confined)
  let ?s = "engine_run sample_platform sample_session new_engine"
  have "send_log ?s = [\<lparr>sn_gen = 1, sn_epoch = 200, sn_rid = ''p2'' @ [newline] @ ''d2''\<rparr>]" by code_simp
  then show "knows ?s 1 200 (''p2'' @ [newline] @ ''d2'')"
    using knows.Sent [of "\<lparr>sn_gen = 1, sn_epoch = 200, sn_rid = ''p2'' @ [newline] @ ''d2''\<rparr>" ?s] by simp
qed

text \<open>Property C20: in every state, the only step that sends a key is a worker of the distribution
  pool taking its next recipient, and it sends only while the session the epoch belongs to
  runs, the sender is visible, and the device is a recipient at that moment; a device that
  left the channel after the epoch was created gets nothing more.\<close>

theorem keys_sent_only_to_current_recipients:
  assumes "send_log (engine_step pf ev s) \<noteq> send_log s"
  shows "\<exists>n r. ev = VPump n \<and> isRecipient s r \<and> \<not> invisible s \<and> ds_gen (en_dists s ! n) = en_gen s
    \<and> send_log (engine_step pf ev s) = send_log s @ [\<lparr>sn_gen = en_gen s, sn_epoch = ds_epoch (en_dists s ! n), sn_rid = rid r\<rparr>]"
proof -
  obtain n where ev: "ev = VPump n" by (rule only_pump_sends [OF assms])
  show ?thesis
    by (rule pump_cases [of s n]) (use assms ev in \<open>auto simp: deaf_def\<close>)
qed

theorem keys_sent_only_to_current_recipients_witness:
  "\<exists>n r. VPump 0 = VPump n \<and> isRecipient (engine_run sample_platform (take 13 sample_session) new_engine) r"
proof -
  let ?s = "engine_run sample_platform (take 13 sample_session) new_engine"
  have "length (send_log (engine_step sample_platform (VPump 0) ?s)) = 1 \<and> length (send_log ?s) = 0" by code_simp
  then have "send_log (engine_step sample_platform (VPump 0) ?s) \<noteq> send_log ?s" by (metis zero_neq_one)
  from keys_sent_only_to_current_recipients [OF this] show ?thesis by blast
qed

text \<open>Property C23: within a session the epochs a sender issues strictly increase, whether they
  are fresh or derived, across preempted, failed and repeated rekeys.\<close>

theorem issued_epochs_increase:
  "sorted_wrt (\<lambda>i j. is_gen i < is_gen j \<or> is_gen i = is_gen j \<and> is_epoch i < is_epoch j)
     (issue_log (engine_run pf es new_engine))"
  using engine_run_inv [of pf es] by (simp add: engine_inv_def issue_inv_def)

text \<open>Property C6: confidentiality comes first. In every reachable state, once the deadline of a
  removal has passed while it is still pending, the sender has no active epoch, or it is
  paused and the active epoch was retired in the media worker for every publication slot, so
  nothing more is encrypted under a key the removed device may hold.\<close>

theorem overdue_removal_silences_sender:
  assumes "r \<in> set (en_pendingRemovals (engine_run pf es new_engine))" and "rm_due r"
  shows "en_activeEpoch (engine_run pf es new_engine) = 0
    \<or> en_paused (engine_run pf es new_engine)
      \<and> list_all (\<lambda>slot. MRetireOne (senderPid (Some slot)) (en_activeEpoch (engine_run pf es new_engine))
            \<in> set (media_log (engine_run pf es new_engine))) SLOTS"
  using engine_run_pause [of pf es] assms by (auto simp: pause_inv_def list_all_iff)

theorem overdue_removal_silences_sender_witness:
  "en_activeEpoch (engine_run sample_platform (sample_session @ [VRoster [], VTick 2200, VRemovalDue 2]) new_engine) = 200
   \<and> en_paused (engine_run sample_platform (sample_session @ [VRoster [], VTick 2200, VRemovalDue 2]) new_engine)"
proof -
  let ?s = "engine_run sample_platform (sample_session @ [VRoster [], VTick 2200, VRemovalDue 2]) new_engine"
  have "en_pendingRemovals ?s = [\<lparr>rm_seq = 2, rm_due = True, rm_deadline = 2400\<rparr>]" by code_simp
  then have r: "\<lparr>rm_seq = 2, rm_due = True, rm_deadline = 2400\<rparr> \<in> set (en_pendingRemovals ?s)" by simp
  have a: "en_activeEpoch ?s = 200" by code_simp
  from overdue_removal_silences_sender [OF r] a show ?thesis by simp
qed

text \<open>Property C24: a receiver accepts the controls of a sending device in strictly increasing
  epochs, on every run and across sessions: a replayed, expired or reordered control never
  installs a key.\<close>

theorem accepted_epochs_increase:
  "sorted_wrt (\<lambda>a b. ac_line a = ac_line b \<longrightarrow> ac_epoch a < ac_epoch b) (accept_log (engine_run pf es new_engine))"
  using engine_run_accept [of pf es] by (simp add: accept_inv_def)

text \<open>The other device sends its control for epoch 7, again for epoch 7 (a replay), for epoch 9, and late one for epoch 8.\<close>

definition sample_control :: "int \<Rightarrow> jsv" where
  "sample_control e = (case buildMediaKeyBody 5 e 0 ''c2'' ''s.r1'' 3 ''m'' 2 (map (\<lambda>s. (s, replicate 32 9)) SLOTS) of
     JObj fs \<Rightarrow> JObj (fs @ [(''sender'', JStr ''p2''), (''senderDevice'', JStr ''d2'')]) | v \<Rightarrow> v)"

definition sample_controls :: "engine_event list" where
  "sample_controls = [VStart sample_self, VRoster [sample_entry ''2'']] @ map (\<lambda>e. VReceive (sample_control e)) [7, 7, 9, 8]"

theorem accepted_epochs_increase_witness:
  "map ac_epoch (accept_log (engine_run sample_platform sample_controls new_engine)) = [7, 9]
   \<and> sorted_wrt (\<lambda>a b. ac_line a = ac_line b \<longrightarrow> ac_epoch a < ac_epoch b) (accept_log (engine_run sample_platform sample_controls new_engine))"
proof
  show "map ac_epoch (accept_log (engine_run sample_platform sample_controls new_engine)) = [7, 9]" by code_simp
qed (rule accepted_epochs_increase)

end
