(* ===== verification/Js_Json.thy ===== *)
theory Js_Json
  imports Js_Text
begin

text \<open>
  JSON as the runtime has it: \<^verbatim>\<open>JSON.stringify\<close> and \<^verbatim>\<open>canonicalJSON\<close> (the same with the characters
  less, greater and ampersand escaped, mobile/src/core/olm-admission.js) and \<^verbatim>\<open>JSON.parse\<close>, with the round trip between them. Objects keep
  their members in insertion order. The parser takes fuel; \<open>2 * length + 2\<close> is enough, since
  every second call consumes a character (\<open>parse_fuel\<close>).
\<close>

section \<open>Text of a value\<close>

definition hex4 :: "nat \<Rightarrow> string" where
  "hex4 n = ''00'' @ hex_byte (byte_of n)"

definition quote_char :: char where "quote_char = CHR 0x22"
definition backslash :: char where "backslash = CHR 0x5C"

definition json_char :: "bool \<Rightarrow> char \<Rightarrow> string" where
  "json_char esc c =
     (if c = quote_char \<or> c = backslash then [backslash, c]
      else if c = CHR 0x08 then [backslash, CHR ''b'']
      else if c = CHR 0x09 then [backslash, CHR ''t'']
      else if c = CHR 0x0A then [backslash, CHR ''n'']
      else if c = CHR 0x0C then [backslash, CHR ''f'']
      else if c = CHR 0x0D then [backslash, CHR ''r'']
      else if c < CHR 0x20 \<or> (esc \<and> (c = CHR ''<'' \<or> c = CHR ''>'' \<or> c = CHR ''&'')) then [backslash, CHR ''u''] @ hex4 (of_char c)
      else [c])"

definition json_string :: "bool \<Rightarrow> string \<Rightarrow> string" where
  "json_string esc t = quote_char # concat (map (json_char esc) t) @ [quote_char]"

text \<open>A member whose value is \<^verbatim>\<open>undefined\<close> is left out; inside an array it is \<^verbatim>\<open>null\<close>. The model
  does not tell fractions apart: all have the text of one of them. A byte array is an object
  with its indices as names.\<close>

fun json_text :: "bool \<Rightarrow> jsv \<Rightarrow> string" and elem_texts :: "bool \<Rightarrow> jsv list \<Rightarrow> string list" and
    member_texts :: "bool \<Rightarrow> (string \<times> jsv) list \<Rightarrow> string list" where
  "json_text esc JUndef = ''null''"
| "json_text esc JNull = ''null''"
| "json_text esc (JBool b) = (if b then ''true'' else ''false'')"
| "json_text esc (JNum i) = string_of_int i"
| "json_text esc JFrac = ''0.5''"
| "json_text esc (JStr t) = json_string esc t"
| "json_text esc (JBytes bs) = ''{'' @ join '','' (map (\<lambda>(i, b). json_string esc (string_of_nat i) @ '':'' @ string_of_nat (unat b)) (enumerate 0 bs)) @ ''}''"
| "json_text esc (JArr vs) = ''['' @ join '','' (elem_texts esc vs) @ '']''"
| "json_text esc (JObj fs) = ''{'' @ join '','' (member_texts esc fs) @ ''}''"
| "elem_texts esc [] = []"
| "elem_texts esc (v # vs) = json_text esc v # elem_texts esc vs"
| "member_texts esc [] = []"
| "member_texts esc ((k, v) # fs) = (if v = JUndef then member_texts esc fs else (json_string esc k @ '':'' @ json_text esc v) # member_texts esc fs)"

definition canonicalJSON :: "jsv \<Rightarrow> string" where
  "canonicalJSON v = json_text True v"

definition stringify :: "jsv \<Rightarrow> string" where  \<comment> \<open>\<^verbatim>\<open>JSON.stringify\<close>\<close>
  "stringify v = json_text False v"

definition jsonBytes :: "jsv \<Rightarrow> bytes" where
  "jsonBytes v = utf8 (canonicalJSON v)"

text \<open>\<^verbatim>\<open>equalJSON\<close>: both sides with their member names sorted.\<close>

fun sort_members :: "jsv \<Rightarrow> jsv" where
  "sort_members (JArr vs) = JArr (map sort_members vs)"
| "sort_members (JObj fs) = JObj (sort_key fst (map (\<lambda>(k, v). (k, sort_members v)) fs))"
| "sort_members v = v"

definition equalJSON :: "jsv \<Rightarrow> jsv \<Rightarrow> bool" where
  "equalJSON a b \<longleftrightarrow> canonicalJSON (sort_members a) = canonicalJSON (sort_members b)"

section \<open>Parsing\<close>

definition json_ws :: "char \<Rightarrow> bool" where
  "json_ws c \<longleftrightarrow> c = CHR 0x20 \<or> c = CHR 0x09 \<or> c = CHR 0x0A \<or> c = CHR 0x0D"

definition skip_ws :: "string \<Rightarrow> string" where
  "skip_ws s = dropWhile json_ws s"

definition hex_value :: "char \<Rightarrow> nat option" where
  "hex_value c = (if digit_char c then Some (of_char c - 48)
     else if CHR ''a'' \<le> c \<and> c \<le> CHR ''f'' then Some (of_char c - 87)
     else if CHR ''A'' \<le> c \<and> c \<le> CHR ''F'' then Some (of_char c - 55) else None)"

fun hex4_value :: "string \<Rightarrow> nat option" where
  "hex4_value [a, b, c, d] =
     (case (hex_value a, hex_value b, hex_value c, hex_value d) of
        (Some p, Some q, Some r, Some s) \<Rightarrow> Some (((p * 16 + q) * 16 + r) * 16 + s)
      | _ \<Rightarrow> None)"
| "hex4_value _ = None"

definition escape_value :: "char \<Rightarrow> char option" where
  "escape_value c =
     (if c = quote_char \<or> c = backslash \<or> c = CHR ''/'' then Some c
      else if c = CHR ''b'' then Some (CHR 0x08) else if c = CHR ''t'' then Some (CHR 0x09)
      else if c = CHR ''n'' then Some (CHR 0x0A) else if c = CHR ''f'' then Some (CHR 0x0C)
      else if c = CHR ''r'' then Some (CHR 0x0D) else None)"

text \<open>The rest of a string after its opening quote. An escape above 255 is outside the model.\<close>

fun parse_chars :: "string \<Rightarrow> (string \<times> string) option" where
  "parse_chars [] = None"
| "parse_chars (c # cs) =
     (if c = quote_char then Some ([], cs)
      else if c < CHR 0x20 then None
      else if c \<noteq> backslash then map_option (apfst ((#) c)) (parse_chars cs)
      else case cs of [] \<Rightarrow> None
        | e # es \<Rightarrow>
            if e = CHR ''u'' then (case hex4_value (take 4 es) of
                Some n \<Rightarrow> if n < 256 then map_option (apfst ((#) (char_of n))) (parse_chars (drop 4 es)) else None
              | None \<Rightarrow> None)
            else (case escape_value e of Some x \<Rightarrow> map_option (apfst ((#) x)) (parse_chars es) | None \<Rightarrow> None))"

definition parse_string :: "string \<Rightarrow> (string \<times> string) option" where
  "parse_string s = (case s of c # cs \<Rightarrow> if c = quote_char then parse_chars cs else None | [] \<Rightarrow> None)"

definition digits_value :: "string \<Rightarrow> nat" where
  "digits_value ds = foldl (\<lambda>n c. n * 10 + (of_char c - 48)) 0 ds"

text \<open>The value of a decimal numeral: mantissa digits, decimal exponent. Integral values are exact.\<close>

definition scaled :: "bool \<Rightarrow> nat \<Rightarrow> int \<Rightarrow> jsv" where
  "scaled neg m e =
     (let signed = (\<lambda>n. JNum (if neg then - int n else int n)) in
      if e \<ge> 0 then signed (m * 10 ^ nat e)
      else if 10 ^ nat (- e) dvd m then signed (m div 10 ^ nat (- e)) else JFrac)"

definition parse_exponent :: "string \<Rightarrow> (int \<times> string) option" where
  "parse_exponent s =
     (case s of
        c # cs \<Rightarrow>
          if c = CHR ''e'' \<or> c = CHR ''E'' then
            (let neg = (cs \<noteq> [] \<and> hd cs = CHR ''-''); ds = (if cs \<noteq> [] \<and> (hd cs = CHR ''-'' \<or> hd cs = CHR ''+'') then tl cs else cs);
                 es = takeWhile digit_char ds in
             if es = [] then None
             else Some ((if neg then - int (digits_value es) else int (digits_value es)), dropWhile digit_char ds))
          else Some (0, s)
      | [] \<Rightarrow> Some (0, s))"

text \<open>Sign, integer digits and what follows them.\<close>

definition number_tail :: "bool \<Rightarrow> string \<Rightarrow> string \<Rightarrow> (jsv \<times> string) option" where
  "number_tail neg ds r =
     (if ds = [] \<or> (length ds > 1 \<and> hd ds = CHR ''0'') then None
      else let dot = (r \<noteq> [] \<and> hd r = CHR ''.''); fs = (if dot then takeWhile digit_char (tl r) else []);
               r' = (if dot then dropWhile digit_char (tl r) else r) in
        if dot \<and> fs = [] then None
        else (case parse_exponent r' of None \<Rightarrow> None
          | Some (e, rest) \<Rightarrow> Some (scaled neg (digits_value (ds @ fs)) (e - int (length fs)), rest)))"

definition parse_number :: "string \<Rightarrow> (jsv \<times> string) option" where
  "parse_number s =
     (let neg = (s \<noteq> [] \<and> hd s = CHR ''-''); u = (if neg then tl s else s) in
      number_tail neg (takeWhile digit_char u) (dropWhile digit_char u))"

definition parse_literal :: "string \<Rightarrow> (jsv \<times> string) option" where
  "parse_literal s =
     (if take 4 s = ''null'' then Some (JNull, drop 4 s)
      else if take 4 s = ''true'' then Some (JBool True, drop 4 s)
      else if take 5 s = ''false'' then Some (JBool False, drop 5 s)
      else parse_number s)"

fun parse_value :: "nat \<Rightarrow> string \<Rightarrow> (jsv \<times> string) option" and
    parse_elems :: "nat \<Rightarrow> string \<Rightarrow> (jsv list \<times> string) option" and
    parse_members :: "nat \<Rightarrow> string \<Rightarrow> (string \<times> jsv) list \<Rightarrow> ((string \<times> jsv) list \<times> string) option" where
  "parse_value 0 s = None"
| "parse_value (Suc n) s =
     (case s of [] \<Rightarrow> None
      | c # cs \<Rightarrow>
          if c = quote_char then map_option (apfst JStr) (parse_chars cs)
          else if c = CHR ''['' then
            (let r = skip_ws cs in if r \<noteq> [] \<and> hd r = CHR '']'' then Some (JArr [], tl r) else map_option (apfst JArr) (parse_elems n r))
          else if c = CHR ''{'' then
            (let r = skip_ws cs in if r \<noteq> [] \<and> hd r = CHR ''}'' then Some (JObj [], tl r) else map_option (apfst JObj) (parse_members n r []))
          else parse_literal s)"
| "parse_elems 0 s = None"
| "parse_elems (Suc n) s =
     (case parse_value n (skip_ws s) of None \<Rightarrow> None
      | Some (v, r) \<Rightarrow>
          (case skip_ws r of
             c # cs \<Rightarrow> if c = CHR '','' then map_option (apfst ((#) v)) (parse_elems n cs)
                       else if c = CHR '']'' then Some ([v], cs) else None
           | [] \<Rightarrow> None))"
| "parse_members 0 s acc = None"
| "parse_members (Suc n) s acc =
     (case parse_string (skip_ws s) of None \<Rightarrow> None
      | Some (k, r) \<Rightarrow>
          (case skip_ws r of
             [] \<Rightarrow> None
           | d # ds \<Rightarrow>
               if d \<noteq> CHR '':'' then None
               else (case parse_value n (skip_ws ds) of None \<Rightarrow> None
                 | Some (v, r') \<Rightarrow>
                     (case skip_ws r' of
                        c # cs \<Rightarrow> if c = CHR '','' then parse_members n cs (jset k v acc)
                                  else if c = CHR ''}'' then Some (jset k v acc, cs) else None
                      | [] \<Rightarrow> None))))"

definition json_parse :: "string \<Rightarrow> jsv option" where
  "json_parse t = (case parse_value (2 * length t + 2) (skip_ws t) of
     Some (v, r) \<Rightarrow> if skip_ws r = [] then Some v else None
   | None \<Rightarrow> None)"

section \<open>Round trip\<close>

lemma hex_value_nth: "n < 16 \<Longrightarrow> hex_value (''0123456789abcdef'' ! n) = Some n"
proof -
  assume "n < 16"
  then have "n \<in> set [0..<16]" by simp
  moreover have "list_all (\<lambda>n. hex_value (''0123456789abcdef'' ! n) = Some n) [0..<16]" by code_simp
  ultimately show ?thesis by (simp only: list_all_iff)
qed

lemma hex4_value_hex4: "n < 256 \<Longrightarrow> hex4_value (hex4 n) = Some n"
proof -
  assume n: "n < 256"
  then have "n div 16 < 16" "n mod 16 < 16" by (simp_all add: less_mult_imp_div_less)
  moreover have "hex_value (CHR ''0'') = Some 0" using hex_value_nth [of 0] by simp
  ultimately show ?thesis
    using n hex_value_nth [of "n div 16"] hex_value_nth [of "n mod 16"] by (simp add: hex4_def hex_byte_def)
qed

lemma hex4_length: "length (hex4 n) = 4"
  by (simp add: hex4_def hex_byte_def)

lemma char_tests [simp]:
  "\<not> backslash < CHR 0x20" "backslash \<noteq> quote_char" "CHR ''u'' \<noteq> quote_char"
  by (simp_all add: quote_char_def backslash_def less_char_def)

lemma parse_json_char:
  assumes "parse_chars r = Some (t, rest)"
  shows "parse_chars (json_char esc c @ r) = Some (c # t, rest)"
proof -
  have u: "parse_chars ([backslash, CHR ''u''] @ hex4 (of_char c) @ r) = Some (c # t, rest)"
    using assms hex4_value_hex4 [of "of_char c"] by (simp add: hex4_length)
  have e: "parse_chars ([backslash, e] @ r) = Some (c # t, rest)" if "escape_value e = Some c" "e \<noteq> CHR ''u''" for e
    using assms that by simp
  have p: "parse_chars ([c] @ r) = Some (c # t, rest)" if "c \<noteq> quote_char" "c \<noteq> backslash" "\<not> c < CHR 0x20"
    using assms that by simp
  show ?thesis
  proof (cases "c \<in> {quote_char, backslash, CHR 0x08, CHR 0x09, CHR 0x0A, CHR 0x0C, CHR 0x0D}")
    case True
    then obtain e where "json_char esc c = [backslash, e]" "escape_value e = Some c" "e \<noteq> CHR ''u''"
      by (auto simp: json_char_def escape_value_def quote_char_def backslash_def)
    then show ?thesis using e by (simp del: parse_chars.simps)
  next
    case False
    then have "json_char esc c = (if c < CHR 0x20 \<or> (esc \<and> (c = CHR ''<'' \<or> c = CHR ''>'' \<or> c = CHR ''&''))
        then [backslash, CHR ''u''] @ hex4 (of_char c) else [c])" by (simp add: json_char_def)
    then show ?thesis using u p False by (simp del: parse_chars.simps)
  qed
qed

lemma parse_chars_json: "parse_chars (concat (map (json_char esc) t) @ quote_char # rest) = Some (t, rest)"
proof (induction t)
  case (Cons c t)
  then show ?case using parse_json_char [OF Cons.IH, of esc c] by (simp del: parse_chars.simps)
qed simp

lemma parse_string_json: "parse_string (json_string esc t @ rest) = Some (t, rest)"
  by (simp add: parse_string_def json_string_def parse_chars_json)


text \<open>What may follow a number without becoming part of it.\<close>

definition number_end :: "string \<Rightarrow> bool" where
  "number_end r \<longleftrightarrow> r = [] \<or> (\<not> digit_char (hd r) \<and> hd r \<noteq> CHR ''.'' \<and> hd r \<noteq> CHR ''e'' \<and> hd r \<noteq> CHR ''E'')"

lemma digits_value_snoc: "digits_value (ds @ [c]) = digits_value ds * 10 + (of_char c - 48)"
  by (simp add: digits_value_def)

lemma digits_value_string: "digits_value (string_of_nat n) = n"
proof (induction n rule: string_of_nat.induct)
  case (1 n)
  have d: "(of_char (char_of (48 + k) :: char) :: nat) = 48 + k" if "k < 10" for k :: nat using that by (simp add: of_char_of)
  show ?case
  proof (cases "n < 10")
    case True
    then show ?thesis using d [of n] by (subst string_of_nat.simps) (simp add: digits_value_def)
  next
    case False
    then show ?thesis using 1 d [of "n mod 10"] by (subst string_of_nat.simps) (simp add: digits_value_snoc)
  qed
qed

lemma string_of_nat_lead: "10 \<le> n \<Longrightarrow> hd (string_of_nat n) \<noteq> CHR ''0''"
proof (induction n rule: string_of_nat.induct)
  case (1 n)
  show ?case
  proof (cases "n div 10 < 10")
    case True
    have "n div 10 \<noteq> 0" using 1(2) by (simp add: div_eq_0_iff)
    moreover have "CHR ''0'' = (char_of (48 + 0 :: nat) :: char)" by code_simp
    ultimately have "hd (string_of_nat (n div 10)) \<noteq> CHR ''0''"
      using True digit_inj [of "n div 10" 0] by (subst string_of_nat.simps) auto
    then show ?thesis using 1(2) string_of_nat_ne by (subst string_of_nat.simps) (simp add: hd_append)
  next
    case False
    then show ?thesis using 1 string_of_nat_ne by (subst string_of_nat.simps) (simp add: hd_append)
  qed
qed

lemma string_of_nat_short: "n < 10 \<Longrightarrow> length (string_of_nat n) = 1"
  by (subst string_of_nat.simps) simp

lemma parse_exponent_none: "number_end r \<Longrightarrow> parse_exponent r = Some (0, r)"
  by (cases r) (auto simp: parse_exponent_def number_end_def)

lemma parse_number_nat:
  assumes "number_end r"
  shows "parse_number (string_of_nat n @ r) = Some (JNum (int n), r)"
    and "parse_number (CHR ''-'' # string_of_nat n @ r) = Some (JNum (- int n), r)"
proof -
  have tw: "takeWhile digit_char (string_of_nat n @ r) = string_of_nat n" "dropWhile digit_char (string_of_nat n @ r) = r"
    using assms string_of_nat_digits
    by (cases r; auto simp: takeWhile_append dropWhile_append number_end_def)+
  have lead: "\<not> (string_of_nat n = [] \<or> (length (string_of_nat n) > 1 \<and> hd (string_of_nat n) = CHR ''0''))"
    using string_of_nat_ne string_of_nat_lead [of n] string_of_nat_short [of n] by (cases "n < 10") auto
  have minus: "hd (string_of_nat n @ r) \<noteq> CHR ''-''"
    using string_of_nat_digit [of "hd (string_of_nat n)" n] string_of_nat_ne [of n] by (simp add: hd_append)
  have tail: "number_tail neg (string_of_nat n) r = Some (JNum (if neg then - int n else int n), r)" for neg
    using lead assms parse_exponent_none [OF assms]
    by (cases r) (simp_all add: number_tail_def number_end_def Let_def digits_value_string scaled_def)
  show "parse_number (string_of_nat n @ r) = Some (JNum (int n), r)"
    using minus string_of_nat_ne [of n] tail [of False] by (simp add: parse_number_def Let_def tw)
  show "parse_number (CHR ''-'' # string_of_nat n @ r) = Some (JNum (- int n), r)"
    using tail [of True] by (simp add: parse_number_def Let_def tw)
qed

lemma literal_number:
  assumes "s \<noteq> []" "digit_char (hd s) \<or> hd s = CHR ''-''"
  shows "parse_literal s = parse_number s"
  using assms by (cases s) (auto simp: parse_literal_def digit_char_def less_eq_char_def)

lemma parse_literal_int:
  assumes "number_end r"
  shows "parse_literal (string_of_int i @ r) = Some (JNum i, r)"
proof (cases "i < 0")
  case True
  then show ?thesis using parse_number_nat(2) [OF assms, of "nat (- i)"]
    by (simp add: string_of_int_def literal_number)
next
  case False
  have "hd (string_of_nat (nat i) @ r) \<in> set (string_of_nat (nat i))" using string_of_nat_ne [of "nat i"] by (simp add: hd_append)
  then have "digit_char (hd (string_of_nat (nat i) @ r))" by (rule string_of_nat_digits)
  then show ?thesis using False parse_number_nat(1) [OF assms, of "nat i"] string_of_nat_ne [of "nat i"]
    by (simp add: string_of_int_def literal_number)
qed


text \<open>Values that have a text of their own: no \<^verbatim>\<open>undefined\<close>, no byte array, no
  repeated member.\<close>

fun json_ok :: "jsv \<Rightarrow> bool" where
  "json_ok (JArr vs) = list_all json_ok vs"
| "json_ok (JObj fs) = (distinct (map fst fs) \<and> list_all (\<lambda>(k, v). json_ok v) fs)"
| "json_ok JUndef = False"
| "json_ok (JBytes bs) = False"
| "json_ok _ = True"

fun jfuel :: "jsv \<Rightarrow> nat" and efuel :: "jsv list \<Rightarrow> nat" and mfuel :: "(string \<times> jsv) list \<Rightarrow> nat" where
  "jfuel (JArr vs) = Suc (efuel vs)"
| "jfuel (JObj fs) = Suc (mfuel fs)"
| "jfuel _ = 1"
| "efuel [] = 0"
| "efuel (v # vs) = Suc (max (jfuel v) (efuel vs))"
| "mfuel [] = 0"
| "mfuel ((k, v) # fs) = Suc (max (jfuel v) (mfuel fs))"

lemma digit_not_ws: "digit_char c \<Longrightarrow> \<not> json_ws c" "\<not> json_ws (CHR ''-'')"
  by (auto simp: digit_char_def json_ws_def less_eq_char_def)

lemma string_of_int_head: "string_of_int i \<noteq> [] \<and> (digit_char (hd (string_of_int i)) \<or> hd (string_of_int i) = CHR ''-'')"
  using string_of_nat_ne [of "nat i"] string_of_nat_digits [OF hd_in_set, of "nat i"] by (auto simp: string_of_int_def)

lemma json_head: "json_text esc v \<noteq> [] \<and> \<not> json_ws (hd (json_text esc v))"
proof (cases v)
  case (JNum i)
  then show ?thesis using string_of_int_head [of i] digit_not_ws by auto
qed (auto simp: json_string_def quote_char_def json_ws_def)

lemma skip_ws_text: "s \<noteq> [] \<Longrightarrow> \<not> json_ws (hd s) \<Longrightarrow> skip_ws (s @ r) = s @ r"
  by (cases s) (simp_all add: skip_ws_def)

lemma skip_ws_simps [simp]:
  "skip_ws (CHR '','' # r) = CHR '','' # r" "skip_ws (CHR '']'' # r) = CHR '']'' # r"
  "skip_ws (CHR ''}'' # r) = CHR ''}'' # r" "skip_ws (CHR '':'' # r) = CHR '':'' # r"
  "skip_ws (json_string esc k @ r) = json_string esc k @ r"
  by (simp_all add: skip_ws_def json_ws_def json_string_def quote_char_def)

lemma number_end_simps [simp]: "number_end (CHR '','' # r)" "number_end (CHR '']'' # r)" "number_end (CHR ''}'' # r)" "number_end []"
  by (simp_all add: number_end_def digit_char_def less_eq_char_def)

lemma parse_value_number:
  assumes "number_end r"
  shows "parse_value (Suc n) (string_of_int i @ r) = Some (JNum i, r)"
proof -
  obtain c cs where c: "string_of_int i @ r = c # cs" "digit_char c \<or> c = CHR ''-''"
    using string_of_int_head [of i] by (cases "string_of_int i") auto
  have "c \<noteq> quote_char" "c \<noteq> CHR ''[''" "c \<noteq> CHR ''{''"
    using c(2) by (auto simp: quote_char_def digit_char_def less_eq_char_def)
  then show ?thesis using c(1) parse_literal_int [OF assms, of i] by simp
qed

lemma parse_fraction:
  assumes "number_end r"
  shows "parse_literal (''0.5'' @ r) = Some (JFrac, r)"
proof -
  have d: "digit_char (CHR ''0'')" "\<not> digit_char (CHR ''.'')" "digit_char (CHR ''5'')" by (simp_all add: digit_char_def less_eq_char_def)
  have r: "takeWhile digit_char r = []" "dropWhile digit_char r = r" using assms by (cases r; simp add: number_end_def)+
  have n: "number_tail False ''0'' (''.5'' @ r) = Some (scaled False (digits_value ''05'') (- 1), r)"
    using parse_exponent_none [OF assms] by (simp add: number_tail_def d r)
  have "\<not> (10 :: nat) dvd 5" by presburger
  then have s: "scaled False (digits_value ''05'') (- 1) = JFrac" by (simp add: scaled_def digits_value_def)
  have "parse_number (''0.5'' @ r) = number_tail False ''0'' (''.5'' @ r)" by (simp add: parse_number_def d)
  then show ?thesis unfolding parse_literal_def n s by simp
qed

lemma jset_fresh: "k \<notin> fst ` set acc \<Longrightarrow> jset k v acc = acc @ [(k, v)]"
  unfolding jset_def by (induction acc) auto

lemma json_not_close: "hd (json_text esc v) \<noteq> CHR '']''"
proof (cases v)
  case (JNum i)
  then show ?thesis using string_of_int_head [of i] by (auto simp: digit_char_def less_eq_char_def)
qed (auto simp: json_string_def quote_char_def)

lemma join_Cons: "join sep (t # ts) = t @ (if ts = [] then [] else sep @ join sep ts)"
  by (cases ts) simp_all

lemma json_join_head:
  "join '','' (elem_texts esc (v # ws)) \<noteq> [] \<and> hd (join '','' (elem_texts esc (v # ws))) = hd (json_text esc v)"
  using json_head [of esc v] by (simp add: join_Cons hd_append)

lemma parse_json:
  "json_ok v \<Longrightarrow> number_end rest \<Longrightarrow> jfuel v \<le> n \<Longrightarrow> parse_value n (json_text esc v @ rest) = Some (v, rest)"
  "list_all json_ok vs \<Longrightarrow> vs \<noteq> [] \<Longrightarrow> efuel vs \<le> n
    \<Longrightarrow> parse_elems n (join '','' (elem_texts esc vs) @ '']'' @ rest) = Some (vs, rest)"
  "list_all (\<lambda>(k, v). json_ok v) fs \<Longrightarrow> fs \<noteq> [] \<Longrightarrow> distinct (map fst (acc @ fs)) \<Longrightarrow> mfuel fs \<le> n
    \<Longrightarrow> parse_members n (join '','' (member_texts esc fs) @ ''}'' @ rest) acc = Some (acc @ fs, rest)"
proof (induction esc v and esc vs and esc fs arbitrary: n rest and n rest and n rest acc rule: json_text_elem_texts_member_texts.induct)
  case (1 esc)
  then show ?case by simp
next
  case (2 esc)
  then show ?case by (cases n) (simp_all add: parse_literal_def quote_char_def)
next
  case (3 esc b)
  then show ?case by (cases n) (simp_all add: parse_literal_def quote_char_def)
next
  case (4 esc i)
  then show ?case using parse_value_number by (cases n) simp_all
next
  case (5 esc)
  then show ?case using parse_fraction by (cases n) (simp_all add: quote_char_def)
next
  case (6 esc t)
  then show ?case by (cases n) (simp_all add: json_string_def parse_chars_json)
next
  case (7 esc bs)
  then show ?case by simp
next
  case (8 esc vs)
  then obtain m where m: "n = Suc m" "efuel vs \<le> m" by (cases n) auto
  show ?case
  proof (cases vs)
    case (Cons v ws)
    have h: "join '','' (elem_texts esc vs) \<noteq> []" "\<not> json_ws (hd (join '','' (elem_texts esc vs)))" "hd (join '','' (elem_texts esc vs)) \<noteq> CHR '']''"
      using json_join_head [of esc v ws] json_head [of esc v] json_not_close [of esc v] unfolding Cons by simp_all
    show ?thesis using 8 m h skip_ws_text [OF h(1,2), of "'']'' @ rest"] Cons
      by (auto simp: quote_char_def hd_append)
  qed (simp_all add: m quote_char_def)
next
  case (9 esc fs)
  then obtain m where m: "n = Suc m" "mfuel fs \<le> m" by (cases n) auto
  show ?case
  proof (cases fs)
    case (Cons f gs)
    obtain k v where f: "f = (k, v)" by (cases f)
    have h: "join '','' (member_texts esc fs) \<noteq> []" "\<not> json_ws (hd (join '','' (member_texts esc fs)))" "hd (join '','' (member_texts esc fs)) \<noteq> CHR ''}''"
      using 9(2) by (auto simp: Cons f join_Cons hd_append json_string_def quote_char_def json_ws_def)
    show ?thesis using 9 m h skip_ws_text [OF h(1,2), of "''}'' @ rest"] Cons
      by (auto simp: quote_char_def hd_append)
  qed (simp_all add: m quote_char_def)
next
  case (10 esc)
  then show ?case by simp
next
  case (11 esc v vs)
  then obtain m where m: "n = Suc m" "jfuel v \<le> m" "efuel vs \<le> m" by (cases n) auto
  have v: "parse_value m (json_text esc v @ r) = Some (v, r)" if "number_end r" for r using 11 m that by simp
  show ?case
  proof (cases vs)
    case Nil
    then show ?thesis using v [of "CHR '']'' # rest"] json_head [of esc v] by (simp add: m skip_ws_text)
  next
    case (Cons w ws)
    then show ?thesis
      using v [of "CHR '','' # join '','' (elem_texts esc vs) @ '']'' @ rest"] json_head [of esc v] "11.IH"(2) [OF _ _ m(3), of rest] "11.prems"(1)
      by (simp add: m join_Cons skip_ws_text)
  qed
next
  case (12 esc)
  then show ?case by simp
next
  case (13 esc k v fs)
  then obtain m where m: "n = Suc m" "jfuel v \<le> m" "mfuel fs \<le> m" by (cases n) auto
  have ok: "json_ok v" "v \<noteq> JUndef" using "13.prems"(1) by auto
  have v: "parse_value m (json_text esc v @ r) = Some (v, r)" if "number_end r" for r
    using "13.IH"(2) [OF ok(2,1) that m(2)] .
  have k: "jset k v acc = acc @ [(k, v)]" using "13.prems"(3) by (simp add: jset_fresh)
  show ?case
  proof (cases fs)
    case Nil
    then show ?thesis using v [of "CHR ''}'' # rest"] json_head [of esc v] ok
      by (simp add: m skip_ws_text parse_string_json k)
  next
    case (Cons f gs)
    then have ne: "member_texts esc fs \<noteq> []" using "13.prems"(1) by (cases f) auto
    have "parse_members m (join '','' (member_texts esc fs) @ ''}'' @ rest) (acc @ [(k, v)]) = Some ((acc @ [(k, v)]) @ fs, rest)"
      by (rule "13.IH"(3)) (use "13.prems" Cons ok m in auto)
    then show ?thesis
      using v [of "CHR '','' # join '','' (member_texts esc fs) @ ''}'' @ rest"] json_head [of esc v] ok ne
      by (simp add: m join_Cons skip_ws_text parse_string_json k)
  qed
qed


lemma join_length: "length (join '','' (t # ts)) = length t + (if ts = [] then 0 else Suc (length (join '','' ts)))"
  by (simp add: join_Cons)

lemma jfuel_bound:
  "json_ok v \<Longrightarrow> jfuel v \<le> 2 * length (json_text esc v)"
  "list_all json_ok vs \<Longrightarrow> efuel vs \<le> 2 * length (join '','' (elem_texts esc vs)) + 1"
  "list_all (\<lambda>(k, v). json_ok v) fs \<Longrightarrow> mfuel fs \<le> 2 * length (join '','' (member_texts esc fs)) + 1"
proof (induction esc v and esc vs and esc fs rule: json_text_elem_texts_member_texts.induct)
  case (4 esc i)
  then show ?case using string_of_int_head [of i] by (cases "string_of_int i") simp_all
next
  case (11 esc v vs)
  then show ?case by (cases vs) (auto simp: join_length)
next
  case (13 esc k v fs)
  then have "v \<noteq> JUndef" by auto
  moreover have "member_texts esc fs = [] \<longrightarrow> fs = []" using 13(4) by (cases fs) (auto split: if_splits)
  ultimately show ?case using 13 by (auto simp: join_length)
qed (simp_all add: json_string_def)

lemma json_parse_text:
  assumes "json_ok v"
  shows "json_parse (json_text esc v) = Some v"
proof -
  have "parse_value (2 * length (json_text esc v) + 2) (json_text esc v @ []) = Some (v, [])"
    by (rule parse_json(1)) (use assms jfuel_bound(1) [OF assms, of esc] in auto)
  then show ?thesis
    using json_head [of esc v] skip_ws_text [of "json_text esc v" "[]"] by (simp add: json_parse_def skip_ws_def)
qed

section \<open>Fuel\<close>

lemma parse_chars_step:
  assumes "parse_chars (c # cs) = Some (t, r)"
  shows "r = cs \<or> (\<exists>s' t'. parse_chars s' = Some (t', r) \<and> length s' \<le> length cs)"
  using assms
  by (auto simp del: parse_chars.simps simp: parse_chars.simps(2) [of c cs] split: if_splits list.splits option.splits)

lemma parse_chars_shorter: "parse_chars s = Some (t, r) \<Longrightarrow> length r < length s"
proof (induction "length s" arbitrary: s t r rule: less_induct)
  case less
  then obtain c cs where s: "s = c # cs" by (cases s) auto
  from parse_chars_step [of c cs t r] less.prems consider "r = cs"
    | s' t' where "parse_chars s' = Some (t', r)" "length s' \<le> length cs" unfolding s by blast
  then show ?case
  proof cases
    case 2
    then have "length r < length s'" using less.hyps [of s' t' r] by (simp add: s)
    with 2 show ?thesis by (simp add: s)
  qed (simp add: s)
qed

lemma skip_ws_length: "length (skip_ws s) \<le> length s"
  by (simp add: skip_ws_def length_dropWhile_le)

lemma dropWhile_shorter: "takeWhile P s \<noteq> [] \<Longrightarrow> length (dropWhile P s) < length s"
  by (metis length_append length_greater_0_conv less_add_same_cancel2 takeWhile_dropWhile_id)

lemma parse_exponent_shorter: "parse_exponent s = Some (e, r) \<Longrightarrow> length r \<le> length s"
proof (cases s)
  case (Cons c cs)
  assume a: "parse_exponent s = Some (e, r)"
  let ?ds = "if cs \<noteq> [] \<and> (hd cs = CHR ''-'' \<or> hd cs = CHR ''+'') then tl cs else cs"
  have "r = s \<or> r = dropWhile digit_char ?ds" using a by (auto simp: Cons parse_exponent_def Let_def split: if_splits)
  moreover have "length (dropWhile digit_char ?ds) \<le> length ?ds" by (rule length_dropWhile_le)
  moreover have "length ?ds \<le> length s" unfolding Cons by (simp, linarith)
  ultimately show ?thesis by (auto simp del: length_dropWhile_le)
qed (simp add: parse_exponent_def)

lemma number_tail_shorter: "number_tail neg ds s = Some (v, r) \<Longrightarrow> length r \<le> length s"
proof -
  assume a: "number_tail neg ds s = Some (v, r)"
  then obtain u e where u: "parse_exponent u = Some (e, r)" "u = s \<or> u = dropWhile digit_char (tl s)"
    by (auto simp: number_tail_def Let_def split: if_splits option.splits)
  have "length (dropWhile digit_char (tl s)) \<le> length (tl s)" by (rule length_dropWhile_le)
  then have "length u \<le> length s" using u(2) by auto
  then show ?thesis using parse_exponent_shorter [OF u(1)] by simp
qed

lemma parse_number_shorter: "parse_number s = Some (v, r) \<Longrightarrow> length r < length s"
proof -
  assume a: "parse_number s = Some (v, r)"
  let ?u = "if s \<noteq> [] \<and> hd s = CHR ''-'' then tl s else s"
  obtain neg where t: "number_tail neg (takeWhile digit_char ?u) (dropWhile digit_char ?u) = Some (v, r)"
    using a by (auto simp: parse_number_def Let_def)
  have "takeWhile digit_char ?u \<noteq> []" using t by (auto simp: number_tail_def)
  then have "length (dropWhile digit_char ?u) < length ?u" by (rule dropWhile_shorter)
  moreover have "length ?u \<le> length s" by simp
  ultimately show ?thesis using number_tail_shorter [OF t] by simp
qed

lemma parse_literal_shorter: "parse_literal s = Some (v, r) \<Longrightarrow> length r < length s"
  using parse_number_shorter [of s v r] by (cases s) (auto simp: parse_literal_def split: if_splits)

lemma skip_ws_split: "skip_ws s = c # cs \<Longrightarrow> length cs < length s"
  using skip_ws_length [of s] by simp

lemma parse_string_shorter: "parse_string s = Some (k, r) \<Longrightarrow> length r < length s"
  by (auto simp: parse_string_def split: list.splits if_splits dest: parse_chars_shorter)

lemma parse_shorter:
  "(\<forall>s v r. parse_value n s = Some (v, r) \<longrightarrow> length r < length s)
   \<and> (\<forall>s vs r. parse_elems n s = Some (vs, r) \<longrightarrow> length r < length s)
   \<and> (\<forall>s acc fs r. parse_members n s acc = Some (fs, r) \<longrightarrow> length r < length s)"
proof (induction n)
  case (Suc n)
  note IH = Suc.IH [THEN conjunct1, rule_format] Suc.IH [THEN conjunct2, THEN conjunct1, rule_format]
    Suc.IH [THEN conjunct2, THEN conjunct2, rule_format]
  show ?case
  proof (intro conjI allI impI)
    fix s v r assume a: "parse_value (Suc n) s = Some (v, r)"
    then obtain c cs where s: "s = c # cs" by (cases s) auto
    from a consider t where "parse_chars cs = Some (t, r)" | "skip_ws cs \<noteq> []" "r = tl (skip_ws cs)"
      | vs where "parse_elems n (skip_ws cs) = Some (vs, r)" | fs where "parse_members n (skip_ws cs) [] = Some (fs, r)"
      | "parse_literal s = Some (v, r)"
      unfolding s by (auto simp: Let_def split: if_splits)
    then show "length r < length s"
      using parse_chars_shorter IH(2,3) parse_literal_shorter skip_ws_length [of cs]
      by cases (fastforce simp: s)+
  next
    fix s vs r assume "parse_elems (Suc n) s = Some (vs, r)"
    then obtain v' r' c cs where v: "parse_value n (skip_ws s) = Some (v', r')" "skip_ws r' = c # cs"
      and d: "(\<exists>ws. parse_elems n cs = Some (ws, r)) \<or> r = cs"
      by (auto split: option.splits list.splits if_splits)
    have "length r \<le> length cs" using d IH(2) [of cs _ r] by (auto intro: less_imp_le)
    then show "length r < length s"
      using IH(1) [OF v(1)] skip_ws_split [OF v(2)] skip_ws_length [of s] by linarith
  next
    fix s acc fs r assume "parse_members (Suc n) s acc = Some (fs, r)"
    then obtain k r0 ds v' r' c cs where v: "parse_string (skip_ws s) = Some (k, r0)" "skip_ws r0 = CHR '':'' # ds"
        "parse_value n (skip_ws ds) = Some (v', r')" "skip_ws r' = c # cs"
      and d: "(\<exists>gs acc'. parse_members n cs acc' = Some (gs, r)) \<or> r = cs"
      by (auto split: option.splits list.splits if_splits) blast
    have "length r \<le> length cs" using d IH(3) [of cs _ _ r] by (auto intro: less_imp_le)
    then show "length r < length s"
      using IH(1) [OF v(3)] skip_ws_split [OF v(2)] skip_ws_split [OF v(4)] parse_string_shorter [OF v(1)]
        skip_ws_length [of s] skip_ws_length [of ds] by linarith
  qed
qed simp

lemmas parse_value_shorter = parse_shorter [THEN conjunct1, rule_format]

text \<open>More fuel than a bound that is linear in the text changes nothing.\<close>

lemma parse_fuel:
  "(\<forall>s m. 2 * length s + 1 \<le> n \<longrightarrow> 2 * length s + 1 \<le> m \<longrightarrow> parse_value n s = parse_value m s)
   \<and> (\<forall>s m. 2 * length s + 2 \<le> n \<longrightarrow> 2 * length s + 2 \<le> m \<longrightarrow> parse_elems n s = parse_elems m s)
   \<and> (\<forall>s acc m. 2 * length s + 2 \<le> n \<longrightarrow> 2 * length s + 2 \<le> m \<longrightarrow> parse_members n s acc = parse_members m s acc)"
proof (induction n)
  case (Suc n)
  note IH = Suc.IH [THEN conjunct1, rule_format] Suc.IH [THEN conjunct2, THEN conjunct1, rule_format]
    Suc.IH [THEN conjunct2, THEN conjunct2, rule_format]
  show ?case
  proof (intro conjI allI impI)
    fix s :: string and m assume n: "2 * length s + 1 \<le> Suc n" "2 * length s + 1 \<le> m"
    then obtain k where m: "m = Suc k" by (cases m) auto
    show "parse_value (Suc n) s = parse_value m s"
    proof (cases s)
      case (Cons c cs)
      have "parse_elems n (skip_ws cs) = parse_elems k (skip_ws cs)"
        "parse_members n (skip_ws cs) [] = parse_members k (skip_ws cs) []"
        by (intro IH; use n skip_ws_length [of cs] in \<open>simp add: m Cons\<close>)+
      then show ?thesis unfolding m Cons parse_value.simps Let_def by (simp only: list.case)
    qed (simp add: m)
  next
    fix s :: string and m assume n: "2 * length s + 2 \<le> Suc n" "2 * length s + 2 \<le> m"
    then obtain k where m: "m = Suc k" by (cases m) auto
    have v: "parse_value n (skip_ws s) = parse_value k (skip_ws s)"
      by (intro IH) (use n skip_ws_length [of s] in \<open>simp_all add: m\<close>)
    have e: "parse_elems n cs = parse_elems k cs" if "parse_value k (skip_ws s) = Some (w, r)" "skip_ws r = c # cs" for w r c cs
      by (intro IH) (use n parse_value_shorter [OF that(1)] skip_ws_split [OF that(2)] skip_ws_length [of s] in \<open>simp_all add: m\<close>)
    show "parse_elems (Suc n) s = parse_elems m s"
      unfolding m using e by (simp add: v split: option.splits list.splits)
  next
    fix s :: string and acc m assume n: "2 * length s + 2 \<le> Suc n" "2 * length s + 2 \<le> m"
    then obtain k where m: "m = Suc k" by (cases m) auto
    have v: "parse_value n (skip_ws ds) = parse_value k (skip_ws ds)"
      if "parse_string (skip_ws s) = Some (t, r)" "skip_ws r = c # ds" for t r c ds
      by (intro IH) (use n parse_string_shorter [OF that(1)] skip_ws_split [OF that(2)] skip_ws_length [of s] skip_ws_length [of ds]
          in \<open>simp_all add: m\<close>)
    have e: "parse_members n es a = parse_members k es a"
      if "parse_string (skip_ws s) = Some (t, r)" "skip_ws r = c # ds" "parse_value k (skip_ws ds) = Some (w, r')" "skip_ws r' = d # es" for t r c ds w r' d es a
      by (intro IH) (use n parse_string_shorter [OF that(1)] skip_ws_split [OF that(2)] parse_value_shorter [OF that(3)]
          skip_ws_split [OF that(4)] skip_ws_length [of s] skip_ws_length [of ds] in \<open>simp_all add: m\<close>)
    show "parse_members (Suc n) s acc = parse_members m s acc"
      unfolding m using v e by (auto split: option.splits list.splits)
  qed
qed simp


section \<open>What a text keeps of a value\<close>

text \<open>Objects have distinct names.\<close>

fun js_wf :: "jsv \<Rightarrow> bool" where
  "js_wf (JArr vs) = list_all js_wf vs"
| "js_wf (JObj fs) = (distinct (map fst fs) \<and> list_all (\<lambda>(k, v). js_wf v) fs)"
| "js_wf v = True"

text \<open>The value that is read back from the text of a value.\<close>

fun norm :: "jsv \<Rightarrow> jsv" where
  "norm JUndef = JNull"
| "norm (JBytes bs) = JObj (map (\<lambda>(i, b). (string_of_nat i, JNum (uint b))) (enumerate 0 bs))"
| "norm (JArr vs) = JArr (map norm vs)"
| "norm (JObj fs) = JObj (map (\<lambda>(k, v). (k, norm v)) (filter (\<lambda>(k, v). v \<noteq> JUndef) fs))"
| "norm v = v"

lemma norm_defined [simp]: "norm v \<noteq> JUndef"
  by (cases v) simp_all

lemma member_texts_nums:
  "member_texts esc (map (\<lambda>(i, b). (string_of_nat i, JNum (uint b))) ibs)
    = map (\<lambda>(i, b). json_string esc (string_of_nat i) @ '':'' @ string_of_nat (unat b)) ibs" for ibs :: "(nat \<times> 8 word) list"
  by (induction ibs) (auto simp: string_of_int_def)

lemma json_text_norm [simp]:
  "json_text esc (norm v) = json_text esc v"
  "elem_texts esc (map norm vs) = elem_texts esc vs"
  "member_texts esc (map (\<lambda>(k, v). (k, norm v)) (filter (\<lambda>(k, v). v \<noteq> JUndef) fs)) = member_texts esc fs"
  by (induction esc v and esc vs and esc fs rule: json_text_elem_texts_member_texts.induct) (simp_all add: member_texts_nums)

lemma map_fst_norm: "map fst (map (\<lambda>(k, v). (k, norm v)) fs) = map fst fs"
  by (induction fs) auto

lemma json_ok_norm: "js_wf v \<Longrightarrow> json_ok (norm v)"
proof (induction v rule: norm.induct)
  case (2 bs)
  have "map fst (map (\<lambda>(i, b). (string_of_nat i, JNum (uint b))) (enumerate 0 bs)) = map string_of_nat [0..<length bs]"
    by (rule nth_equalityI) (simp_all add: nth_enumerate_eq)
  moreover have "inj_on string_of_nat {0..<length bs}" by (intro inj_onI string_of_nat_inj)
  ultimately show ?case by (auto simp: distinct_map list_all_iff)
next
  case (4 fs)
  have "distinct (map fst (filter (\<lambda>(k, v). v \<noteq> JUndef) fs))" using 4 by (simp add: distinct_map_filter)
  then show ?case using 4 by (force simp: map_fst_norm list_all_iff simp del: map_map)
qed (auto simp: list_all_iff)

lemma norm_id: "json_ok v \<Longrightarrow> norm v = v"
proof (induction v rule: norm.induct)
  case (4 fs)
  then have "filter (\<lambda>(k, v). v \<noteq> JUndef) fs = fs" by (auto simp: filter_id_conv list_all_iff)
  then show ?case using 4 by (auto simp: list_all_iff intro!: map_idI)
qed (auto simp: list_all_iff intro!: map_idI)

lemma json_parse_norm: "js_wf v \<Longrightarrow> json_parse (json_text esc v) = Some (norm v)"
  using json_parse_text [OF json_ok_norm, of v esc] by simp

lemma map_of_norm:
  "distinct (map fst fs) \<Longrightarrow> map_of (map (\<lambda>(k, v). (k, norm v)) (filter (\<lambda>(k, v). v \<noteq> JUndef) fs)) k
    = (case map_of fs k of None \<Rightarrow> None | Some v \<Rightarrow> if v = JUndef then None else Some (norm v))"
proof (induction fs)
  case (Cons f fs)
  obtain a v where f: "f = (a, v)" by (cases f)
  have "map_of fs k = None" if "a = k" using Cons.prems that by (simp add: f map_of_eq_None_iff)
  then show ?case using Cons by (cases "a = k") (auto simp: f)
qed simp

lemma field_norm:
  "distinct (map fst fs) \<Longrightarrow> field (norm (JObj fs)) k = (if field (JObj fs) k = JUndef then JUndef else norm (field (JObj fs) k))"
  by (simp add: map_of_norm split: option.splits)

text \<open>What the parser gives has distinct names and nothing undefined.\<close>

lemma parse_number_ok: "parse_number s = Some (v, r) \<Longrightarrow> json_ok v"
  by (auto simp: parse_number_def number_tail_def Let_def scaled_def split: if_splits option.splits)

lemma parse_literal_ok: "parse_literal s = Some (v, r) \<Longrightarrow> json_ok v"
  by (auto simp: parse_literal_def parse_number_ok split: if_splits)

lemma json_ok_jset: "json_ok (JObj fs) \<Longrightarrow> json_ok v \<Longrightarrow> json_ok (JObj (jset k v fs))"
  using jwf_jset [of fs k v] by (auto simp: jwf_def jkeys_def list_all_iff dest!: set_jset_cases)

lemma parse_ok:
  "parse_value n s = Some (v, r) \<Longrightarrow> json_ok v"
  "parse_elems n s = Some (vs, r) \<Longrightarrow> list_all json_ok vs"
  "parse_members n s acc = Some (fs, r) \<Longrightarrow> json_ok (JObj acc) \<Longrightarrow> json_ok (JObj fs)"
proof (induction n s and n s and n s acc arbitrary: v r and vs r and fs r rule: parse_value_parse_elems_parse_members.induct)
  case (2 n s)
  then show ?case by (auto simp: Let_def parse_literal_ok split: list.splits if_splits)
next
  case (4 n s)
  then show ?case by (auto split: option.splits list.splits if_splits)
next
  case (6 n s acc)
  then show ?case by (auto split: option.splits list.splits if_splits prod.splits simp del: json_ok.simps(2) simp: json_ok_jset)
qed simp_all

lemma json_parse_ok: "json_parse t = Some v \<Longrightarrow> json_ok v"
  unfolding json_parse_def by (auto simp del: parse_value.simps split: option.splits if_splits dest: parse_ok(1))

end
