(* ===== verification/Local_Db.thy ===== *)
theory Local_Db
  imports Js_Json
begin

text \<open>
  The app's local database (mobile/src/core/db.js) and the programs that work on it.

  The database is one IndexedDB database shared by every tab. An asynchronous function of the
  source is a program: a tree whose nodes are its transactions, each an atomic function on the
  database that also gives the rest of the program. Between two transactions of one program
  those of any other program may run, so \<open>pool\<close> runs several programs in any order. Values in
  sealed stores are encrypted under the wrapping key of the database; AES-GCM is the parameter
  \<open>cipher\<close>. A thrown error ends the program with \<open>Inl\<close>.

  What a group of programs may do to the database is stated by a guarantee relation, and
  \<open>rg\<close> says that a program keeps it, whatever the other programs do that keep it too.
\<close>

section \<open>State\<close>

datatype db_error = Invalid | Exhausted | Corrupt | Fenced | Conflict | Revoked | Local_conflict
  | Unreadable | Key_missing | Generation_exhausted | Out_of_pages | Thrown

record id_fence =
  generation :: int
  active :: bool

definition defaultFence :: id_fence where
  "defaultFence = \<lparr>generation = 1, active = True\<rparr>"

text \<open>A sealed value: \<^verbatim>\<open>{iv, sealed}\<close>, with the revision that ratchet records carry (0 elsewhere).\<close>

record sealed_rec =
  rec_iv :: bytes
  rec_sealed :: bytes
  rec_revision :: int

text \<open>Content shared into the app: its text and its files, sealed one by one.\<close>

record shared_file =
  sf_name :: string
  sf_type :: string
  sf_record :: sealed_rec

record share =
  sh_at :: int
  sh_text :: sealed_rec
  sh_files :: "shared_file list"

text \<open>The device store holds the wrapping key, the fence, the identity with its metadata and the
  markers of initialised ratchet namespaces; ratchet records are keyed by namespace and
  reference; the share store holds at most one share; everything else is keyed by the name of its
  store and its key there. The functions for sealed values take any name; that no caller gives
  them a name of the first three groups is a condition of the machine that runs them.\<close>

record db =
  wrapping_key :: "bytes option"
  fence_rec :: "id_fence option"
  identity_rec :: "(sealed_rec \<times> jsv) option"
  initialized :: "(string, int) jmap"
  ratchet_recs :: "(string \<times> string \<times> string, sealed_rec) jmap"
  sealed_recs :: "(string \<times> string, sealed_rec) jmap"
  share_rec :: "share option"

definition new_db :: db where
  "new_db = \<lparr>wrapping_key = None, fence_rec = None, identity_rec = None, initialized = [], ratchet_recs = [], sealed_recs = [], share_rec = None\<rparr>"

text \<open>AES-GCM: key, IV and additional data.\<close>

record cipher =
  encrypt :: "bytes \<Rightarrow> bytes \<Rightarrow> bytes \<Rightarrow> bytes \<Rightarrow> bytes"
  decrypt :: "bytes \<Rightarrow> bytes \<Rightarrow> bytes \<Rightarrow> bytes \<Rightarrow> bytes option"

definition cipher_inverts :: "cipher \<Rightarrow> bool" where
  "cipher_inverts c \<longleftrightarrow> (\<forall>k iv aad p. decrypt c k iv aad (encrypt c k iv aad p) = Some p)"

text \<open>Objects: \<^verbatim>\<open>{...a, ...b}\<close>.\<close>

definition members :: "jsv \<Rightarrow> (string \<times> jsv) list" where
  "members v = (case v of JObj fs \<Rightarrow> fs | _ \<Rightarrow> [])"

definition merge_fields :: "jsv \<Rightarrow> jsv \<Rightarrow> jsv" where
  "merge_fields a b = JObj (fold (\<lambda>(k, v). jset k v) (members b) (members a))"

section \<open>Programs\<close>

datatype 'a prog = Ret "db_error + 'a" | Atomic "db \<Rightarrow> db \<times> 'a prog"

primrec bind :: "'a prog \<Rightarrow> ('a \<Rightarrow> 'b prog) \<Rightarrow> 'b prog" where
  "bind (Ret r) f = (case r of Inl e \<Rightarrow> Ret (Inl e) | Inr a \<Rightarrow> f a)"
| "bind (Atomic t) f = Atomic (\<lambda>D. map_prod id (\<lambda>p. bind p f) (t D))"

primrec catch :: "'a prog \<Rightarrow> (db_error \<Rightarrow> 'a prog) \<Rightarrow> 'a prog" where
  "catch (Ret r) h = (case r of Inl e \<Rightarrow> h e | Inr a \<Rightarrow> Ret (Inr a))"
| "catch (Atomic t) h = Atomic (\<lambda>D. map_prod id (\<lambda>p. catch p h) (t D))"

text \<open>A program run alone.\<close>

primrec exec :: "'a prog \<Rightarrow> db \<Rightarrow> db \<times> (db_error + 'a)" where
  "exec (Ret r) = (\<lambda>D. (D, r))"
| "exec (Atomic t) = (\<lambda>D. case map_prod id exec (t D) of (D', k) \<Rightarrow> k D')"

text \<open>Programs of several tabs: each turn runs the next transaction of one of them.\<close>

definition turn :: "nat \<Rightarrow> db \<times> 'a prog list \<Rightarrow> db \<times> 'a prog list" where
  "turn i S = (case S of (D, ps) \<Rightarrow>
     (if i < length ps then (case ps ! i of Ret r \<Rightarrow> (D, ps) | Atomic t \<Rightarrow> (case t D of (D', p) \<Rightarrow> (D', ps[i := p]))) else (D, ps)))"

definition lift_res :: "(db_error + 'a) \<Rightarrow> 'a prog" where
  "lift_res r = Ret r"

definition look :: "(db \<Rightarrow> db_error + 'a) \<Rightarrow> 'a prog" where  \<comment> \<open>a read-only transaction\<close>
  "look f = Atomic (\<lambda>D. (D, Ret (f D)))"

definition fmap :: "('a \<Rightarrow> 'b) \<Rightarrow> 'a prog \<Rightarrow> 'b prog" where
  "fmap f p = bind p (\<lambda>a. Ret (Inr (f a)))"

primrec sbind :: "db_error + 'a \<Rightarrow> ('a \<Rightarrow> db_error + 'b) \<Rightarrow> db_error + 'b" where
  "sbind (Inl e) f = Inl e"
| "sbind (Inr a) f = f a"

definition ensure :: "db_error \<Rightarrow> bool \<Rightarrow> db_error + unit" where  \<comment> \<open>\<^verbatim>\<open>if (!b) throw e\<close>\<close>
  "ensure e b = (if b then Inr () else Inl e)"

section \<open>The wrapping key and the fence\<close>

definition wrappingKey :: "bytes \<Rightarrow> bool \<Rightarrow> bytes prog" where
  "wrappingKey candidate create =
     bind (look (\<lambda>D. Inr (wrapping_key D))) (\<lambda>existing. case existing of
       Some k \<Rightarrow> Ret (Inr k)
     | None \<Rightarrow> if \<not> create then Ret (Inl Key_missing)
         else Atomic (\<lambda>D. case wrapping_key D of
             Some k \<Rightarrow> (D, Ret (Inr k))
           | None \<Rightarrow> if identity_rec D \<noteq> None \<or> ratchet_recs D \<noteq> [] \<or> share_rec D \<noteq> None \<or> list_ex (\<lambda>(st, k). st \<noteq> ''device'') (jkeys (sealed_recs D)) then (D, Ret (Inl Key_missing))
                     else (D\<lparr>wrapping_key := Some candidate\<rparr>, Ret (Inr candidate))))"

definition seal :: "cipher \<Rightarrow> bytes \<Rightarrow> bytes \<Rightarrow> bytes \<Rightarrow> bytes \<Rightarrow> sealed_rec prog" where
  "seal c candidate iv aad plain =
     fmap (\<lambda>k. \<lparr>rec_iv = iv, rec_sealed = encrypt c k iv aad plain, rec_revision = 0\<rparr>) (wrappingKey candidate True)"

definition unseal :: "cipher \<Rightarrow> sealed_rec \<Rightarrow> bytes \<Rightarrow> bytes prog" where
  "unseal c r aad = bind (wrappingKey [] False) (\<lambda>k. case decrypt c k (rec_iv r) aad (rec_sealed r) of
     Some p \<Rightarrow> Ret (Inr p) | None \<Rightarrow> Ret (Inl Thrown))"

definition current_fence :: "db \<Rightarrow> id_fence" where
  "current_fence D = (case fence_rec D of Some f \<Rightarrow> f | None \<Rightarrow> defaultFence)"

definition identityFence :: "id_fence prog" where
  "identityFence = look (\<lambda>D. Inr (current_fence D))"

text \<open>The work of a fenced write runs inside its transaction; an error of it aborts the transaction.\<close>

definition fencedWrite :: "id_fence \<Rightarrow> bool \<Rightarrow> (db \<Rightarrow> id_fence \<Rightarrow> db_error + (db \<times> 'a)) \<Rightarrow> 'a prog" where
  "fencedWrite expected onboarding work = Atomic (\<lambda>D.
     let current = current_fence D in
     if generation current \<noteq> generation expected \<or> (\<not> active current \<and> \<not> onboarding) then (D, Ret (Inl Fenced))
     else case work D current of Inl e \<Rightarrow> (D, Ret (Inl e)) | Inr (D', a) \<Rightarrow> (D', Ret (Inr a)))"

section \<open>Sealed values\<close>

definition json_bytes :: "jsv \<Rightarrow> bytes" where  \<comment> \<open>\<^verbatim>\<open>encoder.encode(JSON.stringify(value))\<close>\<close>
  "json_bytes v = utf8 (stringify v)"

definition bytes_json :: "bytes \<Rightarrow> jsv option" where  \<comment> \<open>\<^verbatim>\<open>JSON.parse(decoder.decode(data))\<close>\<close>
  "bytes_json b = (case text_decode b of None \<Rightarrow> None | Some t \<Rightarrow> json_parse t)"

definition put_rec :: "string \<Rightarrow> string \<Rightarrow> sealed_rec \<Rightarrow> db \<Rightarrow> db" where
  "put_rec st k r D = D\<lparr>sealed_recs := jset (st, k) r (sealed_recs D)\<rparr>"

definition putSealedIn :: "cipher \<Rightarrow> bytes \<Rightarrow> bytes \<Rightarrow> id_fence \<Rightarrow> string \<Rightarrow> string \<Rightarrow> jsv \<Rightarrow> unit prog" where
  "putSealedIn c candidate iv expected st k v =
     bind (seal c candidate iv [] (json_bytes v)) (\<lambda>r. fencedWrite expected False (\<lambda>D _. Inr (put_rec st k r D, ())))"

definition putSealed :: "cipher \<Rightarrow> bytes \<Rightarrow> bytes \<Rightarrow> string \<Rightarrow> string \<Rightarrow> jsv \<Rightarrow> unit prog" where
  "putSealed c candidate iv st k v = bind identityFence (\<lambda>fence.
     bind (seal c candidate iv [] (json_bytes v)) (\<lambda>r. fencedWrite fence False (\<lambda>D _. Inr (put_rec st k r D, ()))))"

definition sameRecord :: "sealed_rec option \<Rightarrow> sealed_rec option \<Rightarrow> bool" where
  "sameRecord a b \<longleftrightarrow> map_option rec_iv a = map_option rec_iv b"

definition read_sealed :: "cipher \<Rightarrow> sealed_rec option \<Rightarrow> jsv prog" where
  "read_sealed c before = (case before of None \<Rightarrow> Ret (Inr JUndef)
     | Some r \<Rightarrow> bind (unseal c r []) (\<lambda>p. case bytes_json p of Some v \<Rightarrow> Ret (Inr v) | None \<Rightarrow> Ret (Inl Thrown)))"

text \<open>One attempt of \<^verbatim>\<open>updateSealed\<close> gives the result, or None when the record changed meanwhile.\<close>

definition update_attempt :: "cipher \<Rightarrow> bytes \<Rightarrow> bytes \<Rightarrow> string \<Rightarrow> string \<Rightarrow> (jsv \<Rightarrow> jsv) \<Rightarrow> id_fence option \<Rightarrow> jsv option prog" where
  "update_attempt c candidate iv st k mutate expected =
     bind (look (\<lambda>D. Inr (jget (sealed_recs D) (st, k)))) (\<lambda>before.
     bind (catch (read_sealed c before) (\<lambda>_. Ret (Inl Unreadable))) (\<lambda>v.
     let nxt = mutate v in
     if nxt = JUndef then Ret (Inr (Some v))
     else bind (seal c candidate iv [] (json_bytes nxt)) (\<lambda>r.
       bind (case expected of Some f \<Rightarrow> Ret (Inr f) | None \<Rightarrow> identityFence) (\<lambda>fence.
       fencedWrite fence False (\<lambda>D _.
         if sameRecord (jget (sealed_recs D) (st, k)) before then Inr (put_rec st k r D, Some nxt) else Inr (D, None))))))"

primrec update_attempts :: "nat \<Rightarrow> cipher \<Rightarrow> (nat \<Rightarrow> bytes \<times> bytes) \<Rightarrow> string \<Rightarrow> string \<Rightarrow> (jsv \<Rightarrow> jsv) \<Rightarrow> id_fence option \<Rightarrow> jsv prog" where
  "update_attempts 0 c rnd st k mutate expected = Ret (Inl Conflict)"
| "update_attempts (Suc n) c rnd st k mutate expected =
     bind (update_attempt c (fst (rnd n)) (snd (rnd n)) st k mutate expected) (\<lambda>r. case r of
       Some v \<Rightarrow> Ret (Inr v) | None \<Rightarrow> update_attempts n c rnd st k mutate expected)"

definition updateSealed :: "cipher \<Rightarrow> (nat \<Rightarrow> bytes \<times> bytes) \<Rightarrow> string \<Rightarrow> string \<Rightarrow> (jsv \<Rightarrow> jsv) \<Rightarrow> id_fence option \<Rightarrow> jsv prog" where
  "updateSealed = update_attempts 8"

definition deleteKeyIn :: "id_fence \<Rightarrow> string \<Rightarrow> string \<Rightarrow> unit prog" where
  "deleteKeyIn expected st k = fencedWrite expected False (\<lambda>D _. Inr (D\<lparr>sealed_recs := jdel (st, k) (sealed_recs D)\<rparr>, ()))"

definition getSealed :: "cipher \<Rightarrow> string \<Rightarrow> string \<Rightarrow> jsv prog" where
  "getSealed c st k = bind (look (\<lambda>D. Inr (jget (sealed_recs D) (st, k)))) (read_sealed c)"

text \<open>The keys of a store, in the order of the store.\<close>

definition store_keys :: "string \<Rightarrow> string list prog" where
  "store_keys st = look (\<lambda>D. Inr (sort (map snd (filter (\<lambda>(s, k). s = st) (jkeys (sealed_recs D))))))"

definition deleteKey :: "string \<Rightarrow> string \<Rightarrow> unit prog" where
  "deleteKey st k = Atomic (\<lambda>D. (D\<lparr>sealed_recs := jdel (st, k) (sealed_recs D)\<rparr>, Ret (Inr ())))"

definition clear_store :: "string \<Rightarrow> db \<Rightarrow> db" where
  "clear_store n D =
     (let D1 = D\<lparr>sealed_recs := filter (\<lambda>(sk, r). fst sk \<noteq> n) (sealed_recs D)\<rparr> in
      if n = ''ratchet'' then D1\<lparr>ratchet_recs := []\<rparr>
      else if n = ''share'' then D1\<lparr>share_rec := None\<rparr>
      else if n = ''device'' then D1\<lparr>wrapping_key := None, fence_rec := None, identity_rec := None, initialized := []\<rparr>
      else D1)"

primrec clearStores :: "string list \<Rightarrow> unit prog" where
  "clearStores [] = Ret (Inr ())"
| "clearStores (n # ns) = Atomic (\<lambda>D. (clear_store n D, clearStores ns))"


section \<open>Guarantees\<close>

definition stable :: "(db \<Rightarrow> db \<Rightarrow> bool) \<Rightarrow> (db \<Rightarrow> bool) \<Rightarrow> bool" where
  "stable G K \<longleftrightarrow> (\<forall>D D'. K D \<longrightarrow> G D D' \<longrightarrow> K D')"

text \<open>Started in a database with \<open>K\<close>, which the others keep, every transaction of the program keeps
  the guarantee \<open>G\<close>, and a result the program returns satisfies \<open>Q\<close>.\<close>

inductive rg :: "(db \<Rightarrow> db \<Rightarrow> bool) \<Rightarrow> (db \<Rightarrow> bool) \<Rightarrow> ('a \<Rightarrow> db \<Rightarrow> bool) \<Rightarrow> 'a prog \<Rightarrow> bool" for G where
  rg_Ret: "(\<And>D a. K D \<Longrightarrow> r = Inr a \<Longrightarrow> Q a D) \<Longrightarrow> rg G K Q (Ret r)"
| rg_Atomic: "(\<And>D. K D \<Longrightarrow> G D (fst (t D)) \<and> (\<exists>K'. stable G K' \<and> K' (fst (t D)) \<and> rg G K' Q (snd (t D)))) \<Longrightarrow> rg G K Q (Atomic t)"

inductive_cases rg_RetE: "rg G K Q (Ret r)"
inductive_cases rg_AtomicE: "rg G K Q (Atomic t)"

lemma stable_conj: "stable G K \<Longrightarrow> stable G K' \<Longrightarrow> stable G (\<lambda>D. K D \<and> K' D)"
  by (auto simp: stable_def)

lemma stable_True [simp]: "stable G (\<lambda>D. True)"
  by (simp add: stable_def)

lemma stable_const [simp]: "stable G (\<lambda>D. b)"
  by (simp add: stable_def)

lemma rg_pre: "rg G K Q p \<Longrightarrow> (\<And>D. K' D \<Longrightarrow> K D) \<Longrightarrow> rg G K' Q p"
proof (cases p)
  case (Ret r)
  assume "rg G K Q p" "\<And>D. K' D \<Longrightarrow> K D"
  then show ?thesis unfolding Ret by (auto intro!: rg_Ret elim!: rg_RetE)
next
  case (Atomic t)
  assume "rg G K Q p" and K: "\<And>D. K' D \<Longrightarrow> K D"
  then show ?thesis unfolding Atomic by (intro rg_Atomic) (erule rg_AtomicE, simp add: K)
qed

lemma rg_post: "rg G K Q p \<Longrightarrow> (\<And>a D. Q a D \<Longrightarrow> Q' a D) \<Longrightarrow> rg G K Q' p"
proof (induction rule: rg.induct)
  case (rg_Ret K r Q)
  then show ?case by (blast intro: rg.rg_Ret)
next
  case (rg_Atomic K t Q)
  then show ?case by (intro rg.rg_Atomic) blast
qed

lemma rg_False: "(\<And>D. \<not> K D) \<Longrightarrow> rg G K Q p"
  by (cases p) (auto intro: rg.intros)

lemma rg_error [simp]: "rg G K Q (Ret (Inl e))"
  by (intro rg_Ret) simp

lemma rg_bind:
  assumes "rg G K Q p" and "\<And>a. stable G (Q a)" and "\<And>a. rg G (Q a) Q' (f a)"
  shows "rg G K Q' (bind p f)"
  using assms
proof (induction p arbitrary: K rule: prog.induct)
  case (Ret r)
  show ?case
  proof (cases r)
    case (Inr a)
    have "Q a D" if "K D" for D using Ret.prems(1) that Inr by (auto elim: rg_RetE)
    then show ?thesis using rg_pre [OF Ret.prems(3)] by (simp add: Inr)
  qed simp
next
  case (Atomic t)
  have "G D (fst (map_prod id (\<lambda>p. bind p f) (t D))) \<and> (\<exists>K'. stable G K' \<and> K' (fst (map_prod id (\<lambda>p. bind p f) (t D)))
      \<and> rg G K' Q' (snd (map_prod id (\<lambda>p. bind p f) (t D))))" if K: "K D" for D
  proof -
    obtain K' where K': "G D (fst (t D))" "stable G K'" "K' (fst (t D))" "rg G K' Q (snd (t D))"
      using Atomic.prems(1) K by (auto elim!: rg_AtomicE)
    have "rg G K' Q' (bind (snd (t D)) f)"
      by (rule Atomic.IH [OF rangeI, of "snd (t D)" D K']) (use K' Atomic.prems in \<open>simp_all add: snds.simps prod_eq_iff\<close>)
    then show ?thesis using K' by (cases "t D") auto
  qed
  then show ?case by (simp add: rg_Atomic)
qed

lemma rg_catch:
  assumes "rg G K Q p" and "stable G K" and "\<And>e. rg G (\<lambda>_. True) Q (h e)"
  shows "rg G K Q (catch p h)"
  using assms
proof (induction p arbitrary: K rule: prog.induct)
  case (Ret r)
  then show ?case using rg_pre [OF Ret.prems(3), of K] by (cases r) auto
next
  case (Atomic t)
  have "G D (fst (map_prod id (\<lambda>p. catch p h) (t D))) \<and> (\<exists>K'. stable G K' \<and> K' (fst (map_prod id (\<lambda>p. catch p h) (t D)))
      \<and> rg G K' Q (snd (map_prod id (\<lambda>p. catch p h) (t D))))" if K: "K D" for D
  proof -
    obtain K' where K': "G D (fst (t D))" "stable G K'" "K' (fst (t D))" "rg G K' Q (snd (t D))"
      using Atomic.prems(1) K by (auto elim!: rg_AtomicE)
    have "rg G K' Q (catch (snd (t D)) h)"
      by (rule Atomic.IH [OF rangeI, of "snd (t D)" D K']) (use K' Atomic.prems in \<open>simp_all add: snds.simps prod_eq_iff\<close>)
    then show ?thesis using K' by (cases "t D") auto
  qed
  then show ?case by (simp add: rg_Atomic)
qed

text \<open>A task of the pool is guaranteed when the database satisfies an assertion it may rely on.\<close>

definition guaranteed :: "(db \<Rightarrow> db \<Rightarrow> bool) \<Rightarrow> ('a \<Rightarrow> db \<Rightarrow> bool) \<Rightarrow> db \<Rightarrow> 'a prog \<Rightarrow> bool" where
  "guaranteed G Q D p \<longleftrightarrow> (\<exists>K. stable G K \<and> K D \<and> rg G K Q p)"

locale guarantee =
  fixes G :: "db \<Rightarrow> db \<Rightarrow> bool"
  assumes G_refl: "G D D"
begin

lemma rg_txn:
  assumes "\<And>D. K D \<Longrightarrow> \<exists>r. snd (t D) = Ret r \<and> G D (fst (t D)) \<and> (\<forall>a. r = Inr a \<longrightarrow> Q a (fst (t D)))"
    and "\<And>a. stable G (Q a)"
  shows "rg G K Q (Atomic t)"
proof (rule rg_Atomic)
  fix D assume "K D"
  then obtain r where r: "snd (t D) = Ret r" "G D (fst (t D))" "\<forall>a. r = Inr a \<longrightarrow> Q a (fst (t D))" using assms(1) by blast
  show "G D (fst (t D)) \<and> (\<exists>K'. stable G K' \<and> K' (fst (t D)) \<and> rg G K' Q (snd (t D)))"
  proof (cases r)
    case (Inl e)
    then show ?thesis using r by (auto intro: exI [of _ "\<lambda>_. True"])
  next
    case (Inr a)
    then show ?thesis using r assms(2) by (auto intro!: exI [of _ "Q a"] rg_Ret)
  qed
qed

lemma rg_look:
  assumes "\<And>D a. K D \<Longrightarrow> f D = Inr a \<Longrightarrow> Q a D" and "\<And>a. stable G (Q a)"
  shows "rg G K Q (look f)"
  unfolding look_def by (rule rg_txn) (use assms G_refl in auto)

lemma rg_fencedWrite:
  assumes "\<And>D D' a. K D \<Longrightarrow> generation (current_fence D) = generation f \<Longrightarrow> active (current_fence D) \<or> onboarding
      \<Longrightarrow> work D (current_fence D) = Inr (D', a) \<Longrightarrow> G D D' \<and> Q a D'"
    and "\<And>a. stable G (Q a)"
  shows "rg G K Q (fencedWrite f onboarding work)"
  unfolding fencedWrite_def
proof (rule rg_txn [OF _ assms(2)])
  fix D assume "K D"
  then show "\<exists>r. snd (let current = current_fence D in
      if generation current \<noteq> generation f \<or> (\<not> active current \<and> \<not> onboarding) then (D, Ret (Inl Fenced))
      else case work D current of Inl e \<Rightarrow> (D, Ret (Inl e)) | Inr (D', a) \<Rightarrow> (D', Ret (Inr a))) = Ret r
    \<and> G D (fst (let current = current_fence D in
      if generation current \<noteq> generation f \<or> (\<not> active current \<and> \<not> onboarding) then (D, Ret (Inl Fenced))
      else case work D current of Inl e \<Rightarrow> (D, Ret (Inl e)) | Inr (D', a) \<Rightarrow> (D', Ret (Inr a))))
    \<and> (\<forall>a. r = Inr a \<longrightarrow> Q a (fst (let current = current_fence D in
      if generation current \<noteq> generation f \<or> (\<not> active current \<and> \<not> onboarding) then (D, Ret (Inl Fenced))
      else case work D current of Inl e \<Rightarrow> (D, Ret (Inl e)) | Inr (D', a) \<Rightarrow> (D', Ret (Inr a)))))"
    using assms(1) [of D] G_refl by (auto simp: Let_def split: sum.splits prod.splits)
qed

lemma rg_fmap: "rg G K (\<lambda>a. Q (f a)) p \<Longrightarrow> (\<And>a. stable G (Q a)) \<Longrightarrow> rg G K Q (fmap f p)"
  unfolding fmap_def by (rule rg_bind) (auto intro: rg_Ret)

lemma guaranteed_step:
  assumes "guaranteed G Q D (Atomic t)"
  shows "G D (fst (t D)) \<and> guaranteed G Q (fst (t D)) (snd (t D))"
  using assms by (auto simp: guaranteed_def elim!: rg_AtomicE)

lemma guaranteed_other: "guaranteed G Q D p \<Longrightarrow> G D D' \<Longrightarrow> guaranteed G Q D' p"
  by (auto simp: guaranteed_def stable_def)

lemma turn_guaranteed:
  assumes "list_all (guaranteed G Q D) ps" and "turn i (D, ps) = (D', ps')"
  shows "G D D' \<and> list_all (guaranteed G Q D') ps'"
proof (cases "\<exists>t. i < length ps \<and> ps ! i = Atomic t")
  case True
  then obtain t where t: "i < length ps" "ps ! i = Atomic t" by blast
  then have e: "D' = fst (t D)" "ps' = ps[i := snd (t D)]" using assms(2) by (auto simp: turn_def split: prod.splits)
  have "guaranteed G Q D (Atomic t)" using assms(1) t by (metis list_all_length)
  from guaranteed_step [OF this] have G: "G D D'" and n: "guaranteed G Q D' (snd (t D))" by (simp_all add: e)
  have "list_all (guaranteed G Q D') ps" using assms(1) guaranteed_other [OF _ G] by (auto simp: list_all_iff)
  then show ?thesis using G n by (auto simp: e(2) list_all_iff dest!: set_update_subset_insert [THEN subsetD])
next
  case False
  then have "D' = D \<and> ps' = ps" using assms(2) by (cases "ps ! i") (auto simp: turn_def split: if_splits)
  then show ?thesis using assms(1) G_refl by simp
qed

end

end
