(* ===== verification/Identity_Store.thy ===== *)
theory Identity_Store
  imports Local_Db
begin

text \<open>
  The device identity in the local database (mobile/src/core/identity-store.js): storing and
  loading it, its metadata, the onboarding fence, and signing out, which clears the account's
  data and advances the fence in one transaction. Not modelled: the account settings outside
  the database that \<^verbatim>\<open>clearAccountSettings\<close> removes afterwards.
\<close>

section \<open>Operations\<close>

definition identity_sizes :: "(string \<times> nat) list" where  \<comment> \<open>\<^verbatim>\<open>FIELDS\<close>, \<^verbatim>\<open>SIZES\<close>\<close>
  "identity_sizes = [(''edPublic'', 32), (''edSecret'', 64), (''xPublic'', 32), (''xSecret'', 32)]"

definition byte_field :: "jsv \<Rightarrow> string \<Rightarrow> bytes" where
  "byte_field v k = (case field v k of JBytes b \<Rightarrow> b | _ \<Rightarrow> [])"

definition valid_identity :: "jsv \<Rightarrow> bool" where
  "valid_identity v = list_all (\<lambda>(k, n). case field v k of JBytes b \<Rightarrow> length b = n | _ \<Rightarrow> False) identity_sizes"

definition plain_identity :: "jsv \<Rightarrow> bytes" where
  "plain_identity v = concat (map (\<lambda>(k, n). byte_field v k) identity_sizes)"

fun split_identity :: "(string \<times> nat) list \<Rightarrow> bytes \<Rightarrow> (string \<times> jsv) list" where
  "split_identity [] p = []"
| "split_identity ((k, n) # fs) p = (k, JBytes (take n p)) # split_identity fs (drop n p)"

text \<open>\<^verbatim>\<open>device.clear()\<close> with the wrapping key put back, and every other store cleared.\<close>

definition clear_account :: "db \<Rightarrow> db" where
  "clear_account D = D\<lparr>fence_rec := None, identity_rec := None, initialized := [], ratchet_recs := [], sealed_recs := [], share_rec := None\<rparr>"

definition next_fence :: "id_fence \<Rightarrow> bool \<Rightarrow> db_error + id_fence" where
  "next_fence current act =
     (if generation current \<ge> max_safe_integer then Inl Generation_exhausted
      else Inr \<lparr>generation = generation current + 1, active = act\<rparr>)"

definition saveIdentity :: "cipher \<Rightarrow> bytes \<Rightarrow> bytes \<Rightarrow> jsv \<Rightarrow> jsv \<Rightarrow> bool \<Rightarrow> id_fence option \<Rightarrow> bool \<Rightarrow> id_fence prog" where
  "saveIdentity c candidate iv identity meta onboarding fence replaceAccount =
     (if (onboarding \<and> fence = None) \<or> (replaceAccount \<and> \<not> onboarding) \<or> \<not> valid_identity identity then Ret (Inl Thrown)
      else bind (case fence of Some f \<Rightarrow> Ret (Inr f) | None \<Rightarrow> identityFence) (\<lambda>expected.
        bind (seal c candidate iv [] (plain_identity identity)) (\<lambda>r.
        fencedWrite expected onboarding (\<lambda>D current.
          sbind (if onboarding then next_fence current True else Inr current) (\<lambda>nxt.
          Inr ((if replaceAccount then clear_account D else D)\<lparr>fence_rec := Some nxt, identity_rec := Some (r, meta)\<rparr>, nxt))))))"

definition meta_of :: "jsv \<Rightarrow> jsv" where  \<comment> \<open>\<^verbatim>\<open>record.meta || {}\<close>\<close>
  "meta_of meta = (if truthy meta then meta else JObj [])"

definition loadIdentity :: "cipher \<Rightarrow> (jsv \<times> jsv \<times> id_fence) option prog" where
  "loadIdentity c = bind identityFence (\<lambda>expected.
     if \<not> active expected then Ret (Inr None)
     else bind (look (\<lambda>D. Inr (identity_rec D))) (\<lambda>record. case record of None \<Rightarrow> Ret (Inr None)
       | Some (r, meta) \<Rightarrow> bind (unseal c r []) (\<lambda>plain.
           if length plain \<noteq> 160 then Ret (Inl Thrown)
           else catch (bind (fencedWrite expected False (\<lambda>D _. Inr (D, ()))) (\<lambda>_.
                  Ret (Inr (Some (JObj (split_identity identity_sizes plain), meta_of meta, expected)))))
                (\<lambda>e. if e = Fenced then Ret (Inr None) else Ret (Inl e)))))"

definition updateMeta :: "jsv \<Rightarrow> id_fence option \<Rightarrow> unit prog" where
  "updateMeta patch fence = bind (case fence of Some f \<Rightarrow> Ret (Inr f) | None \<Rightarrow> identityFence) (\<lambda>expected.
     fencedWrite expected False (\<lambda>D _. case identity_rec D of
         None \<Rightarrow> Inr (D, ())
       | Some (r, meta) \<Rightarrow> Inr (D\<lparr>identity_rec := Some (r, merge_fields meta patch)\<rparr>, ())))"

definition beginIdentity :: "id_fence prog" where
  "beginIdentity = identityFence"

definition assertIdentityFence :: "id_fence \<Rightarrow> unit prog" where
  "assertIdentityFence fence = fencedWrite fence False (\<lambda>D _. Inr (D, ()))"

definition clearIdentity :: "id_fence option \<Rightarrow> id_fence prog" where
  "clearIdentity expected = Atomic (\<lambda>D.
     let current = current_fence D in
     if (case expected of Some f \<Rightarrow> generation current \<noteq> generation f | None \<Rightarrow> False) then (D, Ret (Inl Fenced))
     else case next_fence current False of Inl e \<Rightarrow> (D, Ret (Inl e))
       | Inr nxt \<Rightarrow> ((clear_account D)\<lparr>fence_rec := Some nxt\<rparr>, Ret (Inr nxt)))"

section \<open>Round trip of the identity\<close>

definition fits :: "jsv \<Rightarrow> string \<times> nat \<Rightarrow> bool" where
  "fits v = (\<lambda>(k, n). case field v k of JBytes b \<Rightarrow> length b = n | _ \<Rightarrow> False)"

lemma fits_bytes: "fits v (k, n) \<Longrightarrow> JBytes (byte_field v k) = field v k \<and> length (byte_field v k) = n"
  by (simp add: fits_def byte_field_def split: jsv.splits)

lemma split_identity_plain:
  "list_all (fits v) fs \<Longrightarrow> split_identity fs (concat (map (\<lambda>(k, n). byte_field v k) fs)) = map (\<lambda>(k, n). (k, field v k)) fs
    \<and> length (concat (map (\<lambda>(k, n). byte_field v k) fs)) = sum_list (map snd fs)"
proof (induction fs)
  case (Cons f fs)
  obtain k n where f: "f = (k, n)" by (cases f)
  show ?case using Cons fits_bytes [of v k n] by (simp add: f)
qed simp

lemma identity_roundtrip:
  assumes "valid_identity v"
  shows "split_identity identity_sizes (plain_identity v) = map (\<lambda>(k, n). (k, field v k)) identity_sizes"
    and "length (plain_identity v) = 160"
proof -
  have "list_all (fits v) identity_sizes" using assms by (simp add: valid_identity_def fits_def)
  note sp = split_identity_plain [OF this]
  have "sum_list (map snd identity_sizes) = 160" by (simp add: identity_sizes_def)
  with sp show "split_identity identity_sizes (plain_identity v) = map (\<lambda>(k, n). (k, field v k)) identity_sizes" "length (plain_identity v) = 160"
    by (simp_all only: plain_identity_def)
qed

end
