(* ===== verification/Olm_Directory.thy ===== *)
theory Olm_Directory
  imports Js_Text
begin

text \<open>
  Signed key material of the secure messages (mobile/src/core/olm-keys.js, olm-directory.js and
  olm-reset.js): validation of keys and names, the text a device signs for its bundle of
  one-time keys, the text it signs when its account is reset, and the chain of resets a
  peer's pinned identity is advanced through.

  Messages from the network are dynamically typed values; a routine that throws returns None.
  The curve arithmetic and the signature scheme (package \<^verbatim>\<open>@noble/curves\<close>) and SHA-256 are the
  fields of the parameter \<open>curves\<close>: no law is assumed about them.
\<close>

section \<open>Keys and names\<close>

record curves =
  shared_secret :: "bytes \<Rightarrow> bytes \<Rightarrow> bytes option"  \<comment> \<open>\<^verbatim>\<open>x25519.getSharedSecret\<close>, None when it throws\<close>
  ed_point :: "bytes \<Rightarrow> (bytes \<times> bool) option"  \<comment> \<open>\<^verbatim>\<open>ed25519.Point.fromBytes\<close>: its encoding, and whether it has small order\<close>
  ed_verify :: "bytes \<Rightarrow> bytes \<Rightarrow> bytes \<Rightarrow> bool option"  \<comment> \<open>signature, message, key\<close>
  sha256 :: "bytes \<Rightarrow> bytes"

definition rawBase64 :: "jsv \<Rightarrow> nat \<Rightarrow> bytes option" where
  "rawBase64 text len =
     (case text of
        JStr t \<Rightarrow>
          if length t \<noteq> (len * 8 + 5) div 6 \<or> t = [] \<or> \<not> list_all (\<lambda>c. c \<in> set b64_alphabet) t then None
          else (case atob t of None \<Rightarrow> None
            | Some bs \<Rightarrow> if length bs \<noteq> len \<or> drop_pad (b64 bs) \<noteq> t then None else Some bs)
      | _ \<Rightarrow> None)"

fun little_endian :: "bytes \<Rightarrow> nat" where
  "little_endian [] = 0"
| "little_endian (b # bs) = unat b + 256 * little_endian bs"

definition validCurve :: "curves \<Rightarrow> jsv \<Rightarrow> bool" where
  "validCurve cv text =
     (case rawBase64 text 32 of None \<Rightarrow> False
      | Some bs \<Rightarrow> little_endian bs < 2 ^ 255 - 19
          \<and> (case shared_secret cv (42 # replicate 31 0) bs of None \<Rightarrow> False | Some s \<Rightarrow> list_ex (\<lambda>v. v \<noteq> 0) s))"

definition validSigning :: "curves \<Rightarrow> jsv \<Rightarrow> bool" where
  "validSigning cv text =
     (case rawBase64 text 32 of None \<Rightarrow> False
      | Some bs \<Rightarrow> (case ed_point cv bs of None \<Rightarrow> False | Some (enc, small) \<Rightarrow> enc = bs \<and> \<not> small))"

text \<open>\<^verbatim>\<open>/[\u0000-\u001f\u007f-\u009f]/\<close>.\<close>

definition control_char :: "char \<Rightarrow> bool" where
  "control_char c \<longleftrightarrow> (let n = of_char c :: nat in n \<le> 31 \<or> (127 \<le> n \<and> n \<le> 159))"

definition validText :: "jsv \<Rightarrow> bool" where
  "validText text = (case text of JStr t \<Rightarrow> length t \<le> 128 \<and> t \<noteq> [] \<and> length (utf8 t) \<le> 128 \<and> \<not> list_ex control_char t | _ \<Rightarrow> False)"

definition verifySignature :: "curves \<Rightarrow> bytes \<Rightarrow> bytes \<Rightarrow> bytes \<Rightarrow> bool" where
  "verifySignature cv signature transcript key = (ed_verify cv signature transcript key = Some True)"

definition digestBytes :: "curves \<Rightarrow> bytes \<Rightarrow> string" where
  "digestBytes cv data = concat (map hex_byte (sha256 cv data))"

section \<open>Bundles of one-time keys\<close>

definition OLM_DIRECTORY_VERSION :: string where
  "OLM_DIRECTORY_VERSION = ''noxa-olm-directory-v1''"

definition hex_any :: "char \<Rightarrow> bool" where
  "hex_any c \<longleftrightarrow> hex_char c \<or> (CHR ''A'' \<le> c \<and> c \<le> CHR ''F'')"

definition lower_hex :: "char \<Rightarrow> char" where
  "lower_hex c = (if CHR ''A'' \<le> c \<and> c \<le> CHR ''Z'' then char_of (of_char c + 32 :: nat) else c)"

text \<open>\<^verbatim>\<open>/^(?:[0-9a-fA-F]{2}:){31}[0-9a-fA-F]{2}$/\<close>.\<close>

definition colon_pairs :: "string \<Rightarrow> bool" where
  "colon_pairs t \<longleftrightarrow> length t = 95
     \<and> list_all (\<lambda>i. if i mod 3 = 2 then t ! i = CHR '':'' else hex_any (t ! i)) [0..<95]"

definition serverBinding :: "jsv \<Rightarrow> string option" where
  "serverBinding fingerprint =
     (case fingerprint of
        JStr t \<Rightarrow>
          (let u = (if colon_pairs t then filter (\<lambda>c. c \<noteq> CHR '':'') t else t) in
           if length u = 64 \<and> list_all hex_any u then Some (''tls-sha256:'' @ map lower_hex u) else None)
      | _ \<Rightarrow> None)"

fun big_endian :: "nat \<Rightarrow> bytes \<Rightarrow> nat" where
  "big_endian n [] = n"
| "big_endian n (b # bs) = big_endian (n * 256 + unat b) bs"

definition keyNumber :: "jsv \<Rightarrow> nat option" where
  "keyNumber key_id = (case rawBase64 key_id 8 of None \<Rightarrow> None
     | Some bs \<Rightarrow> let n = big_endian 0 bs in if n > 9223372036854775807 then None else Some n)"

text \<open>\<^verbatim>\<open>fields.map((f) => utf8(f).length + ":" + f).join("")\<close>.\<close>

definition frame_field :: "string \<Rightarrow> string" where
  "frame_field f = string_of_nat (length (utf8 f)) @ '':'' @ f"

definition transcript_text :: "string list \<Rightarrow> string" where
  "transcript_text fs = concat (map frame_field fs)"

text \<open>The loop over the one-time keys: the fields they add, or None when one is refused.\<close>

fun key_fields :: "curves \<Rightarrow> jsv \<Rightarrow> jsv list \<Rightarrow> jsv list \<Rightarrow> jsv list \<Rightarrow> string list option" where
  "key_fields cv identity ids keys [] = Some []"
| "key_fields cv identity ids keys (k # ks) =
     (let i = field k ''id''; key = field k ''key'' in
      if keyNumber i = None \<or> i \<in> set ids \<or> key \<in> set keys \<or> key = identity \<or> \<not> validCurve cv key then None
      else map_option (\<lambda>fs. str_of i # str_of key # fs) (key_fields cv identity (i # ids) (key # keys) ks))"

definition bundle_ok :: "curves \<Rightarrow> jsv \<Rightarrow> bool" where
  "bundle_ok cv b \<longleftrightarrow>
     field b ''version'' = JStr OLM_DIRECTORY_VERSION \<and> field b ''protocol'' = JStr ''noxa-olm-v1''
     \<and> server_text (js_string (field b ''server'')) \<and> validText (field b ''principal'') \<and> validText (field b ''device_id'')
     \<and> safe_positive (field b ''account_epoch'') \<and> safe_positive (field b ''generation'')
     \<and> safe_positive (field b ''issued_at'') \<and> is_safe_integer (field b ''expires_at'')
     \<and> int_of (field b ''expires_at'') > int_of (field b ''issued_at'')
     \<and> int_of (field b ''expires_at'') - int_of (field b ''issued_at'') \<le> 7 * 86400
     \<and> validCurve cv (field b ''identity'') \<and> validSigning cv (field b ''signing'')
     \<and> is_arr (field b ''one_time_keys'') \<and> 1 \<le> length (arr_of (field b ''one_time_keys''))
     \<and> length (arr_of (field b ''one_time_keys'')) \<le> 100"

definition bundle_fields :: "jsv \<Rightarrow> string list" where
  "bundle_fields b = map (\<lambda>k. js_string (field b k))
       [''version'', ''protocol'', ''server'', ''principal'', ''device_id'', ''account_epoch'', ''generation'',
        ''issued_at'', ''expires_at'', ''identity'', ''signing'']
     @ [string_of_nat (length (arr_of (field b ''one_time_keys'')))]"

definition bundleTranscript :: "curves \<Rightarrow> jsv \<Rightarrow> bytes option" where
  "bundleTranscript cv b =
     (if \<not> bundle_ok cv b then None
      else case key_fields cv (field b ''identity'') [] [] (arr_of (field b ''one_time_keys'')) of
          None \<Rightarrow> None
        | Some fs \<Rightarrow> Some (utf8 (transcript_text (bundle_fields b @ fs))))"

definition find_key :: "jsv \<Rightarrow> jsv \<Rightarrow> jsv option" where
  "find_key b keyID = List.find (\<lambda>k. field k ''id'' = keyID) (arr_of (field b ''one_time_keys''))"

text \<open>What a verifier of a bundle expects: names, epoch, the pinned identity and the device's signing key.\<close>

record expected_bundle =
  x_server :: string
  x_principal :: string
  x_device :: string
  x_epoch :: int
  x_identity :: string
  x_key :: bytes

definition verifyBundleEvidence :: "curves \<Rightarrow> jsv \<Rightarrow> expected_bundle \<Rightarrow> jsv option" where
  "verifyBundleEvidence cv b x =
     (case atob (js_string (field b ''signature'')) of None \<Rightarrow> None
      | Some signature \<Rightarrow>
          if field b ''server'' \<noteq> JStr (x_server x) \<or> field b ''principal'' \<noteq> JStr (x_principal x)
             \<or> field b ''device_id'' \<noteq> JStr (x_device x) \<or> field b ''account_epoch'' \<noteq> JNum (x_epoch x)
             \<or> field b ''identity'' \<noteq> JStr (x_identity x) \<or> length signature \<noteq> 64
             \<or> JStr (b64 signature) \<noteq> field b ''signature'' then None
          else (case bundleTranscript cv b of None \<Rightarrow> None
            | Some t \<Rightarrow> if verifySignature cv signature t (x_key x) then Some b else None))"

definition verifyReservedClaim :: "curves \<Rightarrow> jsv \<Rightarrow> expected_bundle \<Rightarrow> jsv \<Rightarrow> jsv \<Rightarrow> int \<Rightarrow> jsv option" where
  "verifyReservedClaim cv b x keyID claimUntil now =
     (if \<not> truthy b \<or> \<not> is_safe_integer claimUntil \<or> int_of claimUntil \<le> now
         \<or> int_of claimUntil > int_of (field b ''expires_at'') + 3600 \<or> int_of (field b ''issued_at'') > now + 300 then None
      else case verifyBundleEvidence cv b x of None \<Rightarrow> None | Some _ \<Rightarrow> find_key b keyID)"

definition publicationDigest :: "curves \<Rightarrow> jsv \<Rightarrow> string option" where
  "publicationDigest cv b =
     (case bundleTranscript cv b of None \<Rightarrow> None
      | Some t \<Rightarrow> (case atob (js_string (field b ''signature'')) of None \<Rightarrow> None
          | Some sig \<Rightarrow> if length sig \<noteq> 64 then None else Some (digestBytes cv (t @ sig))))"

section \<open>Account resets\<close>

definition reset_ok :: "curves \<Rightarrow> jsv \<Rightarrow> bool" where
  "reset_ok cv r \<longleftrightarrow>
     field r ''version'' = JStr ''noxa-olm-reset-v1'' \<and> server_text (js_string (field r ''server''))
     \<and> validText (field r ''principal'') \<and> validText (field r ''device'') \<and> validText (field r ''transition_id'')
     \<and> safe_positive (field r ''old_epoch'') \<and> field r ''new_epoch'' = JNum (int_of (field r ''old_epoch'') + 1)
     \<and> safe_positive (field r ''new_epoch'') \<and> safe_positive (field r ''generation'') \<and> int_of (field r ''generation'') \<ge> 2
     \<and> validCurve cv (field r ''old_identity'') \<and> validCurve cv (field r ''new_identity'')
     \<and> field r ''old_identity'' \<noteq> field r ''new_identity''
     \<and> validSigning cv (field r ''old_signing'') \<and> validSigning cv (field r ''new_signing'')
     \<and> hash_text (js_string (field r ''publication_digest''))
     \<and> field r ''reason'' \<in> {JStr ''lost'', JStr ''restored''}"

definition reset_fields :: "jsv \<Rightarrow> string list" where
  "reset_fields r = map (\<lambda>k. js_string (field r k))
     [''version'', ''server'', ''principal'', ''device'', ''transition_id'', ''old_epoch'', ''old_identity'', ''old_signing'',
      ''new_epoch'', ''new_identity'', ''new_signing'', ''generation'', ''publication_digest'', ''reason'']"

definition resetTranscript :: "curves \<Rightarrow> jsv \<Rightarrow> bytes option" where
  "resetTranscript cv r = (if reset_ok cv r then Some (utf8 (transcript_text (reset_fields r))) else None)"

text \<open>A pinned identity of a peer's device.\<close>

record pin =
  pin_epoch :: int
  pin_identity :: jsv
  pin_signing :: jsv

text \<open>Who resets: the server and device names and the independently trusted signing key.\<close>

record reset_scope =
  rs_server :: string
  rs_principal :: string
  rs_device :: string
  rs_key :: bytes

definition verifyReset :: "curves \<Rightarrow> reset_scope \<Rightarrow> pin \<Rightarrow> jsv \<Rightarrow> bool" where
  "verifyReset cv sc p r =
     (case atob (js_string (field r ''signature'')) of None \<Rightarrow> False
      | Some sig \<Rightarrow>
          field r ''server'' = JStr (rs_server sc) \<and> field r ''principal'' = JStr (rs_principal sc)
          \<and> field r ''device'' = JStr (rs_device sc) \<and> field r ''old_epoch'' = JNum (pin_epoch p)
          \<and> field r ''old_identity'' = pin_identity p \<and> field r ''old_signing'' = pin_signing p
          \<and> (case resetTranscript cv r of None \<Rightarrow> False | Some t \<Rightarrow> verifySignature cv sig t (rs_key sc)))"

definition next_pin :: "jsv \<Rightarrow> pin" where
  "next_pin r = \<lparr>pin_epoch = int_of (field r ''new_epoch''), pin_identity = field r ''new_identity'', pin_signing = field r ''new_signing''\<rparr>"

definition MAX_RESET_CHAIN_PAGES :: nat where "MAX_RESET_CHAIN_PAGES = 64"

text \<open>The successors a page offers, by old epoch; a fork (two signatures for one epoch) gives None.\<close>

fun page_map :: "jsv list \<Rightarrow> (int, jsv) jmap \<Rightarrow> (int, jsv) jmap option" where
  "page_map [] m = Some m"
| "page_map (r # rs) m =
     (if \<not> truthy r \<or> \<not> is_safe_integer (field r ''old_epoch'') then page_map rs m
      else let e = int_of (field r ''old_epoch'') in
        case jget m e of
          Some q \<Rightarrow> if field q ''signature'' \<noteq> field r ''signature'' then None else page_map rs (jset e r m)
        | None \<Rightarrow> page_map rs (jset e r m))"

lemma verifyReset_next: "verifyReset cv sc p r \<Longrightarrow> pin_epoch (next_pin r) = pin_epoch p + 1"
  by (auto simp: verifyReset_def resetTranscript_def reset_ok_def next_pin_def split: option.splits if_splits)

text \<open>The inner loop over one page: the pin reached and the pins left behind, oldest first.\<close>

function follow_page :: "curves \<Rightarrow> reset_scope \<Rightarrow> int \<Rightarrow> (int, jsv) jmap \<Rightarrow> pin \<Rightarrow> pin list \<Rightarrow> (pin \<times> pin list) option" where
  "follow_page cv sc target m cur passed =
     (if pin_epoch cur < target
      then case jget m (pin_epoch cur) of
          None \<Rightarrow> Some (cur, passed)
        | Some r \<Rightarrow> if verifyReset cv sc cur r then follow_page cv sc target m (next_pin r) (passed @ [cur]) else None
      else Some (cur, passed))"
  by pat_completeness auto
termination
  by (relation "measure (\<lambda>(cv, sc, target, m, cur, passed). nat (target - pin_epoch cur))") (auto simp: verifyReset_next)

declare follow_page.simps [simp del]

text \<open>The outer loop: \<open>n\<close> is the number of pages that may still be fetched; \<open>fetch n e\<close> is the
  server's answer, an arbitrary value.\<close>

fun chain_pages :: "curves \<Rightarrow> reset_scope \<Rightarrow> (nat \<Rightarrow> int \<Rightarrow> jsv) \<Rightarrow> int \<Rightarrow> nat \<Rightarrow> pin \<Rightarrow> pin list \<Rightarrow> (pin \<times> pin list) option" where
  "chain_pages cv sc fetch target n cur passed =
     (if \<not> pin_epoch cur < target then Some (cur, passed)
      else case n of 0 \<Rightarrow> None
        | Suc k \<Rightarrow>
            if \<not> is_arr (fetch n (pin_epoch cur)) then None
            else (case page_map (arr_of (fetch n (pin_epoch cur))) [] of None \<Rightarrow> None
              | Some m \<Rightarrow> (case follow_page cv sc target m cur passed of None \<Rightarrow> None
                  | Some (cur', passed') \<Rightarrow>
                      if pin_epoch cur' = pin_epoch cur then None else chain_pages cv sc fetch target k cur' passed')))"

declare chain_pages.simps [simp del]

definition verifyResetChain :: "curves \<Rightarrow> reset_scope \<Rightarrow> (nat \<Rightarrow> int \<Rightarrow> jsv) \<Rightarrow> pin \<Rightarrow> pin \<Rightarrow> (pin \<times> pin list) option" where
  "verifyResetChain cv sc fetch start target =
     (if \<not> pin_epoch target > pin_epoch start then None
      else case chain_pages cv sc fetch (pin_epoch target) MAX_RESET_CHAIN_PAGES start [] of None \<Rightarrow> None
        | Some (cur, passed) \<Rightarrow>
            if pin_epoch cur \<noteq> pin_epoch target \<or> pin_identity cur \<noteq> pin_identity target
               \<or> (truthy (pin_signing target) \<and> pin_signing cur \<noteq> pin_signing target) then None
            else Some (cur, passed))"



section \<open>Transcripts are unambiguous\<close>

lemma utf8_char_nonempty: "utf8_char c \<noteq> []"
  by (simp add: utf8_char_def Let_def)

lemma utf8_empty [simp]: "utf8 t = [] \<longleftrightarrow> t = []"
  by (auto simp: utf8_def utf8_char_nonempty)

lemma numeral_prefix:
  assumes "string_of_nat m @ CHR '':'' # s = string_of_nat n @ CHR '':'' # t"
  shows "m = n \<and> s = t"
proof -
  have stop: "takeWhile digit_char (string_of_nat k @ CHR '':'' # u) = string_of_nat k" for k u
    using string_of_nat_digits by (simp add: takeWhile_append digit_char_def)
  have "string_of_nat m = string_of_nat n" using stop [of m s] stop [of n t] assms by simp
  then show ?thesis using string_of_nat_inj assms by auto
qed

lemma frame_prefix:
  assumes "frame_field f @ s = frame_field g @ t"
  shows "f = g \<and> s = t"
proof -
  have eq: "length (utf8 f) = length (utf8 g)" "f @ s = g @ t"
    using numeral_prefix [of "length (utf8 f)" "f @ s" "length (utf8 g)" "g @ t"] assms by (simp_all add: frame_field_def)
  then obtain us where "f = g @ us \<and> us @ s = t \<or> f @ us = g \<and> s = us @ t"
    using append_eq_append_conv2 [of f s g t] by blast
  then have "us = []" using eq(1) by auto
  with eq \<open>f = g @ us \<and> us @ s = t \<or> f @ us = g \<and> s = us @ t\<close> show ?thesis by auto
qed

lemma frame_nonempty: "frame_field f \<noteq> []"
  by (simp add: frame_field_def)

lemma transcript_text_inject: "transcript_text fs = transcript_text gs \<Longrightarrow> fs = gs"
proof (induction fs arbitrary: gs)
  case Nil
  then show ?case by (cases gs) (simp_all add: transcript_text_def frame_nonempty)
next
  case (Cons f fs)
  then obtain g hs where gs: "gs = g # hs" by (cases gs) (auto simp: transcript_text_def frame_field_def)
  then show ?case using Cons frame_prefix [of f "transcript_text fs" g "transcript_text hs"] by (simp add: transcript_text_def)
qed

lemma rawBase64_text: "rawBase64 v n = Some bs \<Longrightarrow> v = JStr (str_of v)"
  by (auto simp: rawBase64_def split: jsv.splits)

lemma validCurve_text: "validCurve cv v \<Longrightarrow> v = JStr (str_of v)"
  using rawBase64_text by (auto simp: validCurve_def split: option.splits)

lemma validSigning_text: "validSigning cv v \<Longrightarrow> v = JStr (str_of v)"
  using rawBase64_text by (auto simp: validSigning_def split: option.splits)

lemma keyNumber_text: "keyNumber v = Some n \<Longrightarrow> v = JStr (str_of v)"
  using rawBase64_text by (auto simp: keyNumber_def split: option.splits)

lemma key_fields_inject:
  assumes "key_fields cv i ids keys ks = Some fs" "key_fields cv j ids' keys' ls = Some fs"
  shows "map (\<lambda>k. (field k ''id'', field k ''key'')) ks = map (\<lambda>k. (field k ''id'', field k ''key'')) ls"
  using assms
proof (induction cv i ids keys ks arbitrary: fs ls ids' keys' rule: key_fields.induct)
  case (1 cv i ids keys)
  then show ?case by (cases ls) (auto simp: Let_def split: if_splits)
next
  case (2 cv i ids keys k ks)
  then obtain l ls' where ls: "ls = l # ls'" by (cases ls) (auto simp: Let_def split: if_splits)
  from "2.prems"(1) obtain fs' where k: "keyNumber (field k ''id'') \<noteq> None" "validCurve cv (field k ''key'')"
    "fs = str_of (field k ''id'') # str_of (field k ''key'') # fs'" "key_fields cv i (field k ''id'' # ids) (field k ''key'' # keys) ks = Some fs'"
    and guard: "\<not> (keyNumber (field k ''id'') = None \<or> field k ''id'' \<in> set ids \<or> field k ''key'' \<in> set keys
      \<or> field k ''key'' = i \<or> \<not> validCurve cv (field k ''key''))"
    by (auto simp: Let_def split: if_splits)
  from "2.prems"(2) have l: "keyNumber (field l ''id'') \<noteq> None" "validCurve cv (field l ''key'')"
    "str_of (field l ''id'') = str_of (field k ''id'')" "str_of (field l ''key'') = str_of (field k ''key'')"
    "key_fields cv j (field l ''id'' # ids') (field l ''key'' # keys') ls' = Some fs'"
    unfolding ls k(3) by (auto simp: Let_def split: if_splits)
  have "field l ''id'' = field k ''id''"
    using k(1) l(1,3) keyNumber_text by (metis not_Some_eq)
  moreover have "field l ''key'' = field k ''key''"
    using k(2) l(2,4) validCurve_text by metis
  moreover have "map (\<lambda>k. (field k ''id'', field k ''key'')) ks = map (\<lambda>k. (field k ''id'', field k ''key'')) ls'"
    using "2.IH" guard k(4) l(5) by blast
  ultimately show ?case by (simp add: ls)
qed


lemma transcript_fields:
  assumes "utf8 (transcript_text (bundle_fields b @ fs)) = utf8 (transcript_text (bundle_fields b' @ gs))"
  shows "bundle_fields b = bundle_fields b' \<and> fs = gs"
  using transcript_text_inject [of "bundle_fields b @ fs" "bundle_fields b' @ gs"] assms
  by (simp add: bundle_fields_def)

lemma bundle_transcriptD:
  assumes "bundleTranscript cv b = Some t"
  obtains fs where "bundle_ok cv b" "key_fields cv (field b ''identity'') [] [] (arr_of (field b ''one_time_keys'')) = Some fs"
    "t = utf8 (transcript_text (bundle_fields b @ fs))"
  using assms by (auto simp: bundleTranscript_def split: if_splits option.splits)

lemma safe_positive_text: "safe_positive v \<Longrightarrow> safe_positive w \<Longrightarrow> js_string v = js_string w \<Longrightarrow> v = w"
  using string_of_int_inj by (auto simp: safe_positive_iff)

lemma validText_text: "validText v \<Longrightarrow> v = JStr (str_of v)"
  by (auto simp: validText_def split: jsv.splits)

lemma valid_strings:
  "validText v \<Longrightarrow> is_string v" "validCurve cv v \<Longrightarrow> is_string v" "validSigning cv v \<Longrightarrow> is_string v"
  by (auto simp: validText_def validCurve_def validSigning_def rawBase64_def split: jsv.splits option.splits)

lemma is_string_text: "is_string v \<Longrightarrow> is_string w \<Longrightarrow> js_string v = js_string w \<Longrightarrow> v = w"
  by (auto simp: is_string_iff)

lemma bundle_okD:
  assumes "bundle_ok cv b"
  shows "field b ''version'' = JStr OLM_DIRECTORY_VERSION" "field b ''protocol'' = JStr ''noxa-olm-v1''"
    "is_string (field b ''principal'')" "is_string (field b ''device_id'')"
    "is_string (field b ''identity'')" "is_string (field b ''signing'')"
    "safe_positive (field b ''account_epoch'')" "safe_positive (field b ''generation'')" "safe_positive (field b ''issued_at'')"
    "safe_positive (field b ''expires_at'')"
proof -
  note ok = assms [unfolded bundle_ok_def]
  show "field b ''version'' = JStr OLM_DIRECTORY_VERSION" "field b ''protocol'' = JStr ''noxa-olm-v1''"
    "safe_positive (field b ''account_epoch'')" "safe_positive (field b ''generation'')" "safe_positive (field b ''issued_at'')"
    using ok by (simp_all only: simp_thms)
  have v: "validText (field b ''principal'')" "validText (field b ''device_id'')" "validCurve cv (field b ''identity'')"
    "validSigning cv (field b ''signing'')" "is_safe_integer (field b ''expires_at'')"
    "int_of (field b ''expires_at'') > int_of (field b ''issued_at'')" "safe_positive (field b ''issued_at'')"
    using ok by (simp_all only: simp_thms)
  show "is_string (field b ''principal'')" "is_string (field b ''device_id'')" "is_string (field b ''identity'')" "is_string (field b ''signing'')"
    by (rule valid_strings, rule v)+
  show "safe_positive (field b ''expires_at'')" using v(5,6,7) by (simp add: safe_positive_def)
qed

lemma bundle_fields_texts:
  assumes "bundle_fields b = bundle_fields b'"
  shows "js_string (field b ''server'') = js_string (field b' ''server'')"
    "js_string (field b ''principal'') = js_string (field b' ''principal'')"
    "js_string (field b ''device_id'') = js_string (field b' ''device_id'')"
    "js_string (field b ''identity'') = js_string (field b' ''identity'')"
    "js_string (field b ''signing'') = js_string (field b' ''signing'')"
    "js_string (field b ''account_epoch'') = js_string (field b' ''account_epoch'')"
    "js_string (field b ''generation'') = js_string (field b' ''generation'')"
    "js_string (field b ''issued_at'') = js_string (field b' ''issued_at'')"
    "js_string (field b ''expires_at'') = js_string (field b' ''expires_at'')"
  using assms by (simp_all add: bundle_fields_def)

lemma bundle_fields_inject:
  assumes b: "bundle_ok cv b" and c: "bundle_ok cv b'" and eq: "bundle_fields b = bundle_fields b'"
  shows "list_all (\<lambda>k. field b k = field b' k) [''version'', ''protocol'', ''principal'', ''device_id'', ''account_epoch'',
      ''generation'', ''issued_at'', ''expires_at'', ''identity'', ''signing'']
    \<and> js_string (field b ''server'') = js_string (field b' ''server'')"
proof -
  note d = bundle_okD [OF b] and e = bundle_okD [OF c] and t = bundle_fields_texts [OF eq]
  show ?thesis
    using is_string_text [OF d(3) e(3) t(2)] is_string_text [OF d(4) e(4) t(3)] is_string_text [OF d(5) e(5) t(4)]
      is_string_text [OF d(6) e(6) t(5)] safe_positive_text [OF d(7) e(7) t(6)] safe_positive_text [OF d(8) e(8) t(7)]
      safe_positive_text [OF d(9) e(9) t(8)] safe_positive_text [OF d(10) e(10) t(9)] t(1) d(1,2) e(1,2)
    by simp
qed

section \<open>The reset chain\<close>

definition linked :: "curves \<Rightarrow> reset_scope \<Rightarrow> pin \<Rightarrow> pin \<Rightarrow> bool" where
  "linked cv sc p q \<longleftrightarrow> (\<exists>r. verifyReset cv sc p r \<and> q = next_pin r)"

lemma follow_page_linked:
  assumes "follow_page cv sc target m cur passed = Some (cur', passed')"
    and "successively (linked cv sc) (passed @ [cur])"
  shows "successively (linked cv sc) (passed' @ [cur']) \<and> (\<exists>ys. passed' @ [cur'] = passed @ [cur] @ ys)"
  using assms
proof (induction cv sc target m cur passed rule: follow_page.induct)
  case (1 cv sc target m cur passed)
  show ?case
  proof (cases "pin_epoch cur < target \<and> jget m (pin_epoch cur) \<noteq> None")
    case False
    then show ?thesis using 1(2,3) by (subst (asm) follow_page.simps) (auto split: if_splits option.splits)
  next
    case True
    then obtain r where r: "jget m (pin_epoch cur) = Some r" "verifyReset cv sc cur r"
      "follow_page cv sc target m (next_pin r) (passed @ [cur]) = Some (cur', passed')"
      using 1(2) by (subst (asm) follow_page.simps) (auto split: if_splits)
    have "successively (linked cv sc) ((passed @ [cur]) @ [next_pin r])"
      using 1(3) r(2) unfolding successively_append_iff by (auto simp: linked_def)
    then show ?thesis using 1(1) [OF _ r(1,2,3)] True by (metis append.assoc)
  qed
qed

lemma chain_pages_linked:
  assumes "chain_pages cv sc fetch target n cur passed = Some (cur', passed')"
    and "successively (linked cv sc) (passed @ [cur])"
  shows "successively (linked cv sc) (passed' @ [cur']) \<and> (\<exists>ys. passed' @ [cur'] = passed @ [cur] @ ys)"
  using assms
proof (induction n arbitrary: cur passed)
  case 0
  then show ?case by (subst (asm) chain_pages.simps) (auto split: if_splits)
next
  case (Suc n)
  show ?case
  proof (cases "pin_epoch cur < target")
    case False
    then show ?thesis using Suc.prems by (subst (asm) chain_pages.simps) auto
  next
    case True
    then obtain m c ps where f: "follow_page cv sc target m cur passed = Some (c, ps)"
      and c: "chain_pages cv sc fetch target n c ps = Some (cur', passed')"
      using Suc.prems(1) by (subst (asm) chain_pages.simps) (auto split: if_splits option.splits)
    from follow_page_linked [OF f Suc.prems(2)] Suc.IH [OF c] show ?thesis by (metis append.assoc)
  qed
qed

lemma linked_epoch: "linked cv sc p q \<Longrightarrow> pin_epoch q = pin_epoch p + 1"
  using verifyReset_next by (auto simp: linked_def)

lemma successively_epochs:
  assumes "successively (linked cv sc) ps" "i < length ps"
  shows "pin_epoch (ps ! i) = pin_epoch (hd ps) + int i"
  using assms(2)
proof (induction i)
  case 0
  then show ?case by (simp add: hd_conv_nth)
next
  case (Suc i)
  then show ?case using assms(1) linked_epoch [of cv sc "ps ! i" "ps ! Suc i"] by (simp add: successively_conv_nth)
qed


text \<open>An honest sequence of resets, each made from the pin the previous one reaches.\<close>

fun resets_from :: "curves \<Rightarrow> reset_scope \<Rightarrow> pin \<Rightarrow> jsv list \<Rightarrow> bool" where
  "resets_from cv sc p [] = True"
| "resets_from cv sc p (r # rs) = (verifyReset cv sc p r \<and> resets_from cv sc (next_pin r) rs)"

fun pins_of :: "pin \<Rightarrow> jsv list \<Rightarrow> pin list" where
  "pins_of p [] = [p]"
| "pins_of p (r # rs) = p # pins_of (next_pin r) rs"

lemma verifyReset_ok: "verifyReset cv sc p r \<Longrightarrow> reset_ok cv r \<and> field r ''old_epoch'' = JNum (pin_epoch p)"
  by (simp add: verifyReset_def resetTranscript_def split: option.splits if_splits)

lemma verifyReset_entry:
  assumes "verifyReset cv sc p r"
  shows "truthy r" "is_safe_integer (field r ''old_epoch'')" "field r ''old_epoch'' = JNum (pin_epoch p)"
proof -
  note ok = verifyReset_ok [OF assms]
  then have "field r ''version'' = JStr ''noxa-olm-reset-v1''" unfolding reset_ok_def by (elim conjE)
  then show "truthy r" by (cases r) auto
  from ok show "is_safe_integer (field r ''old_epoch'')" unfolding reset_ok_def safe_positive_def by (elim conjE)
  from ok show "field r ''old_epoch'' = JNum (pin_epoch p)" ..
qed

lemma pins_of_length [simp]: "length (pins_of p rs) = Suc (length rs)"
  by (induction rs arbitrary: p) simp_all

lemma resets_nth:
  assumes "resets_from cv sc p rs" "i < length rs"
  shows "verifyReset cv sc (pins_of p rs ! i) (rs ! i) \<and> next_pin (rs ! i) = pins_of p rs ! Suc i"
  using assms
proof (induction rs arbitrary: p i)
  case (Cons r rs)
  then show ?case by (cases i; cases rs) auto
qed simp

lemma pins_epoch:
  assumes "resets_from cv sc p rs" "i \<le> length rs"
  shows "pin_epoch (pins_of p rs ! i) = pin_epoch p + int i"
  using assms(2)
proof (induction i)
  case 0
  then show ?case by (cases rs) simp_all
next
  case (Suc i)
  then show ?case using resets_nth [OF assms(1), of i] verifyReset_next [of cv sc "pins_of p rs ! i" "rs ! i"] by simp
qed

text \<open>A server that answers from the resets \<open>rs\<close>: a page asked for from an epoch holds, in any
  order and with any other of these resets, at least the next \<open>per\<close> of them.\<close>

definition serves :: "jsv list \<Rightarrow> int \<Rightarrow> nat \<Rightarrow> (nat \<Rightarrow> int \<Rightarrow> jsv) \<Rightarrow> bool" where
  "serves rs base per fetch \<longleftrightarrow>
     (\<forall>n i. i < length rs \<longrightarrow>
        (\<exists>page. fetch n (base + int i) = JArr page \<and> set page \<subseteq> set rs \<and> set (take per (drop i rs)) \<subseteq> set page))"

text \<open>The map of a page is part of the chain of resets by epoch.\<close>

definition part_of_chain :: "jsv list \<Rightarrow> int \<Rightarrow> (int, jsv) jmap \<Rightarrow> bool" where
  "part_of_chain rs base m \<longleftrightarrow> (\<forall>e r. jget m e = Some r \<longrightarrow> (\<exists>i < length rs. e = base + int i \<and> r = rs ! i))"

lemma part_at: "part_of_chain rs base m \<Longrightarrow> jget m (base + int i) = Some r \<Longrightarrow> r = rs ! i"
  by (fastforce simp: part_of_chain_def)

lemma page_map_part:
  assumes "resets_from cv sc p rs" "set page \<subseteq> set rs" "part_of_chain rs (pin_epoch p) m"
  shows "\<exists>m'. page_map page m = Some m' \<and> part_of_chain rs (pin_epoch p) m'
    \<and> (\<forall>e r. jget m e = Some r \<longrightarrow> jget m' e = Some r)
    \<and> (\<forall>i < length rs. rs ! i \<in> set page \<longrightarrow> jget m' (pin_epoch p + int i) = Some (rs ! i))"
  using assms(2,3)
proof (induction page arbitrary: m)
  case (Cons r page)
  from Cons.prems(1) obtain i where i: "i < length rs" "r = rs ! i" by (auto simp: in_set_conv_nth)
  have at: "field (rs ! j) ''old_epoch'' = JNum (pin_epoch p + int j)" if "j < length rs" for j
    using verifyReset_entry(3) [of cv sc "pins_of p rs ! j" "rs ! j"] resets_nth [OF assms(1) that] pins_epoch [OF assms(1), of j] that by simp
  let ?e = "pin_epoch p + int i"
  have old: "jget m ?e = None \<or> jget m ?e = Some r" using part_at [OF Cons.prems(2), of i] i by (cases "jget m ?e") auto
  have "part_of_chain rs (pin_epoch p) (jset ?e r m)" using Cons.prems(2) i by (auto simp: part_of_chain_def)
  from Cons.IH [OF _ this] Cons.prems(1) obtain m' where m': "page_map page (jset ?e r m) = Some m'" "part_of_chain rs (pin_epoch p) m'"
    "\<forall>e q. jget (jset ?e r m) e = Some q \<longrightarrow> jget m' e = Some q"
    "\<forall>j < length rs. rs ! j \<in> set page \<longrightarrow> jget m' (pin_epoch p + int j) = Some (rs ! j)" by auto
  have v: "truthy r" "is_safe_integer (field r ''old_epoch'')"
    using verifyReset_entry [of cv sc "pins_of p rs ! i" r] resets_nth [OF assms(1) i(1)] i(2) by simp_all
  have "int_of (field r ''old_epoch'') = ?e" using at [OF i(1)] i(2) by simp
  with old v m'(1) have "page_map (r # page) m = Some m'"
    by (elim disjE) (simp_all only: page_map.simps Let_def option.case simp_thms if_True if_False)
  moreover have "jget m' e = Some q" if "jget m e = Some q" for e q using that old m'(3) by (cases "e = ?e") auto
  moreover have "jget m' (pin_epoch p + int j) = Some (rs ! j)" if "j < length rs" "rs ! j \<in> set (r # page)" for j
  proof (cases "rs ! j = r")
    case True
    then have "JNum (pin_epoch p + int j) = JNum (pin_epoch p + int i)" using at [OF that(1)] at [OF i(1)] i(2) by metis
    then have "j = i" by simp
    then show ?thesis using m'(3) i by simp
  qed (use that m'(4) in auto)
  ultimately show ?case using m'(2) by blast
qed (simp add: part_of_chain_def)

lemma follow_part:
  assumes "resets_from cv sc p rs" "part_of_chain rs (pin_epoch p) m"
    and "\<And>j. i \<le> j \<Longrightarrow> j < lo \<Longrightarrow> jget m (pin_epoch p + int j) = Some (rs ! j)"
    and "i \<le> k" "lo \<le> k" "k \<le> length rs"
  shows "\<exists>j. i \<le> j \<and> lo \<le> j \<and> j \<le> k
    \<and> follow_page cv sc (pin_epoch p + int k) m (pins_of p rs ! i) (take i (pins_of p rs)) = Some (pins_of p rs ! j, take j (pins_of p rs))"
  using assms(3,4)
proof (induction "k - i" arbitrary: i)
  case 0
  then have "i = k" by simp
  then show ?case using assms(5,6) pins_epoch [OF assms(1), of k] by (subst follow_page.simps) auto
next
  case (Suc d)
  then have i: "i < k" "i < length rs" using assms(6) by auto
  have e: "pin_epoch (pins_of p rs ! i) = pin_epoch p + int i" using pins_epoch [OF assms(1), of i] i by simp
  show ?case
  proof (cases "jget m (pin_epoch p + int i)")
    case None
    then have "lo \<le> i" using Suc.prems(1) [of i] by (metis le_refl not_le option.distinct(1))
    then show ?thesis using None e i by (subst follow_page.simps) auto
  next
    case (Some r)
    then have r: "r = rs ! i" by (rule part_at [OF assms(2)])
    have "take i (pins_of p rs) @ [pins_of p rs ! i] = take (Suc i) (pins_of p rs)" using i by (simp add: take_Suc_conv_app_nth)
    moreover obtain j where "Suc i \<le> j \<and> lo \<le> j \<and> j \<le> k \<and> follow_page cv sc (pin_epoch p + int k) m (pins_of p rs ! Suc i)
        (take (Suc i) (pins_of p rs)) = Some (pins_of p rs ! j, take j (pins_of p rs))"
      using Suc.hyps(1) [of "Suc i"] Suc.hyps(2) Suc.prems(1) i(1) by (metis Suc_diff_Suc Suc_leD Suc_leI diff_Suc_1)
    ultimately show ?thesis
      using Some e i r resets_nth [OF assms(1) i(2)] by (intro exI [of _ j]) (subst follow_page.simps, simp)
  qed
qed

lemma chain_of_pages:
  assumes "resets_from cv sc p rs" "serves rs (pin_epoch p) per fetch" "0 < per" "k \<le> length rs"
    and "i \<le> k" "k \<le> i + n * per"
  shows "chain_pages cv sc fetch (pin_epoch p + int k) n (pins_of p rs ! i) (take i (pins_of p rs))
    = Some (pins_of p rs ! k, take k (pins_of p rs))"
  using assms(5,6)
proof (induction n arbitrary: i)
  case 0
  then show ?case using pins_epoch [OF assms(1,4)] by (subst chain_pages.simps) simp
next
  case (Suc n)
  have e: "pin_epoch (pins_of p rs ! i) = pin_epoch p + int i" using pins_epoch [OF assms(1), of i] Suc.prems assms(4) by simp
  show ?case
  proof (cases "i = k")
    case True
    then show ?thesis using e by (subst chain_pages.simps) simp
  next
    case False
    then have i: "i < k" "i < length rs" using Suc.prems assms(4) by auto
    from assms(2) i(2) obtain page where pg: "fetch (Suc n) (pin_epoch p + int i) = JArr page" "set page \<subseteq> set rs"
      "set (take per (drop i rs)) \<subseteq> set page" unfolding serves_def by blast
    obtain m where m: "page_map page [] = Some m" "part_of_chain rs (pin_epoch p) m"
      "\<forall>j < length rs. rs ! j \<in> set page \<longrightarrow> jget m (pin_epoch p + int j) = Some (rs ! j)"
      using page_map_part [OF assms(1) pg(2), of "[]"] by (auto simp: part_of_chain_def)
    have served: "jget m (pin_epoch p + int j) = Some (rs ! j)" if "i \<le> j" "j < min k (i + per)" for j
    proof -
      have j: "j - i < length (take per (drop i rs))" using that assms(4) by auto
      then have "rs ! j \<in> set (take per (drop i rs))" using that i by (metis drop_eq_Nil in_set_conv_nth le_add_diff_inverse length_take less_or_eq_imp_le min_less_iff_conj nth_drop nth_take)
      then show ?thesis using m(3) pg(3) that assms(4) by auto
    qed
    obtain j where j: "min k (i + per) \<le> j" "j \<le> k" "follow_page cv sc (pin_epoch p + int k) m (pins_of p rs ! i) (take i (pins_of p rs))
        = Some (pins_of p rs ! j, take j (pins_of p rs))"
      using follow_part [OF assms(1) m(2), of i "min k (i + per)" k] served Suc.prems(1) assms(4) by auto
    have "i < j" "pin_epoch (pins_of p rs ! j) \<noteq> pin_epoch (pins_of p rs ! i)"
      using j i assms(3,4) pins_epoch [OF assms(1), of j] e by auto
    moreover have "k \<le> j + n * per" using j Suc.prems(2) by auto
    ultimately show ?thesis
      using Suc.IH [of j] j e i pg(1) m(1) by (subst chain_pages.simps) simp
  qed
qed


section \<open>Sample material\<close>

definition sample_curves :: curves where
  "sample_curves = \<lparr>shared_secret = (\<lambda>_ _. Some [1]), ed_point = (\<lambda>bs. Some (bs, False)),
     ed_verify = (\<lambda>_ _ _. Some True), sha256 = (\<lambda>_. replicate 32 0)\<rparr>"

definition sample_server :: string where
  "sample_server = ''tls-sha256:'' @ replicate 64 CHR ''a''"

definition sample_curve_key :: "char \<Rightarrow> jsv" where
  "sample_curve_key c = JStr (replicate 42 c @ ''A'')"

definition sample_bundle :: jsv where
  "sample_bundle = JObj [(''version'', JStr OLM_DIRECTORY_VERSION), (''protocol'', JStr ''noxa-olm-v1''),
     (''server'', JStr sample_server), (''principal'', JStr ''alice''), (''device_id'', JStr ''d1''), (''account_epoch'', JNum 1),
     (''generation'', JNum 1), (''issued_at'', JNum 1000), (''expires_at'', JNum 2000), (''identity'', sample_curve_key CHR ''B''),
     (''signing'', sample_curve_key CHR ''C''),
     (''one_time_keys'', JArr [JObj [(''id'', JStr (replicate 11 CHR ''A'')), (''key'', sample_curve_key CHR ''D'')]])]"

definition sample_pin :: "int \<Rightarrow> pin" where
  "sample_pin e = \<lparr>pin_epoch = e, pin_identity = sample_curve_key (if even e then CHR ''B'' else CHR ''C''), pin_signing = sample_curve_key CHR ''D''\<rparr>"

definition sample_reset :: "int \<Rightarrow> jsv" where
  "sample_reset e = JObj [(''version'', JStr ''noxa-olm-reset-v1''), (''server'', JStr sample_server), (''principal'', JStr ''alice''),
     (''device'', JStr ''d1''), (''transition_id'', JStr ''t''), (''old_epoch'', JNum e), (''old_identity'', pin_identity (sample_pin e)),
     (''old_signing'', pin_signing (sample_pin e)), (''new_epoch'', JNum (e + 1)), (''new_identity'', pin_identity (sample_pin (e + 1))),
     (''new_signing'', pin_signing (sample_pin (e + 1))), (''generation'', JNum 2), (''publication_digest'', JStr (replicate 64 CHR ''a'')),
     (''reason'', JStr ''lost''), (''signature'', JStr ''AAAA'')]"

definition sample_reset_scope :: reset_scope where
  "sample_reset_scope = \<lparr>rs_server = sample_server, rs_principal = ''alice'', rs_device = ''d1'', rs_key = [1]\<rparr>"

section \<open>Theorems\<close>

text \<open>Property C35: the text a device signs for its bundle determines everything the bundle says:
  two valid bundles with one transcript agree on the names, the epoch, the validity, the
  identity and signing keys and on every one-time key, so a signature on one bundle never
  vouches for another. Nor does it vouch for an account reset, whose transcripts differ.\<close>

theorem bundle_signature_binds_content:
  assumes "bundleTranscript cv b = Some t"
  shows "resetTranscript cv r \<noteq> Some t
    \<and> (bundleTranscript cv b' = Some t \<longrightarrow>
        list_all (\<lambda>k. field b k = field b' k) [''version'', ''protocol'', ''principal'', ''device_id'', ''account_epoch'',
           ''generation'', ''issued_at'', ''expires_at'', ''identity'', ''signing'']
        \<and> js_string (field b ''server'') = js_string (field b' ''server'')
        \<and> map (\<lambda>k. (field k ''id'', field k ''key'')) (arr_of (field b ''one_time_keys''))
          = map (\<lambda>k. (field k ''id'', field k ''key'')) (arr_of (field b' ''one_time_keys'')))"
proof (intro conjI impI)
  from assms obtain fs where b: "bundle_ok cv b"
    "key_fields cv (field b ''identity'') [] [] (arr_of (field b ''one_time_keys'')) = Some fs"
    "t = utf8 (transcript_text (bundle_fields b @ fs))" by (rule bundle_transcriptD)
  have "hd (bundle_fields b @ fs) = OLM_DIRECTORY_VERSION" using b(1) by (simp add: bundle_fields_def bundle_ok_def)
  then have "bundle_fields b @ fs \<noteq> reset_fields r" if "reset_ok cv r"
    using that by (auto simp: reset_fields_def reset_ok_def OLM_DIRECTORY_VERSION_def)
  then show "resetTranscript cv r \<noteq> Some t"
    using b(3) transcript_text_inject by (auto simp: resetTranscript_def)
  assume "bundleTranscript cv b' = Some t"
  then obtain gs where c: "bundle_ok cv b'"
    "key_fields cv (field b' ''identity'') [] [] (arr_of (field b' ''one_time_keys'')) = Some gs"
    "t = utf8 (transcript_text (bundle_fields b' @ gs))" by (rule bundle_transcriptD)
  have eq: "bundle_fields b = bundle_fields b'" "fs = gs" using transcript_fields [of b fs b' gs] b(3) c(3) by auto
  show "list_all (\<lambda>k. field b k = field b' k) [''version'', ''protocol'', ''principal'', ''device_id'', ''account_epoch'',
           ''generation'', ''issued_at'', ''expires_at'', ''identity'', ''signing'']"
    and "js_string (field b ''server'') = js_string (field b' ''server'')"
    using bundle_fields_inject [OF b(1) c(1) eq(1)] by simp_all
  show "map (\<lambda>k. (field k ''id'', field k ''key'')) (arr_of (field b ''one_time_keys''))
      = map (\<lambda>k. (field k ''id'', field k ''key'')) (arr_of (field b' ''one_time_keys''))"
    by (rule key_fields_inject [OF b(2)]) (use c(2) eq(2) in simp)
qed

theorem bundle_signature_binds_content_witness:
  "resetTranscript sample_curves (sample_reset 1) \<noteq> bundleTranscript sample_curves sample_bundle"
proof -
  have "bundleTranscript sample_curves sample_bundle \<noteq> None" by code_simp
  then obtain t where t: "bundleTranscript sample_curves sample_bundle = Some t" by blast
  show ?thesis
    using bundle_signature_binds_content [OF t, of "sample_reset 1" sample_bundle] t by simp
qed

text \<open>Property C36: a pin advances only through verified resets. When the chain check succeeds,
  the pin it returns is the target's, and the pins left behind with it form a sequence from
  the cached pin in which every step is a reset signed under the trusted key for exactly the
  pin before it, one epoch at a time without gaps; whatever the server answers, a page limit
  bounds the search.\<close>

theorem reset_chain_sound:
  assumes "verifyResetChain cv sc fetch start target = Some (p, passed)"
  shows "pin_epoch p = pin_epoch target \<and> pin_identity p = pin_identity target
    \<and> successively (linked cv sc) (passed @ [p]) \<and> hd (passed @ [p]) = start
    \<and> int (length passed) = pin_epoch target - pin_epoch start"
proof -
  from assms have c: "chain_pages cv sc fetch (pin_epoch target) MAX_RESET_CHAIN_PAGES start [] = Some (p, passed)"
    and e: "pin_epoch p = pin_epoch target" "pin_identity p = pin_identity target"
    by (auto simp: verifyResetChain_def split: if_splits option.splits)
  from chain_pages_linked [OF c] have l: "successively (linked cv sc) (passed @ [p])" "\<exists>ys. passed @ [p] = [start] @ ys" by auto
  then have h: "hd (passed @ [p]) = start" by (metis append_Cons list.sel(1))
  have "pin_epoch ((passed @ [p]) ! length passed) = pin_epoch start + int (length passed)"
    using successively_epochs [OF l(1), of "length passed"] h by simp
  with e l(1) h show ?thesis by simp
qed

theorem reset_chain_sound_witness:
  "successively (linked sample_curves sample_reset_scope) [sample_pin 1, sample_pin 2, sample_pin 3]"
proof -
  have "verifyResetChain sample_curves sample_reset_scope (\<lambda>_ e. JArr [sample_reset e]) (sample_pin 1) (sample_pin 3)
      = Some (sample_pin 3, [sample_pin 1, sample_pin 2])" by code_simp
  from reset_chain_sound [OF this] show ?thesis by simp
qed

text \<open>Property C37: the check is complete for an honest server, page after page. When the server
  knows a chain of resets from the cached pin and answers every request with a page that
  holds, in any order, at least the next \<open>per\<close> of them (and any others of the chain),
  the chain check reaches the pin of any target at most 64 such pages ahead, and returns it
  with every pin before it.\<close>

theorem reset_chain_complete:
  assumes "resets_from cv sc start rs" and "serves rs (pin_epoch start) per fetch"
    and "0 < per" and "0 < k" and "k \<le> length rs" and "k \<le> 64 * per"
  shows "verifyResetChain cv sc fetch start (pins_of start rs ! k) = Some (pins_of start rs ! k, take k (pins_of start rs))"
proof -
  have e: "pin_epoch (pins_of start rs ! k) = pin_epoch start + int k" by (rule pins_epoch [OF assms(1,5)])
  have z: "pins_of start rs ! 0 = start" by (cases rs) simp_all
  have "chain_pages cv sc fetch (pin_epoch start + int k) MAX_RESET_CHAIN_PAGES start [] = Some (pins_of start rs ! k, take k (pins_of start rs))"
    using chain_of_pages [OF assms(1-3,5), of 0 MAX_RESET_CHAIN_PAGES] assms(6) z by (simp add: MAX_RESET_CHAIN_PAGES_def)
  then show ?thesis using e assms(4) by (simp add: verifyResetChain_def)
qed

text \<open>Three resets by a server that gives two at a time, the later one first; the third is reached
  on the second page.\<close>

definition sample_resets :: "jsv list" where
  "sample_resets = [sample_reset 1, sample_reset 2, sample_reset 3]"

definition sample_pages :: "nat \<Rightarrow> int \<Rightarrow> jsv" where
  "sample_pages n e = JArr (rev (take 2 (drop (nat (e - 1)) sample_resets)))"

theorem reset_chain_complete_witness:
  "verifyResetChain sample_curves sample_reset_scope sample_pages (sample_pin 1) (sample_pin 4)
     = Some (sample_pin 4, [sample_pin 1, sample_pin 2, sample_pin 3])"
proof -
  have n: "next_pin (sample_reset e) = sample_pin (e + 1)" for e by (simp add: next_pin_def sample_reset_def sample_pin_def)
  have "verifyReset sample_curves sample_reset_scope (sample_pin 1) (sample_reset 1)" by code_simp
  moreover have "verifyReset sample_curves sample_reset_scope (sample_pin 2) (sample_reset 2)" by code_simp
  moreover have "verifyReset sample_curves sample_reset_scope (sample_pin 3) (sample_reset 3)" by code_simp
  ultimately have r: "resets_from sample_curves sample_reset_scope (sample_pin 1) sample_resets" by (simp add: sample_resets_def n)
  have p: "pins_of (sample_pin 1) sample_resets = [sample_pin 1, sample_pin 2, sample_pin 3, sample_pin 4]" by (simp add: sample_resets_def n)
  have s: "serves sample_resets (pin_epoch (sample_pin 1)) 2 sample_pages"
    by (auto simp: serves_def sample_pages_def sample_pin_def dest: in_set_takeD in_set_dropD)
  show ?thesis
    using reset_chain_complete [OF r s, of 3] by (simp add: p) (simp add: sample_resets_def)
qed

end
