(* ===== verification/Olm_Admission.thy ===== *)
theory Olm_Admission
  imports Js_Json Olm_Directory "HOL-Library.Multiset"
begin

text \<open>
  The admission contract of encrypted messages (mobile/src/core/olm-admission.js): the manifest
  that names every device a message goes to, the frozen attempt (manifest and the encrypted
  copies in parts), what each copy is bound to, and the raw-text validation of media controls.
  Manifests and copies are dynamically typed values; a routine that throws returns None.
  SHA-256 is a field of the parameter \<open>curves\<close>. The payload of a message (\<^verbatim>\<open>sealPayload\<close>,
  \<^verbatim>\<open>openPayload\<close>) and its token walk are in \<open>Olm_Control\<close>.
\<close>

section \<open>Manifests\<close>

text \<open>The device a target or a copy names.\<close>

definition dev :: "jsv \<Rightarrow> jsv" where
  "dev v = field v ''device''"

definition adm_validText :: "jsv \<Rightarrow> bool" where
  "adm_validText v = (case v of JStr t \<Rightarrow> t \<noteq> [] \<and> length (utf8 t) \<le> 128 \<and> \<not> list_ex control_char t | _ \<Rightarrow> False)"

definition ADMISSION_VERSION :: string where
  "ADMISSION_VERSION = ''noxa-olm-admission-v1''"

definition attemptSequence :: "jsv \<Rightarrow> int option" where
  "attemptSequence v =
     (case v of
        JStr t \<Rightarrow> (let n = digits_value t in
          if t \<noteq> [] \<and> list_all digit_char t \<and> string_of_nat n = t \<and> 1 \<le> n \<and> int n \<le> max_safe_integer then Some (int n) else None)
      | _ \<Rightarrow> None)"

definition hash_value :: "jsv \<Rightarrow> bool" where
  "hash_value v = (case v of JStr t \<Rightarrow> hash_text t | _ \<Rightarrow> False)"

definition opt_field :: "jsv \<Rightarrow> string \<Rightarrow> (string \<times> jsv) list" where  \<comment> \<open>\<^verbatim>\<open>if (m.k) v.k = m.k\<close>\<close>
  "opt_field m k = (if truthy (field m k) then [(k, field m k)] else [])"

definition pick :: "string list \<Rightarrow> jsv \<Rightarrow> (string \<times> jsv) list" where
  "pick ks m = map (\<lambda>k. (k, field m k)) ks"

definition canonical_target :: "jsv \<Rightarrow> jsv" where
  "canonical_target t = JObj (pick [''principal'', ''device'', ''account_epoch'', ''identity''] t
     @ (if truthy (field t ''local'') then [(''local'', JBool True)] else []))"

definition canonicalManifest :: "jsv \<Rightarrow> jsv" where
  "canonicalManifest m = JObj (
     pick [''version'', ''server'', ''sender'', ''device'', ''account_epoch'', ''attempt_id'', ''logical_id'', ''purpose''] m
     @ opt_field m ''reference'' @ pick [''scope''] m
     @ opt_field m ''peer'' @ opt_field m ''conversation'' @ opt_field m ''revision'' @ opt_field m ''epoch''
     @ pick [''deadline''] m
     @ [(''rosters'', JArr (map (\<lambda>r. JObj (pick [''principal'', ''version''] r)) (arr_of (field m ''rosters'')))),
        (''targets'', JArr (map canonical_target (arr_of (field m ''targets'')))),
        (''parts'', JArr (map (\<lambda>p. JObj (pick [''digest'', ''length''] p)) (arr_of (field m ''parts''))))])"

definition controlTarget :: "jsv \<Rightarrow> jsv option" where
  "controlTarget m =
     (if field m ''purpose'' \<noteq> JStr ''control'' \<or> \<not> is_arr (field m ''targets'') \<or> length (arr_of (field m ''targets'')) \<noteq> 2 then None
      else case List.find (\<lambda>t. \<not> truthy (field t ''local'')) (arr_of (field m ''targets'')) of
          None \<Rightarrow> None
        | Some t \<Rightarrow> if truthy t \<and> field t ''principal'' = field m ''peer'' then Some t else None)"

definition list_between :: "jsv \<Rightarrow> nat \<Rightarrow> nat \<Rightarrow> bool" where
  "list_between v lo hi \<longleftrightarrow> is_arr v \<and> lo \<le> length (arr_of v) \<and> length (arr_of v) \<le> hi"

definition manifest_head :: "jsv \<Rightarrow> bool" where
  "manifest_head m \<longleftrightarrow>
     field m ''version'' = JStr ADMISSION_VERSION \<and> server_text (js_string (field m ''server''))
     \<and> adm_validText (field m ''sender'') \<and> adm_validText (field m ''device'') \<and> adm_validText (field m ''attempt_id'')
     \<and> adm_validText (field m ''logical_id'') \<and> safe_positive (field m ''account_epoch'') \<and> safe_positive (field m ''deadline'')
     \<and> list_between (field m ''rosters'') 1 16 \<and> list_between (field m ''targets'') 1 160 \<and> list_between (field m ''parts'') 1 8
     \<and> attemptSequence (field m ''attempt_id'') \<noteq> None"

definition purpose_ok :: "jsv \<Rightarrow> bool" where
  "purpose_ok m =
     (if field m ''purpose'' = JStr ''chat'' then \<not> truthy (field m ''reference'')
      else if field m ''purpose'' = JStr ''control''
      then \<not> truthy (field m ''reference'') \<and> field m ''scope'' = JStr ''direct'' \<and> length (arr_of (field m ''targets'')) = 2
      else (field m ''purpose'' = JStr ''edit'' \<or> field m ''purpose'' = JStr ''delete'') \<and> adm_validText (field m ''reference''))"

definition scope_ok :: "jsv \<Rightarrow> bool" where
  "scope_ok m =
     (if field m ''scope'' = JStr ''direct''
      then adm_validText (field m ''peer'') \<and> \<not> truthy (field m ''conversation'') \<and> \<not> truthy (field m ''revision'')
        \<and> \<not> truthy (field m ''epoch'') \<and> length (arr_of (field m ''rosters'')) \<le> 2
      else field m ''scope'' = JStr ''group'' \<and> adm_validText (field m ''conversation'') \<and> \<not> truthy (field m ''peer'')
        \<and> safe_positive (field m ''revision'') \<and> safe_positive (field m ''epoch''))"

text \<open>The principals of the rosters, in order, or None when one is refused.\<close>

fun roster_principals :: "jsv list \<Rightarrow> jsv list \<Rightarrow> jsv list option" where
  "roster_principals rs [] = Some rs"
| "roster_principals rs (r # rosters) =
     (if \<not> adm_validText (field r ''principal'') \<or> \<not> safe_positive (field r ''version'') \<or> field r ''principal'' \<in> set rs then None
      else roster_principals (rs @ [field r ''principal'']) rosters)"

text \<open>The loop over the targets: the number of local ones, or None when one is refused.\<close>

fun count_local :: "jsv \<Rightarrow> jsv list \<Rightarrow> jsv list \<Rightarrow> jsv list \<Rightarrow> nat option" where
  "count_local m rs seen [] = Some 0"
| "count_local m rs seen (t # ts) =
     (if field t ''principal'' \<notin> set rs \<or> \<not> adm_validText (dev t) \<or> \<not> adm_validText (field t ''identity'')
         \<or> \<not> safe_positive (field t ''account_epoch'') \<or> dev t \<in> set seen then None
      else if truthy (field t ''local'')
      then (if field t ''principal'' \<noteq> field m ''sender'' \<or> dev t \<noteq> field m ''device''
               \<or> field t ''account_epoch'' \<noteq> field m ''account_epoch'' then None
            else map_option Suc (count_local m rs (dev t # seen) ts))
      else count_local m rs (dev t # seen) ts)"

definition part_ok :: "jsv \<Rightarrow> bool" where
  "part_ok p \<longleftrightarrow> hash_value (field p ''digest'') \<and> is_safe_integer (field p ''length'')
     \<and> 2 \<le> int_of (field p ''length'') \<and> int_of (field p ''length'') \<le> 524288"

definition validateManifest :: "jsv \<Rightarrow> bytes option" where
  "validateManifest m =
     (if \<not> truthy m \<or> \<not> manifest_head m \<or> \<not> purpose_ok m \<or> \<not> scope_ok m then None
      else case roster_principals [] (arr_of (field m ''rosters'')) of None \<Rightarrow> None
      | Some rs \<Rightarrow>
          if field m ''sender'' \<notin> set rs \<or> (field m ''scope'' = JStr ''direct'' \<and> field m ''peer'' \<notin> set rs) then None
          else if count_local m rs [] (arr_of (field m ''targets'')) \<noteq> Some 1 then None
          else if field m ''purpose'' = JStr ''control'' \<and> controlTarget m = None then None
          else if \<not> list_all part_ok (arr_of (field m ''parts'')) then None
          else let b = jsonBytes (canonicalManifest m);
                   total = sum_list (map (\<lambda>p. int_of (field p ''length'')) (arr_of (field m ''parts''))) in
            if length b > 131072 \<or> int (length b) + total > 4194304 then None else Some b)"

section \<open>Attempts\<close>

definition copy_ok :: "jsv \<Rightarrow> jsv \<Rightarrow> bool" where
  "copy_ok t c \<longleftrightarrow> truthy t \<and> field t ''principal'' = field c ''principal'' \<and> field t ''account_epoch'' = field c ''account_epoch''
     \<and> adm_validText (field c ''session_id'') \<and> (truthy (field c ''claim_id'') \<longrightarrow> adm_validText (field c ''claim_id''))
     \<and> truthy (field c ''envelope'') \<and> length (jsonBytes (field c ''envelope'')) \<le> 24576"

text \<open>The copies of one part use up the targets they are for.\<close>

fun take_copies :: "(jsv, jsv) jmap \<Rightarrow> jsv list \<Rightarrow> (jsv, jsv) jmap option" where
  "take_copies targets [] = Some targets"
| "take_copies targets (c # cs) =
     (case jget targets (dev c) of None \<Rightarrow> None
      | Some t \<Rightarrow> if copy_ok t c then take_copies (jdel (dev c) targets) cs else None)"

definition parse_part :: "bytes \<Rightarrow> jsv list option" where
  "parse_part p = (case text_decode p of None \<Rightarrow> None
     | Some t \<Rightarrow> (case json_parse t of Some (JArr batch) \<Rightarrow> Some batch | _ \<Rightarrow> None))"

fun open_parts :: "curves \<Rightarrow> jsv list \<Rightarrow> bytes list \<Rightarrow> (jsv, jsv) jmap \<Rightarrow> jsv list \<Rightarrow> ((jsv, jsv) jmap \<times> jsv list) option" where
  "open_parts cv (d # ds) (p # ps) targets copies =
     (if JNum (int (length p)) \<noteq> field d ''length'' \<or> JStr (digestBytes cv p) \<noteq> field d ''digest'' then None
      else case parse_part p of None \<Rightarrow> None
        | Some batch \<Rightarrow> (case take_copies targets batch of None \<Rightarrow> None
            | Some rest \<Rightarrow> open_parts cv ds ps rest (copies @ batch)))"
| "open_parts cv _ _ targets copies = Some (targets, copies)"

text \<open>\<^verbatim>\<open>new Map(m.targets.filter((t) => !t.local).map((t) => [t.device, t]))\<close>.\<close>

definition target_map :: "jsv \<Rightarrow> (jsv, jsv) jmap" where
  "target_map m = fold (\<lambda>t. jset (dev t) t) (filter (\<lambda>t. \<not> truthy (field t ''local'')) (arr_of (field m ''targets''))) []"

definition openAttempt :: "curves \<Rightarrow> jsv \<Rightarrow> bytes list \<Rightarrow> jsv list option" where
  "openAttempt cv m parts =
     (if validateManifest m = None \<or> length parts \<noteq> length (arr_of (field m ''parts'')) then None
      else case open_parts cv (arr_of (field m ''parts'')) parts (target_map m) [] of None \<Rightarrow> None
        | Some (rest, copies) \<Rightarrow> if rest \<noteq> [] then None else Some copies)"

text \<open>The batching loop of \<^verbatim>\<open>freezeAttempt\<close>: the parts so far and the open batch.\<close>

fun fill_parts :: "bytes list \<Rightarrow> jsv list \<Rightarrow> jsv list \<Rightarrow> bytes list option" where
  "fill_parts parts batch [] = Some (parts @ [jsonBytes (JArr batch)])"
| "fill_parts parts batch (c # cs) =
     (if length (jsonBytes (field c ''envelope'')) > 24576 then None
      else if length (jsonBytes (JArr (batch @ [c]))) > 524288 then fill_parts (parts @ [jsonBytes (JArr batch)]) [c] cs
      else fill_parts parts (batch @ [c]) cs)"

fun set_field :: "string \<Rightarrow> jsv \<Rightarrow> jsv \<Rightarrow> jsv" where
  "set_field k v (JObj fs) = JObj (jset k v fs)"
| "set_field k v w = w"

definition freezeAttempt :: "curves \<Rightarrow> jsv \<Rightarrow> jsv list \<Rightarrow> (jsv \<times> bytes list) option" where
  "freezeAttempt cv manifest copies =
     (if length copies > 159 then None
      else case fill_parts [] [] copies of None \<Rightarrow> None
        | Some parts \<Rightarrow>
            let m = set_field ''parts'' (JArr (map (\<lambda>p. JObj [(''digest'', JStr (digestBytes cv p)), (''length'', JNum (int (length p)))]) parts)) manifest in
            (case openAttempt cv m parts of None \<Rightarrow> None | Some _ \<Rightarrow> Some (canonicalManifest m, parts)))"

section \<open>Bindings\<close>

definition or_empty :: "jsv \<Rightarrow> jsv" where  \<comment> \<open>\<^verbatim>\<open>v || ""\<close>\<close>
  "or_empty v = (if truthy v then v else JStr [])"

definition or_zero :: "jsv \<Rightarrow> jsv" where  \<comment> \<open>\<^verbatim>\<open>v || 0\<close>\<close>
  "or_zero v = (if truthy v then v else JNum 0)"

definition payloadContext :: "jsv \<Rightarrow> jsv \<Rightarrow> jsv" where
  "payloadContext m t = JObj (
     (''version'', JStr ADMISSION_VERSION)
     # pick [''server'', ''sender'', ''device'', ''account_epoch'', ''attempt_id'', ''logical_id'', ''purpose''] m
     @ [(''reference'', or_empty (field m ''reference'')), (''scope'', field m ''scope''), (''peer'', or_empty (field m ''peer'')),
        (''conversation'', or_empty (field m ''conversation'')), (''revision'', or_zero (field m ''revision'')),
        (''epoch'', or_zero (field m ''epoch'')), (''target_principal'', field t ''principal''),
        (''target_device'', dev t), (''target_epoch'', field t ''account_epoch'')])"

text \<open>Names in the order of their UTF-8 bytes.\<close>

definition byte_key :: "jsv \<Rightarrow> nat list" where
  "byte_key v = map unat (utf8 (str_of v))"

definition direct_pair :: "jsv \<Rightarrow> jsv \<Rightarrow> jsv list" where
  "direct_pair a b = (if byte_key a \<le> byte_key b then [a, b] else [b, a])"

definition expectedBinding :: "jsv \<Rightarrow> jsv \<Rightarrow> jsv" where
  "expectedBinding m t = JObj
     [(''server'', field m ''server''),
      (''conversation'', JStr (if field m ''scope'' = JStr ''direct''
         then ''direct:'' @ canonicalJSON (JArr (direct_pair (field m ''sender'') (field m ''peer'')))
         else ''group:'' @ js_string (field m ''conversation''))),
      (''sender'', field m ''sender''), (''sender_device'', field m ''device''),
      (''recipient'', field t ''principal''), (''recipient_device'', dev t),
      (''message_id'', field m ''logical_id''),
      (''purpose'', if field m ''purpose'' = JStr ''chat'' then JStr ''message''
         else if field m ''purpose'' = JStr ''control'' then JStr ''media-key'' else field m ''purpose'')]"

definition checkEnvelope :: "jsv \<Rightarrow> jsv \<Rightarrow> bool" where
  "checkEnvelope m c \<longleftrightarrow> (let e = field c ''envelope'' in
     field e ''version'' = JStr ''noxa-olm-v1'' \<and> field e ''session_id'' = field c ''session_id''
     \<and> equalJSON (field e ''binding'') (expectedBinding m c) \<and> truthy (field e ''message''))"

definition canonicalReset :: "jsv \<Rightarrow> jsv" where
  "canonicalReset r = JObj (pick [''version'', ''server'', ''principal'', ''device'', ''transition_id'', ''old_epoch'', ''old_identity'',
     ''old_signing'', ''new_epoch'', ''new_identity'', ''new_signing'', ''generation'', ''publication_digest'', ''reason'', ''signature''] r)"

definition resetDigest :: "curves \<Rightarrow> jsv \<Rightarrow> string" where
  "resetDigest cv r = digestBytes cv (jsonBytes (canonicalReset r))"

definition recoveryReceipt :: "curves \<Rightarrow> jsv \<Rightarrow> jsv" where
  "recoveryReceipt cv r = JObj [(''server'', field r ''server''), (''device'', field r ''device''), (''transition_id'', field r ''transition_id''),
     (''account_epoch'', field r ''new_epoch''), (''digest'', JStr (resetDigest cv r)), (''publication_digest'', field r ''publication_digest'')]"



section \<open>Copies and targets\<close>

lemma fold_jset_fresh:
  assumes "distinct (map f xs)" "f ` set xs \<inter> set (jkeys m) = {}"
  shows "fold (\<lambda>x. jset (f x) x) xs m = m @ map (\<lambda>x. (f x, x)) xs"
  using assms
proof (induction xs arbitrary: m)
  case (Cons x xs)
  have "jset (f x) x m = m @ [(f x, x)]" using Cons.prems(2) by (intro jset_fresh) (auto simp: jkeys_def)
  then show ?case using Cons by (auto simp: jkeys_def)
qed simp

lemma count_local_distinct:
  "count_local m rs seen ts = Some n \<Longrightarrow> distinct (map dev ts) \<and> dev ` set ts \<inter> set seen = {}"
proof (induction m rs seen ts arbitrary: n rule: count_local.induct)
  case (2 m rs seen t ts)
  then obtain k where "count_local m rs (dev t # seen) ts = Some k" "dev t \<notin> set seen"
    by (auto split: if_splits)
  moreover from this(1) have "distinct (map dev ts) \<and> dev ` set ts \<inter> set (dev t # seen) = {}"
    using 2 by (auto split: if_splits)
  ultimately show ?case by auto
qed simp

definition remote_targets :: "jsv \<Rightarrow> jsv list" where
  "remote_targets m = filter (\<lambda>t. \<not> truthy (field t ''local'')) (arr_of (field m ''targets''))"

lemma validateManifestD:
  assumes "validateManifest m = Some b"
  obtains rs where "truthy m" "manifest_head m" "purpose_ok m" "scope_ok m"
    "roster_principals [] (arr_of (field m ''rosters'')) = Some rs" "field m ''sender'' \<in> set rs"
    "field m ''scope'' = JStr ''direct'' \<longrightarrow> field m ''peer'' \<in> set rs"
    "count_local m rs [] (arr_of (field m ''targets'')) = Some 1"
    "field m ''purpose'' = JStr ''control'' \<longrightarrow> controlTarget m \<noteq> None" "list_all part_ok (arr_of (field m ''parts''))"
    "b = jsonBytes (canonicalManifest m)" "length b \<le> 131072"
    "int (length b) + sum_list (map (\<lambda>p. int_of (field p ''length'')) (arr_of (field m ''parts''))) \<le> 4194304"
  using assms by (auto simp: validateManifest_def Let_def split: if_splits option.splits)

lemma target_map_eq:
  assumes "validateManifest m \<noteq> None"
  shows "target_map m = map (\<lambda>t. (dev t, t)) (remote_targets m) \<and> distinct (map dev (remote_targets m))"
proof -
  obtain b where "validateManifest m = Some b" using assms by blast
  then obtain rs where "count_local m rs [] (arr_of (field m ''targets'')) = Some 1" by (rule validateManifestD)
  then have d: "distinct (map dev (arr_of (field m ''targets'')))" using count_local_distinct by blast
  then have "distinct (map dev (remote_targets m))" by (simp add: remote_targets_def distinct_map_filter)
  then show ?thesis using fold_jset_fresh [of dev "remote_targets m" "[]"]
    by (simp add: target_map_def remote_targets_def jkeys_def)
qed

lemma jdel_mset:
  assumes "jwf m" "jget m k = Some v"
  shows "mset (jkeys m) = add_mset k (mset (jkeys (jdel k m)))"
  using assms
proof (induction m)
  case (Cons x m)
  obtain a w where x: "x = (a, w)" by (cases x)
  show ?case
  proof (cases "a = k")
    case True
    then have "jdel k m = m" using Cons.prems(1) by (force simp: x jwf_def jkeys_def jdel_def filter_id_conv)
    then show ?thesis using True by (simp add: x jkeys_def jdel_def)
  next
    case False
    then show ?thesis using Cons by (simp add: x jkeys_def jdel_def jget_Cons jwf_def)
  qed
qed simp

lemma jget_jdel_Some: "jget (jdel k m) k' = Some v \<Longrightarrow> jget m k' = Some v"
  by (simp split: if_splits)

lemma take_copies_sound:
  assumes "take_copies T cs = Some R" "jwf T"
  shows "jwf R \<and> mset (jkeys T) = mset (map dev cs) + mset (jkeys R)
    \<and> (\<forall>c \<in> set cs. \<exists>t. jget T (dev c) = Some t \<and> copy_ok t c)
    \<and> (\<forall>d t. jget R d = Some t \<longrightarrow> jget T d = Some t)"
  using assms
proof (induction T cs rule: take_copies.induct)
  case (2 T c cs)
  let ?d = "dev c"
  obtain t where t: "jget T ?d = Some t" "copy_ok t c" "take_copies (jdel ?d T) cs = Some R"
    using "2.prems"(1) by (auto split: option.splits if_splits)
  have IH: "jwf R \<and> mset (jkeys (jdel ?d T)) = mset (map dev cs) + mset (jkeys R)
    \<and> (\<forall>c \<in> set cs. \<exists>t. jget (jdel ?d T) (dev c) = Some t \<and> copy_ok t c)
    \<and> (\<forall>d t. jget R d = Some t \<longrightarrow> jget (jdel ?d T) d = Some t)"
    using "2.IH" [OF t(1,2,3)] "2.prems"(2) by simp
  note IH' = IH [THEN conjunct2, THEN conjunct2]
  have "jget T d = Some u" if "jget R d = Some u" for d u
    using IH' [THEN conjunct2, rule_format, OF that] by (rule jget_jdel_Some)
  moreover have "\<exists>u. jget T (dev x) = Some u \<and> copy_ok u x" if "x \<in> set cs" for x
    using bspec [OF IH' [THEN conjunct1] that] by (auto split: if_splits)
  moreover have "mset (jkeys T) = mset (map dev (c # cs)) + mset (jkeys R)"
    using IH [THEN conjunct2, THEN conjunct1] jdel_mset [OF "2.prems"(2) t(1)] by simp
  ultimately show ?case using IH [THEN conjunct1] t(1,2) by simp
qed simp

lemma open_parts_sound:
  assumes "open_parts cv ds ps T copies = Some (R, copies')" "jwf T"
  shows "jwf R \<and> (\<exists>new. copies' = copies @ new \<and> mset (jkeys T) = mset (map dev new) + mset (jkeys R)
    \<and> (\<forall>c \<in> set new. \<exists>t. jget T (dev c) = Some t \<and> copy_ok t c)
    \<and> (\<forall>d t. jget R d = Some t \<longrightarrow> jget T d = Some t))"
  using assms
proof (induction cv ds ps T copies rule: open_parts.induct)
  case (1 cv d ds p ps T copies)
  then obtain batch T' where b: "parse_part p = Some batch" "take_copies T batch = Some T'"
    "open_parts cv ds ps T' (copies @ batch) = Some (R, copies')"
    and g: "\<not> (JNum (int (length p)) \<noteq> field d ''length'' \<or> JStr (digestBytes cv p) \<noteq> field d ''digest'')"
    by (auto split: if_splits option.splits)
  note s = take_copies_sound [OF b(2) "1.prems"(2)]
  then obtain new where n: "jwf R" "copies' = (copies @ batch) @ new"
    "mset (jkeys T') = mset (map dev new) + mset (jkeys R)"
    "\<forall>c \<in> set new. \<exists>t. jget T' (dev c) = Some t \<and> copy_ok t c"
    "\<forall>d t. jget R d = Some t \<longrightarrow> jget T' d = Some t"
    using "1.IH" [OF g b(1,2,3)] by blast
  show ?case by (intro conjI exI [of _ "batch @ new"]) (use n s in \<open>auto simp: ac_simps\<close>)
qed auto

section \<open>Freezing and opening\<close>

lemma parse_part_json: "list_all json_ok batch \<Longrightarrow> parse_part (jsonBytes (JArr batch)) = Some batch"
  using json_parse_text [of "JArr batch" True] by (simp add: parse_part_def jsonBytes_def canonicalJSON_def del: json_text.simps)

lemma fill_parts_batches:
  assumes "fill_parts parts batch cs = Some ps"
  shows "\<exists>bs. ps = parts @ map (\<lambda>b. jsonBytes (JArr b)) bs \<and> concat bs = batch @ cs"
  using assms
proof (induction parts batch cs rule: fill_parts.induct)
  case (1 parts batch)
  then show ?case by (intro exI [of _ "[batch]"]) simp
next
  case (2 parts batch c cs)
  show ?case
  proof (cases "length (jsonBytes (JArr (batch @ [c]))) > 524288")
    case True
    then obtain bs where "ps = (parts @ [jsonBytes (JArr batch)]) @ map (\<lambda>b. jsonBytes (JArr b)) bs" "concat bs = [c] @ cs"
      using 2 by (auto split: if_splits)
    then show ?thesis by (intro exI [of _ "batch # bs"]) simp
  next
    case False
    then show ?thesis using 2 by (auto split: if_splits)
  qed
qed

lemma open_parts_copies:
  assumes "open_parts cv ds (map (\<lambda>b. jsonBytes (JArr b)) bs) T acc = Some (R, copies)" "length ds = length bs"
    and "list_all json_ok (concat bs)"
  shows "copies = acc @ concat bs"
  using assms
proof (induction bs arbitrary: ds T acc)
  case (Cons b bs)
  then obtain d ds' where ds: "ds = d # ds'" by (cases ds) auto
  obtain T' where "open_parts cv ds' (map (\<lambda>b. jsonBytes (JArr b)) bs) T' (acc @ b) = Some (R, copies)"
    using Cons.prems(1,3) unfolding ds by (auto simp: parse_part_json split: if_splits option.splits)
  from Cons.IH [OF this] Cons.prems show ?case by (simp add: ds)
qed (cases "ds", simp_all)

lemma valid_truthy: "adm_validText v \<Longrightarrow> truthy v" "safe_positive v \<Longrightarrow> truthy v"
  by (auto simp: adm_validText_def safe_positive_iff split: jsv.splits)

lemma adm_validText_opt: "adm_validText (if truthy v then v else JUndef) = adm_validText v"
  "safe_positive (if truthy v then v else JUndef) = safe_positive v" "truthy (if truthy v then v else JUndef) = truthy v"
  using valid_truthy [of v] by (auto simp: adm_validText_def safe_positive_def)

lemma field_canonical:
  "field (canonicalManifest m) ''version'' = field m ''version''" "field (canonicalManifest m) ''server'' = field m ''server''"
  "field (canonicalManifest m) ''sender'' = field m ''sender''" "field (canonicalManifest m) ''device'' = field m ''device''"
  "field (canonicalManifest m) ''account_epoch'' = field m ''account_epoch''" "field (canonicalManifest m) ''attempt_id'' = field m ''attempt_id''"
  "field (canonicalManifest m) ''logical_id'' = field m ''logical_id''" "field (canonicalManifest m) ''purpose'' = field m ''purpose''"
  "field (canonicalManifest m) ''scope'' = field m ''scope''" "field (canonicalManifest m) ''deadline'' = field m ''deadline''"
  "field (canonicalManifest m) ''rosters'' = JArr (map (\<lambda>r. JObj (pick [''principal'', ''version''] r)) (arr_of (field m ''rosters'')))"
  "field (canonicalManifest m) ''targets'' = JArr (map canonical_target (arr_of (field m ''targets'')))"
  "field (canonicalManifest m) ''parts'' = JArr (map (\<lambda>p. JObj (pick [''digest'', ''length''] p)) (arr_of (field m ''parts'')))"
  by (simp_all add: canonicalManifest_def pick_def opt_field_def)

lemma field_canonical_opt:
  "field (canonicalManifest m) ''reference'' = (if truthy (field m ''reference'') then field m ''reference'' else JUndef)"
  "field (canonicalManifest m) ''peer'' = (if truthy (field m ''peer'') then field m ''peer'' else JUndef)"
  "field (canonicalManifest m) ''conversation'' = (if truthy (field m ''conversation'') then field m ''conversation'' else JUndef)"
  "field (canonicalManifest m) ''revision'' = (if truthy (field m ''revision'') then field m ''revision'' else JUndef)"
  "field (canonicalManifest m) ''epoch'' = (if truthy (field m ''epoch'') then field m ''epoch'' else JUndef)"
  by (simp_all add: canonicalManifest_def pick_def opt_field_def)

lemma canonical_target_fields [simp]:
  "field (canonical_target t) ''principal'' = field t ''principal''" "dev (canonical_target t) = dev t"
  "field (canonical_target t) ''account_epoch'' = field t ''account_epoch''" "field (canonical_target t) ''identity'' = field t ''identity''"
  "truthy (field (canonical_target t) ''local'') = truthy (field t ''local'')" "truthy (canonical_target t)"
  by (simp_all add: canonical_target_def pick_def dev_def)

lemma canonical_target_idem [simp]: "canonical_target (canonical_target t) = canonical_target t"
  by (simp add: canonical_target_def pick_def)


lemma canonicalManifest_idem [simp]: "canonicalManifest (canonicalManifest m) = canonicalManifest m"
proof -
  let ?c = "canonicalManifest m"
  have o: "opt_field ?c k = opt_field m k" if "field ?c k = (if truthy (field m k) then field m k else JUndef)" for k
    using that by (simp add: opt_field_def)
  have p: "pick [''version'', ''server'', ''sender'', ''device'', ''account_epoch'', ''attempt_id'', ''logical_id'', ''purpose''] ?c
      = pick [''version'', ''server'', ''sender'', ''device'', ''account_epoch'', ''attempt_id'', ''logical_id'', ''purpose''] m"
    "pick [''scope''] ?c = pick [''scope''] m" "pick [''deadline''] ?c = pick [''deadline''] m"
    by (simp_all only: pick_def list.map field_canonical)
  have q: "JObj (pick [''principal'', ''version''] (JObj (pick [''principal'', ''version''] r))) = JObj (pick [''principal'', ''version''] r)"
    "JObj (pick [''digest'', ''length''] (JObj (pick [''digest'', ''length''] r))) = JObj (pick [''digest'', ''length''] r)" for r
    by (simp_all add: pick_def)
  show ?thesis
    unfolding canonicalManifest_def [of ?c] p o [OF field_canonical_opt(1)] o [OF field_canonical_opt(2)] o [OF field_canonical_opt(3)]
      o [OF field_canonical_opt(4)] o [OF field_canonical_opt(5)] field_canonical arr_of.simps map_map comp_def q canonical_target_idem
    by (simp only: canonicalManifest_def [of m])
qed

lemma roster_principals_canonical:
  "roster_principals rs (map (\<lambda>r. JObj (pick [''principal'', ''version''] r)) rosters) = roster_principals rs rosters"
  by (induction rosters arbitrary: rs) (simp_all add: pick_def)

lemma count_local_canonical:
  "count_local (canonicalManifest m) rs seen (map canonical_target ts) = count_local m rs seen ts"
  by (induction ts arbitrary: seen) (simp_all add: field_canonical)

lemma part_ok_canonical: "part_ok (JObj (pick [''digest'', ''length''] p)) = part_ok p"
  by (simp add: part_ok_def pick_def)

lemma manifest_head_canonical: "manifest_head m \<Longrightarrow> manifest_head (canonicalManifest m)"
  by (simp add: manifest_head_def field_canonical list_between_def)

lemma purpose_ok_canonical: "purpose_ok (canonicalManifest m) = purpose_ok m"
  by (simp only: purpose_ok_def field_canonical field_canonical_opt adm_validText_opt arr_of.simps length_map)

lemma scope_ok_canonical: "scope_ok (canonicalManifest m) = scope_ok m"
  by (simp only: scope_ok_def field_canonical field_canonical_opt adm_validText_opt arr_of.simps length_map)

lemma find_map_canonical:
  "List.find (\<lambda>t. \<not> truthy (field t ''local'')) (map canonical_target ts) = map_option canonical_target (List.find (\<lambda>t. \<not> truthy (field t ''local'')) ts)"
  by (induction ts) simp_all

lemma controlTarget_canonical:
  assumes "controlTarget m \<noteq> None" "truthy (field m ''peer'')"
  shows "controlTarget (canonicalManifest m) \<noteq> None"
  using assms by (auto simp: controlTarget_def field_canonical field_canonical_opt find_map_canonical split: if_splits option.splits)

lemma control_peer: "purpose_ok m \<Longrightarrow> scope_ok m \<Longrightarrow> field m ''purpose'' = JStr ''control'' \<Longrightarrow> truthy (field m ''peer'')"
  using valid_truthy(1) by (auto simp: purpose_ok_def scope_ok_def)

lemma validateManifest_canonical:
  assumes "validateManifest m = Some b"
  shows "validateManifest (canonicalManifest m) = Some b"
proof -
  from assms obtain rs where v: "truthy m" "manifest_head m" "purpose_ok m" "scope_ok m"
    "roster_principals [] (arr_of (field m ''rosters'')) = Some rs" "field m ''sender'' \<in> set rs"
    "field m ''scope'' = JStr ''direct'' \<longrightarrow> field m ''peer'' \<in> set rs"
    "count_local m rs [] (arr_of (field m ''targets'')) = Some 1"
    "field m ''purpose'' = JStr ''control'' \<longrightarrow> controlTarget m \<noteq> None" "list_all part_ok (arr_of (field m ''parts''))"
    "b = jsonBytes (canonicalManifest m)" "length b \<le> 131072"
    "int (length b) + sum_list (map (\<lambda>p. int_of (field p ''length'')) (arr_of (field m ''parts''))) \<le> 4194304"
    by (rule validateManifestD)
  have "truthy (canonicalManifest m)" by (simp add: canonicalManifest_def)
  moreover have "field (canonicalManifest m) ''peer'' \<in> set rs" if "field m ''scope'' = JStr ''direct''"
    using v(4,7) that valid_truthy(1) by (auto simp: scope_ok_def field_canonical_opt)
  moreover have "controlTarget (canonicalManifest m) \<noteq> None" if "field m ''purpose'' = JStr ''control''"
    using controlTarget_canonical v(9) control_peer v(3,4) that by blast
  moreover have "list_all part_ok (arr_of (field (canonicalManifest m) ''parts''))"
    using v(10) by (simp add: field_canonical list_all_iff part_ok_canonical)
  moreover have "(\<lambda>p. int_of (field p ''length'')) \<circ> (\<lambda>p. JObj (pick [''digest'', ''length''] p)) = (\<lambda>p. int_of (field p ''length''))"
    by (simp add: pick_def fun_eq_iff)
  ultimately show ?thesis
    using v manifest_head_canonical [OF v(2)]
    by (simp add: validateManifest_def Let_def purpose_ok_canonical scope_ok_canonical field_canonical
        roster_principals_canonical count_local_canonical)
qed


definition canonical_map :: "(jsv, jsv) jmap \<Rightarrow> (jsv, jsv) jmap" where
  "canonical_map T = map (\<lambda>(d, t). (d, canonical_target t)) T"

lemma jget_canonical_map: "jget (canonical_map T) d = map_option canonical_target (jget T d)"
  by (induction T) (auto simp: canonical_map_def jget_Cons)

lemma jdel_canonical_map: "jdel d (canonical_map T) = canonical_map (jdel d T)"
  by (induction T) (auto simp: canonical_map_def jdel_def)

lemma copy_ok_canonical: "copy_ok t c \<Longrightarrow> copy_ok (canonical_target t) c"
  by (simp add: copy_ok_def)

lemma take_copies_canonical:
  "take_copies T cs = Some R \<Longrightarrow> take_copies (canonical_map T) cs = Some (canonical_map R)"
  by (induction T cs rule: take_copies.induct)
     (auto simp: jget_canonical_map jdel_canonical_map copy_ok_canonical split: option.splits if_splits)

lemma open_parts_canonical:
  "open_parts cv ds ps T acc = Some (R, copies) \<Longrightarrow>
   open_parts cv (map (\<lambda>p. JObj (pick [''digest'', ''length''] p)) ds) ps (canonical_map T) acc = Some (canonical_map R, copies)"
  by (induction cv ds ps T acc rule: open_parts.induct)
     (auto simp: pick_def take_copies_canonical split: option.splits if_splits)

lemma remote_targets_canonical: "remote_targets (canonicalManifest m) = map canonical_target (remote_targets m)"
  by (simp add: remote_targets_def field_canonical filter_map comp_def)

lemma target_map_canonical:
  assumes "validateManifest m = Some b"
  shows "target_map (canonicalManifest m) = canonical_map (target_map m)"
  using target_map_eq [of m] target_map_eq [of "canonicalManifest m"] validateManifest_canonical [OF assms] assms
  by (simp add: remote_targets_canonical canonical_map_def)

lemma openAttempt_canonical:
  assumes "openAttempt cv m parts = Some copies"
  shows "openAttempt cv (canonicalManifest m) parts = Some copies"
proof -
  obtain b where v: "validateManifest m = Some b" and l: "length parts = length (arr_of (field m ''parts''))"
    and o: "open_parts cv (arr_of (field m ''parts'')) parts (target_map m) [] = Some ([], copies)"
    using assms by (auto simp: openAttempt_def split: if_splits option.splits)
  show ?thesis using open_parts_canonical [OF o] l
    by (simp add: openAttempt_def validateManifest_canonical [OF v] target_map_canonical [OF v] field_canonical canonical_map_def)
qed


lemma openAttempt_frozen:
  assumes "freezeAttempt cv manifest copies = Some (m, parts)" and "list_all json_ok copies"
  shows "openAttempt cv m parts = Some copies"
proof -
  define m0 where "m0 = set_field ''parts'' (JArr (map (\<lambda>p. JObj [(''digest'', JStr (digestBytes cv p)), (''length'', JNum (int (length p)))]) parts)) manifest"
  obtain c0 where f: "fill_parts [] [] copies = Some parts" and o: "openAttempt cv m0 parts = Some c0" and m: "m = canonicalManifest m0"
    using assms(1) by (auto simp: freezeAttempt_def Let_def m0_def split: if_splits option.splits)
  obtain bs where bs: "parts = map (\<lambda>b. jsonBytes (JArr b)) bs" "concat bs = copies"
    using fill_parts_batches [OF f] by auto
  have "length (arr_of (field m0 ''parts'')) = length bs"
    and op: "open_parts cv (arr_of (field m0 ''parts'')) parts (target_map m0) [] = Some ([], c0)"
    using o bs(1) by (auto simp: openAttempt_def split: if_splits option.splits)
  then have "c0 = copies" using open_parts_copies [of cv _ bs "target_map m0" "[]"] assms(2) bs by fastforce
  then show ?thesis using openAttempt_canonical [OF o] m by simp
qed

section \<open>A sample attempt\<close>

definition sample_manifest :: jsv where
  "sample_manifest = JObj [(''version'', JStr ADMISSION_VERSION), (''server'', JStr sample_server), (''sender'', JStr ''alice''),
     (''device'', JStr ''d1''), (''account_epoch'', JNum 1), (''attempt_id'', JStr ''7''), (''logical_id'', JStr ''m1''),
     (''purpose'', JStr ''chat''), (''scope'', JStr ''direct''), (''peer'', JStr ''bob''), (''deadline'', JNum 9000),
     (''rosters'', JArr [JObj [(''principal'', JStr ''alice''), (''version'', JNum 1)], JObj [(''principal'', JStr ''bob''), (''version'', JNum 2)]]),
     (''targets'', JArr [
        JObj [(''principal'', JStr ''alice''), (''device'', JStr ''d1''), (''account_epoch'', JNum 1), (''identity'', JStr ''k1''), (''local'', JBool True)],
        JObj [(''principal'', JStr ''bob''), (''device'', JStr ''e1''), (''account_epoch'', JNum 3), (''identity'', JStr ''k2'')]])]"

definition sample_copies :: "jsv list" where
  "sample_copies = [JObj [(''principal'', JStr ''bob''), (''device'', JStr ''e1''), (''account_epoch'', JNum 3),
     (''session_id'', JStr ''s1''), (''envelope'', JObj [(''message'', JStr ''c'')])]]"

lemma sample_frozen: "freezeAttempt sample_curves sample_manifest sample_copies \<noteq> None" "list_all json_ok sample_copies"
  by code_simp+

section \<open>What an attempt guarantees\<close>

text \<open>Property C34: an attempt opens only when its copies are exactly the devices its manifest
  names: one copy for every target but the sender's own device, none for any other device,
  each for the principal and account epoch of its target and within the size limit.\<close>

theorem opened_attempt_matches_manifest:
  assumes "openAttempt cv m parts = Some copies"
  shows "mset (map dev copies) = mset (map dev (remote_targets m))
    \<and> distinct (map dev copies)
    \<and> list_all (\<lambda>c. list_ex (\<lambda>t. dev t = dev c \<and> copy_ok t c) (remote_targets m)) copies"
proof -
  have v: "validateManifest m \<noteq> None" and o: "open_parts cv (arr_of (field m ''parts'')) parts (target_map m) [] = Some ([], copies)"
    using assms by (auto simp: openAttempt_def split: if_splits option.splits)
  note tm = target_map_eq [OF v]
  have keys: "jkeys (target_map m) = map dev (remote_targets m)" using tm by (simp add: jkeys_def)
  have "jwf (target_map m)" using tm keys by (simp add: jwf_def)
  then have s: "mset (jkeys (target_map m)) = mset (map dev copies)"
    "\<forall>c \<in> set copies. \<exists>t. jget (target_map m) (dev c) = Some t \<and> copy_ok t c"
    using open_parts_sound [OF o] by (auto simp: jkeys_def)
  have "t \<in> set (remote_targets m) \<and> dev t = d" if "jget (target_map m) d = Some t" for d t
    using jget_in [OF that] tm by auto
  then have "list_all (\<lambda>c. list_ex (\<lambda>t. dev t = dev c \<and> copy_ok t c) (remote_targets m)) copies"
    using s(2) by (fastforce simp: list_all_iff list_ex_iff)
  moreover have "distinct (map dev copies)"
    using mset_eq_imp_distinct_iff [OF s(1)] keys tm by simp
  ultimately show ?thesis using s(1) keys by simp
qed

theorem opened_attempt_matches_manifest_witness:
  "\<exists>m parts. openAttempt sample_curves m parts = Some sample_copies
     \<and> mset (map dev sample_copies) = mset (map dev (remote_targets m)) \<and> map dev sample_copies = [JStr ''e1'']"
proof -
  obtain m parts where f: "freezeAttempt sample_curves sample_manifest sample_copies = Some (m, parts)"
    using sample_frozen(1) by fastforce
  have o: "openAttempt sample_curves m parts = Some sample_copies"
    by (rule openAttempt_frozen [OF f sample_frozen(2)])
  have d: "map dev sample_copies = [JStr ''e1'']" by (simp add: sample_copies_def dev_def)
  show ?thesis
    by (intro exI conjI) (rule o, rule opened_attempt_matches_manifest [OF o, THEN conjunct1], rule d)
qed

text \<open>Property C33: freezing and opening are inverse: what \<^verbatim>\<open>freezeAttempt\<close> returns, the canonical
  manifest with the encoded parts, is opened by \<^verbatim>\<open>openAttempt\<close> to exactly the copies that were
  frozen, in their order, however they were split into parts.\<close>

theorem frozen_attempt_opens:
  assumes "freezeAttempt cv manifest copies = Some (m, parts)" and "list_all json_ok copies"
  shows "openAttempt cv m parts = Some copies"
  using assms by (rule openAttempt_frozen)

theorem frozen_attempt_opens_witness:
  "\<exists>m parts. freezeAttempt sample_curves sample_manifest sample_copies = Some (m, parts)
     \<and> openAttempt sample_curves m parts = Some sample_copies"
proof -
  obtain m parts where f: "freezeAttempt sample_curves sample_manifest sample_copies = Some (m, parts)"
    using sample_frozen(1) by fastforce
  show ?thesis using frozen_attempt_opens [OF f sample_frozen(2)] f by blast
qed

end
