(* ===== verification/Ratchet_Store.thy ===== *)
theory Ratchet_Store
  imports Identity_Store Olm_Admission
begin

text \<open>
  The durable store of ratchet state (mobile/src/core/ratchet-store.js). Every record is kept
  sealed under its reference and revision; a control record counts the records, their bytes
  and the open one-time key obligations, and holds the sending authority of the account. An
  operation works on a snapshot (the records it has read, with their revisions), plans its
  changes from it and commits them in one transaction, which succeeds only while the fence and
  every revision of the snapshot are unchanged.

  The operations are programs over the local database. Packets, contexts, manifests, resets
  and obligations are dynamically typed values; a stored document is the bytes of its JSON
  text. The time and the random IVs are arguments. A record's key \<^verbatim>\<open>JSON.stringify(ref)\<close> is the
  reference itself; an identifier that is not a string gives a reference no snapshot holds.
\<close>

section \<open>References, limits and records\<close>

type_synonym ref = "string \<times> string"

definition Limits_fanout :: nat where "Limits_fanout = 160"
definition Limits_reads :: nat where "Limits_reads = 512"
definition Limits_record :: nat where "Limits_record = 2097152"
definition Limits_batch :: nat where "Limits_batch = 33554432"
definition Limits_bytes :: int where "Limits_bytes = 134217728"
definition Limits_records :: int where "Limits_records = 100000"
definition Limits_otks :: nat where "Limits_otks = 100"

definition DEVICE_PAIR_SCOPE :: string where
  "DEVICE_PAIR_SCOPE = ''device-pair''"

definition sessionRef :: "string \<Rightarrow> string" where
  "sessionRef coreSessionID = ''olm:'' @ coreSessionID"

definition kinds :: "string list" where
  "kinds = [''account'', ''session'', ''trust'', ''outbox'', ''inbox'', ''publication'', ''claim'', ''obligation'', ''logical'', ''transition'']"

definition ctl :: ref where
  "ctl = (''control'', ''identity'')"

definition valid_id :: "string \<Rightarrow> bool" where
  "valid_id t \<longleftrightarrow> t \<noteq> [] \<and> length (utf8 t) \<le> 512 \<and> \<not> list_ex (\<lambda>c. control_char c \<or> c = CHR 0xAD) t"

definition validID :: "jsv \<Rightarrow> bool" where
  "validID v = (case v of JStr t \<Rightarrow> valid_id t | _ \<Rightarrow> False)"

definition validRef :: "ref \<Rightarrow> bool" where
  "validRef r \<longleftrightarrow> fst r \<in> set kinds \<and> valid_id (snd r)"

definition validateRefs :: "ref list \<Rightarrow> db_error + unit" where
  "validateRefs refs = (if length refs > Limits_reads then Inl Exhausted else if \<not> list_all validRef refs then Inl Invalid else Inr ())"

definition version_ok :: "int \<Rightarrow> bool" where
  "version_ok n \<longleftrightarrow> 1 \<le> n \<and> n \<le> max_safe_integer"

record record_view =
  revision :: int
  data :: bytes

record snapshot =
  sn_namespace :: string
  sn_fence :: id_fence
  records :: "(ref, record_view) jmap"

text \<open>What a store works with: the parameters and the names it was opened for.\<close>

record store_env =
  env_cipher :: cipher
  env_curves :: curves
  env_server :: string
  env_principal :: string
  env_device :: string

definition namespace :: "store_env \<Rightarrow> string" where
  "namespace e = stringify (JArr [JStr (env_server e), JStr (env_principal e), JStr (env_device e)])"

definition json_doc :: "bytes \<Rightarrow> db_error + jsv" where  \<comment> \<open>\<^verbatim>\<open>json(x)\<close>; a property of \<^verbatim>\<open>null\<close> throws\<close>
  "json_doc b = (case bytes_json b of None \<Rightarrow> Inl Thrown | Some v \<Rightarrow> if v = JNull then Inl Thrown else Inr v)"

definition num_array :: "bytes \<Rightarrow> jsv" where  \<comment> \<open>\<^verbatim>\<open>Array.from(bytes)\<close>\<close>
  "num_array b = JArr (map (\<lambda>w. JNum (uint w)) b)"

definition byte_array :: "jsv \<Rightarrow> bytes" where  \<comment> \<open>\<^verbatim>\<open>new Uint8Array(array)\<close>\<close>
  "byte_array v = map (\<lambda>x. word_of_int (int_of x)) (arr_of v)"

definition bytes_of :: "jsv \<Rightarrow> bytes" where  \<comment> \<open>a byte array; anything else has no bytes\<close>
  "bytes_of v = (case v of JBytes b \<Rightarrow> b | _ \<Rightarrow> [])"

section \<open>Reading\<close>

definition aad :: "store_env \<Rightarrow> ref \<Rightarrow> int \<Rightarrow> bytes" where
  "aad e r n = json_bytes (JArr [JStr ''noxa-local-ratchet-v1'', JStr (namespace e), JStr (fst r), JStr (snd r), JNum n])"

definition decode :: "store_env \<Rightarrow> bytes option \<Rightarrow> ref \<Rightarrow> sealed_rec option \<Rightarrow> db_error + record_view" where
  "decode e k r raw = (case raw of None \<Rightarrow> Inr \<lparr>revision = 0, data = []\<rparr>
     | Some x \<Rightarrow> if \<not> version_ok (rec_revision x) then Inl Corrupt
         else (case k of None \<Rightarrow> Inl Corrupt
           | Some key \<Rightarrow> (case decrypt (env_cipher e) key (rec_iv x) (aad e r (rec_revision x)) (rec_sealed x) of
               None \<Rightarrow> Inl Corrupt | Some p \<Rightarrow> Inr \<lparr>revision = rec_revision x, data = p\<rparr>)))"

definition encode :: "store_env \<Rightarrow> bytes \<Rightarrow> bytes \<Rightarrow> ref \<Rightarrow> int \<Rightarrow> bytes \<Rightarrow> sealed_rec" where
  "encode e key iv r n d = \<lparr>rec_iv = iv, rec_sealed = encrypt (env_cipher e) key iv (aad e r n) d, rec_revision = n\<rparr>"

definition raw_get :: "store_env \<Rightarrow> db \<Rightarrow> ref \<Rightarrow> sealed_rec option" where
  "raw_get e D r = jget (ratchet_recs D) (namespace e, r)"

definition decode_at :: "store_env \<Rightarrow> db \<Rightarrow> ref \<Rightarrow> db_error + record_view" where
  "decode_at e D r = decode e (wrapping_key D) r (raw_get e D r)"

fun decode_all :: "store_env \<Rightarrow> db \<Rightarrow> ref list \<Rightarrow> (ref, record_view) jmap \<Rightarrow> nat \<Rightarrow> db_error + (ref, record_view) jmap" where
  "decode_all e D [] m n = Inr m"
| "decode_all e D (r # rs) m n = sbind (decode_at e D r) (\<lambda>x.
     if n + length (data x) > Limits_batch then Inl Exhausted else decode_all e D rs (jset r x m) (n + length (data x)))"

text \<open>The snapshot one read-only transaction sees, with its records opened.\<close>

definition take_snapshot :: "store_env \<Rightarrow> ref list \<Rightarrow> db \<Rightarrow> db_error + snapshot" where
  "take_snapshot e refs D =
     (if \<not> active (current_fence D) then Inl Fenced
      else sbind (decode_all e D (ctl # refs) [] 0) (\<lambda>m.
        case jget m ctl of Some x \<Rightarrow> if revision x = 0 then Inl Corrupt
            else Inr \<lparr>sn_namespace = namespace e, sn_fence = current_fence D, records = m\<rparr>
        | None \<Rightarrow> Inl Corrupt))"

definition read :: "store_env \<Rightarrow> ref list \<Rightarrow> snapshot prog" where
  "read e refs = bind (Ret (validateRefs refs)) (\<lambda>_. look (take_snapshot e refs))"

definition validate :: "store_env \<Rightarrow> snapshot \<Rightarrow> db_error + unit" where
  "validate e s = (if sn_namespace s \<noteq> namespace e \<or> jget (records s) ctl = None then Inl Invalid
     else if length (records s) > Limits_reads + 1 then Inl Exhausted else Inr ())"

definition require :: "snapshot \<Rightarrow> ref \<Rightarrow> db_error + record_view" where
  "require s r = (case jget (records s) r of None \<Rightarrow> Inl Invalid | Some x \<Rightarrow> Inr x)"

text \<open>The document of a record, which must exist.\<close>

definition require_doc :: "snapshot \<Rightarrow> ref \<Rightarrow> db_error + jsv" where
  "require_doc s r = sbind (require s r) (\<lambda>x. if revision x = 0 then Inl Invalid else json_doc (data x))"

definition control_doc :: "snapshot \<Rightarrow> db_error + jsv" where  \<comment> \<open>\<^verbatim>\<open>json(this.require(s, ctl).data)\<close>\<close>
  "control_doc s = sbind (require s ctl) (\<lambda>x. json_doc (data x))"

definition js_length :: "jsv \<Rightarrow> nat option" where
  "js_length v = (case v of JArr vs \<Rightarrow> Some (length vs) | JStr t \<Rightarrow> Some (length t) | JBytes b \<Rightarrow> Some (length b) | _ \<Rightarrow> None)"

definition coreKey :: "store_env \<Rightarrow> snapshot \<Rightarrow> db_error + bytes" where
  "coreKey e s = sbind (validate e s) (\<lambda>_. sbind (control_doc s) (\<lambda>c.
     if js_length (field c ''coreKey'') \<noteq> Some 32 then Inl Corrupt else Inr (byte_array (field c ''coreKey''))))"

definition trust :: "snapshot \<Rightarrow> string \<Rightarrow> db_error + int" where
  "trust s i = sbind (require s (''trust'', i)) (\<lambda>x. if revision x = 0 then Inl Invalid
     else sbind (json_doc (data x)) (\<lambda>t. if truthy (field t ''revoked'') then Inl Revoked else Inr (revision x)))"

section \<open>Initialisation\<close>

definition new_control :: "bytes \<Rightarrow> jsv" where
  "new_control key = JObj [(''coreKey'', num_array key), (''count'', JNum 0), (''bytes'', JNum 0), (''obligations'', JNum 0),
     (''accountID'', JStr ''local''), (''accountEpoch'', JNum 1), (''sendingBlocked'', JBool False), (''nextAttempt'', JNum 0)]"

definition natural :: "jsv \<Rightarrow> bool" where
  "natural v \<longleftrightarrow> is_safe_integer v \<and> int_of v \<ge> 0"

definition control_ok :: "jsv \<Rightarrow> bool" where
  "control_ok c \<longleftrightarrow> js_length (field c ''coreKey'') = Some 32 \<and> natural (field c ''count'') \<and> natural (field c ''bytes'')"

definition put_ratchet :: "store_env \<Rightarrow> ref \<Rightarrow> sealed_rec \<Rightarrow> db \<Rightarrow> db" where
  "put_ratchet e r x D = D\<lparr>ratchet_recs := jset (namespace e, r) x (ratchet_recs D)\<rparr>"

definition initialize :: "store_env \<Rightarrow> bytes \<Rightarrow> bytes \<Rightarrow> bytes \<Rightarrow> unit prog" where
  "initialize e candidate iv key =
     bind (look (\<lambda>D. if \<not> active (current_fence D) then Inl Fenced
       else sbind (decode_at e D ctl) (\<lambda>x. Inr (current_fence D, x, jget (initialized D) (namespace e))))) (\<lambda>(f, x, mark).
     if revision x \<noteq> 0 then Ret (sbind (json_doc (data x)) (\<lambda>c. ensure Corrupt (control_ok c)))
     else if mark = Some (generation f) then Ret (Inl Corrupt)
     else bind (look (\<lambda>D. Inr (list_ex (\<lambda>(n, r). n = namespace e) (jkeys (ratchet_recs D))))) (\<lambda>some.
       if some then look (\<lambda>D. if raw_get e D ctl = None then Inl Corrupt else sbind (decode_at e D ctl) (\<lambda>_. Inr ()))
       else bind (wrappingKey candidate True) (\<lambda>k.
         fencedWrite f False (\<lambda>D _. if raw_get e D ctl \<noteq> None then Inr (D, ())
           else Inr ((put_ratchet e ctl (encode e k iv ctl 1 (json_bytes (new_control key))) D)
                       \<lparr>initialized := jset (namespace e) (generation f) (initialized D)\<rparr>, ())))))"


definition openRatchetStore :: "store_env \<Rightarrow> bytes \<Rightarrow> bytes \<Rightarrow> bytes \<Rightarrow> unit prog" where
  "openRatchetStore e candidate iv key =
     (if \<not> valid_id (env_server e) \<or> \<not> valid_id (env_principal e) \<or> \<not> valid_id (env_device e) then Ret (Inl Invalid)
      else initialize e candidate iv key)"

section \<open>Committing\<close>

definition is_open :: "jsv \<Rightarrow> bool" where  \<comment> \<open>an obligation neither consumed nor closed\<close>
  "is_open o' \<longleftrightarrow> \<not> truthy (field o' ''consumed'') \<and> \<not> truthy (field o' ''closed'')"

definition add_field :: "string \<Rightarrow> int \<Rightarrow> jsv \<Rightarrow> jsv" where  \<comment> \<open>\<^verbatim>\<open>c.k += n\<close>; NaN becomes \<^verbatim>\<open>null\<close> in JSON\<close>
  "add_field k n c = set_field k (case field c k of JNum i \<Rightarrow> JNum (i + n) | _ \<Rightarrow> JNull) c"

definition exceeds :: "jsv \<Rightarrow> int \<Rightarrow> bool" where
  "exceeds v n = (case v of JNum i \<Rightarrow> i > n | _ \<Rightarrow> False)"

definition record_limit :: "string \<Rightarrow> nat" where
  "record_limit kind = (if kind = ''outbox'' then 25165824 else Limits_record)"

definition obligation_change :: "record_view \<Rightarrow> bytes \<Rightarrow> db_error + int" where
  "obligation_change old d =
     sbind (if revision old \<noteq> 0 then sbind (json_doc (data old)) (\<lambda>b. Inr (Some b)) else Inr None) (\<lambda>before.
     sbind (json_doc d) (\<lambda>after. Inr (case before of
         None \<Rightarrow> if is_open after then 1 else 0
       | Some b \<Rightarrow> if is_open b \<and> \<not> is_open after then -1 else 0)))"

fun charge :: "snapshot \<Rightarrow> (ref \<times> bytes) list \<Rightarrow> jsv \<Rightarrow> nat \<Rightarrow> db_error + (jsv \<times> nat)" where
  "charge s [] c n = Inr (c, n)"
| "charge s ((r, d) # chs) c n =
     (if \<not> validRef r \<or> d = [] then Inl Invalid
      else if length d > record_limit (fst r) then Inl Exhausted
      else sbind (require s r) (\<lambda>old.
        let c1 = (if revision old = 0 then add_field ''count'' 1 c else c);
            c2 = add_field ''bytes'' (int (length d) - int (length (data old))) c1 in
        sbind (if fst r = ''obligation'' then sbind (obligation_change old d) (\<lambda>k. Inr (if k = 0 then c2 else add_field ''obligations'' k c2)) else Inr c2) (\<lambda>c3.
        charge s chs c3 (n + length d))))"

definition assign :: "(string \<times> jsv) list option \<Rightarrow> jsv \<Rightarrow> jsv" where  \<comment> \<open>\<^verbatim>\<open>Object.assign(c, update)\<close>\<close>
  "assign upd c = (case upd of None \<Rightarrow> c | Some u \<Rightarrow> fold (\<lambda>(k, v). set_field k v) u c)"

definition over_limits :: "jsv \<Rightarrow> nat \<Rightarrow> bool" where
  "over_limits c n \<longleftrightarrow> n > Limits_batch \<or> exceeds (field c ''count'') Limits_records \<or> exceeds (field c ''bytes'') Limits_bytes
     \<or> exceeds (field c ''obligations'') (int Limits_otks)"

text \<open>What a commit will write: the changes and the new control record, nothing for an empty commit.\<close>

definition plan_commit :: "store_env \<Rightarrow> snapshot \<Rightarrow> (ref, bytes) jmap \<Rightarrow> (string \<times> jsv) list option \<Rightarrow> db_error + (ref \<times> bytes) list" where
  "plan_commit e s changes upd =
     sbind (validate e s) (\<lambda>_. sbind (control_doc s) (\<lambda>c0.
     sbind (charge s changes (assign upd c0) 0) (\<lambda>(c, n).
     if over_limits c n then Inl Exhausted
     else let prepared = (if changes \<noteq> [] \<or> upd \<noteq> None then changes @ [(ctl, json_bytes c)] else []) in
       if list_all (\<lambda>(r, d). case jget (records s) r of Some x \<Rightarrow> version_ok (revision x + 1) | None \<Rightarrow> False) prepared then Inr prepared
       else Inl Corrupt)))"

definition current_revision :: "store_env \<Rightarrow> db \<Rightarrow> ref \<Rightarrow> int" where
  "current_revision e D r = (case raw_get e D r of Some x \<Rightarrow> rec_revision x | None \<Rightarrow> 0)"

definition snapshot_revision :: "snapshot \<Rightarrow> ref \<Rightarrow> int" where
  "snapshot_revision s r = (case jget (records s) r of Some x \<Rightarrow> revision x | None \<Rightarrow> 0)"

fun write_prepared :: "store_env \<Rightarrow> bytes \<Rightarrow> (ref \<Rightarrow> bytes) \<Rightarrow> snapshot \<Rightarrow> (ref \<times> bytes) list \<Rightarrow> db \<Rightarrow> db" where
  "write_prepared e k iv s [] D = D"
| "write_prepared e k iv s ((r, d) # ps) D =
     write_prepared e k iv s ps (put_ratchet e r (encode e k (iv r) r (snapshot_revision s r + 1) d) D)"

definition commit_txn :: "store_env \<Rightarrow> (ref \<Rightarrow> bytes) \<Rightarrow> snapshot \<Rightarrow> (ref \<times> bytes) list \<Rightarrow> db \<Rightarrow> db \<times> (db_error + unit)" where
  "commit_txn e iv s prepared D =
     (if prepared \<noteq> [] \<and> wrapping_key D = None then (D, Inl Key_missing)
      else if \<not> active (current_fence D) \<or> generation (current_fence D) \<noteq> generation (sn_fence s) then (D, Inl Fenced)
      else if list_ex (\<lambda>(r, x). current_revision e D r \<noteq> revision x) (records s) then (D, Inl Conflict)
      else ((case wrapping_key D of Some k \<Rightarrow> write_prepared e k iv s prepared D | None \<Rightarrow> D), Inr ()))"

definition commit :: "store_env \<Rightarrow> (ref \<Rightarrow> bytes) \<Rightarrow> snapshot \<Rightarrow> (ref, bytes) jmap \<Rightarrow> (string \<times> jsv) list option \<Rightarrow> unit prog" where
  "commit e iv s changes upd = bind (Ret (plan_commit e s changes upd)) (\<lambda>prepared.
     Atomic (\<lambda>D. apsnd Ret (commit_txn e iv s prepared D)))"

definition snapshot_refs :: "snapshot \<Rightarrow> ref list" where
  "snapshot_refs s = filter (\<lambda>r. fst r \<noteq> ''control'') (jkeys (records s))"

text \<open>\<^verbatim>\<open>new Map(...)\<close> by key keeps each reference once, where it came first.\<close>

definition extended :: "store_env \<Rightarrow> snapshot \<Rightarrow> ref list \<Rightarrow> snapshot prog" where
  "extended e s refs = bind (Ret (validate e s)) (\<lambda>_.
     bind (read e (rev (remdups (rev (snapshot_refs s @ refs))))) (\<lambda>fresh.
     if generation (sn_fence fresh) \<noteq> generation (sn_fence s) then Ret (Inl Fenced) else Ret (Inr fresh)))"

definition settle :: "'a prog \<Rightarrow> (db_error + 'a) prog" where
  "settle p = catch (fmap Inr p) (\<lambda>err. Ret (Inr (Inl err)))"

text \<open>Up to 17 attempts; the argument counts those that are left after this one.\<close>

primrec validated_from :: "nat \<Rightarrow> store_env \<Rightarrow> snapshot \<Rightarrow> ref list \<Rightarrow> snapshot prog" where
  "validated_from 0 e s refs = bind (extended e s refs) (\<lambda>fresh. bind (commit e (\<lambda>_. []) fresh [] None) (\<lambda>_. Ret (Inr fresh)))"
| "validated_from (Suc n) e s refs = bind (extended e s refs) (\<lambda>fresh.
     bind (settle (commit e (\<lambda>_. []) fresh [] None)) (\<lambda>r. case r of
       Inr _ \<Rightarrow> Ret (Inr fresh)
     | Inl err \<Rightarrow> if err = Conflict then validated_from n e s refs else Ret (Inl err)))"

definition validated :: "store_env \<Rightarrow> snapshot \<Rightarrow> ref list \<Rightarrow> snapshot prog" where
  "validated = validated_from 16"

definition compare :: "snapshot \<Rightarrow> snapshot \<Rightarrow> db_error + unit" where
  "compare s fresh = ensure Conflict (list_all (\<lambda>(r, x). map_option revision (jget (records fresh) r) = Some (revision x)) (records s))"


section \<open>Sessions and trust\<close>

definition claim_ok :: "jsv \<Rightarrow> bool" where
  "claim_ok claim \<longleftrightarrow> validID (field claim ''claim_id'') \<and> safe_positive (field claim ''claim_until'')"

definition context_ok :: "jsv \<Rightarrow> bool" where
  "context_ok cx \<longleftrightarrow> truthy cx
     \<and> validID (field cx ''peer_principal'') \<and> validID (field cx ''peer_device'') \<and> validID (field cx ''peer_identity'')
     \<and> field cx ''scope'' = JStr DEVICE_PAIR_SCOPE \<and> ''conversation'' \<notin> set (map fst (members cx))
     \<and> field cx ''protocol'' = JStr ''noxa-olm-v1'' \<and> validID (field cx ''local_account_id'')
     \<and> safe_positive (field cx ''local_epoch'') \<and> safe_positive (field cx ''peer_epoch'')"

definition opt_member :: "bool \<Rightarrow> string \<Rightarrow> jsv \<Rightarrow> (string \<times> jsv) list" where  \<comment> \<open>\<^verbatim>\<open>...(b ? {k: v} : {})\<close>\<close>
  "opt_member b k v = (if b then [(k, v)] else [])"

definition pending_claim :: "jsv \<Rightarrow> jsv" where
  "pending_claim claim = JObj [(''claim_id'', field claim ''claim_id''), (''claim_until'', field claim ''claim_until'')]"

definition or_else :: "jsv \<Rightarrow> jsv \<Rightarrow> jsv" where  \<comment> \<open>\<^verbatim>\<open>a || b\<close>\<close>
  "or_else a b = (if truthy a then a else b)"

text \<open>The pending claim a session keeps: that of the stored session, none once it receives.\<close>

definition next_pending :: "jsv option \<Rightarrow> bool \<Rightarrow> jsv \<Rightarrow> db_error + jsv" where
  "next_pending previous receiving claim = (case previous of
       None \<Rightarrow> Inr (if truthy claim then pending_claim claim else JNull)
     | Some p \<Rightarrow>
         if \<not> receiving \<and> truthy (field p ''pending'') \<and> \<not> truthy claim then Inl Conflict
         else if truthy claim \<and> (\<not> truthy (field p ''pending'') \<or> \<not> equalJSON (field p ''pending'') (pending_claim claim)) then Inl Conflict
         else Inr (if receiving then JNull else or_else (field p ''pending'') JNull))"

definition sessionValue :: "int \<Rightarrow> snapshot \<Rightarrow> ref \<Rightarrow> jsv \<Rightarrow> jsv \<Rightarrow> bool \<Rightarrow> jsv \<Rightarrow> db_error + bytes" where
  "sessionValue now s r state cx receiving claim =
     (if (truthy claim \<and> (receiving \<or> \<not> claim_ok claim)) \<or> bytes_of state = [] \<or> \<not> context_ok cx then Inl Invalid
      else sbind (require s r) (\<lambda>old.
        sbind (if revision old \<noteq> 0 then sbind (json_doc (data old)) (\<lambda>p. Inr (Some p)) else Inr None) (\<lambda>previous.
        if (case previous of Some p \<Rightarrow> truthy (field p ''retired'') | None \<Rightarrow> False) \<and> \<not> receiving then Inl Conflict
        else if (case previous of Some p \<Rightarrow> stringify (field p ''context'') \<noteq> stringify cx | None \<Rightarrow> False) then Inl Conflict
        else sbind (next_pending previous receiving claim) (\<lambda>pending.
          Inr (json_bytes (JObj ([(''snapshot'', num_array (bytes_of state)), (''context'', cx),
            (''created_at'', case previous of Some p \<Rightarrow> or_else (field p ''created_at'') (JNum now) | None \<Rightarrow> JNum now),
            (''retired'', case previous of Some p \<Rightarrow> or_else (field p ''retired'') (JBool False) | None \<Rightarrow> JBool False)]
            @ opt_member (truthy pending) ''pending'' pending)))))))"

definition setTrust :: "store_env \<Rightarrow> (ref \<Rightarrow> bytes) \<Rightarrow> snapshot \<Rightarrow> string \<Rightarrow> jsv \<Rightarrow> bool \<Rightarrow> unit prog" where
  "setTrust e iv s i v revoked =
     bind (Ret (sbind (require s (''trust'', i)) (\<lambda>old.
        if revision old \<noteq> 0 then sbind (json_doc (data old)) (\<lambda>t. ensure Revoked (\<not> (truthy (field t ''revoked'') \<and> \<not> revoked))) else Inr ()))) (\<lambda>_.
     commit e iv s [((''trust'', i), json_bytes (JObj [(''value'', v), (''revoked'', JBool revoked)]))] None)"

section \<open>Sending\<close>

definition sendAuthority :: "snapshot \<Rightarrow> jsv list \<Rightarrow> jsv \<Rightarrow> db_error + jsv" where
  "sendAuthority s packets attempt = sbind (control_doc s) (\<lambda>c.
     if truthy (field c ''sendingBlocked'') \<or> \<not> truthy (field c ''accountID'') \<or> \<not> safe_positive (field c ''accountEpoch'')
        \<or> (truthy attempt \<and> field (field attempt ''manifest'') ''account_epoch'' \<noteq> field c ''accountEpoch'') then Inl Fenced
     else if list_ex (\<lambda>p. field (field p ''context'') ''local_account_id'' \<noteq> field c ''accountID''
               \<or> field (field p ''context'') ''local_epoch'' \<noteq> field c ''accountEpoch'') packets then Inl Fenced
     else Inr c)"

definition packet_ok :: "jsv \<Rightarrow> jsv \<Rightarrow> jsv \<Rightarrow> bool" where
  "packet_ok m p c \<longleftrightarrow> (let cx = field p ''context'' in
     field c ''principal'' = field cx ''peer_principal'' \<and> field c ''account_epoch'' = field cx ''peer_epoch''
     \<and> field p ''envelope'' = JBytes (jsonBytes (field c ''envelope'')) \<and> checkEnvelope m c
     \<and> (case List.find (\<lambda>t. dev t = dev c) (arr_of (field m ''targets'')) of
          Some t \<Rightarrow> field cx ''peer_identity'' = field t ''identity'' | None \<Rightarrow> False)
     \<and> field cx ''scope'' = JStr DEVICE_PAIR_SCOPE
     \<and> field p ''sessionID'' = JStr (sessionRef (js_string (field c ''session_id'')))
     \<and> or_empty (field c ''claim_id'') = or_empty (field (field p ''claim'') ''claim_id''))"

fun match_packets :: "jsv \<Rightarrow> jsv list \<Rightarrow> jsv list \<Rightarrow> jsv list \<Rightarrow> db_error + unit" where
  "match_packets m copies seen [] = Inr ()"
| "match_packets m copies seen (p # ps) =
     (case List.find (\<lambda>c. dev c = field (field p ''context'') ''peer_device'') copies of
        None \<Rightarrow> Inl Invalid
      | Some c \<Rightarrow> if dev c \<in> set seen \<or> \<not> packet_ok m p c then Inl Invalid else match_packets m copies (dev c # seen) ps)"

definition wire_parts :: "jsv \<Rightarrow> db_error + bytes list" where  \<comment> \<open>\<^verbatim>\<open>attempt.parts.map(atob)\<close>\<close>
  "wire_parts attempt = (let ps = map (\<lambda>p. atob (js_string p)) (arr_of (field attempt ''parts'')) in
     if list_all (\<lambda>p. p \<noteq> None) ps then Inr (map the ps) else Inl Thrown)"

definition validateAttempt :: "store_env \<Rightarrow> jsv \<Rightarrow> jsv list \<Rightarrow> db_error + unit" where
  "validateAttempt e attempt packets = (let m = field attempt ''manifest'' in
     sbind (wire_parts attempt) (\<lambda>parts. case openAttempt (env_curves e) m parts of
       None \<Rightarrow> Inl Invalid
     | Some copies \<Rightarrow>
         if field m ''server'' \<noteq> JStr (env_server e) \<or> field m ''sender'' \<noteq> JStr (env_principal e)
            \<or> field m ''device'' \<noteq> JStr (env_device e) \<or> length copies \<noteq> length packets then Inl Invalid
         else match_packets m copies [] packets))"

definition refs_of :: "string \<Rightarrow> jsv list \<Rightarrow> string \<Rightarrow> ref list" where
  "refs_of kind ps k = map (\<lambda>p. (kind, str_of (field p k))) ps"

text \<open>The session a packet replaces is retired with the send.\<close>

definition retire_replaced :: "snapshot \<Rightarrow> jsv \<Rightarrow> (ref, bytes) jmap \<Rightarrow> db_error + (ref, bytes) jmap" where
  "retire_replaced s p changes =
     (if \<not> truthy (field p ''replaces'') then Inr changes
      else let r = (''session'', str_of (field p ''sessionID'')); old_ref = (''session'', str_of (field p ''replaces'')) in
        sbind (require s old_ref) (\<lambda>old.
        if revision old = 0 \<or> snapshot_revision s r \<noteq> 0 \<or> field p ''replaces'' = field p ''sessionID'' \<or> jhas changes old_ref then Inl Invalid
        else sbind (json_doc (data old)) (\<lambda>previous.
          if truthy (field previous ''retired'') \<or> stringify (field previous ''context'') \<noteq> stringify (field p ''context'') then Inl Conflict
          else Inr (jset old_ref (json_bytes (merge_fields previous (JObj [(''retired'', JBool True)]))) changes))))"

definition saved_packet :: "jsv \<Rightarrow> int \<Rightarrow> jsv" where
  "saved_packet p n = JObj [(''sessionID'', field p ''sessionID''), (''trustID'', field p ''trustID''), (''trustRevision'', JNum n),
     (''envelope'', JStr (b64 (bytes_of (field p ''envelope'')))), (''context'', field p ''context'')]"

fun send_packets :: "int \<Rightarrow> snapshot \<Rightarrow> bool \<Rightarrow> jsv list \<Rightarrow> (ref, bytes) jmap \<Rightarrow> jsv list \<Rightarrow> db_error + ((ref, bytes) jmap \<times> jsv list)" where
  "send_packets now s is_attempt [] changes saved = Inr (changes, saved)"
| "send_packets now s is_attempt (p # ps) changes saved =
     (let r = (''session'', str_of (field p ''sessionID'')) in
      sbind (require s r) (\<lambda>x.
      if jhas changes r \<or> bytes_of (field p ''envelope'') = [] then Inl Invalid
      else if is_attempt \<and> revision x = 0 \<and> \<not> truthy (field p ''claim'') then Inl Invalid
      else sbind (trust s (str_of (field p ''trustID''))) (\<lambda>n.
        sbind (sessionValue now s r (field p ''state'') (field p ''context'') False (field p ''claim'')) (\<lambda>d.
        sbind (retire_replaced s p (jset r d changes)) (\<lambda>changes'.
        send_packets now s is_attempt ps changes' (saved @ [saved_packet p n]))))))"

definition trust_unchanged :: "snapshot \<Rightarrow> jsv list \<Rightarrow> db_error + unit" where
  "trust_unchanged s packets = fold (\<lambda>p acc. sbind acc (\<lambda>_. sbind (trust s (str_of (field p ''trustID''))) (\<lambda>n.
     ensure Conflict (field p ''trustRevision'' = JNum n)))) packets (Inr ())"

text \<open>The sequence number and the logical record of an attempt.\<close>

definition attempt_changes :: "snapshot \<Rightarrow> string \<Rightarrow> jsv \<Rightarrow> db_error + ((ref, bytes) jmap \<times> (string \<times> jsv) list option)" where
  "attempt_changes fresh i attempt =
     (if \<not> truthy attempt then Inr ([], None)
      else let m = field attempt ''manifest''; lr = (''logical'', str_of (field m ''logical_id'')) in
        sbind (control_doc fresh) (\<lambda>c. case attemptSequence (field m ''attempt_id'') of None \<Rightarrow> Inl Invalid
        | Some q \<Rightarrow>
            if (case field c ''nextAttempt'' of JNum n \<Rightarrow> q \<noteq> n + 1 | _ \<Rightarrow> True) then Inl Conflict
            else sbind (require fresh lr) (\<lambda>old.
              sbind (if revision old = 0 then Inr () else sbind (json_doc (data old)) (\<lambda>l.
                 ensure Conflict (field l ''state'' = JStr ''rejected'' \<or> field l ''state'' = JStr ''aborted''))) (\<lambda>_.
              Inr ([(lr, json_bytes (JObj [(''attemptID'', JStr i), (''state'', JStr ''pending'')]))], Some [(''nextAttempt'', JNum q)])))))"

definition same_attempt :: "jsv \<Rightarrow> jsv \<Rightarrow> bool" where
  "same_attempt b attempt \<longleftrightarrow> truthy attempt = truthy (field b ''attempt'')
     \<and> (truthy attempt \<longrightarrow> equalJSON (field (field b ''attempt'') ''manifest'') (field attempt ''manifest'')
          \<and> equalJSON (field (field b ''attempt'') ''parts'') (field attempt ''parts''))"

definition plan_send :: "int \<Rightarrow> snapshot \<Rightarrow> snapshot \<Rightarrow> string \<Rightarrow> jsv list \<Rightarrow> bytes \<Rightarrow> jsv
    \<Rightarrow> db_error + ((ref, bytes) jmap \<times> (string \<times> jsv) list option \<times> bytes)" where
  "plan_send now s fresh i packets archive attempt =
     sbind (compare s fresh) (\<lambda>_. sbind (sendAuthority fresh packets attempt) (\<lambda>_.
     sbind (attempt_changes fresh i attempt) (\<lambda>(changes, upd).
     sbind (send_packets now s (truthy attempt) packets changes []) (\<lambda>(changes', saved).
     let result = json_bytes (JObj ([(''status'', JStr ''pending''), (''packets'', JArr saved), (''archive'', num_array archive)]
                    @ opt_member (truthy attempt) ''attempt'' attempt)) in
     Inr (jset (''outbox'', i) result changes', upd, result)))))"

definition send_guard :: "store_env \<Rightarrow> string \<Rightarrow> jsv list \<Rightarrow> bytes \<Rightarrow> jsv \<Rightarrow> db_error + unit" where
  "send_guard e i packets archive attempt =
     sbind (if truthy attempt then validateAttempt e attempt packets else Inr ()) (\<lambda>_.
     if \<not> valid_id i \<or> (packets = [] \<and> \<not> truthy attempt) \<or> archive = [] then Inl Invalid
     else if length packets > Limits_fanout then Inl Exhausted
     else if length archive > Limits_record
          \<or> list_ex (\<lambda>p. length (bytes_of (field p ''envelope'')) > Limits_record \<or> length (bytes_of (field p ''state'')) > Limits_record) packets
     then Inl Exhausted else Inr ())"

text \<open>The result: the stored send and whether it was there before.\<close>

definition commitSend :: "store_env \<Rightarrow> int \<Rightarrow> (ref \<Rightarrow> bytes) \<Rightarrow> snapshot \<Rightarrow> string \<Rightarrow> jsv list \<Rightarrow> bytes \<Rightarrow> jsv \<Rightarrow> (bytes \<times> bool) prog" where
  "commitSend e now iv s i packets archive attempt =
     bind (Ret (send_guard e i packets archive attempt)) (\<lambda>_.
     bind (extended e s ((''outbox'', i) # (if truthy attempt then [(''logical'', str_of (field (field attempt ''manifest'') ''logical_id''))] else []))) (\<lambda>fresh.
     bind (Ret (require fresh (''outbox'', i))) (\<lambda>old.
     if revision old \<noteq> 0 then
       bind (Ret (sbind (json_doc (data old)) (\<lambda>b.
          sbind (ensure Conflict (same_attempt b attempt)) (\<lambda>_.
          sbind (sendAuthority fresh (arr_of (field b ''packets'')) (field b ''attempt'')) (\<lambda>_.
          trust_unchanged fresh (arr_of (field b ''packets''))))))) (\<lambda>_.
       bind (commit e iv fresh [] None) (\<lambda>_. Ret (Inr (data old, True))))
     else bind (Ret (plan_send now s fresh i packets archive attempt)) (\<lambda>(changes, upd, result).
       bind (commit e iv fresh changes upd) (\<lambda>_. Ret (Inr (result, False)))))))"

definition commitAttempt :: "store_env \<Rightarrow> int \<Rightarrow> (ref \<Rightarrow> bytes) \<Rightarrow> snapshot \<Rightarrow> jsv \<Rightarrow> bytes list \<Rightarrow> jsv list \<Rightarrow> bytes \<Rightarrow> (bytes \<times> bool) prog" where
  "commitAttempt e now iv s manifest parts packets archive =
     commitSend e now iv s (js_string (field manifest ''account_epoch'') @ '':'' @ js_string (field manifest ''attempt_id'')) packets archive
       (JObj [(''manifest'', manifest), (''parts'', JArr (map (\<lambda>p. JStr (b64 p)) parts))])"


definition ack :: "store_env \<Rightarrow> (ref \<Rightarrow> bytes) \<Rightarrow> snapshot \<Rightarrow> string \<Rightarrow> unit prog" where
  "ack e iv s i = bind (Ret (require_doc s (''outbox'', i))) (\<lambda>b.
     if truthy (field b ''attempt'') then Ret (Inl Invalid)
     else if field b ''status'' = JStr ''sent'' then commit e iv s [] None
     else commit e iv s [((''outbox'', i), json_bytes (set_field ''status'' (JStr ''sent'') b))] None)"

text \<open>One pass of \<^verbatim>\<open>retrySend\<close>: the stored send, or the snapshot for the next pass.\<close>

definition retry_pass :: "store_env \<Rightarrow> snapshot \<Rightarrow> string \<Rightarrow> (bytes + snapshot) prog" where
  "retry_pass e s i =
     bind (extended e s [(''outbox'', i)]) (\<lambda>fresh.
     bind (Ret (sbind (require_doc fresh (''outbox'', i)) (\<lambda>saved. sbind (require fresh (''outbox'', i)) (\<lambda>x. Inr (saved, data x))))) (\<lambda>(saved, old).
     bind (extended e fresh (refs_of ''trust'' (arr_of (field saved ''packets'')) ''trustID'')) (\<lambda>checked.
     if compare fresh checked \<noteq> Inr () then Ret (Inr (Inr checked))
     else bind (Ret (sbind (sendAuthority checked (arr_of (field saved ''packets'')) (field saved ''attempt'')) (\<lambda>_.
            sbind (ensure Conflict (\<not> (truthy (field saved ''attempt'') \<and> field saved ''status'' \<noteq> JStr ''pending''))) (\<lambda>_.
            trust_unchanged checked (arr_of (field saved ''packets'')))))) (\<lambda>_.
       bind (settle (commit e (\<lambda>_. []) checked [] None)) (\<lambda>r. case r of
         Inr _ \<Rightarrow> Ret (Inr (Inl old))
       | Inl err \<Rightarrow> if err = Conflict then Ret (Inr (Inr checked)) else Ret (Inl err))))))"

primrec retry_from :: "nat \<Rightarrow> store_env \<Rightarrow> snapshot \<Rightarrow> string \<Rightarrow> bytes prog" where
  "retry_from 0 e s i = bind (retry_pass e s i) (\<lambda>r. case r of Inl d \<Rightarrow> Ret (Inr d) | Inr _ \<Rightarrow> Ret (Inl Local_conflict))"
| "retry_from (Suc n) e s i = bind (retry_pass e s i) (\<lambda>r. case r of Inl d \<Rightarrow> Ret (Inr d) | Inr checked \<Rightarrow> retry_from n e checked i)"

definition retrySend :: "store_env \<Rightarrow> snapshot \<Rightarrow> string \<Rightarrow> bytes prog" where
  "retrySend = retry_from 16"

section \<open>Receiving, publications and claims\<close>

definition receive_guard :: "string \<Rightarrow> jsv \<Rightarrow> db_error + unit" where
  "receive_guard i p =
     (if (bytes_of (field p ''account'') \<noteq> []) \<noteq> truthy (field p ''consumedOTK'') then Inl Invalid
      else if length (bytes_of (field p ''envelope'')) > Limits_record \<or> length (bytes_of (field p ''archive'')) > Limits_record then Inl Exhausted
      else if \<not> valid_id i \<or> bytes_of (field p ''envelope'') = [] \<or> bytes_of (field p ''archive'') = [] then Inl Invalid
      else Inr ())"

definition account_id :: "jsv \<Rightarrow> jsv" where
  "account_id p = or_else (field p ''accountID'') (JStr ''local'')"

definition plan_receive :: "int \<Rightarrow> snapshot \<Rightarrow> string \<Rightarrow> string \<Rightarrow> jsv \<Rightarrow> db_error + (ref, bytes) jmap" where
  "plan_receive now s i digest p =
     (let sr = (''session'', str_of (field p ''sessionID'')); ar = (''account'', str_of (account_id p)) in
      sbind (trust s (str_of (field p ''trustID''))) (\<lambda>_. sbind (require s sr) (\<lambda>_.
      sbind (sessionValue now s sr (field p ''session'') (field p ''context'') True JNull) (\<lambda>d.
      let c0 = [(sr, d), ((''inbox'', i), json_bytes (JObj [(''digest'', JStr digest), (''archive'', num_array (bytes_of (field p ''archive'')))]))] in
      sbind (if truthy (field p ''account'') then sbind (require s ar) (\<lambda>_. Inr (jset ar (bytes_of (field p ''account'')) c0)) else Inr c0) (\<lambda>c1.
      if \<not> truthy (field p ''consumedOTK'') then Inr c1
      else let kr = (''obligation'', str_of (field p ''consumedOTK'')) in
        sbind (require s kr) (\<lambda>v. if revision v = 0 \<or> \<not> truthy (field p ''account'') then Inl Invalid
        else sbind (json_doc (data v)) (\<lambda>o'.
          if field o' ''account_id'' \<noteq> account_id p \<or> truthy (field o' ''closed'') then Inl Conflict
          else Inr (jset kr (json_bytes (merge_fields o' (JObj [(''consumed'', JBool True)]))) c1))))))))"

definition commitReceive :: "store_env \<Rightarrow> int \<Rightarrow> (ref \<Rightarrow> bytes) \<Rightarrow> snapshot \<Rightarrow> string \<Rightarrow> jsv \<Rightarrow> bytes prog" where
  "commitReceive e now iv s i p =
     bind (Ret (receive_guard i p)) (\<lambda>_.
     let digest = digestBytes (env_curves e) (bytes_of (field p ''envelope'')) in
     bind (extended e s [(''inbox'', i)]) (\<lambda>fresh.
     bind (Ret (require fresh (''inbox'', i))) (\<lambda>old.
     if revision old \<noteq> 0 then
       bind (Ret (sbind (json_doc (data old)) (\<lambda>b. if field b ''digest'' \<noteq> JStr digest then Inl Conflict else Inr b))) (\<lambda>b.
       bind (commit e iv fresh [] None) (\<lambda>_. Ret (Inr (byte_array (field b ''archive'')))))
     else bind (Ret (sbind (compare s fresh) (\<lambda>_. plan_receive now s i digest p))) (\<lambda>changes.
       bind (commit e iv fresh changes None) (\<lambda>_. Ret (Inr (bytes_of (field p ''archive''))))))))"

definition publication_doc :: "string \<Rightarrow> bytes \<Rightarrow> bytes" where
  "publication_doc accountID payload = json_bytes (JObj [(''account_id'', JStr accountID), (''payload'', num_array payload)])"

text \<open>The obligations a publication adds, one for every one-time key.\<close>

fun publish_keys :: "snapshot \<Rightarrow> string \<Rightarrow> string \<Rightarrow> jsv \<Rightarrow> (string \<times> jsv) list \<Rightarrow> (ref, bytes) jmap \<Rightarrow> db_error + (ref, bytes) jmap" where
  "publish_keys fresh i accountID authority [] changes = Inr changes"
| "publish_keys fresh i accountID authority ((oid, o') # os) changes =
     (let r = (''obligation'', oid) in
      if snapshot_revision fresh r \<noteq> 0 \<or> field o' ''publication_id'' \<noteq> JStr i \<or> \<not> is_open o' then Inl Conflict
      else if truthy (field o' ''account_id'') \<and> field o' ''account_id'' \<noteq> JStr accountID then Inl Invalid
      else publish_keys fresh i accountID authority os
        (jset r (json_bytes (merge_fields o' (JObj [(''account_id'', JStr accountID), (''account_epoch'', field authority ''accountEpoch''),
           (''key_id'', or_else (field o' ''key_id'') (JStr oid))]))) changes))"

definition commitPublication :: "store_env \<Rightarrow> (ref \<Rightarrow> bytes) \<Rightarrow> snapshot \<Rightarrow> string \<Rightarrow> bytes \<Rightarrow> bytes \<Rightarrow> (string \<times> jsv) list \<Rightarrow> string \<Rightarrow> bytes prog" where
  "commitPublication e iv s i account payload otks accountID =
     (if \<not> valid_id accountID \<or> \<not> valid_id i \<or> account = [] \<or> payload = [] then Ret (Inl Invalid)
      else if otks = [] \<or> length otks > Limits_otks then Ret (Inl Exhausted)
      else bind (extended e s ((''publication'', i) # map (\<lambda>(oid, o'). (''obligation'', oid)) otks)) (\<lambda>fresh.
        bind (Ret (control_doc fresh)) (\<lambda>authority.
        if truthy (field authority ''sendingBlocked'') \<or> field authority ''accountID'' \<noteq> JStr accountID then Ret (Inl Fenced)
        else bind (Ret (require fresh (''publication'', i))) (\<lambda>old.
        if revision old \<noteq> 0 then
          bind (commit e iv fresh [] None) (\<lambda>_.
          bind (Ret (json_doc (data old))) (\<lambda>saved.
          if field saved ''account_id'' \<noteq> JStr accountID then Ret (Inl Conflict) else Ret (Inr (byte_array (field saved ''payload'')))))
        else bind (Ret (sbind (compare s fresh) (\<lambda>_. sbind (require s (''account'', accountID)) (\<lambda>_.
               publish_keys fresh i accountID authority otks
                 [((''account'', accountID), account), ((''publication'', i), publication_doc accountID payload)])))) (\<lambda>changes.
          bind (commit e iv fresh changes None) (\<lambda>_. Ret (Inr payload)))))))"

definition reserveClaim :: "store_env \<Rightarrow> (ref \<Rightarrow> bytes) \<Rightarrow> snapshot \<Rightarrow> string \<Rightarrow> string \<Rightarrow> bytes \<Rightarrow> bytes prog" where
  "reserveClaim e iv s i trustID request =
     (if \<not> valid_id i \<or> \<not> valid_id trustID \<or> request = [] then Ret (Inl Invalid)
      else if length request > Limits_record then Ret (Inl Exhausted)
      else bind (extended e s [(''claim'', i)]) (\<lambda>fresh.
        bind (Ret (control_doc fresh)) (\<lambda>authority.
        if truthy (field authority ''sendingBlocked'') then Ret (Inl Fenced)
        else bind (Ret (trust fresh trustID)) (\<lambda>n. bind (Ret (require fresh (''claim'', i))) (\<lambda>old.
        if revision old \<noteq> 0 then
          bind (Ret (sbind (json_doc (data old)) (\<lambda>saved.
             if field saved ''accountID'' \<noteq> field authority ''accountID'' \<or> field saved ''accountEpoch'' \<noteq> field authority ''accountEpoch'' then Inl Fenced
             else if field saved ''trustID'' \<noteq> JStr trustID \<or> field saved ''trustRevision'' \<noteq> JNum n then Inl Conflict else Inr saved))) (\<lambda>saved.
          bind (commit e iv fresh [] None) (\<lambda>_. Ret (Inr (byte_array (field saved ''request'')))))
        else bind (Ret (compare s fresh)) (\<lambda>_.
          bind (commit e iv fresh [((''claim'', i), json_bytes (JObj [(''accountID'', field authority ''accountID''),
             (''accountEpoch'', field authority ''accountEpoch''), (''trustID'', JStr trustID), (''trustRevision'', JNum n),
             (''request'', num_array request)]))] None) (\<lambda>_. Ret (Inr request))))))))"


section \<open>Attempts\<close>

text \<open>The manifest of an attempt, its digest and its receipt when there is one.\<close>

definition attemptStatusRequest :: "store_env \<Rightarrow> snapshot \<Rightarrow> string \<Rightarrow> jsv prog" where
  "attemptStatusRequest e s i = bind (validated e s [(''outbox'', i)]) (\<lambda>fresh.
     bind (Ret (require_doc fresh (''outbox'', i))) (\<lambda>b.
     if \<not> truthy (field b ''attempt'') then Ret (Inl Invalid)
     else case validateManifest (field (field b ''attempt'') ''manifest'') of None \<Rightarrow> Ret (Inl Invalid)
       | Some m \<Rightarrow> Ret (Inr (JObj ([(''manifest'', field (field b ''attempt'') ''manifest''), (''digest'', JStr (digestBytes (env_curves e) m))]
           @ opt_member (truthy (field b ''receipt'')) ''receipt'' (field b ''receipt''))))))"

definition result_ok :: "store_env \<Rightarrow> jsv \<Rightarrow> jsv \<Rightarrow> db_error + unit" where
  "result_ok e m result =
     (if field result ''server'' \<noteq> field m ''server'' \<or> field result ''account_epoch'' \<noteq> field m ''account_epoch''
         \<or> field result ''attempt_id'' \<noteq> field m ''attempt_id'' \<or> field result ''logical_id'' \<noteq> field m ''logical_id'' then Inl Conflict
      else case validateManifest m of None \<Rightarrow> Inl Invalid
      | Some b \<Rightarrow> if field result ''digest'' \<noteq> JStr (digestBytes (env_curves e) b)
            \<or> (field result ''state'' = JStr ''accepted'' \<and> \<not> truthy (field result ''message_id'')) then Inl Conflict else Inr ())"

fun drop_field :: "string \<Rightarrow> jsv \<Rightarrow> jsv" where  \<comment> \<open>\<^verbatim>\<open>delete v.k\<close>\<close>
  "drop_field k (JObj fs) = JObj (jdel k fs)"
| "drop_field k v = v"

text \<open>An accepted attempt establishes its sessions: their pending claims are dropped.\<close>

fun establish :: "snapshot \<Rightarrow> jsv list \<Rightarrow> (ref, bytes) jmap \<Rightarrow> db_error + (ref, bytes) jmap" where
  "establish s [] changes = Inr changes"
| "establish s (p # ps) changes = (let r = (''session'', str_of (field p ''sessionID'')) in
     sbind (require s r) (\<lambda>v. if revision v = 0 then Inl Corrupt
     else sbind (json_doc (data v)) (\<lambda>st.
       establish s ps (if truthy (field st ''pending'') then jset r (json_bytes (drop_field ''pending'' st)) changes else changes))))"

definition applyAttemptResult :: "store_env \<Rightarrow> (ref \<Rightarrow> bytes) \<Rightarrow> snapshot \<Rightarrow> string \<Rightarrow> jsv \<Rightarrow> unit prog" where
  "applyAttemptResult e iv s i result =
     (if field result ''state'' \<notin> {JStr ''accepted'', JStr ''rejected'', JStr ''aborted''} then Ret (Inl Invalid)
      else bind (Ret (require_doc s (''outbox'', i))) (\<lambda>b.
        if \<not> truthy (field b ''attempt'') then Ret (Inl Invalid)
        else let m = field (field b ''attempt'') ''manifest''; lr = (''logical'', str_of (field m ''logical_id'')) in
          bind (Ret (result_ok e m result)) (\<lambda>_.
          if truthy (field b ''receipt'') then
            (if \<not> equalJSON (field b ''receipt'') result then Ret (Inl Conflict) else commit e iv s [] None)
          else bind (Ret (sbind (require s lr) (\<lambda>x. sbind (json_doc (data x)) (\<lambda>l.
                 if field l ''attemptID'' \<noteq> JStr i then Inl Conflict else Inr l)))) (\<lambda>logical.
            let changes = [((''outbox'', i), json_bytes (set_field ''status'' (field result ''state'') (set_field ''receipt'' result b))),
                           (lr, json_bytes (set_field ''state'' (field result ''state'') logical))] in
            if field result ''state'' = JStr ''accepted'' then
              bind (extended e s (refs_of ''session'' (arr_of (field b ''packets'')) ''sessionID'')) (\<lambda>snap.
              bind (Ret (sbind (compare s snap) (\<lambda>_. establish snap (arr_of (field b ''packets'')) changes))) (\<lambda>changes'.
              commit e iv snap changes' None))
            else commit e iv s changes None))))"

definition attemptRetirementRequest :: "store_env \<Rightarrow> snapshot \<Rightarrow> string \<Rightarrow> jsv prog" where
  "attemptRetirementRequest e s i = bind (attemptStatusRequest e s i) (\<lambda>r.
     if \<not> truthy (field r ''receipt'') then Ret (Inl Invalid)
     else Ret (Inr (JObj [(''attempt_id'', field (field r ''manifest'') ''attempt_id''),
       (''account_epoch'', field (field r ''manifest'') ''account_epoch''), (''digest'', field (field r ''receipt'') ''digest'')])))"

definition attemptWire :: "store_env \<Rightarrow> snapshot \<Rightarrow> string \<Rightarrow> (jsv \<times> bytes list) prog" where
  "attemptWire e s i = bind (retrySend e s i) (\<lambda>d. bind (Ret (json_doc d)) (\<lambda>b.
     if \<not> truthy (field b ''attempt'') \<or> field b ''status'' \<noteq> JStr ''pending'' then Ret (Inl Invalid)
     else bind (Ret (wire_parts (field b ''attempt''))) (\<lambda>parts. Ret (Inr (field (field b ''attempt'') ''manifest'', parts)))))"

section \<open>The account\<close>

record authority =
  au_account :: jsv
  au_epoch :: jsv
  au_fence :: int
  au_blocked :: jsv
  au_next :: jsv
  au_through :: jsv
  au_above :: "jsv list"

definition accountAuthority :: "store_env \<Rightarrow> snapshot \<Rightarrow> authority prog" where
  "accountAuthority e s = bind (validated e s []) (\<lambda>fresh. bind (Ret (control_doc fresh)) (\<lambda>c.
     let mine = field (field c ''retired'') ''epoch'' = field c ''accountEpoch'' in
     Ret (Inr \<lparr>au_account = field c ''accountID'', au_epoch = field c ''accountEpoch'', au_fence = generation (sn_fence fresh),
       au_blocked = field c ''sendingBlocked'', au_next = field c ''nextAttempt'',
       au_through = (if mine then field (field c ''retired'') ''through'' else JNum 0),
       au_above = (if mine then arr_of (field (field c ''retired'') ''above'') else [])\<rparr>)))"

text \<open>The watermark runs over every sequence that follows it without a gap.\<close>

fun advance_watermark :: "int \<Rightarrow> int list \<Rightarrow> int \<times> int list" where
  "advance_watermark through [] = (through, [])"
| "advance_watermark through (a # rest) = (if a = through + 1 then advance_watermark a rest else (through, a # rest))"

fun split_colon :: "string \<Rightarrow> string \<times> string option" where  \<comment> \<open>the first two parts of \<^verbatim>\<open>text.split(":")\<close>\<close>
  "split_colon [] = ([], None)"
| "split_colon (c # cs) = (if c = CHR '':'' then ([], Some (takeWhile (\<lambda>d. d \<noteq> CHR '':'') cs))
     else case split_colon cs of (a, b) \<Rightarrow> (c # a, b))"

text \<open>\<^verbatim>\<open>Number(text)\<close> of decimal digits; another text is no account epoch.\<close>

definition decimal_value :: "string \<Rightarrow> jsv" where
  "decimal_value t = (if t \<noteq> [] \<and> list_all digit_char t then JNum (int (digits_value t)) else JFrac)"

record retirement =
  re_epoch :: jsv
  re_through :: int
  re_above :: "int list"

definition retirement_of :: "jsv \<Rightarrow> jsv \<Rightarrow> retirement" where
  "retirement_of c epoch = (if field (field c ''retired'') ''epoch'' = epoch
     then \<lparr>re_epoch = epoch, re_through = int_of (field (field c ''retired'') ''through''),
            re_above = map int_of (arr_of (field (field c ''retired'') ''above''))\<rparr>
     else \<lparr>re_epoch = epoch, re_through = 0, re_above = []\<rparr>)"

definition note_retired :: "retirement \<Rightarrow> int \<Rightarrow> db_error + retirement option" where
  "note_retired r q =
     (if q \<le> re_through r \<or> q \<in> set (re_above r) then Inr None
      else case advance_watermark (re_through r) (sort (re_above r @ [q])) of (through, rest) \<Rightarrow>
        if length rest > 1024 then Inl Exhausted else Inr (Some (r\<lparr>re_through := through, re_above := rest\<rparr>)))"

definition retirement_json :: "retirement \<Rightarrow> jsv" where
  "retirement_json r = JObj [(''epoch'', re_epoch r), (''through'', JNum (re_through r)), (''above'', JArr (map JNum (re_above r)))]"

definition noteRetired :: "store_env \<Rightarrow> (ref \<Rightarrow> bytes) \<Rightarrow> snapshot \<Rightarrow> string \<Rightarrow> unit prog" where
  "noteRetired e iv s i = (case split_colon i of (epochText, seqText) \<Rightarrow>
     case attemptSequence (case seqText of Some t \<Rightarrow> JStr t | None \<Rightarrow> JUndef) of None \<Rightarrow> Ret (Inl Invalid)
     | Some q \<Rightarrow> bind (extended e s [(''outbox'', i)]) (\<lambda>fresh. bind (Ret (control_doc fresh)) (\<lambda>c.
         bind (Ret (require_doc fresh (''outbox'', i))) (\<lambda>b.
         if \<not> truthy (field b ''receipt'') \<or> decimal_value epochText \<noteq> field c ''accountEpoch'' then Ret (Inl Invalid)
         else bind (Ret (note_retired (retirement_of c (decimal_value epochText)) q)) (\<lambda>r. case r of
             None \<Rightarrow> commit e iv fresh [] None
           | Some r' \<Rightarrow> commit e iv fresh [] (Some [(''retired'', retirement_json r')]))))))"

definition checkAccountAuthority :: "store_env \<Rightarrow> snapshot \<Rightarrow> int \<Rightarrow> jsv \<Rightarrow> jsv \<Rightarrow> unit prog" where
  "checkAccountAuthority e s t_fence t_account t_epoch = bind (accountAuthority e s) (\<lambda>c.
     if au_fence c \<noteq> t_fence \<or> au_account c \<noteq> t_account \<or> au_epoch c \<noteq> t_epoch \<or> truthy (au_blocked c) then Ret (Inl Fenced) else Ret (Inr ()))"


section \<open>Listing\<close>

text \<open>The references of one kind after an identifier, in the order of the keys, up to a limit.\<close>

definition refs_after :: "store_env \<Rightarrow> string \<Rightarrow> string \<Rightarrow> nat \<Rightarrow> db \<Rightarrow> ref list" where
  "refs_after e kind after limit D =
     map (Pair kind) (take limit (sort (map (snd \<circ> snd) (filter (\<lambda>(n, k, i). n = namespace e \<and> k = kind \<and> (if after = [] then after \<le> i else after < i))
       (jkeys (ratchet_recs D))))))"

definition pendingRefs :: "store_env \<Rightarrow> string \<Rightarrow> string \<Rightarrow> nat \<Rightarrow> ref list prog" where
  "pendingRefs e kind after limit =
     (if kind \<notin> set kinds \<or> limit < 1 \<or> limit > 200 then Ret (Inl Invalid)
      else bind identityFence (\<lambda>f. if \<not> active f then Ret (Inl Fenced) else look (\<lambda>D. Inr (refs_after e kind after limit D))))"

section \<open>Account transitions\<close>

definition transition_ok :: "store_env \<Rightarrow> string \<Rightarrow> bytes \<Rightarrow> jsv \<Rightarrow> jsv \<Rightarrow> (string \<times> jsv) list \<Rightarrow> db_error + unit" where
  "transition_ok e accountID account reset bundle otks =
     (if resetTranscript (env_curves e) reset = None then Inl Thrown
      else case publicationDigest (env_curves e) bundle of None \<Rightarrow> Inl Thrown
      | Some d \<Rightarrow>
          if JStr d \<noteq> field reset ''publication_digest'' \<or> \<not> valid_id accountID \<or> account = []
             \<or> field reset ''server'' \<noteq> JStr (env_server e) \<or> field reset ''principal'' \<noteq> JStr (env_principal e)
             \<or> field reset ''device'' \<noteq> JStr (env_device e)
             \<or> (case (field reset ''new_epoch'', field reset ''old_epoch'') of (JNum n, JNum i) \<Rightarrow> n \<noteq> i + 1 | _ \<Rightarrow> True)
             \<or> field reset ''new_epoch'' \<noteq> field bundle ''account_epoch'' \<or> field reset ''generation'' \<noteq> field bundle ''generation''
             \<or> field reset ''new_identity'' \<noteq> field bundle ''identity'' \<or> field reset ''new_signing'' \<noteq> field bundle ''signing''
             \<or> length otks \<noteq> length (arr_of (field bundle ''one_time_keys'')) then Inl Invalid
          else Inr ())"

fun transition_keys :: "snapshot \<Rightarrow> string \<Rightarrow> jsv \<Rightarrow> jsv \<Rightarrow> jsv list \<Rightarrow> (string \<times> jsv) list \<Rightarrow> (ref, bytes) jmap \<Rightarrow> db_error + (ref, bytes) jmap" where
  "transition_keys fresh accountID reset bundle seen [] changes = Inr changes"
| "transition_keys fresh accountID reset bundle seen ((i, o') # os) changes = (let r = (''obligation'', i) in
     sbind (require fresh r) (\<lambda>x.
     if revision x \<noteq> 0 \<or> \<not> is_open o' \<or> field o' ''account_id'' \<noteq> JStr accountID \<or> field o' ''account_epoch'' \<noteq> field reset ''new_epoch''
        \<or> field o' ''publication_id'' \<noteq> field reset ''transition_id'' \<or> field o' ''key_id'' \<in> set seen
        \<or> \<not> list_ex (\<lambda>k. field k ''id'' = field o' ''key_id'' \<and> field k ''key'' = field o' ''public_key'') (arr_of (field bundle ''one_time_keys''))
     then Inl Conflict
     else transition_keys fresh accountID reset bundle (field o' ''key_id'' # seen) os (jset r (json_bytes o') changes)))"

definition transition_doc :: "string \<Rightarrow> jsv \<Rightarrow> jsv \<Rightarrow> bool \<Rightarrow> jsv \<Rightarrow> jsv" where
  "transition_doc accountID reset bundle recovery c = JObj ([(''account_id'', JStr accountID), (''reset'', reset), (''bundle'', bundle)]
     @ opt_member recovery ''recovery'' (JBool True) @ opt_member recovery ''from_epoch'' (field c ''accountEpoch''))"

definition epoch_above :: "jsv \<Rightarrow> jsv \<Rightarrow> bool" where  \<comment> \<open>\<^verbatim>\<open>a > b\<close> of numbers; false when one is not\<close>
  "epoch_above a b = (case (a, b) of (JNum i, JNum j) \<Rightarrow> i > j | _ \<Rightarrow> False)"

definition prepareAccountTransition :: "store_env \<Rightarrow> (ref \<Rightarrow> bytes) \<Rightarrow> snapshot \<Rightarrow> string \<Rightarrow> bytes \<Rightarrow> jsv \<Rightarrow> jsv \<Rightarrow> (string \<times> jsv) list \<Rightarrow> bool \<Rightarrow> unit prog" where
  "prepareAccountTransition e iv s accountID account reset bundle otks recovery =
     bind (Ret (transition_ok e accountID account reset bundle otks)) (\<lambda>_.
     let r = (''transition'', str_of (field reset ''transition_id'')); ar = (''account'', accountID);
         pr = (''publication'', str_of (field reset ''transition_id'')) in
     bind (extended e s (r # ar # pr # map (\<lambda>(i, o'). (''obligation'', i)) otks)) (\<lambda>fresh.
     bind (Ret (compare s fresh)) (\<lambda>_. bind (Ret (control_doc fresh)) (\<lambda>c. bind (Ret (require fresh r)) (\<lambda>old.
     let expected = transition_doc accountID reset bundle recovery c in
     if revision old \<noteq> 0 then
       bind (Ret (sbind (json_doc (data old)) (\<lambda>prior. ensure Conflict (equalJSON (drop_field ''receipt'' prior) expected)))) (\<lambda>_. commit e iv fresh [] None)
     else bind (Ret (require fresh ar)) (\<lambda>x.
       if truthy (field c ''sendingBlocked'')
          \<or> (if recovery then epoch_above (field c ''accountEpoch'') (field reset ''old_epoch'') else field c ''accountEpoch'' \<noteq> field reset ''old_epoch'')
          \<or> field c ''accountID'' = JStr accountID \<or> revision x \<noteq> 0 then Ret (Inl Fenced)
       else bind (Ret (transition_keys fresh accountID reset bundle [] otks
              [(r, json_bytes expected), (ar, account), (pr, publication_doc accountID (jsonBytes bundle))])) (\<lambda>changes.
         commit e iv fresh changes (Some [(''sendingBlocked'', JBool True)]))))))))"

definition prepareRecoveryTransition :: "store_env \<Rightarrow> (ref \<Rightarrow> bytes) \<Rightarrow> snapshot \<Rightarrow> string \<Rightarrow> bytes \<Rightarrow> jsv \<Rightarrow> jsv \<Rightarrow> (string \<times> jsv) list \<Rightarrow> unit prog" where
  "prepareRecoveryTransition e iv s accountID account reset bundle otks =
     (if field reset ''reason'' \<noteq> JStr ''lost'' \<and> field reset ''reason'' \<noteq> JStr ''restored'' then Ret (Inl Invalid)
      else prepareAccountTransition e iv s accountID account reset bundle otks True)"

fun owned_refs :: "snapshot \<Rightarrow> jsv \<Rightarrow> ref list \<Rightarrow> db_error + ref list" where
  "owned_refs s account [] = Inr []"
| "owned_refs s account (r # rs) = sbind (require s r) (\<lambda>x. sbind (json_doc (data x)) (\<lambda>o'.
     sbind (owned_refs s account rs) (\<lambda>os. Inr (if field o' ''account_id'' = account then r # os else os))))"

text \<open>The pages of obligations; the first argument bounds their number.\<close>

primrec candidate_refs :: "nat \<Rightarrow> store_env \<Rightarrow> jsv \<Rightarrow> string \<Rightarrow> ref list \<Rightarrow> ref list prog" where
  "candidate_refs 0 e account after refs = Ret (Inl Out_of_pages)"
| "candidate_refs (Suc n) e account after refs =
     bind (pendingRefs e ''obligation'' after 200) (\<lambda>page. bind (read e page) (\<lambda>s.
     bind (Ret (owned_refs s account page)) (\<lambda>own.
     if length page < 200 then Ret (Inr (refs @ own)) else candidate_refs n e account (snd (last page)) (refs @ own))))"

fun close_keys :: "snapshot \<Rightarrow> string \<Rightarrow> jsv \<Rightarrow> (jsv, jsv) jmap \<Rightarrow> ref list \<Rightarrow> (ref, bytes) jmap \<Rightarrow> db_error + (ref, bytes) jmap" where
  "close_keys fresh i t keys [] changes = (if keys \<noteq> [] then Inl Conflict else Inr changes)"
| "close_keys fresh i t keys (r # rs) changes = sbind (require fresh r) (\<lambda>x. sbind (json_doc (data x)) (\<lambda>o'.
     if field o' ''account_id'' \<noteq> field t ''account_id'' \<or> field o' ''publication_id'' \<noteq> JStr i
        \<or> field o' ''account_epoch'' \<noteq> field (field t ''reset'') ''new_epoch'' \<or> \<not> truthy (field o' ''public_key'')
        \<or> jget keys (field o' ''key_id'') \<noteq> Some (field o' ''public_key'') \<or> truthy (field o' ''consumed'') then Inl Conflict
     else close_keys fresh i t (jdel (field o' ''key_id'') keys) rs
       (if truthy (field o' ''closed'') then changes
        else jset r (json_bytes (merge_fields o' (JObj [(''closed'', JBool True), (''closure_proof'', JStr (''abandoned-recovery:'' @ i))]))) changes)))"

definition abandonRecoveryTransition :: "nat \<Rightarrow> store_env \<Rightarrow> (ref \<Rightarrow> bytes) \<Rightarrow> snapshot \<Rightarrow> string \<Rightarrow> unit prog" where
  "abandonRecoveryTransition pages e iv s i =
     bind (Ret (require_doc s (''transition'', i))) (\<lambda>t.
     if \<not> truthy (field t ''recovery'') \<or> truthy (field t ''receipt'') then Ret (Inl Invalid)
     else if truthy (field t ''abandoned'') then Ret (Inr ())
     else bind (Ret (control_doc s)) (\<lambda>c.
       if field c ''accountEpoch'' \<noteq> field t ''from_epoch'' \<or> \<not> truthy (field c ''sendingBlocked'') \<or> field c ''accountID'' = field t ''account_id''
       then Ret (Inl Fenced)
       else bind (candidate_refs pages e (field t ''account_id'') [] []) (\<lambda>refs. bind (extended e s refs) (\<lambda>fresh.
         bind (Ret (sbind (compare s fresh) (\<lambda>_.
           sbind (close_keys fresh i t (fold (\<lambda>k. jset (field k ''id'') (field k ''key'')) (arr_of (field (field t ''bundle'') ''one_time_keys'')) []) refs []) (\<lambda>changes.
           Inr (jset (''transition'', i) (json_bytes (set_field ''abandoned'' (JBool True) t)) changes))))) (\<lambda>changes.
         commit e iv fresh changes (Some [(''sendingBlocked'', JBool False)]))))))"

definition receipt_matches :: "store_env \<Rightarrow> jsv \<Rightarrow> jsv \<Rightarrow> bool" where
  "receipt_matches e r receipt \<longleftrightarrow>
     field receipt ''server'' = field r ''server'' \<and> field receipt ''device'' = field r ''device''
     \<and> field receipt ''transition_id'' = field r ''transition_id'' \<and> field receipt ''account_epoch'' = field r ''new_epoch''
     \<and> field receipt ''publication_digest'' = field r ''publication_digest'' \<and> field receipt ''digest'' = JStr (resetDigest (env_curves e) r)"

definition promoteAccount :: "store_env \<Rightarrow> (ref \<Rightarrow> bytes) \<Rightarrow> snapshot \<Rightarrow> string \<Rightarrow> jsv \<Rightarrow> unit prog" where
  "promoteAccount e iv s i receipt =
     bind (Ret (require_doc s (''transition'', i))) (\<lambda>t. let r = field t ''reset'' in
     if \<not> receipt_matches e r receipt then Ret (Inl Conflict)
     else if truthy (field t ''receipt'') then
       (if \<not> equalJSON (field t ''receipt'') receipt then Ret (Inl Conflict) else commit e iv s [] None)
     else if truthy (field t ''abandoned'') then Ret (Inl Fenced)
     else bind (Ret (control_doc s)) (\<lambda>c.
       if field c ''accountEpoch'' \<noteq> (if truthy (field t ''recovery'') then field t ''from_epoch'' else field r ''old_epoch'')
          \<or> \<not> truthy (field c ''sendingBlocked'') then Ret (Inl Fenced)
       else commit e iv s [((''transition'', i), json_bytes (set_field ''receipt'' receipt t))]
         (Some [(''accountID'', field t ''account_id''), (''accountEpoch'', field r ''new_epoch''), (''nextAttempt'', JNum 0), (''sendingBlocked'', JBool False)])))"

definition accountTransitionRequest :: "store_env \<Rightarrow> snapshot \<Rightarrow> string \<Rightarrow> jsv prog" where
  "accountTransitionRequest e s i = bind (extended e s [(''transition'', i)]) (\<lambda>fresh.
     bind (Ret (require_doc fresh (''transition'', i))) (\<lambda>t. bind (commit e (\<lambda>_. []) fresh [] None) (\<lambda>_. Ret (Inr t))))"

definition proof_ok :: "store_env \<Rightarrow> string \<Rightarrow> jsv \<Rightarrow> jsv \<Rightarrow> bool" where
  "proof_ok e accountID o' p \<longleftrightarrow>
     field p ''state'' = JStr ''closed'' \<and> field p ''server'' = JStr (env_server e) \<and> field p ''device'' = JStr (env_device e)
     \<and> field p ''account_epoch'' = field o' ''account_epoch'' \<and> field p ''key_id'' = field o' ''key_id''
     \<and> field o' ''account_id'' = JStr accountID \<and> is_open o' \<and> truthy (field o' ''public_key'') \<and> hash_text (js_string (field p ''proof''))
     \<and> field p ''proof'' = JStr (digestBytes (env_curves e) (jsonBytes (JObj [(''server'', field p ''server''), (''device'', field p ''device''),
         (''account_epoch'', field p ''account_epoch''), (''key_id'', field p ''key_id''), (''state'', field p ''state''), (''proof'', JStr [])])))"

fun retire_keys :: "store_env \<Rightarrow> snapshot \<Rightarrow> string \<Rightarrow> (string \<times> jsv) list \<Rightarrow> (ref, bytes) jmap \<Rightarrow> db_error + (ref, bytes) jmap" where
  "retire_keys e s accountID [] changes = Inr changes"
| "retire_keys e s accountID ((i, p) # ps) changes = sbind (require_doc s (''obligation'', i)) (\<lambda>o'.
     if \<not> proof_ok e accountID o' p then Inl Conflict
     else retire_keys e s accountID ps
       (jset (''obligation'', i) (json_bytes (merge_fields o' (JObj [(''closed'', JBool True), (''closure_proof'', field p ''proof'')]))) changes))"

definition retireUnsubmittedKeys :: "store_env \<Rightarrow> (ref \<Rightarrow> bytes) \<Rightarrow> snapshot \<Rightarrow> string \<Rightarrow> bytes \<Rightarrow> (string \<times> jsv) list \<Rightarrow> unit prog" where
  "retireUnsubmittedKeys e iv s accountID account proofs =
     (if account = [] \<or> length proofs < 1 \<or> length proofs > 100 then Ret (Inl Invalid)
      else bind (Ret (sbind (require s (''account'', accountID)) (\<lambda>_. retire_keys e s accountID proofs [((''account'', accountID), account)])))
        (\<lambda>changes. commit e iv s changes None))"

fun retire_sessions :: "snapshot \<Rightarrow> jsv \<Rightarrow> string list \<Rightarrow> (ref, bytes) jmap \<Rightarrow> db_error + (ref, bytes) jmap" where
  "retire_sessions s reset [] changes = Inr changes"
| "retire_sessions s reset (i # is) changes = sbind (require_doc s (''session'', i)) (\<lambda>st. let c = field st ''context'' in
     if field c ''peer_principal'' \<noteq> field reset ''principal'' \<or> field c ''peer_device'' \<noteq> field reset ''device''
        \<or> field c ''peer_epoch'' \<noteq> field reset ''old_epoch'' \<or> field c ''peer_identity'' \<noteq> field reset ''old_identity'' then Inl Conflict
     else retire_sessions s reset is (jset (''session'', i) (json_bytes (merge_fields st (JObj [(''retired'', JBool True)]))) changes))"

definition retirePeerSessions :: "store_env \<Rightarrow> (ref \<Rightarrow> bytes) \<Rightarrow> snapshot \<Rightarrow> string \<Rightarrow> jsv \<Rightarrow> string list \<Rightarrow> unit prog" where
  "retirePeerSessions e iv s trustID reset ids =
     (if length ids < 1 \<or> length ids > 160 \<or> field reset ''server'' \<noteq> JStr (env_server e) then Ret (Inl Invalid)
      else bind (Ret (sbind (trust s trustID) (\<lambda>_. retire_sessions s reset ids []))) (\<lambda>changes. commit e iv s changes None))"

end
