(* ===== verification/Ratchet_Accounts.thy ===== *)
theory Ratchet_Accounts
  imports Ratchet_Store
begin

text \<open>
  What a database holds for a ratchet store, as a map from references to documents, and the
  invariant of that map: the control record accounts exactly for the records, their bytes and
  the open obligations; stored attempts are numbered without gaps and never twice; documents
  only evolve (revocations, receipts, closed obligations and retired sessions are permanent).
  The main lemma, \<open>commit_keeps\<close>, says that a commit planned from current records keeps all
  of it when the planned changes are \<open>good\<close>.
\<close>

declare split_paired_All [simp del] split_paired_Ex [simp del]

section \<open>What a database holds for a store\<close>

text \<open>The opened records of a namespace, with their revisions.\<close>

definition view :: "store_env \<Rightarrow> db \<Rightarrow> ref \<Rightarrow> (int \<times> bytes) option" where
  "view e D r = (case decode_at e D r of Inl _ \<Rightarrow> None | Inr x \<Rightarrow> if revision x = 0 then None else Some (revision x, data x))"

definition docs :: "store_env \<Rightarrow> db \<Rightarrow> ref \<Rightarrow> bytes option" where
  "docs e D r = map_option snd (view e D r)"

definition readable :: "store_env \<Rightarrow> db \<Rightarrow> bool" where
  "readable e D \<longleftrightarrow> (\<forall>r x. raw_get e D r = Some x \<longrightarrow> (\<exists>d. decode_at e D r = Inr \<lparr>revision = rec_revision x, data = d\<rparr>))"

lemma decode_at_None: "raw_get e D r = None \<Longrightarrow> decode_at e D r = Inr \<lparr>revision = 0, data = []\<rparr>"
  by (simp add: decode_at_def decode_def)

lemma decode_at_version: "raw_get e D r = Some x \<Longrightarrow> decode_at e D r = Inr y \<Longrightarrow> revision y = rec_revision x \<and> version_ok (revision y)"
  by (auto simp: decode_at_def decode_def split: if_splits option.splits)

lemma view_absent: "raw_get e D r = None \<Longrightarrow> view e D r = None"
  by (simp add: view_def decode_at_None)

lemma view_present:
  assumes "readable e D" "raw_get e D r = Some x"
  shows "\<exists>d. decode_at e D r = Inr \<lparr>revision = rec_revision x, data = d\<rparr> \<and> view e D r = Some (rec_revision x, d) \<and> version_ok (rec_revision x)"
proof -
  obtain d where d: "decode_at e D r = Inr \<lparr>revision = rec_revision x, data = d\<rparr>" using assms unfolding readable_def by blast
  have "version_ok (rec_revision x)" using decode_at_version [OF assms(2) d] by simp
  then show ?thesis using d by (auto simp: view_def version_ok_def)
qed

lemma current_revision_view:
  "readable e D \<Longrightarrow> current_revision e D r = (case view e D r of None \<Rightarrow> 0 | Some (n, d) \<Rightarrow> n)"
  using view_present [of e D r] by (cases "raw_get e D r") (auto simp: current_revision_def view_absent)

lemma view_positive: "view e D r = Some (n, d) \<Longrightarrow> 1 \<le> n"
  by (auto simp: view_def decode_at_def decode_def version_ok_def split: sum.splits if_splits option.splits)

text \<open>What the store sees depends on the records of its namespace and the wrapping key only.\<close>

lemma view_cong:
  assumes "raw_get e D' r = raw_get e D r" and "raw_get e D r \<noteq> None \<Longrightarrow> wrapping_key D' = wrapping_key D"
  shows "decode_at e D' r = decode_at e D r" "view e D' r = view e D r"
proof -
  show "decode_at e D' r = decode_at e D r"
    using assms by (cases "raw_get e D r") (auto simp: decode_at_def decode_def)
  then show "view e D' r = view e D r" by (simp add: view_def)
qed

lemma raw_get_put: "raw_get e (put_ratchet e r x D) r' = (if r' = r then Some x else raw_get e D r')"
  by (simp add: raw_get_def put_ratchet_def)

lemma put_ratchet_frame [simp]:
  "wrapping_key (put_ratchet e r x D) = wrapping_key D" "fence_rec (put_ratchet e r x D) = fence_rec D"
  "sealed_recs (put_ratchet e r x D) = sealed_recs D" "identity_rec (put_ratchet e r x D) = identity_rec D"
  "initialized (put_ratchet e r x D) = initialized D" "current_fence (put_ratchet e r x D) = current_fence D"
  "jwf (ratchet_recs D) \<Longrightarrow> jwf (ratchet_recs (put_ratchet e r x D))"
  by (simp_all add: put_ratchet_def current_fence_def)

lemma decode_put:
  assumes "cipher_inverts (env_cipher e)" "wrapping_key D = Some k" "version_ok n"
  shows "decode_at e (put_ratchet e r (encode e k iv r n d) D) r' = (if r' = r then Inr \<lparr>revision = n, data = d\<rparr> else decode_at e D r')"
  using assms by (auto simp: decode_at_def decode_def encode_def raw_get_put cipher_inverts_def)

lemma view_put:
  assumes "cipher_inverts (env_cipher e)" "wrapping_key D = Some k" "version_ok n"
  shows "view e (put_ratchet e r (encode e k iv r n d) D) r' = (if r' = r then Some (n, d) else view e D r')"
  using assms by (simp add: view_def decode_put) (simp add: version_ok_def)

lemma readable_put:
  assumes "cipher_inverts (env_cipher e)" "wrapping_key D = Some k" "version_ok n" "readable e D"
  shows "readable e (put_ratchet e r (encode e k iv r n d) D)"
  unfolding readable_def
proof (intro allI impI)
  fix r' x assume x: "raw_get e (put_ratchet e r (encode e k iv r n d) D) r' = Some x"
  show "\<exists>da. decode_at e (put_ratchet e r (encode e k iv r n d) D) r' = Inr \<lparr>revision = rec_revision x, data = da\<rparr>"
  proof (cases "r' = r")
    case True
    then have "rec_revision x = n" using x by (auto simp: raw_get_put encode_def)
    then show ?thesis using True by (simp add: decode_put [OF assms(1-3)])
  next
    case False
    then have "raw_get e D r' = Some x" using x by (simp add: raw_get_put)
    then obtain d' where "decode_at e D r' = Inr \<lparr>revision = rec_revision x, data = d'\<rparr>" using assms(4) unfolding readable_def by blast
    then show ?thesis using False by (simp add: decode_put [OF assms(1-3)])
  qed
qed

section \<open>A commit is an atomic compare and swap\<close>

lemma write_prepared_frame [simp]:
  "wrapping_key (write_prepared e k iv s ps D) = wrapping_key D" "fence_rec (write_prepared e k iv s ps D) = fence_rec D"
  "sealed_recs (write_prepared e k iv s ps D) = sealed_recs D" "identity_rec (write_prepared e k iv s ps D) = identity_rec D"
  "initialized (write_prepared e k iv s ps D) = initialized D" "current_fence (write_prepared e k iv s ps D) = current_fence D"
  "jwf (ratchet_recs D) \<Longrightarrow> jwf (ratchet_recs (write_prepared e k iv s ps D))"
  by (induction e k iv s ps D rule: write_prepared.induct) simp_all

lemma write_prepared_view:
  assumes "cipher_inverts (env_cipher e)" "wrapping_key D = Some k" "distinct (map fst ps)"
    and "list_all (\<lambda>(r, d). version_ok (snapshot_revision s r + 1)) ps"
  shows "view e (write_prepared e k iv s ps D) r = (case map_of ps r of Some d \<Rightarrow> Some (snapshot_revision s r + 1, d) | None \<Rightarrow> view e D r)"
    and "readable e D \<Longrightarrow> readable e (write_prepared e k iv s ps D)"
  using assms
proof (induction e k iv s ps D rule: write_prepared.induct)
  case (2 e k iv s r' d ps D)
  {
    case 1
    have "map_of ps r' = None" using 1(3) by (simp add: map_of_eq_None_iff)
    then show ?case using "2.IH"(1) 1 by (auto simp: view_put split: option.splits)
  next
    case 2
    then show ?case using "2.IH" by (simp add: readable_put)
  }
qed simp_all


section \<open>Accounts of a store\<close>

definition stored_refs :: "(ref \<Rightarrow> bytes option) \<Rightarrow> ref set" where
  "stored_refs V = dom V - {ctl}"

definition open_doc :: "bytes \<Rightarrow> bool" where
  "open_doc d = (case json_doc d of Inr o' \<Rightarrow> is_open o' | Inl _ \<Rightarrow> False)"

definition open_refs :: "(ref \<Rightarrow> bytes option) \<Rightarrow> ref set" where
  "open_refs V = {r \<in> stored_refs V. fst r = ''obligation'' \<and> open_doc (the (V r))}"

definition accounts :: "(ref \<Rightarrow> bytes option) \<Rightarrow> jsv \<Rightarrow> bool" where
  "accounts V c \<longleftrightarrow> field c ''count'' = JNum (int (card (stored_refs V)))
     \<and> field c ''bytes'' = JNum (\<Sum>r\<in>stored_refs V. int (length (the (V r))))
     \<and> field c ''obligations'' = JNum (int (card (open_refs V)))"

definition is_object :: "jsv \<Rightarrow> bool" where
  "is_object v \<longleftrightarrow> json_ok v \<and> (\<exists>fs. v = JObj fs)"

lemma field_set_field: "is_object c \<Longrightarrow> field (set_field k v c) k' = (if k' = k then v else field c k')"
  using jget_jset [of k v] by (auto simp: is_object_def jget_def)

lemma is_object_set_field: "is_object c \<Longrightarrow> json_ok v \<Longrightarrow> is_object (set_field k v c)"
  unfolding is_object_def by (auto simp del: json_ok.simps(2) intro: json_ok_jset)

lemma add_field_num:
  assumes "is_object c" "field c k = JNum i"
  shows "is_object (add_field k n c)" "field (add_field k n c) k' = (if k' = k then JNum (i + n) else field c k')"
  using assms by (simp_all add: add_field_def is_object_set_field field_set_field)

text \<open>Writing one record moves the sums by what the commit charges for it.\<close>

lemma stored_refs_upd: "r \<noteq> ctl \<Longrightarrow> stored_refs (V(r \<mapsto> d)) = insert r (stored_refs V)"
  by (auto simp: stored_refs_def)

lemma stored_refs_finite: "finite (dom V) \<Longrightarrow> finite (stored_refs V)"
  by (simp add: stored_refs_def)

lemma count_upd:
  assumes "r \<noteq> ctl" "finite (dom V)"
  shows "int (card (stored_refs (V(r \<mapsto> d)))) = int (card (stored_refs V)) + (if V r = None then 1 else 0)"
  using assms stored_refs_finite [OF assms(2)] by (auto simp: stored_refs_upd card_insert_if) (auto simp: stored_refs_def)

lemma bytes_upd:
  assumes "r \<noteq> ctl" "finite (dom V)"
  shows "(\<Sum>x\<in>stored_refs (V(r \<mapsto> d)). int (length (the ((V(r \<mapsto> d)) x))))
    = (\<Sum>x\<in>stored_refs V. int (length (the (V x)))) + int (length d) - (case V r of None \<Rightarrow> 0 | Some d' \<Rightarrow> int (length d'))"
proof -
  let ?R = "stored_refs V - {r}"
  have fin: "finite ?R" using stored_refs_finite [OF assms(2)] by simp
  have "(\<Sum>x\<in>insert r ?R. int (length (the ((V(r \<mapsto> d)) x)))) = int (length d) + (\<Sum>x\<in>?R. int (length (the ((V(r \<mapsto> d)) x))))"
    by (subst sum.insert [OF fin]) simp_all
  moreover have "(\<Sum>x\<in>?R. int (length (the ((V(r \<mapsto> d)) x)))) = (\<Sum>x\<in>?R. int (length (the (V x))))"
    by (rule sum.cong) auto
  moreover have "(\<Sum>x\<in>stored_refs V. int (length (the (V x))))
      = (\<Sum>x\<in>?R. int (length (the (V x)))) + (case V r of None \<Rightarrow> 0 | Some d' \<Rightarrow> int (length d'))"
  proof (cases "V r")
    case None
    then have "?R = stored_refs V" by (auto simp: stored_refs_def)
    then show ?thesis using None by simp
  next
    case (Some d')
    then have "r \<in> stored_refs V" using assms(1) by (auto simp: stored_refs_def)
    then show ?thesis using sum.remove [OF stored_refs_finite [OF assms(2)], of r "\<lambda>x. int (length (the (V x)))"] Some by simp
  qed
  moreover have "stored_refs (V(r \<mapsto> d)) = insert r ?R" using stored_refs_upd [OF assms(1)] by auto
  ultimately show ?thesis by (simp del: insert_Diff_single)
qed

lemma open_refs_upd:
  assumes "r \<noteq> ctl"
  shows "open_refs (V(r \<mapsto> d)) = (if fst r = ''obligation'' \<and> open_doc d then insert r (open_refs V) else open_refs V - {r})"
  using assms by (auto simp: open_refs_def stored_refs_def)

lemma open_upd:
  assumes "r \<noteq> ctl" "finite (dom V)" and "\<And>d'. V r = Some d' \<Longrightarrow> fst r = ''obligation'' \<Longrightarrow> open_doc d \<Longrightarrow> open_doc d'"
  shows "int (card (open_refs (V(r \<mapsto> d)))) = int (card (open_refs V)) +
    (if fst r = ''obligation'' then (case V r of None \<Rightarrow> if open_doc d then 1 else 0 | Some d' \<Rightarrow> if open_doc d' \<and> \<not> open_doc d then -1 else 0) else 0)"
proof -
  have fin: "finite (open_refs V)" using stored_refs_finite [OF assms(2)] by (simp add: open_refs_def)
  have mem: "r \<in> open_refs V \<longleftrightarrow> fst r = ''obligation'' \<and> (\<exists>d'. V r = Some d' \<and> open_doc d')"
    using assms(1) by (auto simp: open_refs_def stored_refs_def)
  have pos: "0 < card (open_refs V)" if "r \<in> open_refs V" using that fin by (auto simp: card_gt_0_iff)
  show ?thesis using fin mem pos assms(3)
    by (cases "V r") (auto simp: open_refs_upd [OF assms(1)] card_insert_if card_Diff_singleton_if split: if_splits)
qed


definition holds :: "(ref \<Rightarrow> bytes option) \<Rightarrow> ref \<Rightarrow> record_view \<Rightarrow> bool" where
  "holds V r x \<longleftrightarrow> (if revision x = 0 then V r = None \<and> data x = [] else V r = Some (data x))"

definition agrees :: "snapshot \<Rightarrow> (ref \<Rightarrow> bytes option) \<Rightarrow> bool" where
  "agrees s V \<longleftrightarrow> (\<forall>r x. jget (records s) r = Some x \<longrightarrow> holds V r x)"

lemma validRef_ctl: "validRef r \<Longrightarrow> r \<noteq> ctl"
  by (auto simp: validRef_def ctl_def kinds_def)

lemma sbind_Inr [elim!]: "sbind r f = Inr b \<Longrightarrow> (\<And>a. r = Inr a \<Longrightarrow> f a = Inr b \<Longrightarrow> P) \<Longrightarrow> P"
  by (cases r) auto

lemma require_Inr: "require s r = Inr x \<longleftrightarrow> jget (records s) r = Some x"
  by (auto simp: require_def split: option.splits)

lemma obligation_change_eq:
  assumes "obligation_change old d = Inr k" "holds V r old"
  shows "k = (case V r of None \<Rightarrow> if open_doc d then 1 else 0 | Some d' \<Rightarrow> if open_doc d' \<and> \<not> open_doc d then -1 else 0) \<and> (\<exists>o'. json_doc d = Inr o')"
  using assms by (auto simp: obligation_change_def open_doc_def holds_def split: if_splits)

text \<open>One change: the control document charged for it accounts for the record written.\<close>

definition charge_one :: "record_view \<Rightarrow> ref \<Rightarrow> bytes \<Rightarrow> jsv \<Rightarrow> db_error + jsv" where
  "charge_one old r d c =
     (let c1 = (if revision old = 0 then add_field ''count'' 1 c else c);
          c2 = add_field ''bytes'' (int (length d) - int (length (data old))) c1 in
      if fst r = ''obligation'' then sbind (obligation_change old d) (\<lambda>k. Inr (if k = 0 then c2 else add_field ''obligations'' k c2)) else Inr c2)"

lemma charge_Cons:
  "charge s ((r, d) # chs) c n = Inr res \<Longrightarrow> \<exists>old c3. validRef r \<and> d \<noteq> [] \<and> length d \<le> record_limit (fst r)
     \<and> jget (records s) r = Some old \<and> charge_one old r d c = Inr c3 \<and> charge s chs c3 (n + length d) = Inr res"
  by (auto simp: charge_one_def require_Inr Let_def split: if_splits)

lemma charge_one_accounts:
  assumes "charge_one old r d c = Inr c'" "is_object c" "accounts V c" "finite (dom V)" "r \<noteq> ctl" "holds V r old"
    and "\<And>d'. V r = Some d' \<Longrightarrow> fst r = ''obligation'' \<Longrightarrow> open_doc d \<Longrightarrow> open_doc d'"
  shows "is_object c' \<and> accounts (V(r \<mapsto> d)) c' \<and> (\<forall>k. k \<notin> {''count'', ''bytes'', ''obligations''} \<longrightarrow> field c' k = field c k)
    \<and> (fst r = ''obligation'' \<longrightarrow> (\<exists>o'. json_doc d = Inr o'))"
proof -
  define c1 where "c1 = (if revision old = 0 then add_field ''count'' 1 c else c)"
  define c2 where "c2 = add_field ''bytes'' (int (length d) - int (length (data old))) c1"
  have old: "revision old = 0 \<longleftrightarrow> V r = None" "int (length (data old)) = (case V r of None \<Rightarrow> 0 | Some d' \<Rightarrow> int (length d'))"
    using assms(6) by (auto simp: holds_def split: if_splits)
  have a: "field c ''count'' = JNum (int (card (stored_refs V)))" "field c ''bytes'' = JNum (\<Sum>r\<in>stored_refs V. int (length (the (V r))))"
    "field c ''obligations'' = JNum (int (card (open_refs V)))" using assms(3) by (simp_all add: accounts_def)
  have c1: "is_object c1" "field c1 k = (if k = ''count'' then JNum (int (card (stored_refs (V(r \<mapsto> d))))) else field c k)" for k
    using assms(2) a(1) old(1) count_upd [OF assms(5,4), of d] by (auto simp: c1_def add_field_num)
  have b1: "field c1 ''bytes'' = JNum (\<Sum>r\<in>stored_refs V. int (length (the (V r))))" using c1(2) a(2) by simp
  have c2: "is_object c2" "field c2 k = (if k = ''bytes'' then JNum (\<Sum>x\<in>stored_refs (V(r \<mapsto> d)). int (length (the ((V(r \<mapsto> d)) x)))) else field c1 k)" for k
    using c1(1) b1 bytes_upd [OF assms(5,4), of d] old(2) by (auto simp: c2_def add_field_num)
  have o2: "field c2 ''obligations'' = JNum (int (card (open_refs V)))" using c1(2) c2(2) a(3) by simp
  show ?thesis
  proof (cases "fst r = ''obligation''")
    case True
    then obtain k where k: "obligation_change old d = Inr k" "c' = (if k = 0 then c2 else add_field ''obligations'' k c2)"
      using assms(1) by (auto simp: charge_one_def c1_def c2_def Let_def)
    have n: "int (card (open_refs (V(r \<mapsto> d)))) = int (card (open_refs V)) + k"
      using open_upd [OF assms(5,4) assms(7)] obligation_change_eq [OF k(1) assms(6)] True by simp
    have "is_object c'" "field c' j = (if j = ''obligations'' then JNum (int (card (open_refs (V(r \<mapsto> d))))) else field c2 j)" for j
      using k(2) c2(1) o2 n by (auto simp: add_field_num)
    then show ?thesis using c1(2) c2(2) obligation_change_eq [OF k(1) assms(6)] by (simp add: accounts_def)
  next
    case False
    then have "c' = c2" using assms(1) by (simp add: charge_one_def c1_def c2_def Let_def)
    moreover have "card (open_refs (V(r \<mapsto> d))) = card (open_refs V)" using open_upd [OF assms(5,4), of d] False by simp
    ultimately show ?thesis using c1(2) c2 o2 False by (simp add: accounts_def)
  qed
qed

lemma charge_accounts:
  assumes "charge s chs c n = Inr (c', n')" "is_object c" "accounts V c" "finite (dom V)" "distinct (map fst chs)"
    and "\<And>r x. r \<in> fst ` set chs \<Longrightarrow> jget (records s) r = Some x \<Longrightarrow> holds V r x"
    and "\<And>r d d'. (r, d) \<in> set chs \<Longrightarrow> fst r = ''obligation'' \<Longrightarrow> V r = Some d' \<Longrightarrow> open_doc d \<Longrightarrow> open_doc d'"
  shows "is_object c' \<and> accounts (V ++ map_of chs) c' \<and> (\<forall>k. k \<notin> {''count'', ''bytes'', ''obligations''} \<longrightarrow> field c' k = field c k)
    \<and> (\<forall>(r, d) \<in> set chs. validRef r \<and> d \<noteq> [] \<and> jhas (records s) r \<and> (fst r = ''obligation'' \<longrightarrow> (\<exists>o'. json_doc d = Inr o')))
    \<and> n' = n + sum_list (map (\<lambda>(r, d). length d) chs)"
  using assms
proof (induction chs arbitrary: V c n)
  case (Cons ch chs)
  obtain r d where ch: "ch = (r, d)" by (cases ch)
  from charge_Cons [OF Cons.prems(1) [unfolded ch]] obtain old c3 where o: "validRef r" "d \<noteq> []" "length d \<le> record_limit (fst r)"
    "jget (records s) r = Some old" "charge_one old r d c = Inr c3" "charge s chs c3 (n + length d) = Inr (c', n')" by blast
  have old: "holds V r old" using Cons.prems(6) [of r old] o(4) by (simp add: ch)
  have reopen: "open_doc d'" if "V r = Some d'" "fst r = ''obligation''" "open_doc d" for d'
    using Cons.prems(7) [of r d d'] that by (simp add: ch)
  note one = charge_one_accounts [OF o(5) Cons.prems(2-4) validRef_ctl [OF o(1)] old reopen]
  have fin: "finite (dom (V(r \<mapsto> d)))" using Cons.prems(4) by simp
  have fresh: "r \<notin> fst ` set chs" and dist: "distinct (map fst chs)" using Cons.prems(5) by (simp_all add: ch)
  have eq: "V ++ map_of (ch # chs) = V(r \<mapsto> d) ++ map_of chs"
  proof
    fix r'
    have "map_of chs r = None" using fresh by (simp add: map_of_eq_None_iff)
    then show "(V ++ map_of (ch # chs)) r' = (V(r \<mapsto> d) ++ map_of chs) r'" by (simp add: ch map_add_def split: option.split)
  qed
  have "is_object c' \<and> accounts (V(r \<mapsto> d) ++ map_of chs) c' \<and> (\<forall>k. k \<notin> {''count'', ''bytes'', ''obligations''} \<longrightarrow> field c' k = field c3 k)
    \<and> (\<forall>(r, d) \<in> set chs. validRef r \<and> d \<noteq> [] \<and> jhas (records s) r \<and> (fst r = ''obligation'' \<longrightarrow> (\<exists>o'. json_doc d = Inr o')))
    \<and> n' = (n + length d) + sum_list (map (\<lambda>(r, d). length d) chs)"
  proof (rule Cons.IH [OF o(6) one [THEN conjunct1] one [THEN conjunct2, THEN conjunct1] fin dist])
    fix r' x assume r': "r' \<in> fst ` set chs" "jget (records s) r' = Some x"
    then have "r' \<noteq> r" using fresh by auto
    moreover have "holds V r' x" using Cons.prems(6) [of r' x] r' by simp
    ultimately show "holds (V(r \<mapsto> d)) r' x" by (simp add: holds_def)
  next
    fix r' d' d'' assume r': "(r', d') \<in> set chs" "fst r' = ''obligation''" "(V(r \<mapsto> d)) r' = Some d''" "open_doc d'"
    then have "r' \<noteq> r" using fresh by force
    then show "open_doc d''" using Cons.prems(7) [of r' d' d''] r' by simp
  qed
  moreover have "jhas (records s) r" using jhas_SomeI [OF o(4)] .
  ultimately show ?case using one o(1,2) unfolding eq by (simp add: ch)
qed simp

section \<open>How records may change\<close>

definition kept :: "string list \<Rightarrow> jsv \<Rightarrow> jsv \<Rightarrow> bool" where
  "kept ks v v' \<longleftrightarrow> list_all (\<lambda>k. field v' k = field v k) ks"

definition once :: "string \<Rightarrow> jsv \<Rightarrow> jsv \<Rightarrow> bool" where
  "once k v v' \<longleftrightarrow> (truthy (field v k) \<longrightarrow> field v' k = field v k)"

definition evolves_doc :: "string \<Rightarrow> jsv \<Rightarrow> jsv \<Rightarrow> bool" where
  "evolves_doc kind v v' \<longleftrightarrow>
     (if kind = ''trust'' then truthy (field v ''revoked'') \<longrightarrow> truthy (field v' ''revoked'')
      else if kind = ''obligation'' then (is_open v' \<longrightarrow> is_open v) \<and> kept [''account_id'', ''publication_id'', ''account_epoch'', ''key_id'', ''public_key''] v v'
      else if kind = ''session'' then (truthy (field v ''retired'') \<longrightarrow> truthy (field v' ''retired'')) \<and> stringify (field v' ''context'') = stringify (field v ''context'')
      else if kind = ''outbox'' then kept [''attempt'', ''packets'', ''archive''] v v' \<and> once ''receipt'' v v'
      else if kind = ''transition'' then kept [''account_id'', ''reset'', ''bundle'', ''recovery'', ''from_epoch''] v v' \<and> once ''receipt'' v v'
        \<and> (truthy (field v ''abandoned'') \<longrightarrow> truthy (field v' ''abandoned''))
      else True)"

definition control_position :: "jsv \<Rightarrow> (int \<times> int) option" where
  "control_position c = (case (field c ''accountEpoch'', field c ''nextAttempt'') of (JNum ep, JNum q) \<Rightarrow> Some (ep, q) | _ \<Rightarrow> None)"

text \<open>The account epoch only grows; within an epoch the account stays and the attempt counter only grows.\<close>

definition control_evolves :: "jsv \<Rightarrow> jsv \<Rightarrow> bool" where
  "control_evolves c c' \<longleftrightarrow> (\<forall>ep q. control_position c = Some (ep, q) \<longrightarrow> (\<exists>ep' q'. control_position c' = Some (ep', q')
     \<and> (ep < ep' \<or> ep = ep' \<and> q \<le> q' \<and> field c' ''accountID'' = field c ''accountID'')))"

definition evolves :: "ref \<Rightarrow> bytes \<Rightarrow> bytes \<Rightarrow> bool" where
  "evolves r d d' \<longleftrightarrow>
     (if fst r \<in> {''inbox'', ''claim''} then d' = d
      else if fst r \<in> {''account'', ''logical'', ''publication''} then True
      else if fst r = ''control'' then (\<forall>c. json_doc d = Inr c \<longrightarrow> (\<exists>c'. json_doc d' = Inr c' \<and> control_evolves c c'))
      else (\<forall>v. json_doc d = Inr v \<longrightarrow> (\<exists>v'. json_doc d' = Inr v' \<and> evolves_doc (fst r) v v')))"

definition evolved :: "(ref \<Rightarrow> bytes option) \<Rightarrow> (ref \<Rightarrow> bytes option) \<Rightarrow> bool" where
  "evolved V V' \<longleftrightarrow> (\<forall>r d. V r = Some d \<longrightarrow> (\<exists>d'. V' r = Some d' \<and> evolves r d d'))"

lemma kept_fields_trans: "kept ks u v \<Longrightarrow> kept ks v w \<Longrightarrow> kept ks u w"
  by (auto simp: kept_def list_all_iff)

lemma once_trans: "once k u v \<Longrightarrow> once k v w \<Longrightarrow> once k u w"
  by (auto simp: once_def)

lemma evolves_doc_refl [simp]: "evolves_doc kind v v"
  by (simp add: evolves_doc_def kept_def once_def list_all_iff)

lemma evolves_doc_trans: "evolves_doc kind u v \<Longrightarrow> evolves_doc kind v w \<Longrightarrow> evolves_doc kind u w"
  unfolding evolves_doc_def by (auto split: if_splits intro: kept_fields_trans once_trans)

lemma control_evolves_refl [simp]: "control_evolves c c"
  by (auto simp: control_evolves_def)

lemma control_evolves_trans:
  assumes "control_evolves a b" "control_evolves b c"
  shows "control_evolves a c"
  unfolding control_evolves_def
proof (intro allI impI)
  fix ep q assume "control_position a = Some (ep, q)"
  then obtain ep1 q1 where 1: "control_position b = Some (ep1, q1)" "ep < ep1 \<or> ep = ep1 \<and> q \<le> q1 \<and> field b ''accountID'' = field a ''accountID''"
    using assms(1) unfolding control_evolves_def by blast
  then obtain ep2 q2 where 2: "control_position c = Some (ep2, q2)" "ep1 < ep2 \<or> ep1 = ep2 \<and> q1 \<le> q2 \<and> field c ''accountID'' = field b ''accountID''"
    using assms(2) unfolding control_evolves_def by blast
  show "\<exists>ep' q'. control_position c = Some (ep', q') \<and> (ep < ep' \<or> ep = ep' \<and> q \<le> q' \<and> field c ''accountID'' = field a ''accountID'')"
    by (rule exI [of _ ep2], rule exI [of _ q2]) (use 1(2) 2 in auto)
qed

lemma evolves_refl [simp]: "evolves r d d"
  by (auto simp: evolves_def)

lemma evolves_trans: "evolves r a b \<Longrightarrow> evolves r b c \<Longrightarrow> evolves r a c"
  unfolding evolves_def by (auto split: if_splits intro: evolves_doc_trans control_evolves_trans) (meson evolves_doc_trans control_evolves_trans)+

lemma evolved_refl [simp]: "evolved V V"
  by (auto simp: evolved_def)

lemma evolved_trans: "evolved U V \<Longrightarrow> evolved V W \<Longrightarrow> evolved U W"
  unfolding evolved_def using evolves_trans by meson


section \<open>The invariant of a store\<close>

text \<open>The account epoch and the sequence number of a stored attempt.\<close>

definition attempt_key :: "jsv \<Rightarrow> (int \<times> int) option" where
  "attempt_key v = (let m = field (field v ''attempt'') ''manifest'' in
     case (field m ''account_epoch'', attemptSequence (field m ''attempt_id'')) of (JNum ep, Some q) \<Rightarrow> Some (ep, q) | _ \<Rightarrow> None)"

definition attempt_of :: "bytes \<Rightarrow> (int \<times> int) option" where
  "attempt_of d = (case json_doc d of Inr v \<Rightarrow> attempt_key v | Inl _ \<Rightarrow> None)"

definition attempt_at :: "(ref \<Rightarrow> bytes option) \<Rightarrow> ref \<Rightarrow> (int \<times> int) option" where
  "attempt_at V r = (if fst r = ''outbox'' then Option.bind (V r) attempt_of else None)"

definition attempts_ok :: "(ref \<Rightarrow> bytes option) \<Rightarrow> int \<Rightarrow> int \<Rightarrow> bool" where
  "attempts_ok V ep q \<longleftrightarrow> (\<forall>r ep' q'. attempt_at V r = Some (ep', q') \<longrightarrow> ep' < ep \<or> ep' = ep \<and> q' \<le> q)
     \<and> (\<forall>r r' k. attempt_at V r = Some k \<longrightarrow> attempt_at V r' = Some k \<longrightarrow> r = r')
     \<and> (\<forall>q'. 1 \<le> q' \<longrightarrow> q' \<le> q \<longrightarrow> (\<exists>r. attempt_at V r = Some (ep, q')))"

definition transition_inv :: "jsv \<Rightarrow> bool" where
  "transition_inv t \<longleftrightarrow> (\<exists>a. field t ''account_id'' = JStr a) \<and> (\<exists>n. field (field t ''reset'') ''old_epoch'' = JNum n \<and> field (field t ''reset'') ''new_epoch'' = JNum (n + 1)
     \<and> (truthy (field t ''recovery'') \<longrightarrow> (\<exists>f \<le> n. field t ''from_epoch'' = JNum f)))"

definition document_ok :: "ref \<Rightarrow> bytes \<Rightarrow> bool" where
  "document_ok r d \<longleftrightarrow> (fst r \<noteq> ''account'' \<longrightarrow> (\<exists>v. json_doc d = Inr v \<and> (fst r = ''transition'' \<longrightarrow> transition_inv v)))"

definition control_inv :: "(ref \<Rightarrow> bytes option) \<Rightarrow> jsv \<Rightarrow> bool" where
  "control_inv V c \<longleftrightarrow> is_object c \<and> accounts V c \<and> \<not> over_limits c 0
     \<and> (\<exists>ep q. control_position c = Some (ep, q) \<and> 1 \<le> ep \<and> 0 \<le> q \<and> attempts_ok V ep q)"

definition store_ok :: "(ref \<Rightarrow> bytes option) \<Rightarrow> bool" where
  "store_ok V \<longleftrightarrow> finite (dom V) \<and> (\<forall>r d. V r = Some d \<longrightarrow> document_ok r d)
     \<and> (V ctl = None \<longrightarrow> V = Map.empty) \<and> (\<forall>d c. V ctl = Some d \<longrightarrow> json_doc d = Inr c \<longrightarrow> control_inv V c)"

definition new_attempt :: "(ref \<Rightarrow> bytes option) \<Rightarrow> (ref, bytes) jmap \<Rightarrow> ref \<Rightarrow> int \<times> int \<Rightarrow> bool" where
  "new_attempt V changes r k \<longleftrightarrow> fst r = ''outbox'' \<and> V r = None \<and> (\<exists>d. (r, d) \<in> set changes \<and> attempt_of d = Some k)"

text \<open>What an operation may commit: every record evolves, and the control record stays, counts the
  one new attempt, or moves to a later epoch.\<close>

definition change_ok :: "(ref \<Rightarrow> bytes option) \<Rightarrow> ref \<times> bytes \<Rightarrow> bool" where
  "change_ok V ch \<longleftrightarrow> document_ok (fst ch) (snd ch) \<and> (\<forall>d'. V (fst ch) = Some d' \<longrightarrow> evolves (fst ch) d' (snd ch))"

definition update_ok :: "(ref \<Rightarrow> bytes option) \<Rightarrow> jsv \<Rightarrow> jsv \<Rightarrow> (ref, bytes) jmap \<Rightarrow> bool" where
  "update_ok V c c' changes \<longleftrightarrow> is_object c' \<and> kept [''count'', ''bytes'', ''obligations''] c c'
     \<and> (\<forall>ep q. control_position c = Some (ep, q) \<longrightarrow> (\<exists>ep' q'. control_position c' = Some (ep', q') \<and>
         (ep' = ep \<and> q' = q \<and> kept [''accountID''] c c' \<and> (\<forall>r k. \<not> new_attempt V changes r k)
        \<or> ep' = ep \<and> q' = q + 1 \<and> kept [''accountID''] c c' \<and> (\<exists>r0. \<forall>r k. new_attempt V changes r k \<longleftrightarrow> r = r0 \<and> k = (ep, q + 1))
        \<or> ep < ep' \<and> q' = 0 \<and> (\<forall>r k. \<not> new_attempt V changes r k))))"

definition good :: "(ref \<Rightarrow> bytes option) \<Rightarrow> jsv \<Rightarrow> (ref, bytes) jmap \<Rightarrow> (string \<times> jsv) list option \<Rightarrow> bool" where
  "good V c changes upd \<longleftrightarrow> jwf changes \<and> list_all (change_ok V) changes \<and> update_ok V c (assign upd c) changes"

lemma json_doc_bytes:
  assumes "js_wf v" "v \<noteq> JNull" "v \<noteq> JUndef"
  shows "json_doc (json_bytes v) = Inr (norm v)"
proof -
  have "norm v \<noteq> JNull" using assms(2,3) by (cases v) simp_all
  then show ?thesis using json_parse_norm [OF assms(1), of False]
    by (simp add: json_doc_def bytes_json_def json_bytes_def stringify_def del: json_text.simps)
qed

lemma js_wf_json_ok: "json_ok v \<Longrightarrow> js_wf v"
  by (induction v rule: js_wf.induct) (auto simp: list_all_iff)

lemma json_doc_object: "is_object c \<Longrightarrow> json_doc (json_bytes c) = Inr c"
  using json_doc_bytes [of c] norm_id [of c] js_wf_json_ok [of c] by (auto simp: is_object_def)

lemma json_doc_ok: "json_doc d = Inr v \<Longrightarrow> json_ok v"
  using json_parse_ok by (auto simp: json_doc_def bytes_json_def split: option.splits if_splits)

lemma attempt_key_kept: "kept [''attempt''] v v' \<Longrightarrow> attempt_key v' = attempt_key v"
  by (simp add: attempt_key_def kept_def)

lemma store_ok_doc: "store_ok V \<Longrightarrow> V r = Some d \<Longrightarrow> document_ok r d"
  by (simp add: store_ok_def)

lemma evolves_outbox:
  assumes "evolves r d d'" "fst r = ''outbox''" "document_ok r d"
  shows "attempt_of d' = attempt_of d"
proof -
  obtain v where v: "json_doc d = Inr v" using assms(2,3) by (auto simp: document_ok_def)
  then obtain v' where "json_doc d' = Inr v'" "evolves_doc ''outbox'' v v'" using assms(1,2) by (auto simp: evolves_def)
  then show ?thesis using v attempt_key_kept [of v v'] by (simp add: attempt_of_def evolves_doc_def kept_def)
qed

lemma evolves_open:
  assumes "evolves r d d'" "fst r = ''obligation''" "document_ok r d" "open_doc d'"
  shows "open_doc d"
  using assms by (auto simp: document_ok_def evolves_def evolves_doc_def open_doc_def)


lemma map_of_changes: "jwf changes \<Longrightarrow> map_of changes r = Some d \<longleftrightarrow> (r, d) \<in> set changes"
  by (simp add: jwf_def jkeys_def)

lemma attempt_at_after:
  assumes "store_ok V" "jwf changes" "list_all (change_ok V) changes"
  shows "attempt_at (V ++ map_of (changes @ [(ctl, b)])) r = Some k \<longleftrightarrow> attempt_at V r = Some k \<or> new_attempt V changes r k"
proof (cases "fst r = ''outbox''")
  case True
  then have r: "r \<noteq> ctl" by (auto simp: ctl_def)
  show ?thesis
  proof (cases "map_of changes r")
    case None
    then have "\<not> new_attempt V changes r k" using map_of_changes [OF assms(2), of r] by (auto simp: new_attempt_def)
    then show ?thesis using None r True by (simp add: attempt_at_def map_add_def)
  next
    case (Some d)
    then have d: "(r, d) \<in> set changes" by (simp add: map_of_changes [OF assms(2)])
    have u: "d' = d" if "(r, d') \<in> set changes" for d' using that Some map_of_changes [OF assms(2), of r d'] by simp
    have n: "new_attempt V changes r k \<longleftrightarrow> V r = None \<and> attempt_of d = Some k"
      unfolding new_attempt_def using True d u by blast
    have c: "change_ok V (r, d)" using assms(3) d by (simp add: list_all_iff)
    have "attempt_of d = attempt_of d'" if "V r = Some d'" for d'
      using evolves_outbox [of r d' d] True c store_ok_doc [OF assms(1) that] that by (simp add: change_ok_def)
    moreover have "(V ++ map_of (changes @ [(ctl, b)])) r = Some d" using Some r by (simp add: map_add_def)
    ultimately show ?thesis using n True by (cases "V r") (simp_all add: attempt_at_def)
  qed
next
  case False
  then show ?thesis by (simp add: attempt_at_def new_attempt_def)
qed

lemma attempts_same:
  assumes "attempts_ok V ep q" "\<And>r k. attempt_at V' r = Some k \<longleftrightarrow> attempt_at V r = Some k"
  shows "attempts_ok V' ep q"
proof -
  have "attempt_at V' = attempt_at V"
  proof
    fix r show "attempt_at V' r = attempt_at V r" using assms(2) [of r] by (cases "attempt_at V r"; cases "attempt_at V' r") auto
  qed
  then show ?thesis using assms(1) by (simp add: attempts_ok_def)
qed

lemma attempts_next:
  assumes "attempts_ok V ep q" "\<And>r k. attempt_at V' r = Some k \<longleftrightarrow> attempt_at V r = Some k \<or> r = r0 \<and> k = (ep, q + 1)"
  shows "attempts_ok V' ep (q + 1)"
proof -
  have bound: "ep' < ep \<or> ep' = ep \<and> q' \<le> q" if "attempt_at V r = Some (ep', q')" for r ep' q'
    using assms(1) that unfolding attempts_ok_def by blast
  have inj: "r = r'" if "attempt_at V r = Some k" "attempt_at V r' = Some k" for r r' k
    using assms(1) that unfolding attempts_ok_def by blast
  have full: "\<exists>r. attempt_at V r = Some (ep, q')" if "1 \<le> q'" "q' \<le> q" for q'
    using assms(1) that unfolding attempts_ok_def by blast
  have fresh: "attempt_at V r \<noteq> Some (ep, q + 1)" for r using bound [of r ep "q + 1"] by auto
  show ?thesis unfolding attempts_ok_def
  proof (intro conjI allI impI)
    fix r ep' q' assume "attempt_at V' r = Some (ep', q')"
    then show "ep' < ep \<or> ep' = ep \<and> q' \<le> q + 1" using bound [of r ep' q'] assms(2) [of r "(ep', q')"] by auto
  next
    fix r r' k assume "attempt_at V' r = Some k" "attempt_at V' r' = Some k"
    then show "r = r'" using inj [of r k r'] assms(2) [of r k] assms(2) [of r' k] fresh [of r] fresh [of r'] by auto
  next
    fix q' assume q': "1 \<le> q'" "q' \<le> q + 1"
    show "\<exists>r. attempt_at V' r = Some (ep, q')"
    proof (cases "q' = q + 1")
      case True
      then show ?thesis using assms(2) [of r0 "(ep, q + 1)"] by auto
    next
      case False
      then obtain r where "attempt_at V r = Some (ep, q')" using full [of q'] q' by auto
      then show ?thesis using assms(2) [of r "(ep, q')"] by blast
    qed
  qed
qed

lemma attempts_later:
  assumes "attempts_ok V ep q" "ep < ep'" "\<And>r k. attempt_at V' r = Some k \<longleftrightarrow> attempt_at V r = Some k"
  shows "attempts_ok V' ep' 0"
proof -
  have "attempts_ok V' ep q" by (rule attempts_same [OF assms(1,3)])
  then show ?thesis using assms(2) unfolding attempts_ok_def by fastforce
qed

lemma over_limits_0: "\<not> over_limits c n \<Longrightarrow> \<not> over_limits c 0"
  by (simp add: over_limits_def)

lemma plan_commit_Inr:
  assumes "plan_commit e s changes upd = Inr prepared"
  obtains c0 c n where "validate e s = Inr ()" "control_doc s = Inr c0" "charge s changes (assign upd c0) 0 = Inr (c, n)" "\<not> over_limits c n"
    "prepared = (if changes \<noteq> [] \<or> upd \<noteq> None then changes @ [(ctl, json_bytes c)] else [])"
    "list_all (\<lambda>(r, d). case jget (records s) r of Some x \<Rightarrow> version_ok (revision x + 1) | None \<Rightarrow> False) prepared"
  using assms unfolding plan_commit_def by (auto simp: Let_def split: if_splits)


lemma json_doc_Nil: "json_doc [] = Inl Thrown"
  by (simp add: json_doc_def bytes_json_def json_parse_def skip_ws_def)

lemma control_record:
  assumes "store_ok V" "agrees s V" "validate e s = Inr ()" "control_doc s = Inr c"
  shows "\<exists>x. jget (records s) ctl = Some x \<and> V ctl = Some (data x) \<and> json_doc (data x) = Inr c \<and> control_inv V c"
proof -
  obtain x where x: "jget (records s) ctl = Some x" "json_doc (data x) = Inr c"
    using assms(4) by (auto simp: control_doc_def require_Inr)
  have "holds V ctl x" using assms(2) x(1) by (simp add: agrees_def)
  then have "V ctl = Some (data x)" using x(2) by (auto simp: holds_def json_doc_Nil split: if_splits)
  then show ?thesis using x assms(1) by (simp add: store_ok_def)
qed

lemma accounts_ctl: "accounts (V(ctl \<mapsto> b)) c = accounts V c"
proof -
  have s: "stored_refs (V(ctl \<mapsto> b)) = stored_refs V" by (auto simp: stored_refs_def)
  moreover have "(\<Sum>r\<in>stored_refs V. int (length (the ((V(ctl \<mapsto> b)) r)))) = (\<Sum>r\<in>stored_refs V. int (length (the (V r))))"
    by (rule sum.cong) (auto simp: stored_refs_def)
  moreover have "open_refs (V(ctl \<mapsto> b)) = open_refs V" unfolding open_refs_def s by (auto simp: stored_refs_def)
  ultimately show ?thesis by (simp add: accounts_def)
qed

lemma attempts_update:
  assumes "store_ok V" "jwf changes" "list_all (change_ok V) changes" "update_ok V c0 c1 changes"
    and "control_position c0 = Some (ep, q)" "attempts_ok V ep q" "0 \<le> q" "1 \<le> ep"
  shows "\<exists>ep' q'. control_position c1 = Some (ep', q') \<and> 1 \<le> ep' \<and> 0 \<le> q' \<and> attempts_ok (V ++ map_of (changes @ [(ctl, b)])) ep' q'
    \<and> (ep < ep' \<or> ep = ep' \<and> q \<le> q' \<and> field c1 ''accountID'' = field c0 ''accountID'')"
proof -
  note after = attempt_at_after [OF assms(1-3), of b]
  from assms(4,5) obtain ep' q' where p: "control_position c1 = Some (ep', q')"
    and "ep' = ep \<and> q' = q \<and> kept [''accountID''] c0 c1 \<and> (\<forall>r k. \<not> new_attempt V changes r k)
        \<or> ep' = ep \<and> q' = q + 1 \<and> kept [''accountID''] c0 c1 \<and> (\<exists>r0. \<forall>r k. new_attempt V changes r k \<longleftrightarrow> r = r0 \<and> k = (ep, q + 1))
        \<or> ep < ep' \<and> q' = 0 \<and> (\<forall>r k. \<not> new_attempt V changes r k)"
    unfolding update_ok_def by blast
  then consider "ep' = ep" "q' = q" "kept [''accountID''] c0 c1" "\<forall>r k. \<not> new_attempt V changes r k"
    | r0 where "ep' = ep" "q' = q + 1" "kept [''accountID''] c0 c1" "\<forall>r k. new_attempt V changes r k \<longleftrightarrow> r = r0 \<and> k = (ep, q + 1)"
    | "ep < ep'" "q' = 0" "\<forall>r k. \<not> new_attempt V changes r k" by blast
  then show ?thesis
  proof cases
    case 1
    then show ?thesis using p assms(7,8) attempts_same [OF assms(6), of "V ++ map_of (changes @ [(ctl, b)])"] after by (simp add: kept_def)
  next
    case 2
    then show ?thesis using p assms(7,8) attempts_next [OF assms(6), of "V ++ map_of (changes @ [(ctl, b)])" r0] after by (simp add: kept_def)
  next
    case 3
    then show ?thesis using p assms(8) attempts_later [OF assms(6) 3(1), of "V ++ map_of (changes @ [(ctl, b)])"] after by simp
  qed
qed

lemma control_position_cong:
  "field c' ''accountEpoch'' = field c ''accountEpoch'' \<Longrightarrow> field c' ''nextAttempt'' = field c ''nextAttempt'' \<Longrightarrow> control_position c' = control_position c"
  by (simp add: control_position_def)

text \<open>The heart of the store: a commit planned from records that are still current keeps the invariant.\<close>

lemma commit_keeps:
  assumes V: "store_ok V" "agrees s V" and plan: "plan_commit e s changes upd = Inr prepared"
    and g: "\<And>c. control_doc s = Inr c \<Longrightarrow> good V c changes upd"
  shows "store_ok (V ++ map_of prepared) \<and> evolved V (V ++ map_of prepared) \<and> distinct (map fst prepared)
    \<and> list_all (\<lambda>(r, d). version_ok (snapshot_revision s r + 1)) prepared \<and> fst ` set prepared \<subseteq> set (jkeys (records s))"
proof -
  obtain c0 c n where p: "validate e s = Inr ()" "control_doc s = Inr c0" "charge s changes (assign upd c0) 0 = Inr (c, n)" "\<not> over_limits c n"
    "prepared = (if changes \<noteq> [] \<or> upd \<noteq> None then changes @ [(ctl, json_bytes c)] else [])"
    and ver: "list_all (\<lambda>(r, d). case jget (records s) r of Some x \<Rightarrow> version_ok (revision x + 1) | None \<Rightarrow> False) prepared"
    by (rule plan_commit_Inr [OF plan])
  obtain x where x: "jget (records s) ctl = Some x" "V ctl = Some (data x)" "json_doc (data x) = Inr c0" "control_inv V c0"
    using control_record [OF V p(1,2)] by blast
  have gd: "jwf changes" "list_all (change_ok V) changes" "update_ok V c0 (assign upd c0) changes" using g [OF p(2)] by (simp_all add: good_def)
  let ?c1 = "assign upd c0" and ?W = "V ++ map_of changes"
  have c1: "is_object ?c1" "accounts V ?c1" using gd(3) x(4) by (simp_all add: update_ok_def control_inv_def accounts_def kept_def)
  have fin: "finite (dom V)" and dist: "distinct (map fst changes)" using V(1) gd(1) by (simp_all add: store_ok_def jwf_def jkeys_def)
  have ch: "change_ok V (r, d)" if "(r, d) \<in> set changes" for r d using gd(2) that by (simp add: list_all_iff)
  have reopen: "open_doc d'" if "(r, d) \<in> set changes" "fst r = ''obligation''" "V r = Some d'" "open_doc d" for r d d'
    using evolves_open [of r d' d] ch [OF that(1)] store_ok_doc [OF V(1) that(3)] that by (simp add: change_ok_def)
  have hold: "holds V r y" if "jget (records s) r = Some y" for r y using V(2) that by (simp add: agrees_def)
  have ca: "is_object c \<and> accounts ?W c \<and> (\<forall>k. k \<notin> {''count'', ''bytes'', ''obligations''} \<longrightarrow> field c k = field ?c1 k)
    \<and> (\<forall>(r, d) \<in> set changes. validRef r \<and> d \<noteq> [] \<and> jhas (records s) r \<and> (fst r = ''obligation'' \<longrightarrow> (\<exists>o'. json_doc d = Inr o')))
    \<and> n = 0 + sum_list (map (\<lambda>(r, d). length d) changes)"
    by (rule charge_accounts [OF p(3) c1 fin dist hold reopen])
  note cf = ca [THEN conjunct2, THEN conjunct2, THEN conjunct1, rule_format]
  have refs: "validRef r \<and> jhas (records s) r" if "(r, d) \<in> set changes" for r d
    using ca [THEN conjunct2, THEN conjunct2, THEN conjunct2, THEN conjunct1] that by auto
  have noctl: "ctl \<notin> fst ` set changes" using refs validRef_ctl by fastforce
  have vs: "list_all (\<lambda>(r, d). version_ok (snapshot_revision s r + 1)) prepared"
    using ver by (auto simp: list_all_iff snapshot_revision_def split: option.splits)
  have ks: "fst ` set prepared \<subseteq> set (jkeys (records s))" using refs jhas_SomeI [OF x(1)] unfolding p(5) by (auto simp: jhas_iff)
  have dp: "distinct (map fst prepared)" using dist noctl unfolding p(5) by simp
  show ?thesis
  proof (cases "changes \<noteq> [] \<or> upd \<noteq> None")
    case False
    then show ?thesis using V(1) p(5) vs ks dp by simp
  next
    case True
    then have pr: "prepared = changes @ [(ctl, json_bytes c)]" using p(5) by simp
    let ?V' = "V ++ map_of prepared"
    have W: "?V' = ?W(ctl \<mapsto> json_bytes c)"
    proof
      fix r show "?V' r = (?W(ctl \<mapsto> json_bytes c)) r"
      proof (cases "r = ctl")
        case True
        have "map_of changes ctl = None" using noctl by (simp add: map_of_eq_None_iff)
        then show ?thesis using True by (simp add: pr map_add_def)
      next
        case False
        then show ?thesis by (simp add: pr map_add_def split: option.split)
      qed
    qed
    obtain ep q where eq: "control_position c0 = Some (ep, q)" "1 \<le> ep" "0 \<le> q" "attempts_ok V ep q" using x(4) by (auto simp: control_inv_def)
    obtain ep' q' where n: "control_position ?c1 = Some (ep', q')" "1 \<le> ep'" "0 \<le> q'" "attempts_ok ?V' ep' q'"
      "ep < ep' \<or> ep = ep' \<and> q \<le> q' \<and> field ?c1 ''accountID'' = field c0 ''accountID''"
      using attempts_update [OF V(1) gd eq(1,4,3,2), of "json_bytes c"] unfolding pr by blast
    have cp: "control_position c = Some (ep', q')" using n(1) control_position_cong [of c ?c1] cf by simp
    have jc: "json_doc (json_bytes c) = Inr c" using ca json_doc_object by blast
    have "control_inv ?V' c" unfolding control_inv_def
      using ca cp n over_limits_0 [OF p(4)] by (auto simp: W accounts_ctl)
    moreover have docs: "document_ok r d \<and> (\<forall>d0. V r = Some d0 \<longrightarrow> evolves r d0 d)" if "?V' r = Some d" for r d
    proof (cases "r = ctl")
      case True
      then have d: "d = json_bytes c" using that by (simp add: W)
      have "control_evolves c0 c" unfolding control_evolves_def using eq(1) cp n(5) cf by auto
      then show ?thesis using True d jc x(2,3) by (auto simp: document_ok_def evolves_def ctl_def)
    next
      case False
      then have "?W r = Some d" using that by (simp add: W)
      then show ?thesis using store_ok_doc [OF V(1), of r] ch [of r] by (auto simp: map_add_Some_iff map_of_changes [OF gd(1)] change_ok_def)
    qed
    moreover have "evolved V ?V'"
      unfolding evolved_def
    proof (intro allI impI)
      fix r d assume d: "V r = Some d"
      then obtain d' where d': "?V' r = Some d'" by (cases "map_of prepared r") (auto simp: map_add_def)
      from docs [OF d'] d d' show "\<exists>d'. ?V' r = Some d' \<and> evolves r d d'" by simp
    qed
    moreover have "finite (dom ?V')" using fin by (simp add: finite_dom_map_of)
    moreover have "?V' ctl = Some (json_bytes c)" by (simp add: W)
    ultimately have "store_ok ?V'" using jc unfolding store_ok_def by auto
    then show ?thesis using \<open>evolved V ?V'\<close> dp vs ks by blast
  qed
qed

end
