(* ===== verification/Ratchet_Guarantee.thy ===== *)
theory Ratchet_Guarantee
  imports Ratchet_Accounts
begin

text \<open>
  The guarantee every operation of the store keeps, whatever other tabs do in between: for every
  namespace of the database its invariant, growing generations and revisions, and evolving documents. A
  snapshot is genuine when its records are the current ones wherever their revisions still
  are. Reading gives genuine snapshots, and a commit whose plan is \<open>allowed\<close> keeps the
  guarantee.
\<close>

declare split_paired_All [simp del] split_paired_Ex [simp del]

section \<open>Databases, snapshots and the guarantee of every operation\<close>

abbreviation gen :: "db \<Rightarrow> int" where
  "gen D \<equiv> generation (current_fence D)"

definition signed_out_empty :: "db \<Rightarrow> bool" where
  "signed_out_empty D \<longleftrightarrow> (\<not> active (current_fence D) \<longrightarrow> ratchet_recs D = [] \<and> sealed_recs D = [] \<and> identity_rec D = None)"

definition db_inv :: "store_env \<Rightarrow> db \<Rightarrow> bool" where
  "db_inv e D \<longleftrightarrow> jwf (ratchet_recs D) \<and> readable e D \<and> store_ok (docs e D) \<and> signed_out_empty D"

text \<open>Generations only grow, the wrapping key stays, and within a generation revisions only grow, a
  record with the same revision is the same record, and every document evolves.\<close>

definition same_generation :: "store_env \<Rightarrow> db \<Rightarrow> db \<Rightarrow> bool" where
  "same_generation e D D' \<longleftrightarrow> active (current_fence D') = active (current_fence D)
     \<and> (\<forall>r. current_revision e D r \<le> current_revision e D' r \<and> (current_revision e D r = current_revision e D' r \<longrightarrow> view e D' r = view e D r))
     \<and> evolved (docs e D) (docs e D')"

definition later :: "store_env \<Rightarrow> db \<Rightarrow> db \<Rightarrow> bool" where
  "later e D D' \<longleftrightarrow> gen D \<le> gen D' \<and> (wrapping_key D \<noteq> None \<longrightarrow> wrapping_key D' = wrapping_key D)
     \<and> (gen D = gen D' \<longrightarrow> same_generation e D D')"

text \<open>The namespaces of one database share its cipher: the guarantee is about all of them.\<close>

definition keeps :: "store_env \<Rightarrow> db \<Rightarrow> db \<Rightarrow> bool" where
  "keeps e D D' \<longleftrightarrow> (db_inv e D \<longrightarrow> db_inv e D' \<and> later e D D')"

definition guar :: "store_env \<Rightarrow> db \<Rightarrow> db \<Rightarrow> bool" where
  "guar e D D' \<longleftrightarrow> (\<forall>e'. env_cipher e' = env_cipher e \<longrightarrow> keeps e' D D')"

lemma later_refl [simp]: "later e D D"
  by (simp add: later_def same_generation_def)

lemma same_generation_trans:
  assumes "same_generation e A B" "same_generation e B C"
  shows "same_generation e A C"
proof -
  have "current_revision e A r \<le> current_revision e C r \<and> (current_revision e A r = current_revision e C r \<longrightarrow> view e C r = view e A r)" for r
  proof -
    have "current_revision e A r \<le> current_revision e B r" "current_revision e A r = current_revision e B r \<longrightarrow> view e B r = view e A r"
      "current_revision e B r \<le> current_revision e C r" "current_revision e B r = current_revision e C r \<longrightarrow> view e C r = view e B r"
      using assms by (auto simp: same_generation_def)
    then show ?thesis by auto
  qed
  then show ?thesis using assms evolved_trans by (auto simp: same_generation_def)
qed

lemma later_trans: "later e A B \<Longrightarrow> later e B C \<Longrightarrow> later e A C"
  unfolding later_def using same_generation_trans by (metis order_antisym order_trans)

interpretation rs: guarantee "guar e" for e
  by unfold_locales (simp add: guar_def keeps_def)

lemma guar_keeps: "guar e D D' \<Longrightarrow> keeps e D D'"
  by (simp add: guar_def)

lemma decode_at_cong: "namespace e' = namespace e \<Longrightarrow> env_cipher e' = env_cipher e \<Longrightarrow> decode_at e' D r = decode_at e D r"
  by (auto simp: decode_at_def decode_def raw_get_def aad_def split: option.split)

lemma keeps_cong:
  assumes "namespace e' = namespace e" "env_cipher e' = env_cipher e"
  shows "keeps e' D D' = keeps e D D'"
proof -
  have v: "view e' D = view e D" for D by (rule ext) (simp add: view_def decode_at_cong [OF assms])
  then have d: "docs e' D = docs e D" for D by (simp add: docs_def fun_eq_iff)
  have r: "raw_get e' D = raw_get e D" for D by (simp add: raw_get_def fun_eq_iff assms(1))
  then have c: "current_revision e' D = current_revision e D" for D by (simp add: current_revision_def fun_eq_iff)
  have "db_inv e' D = db_inv e D" for D by (simp add: db_inv_def readable_def d r decode_at_cong [OF assms])
  then show ?thesis by (simp add: keeps_def later_def same_generation_def v d c)
qed

text \<open>A transaction that leaves the records of a namespace, the key and the fence alone keeps its guarantee.\<close>

lemma keeps_frame:
  assumes "\<And>r. raw_get e D' r = raw_get e D r" "\<And>r. raw_get e D r \<noteq> None \<Longrightarrow> wrapping_key D' = wrapping_key D"
    and "wrapping_key D \<noteq> None \<Longrightarrow> wrapping_key D' = wrapping_key D" "current_fence D' = current_fence D"
    and "jwf (ratchet_recs D) \<Longrightarrow> jwf (ratchet_recs D')" "signed_out_empty D \<Longrightarrow> signed_out_empty D'"
  shows "keeps e D D'"
proof -
  have v: "view e D' = view e D" "decode_at e D' = decode_at e D" using view_cong [OF assms(1,2)] by (simp_all add: fun_eq_iff)
  have d: "docs e D' = docs e D" by (simp add: docs_def fun_eq_iff v)
  have "current_revision e D' = current_revision e D" by (simp add: current_revision_def fun_eq_iff assms(1))
  then show ?thesis using assms(3-6) unfolding keeps_def db_inv_def readable_def later_def same_generation_def v d assms(1) by simp
qed

lemma guar_namespace:
  assumes "keeps e D D'" "\<And>n r. n \<noteq> namespace e \<Longrightarrow> jget (ratchet_recs D') (n, r) = jget (ratchet_recs D) (n, r)"
    and "wrapping_key D' = wrapping_key D" "current_fence D' = current_fence D"
    and "jwf (ratchet_recs D) \<Longrightarrow> jwf (ratchet_recs D')" "signed_out_empty D \<Longrightarrow> signed_out_empty D'"
  shows "guar e D D'"
  unfolding guar_def
proof (intro allI impI)
  fix e' :: store_env assume c: "env_cipher e' = env_cipher e"
  show "keeps e' D D'"
  proof (cases "namespace e' = namespace e")
    case True
    then show ?thesis using keeps_cong [OF True c] assms(1) by simp
  next
    case False
    then show ?thesis by (intro keeps_frame) (use assms(2-6) in \<open>simp_all add: raw_get_def\<close>)
  qed
qed

definition genuine :: "store_env \<Rightarrow> snapshot \<Rightarrow> db \<Rightarrow> bool" where
  "genuine e s D \<longleftrightarrow> sn_namespace s = namespace e \<and> jwf (records s) \<and> wrapping_key D \<noteq> None \<and> generation (sn_fence s) \<le> gen D
     \<and> (generation (sn_fence s) = gen D \<longrightarrow> (\<forall>r x. jget (records s) r = Some x \<longrightarrow>
          revision x \<le> current_revision e D r \<and> (revision x = current_revision e D r \<longrightarrow> holds (docs e D) r x)))"

definition known :: "store_env \<Rightarrow> snapshot set \<Rightarrow> db \<Rightarrow> bool" where
  "known e S D \<longleftrightarrow> db_inv e D \<and> (\<forall>s \<in> S. genuine e s D)"

lemma genuine_later:
  assumes "genuine e s D" "later e D D'"
  shows "genuine e s D'"
proof -
  have "revision x \<le> current_revision e D' r \<and> (revision x = current_revision e D' r \<longrightarrow> holds (docs e D') r x)"
    if g: "generation (sn_fence s) = gen D'" and x: "jget (records s) r = Some x" for r x
  proof -
    have eq: "gen D = gen D'" "generation (sn_fence s) = gen D" using assms g by (auto simp: genuine_def later_def)
    have s: "revision x \<le> current_revision e D r" "revision x = current_revision e D r \<longrightarrow> holds (docs e D) r x"
      using assms(1) eq(2) x by (auto simp: genuine_def)
    have l: "current_revision e D r \<le> current_revision e D' r" "current_revision e D r = current_revision e D' r \<longrightarrow> view e D' r = view e D r"
      using assms(2) eq(1) by (auto simp: later_def same_generation_def)
    show ?thesis using s l by (auto simp: holds_def docs_def)
  qed
  then show ?thesis using assms by (auto simp: genuine_def later_def)
qed

lemma known_stable [simp]: "stable (guar e) (known e S)"
  unfolding stable_def known_def using genuine_later guar_keeps unfolding keeps_def by blast

lemma known_mono: "known e S D \<Longrightarrow> T \<subseteq> S \<Longrightarrow> known e T D"
  by (auto simp: known_def)

section \<open>Reading and committing keep the guarantee\<close>

lemma write_prepared_other: "n \<noteq> namespace e \<Longrightarrow> jget (ratchet_recs (write_prepared e k iv s ps D)) (n, r) = jget (ratchet_recs D) (n, r)"
  by (induction e k iv s ps D rule: write_prepared.induct) (simp_all add: put_ratchet_def jget_jset)

lemma decode_all_sound:
  assumes "decode_all e D refs m n = Inr m'" "jwf m" "\<And>r x. jget m r = Some x \<Longrightarrow> decode_at e D r = Inr x"
  shows "jwf m' \<and> (\<forall>r x. jget m' r = Some x \<longrightarrow> decode_at e D r = Inr x)"
  using assms
proof (induction e D refs m n rule: decode_all.induct)
  case (2 e D r rs m n)
  obtain x where x: "decode_at e D r = Inr x" "decode_all e D rs (jset r x m) (n + length (data x)) = Inr m'"
    "\<not> n + length (data x) > Limits_batch"
    using "2.prems"(1) by (auto split: if_splits)
  have "jwf (jset r x m)" using "2.prems"(2) by simp
  moreover have "decode_at e D r' = Inr x'" if "jget (jset r x m) r' = Some x'" for r' x'
    using that x(1) "2.prems"(3) [of r' x'] by (simp add: jget_jset split: if_splits)
  ultimately show ?case using "2.IH" [OF x(3,2)] by blast
qed simp

lemma decode_at_current:
  assumes "readable e D" "decode_at e D r = Inr x"
  shows "revision x = current_revision e D r \<and> holds (docs e D) r x"
proof (cases "raw_get e D r")
  case None
  then show ?thesis using assms(2) by (auto simp: decode_at_None current_revision_def holds_def docs_def view_def)
next
  case (Some y)
  then obtain d where "x = \<lparr>revision = rec_revision y, data = d\<rparr>" "view e D r = Some (rec_revision y, d)" "version_ok (rec_revision y)"
    using view_present [OF assms(1) Some] assms(2) by auto
  then show ?thesis using Some by (auto simp: current_revision_def holds_def docs_def version_ok_def)
qed

lemma take_snapshot_genuine:
  assumes "take_snapshot e refs D = Inr s" "db_inv e D"
  shows "genuine e s D \<and> gen D = generation (sn_fence s)"
proof -
  obtain m where m: "decode_all e D (ctl # refs) [] 0 = Inr m" "s = \<lparr>sn_namespace = namespace e, sn_fence = current_fence D, records = m\<rparr>"
    using assms(1) by (auto simp: take_snapshot_def split: if_splits option.splits)
  have d: "jwf m \<and> (\<forall>r x. jget m r = Some x \<longrightarrow> decode_at e D r = Inr x)" by (rule decode_all_sound [OF m(1)]) simp_all
  have "revision x = current_revision e D r \<and> holds (docs e D) r x" if "jget m r = Some x" for r x
    using decode_at_current [of e D r x] d that assms(2) by (simp add: db_inv_def)
  moreover have "wrapping_key D \<noteq> None"
  proof -
    obtain x where "jget m ctl = Some x" "revision x \<noteq> 0" using assms(1) m(1) by (auto simp: take_snapshot_def split: if_splits option.splits)
    then have "decode_at e D ctl = Inr x" "revision x \<noteq> 0" using d by auto
    then show ?thesis by (auto simp: decode_at_def decode_def split: option.splits if_splits)
  qed
  ultimately show ?thesis using d by (simp add: genuine_def m(2))
qed

lemma rg_read: "rg (guar e) (known e S) (\<lambda>s. known e (insert s S)) (read e refs)"
  unfolding read_def
proof (rule rg_bind [where Q = "\<lambda>_. known e S"])
  show "rg (guar e) (known e S) (\<lambda>_. known e S) (Ret (validateRefs refs))" by (rule rg_Ret)
  show "rg (guar e) (known e S) (\<lambda>s. known e (insert s S)) (look (take_snapshot e refs))" for a :: unit
    by (rule rs.rg_look) (auto simp: known_def dest: take_snapshot_genuine)
qed simp


definition alike :: "snapshot \<Rightarrow> snapshot \<Rightarrow> bool" where  \<comment> \<open>a snapshot of the same generation with the same revisions\<close>
  "alike s' s \<longleftrightarrow> s' = s \<or> generation (sn_fence s') = generation (sn_fence s) \<and> compare s' s = Inr ()"

text \<open>The operation's plan is judged against the records that are current when it commits: every
  snapshot it took them from, and found unchanged, agrees with them.\<close>

definition allowed :: "store_env \<Rightarrow> snapshot set \<Rightarrow> snapshot \<Rightarrow> (ref, bytes) jmap \<Rightarrow> (string \<times> jsv) list option \<Rightarrow> bool" where
  "allowed e S s changes upd \<longleftrightarrow> (\<forall>V c prepared. plan_commit e s changes upd = Inr prepared \<longrightarrow> store_ok V \<longrightarrow> (\<forall>s' \<in> S. alike s' s \<longrightarrow> agrees s' V) \<longrightarrow> control_doc s = Inr c \<longrightarrow> control_inv V c
     \<longrightarrow> good V c changes upd)"

lemma agrees_current:
  assumes "genuine e s' D" "gen D = generation (sn_fence s)" "alike s' s"
    and "\<And>r x. (r, x) \<in> set (records s) \<Longrightarrow> current_revision e D r = revision x"
  shows "agrees s' (docs e D)"
  unfolding agrees_def
proof (intro allI impI)
  fix r x assume x: "jget (records s') r = Some x"
  have "(r, x) \<in> set (records s')" using x by (rule jget_in)
  then have "map_option revision (jget (records s) r) = Some (revision x)"
    using assms(3) x by (auto simp: alike_def compare_def ensure_def list_all_iff split: if_splits)
  then obtain y where y: "jget (records s) r = Some y" "revision y = revision x" by auto
  have "revision x = current_revision e D r" using assms(4) [OF jget_in [OF y(1)]] y(2) by simp
  then show "holds (docs e D) r x" using assms(1-3) x by (auto simp: genuine_def alike_def)
qed

lemma commit_txn_guar:
  assumes k: "known e S D" "s \<in> S" "cipher_inverts (env_cipher e)"
    and plan: "plan_commit e s changes upd = Inr prepared" and a: "allowed e S s changes upd"
  shows "guar e D (fst (commit_txn e iv s prepared D))"
proof (cases "prepared = [] \<or> snd (commit_txn e iv s prepared D) \<noteq> Inr ()")
  case True
  then have "fst (commit_txn e iv s prepared D) = D" by (auto simp: commit_txn_def split: if_splits option.splits)
  then show ?thesis by (simp add: rs.G_refl)
next
  case False
  then obtain key where key: "wrapping_key D = Some key" and act: "active (current_fence D)" "gen D = generation (sn_fence s)"
    and rev: "\<And>r x. (r, x) \<in> set (records s) \<Longrightarrow> current_revision e D r = revision x"
    and D': "fst (commit_txn e iv s prepared D) = write_prepared e key iv s prepared D"
    by (auto simp: commit_txn_def list_ex_iff split: if_splits option.splits)
  have inv: "jwf (ratchet_recs D)" "readable e D" "store_ok (docs e D)" using k by (auto simp: known_def db_inv_def)
  have ag: "agrees s' (docs e D)" if "s' \<in> S" "alike s' s" for s'
    using agrees_current [OF _ act(2) that(2) rev] k(1) that(1) by (auto simp: known_def)
  have self: "alike s s" by (simp add: alike_def)
  have val: "validate e s = Inr ()" by (rule plan_commit_Inr [OF plan])
  have good: "good (docs e D) c changes upd" if "control_doc s = Inr c" for c
    using a plan inv(3) ag that control_record [OF inv(3) ag [OF k(2) self] val that] unfolding allowed_def by blast
  note ck = commit_keeps [OF inv(3) ag [OF k(2) self] plan good]
  let ?D' = "write_prepared e key iv s prepared D"
  have sr: "snapshot_revision s r = current_revision e D r" if "r \<in> fst ` set prepared" for r
  proof -
    have "r \<in> set (jkeys (records s))" using ck that by blast
    then obtain x where "jget (records s) r = Some x" using jget_Some_iff_in_keys [of r "records s"] by auto
    then show ?thesis using rev [OF jget_in] by (simp add: snapshot_revision_def)
  qed
  have vw: "view e ?D' r = (case map_of prepared r of Some d \<Rightarrow> Some (current_revision e D r + 1, d) | None \<Rightarrow> view e D r)" for r
  proof -
    have "snapshot_revision s r = current_revision e D r" if "map_of prepared r = Some d" for d
      using sr [of r] map_of_SomeD [OF that] by (metis fst_conv image_eqI)
    then show ?thesis using write_prepared_view(1) [OF k(3) key, of prepared s iv r] ck by (simp split: option.splits)
  qed
  have rd: "readable e ?D'" using write_prepared_view(2) [OF k(3) key] ck inv(2) by blast
  have dc: "docs e ?D' = docs e D ++ map_of prepared"
    by (rule ext) (simp add: docs_def vw map_add_def split: option.splits)
  have cr: "current_revision e ?D' r = current_revision e D r + (if map_of prepared r = None then 0 else 1)" for r
    using current_revision_view [OF rd, of r] current_revision_view [OF inv(2), of r] by (simp add: vw split: option.splits)
  have "same_generation e D ?D'"
    using ck by (auto simp: same_generation_def cr vw dc split: option.splits)
  moreover have "db_inv e ?D'" using inv rd ck act(1) by (simp add: db_inv_def dc signed_out_empty_def)
  ultimately have "keeps e D ?D'" by (simp add: keeps_def later_def)
  then show ?thesis unfolding D'
    by (rule guar_namespace) (use act(1) in \<open>simp_all add: signed_out_empty_def write_prepared_other\<close>)
qed

lemma rg_commit:
  assumes "s \<in> S" "cipher_inverts (env_cipher e)" "allowed e S s changes upd"
  shows "rg (guar e) (known e S) (\<lambda>_. known e S) (commit e iv s changes upd)"
proof (cases "plan_commit e s changes upd")
  case (Inr prepared)
  have "rg (guar e) (known e S) (\<lambda>_. known e S) (Atomic (\<lambda>D. apsnd Ret (commit_txn e iv s prepared D)))"
  proof (rule rs.rg_txn)
    fix D assume K: "known e S D"
    have g: "guar e D (fst (commit_txn e iv s prepared D))" by (rule commit_txn_guar [OF K assms(1,2) Inr assms(3)])
    then have "known e S (fst (commit_txn e iv s prepared D))" using K known_stable [of e S] unfolding stable_def by blast
    then show "\<exists>r. snd (apsnd Ret (commit_txn e iv s prepared D)) = Ret r \<and> guar e D (fst (apsnd Ret (commit_txn e iv s prepared D)))
      \<and> (\<forall>a. r = Inr a \<longrightarrow> known e S (fst (apsnd Ret (commit_txn e iv s prepared D))))" using g by simp
  qed simp
  then show ?thesis by (simp add: commit_def Inr)
qed (simp add: commit_def)

lemma allowed_empty: "allowed e S s [] None"
  unfolding allowed_def good_def update_ok_def assign_def
  by (auto simp: control_inv_def kept_def new_attempt_def jwf_def jkeys_def)

lemmas rg_commit_empty = rg_commit [OF _ _ allowed_empty]

end
