(* ===== verification/Ratchet_Operations.thy ===== *)
theory Ratchet_Operations
  imports Ratchet_Guarantee
begin

text \<open>
  The operations of \<^verbatim>\<open>src/mobile/src/core/ratchet-store.js\<close> other than sending and promotion keep the
  guarantee of the store, each at every transaction and whatever other tabs do between them: what it
  writes is a document of its kind, derived from the records it read and found unchanged.
\<close>

declare split_paired_All [simp del] split_paired_Ex [simp del]

section \<open>Documents that operations write\<close>

lemma js_wf_field: "js_wf v \<Longrightarrow> js_wf (field v k)"
  by (cases v) (auto simp: list_all_iff split: option.splits dest: map_of_SomeD)

lemma json_ok_field: "json_ok v \<Longrightarrow> field v k \<noteq> JUndef \<Longrightarrow> json_ok (field v k)"
  by (cases v) (auto simp: list_all_iff split: option.splits dest: map_of_SomeD)

lemma json_doc_JObj: "js_wf (JObj fs) \<Longrightarrow> json_doc (json_bytes (JObj fs)) = Inr (norm (JObj fs))"
  by (rule json_doc_bytes) simp_all

lemma field_norm_JObj: "js_wf (JObj fs) \<Longrightarrow> field (norm (JObj fs)) k = (if field (JObj fs) k = JUndef then JUndef else norm (field (JObj fs) k))"
  by (rule field_norm) simp

lemma truthy_norm: "(\<forall>b. v \<noteq> JBytes b) \<Longrightarrow> truthy (norm v) = truthy v"
  by (cases v) simp_all

lemma stringify_norm [simp]: "stringify (norm v) = stringify v"
  by (simp add: stringify_def)

lemma json_doc_set_field:
  assumes "json_doc d = Inr b" "js_wf v"
  shows "\<exists>b'. json_doc (json_bytes (set_field k v b)) = Inr b' \<and> (\<forall>k'. k' \<noteq> k \<longrightarrow> field b' k' = field b k')"
proof -
  have ok: "json_ok b" and nn: "b \<noteq> JNull" using json_doc_ok [OF assms(1)] assms(1) by (auto simp: json_doc_def split: option.splits if_splits)
  show ?thesis
  proof (cases "\<exists>fs. b = JObj fs")
    case True
    then obtain fs where b: "b = JObj fs" by blast
    have "jwf fs" "list_all (\<lambda>(k, v). js_wf v) fs" using js_wf_json_ok [OF ok] by (simp_all add: b jwf_def jkeys_def)
    then have wf: "js_wf (JObj (jset k v fs))"
      using jwf_jset [of fs k v] assms(2) by (auto simp: jwf_def jkeys_def list_all_iff dest!: set_jset_cases)
    have "field (norm (JObj (jset k v fs))) k' = field b k'" if "k' \<noteq> k" for k'
    proof -
      have "field (JObj (jset k v fs)) k' = field b k'" using jget_jset [of k v fs k'] that by (simp add: b jget_def)
      then show ?thesis using json_ok_field [OF ok, of k'] norm_id unfolding field_norm_JObj [OF wf] by auto
    qed
    then show ?thesis using json_doc_JObj [OF wf] by (simp add: b)
  next
    case False
    then have "set_field k v b = b" by (cases b) simp_all
    moreover have "json_doc (json_bytes b) = Inr b"
      using json_doc_bytes [OF js_wf_json_ok [OF ok] nn] ok norm_id [OF ok] by (cases b) auto
    ultimately show ?thesis by auto
  qed
qed

lemma members_field: "field (JObj (members b)) k = field b k"
  by (cases b) (simp_all add: members_def)

lemma field_jset: "field (JObj (jset k v fs)) k' = (if k' = k then v else field (JObj fs) k')"
  using jget_jset [of k v fs k'] by (simp add: jget_def)

lemma field_merge:
  "field (merge_fields b (JObj [])) k = field b k"
  "field (merge_fields b (JObj ((k1, v1) # us))) k = field (merge_fields (JObj (jset k1 v1 (members b))) (JObj us)) k"
  by (simp_all add: merge_fields_def members_def [of "JObj x" for x] members_field del: field.simps)

lemma js_wf_members: "js_wf b \<Longrightarrow> js_wf (JObj (members b))"
  by (cases b) (simp_all add: members_def)

lemma js_wf_jset: "js_wf (JObj fs) \<Longrightarrow> js_wf v \<Longrightarrow> js_wf (JObj (jset k v fs))"
  using jwf_jset [of fs k v] by (auto simp: jwf_def jkeys_def list_all_iff dest!: set_jset_cases)

lemma js_wf_fold_jset: "js_wf (JObj fs) \<Longrightarrow> list_all (\<lambda>(k, v). js_wf v) us \<Longrightarrow> js_wf (JObj (fold (\<lambda>(k, v). jset k v) us fs))"
  by (induction us arbitrary: fs) (auto simp del: js_wf.simps(2) intro: js_wf_jset)

lemma js_wf_merge: "js_wf b \<Longrightarrow> list_all (\<lambda>(k, v). js_wf v) us \<Longrightarrow> js_wf (merge_fields b (JObj us))"
  unfolding merge_fields_def by (rule js_wf_fold_jset [OF js_wf_members]) (simp_all add: members_def)

lemma merge_is_object: "\<exists>fs. merge_fields b c = JObj fs"
  by (simp add: merge_fields_def)

lemma json_doc_merge:
  assumes "js_wf b" "list_all (\<lambda>(k, v). js_wf v) us"
  shows "json_doc (json_bytes (merge_fields b (JObj us))) = Inr (norm (merge_fields b (JObj us)))"
    and "field (norm (merge_fields b (JObj us))) k = (if field (merge_fields b (JObj us)) k = JUndef then JUndef else norm (field (merge_fields b (JObj us)) k))"
  using js_wf_merge [OF assms] merge_is_object [of b "JObj us"] json_doc_JObj field_norm_JObj by (metis, metis)

lemma norm_old: "json_ok b \<Longrightarrow> (if field b k = JUndef then JUndef else norm (field b k)) = field b k"
  using json_ok_field [of b k] norm_id by auto


section \<open>Rules for operations\<close>

lemma rg_Ret_bind: "(\<And>a. r = Inr a \<Longrightarrow> rg G K Q (f a)) \<Longrightarrow> rg G K Q (bind (Ret r) f)"
  by (cases r) simp_all

lemma rg_done [simp]: "rg G K (\<lambda>_ _. True) (Ret r)"
  by (rule rg_Ret) simp

lemma rg_True: "rg G K Q p \<Longrightarrow> rg G K (\<lambda>_ _. True) p"
  by (rule rg_post) simp_all

lemma rg_read_bind:
  assumes "\<And>t. rg (guar e) (known e (insert t S)) Q (f t)"
  shows "rg (guar e) (known e S) Q (bind (read e refs) f)"
  by (rule rg_bind [OF rg_read]) (simp_all add: assms)

lemma rg_extended:
  "rg (guar e) (known e S) (\<lambda>t D. known e (insert t S) D \<and> generation (sn_fence t) = generation (sn_fence s)) (extended e s refs)"
  unfolding extended_def by (rule rg_Ret_bind, rule rg_read_bind) (auto intro: rg_Ret)

lemma rg_extended_bind:
  assumes "\<And>t. generation (sn_fence t) = generation (sn_fence s) \<Longrightarrow> rg (guar e) (known e (insert t S)) Q (f t)"
  shows "rg (guar e) (known e S) Q (bind (extended e s refs) f)"
proof (rule rg_bind [OF rg_extended])
  fix t show "rg (guar e) (\<lambda>D. known e (insert t S) D \<and> generation (sn_fence t) = generation (sn_fence s)) Q (f t)"
    using assms rg_pre rg_False by (cases "generation (sn_fence t) = generation (sn_fence s)") (fastforce, fastforce)
qed (simp add: stable_conj)

lemma rg_commit_bind:
  assumes "s \<in> S" "cipher_inverts (env_cipher e)" "allowed e S s changes upd" "\<And>u. rg (guar e) (known e S) Q (f u)"
  shows "rg (guar e) (known e S) Q (bind (commit e iv s changes upd) f)"
  by (rule rg_bind [OF rg_commit [OF assms(1-3)]]) (simp_all add: assms(4))

lemmas rg_empty_bind = rg_commit_bind [OF _ _ allowed_empty]

lemma charge_refs: "charge s chs c n = Inr res \<Longrightarrow> r \<in> fst ` set chs \<Longrightarrow> jhas (records s) r"
proof (induction chs arbitrary: c n)
  case (Cons ch chs)
  obtain r' d where ch: "ch = (r', d)" by (cases ch)
  from charge_Cons [OF Cons.prems(1) [unfolded ch]] obtain old c3 where "jget (records s) r' = Some old" "charge s chs c3 (n + length d) = Inr res" by blast
  then show ?case using Cons jhas_SomeI by (auto simp: ch)
qed simp

lemma allowedI:
  assumes "\<And>V c. store_ok V \<Longrightarrow> (\<And>s'. s' \<in> S \<Longrightarrow> alike s' s \<Longrightarrow> agrees s' V) \<Longrightarrow> control_doc s = Inr c \<Longrightarrow> control_inv V c
    \<Longrightarrow> (\<And>r. r \<in> fst ` set changes \<Longrightarrow> jhas (records s) r) \<Longrightarrow> good V c changes upd"
  shows "allowed e S s changes upd"
proof -
  have "jhas (records s) r" if "plan_commit e s changes upd = Inr p" "r \<in> fst ` set changes" for p r
    by (rule plan_commit_Inr [OF that(1)]) (use charge_refs that(2) in blast)
  then show ?thesis unfolding allowed_def using assms by blast
qed

lemma alike_self [simp]: "alike s s"
  by (simp add: alike_def)

lemma alikeI: "generation (sn_fence t) = generation (sn_fence s) \<Longrightarrow> compare s t = Inr () \<Longrightarrow> alike s t"
  by (simp add: alike_def)

lemma agrees_require: "agrees s V \<Longrightarrow> require s r = Inr x \<Longrightarrow> holds V r x"
  by (simp add: agrees_def require_Inr)

lemma holds_data: "holds V r x \<Longrightarrow> V r = Some d \<Longrightarrow> d = data x \<and> revision x \<noteq> 0"
  by (auto simp: holds_def split: if_splits)

lemma holds_new: "holds V r x \<Longrightarrow> revision x = 0 \<Longrightarrow> V r = None"
  by (simp add: holds_def)

lemma require_docD: "require_doc s r = Inr v \<Longrightarrow> \<exists>x. require s r = Inr x \<and> revision x \<noteq> 0 \<and> json_doc (data x) = Inr v"
  by (auto simp: require_doc_def split: if_splits)

definition old_attempt :: "(ref \<Rightarrow> bytes option) \<Rightarrow> ref \<times> bytes \<Rightarrow> bool" where
  "old_attempt V ch \<longleftrightarrow> (fst (fst ch) = ''outbox'' \<longrightarrow> V (fst ch) \<noteq> None \<or> attempt_of (snd ch) = None)"

lemma no_new_attempt: "list_all (old_attempt V) changes \<Longrightarrow> \<not> new_attempt V changes r k"
  by (auto simp: new_attempt_def old_attempt_def list_all_iff)

lemma good_none:
  assumes "jwf changes" "list_all (change_ok V) changes" "list_all (old_attempt V) changes" "control_inv V c"
  shows "good V c changes None"
  using assms no_new_attempt [OF assms(3)] by (simp add: good_def update_ok_def assign_def kept_def control_inv_def)

text \<open>An update of fields that carry neither the counts nor the position.\<close>

lemma assign_is_object: "is_object c \<Longrightarrow> list_all (\<lambda>(k, v). json_ok v) u \<Longrightarrow> is_object (assign (Some u) c)"
  by (induction u arbitrary: c) (auto simp: assign_def is_object_set_field)

lemma assign_field: "is_object c \<Longrightarrow> list_all (\<lambda>(k, v). json_ok v) u \<Longrightarrow> k \<notin> fst ` set u \<Longrightarrow> field (assign (Some u) c) k = field c k"
proof (induction u arbitrary: c)
  case (Cons a u)
  obtain k' v where a: "a = (k', v)" by (cases a)
  have "field (assign (Some u) (set_field k' v c)) k = field (set_field k' v c) k"
    using Cons by (intro Cons.IH) (auto simp: a is_object_set_field)
  then show ?case using Cons.prems by (simp add: a assign_def field_set_field)
qed (simp add: assign_def)

lemma good_quiet:
  assumes "jwf changes" "list_all (change_ok V) changes" "list_all (old_attempt V) changes" "control_inv V c"
    and "list_all (\<lambda>(k, v). json_ok v) u" "set [''count'', ''bytes'', ''obligations'', ''accountEpoch'', ''nextAttempt'', ''accountID''] \<inter> fst ` set u = {}"
  shows "good V c changes (Some u)"
proof -
  have o: "is_object c" using assms(4) by (simp add: control_inv_def)
  have f: "field (assign (Some u) c) k = field c k" if "k \<in> set [''count'', ''bytes'', ''obligations'', ''accountEpoch'', ''nextAttempt'', ''accountID'']" for k
    using assign_field [OF o assms(5), of k] assms(6) that by blast
  have "control_position (assign (Some u) c) = control_position c" by (rule control_position_cong) (rule f, simp)+
  then show ?thesis using assms(1-4) no_new_attempt [OF assms(3)] assign_is_object [OF o assms(5)] f
    by (simp add: good_def update_ok_def kept_def)
qed

lemma new_change:
  assumes "V r = None" "document_ok r d"
  shows "change_ok V (r, d)"
  using assms by (simp add: change_ok_def)

lemma free_change:
  assumes "fst r \<in> {''account'', ''logical'', ''publication''}" "document_ok r d"
  shows "change_ok V (r, d)"
  using assms by (auto simp: change_ok_def evolves_def)

text \<open>A document of a kind that evolves, written over the one the snapshot holds.\<close>

lemma doc_change:
  assumes "holds V r x" "fst r \<in> {''trust'', ''obligation'', ''session'', ''outbox''}" "json_doc d = Inr v'"
    and "\<And>v. revision x \<noteq> 0 \<Longrightarrow> json_doc (data x) = Inr v \<Longrightarrow> evolves_doc (fst r) v v'"
  shows "change_ok V (r, d)"
proof -
  have "document_ok r d" using assms(2,3) by (auto simp: document_ok_def)
  moreover have "evolves r d' d" if "V r = Some d'" for d'
    using holds_data [OF assms(1) that] assms(2-4) by (auto simp: evolves_def)
  ultimately show ?thesis by (simp add: change_ok_def)
qed

lemma document_okI: "json_doc d = Inr v \<Longrightarrow> fst r \<noteq> ''transition'' \<Longrightarrow> document_ok r d"
  by (auto simp: document_ok_def)

section \<open>Trust, acknowledgements and plain reads\<close>

lemma js_wf_simps:
  "js_wf (JStr t)" "js_wf (JNum i)" "js_wf (JBool b)" "js_wf JNull" "js_wf JUndef" "js_wf (num_array bs)"
  by (simp_all add: num_array_def list_all_iff)

lemma rg_setTrust:
  assumes s: "s \<in> S" "cipher_inverts (env_cipher e)" and v: "js_wf v"
  shows "rg (guar e) (known e S) (\<lambda>_ _. True) (setTrust e iv s i v revoked)"
  unfolding setTrust_def
proof (rule rg_Ret_bind, rule rg_True, rule rg_commit [OF s], rule allowedI)
  let ?d = "JObj [(''value'', v), (''revoked'', JBool revoked)]" and ?r = "(''trust'', i)"
  fix u V c assume u: "sbind (require s ?r) (\<lambda>old. if revision old \<noteq> 0 then sbind (json_doc (data old)) (\<lambda>t.
      ensure Revoked (\<not> (truthy (field t ''revoked'') \<and> \<not> revoked))) else Inr ()) = Inr u"
    and V: "\<And>s'. s' \<in> S \<Longrightarrow> alike s' s \<Longrightarrow> agrees s' V" and c: "control_inv V c"
  obtain x where x: "require s ?r = Inr x" "revision x \<noteq> 0 \<Longrightarrow> json_doc (data x) = Inr t \<Longrightarrow> truthy (field t ''revoked'') \<Longrightarrow> revoked" for t
    using u by (auto simp: ensure_def split: if_splits)
  have wf: "js_wf ?d" using v by simp
  have f: "field (norm ?d) ''revoked'' = JBool revoked" by (subst field_norm_JObj [OF wf]) simp
  have ev: "evolves_doc ''trust'' t (norm ?d)" if "revision x \<noteq> 0" "json_doc (data x) = Inr t" for t
    using x(2) [OF that] unfolding evolves_doc_def f by simp
  have ch: "change_ok V (?r, json_bytes ?d)"
    by (rule doc_change [OF agrees_require [OF V [OF s(1) alike_self] x(1)] _ json_doc_JObj [OF wf]]) (use ev in simp_all)
  show "good V c [(?r, json_bytes ?d)] None"
    by (rule good_none) (use ch c in \<open>simp_all add: jwf_def jkeys_def old_attempt_def\<close>)
qed


lemma rg_if: "(b \<Longrightarrow> rg G K Q p) \<Longrightarrow> (\<not> b \<Longrightarrow> rg G K Q q) \<Longrightarrow> rg G K Q (if b then p else q)"
  by simp

lemma evolves_outbox_status:
  assumes "json_doc d = Inr b" "js_wf v"
  shows "\<exists>b'. json_doc (json_bytes (set_field ''status'' v b)) = Inr b' \<and> evolves_doc ''outbox'' b b'"
proof -
  obtain b' where b': "json_doc (json_bytes (set_field ''status'' v b)) = Inr b'" "\<forall>k'. k' \<noteq> ''status'' \<longrightarrow> field b' k' = field b k'"
    using json_doc_set_field [OF assms, of "''status''"] by blast
  then show ?thesis by (simp add: evolves_doc_def kept_def once_def)
qed

lemma rg_ack:
  assumes s: "s \<in> S" "cipher_inverts (env_cipher e)"
  shows "rg (guar e) (known e S) (\<lambda>_ _. True) (ack e iv s i)"
  unfolding ack_def
proof (rule rg_Ret_bind, intro rg_if)
  let ?r = "(''outbox'', i)"
  fix b assume b: "require_doc s ?r = Inr b"
  then obtain x where x: "require s ?r = Inr x" "revision x \<noteq> 0" "json_doc (data x) = Inr b" using require_docD by blast
  obtain b' where b': "json_doc (json_bytes (set_field ''status'' (JStr ''sent'') b)) = Inr b'" "evolves_doc ''outbox'' b b'"
    using evolves_outbox_status [OF x(3), of "JStr ''sent''"] by auto
  show "rg (guar e) (known e S) (\<lambda>_ _. True) (commit e iv s [(?r, json_bytes (set_field ''status'' (JStr ''sent'') b))] None)"
  proof (rule rg_True, rule rg_commit [OF s], rule allowedI)
    fix V c assume V: "\<And>s'. s' \<in> S \<Longrightarrow> alike s' s \<Longrightarrow> agrees s' V" and c: "control_inv V c"
    note h = agrees_require [OF V [OF s(1) alike_self] x(1)]
    have "change_ok V (?r, json_bytes (set_field ''status'' (JStr ''sent'') b))"
      by (rule doc_change [OF h _ b'(1)]) (use x b'(2) in auto)
    moreover have "V ?r \<noteq> None" using h x(2) by (simp add: holds_def)
    ultimately show "good V c [(?r, json_bytes (set_field ''status'' (JStr ''sent'') b))] None"
      by (intro good_none) (use c in \<open>simp_all add: jwf_def jkeys_def old_attempt_def\<close>)
  qed
qed (simp_all add: rg_True [OF rg_commit_empty [OF s]])

lemma settle_commit:
  "settle (commit e iv s ch upd) = (case plan_commit e s ch upd of Inl err \<Rightarrow> Ret (Inr (Inl err))
     | Inr p \<Rightarrow> Atomic (\<lambda>D. apsnd (\<lambda>r. Ret (Inr r)) (commit_txn e iv s p D)))"
  by (simp add: settle_def commit_def fmap_def apsnd_def map_prod_def fun_eq_iff split: sum.split prod.split)

lemma rg_settle_bind:
  assumes "s \<in> S" "cipher_inverts (env_cipher e)" "\<And>r. rg (guar e) (known e S) Q (f r)"
  shows "rg (guar e) (known e S) Q (bind (settle (commit e iv s [] None)) f)"
proof (rule rg_bind [where Q = "\<lambda>_. known e S"])
  show "rg (guar e) (known e S) (\<lambda>_. known e S) (settle (commit e iv s [] None))"
  proof (cases "plan_commit e s [] None")
    case (Inr p)
    have g: "guar e D (fst (commit_txn e iv s p D)) \<and> known e S (fst (commit_txn e iv s p D))" if K: "known e S D" for D
      using commit_txn_guar [OF K assms(1,2) Inr allowed_empty] K known_stable [of e S] unfolding stable_def by blast
    then show ?thesis unfolding settle_commit Inr sum.case by (intro rs.rg_txn) simp_all
  qed (simp add: settle_commit rg_Ret)
qed (simp_all add: assms(3))

section \<open>Validated reads and retries\<close>

lemma rg_validated_from:
  assumes "s \<in> S" "cipher_inverts (env_cipher e)"
  shows "rg (guar e) (known e S) (\<lambda>t. known e (insert t S)) (validated_from n e s refs)"
proof (induction n)
  case 0
  show ?case unfolding validated_from.simps
    by (rule rg_extended_bind, rule rg_empty_bind) (auto simp: assms intro: rg_Ret)
next
  case (Suc n)
  have "rg (guar e) (known e (insert t S)) (\<lambda>t. known e (insert t S)) (validated_from n e s refs)" for t
    by (rule rg_pre [OF Suc]) (auto intro: known_mono)
  then show ?case unfolding validated_from.simps
    by (intro rg_extended_bind rg_settle_bind) (auto simp: assms intro: rg_Ret split: sum.split)
qed

lemma rg_validated_bind:
  assumes "s \<in> S" "cipher_inverts (env_cipher e)" "\<And>t. rg (guar e) (known e (insert t S)) Q (f t)"
  shows "rg (guar e) (known e S) Q (bind (validated e s refs) f)"
  unfolding validated_def by (rule rg_bind [OF rg_validated_from]) (simp_all add: assms)

lemma rg_case_option: "(r = None \<Longrightarrow> rg G K Q p) \<Longrightarrow> (\<And>x. r = Some x \<Longrightarrow> rg G K Q (q x)) \<Longrightarrow> rg G K Q (case r of None \<Rightarrow> p | Some x \<Rightarrow> q x)"
  by (cases r) simp_all

lemma stable_sum:
  "(\<And>a. stable G (P a)) \<Longrightarrow> (\<And>b. stable G (Q b)) \<Longrightarrow> stable G (\<lambda>D. case r of Inl a \<Rightarrow> P a D | Inr b \<Rightarrow> Q b D)"
  by (cases r) simp_all

lemma rg_retry_pass:
  assumes "s \<in> S" "cipher_inverts (env_cipher e)"
  shows "rg (guar e) (known e S) (\<lambda>r D. case r of Inl _ \<Rightarrow> known e S D | Inr t \<Rightarrow> known e (insert t S) D) (retry_pass e s i)"
  unfolding retry_pass_def
proof (intro rg_extended_bind rg_Ret_bind)
  fix t p assume "sbind (require_doc t (''outbox'', i)) (\<lambda>saved. sbind (require t (''outbox'', i)) (\<lambda>x. Inr (saved, data x))) = Inr p"
  obtain saved old where p: "p = (saved, old)" by (cases p)
  show "rg (guar e) (known e (insert t S)) (\<lambda>r D. case r of Inl _ \<Rightarrow> known e S D | Inr t \<Rightarrow> known e (insert t S) D)
    (case p of (saved, old) \<Rightarrow> bind (extended e t (refs_of ''trust'' (arr_of (field saved ''packets'')) ''trustID'')) (\<lambda>checked.
     if compare t checked \<noteq> Inr () then Ret (Inr (Inr checked))
     else bind (Ret (sbind (sendAuthority checked (arr_of (field saved ''packets'')) (field saved ''attempt'')) (\<lambda>_.
            sbind (ensure Conflict (\<not> (truthy (field saved ''attempt'') \<and> field saved ''status'' \<noteq> JStr ''pending''))) (\<lambda>_.
            trust_unchanged checked (arr_of (field saved ''packets'')))))) (\<lambda>_.
       bind (settle (commit e (\<lambda>_. []) checked [] None)) (\<lambda>r. case r of
         Inr _ \<Rightarrow> Ret (Inr (Inl old))
       | Inl err \<Rightarrow> if err = Conflict then Ret (Inr (Inr checked)) else Ret (Inl err)))))"
    unfolding p prod.case
    by (intro rg_extended_bind rg_if rg_Ret_bind rg_settle_bind)
       (auto simp: assms intro: rg_Ret known_mono split: sum.split)
qed

lemma rg_retry_from:
  assumes "s \<in> S" "cipher_inverts (env_cipher e)"
  shows "rg (guar e) (known e S) (\<lambda>_. known e S) (retry_from n e s i)"
  using assms(1)
proof (induction n arbitrary: s S)
  case 0
  show ?case unfolding retry_from.simps
    by (rule rg_bind [OF rg_retry_pass [OF 0 assms(2)]], rule stable_sum) (auto intro: rg_Ret split: sum.split)
next
  case (Suc n)
  have "rg (guar e) (known e (insert t S)) (\<lambda>_. known e S) (retry_from n e t i)" for t
    by (rule rg_post [OF Suc.IH]) (auto intro: known_mono)
  then show ?case unfolding retry_from.simps
    by (intro rg_bind [OF rg_retry_pass [OF Suc.prems assms(2)]] stable_sum) (auto intro: rg_Ret split: sum.split)
qed

lemma rg_retrySend: "s \<in> S \<Longrightarrow> cipher_inverts (env_cipher e) \<Longrightarrow> rg (guar e) (known e S) (\<lambda>_. known e S) (retrySend e s i)"
  unfolding retrySend_def by (rule rg_retry_from)

lemma rg_attemptStatusRequest:
  "s \<in> S \<Longrightarrow> cipher_inverts (env_cipher e) \<Longrightarrow> rg (guar e) (known e S) (\<lambda>_ _. True) (attemptStatusRequest e s i)"
  unfolding attemptStatusRequest_def by (intro rg_validated_bind rg_Ret_bind rg_if rg_case_option) simp_all

lemma rg_attemptRetirementRequest:
  "s \<in> S \<Longrightarrow> cipher_inverts (env_cipher e) \<Longrightarrow> rg (guar e) (known e S) (\<lambda>_ _. True) (attemptRetirementRequest e s i)"
  unfolding attemptRetirementRequest_def by (rule rg_bind [OF rg_attemptStatusRequest]) simp_all

lemma rg_attemptWire:
  assumes "s \<in> S" "cipher_inverts (env_cipher e)"
  shows "rg (guar e) (known e S) (\<lambda>_ _. True) (attemptWire e s i)"
  unfolding attemptWire_def
  by (rule rg_bind [OF rg_retrySend [OF assms]], simp, intro rg_Ret_bind rg_if) (simp_all split: sum.split)

lemma rg_accountAuthority:
  "s \<in> S \<Longrightarrow> cipher_inverts (env_cipher e) \<Longrightarrow> rg (guar e) (known e S) (\<lambda>_ _. True) (accountAuthority e s)"
  unfolding accountAuthority_def Let_def by (intro rg_validated_bind rg_Ret_bind) simp_all

lemma rg_checkAccountAuthority:
  "s \<in> S \<Longrightarrow> cipher_inverts (env_cipher e) \<Longrightarrow> rg (guar e) (known e S) (\<lambda>_ _. True) (checkAccountAuthority e s f a ep)"
  unfolding checkAccountAuthority_def by (rule rg_bind [OF rg_accountAuthority]) simp_all

lemma rg_accountTransitionRequest:
  "s \<in> S \<Longrightarrow> cipher_inverts (env_cipher e) \<Longrightarrow> rg (guar e) (known e S) (\<lambda>_ _. True) (accountTransitionRequest e s i)"
  unfolding accountTransitionRequest_def by (intro rg_extended_bind rg_Ret_bind rg_empty_bind) simp_all


section \<open>Sessions\<close>

lemma or_else_wf: "js_wf a \<Longrightarrow> js_wf b \<Longrightarrow> js_wf (or_else a b)"
  by (simp add: or_else_def)

lemma next_pending_wf:
  assumes "next_pending previous receiving claim = Inr pending" "js_wf claim" "\<And>p. previous = Some p \<Longrightarrow> js_wf p"
  shows "js_wf pending"
  using assms js_wf_field by (cases previous) (auto simp: next_pending_def pending_claim_def or_else_wf split: if_splits)

lemma sessionValue_change:
  assumes "sessionValue now s r state cx receiving claim = Inr d" "agrees s V" "fst r = ''session''" "js_wf cx" "js_wf claim"
  shows "change_ok V (r, d)"
proof -
  obtain old previous pending where o: "require s r = Inr old"
    "(if revision old \<noteq> 0 then sbind (json_doc (data old)) (\<lambda>p. Inr (Some p)) else Inr None) = Inr previous"
    "\<not> (case previous of Some p \<Rightarrow> stringify (field p ''context'') \<noteq> stringify cx | None \<Rightarrow> False)"
    "next_pending previous receiving claim = Inr pending" "truthy cx"
    "d = json_bytes (JObj ([(''snapshot'', num_array (bytes_of state)), (''context'', cx),
            (''created_at'', case previous of Some p \<Rightarrow> or_else (field p ''created_at'') (JNum now) | None \<Rightarrow> JNum now),
            (''retired'', case previous of Some p \<Rightarrow> or_else (field p ''retired'') (JBool False) | None \<Rightarrow> JBool False)]
            @ opt_member (truthy pending) ''pending'' pending))"
    using assms(1) unfolding sessionValue_def by (auto simp: context_ok_def split: if_splits)
  have pv: "json_doc (data old) = Inr p \<and> json_ok p" if "previous = Some p" for p
    using o(2) that json_doc_ok by (auto split: if_splits)
  have wfp: "js_wf p" if "previous = Some p" for p using pv [OF that] js_wf_json_ok by blast
  define ca where "ca = (case previous of Some p \<Rightarrow> or_else (field p ''created_at'') (JNum now) | None \<Rightarrow> JNum now)"
  define rt where "rt = (case previous of Some p \<Rightarrow> or_else (field p ''retired'') (JBool False) | None \<Rightarrow> JBool False)"
  define fs where "fs = [(''snapshot'', num_array (bytes_of state)), (''context'', cx), (''created_at'', ca), (''retired'', rt)]
            @ opt_member (truthy pending) ''pending'' pending"
  have d: "d = json_bytes (JObj fs)" using o(6) by (simp add: fs_def ca_def rt_def)
  have "js_wf ca" "js_wf rt" using wfp js_wf_field or_else_wf by (auto simp: ca_def rt_def split: option.split)
  then have wf: "js_wf (JObj fs)"
    using assms(4) next_pending_wf [OF o(4) assms(5) wfp] by (simp add: fs_def opt_member_def js_wf_simps)
  have f: "field (JObj fs) ''retired'' = rt" "field (JObj fs) ''context'' = cx" by (simp_all add: fs_def)
  have fn: "field (norm (JObj fs)) ''context'' = norm cx" "field (norm (JObj fs)) ''retired'' = (if rt = JUndef then JUndef else norm rt)"
    using o(5) f by (auto simp: field_norm_JObj [OF wf] simp del: norm.simps field.simps)
  show ?thesis
  proof (rule doc_change [OF agrees_require [OF assms(2) o(1)] _ json_doc_JObj [OF wf], folded d])
    fix p assume "revision old \<noteq> 0" "json_doc (data old) = Inr p"
    then have p: "previous = Some p" using o(2) by simp
    have "truthy (field (norm (JObj fs)) ''retired'')" if t: "truthy (field p ''retired'')"
    proof -
      have "rt = field p ''retired''" using t by (simp add: rt_def p or_else_def)
      moreover have "norm (field p ''retired'') = field p ''retired''" using norm_old [of p "''retired''"] pv [OF p] t by (auto split: if_splits)
      ultimately show ?thesis using t unfolding fn by auto
    qed
    then show "evolves_doc (fst r) p (norm (JObj fs))"
      using o(3) assms(3) unfolding evolves_doc_def fn by (simp add: p)
  qed (use assms(3) in simp)
qed

text \<open>A session written from its stored document with other fields changed.\<close>

lemma session_merge_change:
  assumes "holds V r x" "fst r = ''session''" "json_doc (data x) = Inr st" "json_ok (JObj fs)"
    and "stringify (field (JObj fs) ''context'') = stringify (field st ''context'')" "truthy (field st ''retired'') \<Longrightarrow> truthy (field (JObj fs) ''retired'')"
  shows "change_ok V (r, json_bytes (JObj fs))"
proof (rule doc_change [OF assms(1)])
  show "json_doc (json_bytes (JObj fs)) = Inr (JObj fs)" using json_doc_object [of "JObj fs"] assms(4) by (simp add: is_object_def)
  show "evolves_doc (fst r) v (JObj fs)" if "revision x \<noteq> 0" "json_doc (data x) = Inr v" for v
    using that assms by (simp add: evolves_doc_def)
qed (use assms(2) in simp)

lemma json_ok_members: "json_ok b \<Longrightarrow> json_ok (JObj (members b))"
  by (cases b) (simp_all add: members_def)

lemma merge_one: "merge_fields b (JObj [(k, v)]) = JObj (jset k v (members b))"
  by (simp add: merge_fields_def members_def [of "JObj x" for x])

lemma field_merge_one: "field (JObj (jset k v (members b))) k' = (if k' = k then v else field b k')"
  by (simp add: field_jset members_field del: field.simps)

lemma json_ok_merge_one: "json_ok b \<Longrightarrow> json_ok v \<Longrightarrow> json_ok (JObj (jset k v (members b)))"
  by (rule json_ok_jset [OF json_ok_members])

lemma retire_change:
  assumes "holds V r x" "fst r = ''session''" "json_doc (data x) = Inr st"
  shows "change_ok V (r, json_bytes (merge_fields st (JObj [(''retired'', JBool True)])))"
  unfolding merge_one
  by (rule session_merge_change [OF assms])
     (use json_ok_merge_one [OF json_doc_ok [OF assms(3)], of "JBool True"] in \<open>simp_all add: field_merge_one del: field.simps\<close>)

definition plain_change :: "(ref \<Rightarrow> bytes option) \<Rightarrow> ref \<times> bytes \<Rightarrow> bool" where  \<comment> \<open>a change that is no send\<close>
  "plain_change V ch \<longleftrightarrow> change_ok V ch \<and> fst (fst ch) \<noteq> ''outbox''"

lemma plain_change_jset:
  "list_all (plain_change V) changes \<Longrightarrow> plain_change V (r, d) \<Longrightarrow> list_all (plain_change V) (jset r d changes)"
  by (auto simp: list_all_iff dest!: set_jset_cases)

lemma good_plain:
  assumes "jwf changes" "list_all (plain_change V) changes" "control_inv V c"
  shows "good V c changes None"
  by (rule good_none [OF assms(1) _ _ assms(3)]) (use assms(2) in \<open>auto simp: list_all_iff plain_change_def old_attempt_def\<close>)

lemma retire_sessions_plain:
  assumes "retire_sessions s reset ids changes = Inr changes'" "agrees s V" "jwf changes" "list_all (plain_change V) changes"
  shows "jwf changes' \<and> list_all (plain_change V) changes'"
  using assms
proof (induction ids arbitrary: changes)
  case (Cons i ids)
  obtain st where st: "require_doc s (''session'', i) = Inr st"
    "retire_sessions s reset ids (jset (''session'', i) (json_bytes (merge_fields st (JObj [(''retired'', JBool True)]))) changes) = Inr changes'"
    using Cons.prems(1) by (auto simp: Let_def split: if_splits)
  obtain x where x: "require s (''session'', i) = Inr x" "json_doc (data x) = Inr st" using require_docD [OF st(1)] by blast
  have "plain_change V ((''session'', i), json_bytes (merge_fields st (JObj [(''retired'', JBool True)])))"
    using retire_change [OF agrees_require [OF Cons.prems(2) x(1)] _ x(2)] by (simp add: plain_change_def)
  from plain_change_jset [OF Cons.prems(4) this] Cons.IH [OF st(2) Cons.prems(2)] Cons.prems(3) show ?case by simp
qed simp

lemma rg_retirePeerSessions:
  assumes s: "s \<in> S" "cipher_inverts (env_cipher e)"
  shows "rg (guar e) (known e S) (\<lambda>_ _. True) (retirePeerSessions e iv s trustID reset ids)"
  unfolding retirePeerSessions_def
proof (intro rg_if rg_Ret_bind rg_True [OF rg_commit [OF s allowedI]])
  fix changes V c assume ch: "sbind (trust s trustID) (\<lambda>_. retire_sessions s reset ids []) = Inr changes"
    and V: "\<And>s'. s' \<in> S \<Longrightarrow> alike s' s \<Longrightarrow> agrees s' V" and c: "control_inv V c"
  have "retire_sessions s reset ids [] = Inr changes" using ch by auto
  then show "good V c changes None" using retire_sessions_plain [OF _ V [OF s(1) alike_self]] good_plain [OF _ _ c] by fastforce
qed simp


section \<open>Receiving, publications, claims and keys\<close>

definition key_fields_kept :: "jsv \<Rightarrow> jsv \<Rightarrow> bool" where
  "key_fields_kept v v' \<longleftrightarrow> kept [''account_id'', ''publication_id'', ''account_epoch'', ''key_id'', ''public_key''] v v'"

lemma closed_change:
  assumes "holds V r x" "fst r = ''obligation''" "json_doc (data x) = Inr o'" "json_ok (JObj fs)" "\<not> is_open (JObj fs)" "key_fields_kept o' (JObj fs)"
  shows "plain_change V (r, json_bytes (JObj fs))"
proof -
  have "change_ok V (r, json_bytes (JObj fs))"
  proof (rule doc_change [OF assms(1)])
    show "json_doc (json_bytes (JObj fs)) = Inr (JObj fs)" using json_doc_object [of "JObj fs"] assms(4) by (simp add: is_object_def)
    show "evolves_doc (fst r) v (JObj fs)" if "revision x \<noteq> 0" "json_doc (data x) = Inr v" for v
      using that assms by (simp add: evolves_doc_def key_fields_kept_def)
  qed (use assms(2) in simp)
  then show ?thesis using assms(2) by (simp add: plain_change_def)
qed

lemma consume_change:
  assumes "holds V r x" "fst r = ''obligation''" "json_doc (data x) = Inr o'"
  shows "plain_change V (r, json_bytes (merge_fields o' (JObj [(''consumed'', JBool True)])))"
  unfolding merge_one
  by (rule closed_change [OF assms])
     (use json_ok_merge_one [OF json_doc_ok [OF assms(3)], of "JBool True"] in \<open>simp_all add: is_open_def key_fields_kept_def kept_def field_merge_one del: field.simps\<close>)

lemma merge_two: "merge_fields b (JObj [(k, v), (k2, v2)]) = JObj (jset k2 v2 (jset k v (members b)))"
  by (simp add: merge_fields_def members_def [of "JObj x" for x])

lemma close_change:
  assumes "holds V r x" "fst r = ''obligation''" "json_doc (data x) = Inr o'" "json_ok p"
  shows "plain_change V (r, json_bytes (merge_fields o' (JObj [(''closed'', JBool True), (''closure_proof'', p)])))"
  unfolding merge_two
  by (rule closed_change [OF assms(1-3)])
     (use json_ok_jset [OF json_ok_merge_one [OF json_doc_ok [OF assms(3)], of "JBool True"] assms(4)]
      in \<open>simp_all add: is_open_def key_fields_kept_def kept_def field_jset members_field del: field.simps\<close>)

lemma account_change: "plain_change V ((''account'', a), d)"
  using free_change [of "(''account'', a)" d V] by (simp add: plain_change_def document_ok_def)

lemma new_plain: "V r = None \<Longrightarrow> json_doc d = Inr v \<Longrightarrow> fst r \<notin> {''transition'', ''outbox''} \<Longrightarrow> plain_change V (r, d)"
  by (simp add: plain_change_def new_change document_okI)

lemma plan_receive_plain:
  assumes "plan_receive now s i digest p = Inr changes" "agrees s V" "V (''inbox'', i) = None" "js_wf p"
  shows "jwf changes \<and> list_all (plain_change V) changes"
proof -
  let ?sr = "(''session'', str_of (field p ''sessionID''))" and ?ar = "(''account'', str_of (account_id p))"
  let ?in = "JObj [(''digest'', JStr digest), (''archive'', num_array (bytes_of (field p ''archive'')))]"
  let ?kr = "(''obligation'', str_of (field p ''consumedOTK''))"
  define c0 where "c0 d = [(?sr, d), ((''inbox'', i), json_bytes ?in)]" for d
  obtain d c1 where d: "sessionValue now s ?sr (field p ''session'') (field p ''context'') True JNull = Inr d"
    and c1: "(if truthy (field p ''account'') then sbind (require s ?ar) (\<lambda>_. Inr (jset ?ar (bytes_of (field p ''account'')) (c0 d))) else Inr (c0 d)) = Inr c1"
    and ch: "(if \<not> truthy (field p ''consumedOTK'') then Inr c1
      else sbind (require s ?kr) (\<lambda>v. if revision v = 0 \<or> \<not> truthy (field p ''account'') then Inl Invalid
        else sbind (json_doc (data v)) (\<lambda>o'.
          if field o' ''account_id'' \<noteq> account_id p \<or> truthy (field o' ''closed'') then Inl Conflict
          else Inr (jset ?kr (json_bytes (merge_fields o' (JObj [(''consumed'', JBool True)]))) c1)))) = Inr changes"
    using assms(1) unfolding plan_receive_def Let_def by (elim sbind_Inr) (rule that, assumption, unfold c0_def, assumption+)
  have "plain_change V (?sr, d)" using sessionValue_change [OF d assms(2)] js_wf_field [OF assms(4)] by (simp add: plain_change_def)
  moreover have "plain_change V ((''inbox'', i), json_bytes ?in)"
    by (rule new_plain [where V = V, OF _ json_doc_JObj]) (use assms(3) in \<open>simp_all add: js_wf_simps\<close>)
  ultimately have c0: "jwf (c0 d)" "list_all (plain_change V) (c0 d)" by (simp_all add: c0_def jwf_def jkeys_def)
  have "c1 = c0 d \<or> c1 = jset ?ar (bytes_of (field p ''account'')) (c0 d)" using c1 by (auto split: if_splits)
  then have "jwf c1 \<and> list_all (plain_change V) c1" using c0 plain_change_jset [OF c0(2) account_change] by auto
  moreover have "changes = c1 \<or> (\<exists>x o'. require s ?kr = Inr x \<and> json_doc (data x) = Inr o'
      \<and> changes = jset ?kr (json_bytes (merge_fields o' (JObj [(''consumed'', JBool True)]))) c1)"
    using ch by (auto split: if_splits)
  ultimately show ?thesis using plain_change_jset [OF _ consume_change [OF agrees_require [OF assms(2)]], of c1] by auto
qed

lemma rg_commitReceive:
  assumes s: "s \<in> S" "cipher_inverts (env_cipher e)" and p: "js_wf p"
  shows "rg (guar e) (known e S) (\<lambda>_ _. True) (commitReceive e now iv s i p)"
  unfolding commitReceive_def Let_def
proof (intro rg_Ret_bind rg_extended_bind rg_if rg_empty_bind rg_commit_bind allowedI rg_done)
  fix u t old changes V c
  assume t: "generation (sn_fence t) = generation (sn_fence s)" "require t (''inbox'', i) = Inr old" "\<not> revision old \<noteq> 0"
    and ch: "sbind (compare s t) (\<lambda>_. plan_receive now s i (digestBytes (env_curves e) (bytes_of (field p ''envelope''))) p) = Inr changes"
    and V: "\<And>s'. s' \<in> insert t S \<Longrightarrow> alike s' t \<Longrightarrow> agrees s' V" and c: "control_inv V c"
  have "compare s t = Inr ()" "plan_receive now s i (digestBytes (env_curves e) (bytes_of (field p ''envelope''))) p = Inr changes" using ch by auto
  then have "jwf changes \<and> list_all (plain_change V) changes"
    using plan_receive_plain V [of s] V [of t] alikeI [OF t(1)] s(1) p holds_new [OF agrees_require [OF _ t(2)]] t(3) by simp
  then show "good V c changes None" using good_plain c by blast
qed (use s in auto)

text \<open>A record the snapshot does not have is written for the first time.\<close>

lemma absent_new: "agrees t V \<Longrightarrow> jhas (records t) r \<Longrightarrow> snapshot_revision t r = 0 \<Longrightarrow> V r = None"
  by (auto simp: jhas_def agrees_def holds_def snapshot_revision_def split: option.splits)

lemma publish_keys_new:
  assumes "publish_keys t i accountID authority os changes = Inr changes'" "list_all (\<lambda>(oid, o'). js_wf o') os" "json_ok authority" "jwf changes"
  shows "jwf changes' \<and> (\<forall>r d. (r, d) \<in> set changes' \<longrightarrow> (r, d) \<in> set changes \<or> fst r = ''obligation'' \<and> snapshot_revision t r = 0 \<and> (\<exists>v. json_doc d = Inr v))"
  using assms
proof (induction os arbitrary: changes)
  case (Cons a os)
  obtain oid o' where a: "a = (oid, o')" by (cases a)
  let ?r = "(''obligation'', oid)"
  let ?us = "[(''account_id'', JStr accountID), (''account_epoch'', field authority ''accountEpoch''), (''key_id'', or_else (field o' ''key_id'') (JStr oid))]"
  let ?d = "json_bytes (merge_fields o' (JObj ?us))"
  have k: "snapshot_revision t ?r = 0" "publish_keys t i accountID authority os (jset ?r ?d changes) = Inr changes'"
    using Cons.prems(1) by (auto simp: a Let_def split: if_splits)
  have o: "js_wf o'" "list_all (\<lambda>(oid, o'). js_wf o') os" using Cons.prems(2) by (simp_all add: a)
  have "list_all (\<lambda>(k, v). js_wf v) ?us"
    using js_wf_field [OF o(1)] js_wf_field [OF js_wf_json_ok [OF Cons.prems(3)]] by (simp add: or_else_def)
  then have d: "\<exists>v. json_doc ?d = Inr v" using json_doc_merge(1) [OF o(1)] by blast
  have IH: "jwf changes' \<and> (\<forall>r d. (r, d) \<in> set changes' \<longrightarrow> (r, d) \<in> set (jset ?r ?d changes) \<or> fst r = ''obligation'' \<and> snapshot_revision t r = 0 \<and> (\<exists>v. json_doc d = Inr v))"
    by (rule Cons.IH [OF k(2) o(2) Cons.prems(3)]) (use Cons.prems(4) in simp)
  have "(r, d) \<in> set changes \<or> fst r = ''obligation'' \<and> snapshot_revision t r = 0 \<and> (\<exists>v. json_doc d = Inr v)" if rd: "(r, d) \<in> set changes'" for r d
  proof (cases "(r, d) \<in> set (jset ?r ?d changes)")
    case True
    then show ?thesis using set_jset_cases [OF True] d k(1) by auto
  next
    case False
    then show ?thesis using IH rd by blast
  qed
  then show ?case using IH by blast
qed simp

lemma rg_commitPublication:
  assumes s: "s \<in> S" "cipher_inverts (env_cipher e)" and wf: "list_all (\<lambda>(oid, o'). js_wf o') otks"
  shows "rg (guar e) (known e S) (\<lambda>_ _. True) (commitPublication e iv s i account payload otks accountID)"
  unfolding commitPublication_def
proof (intro rg_Ret_bind rg_extended_bind rg_if rg_empty_bind rg_commit_bind allowedI rg_done)
  fix t au old changes V c
  let ?c0 = "[((''account'', accountID), account), ((''publication'', i), publication_doc accountID payload)]"
  assume au: "control_doc t = Inr au"
    and ch: "sbind (compare s t) (\<lambda>_. sbind (require s (''account'', accountID)) (\<lambda>_. publish_keys t i accountID au otks ?c0)) = Inr changes"
    and V: "\<And>s'. s' \<in> insert t S \<Longrightarrow> alike s' t \<Longrightarrow> agrees s' V" and c: "control_inv V c"
    and has: "\<And>r. r \<in> fst ` set changes \<Longrightarrow> jhas (records t) r"
  have "publish_keys t i accountID au otks ?c0 = Inr changes" using ch by auto
  moreover have "json_ok au" using au json_doc_ok by (auto simp: control_doc_def)
  ultimately have p: "jwf changes \<and> (\<forall>r d. (r, d) \<in> set changes \<longrightarrow> (r, d) \<in> set ?c0 \<or> fst r = ''obligation'' \<and> snapshot_revision t r = 0 \<and> (\<exists>v. json_doc d = Inr v))"
    by (intro publish_keys_new [OF _ wf]) (simp_all add: jwf_def jkeys_def)
  have pub: "plain_change V ((''publication'', i), publication_doc accountID payload)"
    using free_change [of "(''publication'', i)" _ V] document_okI [OF json_doc_JObj]
    by (simp add: plain_change_def publication_doc_def js_wf_simps)
  have "plain_change V (r, d)" if rd: "(r, d) \<in> set changes" for r d
  proof (cases "(r, d) \<in> set ?c0")
    case True
    then show ?thesis using account_change [of V accountID account] pub by auto
  next
    case False
    then obtain v where "fst r = ''obligation''" "snapshot_revision t r = 0" "json_doc d = Inr v" using p rd by blast
    moreover have "jhas (records t) r" using has [of r] image_eqI [OF _ rd, of r fst] by simp
    ultimately show ?thesis using new_plain [OF absent_new [OF V [of t]]] by simp
  qed
  then have "list_all (plain_change V) changes" by (auto simp: list_all_iff)
  then show "good V c changes None" using p good_plain c by blast
qed (use s in auto)

lemma rg_reserveClaim:
  assumes s: "s \<in> S" "cipher_inverts (env_cipher e)"
  shows "rg (guar e) (known e S) (\<lambda>_ _. True) (reserveClaim e iv s i trustID request)"
  unfolding reserveClaim_def
proof (intro rg_Ret_bind rg_extended_bind rg_if rg_empty_bind rg_commit_bind allowedI rg_done)
  fix t au n old V c
  let ?d = "JObj [(''accountID'', field au ''accountID''), (''accountEpoch'', field au ''accountEpoch''), (''trustID'', JStr trustID),
     (''trustRevision'', JNum n), (''request'', num_array request)]"
  assume au: "control_doc t = Inr au" and old: "require t (''claim'', i) = Inr old" "\<not> revision old \<noteq> 0"
    and V: "\<And>s'. s' \<in> insert t S \<Longrightarrow> alike s' t \<Longrightarrow> agrees s' V" and c: "control_inv V c"
  have "js_wf au" using au json_doc_ok js_wf_json_ok by (auto simp: control_doc_def)
  then have wf: "js_wf ?d" using js_wf_field by (simp add: js_wf_simps)
  have "V (''claim'', i) = None" using holds_new [OF agrees_require [OF V [of t] old(1)]] old(2) by simp
  then have "plain_change V ((''claim'', i), json_bytes ?d)" using new_plain [OF _ json_doc_JObj [OF wf], of V "(''claim'', i)"] by simp
  then show "good V c [((''claim'', i), json_bytes ?d)] None" by (intro good_plain [OF _ _ c]) (simp_all add: jwf_def jkeys_def)
qed (use s in auto)


section \<open>Attempt results and retirement\<close>

lemma field_fold_jset: "k \<notin> fst ` set us \<Longrightarrow> field (JObj (fold (\<lambda>(k, v). jset k v) us fs)) k = field (JObj fs) k"
  by (induction us arbitrary: fs) (auto simp: field_jset simp del: field.simps)

lemma merge_doc:
  assumes "json_ok b" "list_all (\<lambda>(k, v). js_wf v) us"
  shows "\<exists>b'. json_doc (json_bytes (merge_fields b (JObj us))) = Inr b' \<and> (\<forall>k. k \<notin> fst ` set us \<longrightarrow> field b' k = field b k)"
proof -
  note m = json_doc_merge [OF js_wf_json_ok [OF assms(1)] assms(2)]
  have "field (norm (merge_fields b (JObj us))) k = field b k" if "k \<notin> fst ` set us" for k
  proof -
    have "field (merge_fields b (JObj us)) k = field b k"
      using field_fold_jset [OF that, of "members b"] by (simp add: merge_fields_def members_def [of "JObj x" for x] members_field del: field.simps)
    then show ?thesis using norm_old [OF assms(1), of k] unfolding m(2) by (simp split: if_splits)
  qed
  then show ?thesis using m(1) by blast
qed

lemma set_field_merge: "b = JObj fs \<Longrightarrow> set_field k v b = merge_fields b (JObj [(k, v)])"
  "b = JObj fs \<Longrightarrow> set_field k2 v2 (set_field k v b) = merge_fields b (JObj [(k, v), (k2, v2)])"
  by (simp_all add: merge_fields_def members_def)

lemma field_object: "truthy (field b k) \<Longrightarrow> \<exists>fs. b = JObj fs"
  by (cases b) simp_all

lemma establish_plain:
  assumes "establish t ps changes = Inr changes'" "agrees t V" "jwf changes" "list_all (change_ok V) changes" "list_all (old_attempt V) changes"
  shows "jwf changes' \<and> list_all (change_ok V) changes' \<and> list_all (old_attempt V) changes'"
  using assms
proof (induction ps arbitrary: changes)
  case (Cons p ps)
  let ?r = "(''session'', str_of (field p ''sessionID''))"
  obtain x st where x: "require t ?r = Inr x" "json_doc (data x) = Inr st"
    and r: "establish t ps (if truthy (field st ''pending'') then jset ?r (json_bytes (drop_field ''pending'' st)) changes else changes) = Inr changes'"
    using Cons.prems(1) by (auto simp: Let_def split: if_splits)
  show ?case
  proof (cases "truthy (field st ''pending'')")
    case True
    then obtain fs where st: "st = JObj fs" using field_object by blast
    have ok: "json_ok (JObj (jdel ''pending'' fs))"
      using json_doc_ok [OF x(2)] by (auto simp: st jdel_def list_all_iff distinct_map_filter)
    have f: "field (JObj (jdel ''pending'' fs)) k = field st k" if "k \<noteq> ''pending''" for k
      using jget_jdel [of "''pending''" fs k] that by (simp add: st jget_def)
    have "change_ok V (?r, json_bytes (JObj (jdel ''pending'' fs)))"
      by (rule session_merge_change [OF agrees_require [OF Cons.prems(2) x(1)] _ x(2) ok]) (simp_all add: f del: field.simps)
    then have "list_all (change_ok V) (jset ?r (json_bytes (drop_field ''pending'' st)) changes)"
      "list_all (old_attempt V) (jset ?r (json_bytes (drop_field ''pending'' st)) changes)"
      using Cons.prems(4,5) by (auto simp: st list_all_iff old_attempt_def dest!: set_jset_cases)
    then show ?thesis using Cons.IH [OF _ Cons.prems(2)] r True Cons.prems(3) by simp
  next
    case False
    then show ?thesis using Cons.IH [OF _ Cons.prems(2-5)] r by simp
  qed
qed simp

lemma result_changes_ok:
  assumes "agrees s V" "require_doc s (''outbox'', i) = Inr b" "truthy (field b ''attempt'')" "\<not> truthy (field b ''receipt'')" "js_wf result"
    and "require s (''logical'', l) = Inr y" "json_doc (data y) = Inr logical"
  defines "changes \<equiv> [((''outbox'', i), json_bytes (set_field ''status'' (field result ''state'') (set_field ''receipt'' result b))),
    ((''logical'', l), json_bytes (set_field ''state'' (field result ''state'') logical))]"
  shows "jwf changes \<and> list_all (change_ok V) changes \<and> list_all (old_attempt V) changes"
proof -
  let ?r = "(''outbox'', i)"
  obtain x where x: "require s ?r = Inr x" "revision x \<noteq> 0" "json_doc (data x) = Inr b" using require_docD [OF assms(2)] by blast
  obtain fs where fs: "b = JObj fs" using field_object [OF assms(3)] by blast
  let ?us = "[(''receipt'', result), (''status'', field result ''state'')]"
  obtain b' where b': "json_doc (json_bytes (merge_fields b (JObj ?us))) = Inr b'" "\<forall>k. k \<notin> fst ` set ?us \<longrightarrow> field b' k = field b k"
    using merge_doc [OF json_doc_ok [OF x(3)], of ?us] assms(5) js_wf_field [OF assms(5)] by auto
  have ev: "evolves_doc ''outbox'' b b'" using b'(2) assms(4) by (simp add: evolves_doc_def kept_def once_def)
  note h = agrees_require [OF assms(1) x(1)]
  have "change_ok V (?r, json_bytes (merge_fields b (JObj ?us)))" by (rule doc_change [OF h _ b'(1)]) (use ev x(3) in auto)
  moreover have "V ?r \<noteq> None" using h x(2) by (simp add: holds_def)
  moreover obtain l' where "json_doc (json_bytes (set_field ''state'' (field result ''state'') logical)) = Inr l'"
    using json_doc_set_field [OF assms(7) js_wf_field [OF assms(5)]] by blast
  then have "change_ok V ((''logical'', l), json_bytes (set_field ''state'' (field result ''state'') logical))"
    using free_change [of "(''logical'', l)" _ V] document_okI by simp
  ultimately show ?thesis
    by (simp add: changes_def set_field_merge(2) [OF fs] jwf_def jkeys_def old_attempt_def)
qed

lemma rg_applyAttemptResult:
  assumes s: "s \<in> S" "cipher_inverts (env_cipher e)" and wf: "js_wf result"
  shows "rg (guar e) (known e S) (\<lambda>_ _. True) (applyAttemptResult e iv s i result)"
  unfolding applyAttemptResult_def Let_def
proof (intro rg_Ret_bind rg_extended_bind rg_if rg_True [OF rg_commit_empty] rg_True [OF rg_commit] allowedI rg_done)
  fix b u logical t changes V c
  let ?l = "str_of (field (field (field b ''attempt'') ''manifest'') ''logical_id'')"
  let ?c0 = "[((''outbox'', i), json_bytes (set_field ''status'' (field result ''state'') (set_field ''receipt'' result b))),
    ((''logical'', ?l), json_bytes (set_field ''state'' (field result ''state'') logical))]"
  assume b: "require_doc s (''outbox'', i) = Inr b" "\<not> \<not> truthy (field b ''attempt'')" "\<not> truthy (field b ''receipt'')"
    and l: "sbind (require s (''logical'', ?l)) (\<lambda>x. sbind (json_doc (data x)) (\<lambda>l. if field l ''attemptID'' \<noteq> JStr i then Inl Conflict else Inr l)) = Inr logical"
    and c: "control_inv V c"
  obtain y where y: "require s (''logical'', ?l) = Inr y" "json_doc (data y) = Inr logical" using l by (auto split: if_splits)
  note r = result_changes_ok [OF _ b(1) _ b(3) wf y, of V]
  {
    assume t: "generation (sn_fence t) = generation (sn_fence s)"
      and ch: "sbind (compare s t) (\<lambda>_. establish t (arr_of (field b ''packets'')) ?c0) = Inr changes"
      and V: "\<And>s'. s' \<in> insert t S \<Longrightarrow> alike s' t \<Longrightarrow> agrees s' V"
    have e: "compare s t = Inr ()" "establish t (arr_of (field b ''packets'')) ?c0 = Inr changes" using ch by auto
    have "agrees s V" using V [of s] alikeI [OF t e(1)] s(1) by simp
    then show "good V c changes None"
      using establish_plain [OF e(2) V [of t]] r b(2) good_none [OF _ _ _ c] by simp
  next
    assume V: "\<And>s'. s' \<in> S \<Longrightarrow> alike s' s \<Longrightarrow> agrees s' V"
    show "good V c ?c0 None" using r [OF V [OF s(1) alike_self]] b(2) good_none [OF _ _ _ c] by simp
  }
qed (use s in auto)


lemma note_retired_epoch: "note_retired r q = Inr (Some r') \<Longrightarrow> re_epoch r' = re_epoch r"
  by (auto simp: note_retired_def split: if_splits prod.splits)

lemma rg_noteRetired:
  assumes s: "s \<in> S" "cipher_inverts (env_cipher e)"
  shows "rg (guar e) (known e S) (\<lambda>_ _. True) (noteRetired e iv s i)"
proof -
  obtain et st where sp: "split_colon i = (et, st)" by (cases "split_colon i")
  show ?thesis unfolding noteRetired_def sp prod.case
  proof (intro rg_case_option rg_Ret_bind rg_extended_bind rg_if rg_True [OF rg_commit_empty] rg_True [OF rg_commit] allowedI rg_done)
    fix q t c' b rt r' V c
    assume n: "note_retired (retirement_of c' (decimal_value et)) q = Inr rt" "rt = Some r'" and c: "control_inv V c"
    have "re_epoch r' = decimal_value et" using note_retired_epoch n by (fastforce simp: retirement_of_def split: if_splits)
    then have "json_ok (retirement_json r')" by (auto simp: retirement_json_def decimal_value_def list_all_iff)
    then show "good V c [] (Some [(''retired'', retirement_json r')])"
      by (intro good_quiet [OF _ _ _ c]) (simp_all add: jwf_def jkeys_def)
  qed (use s in auto)
qed

lemma retire_keys_plain:
  assumes "retire_keys e s accountID ps changes = Inr changes'" "agrees s V" "jwf changes" "list_all (plain_change V) changes"
  shows "jwf changes' \<and> list_all (plain_change V) changes'"
  using assms
proof (induction ps arbitrary: changes)
  case (Cons a ps)
  obtain i p where a: "a = (i, p)" by (cases a)
  obtain o' where o: "require_doc s (''obligation'', i) = Inr o'" "proof_ok e accountID o' p"
    "retire_keys e s accountID ps (jset (''obligation'', i) (json_bytes (merge_fields o' (JObj [(''closed'', JBool True), (''closure_proof'', field p ''proof'')]))) changes) = Inr changes'"
    using Cons.prems(1) by (auto simp: a split: if_splits)
  obtain x where x: "require s (''obligation'', i) = Inr x" "json_doc (data x) = Inr o'" using require_docD [OF o(1)] by blast
  have "json_ok (field p ''proof'')" using o(2) by (auto simp: proof_ok_def)
  then have "plain_change V ((''obligation'', i), json_bytes (merge_fields o' (JObj [(''closed'', JBool True), (''closure_proof'', field p ''proof'')])))"
    using close_change [OF agrees_require [OF Cons.prems(2) x(1)] _ x(2)] by simp
  from plain_change_jset [OF Cons.prems(4) this] Cons.IH [OF o(3) Cons.prems(2)] Cons.prems(3) show ?case by simp
qed simp

lemma rg_retireUnsubmittedKeys:
  assumes s: "s \<in> S" "cipher_inverts (env_cipher e)"
  shows "rg (guar e) (known e S) (\<lambda>_ _. True) (retireUnsubmittedKeys e iv s accountID account proofs)"
  unfolding retireUnsubmittedKeys_def
proof (intro rg_if rg_Ret_bind rg_True [OF rg_commit [OF s allowedI]])
  fix changes V c
  assume ch: "sbind (require s (''account'', accountID)) (\<lambda>_. retire_keys e s accountID proofs [((''account'', accountID), account)]) = Inr changes"
    and V: "\<And>s'. s' \<in> S \<Longrightarrow> alike s' s \<Longrightarrow> agrees s' V" and c: "control_inv V c"
  have r: "retire_keys e s accountID proofs [((''account'', accountID), account)] = Inr changes" using ch by auto
  have "jwf changes \<and> list_all (plain_change V) changes"
    by (rule retire_keys_plain [OF r V [OF s(1) alike_self]]) (simp_all add: jwf_def jkeys_def account_change)
  then show "good V c changes None" using good_plain c by blast
qed simp

section \<open>Account transitions\<close>

lemma transition_inv_kept: "transition_inv t \<Longrightarrow> kept [''account_id'', ''reset'', ''recovery'', ''from_epoch''] t t' \<Longrightarrow> transition_inv t'"
  by (simp add: transition_inv_def kept_def)

lemma transition_change:
  assumes "store_ok V" "holds V r x" "fst r = ''transition''" "revision x \<noteq> 0" "json_doc (data x) = Inr t" "json_doc d = Inr t'"
    and "evolves_doc ''transition'' t t'"
  shows "plain_change V (r, d)"
proof -
  have v: "V r = Some (data x)" using assms(2,4) by (simp add: holds_def)
  have "transition_inv t" using store_ok_doc [OF assms(1) v] assms(3,5) by (simp add: document_ok_def)
  then have "transition_inv t'" by (rule transition_inv_kept) (use assms(7) in \<open>simp add: evolves_doc_def kept_def\<close>)
  then show ?thesis using v assms(3,5,6,7) by (simp add: plain_change_def change_ok_def document_ok_def evolves_def)
qed

lemma transition_doc_inv:
  assumes "transition_ok e accountID account reset bundle otks = Inr u" "js_wf reset" "js_wf bundle"
    and "field c ''accountEpoch'' = JNum ep" "recovery \<Longrightarrow> \<not> epoch_above (field c ''accountEpoch'') (field reset ''old_epoch'')"
  shows "\<exists>t'. json_doc (json_bytes (transition_doc accountID reset bundle recovery c)) = Inr t' \<and> transition_inv t'"
proof -
  obtain n where n: "field reset ''old_epoch'' = JNum n" "field reset ''new_epoch'' = JNum (n + 1)"
    using assms(1) by (auto simp: transition_ok_def split: if_splits option.splits jsv.splits)
  obtain rs where rs: "reset = JObj rs" using n(1) by (cases reset) simp_all
  define fs where "fs = [(''account_id'', JStr accountID), (''reset'', reset), (''bundle'', bundle)]
     @ opt_member recovery ''recovery'' (JBool True) @ opt_member recovery ''from_epoch'' (JNum ep)"
  have t: "transition_doc accountID reset bundle recovery c = JObj fs" by (simp add: transition_doc_def fs_def assms(4))
  have wf: "js_wf (JObj fs)" using assms(2,3) by (simp add: fs_def opt_member_def)
  have f: "field (JObj fs) ''reset'' = reset" "field (JObj fs) ''recovery'' = (if recovery then JBool True else JUndef)"
    "field (JObj fs) ''from_epoch'' = (if recovery then JNum ep else JUndef)" "field (JObj fs) ''account_id'' = JStr accountID" by (simp_all add: fs_def opt_member_def)
  have r: "field (norm (JObj fs)) ''reset'' = norm reset" using f(1) rs unfolding field_norm_JObj [OF wf] by simp
  have "field (norm reset) k = JNum m" if "field reset k = JNum m" for k m
    using that field_norm_JObj [OF assms(2) [unfolded rs]] by (simp add: rs del: norm.simps(4))
  moreover have "ep \<le> n" if recovery using assms(5) [OF that] assms(4) n(1) by (simp add: epoch_above_def)
  moreover have "field (norm (JObj fs)) ''recovery'' = (if recovery then JBool True else JUndef)"
    "field (norm (JObj fs)) ''from_epoch'' = (if recovery then JNum ep else JUndef)" "field (norm (JObj fs)) ''account_id'' = JStr accountID" using f unfolding field_norm_JObj [OF wf] by auto
  ultimately have "transition_inv (norm (JObj fs))" using n unfolding transition_inv_def r by auto
  then show ?thesis using json_doc_JObj [OF wf] t by auto
qed

lemma transition_keys_plain:
  assumes "transition_keys t accountID reset bundle seen os changes = Inr changes'" "agrees t V" "list_all (\<lambda>(i, o'). js_wf o') os"
    and "jwf changes" "list_all (plain_change V) changes"
  shows "jwf changes' \<and> list_all (plain_change V) changes'"
  using assms
proof (induction os arbitrary: changes seen)
  case (Cons a os)
  obtain i o' where a: "a = (i, o')" by (cases a)
  let ?r = "(''obligation'', i)"
  obtain x where x: "require t ?r = Inr x" "revision x = 0" "field o' ''account_id'' = JStr accountID"
    "transition_keys t accountID reset bundle (field o' ''key_id'' # seen) os (jset ?r (json_bytes o') changes) = Inr changes'"
    using Cons.prems(1) by (auto simp: a Let_def split: if_splits)
  have o: "js_wf o'" "list_all (\<lambda>(i, o'). js_wf o') os" using Cons.prems(3) by (simp_all add: a)
  obtain fs where "o' = JObj fs" using x(3) by (cases o') simp_all
  then have "plain_change V (?r, json_bytes o')"
    using new_plain [where V = V and r = ?r, OF _ json_doc_JObj [of fs]] holds_new [OF agrees_require [OF Cons.prems(2) x(1)] x(2)] o(1) by simp
  from Cons.IH [OF x(4) Cons.prems(2) o(2) _ plain_change_jset [OF Cons.prems(5) this]] Cons.prems(4) show ?case by simp
qed simp

lemma rg_prepareAccountTransition:
  assumes s: "s \<in> S" "cipher_inverts (env_cipher e)" and wf: "js_wf reset" "js_wf bundle" "list_all (\<lambda>(i, o'). js_wf o') otks"
  shows "rg (guar e) (known e S) (\<lambda>_ _. True) (prepareAccountTransition e iv s accountID account reset bundle otks recovery)"
  unfolding prepareAccountTransition_def Let_def
proof (intro rg_Ret_bind rg_extended_bind rg_if rg_True [OF rg_commit_empty] rg_True [OF rg_commit] allowedI rg_done)
  fix u t v c old x changes V c'
  let ?i = "str_of (field reset ''transition_id'')"
  let ?c0 = "[((''transition'', ?i), json_bytes (transition_doc accountID reset bundle recovery c)), ((''account'', accountID), account),
    ((''publication'', ?i), publication_doc accountID (jsonBytes bundle))]"
  assume ok: "transition_ok e accountID account reset bundle otks = Inr u" and ct: "control_doc t = Inr c"
    and old: "require t (''transition'', ?i) = Inr old" "\<not> revision old \<noteq> 0"
    and fence: "\<not> (truthy (field c ''sendingBlocked'') \<or> (if recovery then epoch_above (field c ''accountEpoch'') (field reset ''old_epoch'')
        else field c ''accountEpoch'' \<noteq> field reset ''old_epoch'') \<or> field c ''accountID'' = JStr accountID \<or> revision x \<noteq> 0)"
    and ch: "transition_keys t accountID reset bundle [] otks ?c0 = Inr changes"
    and V: "\<And>s'. s' \<in> insert t S \<Longrightarrow> alike s' t \<Longrightarrow> agrees s' V" and c': "control_doc t = Inr c'" "control_inv V c'"
  have c: "c' = c" using ct c'(1) by simp
  have at: "agrees t V" using V [of t] by simp
  obtain ep where ep: "field c ''accountEpoch'' = JNum ep" using c'(2) by (auto simp: c control_inv_def control_position_def split: jsv.splits)
  obtain t' where t': "json_doc (json_bytes (transition_doc accountID reset bundle recovery c)) = Inr t'" "transition_inv t'"
    using transition_doc_inv [OF ok wf(1,2) ep, of recovery] fence by (auto split: if_splits)
  have new: "V (''transition'', ?i) = None" using holds_new [OF agrees_require [OF at old(1)]] old(2) by simp
  have "plain_change V ((''transition'', ?i), json_bytes (transition_doc accountID reset bundle recovery c))"
    using t' new by (simp add: plain_change_def change_ok_def document_ok_def)
  moreover have "plain_change V ((''publication'', ?i), publication_doc accountID (jsonBytes bundle))"
    using free_change [of "(''publication'', ?i)" _ V] document_okI [OF json_doc_JObj]
    by (simp add: plain_change_def publication_doc_def js_wf_simps)
  ultimately have "jwf changes \<and> list_all (plain_change V) changes"
    by (intro transition_keys_plain [OF ch at wf(3)]) (simp_all add: jwf_def jkeys_def account_change)
  then show "good V c' changes (Some [(''sendingBlocked'', JBool True)])"
    by (intro good_quiet [OF _ _ _ c'(2)]) (auto simp: list_all_iff plain_change_def old_attempt_def)
qed (use s in auto)

lemma rg_prepareRecoveryTransition:
  assumes "s \<in> S" "cipher_inverts (env_cipher e)" "js_wf reset" "js_wf bundle" "list_all (\<lambda>(i, o'). js_wf o') otks"
  shows "rg (guar e) (known e S) (\<lambda>_ _. True) (prepareRecoveryTransition e iv s accountID account reset bundle otks)"
  unfolding prepareRecoveryTransition_def using rg_prepareAccountTransition [OF assms] by simp

lemma rg_pendingRefs:
  "rg (guar e) (known e S) (\<lambda>refs D. known e S D \<and> (\<forall>r \<in> set refs. fst r = kind)) (pendingRefs e kind after limit)"
  unfolding pendingRefs_def identityFence_def
proof (intro rg_if rg_error)
  show "rg (guar e) (known e S) (\<lambda>refs D. known e S D \<and> (\<forall>r \<in> set refs. fst r = kind))
    (bind (look (\<lambda>D. Inr (current_fence D))) (\<lambda>f. if \<not> active f then Ret (Inl Fenced) else look (\<lambda>D. Inr (refs_after e kind after limit D))))"
    by (rule rg_bind [OF rs.rg_look [where Q = "\<lambda>_. known e S"]])
       (auto simp: refs_after_def stable_conj intro: rs.rg_look)
qed

lemma owned_refs_subset: "owned_refs t account page = Inr own \<Longrightarrow> set own \<subseteq> set page"
  by (induction page arbitrary: own) (auto split: if_splits)

lemma rg_candidate_refs:
  assumes "\<forall>r \<in> set refs. fst r = ''obligation''"
  shows "rg (guar e) (known e S) (\<lambda>refs D. known e S D \<and> (\<forall>r \<in> set refs. fst r = ''obligation'')) (candidate_refs n e account after refs)"
  using assms
proof (induction n arbitrary: after refs)
  case (Suc n)
  let ?Q = "\<lambda>refs D. known e S D \<and> (\<forall>r \<in> set refs. fst r = ''obligation'')"
  show ?case unfolding candidate_refs.simps
  proof (rule rg_bind [OF rg_pendingRefs])
    fix page :: "ref list"
    show "stable (guar e) (\<lambda>D. known e S D \<and> (\<forall>r\<in>set page. fst r = ''obligation''))" by (simp add: stable_conj)
    show "rg (guar e) (\<lambda>D. known e S D \<and> (\<forall>r\<in>set page. fst r = ''obligation'')) ?Q
      (bind (read e page) (\<lambda>s. bind (Ret (owned_refs s account page)) (\<lambda>own.
         if length page < 200 then Ret (Inr (refs @ own)) else candidate_refs n e account (snd (last page)) (refs @ own))))"
    proof (cases "\<forall>r\<in>set page. fst r = ''obligation''")
      case True
      have "rg (guar e) (known e (insert t S)) ?Q (bind (Ret (owned_refs t account page)) (\<lambda>own.
         if length page < 200 then Ret (Inr (refs @ own)) else candidate_refs n e account (snd (last page)) (refs @ own)))" for t
      proof (rule rg_Ret_bind)
        fix own assume "owned_refs t account page = Inr own"
        then have "\<forall>r \<in> set (refs @ own). fst r = ''obligation''" using owned_refs_subset True Suc.prems by fastforce
        then show "rg (guar e) (known e (insert t S)) ?Q (if length page < 200 then Ret (Inr (refs @ own)) else candidate_refs n e account (snd (last page)) (refs @ own))"
          using rg_pre [OF Suc.IH [of "refs @ own"], of "known e (insert t S)"] known_mono [of e "insert t S" _ S] by (auto intro!: rg_Ret)
      qed
      then have "rg (guar e) (known e S) ?Q (bind (read e page) (\<lambda>s. bind (Ret (owned_refs s account page)) (\<lambda>own.
         if length page < 200 then Ret (Inr (refs @ own)) else candidate_refs n e account (snd (last page)) (refs @ own))))"
        by (rule rg_read_bind)
      then show ?thesis by (rule rg_pre) simp
    next
      case False
      then show ?thesis by (intro rg_False) blast
    qed
  qed
qed simp

lemma close_keys_plain:
  assumes "close_keys t i tr keys refs changes = Inr changes'" "agrees t V" "\<forall>r \<in> set refs. fst r = ''obligation''"
    and "jwf changes" "list_all (plain_change V) changes"
  shows "jwf changes' \<and> list_all (plain_change V) changes'"
  using assms
proof (induction refs arbitrary: changes keys)
  case (Cons r refs)
  let ?d = "\<lambda>o'. json_bytes (merge_fields o' (JObj [(''closed'', JBool True), (''closure_proof'', JStr (''abandoned-recovery:'' @ i))]))"
  obtain x o' keys' where x: "require t r = Inr x" "json_doc (data x) = Inr o'"
    "close_keys t i tr keys' refs (if truthy (field o' ''closed'') then changes else jset r (?d o') changes) = Inr changes'"
    using Cons.prems(1) by (auto split: if_splits)
  have "plain_change V (r, ?d o')"
    using close_change [OF agrees_require [OF Cons.prems(2) x(1)] _ x(2)] Cons.prems(3) by simp
  then have "jwf (if truthy (field o' ''closed'') then changes else jset r (?d o') changes)
    \<and> list_all (plain_change V) (if truthy (field o' ''closed'') then changes else jset r (?d o') changes)"
    using Cons.prems(4,5) plain_change_jset by simp
  then show ?case using Cons.IH [OF x(3) Cons.prems(2)] Cons.prems(3) by simp
qed (auto split: if_splits)

lemma good_blocked:
  assumes "jwf changes" "list_all (plain_change V) changes" "control_inv V c"
  shows "good V c changes (Some [(''sendingBlocked'', JBool b)])"
  by (rule good_quiet [OF assms(1) _ _ assms(3)]) (use assms(2) in \<open>auto simp: list_all_iff plain_change_def old_attempt_def\<close>)

lemma rg_abandonRecoveryTransition:
  assumes s: "s \<in> S" "cipher_inverts (env_cipher e)"
  shows "rg (guar e) (known e S) (\<lambda>_ _. True) (abandonRecoveryTransition pages e iv s i)"
  unfolding abandonRecoveryTransition_def
proof (intro rg_Ret_bind rg_if rg_done)
  let ?r = "(''transition'', i)"
  fix tr c assume tr: "require_doc s ?r = Inr tr"
  obtain x where x: "require s ?r = Inr x" "revision x \<noteq> 0" "json_doc (data x) = Inr tr" using require_docD [OF tr] by blast
  obtain tr' where tr': "json_doc (json_bytes (set_field ''abandoned'' (JBool True) tr)) = Inr tr'"
    "\<forall>k. k \<noteq> ''abandoned'' \<longrightarrow> field tr' k = field tr k"
    using json_doc_set_field [OF x(3), of "JBool True" "''abandoned''"] by auto
  let ?keys = "fold (\<lambda>k. jset (field k ''id'') (field k ''key'')) (arr_of (field (field tr ''bundle'') ''one_time_keys'')) []"
  assume nab: "\<not> truthy (field tr ''abandoned'')"
  have ev: "evolves_doc ''transition'' tr tr'" using tr'(2) nab by (simp add: evolves_doc_def kept_def once_def)
  show "rg (guar e) (known e S) (\<lambda>_ _. True) (bind (candidate_refs pages e (field tr ''account_id'') [] []) (\<lambda>refs.
    bind (extended e s refs) (\<lambda>fresh. bind (Ret (sbind (compare s fresh) (\<lambda>_. sbind (close_keys fresh i tr ?keys refs []) (\<lambda>changes.
       Inr (jset ?r (json_bytes (set_field ''abandoned'' (JBool True) tr)) changes))))) (\<lambda>changes.
     commit e iv fresh changes (Some [(''sendingBlocked'', JBool False)])))))"
  proof (rule rg_bind [OF rg_candidate_refs])
    fix refs :: "ref list"
    show "stable (guar e) (\<lambda>D. known e S D \<and> (\<forall>r\<in>set refs. fst r = ''obligation''))" by (simp add: stable_conj)
    show "rg (guar e) (\<lambda>D. known e S D \<and> (\<forall>r\<in>set refs. fst r = ''obligation'')) (\<lambda>_ _. True)
      (bind (extended e s refs) (\<lambda>fresh. bind (Ret (sbind (compare s fresh) (\<lambda>_. sbind (close_keys fresh i tr ?keys refs []) (\<lambda>changes.
       Inr (jset ?r (json_bytes (set_field ''abandoned'' (JBool True) tr)) changes))))) (\<lambda>changes.
       commit e iv fresh changes (Some [(''sendingBlocked'', JBool False)]))))"
    proof (cases "\<forall>r\<in>set refs. fst r = ''obligation''")
      case True
      have "rg (guar e) (known e S) (\<lambda>_ _. True)
        (bind (extended e s refs) (\<lambda>fresh. bind (Ret (sbind (compare s fresh) (\<lambda>_. sbind (close_keys fresh i tr ?keys refs []) (\<lambda>changes.
         Inr (jset ?r (json_bytes (set_field ''abandoned'' (JBool True) tr)) changes))))) (\<lambda>changes.
         commit e iv fresh changes (Some [(''sendingBlocked'', JBool False)]))))"
      proof (intro rg_extended_bind rg_Ret_bind rg_True [OF rg_commit] allowedI)
        fix t changes V c
        assume t: "generation (sn_fence t) = generation (sn_fence s)"
          and ch: "sbind (compare s t) (\<lambda>_. sbind (close_keys t i tr ?keys refs []) (\<lambda>changes.
             Inr (jset ?r (json_bytes (set_field ''abandoned'' (JBool True) tr)) changes))) = Inr changes"
          and V: "store_ok V" "\<And>s'. s' \<in> insert t S \<Longrightarrow> alike s' t \<Longrightarrow> agrees s' V" and c: "control_inv V c"
        obtain ch0 where ch0: "compare s t = Inr ()" "close_keys t i tr ?keys refs [] = Inr ch0"
          "changes = jset ?r (json_bytes (set_field ''abandoned'' (JBool True) tr)) ch0" using ch by auto
        have as: "agrees s V" using V(2) [of s] alikeI [OF t ch0(1)] s(1) by simp
        have "plain_change V (?r, json_bytes (set_field ''abandoned'' (JBool True) tr))"
          by (rule transition_change [OF V(1) agrees_require [OF as x(1)] _ x(2,3) tr'(1) ev]) simp
        moreover have "jwf ch0 \<and> list_all (plain_change V) ch0"
          by (rule close_keys_plain [OF ch0(2) V(2) [of t] True]) (simp_all add: jwf_def jkeys_def)
        ultimately show "good V c changes (Some [(''sendingBlocked'', JBool False)])"
          using good_blocked [OF _ _ c] plain_change_jset by (simp add: ch0(3))
      qed (use s in auto)
      then show ?thesis by (rule rg_pre) simp
    next
      case False
      then show ?thesis by (intro rg_False) blast
    qed
  qed simp
qed

end
