(* ===== verification/Ratchet_Sending.thy ===== *)
theory Ratchet_Sending
  imports Ratchet_Operations
begin

text \<open>
  Promotion of an account and sending keep the guarantee of the store. Promotion moves the control
  record to the next account epoch and back to attempt 0. A send writes one outbox record; one that
  carries an attempt takes the next attempt number of the current epoch.
\<close>

declare split_paired_All [simp del] split_paired_Ex [simp del]

section \<open>Promotion\<close>

lemma rg_promoteAccount:
  assumes s: "s \<in> S" "cipher_inverts (env_cipher e)" and wf: "js_wf receipt"
  shows "rg (guar e) (known e S) (\<lambda>_ _. True) (promoteAccount e iv s i receipt)"
  unfolding promoteAccount_def Let_def
proof (intro rg_Ret_bind rg_if rg_True [OF rg_commit_empty] rg_True [OF rg_commit] allowedI rg_done)
  fix t c V c'
  let ?r = "(''transition'', i)"
  let ?u = "[(''accountID'', field t ''account_id''), (''accountEpoch'', field (field t ''reset'') ''new_epoch''), (''nextAttempt'', JNum 0), (''sendingBlocked'', JBool False)]"
  assume t: "require_doc s ?r = Inr t" "\<not> truthy (field t ''receipt'')" and c: "control_doc s = Inr c" "control_doc s = Inr c'" "control_inv V c'"
    and ep: "\<not> (field c ''accountEpoch'' \<noteq> (if truthy (field t ''recovery'') then field t ''from_epoch'' else field (field t ''reset'') ''old_epoch'')
       \<or> \<not> truthy (field c ''sendingBlocked''))"
    and V: "store_ok V" "\<And>s'. s' \<in> S \<Longrightarrow> alike s' s \<Longrightarrow> agrees s' V"
  obtain x where x: "require s ?r = Inr x" "revision x \<noteq> 0" "json_doc (data x) = Inr t" using require_docD [OF t(1)] by blast
  obtain t' where t': "json_doc (json_bytes (set_field ''receipt'' receipt t)) = Inr t'" "\<forall>k. k \<noteq> ''receipt'' \<longrightarrow> field t' k = field t k"
    using json_doc_set_field [OF x(3) wf, of "''receipt''"] by auto
  have ev: "evolves_doc ''transition'' t t'" using t'(2) t(2) by (simp add: evolves_doc_def kept_def once_def)
  note h = agrees_require [OF V(2) [OF s(1) alike_self] x(1)]
  have ch: "plain_change V (?r, json_bytes (set_field ''receipt'' receipt t))"
    by (rule transition_change [OF V(1) h _ x(2,3) t'(1) ev]) simp
  have "V ?r = Some (data x)" using h x(2) by (simp add: holds_def)
  then have "transition_inv t" using store_ok_doc [OF V(1)] x(3) by (fastforce simp: document_ok_def)
  then obtain a n where n: "field t ''account_id'' = JStr a" "field (field t ''reset'') ''old_epoch'' = JNum n"
    "field (field t ''reset'') ''new_epoch'' = JNum (n + 1)" "truthy (field t ''recovery'') \<Longrightarrow> \<exists>f \<le> n. field t ''from_epoch'' = JNum f"
    by (auto simp: transition_inv_def)
  have o: "is_object c'" using c(3) by (simp add: control_inv_def)
  have le: "ep0 < n + 1" if "control_position c' = Some (ep0, q)" for ep0 q
  proof -
    have "field c ''accountEpoch'' = JNum ep0" using that c(1,2) by (auto simp: control_position_def split: jsv.splits)
    then show ?thesis using ep n(2,4) by (auto split: if_splits)
  qed
  have f: "field (assign (Some ?u) c') k = (if k = ''sendingBlocked'' then JBool False else if k = ''nextAttempt'' then JNum 0
    else if k = ''accountEpoch'' then JNum (n + 1) else if k = ''accountID'' then JStr a else field c' k)" for k
    using o n(1,3) by (simp add: assign_def field_set_field is_object_set_field)
  have "is_object (assign (Some ?u) c')" by (rule assign_is_object [OF o]) (simp add: n(1,3))
  moreover have "control_position (assign (Some ?u) c') = Some (n + 1, 0)" by (simp add: control_position_def f)
  moreover have "\<not> new_attempt V [(?r, d)] r k" for d r k by (auto simp: new_attempt_def)
  ultimately have "update_ok V c' (assign (Some ?u) c') [(?r, json_bytes (set_field ''receipt'' receipt t))]"
    using le unfolding update_ok_def by (auto simp: kept_def f)
  then show "good V c' [(?r, json_bytes (set_field ''receipt'' receipt t))] (Some ?u)"
    using ch by (simp add: good_def plain_change_def jwf_def jkeys_def)
qed (use s in auto)


section \<open>Sending\<close>

lemma retire_replaced_plain:
  assumes "retire_replaced s p changes = Inr changes'" "agrees s V" "jwf changes" "list_all (plain_change V) changes"
  shows "jwf changes' \<and> list_all (plain_change V) changes'"
proof (cases "truthy (field p ''replaces'')")
  case True
  let ?r = "(''session'', str_of (field p ''replaces''))"
  obtain old previous where o: "require s ?r = Inr old" "json_doc (data old) = Inr previous"
    "changes' = jset ?r (json_bytes (merge_fields previous (JObj [(''retired'', JBool True)]))) changes"
    using assms(1) True by (auto simp: retire_replaced_def Let_def split: if_splits)
  have "plain_change V (?r, json_bytes (merge_fields previous (JObj [(''retired'', JBool True)])))"
    using retire_change [OF agrees_require [OF assms(2) o(1)] _ o(2)] by (simp add: plain_change_def)
  then show ?thesis using assms(3,4) plain_change_jset by (simp add: o(3))
qed (use assms in \<open>simp add: retire_replaced_def\<close>)

lemma saved_packet_wf: "js_wf p \<Longrightarrow> js_wf (saved_packet p n)"
  by (simp add: saved_packet_def js_wf_field)

lemma send_packets_plain:
  assumes "send_packets now s is_attempt ps changes saved = Inr (changes', saved')" "agrees s V" "list_all js_wf ps"
    and "jwf changes" "list_all (plain_change V) changes" "list_all js_wf saved"
  shows "jwf changes' \<and> list_all (plain_change V) changes' \<and> list_all js_wf saved'"
  using assms
proof (induction ps arbitrary: changes saved)
  case (Cons p ps)
  let ?r = "(''session'', str_of (field p ''sessionID''))"
  obtain n d changes1 where o: "sessionValue now s ?r (field p ''state'') (field p ''context'') False (field p ''claim'') = Inr d"
    "retire_replaced s p (jset ?r d changes) = Inr changes1"
    "send_packets now s is_attempt ps changes1 (saved @ [saved_packet p n]) = Inr (changes', saved')"
    using Cons.prems(1) by (auto simp: Let_def split: if_splits)
  have p: "js_wf p" "list_all js_wf ps" using Cons.prems(3) by simp_all
  have "change_ok V (?r, d)" by (rule sessionValue_change [OF o(1) Cons.prems(2)]) (use p js_wf_field in auto)
  then have "list_all (plain_change V) (jset ?r d changes)" using plain_change_jset [OF Cons.prems(5)] by (simp add: plain_change_def)
  then have "jwf changes1 \<and> list_all (plain_change V) changes1"
    using retire_replaced_plain [OF o(2) Cons.prems(2)] Cons.prems(4) by simp
  then show ?case using Cons.IH [OF o(3) Cons.prems(2) p(2)] Cons.prems(6) saved_packet_wf [OF p(1)] by simp
qed simp

text \<open>The document of a new send, and the key of its attempt.\<close>

definition send_doc :: "jsv list \<Rightarrow> bytes \<Rightarrow> jsv \<Rightarrow> jsv" where
  "send_doc saved archive attempt = JObj ([(''status'', JStr ''pending''), (''packets'', JArr saved), (''archive'', num_array archive)]
     @ opt_member (truthy attempt) ''attempt'' attempt)"

lemma norm_present: "js_wf v \<Longrightarrow> field v k \<noteq> JUndef \<Longrightarrow> field (norm v) k = norm (field v k)"
proof (cases v)
  case (JObj fs)
  assume "js_wf v" "field v k \<noteq> JUndef"
  then show ?thesis using field_norm_JObj [of fs k] unfolding JObj by simp
qed simp_all

lemma norm_num: "js_wf v \<Longrightarrow> field v k = JNum n \<Longrightarrow> field (norm v) k = JNum n"
  using norm_present [of v k] by simp

lemma norm_str: "js_wf v \<Longrightarrow> field v k = JStr t \<Longrightarrow> field (norm v) k = JStr t"
  using norm_present [of v k] by simp

lemma norm_obj: "js_wf v \<Longrightarrow> field v k = JObj fs \<Longrightarrow> field (norm v) k = norm (JObj fs)"
  using norm_present [of v k] by simp

lemma send_doc_attempt:
  assumes "list_all js_wf saved" "js_wf attempt"
  shows "json_doc (json_bytes (send_doc saved archive attempt)) = Inr (norm (send_doc saved archive attempt))"
    and "\<not> truthy attempt \<Longrightarrow> attempt_of (json_bytes (send_doc saved archive attempt)) = None"
    and "truthy attempt \<Longrightarrow> field (field attempt ''manifest'') ''account_epoch'' = JNum ep
      \<Longrightarrow> attemptSequence (field (field attempt ''manifest'') ''attempt_id'') = Some q
      \<Longrightarrow> attempt_of (json_bytes (send_doc saved archive attempt)) = Some (ep, q)"
proof -
  define fs where "fs = [(''status'', JStr ''pending''), (''packets'', JArr saved), (''archive'', num_array archive)]
     @ opt_member (truthy attempt) ''attempt'' attempt"
  have sd: "send_doc saved archive attempt = JObj fs" by (simp add: send_doc_def fs_def)
  have wf: "js_wf (JObj fs)" using assms js_wf_simps(6) [of archive] by (simp add: fs_def opt_member_def)
  show doc: "json_doc (json_bytes (send_doc saved archive attempt)) = Inr (norm (send_doc saved archive attempt))"
    using json_doc_JObj [OF wf] by (simp add: sd)
  have fa: "field (JObj fs) ''attempt'' = (if truthy attempt then attempt else JUndef)" by (simp add: fs_def opt_member_def)
  show "attempt_of (json_bytes (send_doc saved archive attempt)) = None" if "\<not> truthy attempt"
  proof -
    have "field (norm (JObj fs)) ''attempt'' = JUndef" using fa that unfolding field_norm_JObj [OF wf] by simp
    then show ?thesis unfolding attempt_of_def doc by (simp add: sd attempt_key_def)
  qed
  show "attempt_of (json_bytes (send_doc saved archive attempt)) = Some (ep, q)"
    if t: "truthy attempt" "field (field attempt ''manifest'') ''account_epoch'' = JNum ep" "attemptSequence (field (field attempt ''manifest'') ''attempt_id'') = Some q"
  proof -
    obtain ms where ms: "field attempt ''manifest'' = JObj ms" using t(2) by (cases "field attempt ''manifest''") simp_all
    have wm: "js_wf (JObj ms)" using js_wf_field [OF assms(2), of "''manifest''"] ms by simp
    obtain i where i: "field (JObj ms) ''attempt_id'' = JStr i" using t(3) by (auto simp: attemptSequence_def ms split: jsv.splits)
    have "attempt \<noteq> JUndef" using t(1) by auto
    then have "field (norm (JObj fs)) ''attempt'' = norm attempt" using fa t(1) unfolding field_norm_JObj [OF wf] by auto
    then have "attempt_key (norm (JObj fs)) = Some (ep, q)"
      using t i norm_obj [OF assms(2) ms] norm_num [OF wm, of "''account_epoch''" ep] norm_str [OF wm i]
      by (simp add: attempt_key_def ms del: norm.simps field.simps)
    then show ?thesis unfolding attempt_of_def doc by (simp add: sd)
  qed
qed


lemma validateAttempt_epoch:
  assumes "validateAttempt e attempt packets = Inr u"
  shows "\<exists>ep. field (field attempt ''manifest'') ''account_epoch'' = JNum ep"
proof -
  have "validateManifest (field attempt ''manifest'') \<noteq> None"
    using assms by (auto simp: validateAttempt_def openAttempt_def Let_def split: option.splits if_splits)
  then have "safe_positive (field (field attempt ''manifest'') ''account_epoch'')"
    by (auto simp: validateManifest_def manifest_head_def split: if_splits)
  then show ?thesis by (auto simp: safe_positive_def is_safe_integer_iff)
qed

lemma new_attempt_jset:
  assumes "list_all (plain_change V) changes" "V (''outbox'', i) = None"
  shows "new_attempt V (jset (''outbox'', i) d changes) r k \<longleftrightarrow> r = (''outbox'', i) \<and> attempt_of d = Some k"
proof -
  have no: "(r, d') \<notin> set changes" if "fst r = ''outbox''" for d' using assms(1) that by (auto simp: list_all_iff plain_change_def)
  have "((''outbox'', i), d) \<in> set (jset (''outbox'', i) d changes)" by (rule jget_in) (simp add: jget_jset)
  moreover have "r = (''outbox'', i) \<and> d' = d" if "(r, d') \<in> set (jset (''outbox'', i) d changes)" "fst r = ''outbox''" for d'
    using set_jset_cases [OF that(1)] no [OF that(2)] by auto
  ultimately show ?thesis unfolding new_attempt_def using assms(2) by (metis fst_conv)
qed

lemma attempt_changes_plain:
  assumes "attempt_changes fresh i attempt = Inr (changes, upd)" "control_doc fresh = Inr c"
  shows "jwf changes \<and> list_all (plain_change V) changes
    \<and> (if truthy attempt then \<exists>q. field c ''nextAttempt'' = JNum (q - 1) \<and> attemptSequence (field (field attempt ''manifest'') ''attempt_id'') = Some q
         \<and> upd = Some [(''nextAttempt'', JNum q)] else upd = None)"
proof (cases "truthy attempt")
  case True
  let ?lr = "(''logical'', str_of (field (field attempt ''manifest'') ''logical_id''))"
  let ?d = "json_bytes (JObj [(''attemptID'', JStr i), (''state'', JStr ''pending'')])"
  have "plain_change V (?lr, ?d)"
    using free_change [of ?lr ?d V] document_okI [OF json_doc_JObj] by (simp add: plain_change_def)
  then show ?thesis using assms True
    by (auto simp: attempt_changes_def Let_def jwf_def jkeys_def split: if_splits option.splits jsv.splits)
qed (use assms in \<open>simp add: attempt_changes_def\<close>)

lemma plan_send_good:
  assumes plan: "plan_send now s fresh i packets archive attempt = Inr (changes, upd, result)"
    and ag: "agrees s V" and new: "V (''outbox'', i) = None" and c: "control_doc fresh = Inr c" "control_inv V c"
    and wf: "list_all js_wf packets" "js_wf attempt" and ep: "truthy attempt \<Longrightarrow> \<exists>n. field (field attempt ''manifest'') ''account_epoch'' = JNum n"
  shows "good V c changes upd"
proof -
  let ?r = "(''outbox'', i)"
  obtain ch0 ch1 saved where o: "attempt_changes fresh i attempt = Inr (ch0, upd)" "send_packets now s (truthy attempt) packets ch0 [] = Inr (ch1, saved)"
    "changes = jset ?r (json_bytes (send_doc saved archive attempt)) ch1"
    "truthy attempt \<Longrightarrow> field (field attempt ''manifest'') ''account_epoch'' = field c ''accountEpoch''"
    using plan c(1) by (auto simp: plan_send_def sendAuthority_def Let_def send_doc_def split: if_splits)
  note a = attempt_changes_plain [OF o(1) c(1), of V]
  have p: "jwf ch1 \<and> list_all (plain_change V) ch1 \<and> list_all js_wf saved"
    by (rule send_packets_plain [OF o(2) ag wf(1)]) (use a in simp_all)
  note d = send_doc_attempt [OF _ wf(2), of saved, where archive = archive]
  have "change_ok V (?r, json_bytes (send_doc saved archive attempt))"
    using new document_okI [OF d(1)] p by (simp add: change_ok_def)
  then have ok: "jwf changes" "list_all (change_ok V) changes"
    using p by (auto simp: o(3) list_all_iff plain_change_def dest!: set_jset_cases)
  note na = new_attempt_jset [of V ch1 i, OF _ new]
  show ?thesis
  proof (cases "truthy attempt")
    case True
    obtain q where q: "field c ''nextAttempt'' = JNum (q - 1)" "attemptSequence (field (field attempt ''manifest'') ''attempt_id'') = Some q"
      "upd = Some [(''nextAttempt'', JNum q)]" using a True by auto
    obtain n where n: "field c ''accountEpoch'' = JNum n" using ep [OF True] o(4) [OF True] by auto
    have oc: "is_object c" using c(2) by (simp add: control_inv_def)
    have f: "field (assign upd c) k = (if k = ''nextAttempt'' then JNum q else field c k)" for k
      using oc by (simp add: q(3) assign_def field_set_field)
    have "is_object (assign upd c)" unfolding q(3) by (rule assign_is_object [OF oc]) simp
    moreover have "control_position c = Some (n, q - 1)" "control_position (assign upd c) = Some (n, q)"
      by (simp_all add: control_position_def n q(1) f)
    moreover have "new_attempt V changes r k \<longleftrightarrow> r = ?r \<and> k = (n, q)" for r k
      using na p d(3) [OF _ True, of n q] n o(4) [OF True] q(2) by (auto simp: o(3))
    ultimately have "update_ok V c (assign upd c) changes" unfolding update_ok_def by (auto simp: kept_def f)
    then show ?thesis using ok by (simp add: good_def)
  next
    case False
    have "\<not> new_attempt V changes r k" for r k using na p d(2) False by (simp add: o(3))
    then show ?thesis using ok a False c(2) by (simp add: good_def update_ok_def assign_def kept_def control_inv_def)
  qed
qed

lemma rg_commitSend:
  assumes s: "s \<in> S" "cipher_inverts (env_cipher e)" and wf: "list_all js_wf packets" "js_wf attempt"
  shows "rg (guar e) (known e S) (\<lambda>_ _. True) (commitSend e now iv s i packets archive attempt)"
  unfolding commitSend_def
proof (intro rg_Ret_bind rg_extended_bind rg_if rg_empty_bind rg_done)
  fix u t old res
  assume g: "send_guard e i packets archive attempt = Inr u" and t: "generation (sn_fence t) = generation (sn_fence s)"
    and old: "require t (''outbox'', i) = Inr old" "\<not> revision old \<noteq> 0"
    and plan: "plan_send now s t i packets archive attempt = Inr res"
  obtain changes upd result where res: "res = (changes, upd, result)" by (cases res)
  show "rg (guar e) (known e (insert t S)) (\<lambda>_ _. True) (case res of (changes, upd, result) \<Rightarrow>
     bind (commit e iv t changes upd) (\<lambda>_. Ret (Inr (result, False))))"
    unfolding res prod.case
  proof (intro rg_commit_bind allowedI rg_done)
    fix V c assume V: "\<And>s'. s' \<in> insert t S \<Longrightarrow> alike s' t \<Longrightarrow> agrees s' V" and c: "control_doc t = Inr c" "control_inv V c"
    have "compare s t = Inr ()" using plan by (auto simp: plan_send_def res)
    then have ag: "agrees s V" using V [of s] alikeI [OF t] s(1) by simp
    have new: "V (''outbox'', i) = None" using holds_new [OF agrees_require [OF V [of t] old(1)]] old(2) by simp
    show "good V c changes upd"
      by (rule plan_send_good [OF plan [unfolded res] ag new c wf]) (use g validateAttempt_epoch in \<open>auto simp: send_guard_def\<close>)
  qed (use s in auto)
qed (use s in auto)

lemma rg_commitAttempt:
  assumes "s \<in> S" "cipher_inverts (env_cipher e)" "list_all js_wf packets" "js_wf manifest"
  shows "rg (guar e) (known e S) (\<lambda>_ _. True) (commitAttempt e now iv s manifest parts packets archive)"
  unfolding commitAttempt_def by (rule rg_commitSend [OF assms(1-3)]) (simp add: assms(4) list_all_iff)

end
