(* ===== verification/Share_Store.thy ===== *)
theory Share_Store
  imports Local_Db
begin

text \<open>
  Content shared into the app from the share sheet (mobile/src/core/share-store.js): joining the
  fields of a share to one text, and storing, reading and clearing the one share that is kept. A
  share may be stored while nobody is signed in; it is fenced to the generation in which it came.
  A file is its name, type and bytes. The text is decoded from what was sealed for it, which is UTF-8; where
  the code would put replacement characters for other bytes, the model has an error.
\<close>

definition MAX_SHARED_FILES :: nat where "MAX_SHARED_FILES = 10"

definition add_part :: "string \<Rightarrow> string list \<Rightarrow> string list" where
  "add_part part parts = (if part \<noteq> [] \<and> \<not> list_ex (\<lambda>existing. text_includes existing part) parts then parts @ [part] else parts)"

definition shareText :: "string \<Rightarrow> string \<Rightarrow> string \<Rightarrow> string" where
  "shareText title text url = join [CHR 0x0A] (fold add_part (map trim [title, text, url]) [])"

type_synonym plain_file = "string \<times> string \<times> bytes"

definition seal_file :: "cipher \<Rightarrow> bytes \<times> bytes \<Rightarrow> plain_file \<Rightarrow> shared_file prog" where
  "seal_file c rnd file = (case file of (name, kind, content) \<Rightarrow>
     fmap (\<lambda>r. \<lparr>sf_name = (if name = [] then ''shared'' else name), sf_type = kind, sf_record = r\<rparr>) (seal c (fst rnd) (snd rnd) [] content))"

primrec seal_files :: "cipher \<Rightarrow> (nat \<Rightarrow> bytes \<times> bytes) \<Rightarrow> plain_file list \<Rightarrow> shared_file list prog" where
  "seal_files c rnd [] = Ret (Inr [])"
| "seal_files c rnd (f # fs) = bind (seal_file c (rnd (Suc (length fs))) f) (\<lambda>x. fmap ((#) x) (seal_files c rnd fs))"

definition putShare :: "cipher \<Rightarrow> (nat \<Rightarrow> bytes \<times> bytes) \<Rightarrow> int \<Rightarrow> string \<Rightarrow> plain_file list \<Rightarrow> unit prog" where
  "putShare c rnd now text files = bind identityFence (\<lambda>fence.
     bind (seal_files c rnd (take MAX_SHARED_FILES files)) (\<lambda>sealedFiles.
     bind (seal c (fst (rnd 0)) (snd (rnd 0)) [] (utf8 text)) (\<lambda>t.
     fencedWrite fence True (\<lambda>D _. Inr (D\<lparr>share_rec := Some \<lparr>sh_at = now, sh_text = t, sh_files = sealedFiles\<rparr>\<rparr>, ())))))"

primrec unseal_files :: "cipher \<Rightarrow> shared_file list \<Rightarrow> plain_file list prog" where
  "unseal_files c [] = Ret (Inr [])"
| "unseal_files c (f # fs) = bind (unseal c (sf_record f) []) (\<lambda>b. fmap ((#) (sf_name f, sf_type f, b)) (unseal_files c fs))"

definition getShare :: "cipher \<Rightarrow> (int \<times> string \<times> plain_file list) option prog" where
  "getShare c = bind (look (\<lambda>D. Inr (share_rec D))) (\<lambda>held. case held of None \<Rightarrow> Ret (Inr None)
     | Some v \<Rightarrow> bind (unseal_files c (sh_files v)) (\<lambda>files.
         bind (unseal c (sh_text v) []) (\<lambda>b. case text_decode b of
           None \<Rightarrow> Ret (Inl Thrown) | Some t \<Rightarrow> Ret (Inr (Some (sh_at v, t, files))))))"

definition clearShare :: "unit prog" where
  "clearShare = Atomic (\<lambda>D. (D\<lparr>share_rec := None\<rparr>, Ret (Inr ())))"

end
