(* ===== verification/Ratchet_Tabs.thy ===== *)
theory Ratchet_Tabs
  imports Ratchet_Sending Share_Store
begin

text \<open>
  The operations of the local database (\<^verbatim>\<open>src/mobile/src/core/db.js\<close>), of the identity
  (\<^verbatim>\<open>identity-store.js\<close>) and of opening a ratchet store keep the guarantee of the ratchet records too:
  they leave the records and the key alone, or move the fence to a new generation.
\<close>

declare split_paired_All [simp del] split_paired_Ex [simp del]

section \<open>The local database and the identity keep the guarantee\<close>

lemma guar_frame:
  assumes "ratchet_recs D' = ratchet_recs D" "wrapping_key D' = wrapping_key D" "current_fence D' = current_fence D"
    and "signed_out_empty D \<Longrightarrow> signed_out_empty D'"
  shows "guar e D D'"
  by (rule guar_namespace [OF keeps_frame]) (use assms in \<open>simp_all add: raw_get_def\<close>)

definition keyed :: "bytes \<Rightarrow> store_env \<Rightarrow> snapshot set \<Rightarrow> db \<Rightarrow> bool" where  \<comment> \<open>the key is the wrapping key\<close>
  "keyed k e S D \<longleftrightarrow> known e S D \<and> wrapping_key D = Some k"

lemma keyed_stable [simp]: "stable (guar e) (keyed k e S)"
  unfolding stable_def keyed_def
proof (intro allI impI)
  fix D D' assume K: "known e S D \<and> wrapping_key D = Some k" and G: "guar e D D'"
  have "known e S D'" using known_stable [of e S] K G unfolding stable_def by blast
  moreover have "later e D D'" using guar_keeps [OF G] K by (simp add: keeps_def known_def)
  ultimately show "known e S D' \<and> wrapping_key D' = Some k" using K by (simp add: later_def)
qed

lemma new_key_guar:
  assumes "wrapping_key D = None" "ratchet_recs D = []"
  shows "guar e D (D\<lparr>wrapping_key := Some k\<rparr>)"
  unfolding guar_def
  by (intro allI impI keeps_frame) (use assms in \<open>simp_all add: raw_get_def current_fence_def signed_out_empty_def\<close>)

lemma known_guar: "known e S D \<Longrightarrow> guar e D D' \<Longrightarrow> known e S D'"
  using known_stable [of e S] unfolding stable_def by blast

lemma rg_wrappingKey: "rg (guar e) (known e S) (\<lambda>k. keyed k e S) (wrappingKey candidate create)"
  unfolding wrappingKey_def
proof (rule rg_bind [OF rs.rg_look [where Q = "\<lambda>x D. known e S D \<and> (\<forall>k. x = Some k \<longrightarrow> keyed k e S D)"]])
  fix x :: "bytes option"
  have "stable (guar e) (\<lambda>D. \<forall>k. x = Some k \<longrightarrow> keyed k e S D)" using keyed_stable [of e _ S] unfolding stable_def by blast
  then show "stable (guar e) (\<lambda>D. known e S D \<and> (\<forall>k. x = Some k \<longrightarrow> keyed k e S D))"
    "stable (guar e) (\<lambda>D. known e S D \<and> (\<forall>k. x = Some k \<longrightarrow> keyed k e S D))" by (simp_all add: stable_conj)
  let ?t = "\<lambda>D. case wrapping_key D of Some k \<Rightarrow> (D, Ret (Inr k))
     | None \<Rightarrow> if identity_rec D \<noteq> None \<or> ratchet_recs D \<noteq> [] \<or> share_rec D \<noteq> None \<or> list_ex (\<lambda>(st, k). st \<noteq> ''device'') (jkeys (sealed_recs D)) then (D, Ret (Inl Key_missing))
               else (D\<lparr>wrapping_key := Some candidate\<rparr>, Ret (Inr candidate))"
  have "rg (guar e) (known e S) (\<lambda>k. keyed k e S) (Atomic ?t)"
  proof (rule rs.rg_txn)
    fix D assume K: "known e S D"
    show "\<exists>r. snd (?t D) = Ret r \<and> guar e D (fst (?t D)) \<and> (\<forall>a. r = Inr a \<longrightarrow> keyed a e S (fst (?t D)))"
      using K new_key_guar [of D e candidate] known_guar [OF K new_key_guar [of D e candidate]] rs.G_refl [of e D]
      by (auto simp: keyed_def split: option.split)
  qed simp
  then show "rg (guar e) (\<lambda>D. known e S D \<and> (\<forall>k. x = Some k \<longrightarrow> keyed k e S D)) (\<lambda>k. keyed k e S) (case x of
       Some k \<Rightarrow> Ret (Inr k) | None \<Rightarrow> if \<not> create then Ret (Inl Key_missing) else Atomic ?t)"
    by (auto intro!: rg_Ret intro: rg_pre split: option.split)
qed (simp add: keyed_def)

lemma rg_seal: "rg (guar e) (known e S) (\<lambda>_. known e S) (seal c candidate iv ad plain)"
  unfolding seal_def by (rule rs.rg_fmap [OF rg_post [OF rg_wrappingKey]]) (simp_all add: keyed_def)

lemma rg_unseal: "rg (guar e) (known e S) (\<lambda>_. known e S) (unseal c r ad)"
  unfolding unseal_def by (rule rg_bind [OF rg_wrappingKey]) (auto simp: keyed_def intro!: rg_Ret split: option.split)

lemma rg_identityFence: "rg (guar e) (known e S) (\<lambda>_. known e S) identityFence"
  unfolding identityFence_def by (rule rs.rg_look) simp_all

lemma rg_fence: "rg (guar e) (known e S) (\<lambda>_. known e S) (case f of Some x \<Rightarrow> Ret (Inr x) | None \<Rightarrow> identityFence)"
  using rg_identityFence by (auto intro: rg_Ret split: option.split)

text \<open>Work of a fenced write that leaves the ratchet records, the key and the fence alone.\<close>

lemma rg_sealed_work:
  assumes "\<And>D D' a. work D (current_fence D) = Inr (D', a) \<Longrightarrow> \<exists>x y. D' = D\<lparr>sealed_recs := x, identity_rec := y\<rparr>"
  shows "rg (guar e) (known e S) (\<lambda>_. known e S) (fencedWrite f False work)"
proof (rule rs.rg_fencedWrite)
  fix D D' a assume K: "known e S D" and act: "active (current_fence D) \<or> False" and w: "work D (current_fence D) = Inr (D', a)"
  obtain x y where D': "D' = D\<lparr>sealed_recs := x, identity_rec := y\<rparr>" using assms [OF w] by blast
  have "guar e D D'" by (rule guar_frame) (use act in \<open>simp_all add: D' current_fence_def signed_out_empty_def\<close>)
  then show "guar e D D' \<and> known e S D'" using known_guar [OF K] by simp
qed simp

lemma put_rec_work: "\<exists>x y. put_rec st k r D = D\<lparr>sealed_recs := x, identity_rec := y\<rparr>" "\<exists>x y. D = D\<lparr>sealed_recs := x, identity_rec := y\<rparr>"
  "\<exists>x y. D\<lparr>sealed_recs := z\<rparr> = D\<lparr>sealed_recs := x, identity_rec := y\<rparr>" "\<exists>x y. D\<lparr>identity_rec := z'\<rparr> = D\<lparr>sealed_recs := x, identity_rec := y\<rparr>"
  unfolding put_rec_def
  by (rule exI [of _ "jset (st, k) r (sealed_recs D)"] exI [of _ "identity_rec D"] exI [of _ "sealed_recs D"] exI [of _ z] exI [of _ z'], rule exI [of _ "identity_rec D"] exI [of _ z'], simp)+

lemma rg_putSealedIn: "rg (guar e) (known e S) (\<lambda>_. known e S) (putSealedIn c candidate iv f st k v)"
  unfolding putSealedIn_def by (rule rg_bind [OF rg_seal]) (auto intro!: rg_sealed_work put_rec_work)

lemma rg_putSealed: "rg (guar e) (known e S) (\<lambda>_. known e S) (putSealed c candidate iv st k v)"
  unfolding putSealed_def by (rule rg_bind [OF rg_identityFence], simp, rule rg_bind [OF rg_seal]) (auto intro!: rg_sealed_work put_rec_work)

lemma rg_deleteKeyIn: "rg (guar e) (known e S) (\<lambda>_. known e S) (deleteKeyIn f st k)"
  unfolding deleteKeyIn_def by (auto intro!: rg_sealed_work put_rec_work)

lemma rg_deleteKey: "rg (guar e) (known e S) (\<lambda>_. known e S) (deleteKey st k)"
  unfolding deleteKey_def
proof (rule rs.rg_txn)
  fix D assume K: "known e S D"
  let ?D' = "D\<lparr>sealed_recs := jdel (st, k) (sealed_recs D)\<rparr>"
  have "guar e D ?D'" by (rule guar_frame) (simp_all add: current_fence_def signed_out_empty_def jdel_def)
  then show "\<exists>r. snd (?D', Ret (Inr ())) = Ret r \<and> guar e D (fst (?D', Ret (Inr ()))) \<and> (\<forall>a. r = Inr a \<longrightarrow> known e S (fst (?D', Ret (Inr ()))))"
    using known_guar [OF K] by simp
qed simp

lemma rg_read_sealed: "rg (guar e) (known e S) (\<lambda>_. known e S) (read_sealed c before)"
proof -
  have "rg (guar e) (known e S) (\<lambda>_. known e S) (bind (unseal c r []) (\<lambda>p. case bytes_json p of Some v \<Rightarrow> Ret (Inr v) | None \<Rightarrow> Ret (Inl Thrown)))" for r
    by (rule rg_bind [OF rg_unseal]) (auto intro!: rg_Ret split: option.split)
  then show ?thesis unfolding read_sealed_def by (auto intro!: rg_Ret split: option.split)
qed

lemma rg_getSealed: "rg (guar e) (known e S) (\<lambda>_. known e S) (getSealed c st k)"
  unfolding getSealed_def by (rule rg_bind [OF rs.rg_look [where Q = "\<lambda>_. known e S"]]) (simp_all add: rg_read_sealed)

lemma rg_update_attempt: "rg (guar e) (known e S) (\<lambda>_. known e S) (update_attempt c candidate iv st k mutate f)"
  unfolding update_attempt_def Let_def
proof (rule rg_bind [OF rs.rg_look [where Q = "\<lambda>_. known e S"]])
  fix b show "rg (guar e) (known e S) (\<lambda>_. known e S) (bind (catch (read_sealed c b) (\<lambda>_. Ret (Inl Unreadable)))
      (\<lambda>v. if mutate v = JUndef then Ret (Inr (Some v)) else bind (seal c candidate iv [] (json_bytes (mutate v)))
        (\<lambda>r. bind (case f of None \<Rightarrow> identityFence | Some f \<Rightarrow> Ret (Inr f)) (\<lambda>fence. fencedWrite fence False (\<lambda>D _.
           if sameRecord (jget (sealed_recs D) (st, k)) b then Inr (put_rec st k r D, Some (mutate v)) else Inr (D, None))))))"
  proof (rule rg_bind [OF rg_catch [OF rg_read_sealed]])
    fix v show "rg (guar e) (known e S) (\<lambda>_. known e S) (if mutate v = JUndef then Ret (Inr (Some v)) else bind (seal c candidate iv [] (json_bytes (mutate v)))
        (\<lambda>r. bind (case f of None \<Rightarrow> identityFence | Some f \<Rightarrow> Ret (Inr f)) (\<lambda>fence. fencedWrite fence False (\<lambda>D _.
           if sameRecord (jget (sealed_recs D) (st, k)) b then Inr (put_rec st k r D, Some (mutate v)) else Inr (D, None)))))"
      by (intro rg_if rg_Ret rg_bind [OF rg_seal] rg_bind [OF rg_fence] rg_sealed_work) (auto intro: put_rec_work split: if_splits)
  qed simp_all
qed simp_all

lemma rg_update_attempts: "rg (guar e) (known e S) (\<lambda>_. known e S) (update_attempts n c rnd st k mutate f)"
proof (induction n)
  case (Suc n)
  then show ?case unfolding update_attempts.simps
    by (intro rg_bind [OF rg_update_attempt]) (auto intro!: rg_Ret split: option.split)
qed simp


text \<open>Moving the fence: the records stay or are all cleared, and the generation grows.\<close>

lemma later_generation: "gen D < gen D' \<Longrightarrow> wrapping_key D' = wrapping_key D \<Longrightarrow> later e D D'"
  by (simp add: later_def)

lemma db_inv_empty: "ratchet_recs D = [] \<Longrightarrow> signed_out_empty D \<Longrightarrow> db_inv e D"
proof -
  assume r: "ratchet_recs D = []" and o: "signed_out_empty D"
  have n: "raw_get e D x = None" for x by (simp add: raw_get_def r)
  then have "docs e D = Map.empty" by (simp add: docs_def fun_eq_iff view_absent)
  then show ?thesis using r o n by (simp add: db_inv_def readable_def store_ok_def)
qed

lemma keeps_records: "db_inv e D \<Longrightarrow> ratchet_recs D' = ratchet_recs D \<Longrightarrow> wrapping_key D' = wrapping_key D \<Longrightarrow> signed_out_empty D' \<Longrightarrow> db_inv e D'"
proof -
  assume i: "db_inv e D" and r: "ratchet_recs D' = ratchet_recs D" and k: "wrapping_key D' = wrapping_key D" and o: "signed_out_empty D'"
  have rg: "raw_get e D' = raw_get e D" by (simp add: raw_get_def fun_eq_iff r)
  have v: "view e D' = view e D" "decode_at e D' = decode_at e D" using view_cong [of e D' _ D] k by (simp_all add: fun_eq_iff rg)
  have "docs e D' = docs e D" by (simp add: docs_def fun_eq_iff v)
  then show ?thesis using i o by (simp add: db_inv_def readable_def rg v r)
qed

lemma guar_moved:
  assumes "gen D < gen D'" "wrapping_key D' = wrapping_key D" "ratchet_recs D' = ratchet_recs D \<or> ratchet_recs D' = []" "signed_out_empty D'"
  shows "guar e D D'"
  unfolding guar_def keeps_def
proof (intro allI impI conjI)
  fix e' assume "db_inv e' D"
  then show "db_inv e' D'" using assms(3) keeps_records [OF _ _ assms(2,4)] db_inv_empty [OF _ assms(4)] by blast
qed (rule later_generation [OF assms(1,2)])

section \<open>The identity\<close>

lemma rg_saveIdentity: "rg (guar e) (known e S) (\<lambda>_ _. True) (saveIdentity c candidate iv identity meta onboarding fence replaceAccount)"
  unfolding saveIdentity_def
proof (intro rg_if rg_bind [OF rg_fence] rg_bind [OF rg_seal] rg_done rs.rg_fencedWrite)
  fix f r D D' nxt
  assume arg: "\<not> ((onboarding \<and> fence = None) \<or> (replaceAccount \<and> \<not> onboarding) \<or> \<not> valid_identity identity)"
    and K: "known e S D" and act: "active (current_fence D) \<or> onboarding"
    and w: "sbind (if onboarding then next_fence (current_fence D) True else Inr (current_fence D)) (\<lambda>nxt.
       Inr ((if replaceAccount then clear_account D else D)\<lparr>fence_rec := Some nxt, identity_rec := Some (r, meta)\<rparr>, nxt)) = Inr (D', nxt)"
  show "guar e D D' \<and> True"
  proof (cases onboarding)
    case True
    then have "nxt = \<lparr>generation = gen D + 1, active = True\<rparr>" "D' = (if replaceAccount then clear_account D else D)\<lparr>fence_rec := Some nxt, identity_rec := Some (r, meta)\<rparr>"
      using w by (auto simp: next_fence_def split: if_splits)
    then have "guar e D D'" by (intro guar_moved) (auto simp: clear_account_def current_fence_def signed_out_empty_def)
    then show ?thesis by simp
  next
    case False
    then have "D' = D\<lparr>fence_rec := Some (current_fence D), identity_rec := Some (r, meta)\<rparr>" using w arg by auto
    then have "guar e D D'" using act False by (intro guar_frame) (auto simp: current_fence_def signed_out_empty_def)
    then show ?thesis by simp
  qed
qed simp_all

lemma rg_clearIdentity: "rg (guar e) (known e S) (\<lambda>_ _. True) (clearIdentity expected)"
  unfolding clearIdentity_def Let_def
proof (rule rs.rg_txn)
  fix D
  have "guar e D ((clear_account D)\<lparr>fence_rec := Some nxt\<rparr>)" if "next_fence (current_fence D) False = Inr nxt" for nxt
    using that by (intro guar_moved) (auto simp: next_fence_def clear_account_def current_fence_def signed_out_empty_def split: if_splits)
  then show "\<exists>r. snd (if case expected of None \<Rightarrow> False | Some f \<Rightarrow> gen D \<noteq> generation f then (D, Ret (Inl Fenced))
      else case next_fence (current_fence D) False of Inl e \<Rightarrow> (D, Ret (Inl e)) | Inr nxt \<Rightarrow> (clear_account D\<lparr>fence_rec := Some nxt\<rparr>, Ret (Inr nxt))) = Ret r
    \<and> guar e D (fst (if case expected of None \<Rightarrow> False | Some f \<Rightarrow> gen D \<noteq> generation f then (D, Ret (Inl Fenced))
      else case next_fence (current_fence D) False of Inl e \<Rightarrow> (D, Ret (Inl e)) | Inr nxt \<Rightarrow> (clear_account D\<lparr>fence_rec := Some nxt\<rparr>, Ret (Inr nxt))))
    \<and> (\<forall>a. r = Inr a \<longrightarrow> True)"
    using rs.G_refl [of e D] by (auto split: sum.split option.split)
qed simp

lemma rg_updateMeta: "rg (guar e) (known e S) (\<lambda>_. known e S) (updateMeta patch fence)"
  unfolding updateMeta_def
  by (intro rg_bind [OF rg_fence] rg_sealed_work) (auto intro: put_rec_work split: option.splits)

lemma rg_assertIdentityFence: "rg (guar e) (known e S) (\<lambda>_. known e S) (assertIdentityFence f)"
  unfolding assertIdentityFence_def by (auto intro!: rg_sealed_work put_rec_work)

lemma rg_loadIdentity: "rg (guar e) (known e S) (\<lambda>_ _. True) (loadIdentity c)"
proof -
  let ?check = "\<lambda>f x. catch (bind (fencedWrite f False (\<lambda>D _. Inr (D, ()))) (\<lambda>_. Ret (Inr x))) (\<lambda>e. if e = Fenced then Ret (Inr None) else Ret (Inl e))"
  have "rg (guar e) (known e S) (\<lambda>_ _. True) (?check f x)" for f and x :: "(jsv \<times> jsv \<times> id_fence) option"
  proof (rule rg_catch)
    show "rg (guar e) (known e S) (\<lambda>_ _. True) (bind (fencedWrite f False (\<lambda>D _. Inr (D, ()))) (\<lambda>_. Ret (Inr x)))"
      by (rule rg_bind [OF rg_sealed_work]) (auto intro: put_rec_work)
  qed simp_all
  note w = this
  have "rg (guar e) (known e S) (\<lambda>_ _. True) (bind (unseal c r []) (\<lambda>plain. if length plain \<noteq> 160 then Ret (Inl Thrown)
      else ?check f (Some (JObj (split_identity identity_sizes plain), meta_of meta, f))))" for r f and meta :: jsv
    by (rule rg_bind [OF rg_unseal], simp) (intro rg_if rg_done w)
  note u = this
  show ?thesis unfolding loadIdentity_def
    by (intro rg_bind [OF rg_identityFence] rg_if rg_done rg_bind [OF rs.rg_look [where Q = "\<lambda>_. known e S"]]) (auto intro: u split: option.split)
qed

section \<open>Shares\<close>

lemma rg_seal_file: "rg (guar e) (known e S) (\<lambda>_. known e S) (seal_file c rnd f)"
  unfolding seal_file_def by (cases f) (simp add: rs.rg_fmap [OF rg_seal])

lemma rg_seal_files: "rg (guar e) (known e S) (\<lambda>_. known e S) (seal_files c rnd fs)"
  by (induction fs) (auto intro!: rg_Ret rg_bind [OF rg_seal_file] rs.rg_fmap)

lemma rg_share_work:
  assumes "\<And>D D' a. work D (current_fence D) = Inr (D', a) \<Longrightarrow> \<exists>x. D' = D\<lparr>share_rec := x\<rparr>"
  shows "rg (guar e) (known e S) (\<lambda>_. known e S) (fencedWrite f onboarding work)"
proof (rule rs.rg_fencedWrite)
  fix D D' a assume K: "known e S D" and w: "work D (current_fence D) = Inr (D', a)"
  obtain x where D': "D' = D\<lparr>share_rec := x\<rparr>" using assms [OF w] by blast
  have "guar e D D'" by (rule guar_frame) (simp_all add: D' current_fence_def signed_out_empty_def)
  then show "guar e D D' \<and> known e S D'" using known_guar [OF K] by simp
qed simp

lemma rg_putShare: "rg (guar e) (known e S) (\<lambda>_. known e S) (putShare c rnd now text files)"
  unfolding putShare_def
  by (intro rg_bind [OF rg_identityFence] rg_bind [OF rg_seal_files] rg_bind [OF rg_seal] rg_share_work) auto

lemma rg_unseal_files: "rg (guar e) (known e S) (\<lambda>_. known e S) (unseal_files c fs)"
  by (induction fs) (auto intro!: rg_Ret rg_bind [OF rg_unseal] rs.rg_fmap)

lemma rg_getShare: "rg (guar e) (known e S) (\<lambda>_. known e S) (getShare c)"
  unfolding getShare_def
proof (rule rg_bind [OF rs.rg_look [where Q = "\<lambda>_. known e S"]])
  fix held :: "share option"
  have "rg (guar e) (known e S) (\<lambda>_. known e S) (bind (unseal_files c (sh_files v)) (\<lambda>files. bind (unseal c (sh_text v) []) (\<lambda>b. case text_decode b of
      None \<Rightarrow> Ret (Inl Thrown) | Some t \<Rightarrow> Ret (Inr (Some (sh_at v, t, files))))))" for v
    by (intro rg_bind [OF rg_unseal_files] rg_bind [OF rg_unseal]) (auto intro!: rg_Ret split: option.split)
  then show "rg (guar e) (known e S) (\<lambda>_. known e S) (case held of None \<Rightarrow> Ret (Inr None)
     | Some v \<Rightarrow> bind (unseal_files c (sh_files v)) (\<lambda>files. bind (unseal c (sh_text v) []) (\<lambda>b. case text_decode b of
         None \<Rightarrow> Ret (Inl Thrown) | Some t \<Rightarrow> Ret (Inr (Some (sh_at v, t, files))))))"
    by (auto intro!: rg_Ret split: option.split)
qed simp_all

lemma rg_clearShare: "rg (guar e) (known e S) (\<lambda>_. known e S) clearShare"
  unfolding clearShare_def
proof (rule rs.rg_txn)
  fix D assume K: "known e S D"
  have "guar e D (D\<lparr>share_rec := None\<rparr>)" by (rule guar_frame) (simp_all add: current_fence_def signed_out_empty_def)
  then show "\<exists>r. snd (D\<lparr>share_rec := None\<rparr>, Ret (Inr ())) = Ret r \<and> guar e D (fst (D\<lparr>share_rec := None\<rparr>, Ret (Inr ())))
    \<and> (\<forall>a. r = Inr a \<longrightarrow> known e S (fst (D\<lparr>share_rec := None\<rparr>, Ret (Inr ()))))"
    using known_guar [OF K] by simp
qed simp

section \<open>Opening a store\<close>

lemma new_control_inv: "control_inv [ctl \<mapsto> json_bytes (new_control key)] (new_control key)"
proof -
  let ?V = "[ctl \<mapsto> json_bytes (new_control key)]"
  have "is_object (new_control key)" by (simp add: is_object_def new_control_def num_array_def list_all_iff)
  moreover have "accounts ?V (new_control key)" by (simp add: accounts_def stored_refs_def open_refs_def new_control_def ctl_def)
  moreover have "\<not> over_limits (new_control key) 0" by (simp add: over_limits_def new_control_def exceeds_def Limits_records_def Limits_bytes_def Limits_otks_def)
  moreover have "attempts_ok ?V 1 0" by (auto simp: attempts_ok_def attempt_at_def ctl_def split: if_splits)
  ultimately show ?thesis by (simp add: control_inv_def control_position_def) (simp add: new_control_def)
qed

lemma new_control_doc: "json_doc (json_bytes (new_control key)) = Inr (new_control key)"
  using new_control_inv [of key] json_doc_object by (simp add: control_inv_def)

lemma initialize_guar:
  assumes "known e S D" "wrapping_key D = Some k" "active (current_fence D)" "raw_get e D ctl = None" "cipher_inverts (env_cipher e)"
  shows "guar e D ((put_ratchet e ctl (encode e k iv ctl 1 (json_bytes (new_control key))) D)\<lparr>initialized := x\<rparr>)"
proof -
  let ?P = "put_ratchet e ctl (encode e k iv ctl 1 (json_bytes (new_control key))) D"
  let ?D' = "?P\<lparr>initialized := x\<rparr>"
  have inv: "jwf (ratchet_recs D)" "readable e D" "store_ok (docs e D)" using assms(1) by (auto simp: known_def db_inv_def)
  have v1: "version_ok 1" by (simp add: version_ok_def max_safe_integer_def)
  have same: "raw_get e ?D' = raw_get e ?P" "decode_at e ?D' = decode_at e ?P" by (simp_all add: raw_get_def decode_at_def fun_eq_iff)
  have rd: "readable e ?D'" using readable_put [OF assms(5,2) v1 inv(2)] by (simp add: readable_def same)
  have vw: "view e ?D' r = (if r = ctl then Some (1, json_bytes (new_control key)) else view e D r)" for r
    using view_put [OF assms(5,2) v1] by (simp add: view_def same)
  have "docs e D ctl = None" using assms(4) by (simp add: docs_def view_absent)
  then have emp: "docs e D = Map.empty" using inv(3) by (simp add: store_ok_def)
  have dc: "docs e ?D' = [ctl \<mapsto> json_bytes (new_control key)]"
  proof
    fix r show "docs e ?D' r = [ctl \<mapsto> json_bytes (new_control key)] r" using fun_cong [OF emp, of r] by (simp add: docs_def vw)
  qed
  have "store_ok (docs e ?D')" unfolding dc
    using new_control_inv [of key] new_control_doc [of key] by (simp add: store_ok_def document_ok_def) (simp add: ctl_def)
  moreover have "current_fence ?D' = current_fence D" by (simp add: current_fence_def)
  moreover have "jwf (ratchet_recs ?D')" using inv(1) by simp
  ultimately have "db_inv e ?D'" using rd assms(3) by (simp add: db_inv_def signed_out_empty_def)
  moreover have "same_generation e D ?D'"
    using current_revision_view [OF rd] current_revision_view [OF inv(2)] assms(4) emp
    by (auto simp: same_generation_def vw current_fence_def evolved_def view_absent)
  ultimately have "keeps e D ?D'" by (simp add: keeps_def later_def current_fence_def)
  then show ?thesis
    by (rule guar_namespace) (use inv(1) assms(3) in \<open>simp_all add: current_fence_def signed_out_empty_def put_ratchet_def jget_jset\<close>)
qed

lemma rg_initialize:
  assumes "cipher_inverts (env_cipher e)"
  shows "rg (guar e) (known e S) (\<lambda>_ _. True) (initialize e candidate iv key)"
  unfolding initialize_def
proof (rule rg_bind [OF rs.rg_look [where Q = "\<lambda>_. known e S"]])
  fix x :: "id_fence \<times> record_view \<times> int option"
  obtain f y mark where x: "x = (f, y, mark)" by (cases x)
  let ?w = "\<lambda>k. fencedWrite f False (\<lambda>D _. if raw_get e D ctl \<noteq> None then Inr (D, ())
           else Inr ((put_ratchet e ctl (encode e k iv ctl 1 (json_bytes (new_control key))) D)
                       \<lparr>initialized := jset (namespace e) (generation f) (initialized D)\<rparr>, ()))"
  have "rg (guar e) (keyed k e S) (\<lambda>_ _. True) (?w k)" for k
    by (rule rs.rg_fencedWrite) (use initialize_guar [OF _ _ _ _ assms] rs.G_refl in \<open>auto simp: keyed_def split: if_splits\<close>)
  then have "rg (guar e) (known e S) (\<lambda>_ _. True) (bind (wrappingKey candidate True) ?w)" by (intro rg_bind [OF rg_wrappingKey]) simp_all
  then have "rg (guar e) (known e S) (\<lambda>_ _. True) (bind (look (\<lambda>D. Inr (list_ex (\<lambda>(n, r). n = namespace e) (jkeys (ratchet_recs D))))) (\<lambda>some.
       if some then look (\<lambda>D. if raw_get e D ctl = None then Inl Corrupt else sbind (decode_at e D ctl) (\<lambda>_. Inr ()))
       else bind (wrappingKey candidate True) ?w))"
    by (intro rg_bind [OF rs.rg_look [where Q = "\<lambda>_. known e S"]] rg_if rs.rg_look) simp_all
  then show "rg (guar e) (known e S) (\<lambda>_ _. True) (case x of (f, x, mark) \<Rightarrow> if revision x \<noteq> 0 then Ret (sbind (json_doc (data x)) (\<lambda>c. ensure Corrupt (control_ok c)))
     else if mark = Some (generation f) then Ret (Inl Corrupt)
     else bind (look (\<lambda>D. Inr (list_ex (\<lambda>(n, r). n = namespace e) (jkeys (ratchet_recs D))))) (\<lambda>some.
       if some then look (\<lambda>D. if raw_get e D ctl = None then Inl Corrupt else sbind (decode_at e D ctl) (\<lambda>_. Inr ()))
       else bind (wrappingKey candidate True) (\<lambda>k.
         fencedWrite f False (\<lambda>D _. if raw_get e D ctl \<noteq> None then Inr (D, ())
           else Inr ((put_ratchet e ctl (encode e k iv ctl 1 (json_bytes (new_control key))) D)
                       \<lparr>initialized := jset (namespace e) (generation f) (initialized D)\<rparr>, ())))))"
    unfolding x prod.case by (intro rg_if rg_done)
qed simp_all

lemma rg_openRatchetStore:
  "cipher_inverts (env_cipher e) \<Longrightarrow> rg (guar e) (known e S) (\<lambda>_ _. True) (openRatchetStore e candidate iv key)"
  unfolding openRatchetStore_def using rg_initialize by (intro rg_if) simp_all

end
