(* ===== verification/Ratchet_Machine.thy ===== *)
theory Ratchet_Machine
  imports Ratchet_Tabs
begin

text \<open>
  Several tabs on one database. At any time any tab may start an operation, on snapshots that
  earlier reads returned, and each turn runs the next transaction of one started operation. Every
  state such a run reaches satisfies the invariant of the database, and its databases grow later.
\<close>

declare split_paired_All [simp del] split_paired_Ex [simp del]

section \<open>The operations a tab may start\<close>

datatype reply = Done | Snap snapshot

definition finished :: "'a prog \<Rightarrow> reply prog" where
  "finished = fmap (\<lambda>_. Done)"

text \<open>Every operation of a store, on the snapshots in \<open>S\<close>; values from JavaScript are well formed
  (an object has each key once). The snapshot a read returns can be used by later operations. Sealed values
  are stored under names that are not the database's own; in the device store the code uses one such
  name. \<^verbatim>\<open>clearStores\<close> is not here because no module of the app calls it.\<close>

definition free_name :: "string \<Rightarrow> string \<Rightarrow> bool" where
  "free_name st k \<longleftrightarrow> st \<noteq> ''ratchet'' \<and> st \<noteq> ''share'' \<and> (st = ''device'' \<longrightarrow> k = ''history-imports'')"

inductive operation :: "store_env \<Rightarrow> snapshot set \<Rightarrow> reply prog \<Rightarrow> bool" for e S where
  op_read: "operation e S (fmap Snap (read e refs))"
| op_validated: "s \<in> S \<Longrightarrow> operation e S (fmap Snap (validated e s refs))"
| op_extended: "s \<in> S \<Longrightarrow> operation e S (fmap Snap (extended e s refs))"
| op_open: "operation e S (finished (openRatchetStore e candidate iv key))"
| op_setTrust: "s \<in> S \<Longrightarrow> js_wf v \<Longrightarrow> operation e S (finished (setTrust e ivs s i v revoked))"
| op_commitSend: "s \<in> S \<Longrightarrow> list_all js_wf packets \<Longrightarrow> js_wf attempt \<Longrightarrow> operation e S (finished (commitSend e now ivs s i packets archive attempt))"
| op_commitAttempt: "s \<in> S \<Longrightarrow> list_all js_wf packets \<Longrightarrow> js_wf manifest \<Longrightarrow> operation e S (finished (commitAttempt e now ivs s manifest parts packets archive))"
| op_ack: "s \<in> S \<Longrightarrow> operation e S (finished (ack e ivs s i))"
| op_retrySend: "s \<in> S \<Longrightarrow> operation e S (finished (retrySend e s i))"
| op_commitReceive: "s \<in> S \<Longrightarrow> js_wf p \<Longrightarrow> operation e S (finished (commitReceive e now ivs s i p))"
| op_commitPublication: "s \<in> S \<Longrightarrow> list_all (\<lambda>(oid, o'). js_wf o') otks \<Longrightarrow> operation e S (finished (commitPublication e ivs s i account payload otks accountID))"
| op_reserveClaim: "s \<in> S \<Longrightarrow> operation e S (finished (reserveClaim e ivs s i trustID request))"
| op_attemptStatusRequest: "s \<in> S \<Longrightarrow> operation e S (finished (attemptStatusRequest e s i))"
| op_applyAttemptResult: "s \<in> S \<Longrightarrow> js_wf result \<Longrightarrow> operation e S (finished (applyAttemptResult e ivs s i result))"
| op_attemptRetirementRequest: "s \<in> S \<Longrightarrow> operation e S (finished (attemptRetirementRequest e s i))"
| op_attemptWire: "s \<in> S \<Longrightarrow> operation e S (finished (attemptWire e s i))"
| op_accountAuthority: "s \<in> S \<Longrightarrow> operation e S (finished (accountAuthority e s))"
| op_noteRetired: "s \<in> S \<Longrightarrow> operation e S (finished (noteRetired e ivs s i))"
| op_checkAccountAuthority: "s \<in> S \<Longrightarrow> operation e S (finished (checkAccountAuthority e s n account epoch))"
| op_pendingRefs: "operation e S (finished (pendingRefs e kind after limit))"
| op_prepareAccountTransition: "s \<in> S \<Longrightarrow> js_wf reset \<Longrightarrow> js_wf bundle \<Longrightarrow> list_all (\<lambda>(i, o'). js_wf o') otks
    \<Longrightarrow> operation e S (finished (prepareAccountTransition e ivs s accountID account reset bundle otks recovery))"
| op_prepareRecoveryTransition: "s \<in> S \<Longrightarrow> js_wf reset \<Longrightarrow> js_wf bundle \<Longrightarrow> list_all (\<lambda>(i, o'). js_wf o') otks
    \<Longrightarrow> operation e S (finished (prepareRecoveryTransition e ivs s accountID account reset bundle otks))"
| op_abandonRecoveryTransition: "s \<in> S \<Longrightarrow> operation e S (finished (abandonRecoveryTransition pages e ivs s i))"
| op_promoteAccount: "s \<in> S \<Longrightarrow> js_wf receipt \<Longrightarrow> operation e S (finished (promoteAccount e ivs s i receipt))"
| op_accountTransitionRequest: "s \<in> S \<Longrightarrow> operation e S (finished (accountTransitionRequest e s i))"
| op_retireUnsubmittedKeys: "s \<in> S \<Longrightarrow> operation e S (finished (retireUnsubmittedKeys e ivs s accountID account proofs))"
| op_retirePeerSessions: "s \<in> S \<Longrightarrow> operation e S (finished (retirePeerSessions e ivs s trustID reset ids))"
| op_saveIdentity: "operation e S (finished (saveIdentity (env_cipher e) candidate iv identity meta onboarding fence replaceAccount))"
| op_loadIdentity: "operation e S (finished (loadIdentity (env_cipher e)))"
| op_updateMeta: "operation e S (finished (updateMeta patch fence))"
| op_beginIdentity: "operation e S (finished beginIdentity)"
| op_assertIdentityFence: "operation e S (finished (assertIdentityFence f))"
| op_clearIdentity: "operation e S (finished (clearIdentity expected))"
| op_putSealed: "free_name st k \<Longrightarrow> operation e S (finished (putSealed (env_cipher e) candidate iv st k v))"
| op_putSealedIn: "free_name st k \<Longrightarrow> operation e S (finished (putSealedIn (env_cipher e) candidate iv f st k v))"
| op_updateSealed: "free_name st k \<Longrightarrow> operation e S (finished (updateSealed (env_cipher e) rnd st k mutate fence))"
| op_getSealed: "free_name st k \<Longrightarrow> operation e S (finished (getSealed (env_cipher e) st k))"
| op_deleteKey: "free_name st k \<Longrightarrow> operation e S (finished (deleteKey st k))"
| op_deleteKeyIn: "free_name st k \<Longrightarrow> operation e S (finished (deleteKeyIn f st k))"
| op_store_keys: "operation e S (finished (store_keys st))"
| op_putShare: "operation e S (finished (putShare (env_cipher e) rnd now text files))"
| op_getShare: "operation e S (finished (getShare (env_cipher e)))"
| op_clearShare: "operation e S (finished clearShare)"

definition returned :: "cipher \<Rightarrow> reply \<Rightarrow> db \<Rightarrow> bool" where  \<comment> \<open>a returned snapshot is genuine\<close>
  "returned c x D \<longleftrightarrow> (\<forall>s. x = Snap s \<longrightarrow> (\<exists>e. env_cipher e = c \<and> known e {s} D))"

lemma guar_cong: "env_cipher e' = env_cipher e \<Longrightarrow> guar e' = guar e"
  by (simp add: guar_def fun_eq_iff)

lemma returned_stable: "stable (guar e) (returned (env_cipher e) x)"
proof -
  have "known e' {s} D'" if "known e' {s} D" "guar e D D'" "env_cipher e' = env_cipher e" for e' s D D'
    using known_guar [of e' "{s}" D D'] that guar_cong [OF that(3)] by simp
  then show ?thesis unfolding stable_def returned_def by blast
qed

lemma genuine_cong:
  assumes "namespace e' = namespace e" "env_cipher e' = env_cipher e"
  shows "genuine e' s D = genuine e s D"
proof -
  have "docs e' D = docs e D" by (simp add: docs_def view_def fun_eq_iff decode_at_cong [OF assms])
  moreover have "current_revision e' D = current_revision e D" by (simp add: current_revision_def raw_get_def fun_eq_iff assms(1))
  ultimately show ?thesis by (simp add: genuine_def assms(1))
qed

lemma rg_finished: "rg (guar e) K (\<lambda>_ _. True) p \<Longrightarrow> rg (guar e) K (returned (env_cipher e)) (finished p)"
  unfolding finished_def by (rule rs.rg_fmap) (auto simp: returned_def intro: rg_post returned_stable)

lemma rg_snap: "rg (guar e) K (\<lambda>s. known e (insert s S)) p \<Longrightarrow> rg (guar e) K (returned (env_cipher e)) (fmap Snap p)"
proof (rule rs.rg_fmap [OF rg_post])
  fix s D assume "known e (insert s S) D"
  then have "known e {s} D" by (rule known_mono) simp
  then show "returned (env_cipher e) (Snap s) D" by (auto simp: returned_def)
qed (simp_all add: returned_stable)

lemma rg_look_only: "rg (guar e) (known e S) (\<lambda>_ _. True) (look f)"
  by (rule rs.rg_look) simp_all

lemma rg_updateSealed: "rg (guar e) (known e S) (\<lambda>_. known e S) (updateSealed c rnd st k mutate f)"
  unfolding updateSealed_def by (rule rg_update_attempts)

lemma rg_operation:
  assumes "operation e S p" "cipher_inverts (env_cipher e)"
  shows "rg (guar e) (known e S) (returned (env_cipher e)) p"
  using assms(1)
proof cases
  case (op_extended s refs)
  have "rg (guar e) (known e S) (\<lambda>t. known e (insert t S)) (extended e s refs)" by (rule rg_post [OF rg_extended]) simp
  then show ?thesis unfolding op_extended by (rule rg_snap)
qed (use assms(2) in \<open>simp_all add: beginIdentity_def store_keys_def validated_def rg_finished rg_snap [OF rg_read] rg_snap [OF rg_validated_from]
    rg_openRatchetStore rg_setTrust rg_commitSend rg_commitAttempt rg_ack rg_True [OF rg_retrySend] rg_commitReceive rg_commitPublication rg_reserveClaim
    rg_attemptStatusRequest rg_applyAttemptResult rg_attemptRetirementRequest rg_attemptWire rg_accountAuthority rg_noteRetired
    rg_checkAccountAuthority rg_True [OF rg_pendingRefs] rg_prepareAccountTransition rg_prepareRecoveryTransition rg_abandonRecoveryTransition
    rg_promoteAccount rg_accountTransitionRequest rg_retireUnsubmittedKeys rg_retirePeerSessions rg_saveIdentity rg_loadIdentity
    rg_True [OF rg_updateMeta] rg_True [OF rg_identityFence] rg_True [OF rg_assertIdentityFence] rg_clearIdentity rg_True [OF rg_putSealed]
    rg_True [OF rg_putSealedIn] rg_True [OF rg_updateSealed] rg_True [OF rg_getSealed] rg_True [OF rg_deleteKey] rg_True [OF rg_deleteKeyIn] rg_True [OF rg_putShare] rg_True [OF rg_getShare] rg_True [OF rg_clearShare] rg_look_only\<close>)


section \<open>The machine\<close>

record machine =
  database :: db
  tasks :: "reply prog list"

definition snapshots :: "machine \<Rightarrow> snapshot set" where
  "snapshots m = {s. Ret (Inr (Snap s)) \<in> set (tasks m)}"

definition first_machine :: machine where
  "first_machine = \<lparr>database = new_db, tasks = []\<rparr>"

inductive runs :: "cipher \<Rightarrow> machine \<Rightarrow> machine \<Rightarrow> bool" for c m where
  runs_refl: "runs c m m"
| runs_start: "runs c m m' \<Longrightarrow> env_cipher e = c \<Longrightarrow> operation e S p \<Longrightarrow> S \<subseteq> {s \<in> snapshots m'. sn_namespace s = namespace e}
    \<Longrightarrow> runs c m (m'\<lparr>tasks := tasks m' @ [p]\<rparr>)"
| runs_turn: "runs c m m' \<Longrightarrow> turn i (database m', tasks m') = (D, ps) \<Longrightarrow> runs c m \<lparr>database = D, tasks = ps\<rparr>"

abbreviation reachable :: "cipher \<Rightarrow> machine \<Rightarrow> bool" where
  "reachable c \<equiv> runs c first_machine"

definition machine_ok :: "cipher \<Rightarrow> machine \<Rightarrow> bool" where
  "machine_ok c m \<longleftrightarrow> (\<forall>e. env_cipher e = c \<longrightarrow> db_inv e (database m) \<and> list_all (guaranteed (guar e) (returned c) (database m)) (tasks m))"

lemma known_snapshots:
  assumes "machine_ok c m" "env_cipher e = c"
  shows "known e {s \<in> snapshots m. sn_namespace s = namespace e} (database m)"
proof -
  have "genuine e s (database m)" if s: "s \<in> snapshots m" "sn_namespace s = namespace e" for s
  proof -
    have "guaranteed (guar e) (returned c) (database m) (Ret (Inr (Snap s)))"
      using assms s(1) by (simp add: machine_ok_def snapshots_def list_all_iff)
    then have "returned c (Snap s) (database m)" by (auto simp: guaranteed_def elim!: rg_RetE)
    then obtain e' where e': "env_cipher e' = c" "genuine e' s (database m)" by (auto simp: returned_def known_def)
    then have "namespace e' = namespace e" using s(2) by (simp add: genuine_def)
    then show ?thesis using genuine_cong [of e' e] e' assms(2) by simp
  qed
  then show ?thesis using assms by (simp add: known_def machine_ok_def)
qed

lemma start_ok:
  assumes "machine_ok c m" "env_cipher e = c" "operation e S p" "S \<subseteq> {s \<in> snapshots m. sn_namespace s = namespace e}" "cipher_inverts c"
  shows "machine_ok c (m\<lparr>tasks := tasks m @ [p]\<rparr>)"
proof -
  have "guaranteed (guar e) (returned c) (database m) p"
    unfolding guaranteed_def using rg_operation [OF assms(3)] assms(2,5) known_mono [OF known_snapshots [OF assms(1,2)] assms(4)] known_stable by blast
  then have "guaranteed (guar e') (returned c) (database m) p" if "env_cipher e' = c" for e'
    using guar_cong [of e' e] that assms(2) by simp
  then show ?thesis using assms(1) by (simp add: machine_ok_def)
qed

lemma turn_ok:
  assumes "machine_ok c m" "turn i (database m, tasks m) = (D, ps)" "env_cipher e = c"
  shows "db_inv e D \<and> list_all (guaranteed (guar e) (returned c) D) ps \<and> later e (database m) D"
proof -
  have k: "db_inv e (database m)" "list_all (guaranteed (guar e) (returned c) (database m)) (tasks m)" using assms(1,3) by (simp_all add: machine_ok_def)
  have "guar e (database m) D \<and> list_all (guaranteed (guar e) (returned c) D) ps" by (rule rs.turn_guaranteed [OF k(2) assms(2)])
  then show ?thesis using guar_keeps [of e "database m" D] k(1) by (simp add: keeps_def)
qed

text \<open>Every run keeps the invariant, and the databases of a run are later and later.\<close>

lemma runs_ok:
  assumes "runs c m m'" "machine_ok c m" "cipher_inverts c"
  shows "machine_ok c m' \<and> (\<forall>e. env_cipher e = c \<longrightarrow> later e (database m) (database m'))"
  using assms(1)
proof induction
  case (runs_start m' e S p)
  then show ?case using start_ok [OF _ runs_start(2-4) assms(3)] by simp
next
  case (runs_turn m' i D ps)
  then show ?case using turn_ok [of c m' i D ps] later_trans by (fastforce simp: machine_ok_def)
qed (use assms(2) in simp)

lemma first_ok: "machine_ok c first_machine"
  by (simp add: machine_ok_def first_machine_def db_inv_empty new_db_def signed_out_empty_def current_fence_def defaultFence_def)

lemma reachable_ok: "reachable c m \<Longrightarrow> cipher_inverts c \<Longrightarrow> machine_ok c m"
  using runs_ok first_ok by blast

lemma runs_trans: "runs c m' m'' \<Longrightarrow> runs c m m' \<Longrightarrow> runs c m m''"
  by (induction rule: runs.induct) (auto intro: runs.intros)

lemma reachable_inv:
  assumes "reachable (env_cipher e) m" "cipher_inverts (env_cipher e)"
  shows "db_inv e (database m)"
  using reachable_ok [OF assms] by (simp add: machine_ok_def)

lemma reachable_later:
  assumes "reachable (env_cipher e) m" "runs (env_cipher e) m m'" "cipher_inverts (env_cipher e)"
  shows "later e (database m) (database m')"
  using runs_ok [OF assms(2) reachable_ok [OF assms(1,3)] assms(3)] by simp


section \<open>Operations run alone\<close>

lemma exec_bind: "exec (bind p f) D = (case exec p D of (D', Inl e) \<Rightarrow> (D', Inl e) | (D', Inr a) \<Rightarrow> exec (f a) D')"
proof (induction p arbitrary: D)
  case (Atomic t)
  show ?case using Atomic [OF rangeI, of "snd (t D)" D "fst (t D)"] by (cases "t D") (simp add: snds.simps)
qed (simp split: sum.split)

lemma exec_fmap: "exec (fmap f p) D = map_prod id (map_sum id f) (exec p D)"
  by (simp add: fmap_def exec_bind split: prod.split sum.split)

lemma turn_Atomic: "turn (length ps) (D, ps @ [Atomic t]) = (fst (t D), ps @ [snd (t D)])"
  by (simp add: turn_def nth_append split: prod.split)

text \<open>The last task of the machine can run to its end before any other task moves.\<close>

lemma runs_exec:
  assumes "runs c m \<lparr>database = D, tasks = ps @ [p]\<rparr>"
  shows "runs c m \<lparr>database = fst (exec p D), tasks = ps @ [Ret (snd (exec p D))]\<rparr>"
  using assms
proof (induction p arbitrary: D)
  case (Atomic t)
  have "runs c m \<lparr>database = fst (t D), tasks = ps @ [snd (t D)]\<rparr>" using runs_turn [OF Atomic.prems] turn_Atomic by fastforce
  from Atomic.IH [OF rangeI, of "snd (t D)" D, OF _ this] show ?case by (cases "t D") (simp add: snds.simps)
qed simp

lemma run_operation:
  assumes "operation e S p" "S \<subseteq> {s \<in> snapshots m. sn_namespace s = namespace e}"
  shows "\<exists>m'. runs (env_cipher e) m m' \<and> database m' = fst (exec p (database m))
    \<and> snapshots m \<subseteq> snapshots m' \<and> (\<forall>s. snd (exec p (database m)) = Inr (Snap s) \<longrightarrow> s \<in> snapshots m')"
proof -
  let ?m = "\<lparr>database = fst (exec p (database m)), tasks = tasks m @ [Ret (snd (exec p (database m)))]\<rparr>"
  have "runs (env_cipher e) m (m\<lparr>tasks := tasks m @ [p]\<rparr>)" by (rule runs_start [OF runs_refl refl assms])
  then have "runs (env_cipher e) m ?m" using runs_exec [of "env_cipher e" m "database m" "tasks m" p] by (cases m) simp
  then show ?thesis by (intro exI [of _ ?m]) (auto simp: snapshots_def)
qed

end
