(* ===== verification/Ratchet_Sample.thy ===== *)
theory Ratchet_Sample
  imports Ratchet_Machine
begin

text \<open>
  A sample run of the machine, on which the guarantees are applied: a store is opened, a peer is
  trusted, a message is sent and acknowledged; in another run the trust is revoked.
\<close>

declare split_paired_All [simp del] split_paired_Ex [simp del]

section \<open>A sample run\<close>

definition sample_cipher :: cipher where
  "sample_cipher = \<lparr>encrypt = \<lambda>k iv ad p. k @ p, decrypt = \<lambda>k iv ad c. if take (length k) c = k then Some (drop (length k) c) else None\<rparr>"

definition sample_store :: store_env where
  "sample_store = \<lparr>env_cipher = sample_cipher, env_curves = sample_curves, env_server = ''s'', env_principal = ''p'', env_device = ''d''\<rparr>"

definition sample_packet :: jsv where
  "sample_packet = JObj [(''sessionID'', JStr ''x''), (''trustID'', JStr ''t''), (''state'', JBytes [1, 2]),
     (''context'', JObj [(''peer_principal'', JStr ''b''), (''peer_device'', JStr ''e''), (''peer_identity'', JStr ''k''), (''scope'', JStr DEVICE_PAIR_SCOPE),
        (''protocol'', JStr ''noxa-olm-v1''), (''local_account_id'', JStr ''local''), (''local_epoch'', JNum 1), (''peer_epoch'', JNum 3)]),
     (''envelope'', JBytes [5])]"

definition opened_db :: db where
  "opened_db = fst (exec (openRatchetStore sample_store [1] [2] [7]) new_db)"

definition snap_at :: "ref list \<Rightarrow> db \<Rightarrow> snapshot" where
  "snap_at refs D = projr (take_snapshot sample_store refs D)"

definition trusted_db :: "bool \<Rightarrow> db \<Rightarrow> db" where
  "trusted_db revoked D = fst (exec (setTrust sample_store (\<lambda>_. [3]) (snap_at [(''trust'', ''t'')] D) ''t'' (JStr ''v'') revoked) D)"

definition send_refs :: "ref list" where
  "send_refs = [(''trust'', ''t''), (''session'', ''x'')]"

definition sent_db :: db where
  "sent_db = (let D = trusted_db False opened_db in fst (exec (commitSend sample_store 100 (\<lambda>_. [4]) (snap_at send_refs D) ''o'' [sample_packet] [9] JUndef) D))"

definition acked_db :: db where
  "acked_db = fst (exec (ack sample_store (\<lambda>_. [5]) (snap_at [(''outbox'', ''o'')] sent_db) ''o'') sent_db)"

lemma sample_inverts: "cipher_inverts (env_cipher sample_store)"
  by (simp add: cipher_inverts_def sample_store_def sample_cipher_def)

lemma exec_read: "validateRefs refs = Inr () \<Longrightarrow> exec (read e refs) D = (D, take_snapshot e refs D)"
  by (simp add: read_def look_def)

lemma run_read:
  assumes "take_snapshot e refs (database m) = Inr s" "validateRefs refs = Inr ()"
  shows "\<exists>m'. runs (env_cipher e) m m' \<and> database m' = database m \<and> s \<in> snapshots m' \<and> sn_namespace s = namespace e"
proof -
  have "sn_namespace s = namespace e" using assms(1) by (auto simp: take_snapshot_def split: if_splits option.splits)
  then show ?thesis
    using run_operation [OF op_read [of e "{}" refs], of m] by (auto simp: exec_fmap exec_read assms)
qed

lemma run_finished:
  assumes "operation e {s} (finished p)" "s \<in> snapshots m" "sn_namespace s = namespace e"
  shows "\<exists>m'. runs (env_cipher e) m m' \<and> database m' = fst (exec p (database m))"
  using run_operation [OF assms(1), of m] assms(2,3) by (auto simp: finished_def exec_fmap)

lemma run_on_snapshot:
  assumes "reachable (env_cipher sample_store) m" "\<not> isl (take_snapshot sample_store refs (database m))" "validateRefs refs = Inr ()"
    and "operation sample_store {snap_at refs (database m)} (finished p)"
  shows "\<exists>m1 m2. reachable (env_cipher sample_store) m1 \<and> database m1 = database m \<and> snap_at refs (database m) \<in> snapshots m1
    \<and> sn_namespace (snap_at refs (database m)) = namespace sample_store
    \<and> runs (env_cipher sample_store) m1 m2 \<and> reachable (env_cipher sample_store) m2 \<and> database m2 = fst (exec p (database m))"
proof -
  have "take_snapshot sample_store refs (database m) = Inr (snap_at refs (database m))" using assms(2) by (simp add: snap_at_def)
  then obtain m1 where m1: "runs (env_cipher sample_store) m m1" "database m1 = database m" "snap_at refs (database m) \<in> snapshots m1"
    "sn_namespace (snap_at refs (database m)) = namespace sample_store"
    using run_read [OF _ assms(3)] by blast
  have r: "reachable (env_cipher sample_store) m1" by (rule runs_trans [OF m1(1) assms(1)])
  obtain m2 where "runs (env_cipher sample_store) m1 m2" "database m2 = fst (exec p (database m))"
    using run_finished [OF assms(4) m1(3,4)] m1(2) by auto
  then show ?thesis using m1 r runs_trans by blast
qed

lemma opened_reachable: "\<exists>m. reachable (env_cipher sample_store) m \<and> database m = opened_db"
  using run_operation [OF op_open [of sample_store "{}" "[1]" "[2]" "[7]"], of first_machine]
  by (auto simp: finished_def exec_fmap first_machine_def opened_db_def)

lemma sample_refs: "validateRefs [(''trust'', ''t'')] = Inr ()" "validateRefs send_refs = Inr ()" "validateRefs [(''outbox'', ''o'')] = Inr ()"
  by code_simp+

lemma trusted_reachable:
  assumes "reachable (env_cipher sample_store) m" "\<not> isl (take_snapshot sample_store [(''trust'', ''t'')] (database m))"
  shows "\<exists>m1 m2. reachable (env_cipher sample_store) m1 \<and> database m1 = database m
    \<and> runs (env_cipher sample_store) m1 m2 \<and> reachable (env_cipher sample_store) m2 \<and> database m2 = trusted_db revoked (database m)"
proof -
  have "operation sample_store {snap_at [(''trust'', ''t'')] (database m)}
    (finished (setTrust sample_store (\<lambda>_. [3]) (snap_at [(''trust'', ''t'')] (database m)) ''t'' (JStr ''v'') revoked))"
    by (rule op_setTrust) simp_all
  from run_on_snapshot [OF assms sample_refs(1) this] show ?thesis unfolding trusted_db_def by blast
qed

text \<open>What is computed on the sample databases, once each.\<close>

definition sent_checks :: "db \<Rightarrow> bool" where
  "sent_checks D \<longleftrightarrow> \<not> isl (take_snapshot sample_store [(''outbox'', ''o'')] D) \<and> docs sample_store D ctl \<noteq> None
     \<and> docs sample_store D (''outbox'', ''o'') \<noteq> None \<and> gen D < max_safe_integer \<and> wrapping_key D = Some [1]
     \<and> \<not> isl (plan_commit sample_store (snap_at [(''outbox'', ''o'')] D) [((''outbox'', ''o''), [1])] None)"

definition revoked_checks :: "db \<Rightarrow> bool" where
  "revoked_checks D \<longleftrightarrow> \<not> isl (take_snapshot sample_store [(''trust'', ''t'')] D)
     \<and> (case docs sample_store D (''trust'', ''t'') of None \<Rightarrow> False
        | Some d \<Rightarrow> (case json_doc d of Inl _ \<Rightarrow> False | Inr v \<Rightarrow> truthy (field v ''revoked'')))"

lemma sample_checks:
  "\<not> isl (take_snapshot sample_store [(''trust'', ''t'')] opened_db)"
  "revoked_checks (trusted_db True opened_db)"
  "\<not> isl (take_snapshot sample_store send_refs (trusted_db False opened_db))"
  "sent_checks sent_db"
  by code_simp+

lemma sample_snapshots:
  "\<not> isl (take_snapshot sample_store [(''trust'', ''t'')] opened_db)"
  "\<not> isl (take_snapshot sample_store [(''trust'', ''t'')] (trusted_db True opened_db))"
  "\<not> isl (take_snapshot sample_store send_refs (trusted_db False opened_db))"
  "\<not> isl (take_snapshot sample_store [(''outbox'', ''o'')] sent_db)"
  using sample_checks by (simp_all add: sent_checks_def revoked_checks_def)

lemma commit_fence: "current_fence (fst (exec (commit e iv s ch upd) D)) = current_fence D"
  by (cases "plan_commit e s ch upd") (auto simp: commit_def commit_txn_def apsnd_def map_prod_def split: prod.split option.split)

lemma sample_fences: "current_fence (trusted_db revoked D) = current_fence D" "current_fence acked_db = current_fence sent_db"
  by (auto simp: trusted_db_def acked_db_def setTrust_def ack_def exec_bind commit_fence split: prod.split sum.split)

lemma sent_reachable:
  "\<exists>m1 m2. reachable (env_cipher sample_store) m1 \<and> database m1 = sent_db \<and> snap_at [(''outbox'', ''o'')] sent_db \<in> snapshots m1
    \<and> sn_namespace (snap_at [(''outbox'', ''o'')] sent_db) = namespace sample_store
    \<and> runs (env_cipher sample_store) m1 m2 \<and> database m2 = acked_db"
proof -
  obtain m0 where m0: "reachable (env_cipher sample_store) m0" "database m0 = opened_db" using opened_reachable by blast
  have s0: "\<not> isl (take_snapshot sample_store [(''trust'', ''t'')] (database m0))" using sample_snapshots(1) m0(2) by simp
  obtain m1 where m1: "reachable (env_cipher sample_store) m1" "database m1 = trusted_db False opened_db"
    using trusted_reachable [OF m0(1) s0, of False] m0(2) by auto
  have s1: "\<not> isl (take_snapshot sample_store send_refs (database m1))" using sample_snapshots(3) m1(2) by simp
  have "operation sample_store {snap_at send_refs (database m1)} (finished (commitSend sample_store 100 (\<lambda>_. [4]) (snap_at send_refs (database m1)) ''o'' [sample_packet] [9] JUndef))"
    by (rule op_commitSend) (simp_all add: sample_packet_def)
  from run_on_snapshot [OF m1(1) s1 sample_refs(2) this]
  obtain m2 where m2: "reachable (env_cipher sample_store) m2" "database m2 = sent_db"
    unfolding m1(2) sent_db_def Let_def by blast
  have s2: "\<not> isl (take_snapshot sample_store [(''outbox'', ''o'')] (database m2))" using sample_snapshots(4) m2(2) by simp
  have "operation sample_store {snap_at [(''outbox'', ''o'')] (database m2)} (finished (ack sample_store (\<lambda>_. [5]) (snap_at [(''outbox'', ''o'')] (database m2)) ''o''))"
    by (rule op_ack) simp
  from run_on_snapshot [OF m2(1) s2 sample_refs(3) this] show ?thesis unfolding m2(2) acked_db_def by blast
qed

lemma revoked_reachable:
  "\<exists>m1 m2. reachable (env_cipher sample_store) m1 \<and> database m1 = trusted_db True opened_db
    \<and> runs (env_cipher sample_store) m1 m2 \<and> database m2 = trusted_db True (trusted_db True opened_db)"
proof -
  obtain m0 where m0: "reachable (env_cipher sample_store) m0" "database m0 = opened_db" using opened_reachable by blast
  have s0: "\<not> isl (take_snapshot sample_store [(''trust'', ''t'')] (database m0))" using sample_snapshots(1) m0(2) by simp
  obtain m1 where m1: "reachable (env_cipher sample_store) m1" "database m1 = trusted_db True opened_db"
    using trusted_reachable [OF m0(1) s0, of True] m0(2) by auto
  have s1: "\<not> isl (take_snapshot sample_store [(''trust'', ''t'')] (database m1))" using sample_snapshots(2) m1(2) by simp
  show ?thesis using trusted_reachable [OF m1(1) s1, of True] unfolding m1(2) by blast
qed

end
