(* ===== verification/Ratchet_Safety.thy ===== *)
theory Ratchet_Safety
  imports Ratchet_Sample
begin

text \<open>
  What the ratchet store guarantees in every state that tabs reach, and from every such state on:
  exact counts, attempt numbers, a commit that is one compare and swap, documents that only evolve,
  an empty database after signing out and one wrapping key.
\<close>

declare split_paired_All [simp del] split_paired_Ex [simp del]

section \<open>An abstract store\<close>

text \<open>What a store promises its clients: one versioned map per generation of the account, changed by
  compare and swap. A swap names the versions it has seen; it writes all its records, each at its next
  version, or nothing.\<close>

record vault =
  v_generation :: int
  v_open :: bool
  v_records :: "ref \<Rightarrow> (int \<times> bytes) option"

definition v_version :: "vault \<Rightarrow> ref \<Rightarrow> int" where
  "v_version A r = (case v_records A r of None \<Rightarrow> 0 | Some (n, d) \<Rightarrow> n)"

definition swap :: "int \<Rightarrow> (ref \<times> int) list \<Rightarrow> (ref \<times> bytes) list \<Rightarrow> vault \<Rightarrow> vault \<times> (db_error + unit)" where
  "swap g seen writes A =
     (if \<not> v_open A \<or> v_generation A \<noteq> g then (A, Inl Fenced)
      else if list_ex (\<lambda>(r, n). v_version A r \<noteq> n) seen then (A, Inl Conflict)
      else (A\<lparr>v_records := (\<lambda>r. case map_of writes r of Some d \<Rightarrow> Some (v_version A r + 1, d) | None \<Rightarrow> v_records A r)\<rparr>, Inr ()))"

definition vault_of :: "store_env \<Rightarrow> db \<Rightarrow> vault" where
  "vault_of e D = \<lparr>v_generation = gen D, v_open = active (current_fence D), v_records = view e D\<rparr>"

definition seen_versions :: "snapshot \<Rightarrow> (ref \<times> int) list" where
  "seen_versions s = map (\<lambda>(r, x). (r, revision x)) (records s)"

lemma charge_valid: "charge s chs c n = Inr res \<Longrightarrow> r \<in> fst ` set chs \<Longrightarrow> validRef r"
proof (induction chs arbitrary: c n)
  case (Cons ch chs)
  obtain r' d where ch: "ch = (r', d)" by (cases ch)
  from charge_Cons [OF Cons.prems(1) [unfolded ch]] obtain c3 where "validRef r'" "charge s chs c3 (n + length d) = Inr res" by blast
  then show ?case using Cons by (auto simp: ch)
qed simp

lemma prepared_distinct:
  assumes "plan_commit e s changes upd = Inr prepared" "jwf changes"
  shows "distinct (map fst prepared) \<and> list_all (\<lambda>(r, d). version_ok (snapshot_revision s r + 1)) prepared \<and> fst ` set prepared \<subseteq> set (jkeys (records s))"
proof -
  obtain c0 c n where p: "charge s changes (assign upd c0) 0 = Inr (c, n)"
    "prepared = (if changes \<noteq> [] \<or> upd \<noteq> None then changes @ [(ctl, json_bytes c)] else [])"
    and ver: "list_all (\<lambda>(r, d). case jget (records s) r of Some x \<Rightarrow> version_ok (revision x + 1) | None \<Rightarrow> False) prepared"
    by (rule plan_commit_Inr [OF assms(1)])
  have "ctl \<notin> fst ` set changes" using charge_valid [OF p(1)] validRef_ctl by blast
  then have "distinct (map fst prepared)" using assms(2) by (simp add: p(2) jwf_def jkeys_def)
  moreover have "r \<in> set (jkeys (records s)) \<and> version_ok (snapshot_revision s r + 1)" if "(r, d) \<in> set prepared" for r d
    using ver that jhas_SomeI by (fastforce simp: list_all_iff snapshot_revision_def jhas_iff split: option.splits)
  ultimately show ?thesis by (fastforce simp: list_all_iff)
qed

lemma commit_txn_swap:
  assumes "db_inv e D" "genuine e s D" "cipher_inverts (env_cipher e)" "plan_commit e s changes upd = Inr prepared" "jwf changes"
  shows "map_prod (vault_of e) id (commit_txn e iv s prepared D) = swap (generation (sn_fence s)) (seen_versions s) prepared (vault_of e D)"
proof -
  obtain k where k: "wrapping_key D = Some k" using assms(2) by (auto simp: genuine_def)
  have rd: "readable e D" using assms(1) by (simp add: db_inv_def)
  have ver: "v_version (vault_of e D) r = current_revision e D r" for r
    by (simp add: v_version_def vault_of_def current_revision_view [OF rd] split: option.split)
  have seen: "list_ex (\<lambda>(r, n). v_version (vault_of e D) r \<noteq> n) (seen_versions s) \<longleftrightarrow> list_ex (\<lambda>(r, x). current_revision e D r \<noteq> revision x) (records s)"
    by (simp add: seen_versions_def ver list_ex_iff case_prod_beta)
  have vs: "v_generation (vault_of e D) = gen D" "v_open (vault_of e D) = active (current_fence D)" "v_records (vault_of e D) = view e D"
    by (simp_all add: vault_of_def)
  note pd = prepared_distinct [OF assms(4,5)]
  let ?ok = "active (current_fence D) \<and> gen D = generation (sn_fence s) \<and> \<not> list_ex (\<lambda>(r, x). current_revision e D r \<noteq> revision x) (records s)"
  show ?thesis
  proof (cases ?ok)
    case True
    let ?D' = "write_prepared e k iv s prepared D"
    have sr: "snapshot_revision s r = current_revision e D r" if "map_of prepared r = Some d" for r d
    proof -
      have "r \<in> set (jkeys (records s))" using pd map_of_SomeD [OF that] by (metis (no_types, lifting) fst_conv image_eqI subsetD)
      then obtain x where "jget (records s) r = Some x" using jget_Some_iff_in_keys [of r "records s"] by auto
      then show ?thesis using True jget_in by (fastforce simp: snapshot_revision_def list_ex_iff)
    qed
    have "view e ?D' = (\<lambda>r. case map_of prepared r of Some d \<Rightarrow> Some (current_revision e D r + 1, d) | None \<Rightarrow> view e D r)"
      using write_prepared_view(1) [OF assms(3) k, of prepared s iv] pd sr by (auto simp: fun_eq_iff split: option.splits)
    then have "vault_of e ?D' = (vault_of e D)\<lparr>v_records := (\<lambda>r. case map_of prepared r of Some d \<Rightarrow> Some (v_version (vault_of e D) r + 1, d) | None \<Rightarrow> v_records (vault_of e D) r)\<rparr>"
      unfolding ver vs by (simp add: vault_of_def)
    then show ?thesis using True k by (simp add: commit_txn_def swap_def seen vs)
  next
    case False
    then show ?thesis using k by (auto simp: commit_txn_def swap_def seen vs)
  qed
qed


section \<open>Guarantees\<close>

definition sent_snapshot :: snapshot where
  "sent_snapshot = snap_at [(''outbox'', ''o'')] sent_db"

lemma sent_facts:
  "docs sample_store sent_db ctl \<noteq> None" "docs sample_store sent_db (''outbox'', ''o'') \<noteq> None" "gen sent_db < max_safe_integer"
  "wrapping_key sent_db = Some [1]" "\<not> isl (plan_commit sample_store sent_snapshot [((''outbox'', ''o''), [1])] None)"
  using sample_checks(4) by (simp_all add: sent_checks_def sent_snapshot_def)

lemma some_env: "\<exists>e. env_cipher e = c"
  by (rule exI [of _ "undefined\<lparr>env_cipher := c\<rparr>"]) simp

lemma reachable_control:
  assumes "reachable (env_cipher e) m" "cipher_inverts (env_cipher e)" "docs e (database m) ctl = Some d"
  shows "\<exists>c. json_doc d = Inr c \<and> control_inv (docs e (database m)) c"
  using reachable_inv [OF assms(1,2)] assms(3) store_ok_doc [of "docs e (database m)" ctl d]
  by (auto simp: db_inv_def store_ok_def document_ok_def ctl_def)

text \<open>Property C3: in every state that any number of tabs reach, on every store of the database, the
  control record counts exactly: \<^verbatim>\<open>count\<close> is the number of stored records, \<^verbatim>\<open>bytes\<close> their total size,
  \<^verbatim>\<open>obligations\<close> the number of one-time keys neither consumed nor closed, and none of them exceeds its
  limit. Every stored record opens.\<close>

theorem store_counts_are_exact:
  assumes "reachable (env_cipher e) m" "cipher_inverts (env_cipher e)" "docs e (database m) ctl = Some d"
  shows "\<exists>c. json_doc d = Inr c
      \<and> field c ''count'' = JNum (int (card (stored_refs (docs e (database m)))))
      \<and> field c ''bytes'' = JNum (\<Sum>r\<in>stored_refs (docs e (database m)). int (length (the (docs e (database m) r))))
      \<and> field c ''obligations'' = JNum (int (card (open_refs (docs e (database m)))))
      \<and> int (card (stored_refs (docs e (database m)))) \<le> Limits_records
      \<and> (\<Sum>r\<in>stored_refs (docs e (database m)). int (length (the (docs e (database m) r)))) \<le> Limits_bytes
      \<and> card (open_refs (docs e (database m))) \<le> Limits_otks
      \<and> (\<forall>r. raw_get e (database m) r \<noteq> None \<longrightarrow> docs e (database m) r \<noteq> None)"
proof -
  obtain c where c: "json_doc d = Inr c" "control_inv (docs e (database m)) c" using reachable_control [OF assms] by blast
  have "readable e (database m)" using reachable_inv [OF assms(1,2)] by (simp add: db_inv_def)
  then have "raw_get e (database m) r \<noteq> None \<longrightarrow> docs e (database m) r \<noteq> None" for r
    using view_present [of e "database m" r] by (auto simp: docs_def)
  moreover have "accounts (docs e (database m)) c" "\<not> over_limits c 0" using c(2) by (simp_all add: control_inv_def)
  ultimately show ?thesis using c(1) by (auto simp: accounts_def over_limits_def exceeds_def)
qed

theorem store_counts_are_exact_witness:
  "\<exists>m d c. reachable (env_cipher sample_store) m \<and> database m = sent_db \<and> docs sample_store (database m) ctl = Some d \<and> json_doc d = Inr c
     \<and> field c ''count'' = JNum (int (card (stored_refs (docs sample_store (database m)))))
     \<and> int (card (stored_refs (docs sample_store (database m)))) \<le> Limits_records"
proof -
  obtain m where m: "reachable (env_cipher sample_store) m" "database m = sent_db" using sent_reachable by blast
  obtain d where d: "docs sample_store (database m) ctl = Some d" using sent_facts(1) m(2) by auto
  show ?thesis using store_counts_are_exact [OF m(1) sample_inverts d] m d by blast
qed

text \<open>Property C14: in every reachable state the stored attempts of a store are numbered without gaps or
  reuse: two different sends never carry the same account epoch and attempt number, no attempt is past
  the position of the control record, and every number up to it in the current epoch has its send.\<close>

theorem attempt_numbers_never_repeat:
  assumes "reachable (env_cipher e) m" "cipher_inverts (env_cipher e)" "docs e (database m) ctl = Some d"
  shows "\<exists>c ep q. json_doc d = Inr c \<and> field c ''accountEpoch'' = JNum ep \<and> field c ''nextAttempt'' = JNum q \<and> 1 \<le> ep \<and> 0 \<le> q
      \<and> (\<forall>r r' k. attempt_at (docs e (database m)) r = Some k \<longrightarrow> attempt_at (docs e (database m)) r' = Some k \<longrightarrow> r = r')
      \<and> (\<forall>r ep' q'. attempt_at (docs e (database m)) r = Some (ep', q') \<longrightarrow> ep' < ep \<or> ep' = ep \<and> q' \<le> q)
      \<and> (\<forall>q'. 1 \<le> q' \<longrightarrow> q' \<le> q \<longrightarrow> (\<exists>r. attempt_at (docs e (database m)) r = Some (ep, q')))"
proof -
  obtain c where c: "json_doc d = Inr c" "control_inv (docs e (database m)) c" using reachable_control [OF assms] by blast
  then obtain ep q where p: "control_position c = Some (ep, q)" "1 \<le> ep" "0 \<le> q" "attempts_ok (docs e (database m)) ep q"
    by (auto simp: control_inv_def)
  have f: "field c ''accountEpoch'' = JNum ep" "field c ''nextAttempt'' = JNum q" using p(1) by (auto simp: control_position_def split: jsv.splits)
  show ?thesis using c(1) f p(2,3) p(4) [unfolded attempts_ok_def] by blast
qed

theorem attempt_numbers_never_repeat_witness:
  "\<exists>m ep q. reachable (env_cipher sample_store) m \<and> database m = sent_db
     \<and> (\<forall>r ep' q'. attempt_at (docs sample_store (database m)) r = Some (ep', q') \<longrightarrow> ep' < ep \<or> ep' = ep \<and> q' \<le> q)"
proof -
  obtain m where m: "reachable (env_cipher sample_store) m" "database m = sent_db" using sent_reachable by blast
  obtain d where d: "docs sample_store (database m) ctl = Some d" using sent_facts(1) m(2) by auto
  show ?thesis using attempt_numbers_never_repeat [OF m(1) sample_inverts d] m by blast
qed

text \<open>Property C4: a commit is an atomic compare and swap on the store: run in any reachable state with a
  snapshot that any tab took, it does to the versioned records exactly what \<open>swap\<close> does with the
  snapshot's generation and versions, and gives the same result; on an error nothing has changed.\<close>

theorem commit_refines_swap:
  assumes "reachable (env_cipher e) m" "cipher_inverts (env_cipher e)" "s \<in> snapshots m" "sn_namespace s = namespace e"
    and "plan_commit e s changes upd = Inr prepared" "distinct (map fst changes)"
  shows "map_prod (vault_of e) id (exec (commit e iv s changes upd) (database m))
       = swap (generation (sn_fence s)) (seen_versions s) prepared (vault_of e (database m))"
proof -
  have k: "known e {s \<in> snapshots m. sn_namespace s = namespace e} (database m)"
    by (rule known_snapshots [OF reachable_ok [OF assms(1,2)] refl])
  have "exec (commit e iv s changes upd) (database m) = commit_txn e iv s prepared (database m)"
    by (simp add: commit_def assms(5) apsnd_def map_prod_def split: prod.split)
  then show ?thesis
    using commit_txn_swap [of e "database m" s changes upd prepared iv] k assms by (simp add: known_def jwf_def jkeys_def)
qed

theorem commit_refines_swap_witness:
  "\<exists>m prepared. reachable (env_cipher sample_store) m \<and> database m = sent_db
     \<and> plan_commit sample_store sent_snapshot [((''outbox'', ''o''), [1])] None = Inr prepared
     \<and> map_prod (vault_of sample_store) id (exec (commit sample_store (\<lambda>_. [6]) sent_snapshot [((''outbox'', ''o''), [1])] None) (database m))
       = swap (generation (sn_fence sent_snapshot)) (seen_versions sent_snapshot) prepared (vault_of sample_store (database m))"
proof -
  obtain m where m: "reachable (env_cipher sample_store) m" "database m = sent_db" "sent_snapshot \<in> snapshots m"
    "sn_namespace sent_snapshot = namespace sample_store"
    using sent_reachable unfolding sent_snapshot_def by blast
  obtain prepared where p: "plan_commit sample_store sent_snapshot [((''outbox'', ''o''), [1])] None = Inr prepared"
    using sent_facts(5) by (cases "plan_commit sample_store sent_snapshot [((''outbox'', ''o''), [1])] None") simp_all
  have "distinct (map fst [((''outbox'', ''o''), [1 :: 8 word])])" by simp
  from commit_refines_swap [OF m(1) sample_inverts m(3,4) p this] m p show ?thesis by blast
qed

text \<open>What stays of a document while the account's generation lasts.\<close>

lemma document_evolves:
  assumes "reachable (env_cipher e) m" "runs (env_cipher e) m m'" "cipher_inverts (env_cipher e)" "gen (database m') = gen (database m)"
    and "docs e (database m) r = Some d"
  shows "\<exists>d'. docs e (database m') r = Some d' \<and> evolves r d d'"
  using reachable_later [OF assms(1-3)] assms(4,5) by (auto simp: later_def same_generation_def evolved_def)

text \<open>Property C15: as long as the account's generation lasts, whatever any tabs do, a stored send keeps
  its attempt, packets and archive, and its receipt once it has one; a received message and a claim
  stay byte for byte what they were.\<close>

theorem sends_and_receipts_never_change:
  assumes "reachable (env_cipher e) m" "runs (env_cipher e) m m'" "cipher_inverts (env_cipher e)" "gen (database m') = gen (database m)"
    and "docs e (database m) (kind, i) = Some d"
  shows "\<exists>d'. docs e (database m') (kind, i) = Some d' \<and> (kind \<in> {''inbox'', ''claim''} \<longrightarrow> d' = d)
     \<and> (\<forall>v. kind = ''outbox'' \<longrightarrow> json_doc d = Inr v \<longrightarrow> (\<exists>v'. json_doc d' = Inr v'
          \<and> (\<forall>k \<in> {''attempt'', ''packets'', ''archive''}. field v' k = field v k)
          \<and> (truthy (field v ''receipt'') \<longrightarrow> field v' ''receipt'' = field v ''receipt'')))"
proof -
  obtain d' where d': "docs e (database m') (kind, i) = Some d'" "evolves (kind, i) d d'" using document_evolves [OF assms] by blast
  have "kind \<in> {''inbox'', ''claim''} \<longrightarrow> d' = d" using d'(2) by (auto simp: evolves_def)
  moreover have "\<exists>v'. json_doc d' = Inr v' \<and> (\<forall>k \<in> {''attempt'', ''packets'', ''archive''}. field v' k = field v k)
          \<and> (truthy (field v ''receipt'') \<longrightarrow> field v' ''receipt'' = field v ''receipt'')" if "kind = ''outbox''" "json_doc d = Inr v" for v
    using d'(2) that by (auto simp: evolves_def evolves_doc_def kept_def once_def)
  ultimately show ?thesis using d'(1) by blast
qed

theorem sends_and_receipts_never_change_witness:
  "\<exists>m m' d d'. reachable (env_cipher sample_store) m \<and> runs (env_cipher sample_store) m m' \<and> database m = sent_db \<and> database m' = acked_db
     \<and> docs sample_store (database m) (''outbox'', ''o'') = Some d \<and> docs sample_store (database m') (''outbox'', ''o'') = Some d'
     \<and> (\<forall>v. json_doc d = Inr v \<longrightarrow> (\<exists>v'. json_doc d' = Inr v' \<and> (\<forall>k \<in> {''attempt'', ''packets'', ''archive''}. field v' k = field v k)
          \<and> (truthy (field v ''receipt'') \<longrightarrow> field v' ''receipt'' = field v ''receipt'')))"
proof -
  obtain m m' where m: "reachable (env_cipher sample_store) m" "runs (env_cipher sample_store) m m'" "database m = sent_db" "database m' = acked_db"
    using sent_reachable by blast
  obtain d where d: "docs sample_store (database m) (''outbox'', ''o'') = Some d" using sent_facts(2) m(3) by auto
  have "gen (database m') = gen (database m)" using sample_fences(2) m by simp
  from sends_and_receipts_never_change [OF m(1,2) sample_inverts this d]
  obtain d' where "docs sample_store (database m') (''outbox'', ''o'') = Some d'"
    "\<forall>v. json_doc d = Inr v \<longrightarrow> (\<exists>v'. json_doc d' = Inr v' \<and> (\<forall>k \<in> {''attempt'', ''packets'', ''archive''}. field v' k = field v k)
          \<and> (truthy (field v ''receipt'') \<longrightarrow> field v' ''receipt'' = field v ''receipt''))" by auto
  with m d show ?thesis by (intro exI [of _ m] exI [of _ m'] exI [of _ d] exI [of _ d']) simp
qed

text \<open>Property C16: as long as the account's generation lasts, revocation and retirement are permanent: a
  revoked trust record stays revoked, a retired session retired, and a one-time key consumed or closed
  is never open again.\<close>

theorem revocation_is_permanent:
  assumes "reachable (env_cipher e) m" "runs (env_cipher e) m m'" "cipher_inverts (env_cipher e)" "gen (database m') = gen (database m)"
    and "docs e (database m) (kind, i) = Some d" "json_doc d = Inr v" "kind \<in> {''trust'', ''session'', ''obligation''}"
  shows "\<exists>d' v'. docs e (database m') (kind, i) = Some d' \<and> json_doc d' = Inr v'
     \<and> (kind = ''trust'' \<and> truthy (field v ''revoked'') \<longrightarrow> truthy (field v' ''revoked''))
     \<and> (kind = ''session'' \<and> truthy (field v ''retired'') \<longrightarrow> truthy (field v' ''retired''))
     \<and> (kind = ''obligation'' \<and> \<not> is_open v \<longrightarrow> \<not> is_open v')"
proof -
  obtain d' where d': "docs e (database m') (kind, i) = Some d'" "evolves (kind, i) d d'" using document_evolves [OF assms(1-5)] by blast
  obtain v' where "json_doc d' = Inr v'" "evolves_doc kind v v'" using d'(2) assms(6,7) by (auto simp: evolves_def)
  then show ?thesis using d'(1) assms(7) by (auto simp: evolves_doc_def)
qed

theorem revocation_is_permanent_witness:
  "\<exists>m m' d' v'. reachable (env_cipher sample_store) m \<and> runs (env_cipher sample_store) m m'
     \<and> database m = trusted_db True opened_db \<and> database m' = trusted_db True (trusted_db True opened_db)
     \<and> docs sample_store (database m') (''trust'', ''t'') = Some d' \<and> json_doc d' = Inr v' \<and> truthy (field v' ''revoked'')"
proof -
  obtain m m' where m: "reachable (env_cipher sample_store) m" "runs (env_cipher sample_store) m m'" "database m = trusted_db True opened_db"
    "database m' = trusted_db True (trusted_db True opened_db)"
    using revoked_reachable by blast
  obtain d v where d: "docs sample_store (database m) (''trust'', ''t'') = Some d" "json_doc d = Inr v" "truthy (field v ''revoked'')"
    using sample_checks(2) m(3) by (auto simp: revoked_checks_def split: option.splits sum.splits)
  have "gen (database m') = gen (database m)" using sample_fences(1) m by simp
  from revocation_is_permanent [OF m(1,2) sample_inverts this d(1,2)] d(3)
  obtain d' v' where "docs sample_store (database m') (''trust'', ''t'') = Some d'" "json_doc d' = Inr v'" "truthy (field v' ''revoked'')" by auto
  with m show ?thesis by (intro exI [of _ m] exI [of _ m'] exI [of _ d'] exI [of _ v']) simp
qed

text \<open>Property C18: as long as the account's generation lasts, the account epoch of a store never
  decreases; while it stays the same, so does the account, and the attempt number never decreases.\<close>

theorem account_epoch_never_decreases:
  assumes "reachable (env_cipher e) m" "runs (env_cipher e) m m'" "cipher_inverts (env_cipher e)" "gen (database m') = gen (database m)"
    and "docs e (database m) ctl = Some d"
  shows "\<exists>d' c c' ep q ep' q'. docs e (database m') ctl = Some d' \<and> json_doc d = Inr c \<and> json_doc d' = Inr c'
     \<and> control_position c = Some (ep, q) \<and> control_position c' = Some (ep', q')
     \<and> (ep < ep' \<or> ep = ep' \<and> q \<le> q' \<and> field c' ''accountID'' = field c ''accountID'')"
proof -
  obtain d' where d': "docs e (database m') ctl = Some d'" "evolves ctl d d'" using document_evolves [OF assms] by blast
  obtain c where c: "json_doc d = Inr c" "control_inv (docs e (database m)) c"
    using reachable_control [OF assms(1,3,5)] by blast
  obtain c' where "json_doc d' = Inr c'" "control_evolves c c'" using d'(2) c(1) by (auto simp: evolves_def ctl_def)
  moreover obtain ep q where "control_position c = Some (ep, q)" using c(2) by (auto simp: control_inv_def)
  ultimately show ?thesis using d'(1) c(1) unfolding control_evolves_def by blast
qed

theorem account_epoch_never_decreases_witness:
  "\<exists>m m' c c'. reachable (env_cipher sample_store) m \<and> runs (env_cipher sample_store) m m' \<and> database m = sent_db \<and> database m' = acked_db
     \<and> control_position c \<noteq> None \<and> control_evolves c c'"
proof -
  obtain m m' where m: "reachable (env_cipher sample_store) m" "runs (env_cipher sample_store) m m'" "database m = sent_db" "database m' = acked_db"
    using sent_reachable by blast
  obtain d where d: "docs sample_store (database m) ctl = Some d" using sent_facts(1) m(3) by auto
  have "gen (database m') = gen (database m)" using sample_fences(2) m by simp
  from account_epoch_never_decreases [OF m(1,2) sample_inverts this d] m show ?thesis unfolding control_evolves_def by fastforce
qed

text \<open>Property C17: whatever tabs do, also ones that were running when another signed out, a signed-out
  database holds no identity, no ratchet record and no sealed value of any store but the share store: only
  content that was shared into the app (which the app allows before anyone signs in) can be there.\<close>

theorem signed_out_database_is_empty:
  assumes "reachable c m" "cipher_inverts c" "\<not> active (current_fence (database m))"
  shows "ratchet_recs (database m) = [] \<and> sealed_recs (database m) = [] \<and> identity_rec (database m) = None"
proof -
  obtain e :: store_env where "env_cipher e = c" using some_env by blast
  then show ?thesis using reachable_inv [of e m] assms by (simp add: db_inv_def signed_out_empty_def)
qed

theorem signed_out_database_is_empty_witness:
  "\<exists>m. reachable (env_cipher sample_store) m \<and> \<not> active (current_fence (database m)) \<and> ratchet_recs (database m) = []"
proof -
  obtain m0 where m0: "reachable (env_cipher sample_store) m0" "database m0 = sent_db" using sent_reachable by blast
  obtain m where m: "runs (env_cipher sample_store) m0 m" "database m = fst (exec (clearIdentity None) (database m0))"
    using run_operation [OF op_clearIdentity [of sample_store "{}" None], of m0] by (auto simp: finished_def exec_fmap)
  have r: "reachable (env_cipher sample_store) m" by (rule runs_trans [OF m(1) m0(1)])
  have a: "\<not> active (current_fence (database m))" using sent_facts(3) m m0(2) by (simp add: clearIdentity_def next_fence_def current_fence_def Let_def)
  show ?thesis using signed_out_database_is_empty [OF r sample_inverts a] r a by blast
qed

text \<open>The key that seals the database is chosen once: of all tabs that try to create it one
  wins, and none of these operations replaces or loses it. The generation of the fence never goes back.\<close>

theorem wrapping_key_is_never_replaced:
  assumes "reachable c m" "runs c m m'" "cipher_inverts c" "wrapping_key (database m) = Some k"
  shows "wrapping_key (database m') = Some k \<and> gen (database m) \<le> gen (database m')"
proof -
  obtain e :: store_env where "env_cipher e = c" using some_env by blast
  then show ?thesis using reachable_later [of e m m'] assms by (simp add: later_def)
qed

theorem wrapping_key_is_never_replaced_witness:
  "\<exists>m m'. reachable (env_cipher sample_store) m \<and> runs (env_cipher sample_store) m m' \<and> database m' = acked_db \<and> wrapping_key (database m') = Some [1]"
proof -
  obtain m m' where m: "reachable (env_cipher sample_store) m" "runs (env_cipher sample_store) m m'" "database m = sent_db" "database m' = acked_db"
    using sent_reachable by blast
  have "wrapping_key (database m) = Some [1]" using sent_facts(4) m(3) by simp
  from wrapping_key_is_never_replaced [OF m(1,2) sample_inverts this] m show ?thesis by blast
qed

end
