(* ===== verification/Ratchet_Functions.thy ===== *)
theory Ratchet_Functions
  imports Ratchet_Sample
begin

text \<open>
  Functional properties of the local database, the identity and the ratchet store: retries that end,
  the record of retired attempts against the set it stands for, what is saved or put is read back, and
  a fresh store.
\<close>

declare split_paired_All [simp del] split_paired_Ex [simp del]

section \<open>Retired attempts\<close>

text \<open>The reference: the set of retired attempt numbers, and its summary, the end of the unbroken
  run from 1 and the sorted list of the others.\<close>

definition gap :: "int set \<Rightarrow> int" where
  "gap S = int (LEAST n. int n + 1 \<notin> S)"

definition summary :: "jsv \<Rightarrow> int set \<Rightarrow> retirement" where
  "summary epoch S = \<lparr>re_epoch = epoch, re_through = gap S, re_above = sorted_list_of_set {a \<in> S. gap S < a}\<rparr>"

lemma gap_unique:
  assumes "0 \<le> t" "{1..t} \<subseteq> S" "t + 1 \<notin> S"
  shows "gap S = t"
proof -
  have "(LEAST n. int n + 1 \<notin> S) = nat t"
  proof (rule Least_equality)
    show "int (nat t) + 1 \<notin> S" using assms(1,3) by simp
    fix n assume n: "int n + 1 \<notin> S"
    show "nat t \<le> n"
    proof (rule ccontr)
      assume "\<not> nat t \<le> n"
      then have "int n + 1 \<in> {1..t}" using assms(1) by simp
      then show False using assms(2) n by blast
    qed
  qed
  then show ?thesis using assms(1) by (simp add: gap_def)
qed

lemma gap_props:
  assumes "finite S"
  shows "0 \<le> gap S" "{1..gap S} \<subseteq> S" "gap S + 1 \<notin> S"
proof -
  have "\<exists>n. int n + 1 \<notin> S"
  proof (rule ccontr)
    assume "\<not> (\<exists>n. int n + 1 \<notin> S)"
    then have "range (\<lambda>n. int n + 1) \<subseteq> S" by blast
    moreover have "infinite (range (\<lambda>n. int n + 1))" using finite_imageD [of "\<lambda>n. int n + 1" UNIV] by (auto simp: inj_on_def)
    ultimately show False using assms finite_subset by blast
  qed
  then show "gap S + 1 \<notin> S" unfolding gap_def by (rule LeastI_ex)
  show "0 \<le> gap S" by (simp add: gap_def)
  have "x \<in> S" if x: "x \<in> {1..gap S}" for x
  proof -
    have "nat (x - 1) < (LEAST n. int n + 1 \<notin> S)" using x by (auto simp: gap_def)
    from not_less_Least [OF this] show ?thesis using x by simp
  qed
  then show "{1..gap S} \<subseteq> S" by blast
qed

lemma advance_watermark_spec:
  assumes "sorted xs" "distinct xs" "\<forall>x \<in> set xs. t < x"
  shows "case advance_watermark t xs of (t', rest) \<Rightarrow> t \<le> t' \<and> {t + 1..t'} \<subseteq> set xs \<and> t' + 1 \<notin> set xs
    \<and> sorted rest \<and> distinct rest \<and> set rest = {x \<in> set xs. t' < x}"
  using assms
proof (induction t xs rule: advance_watermark.induct)
  case (2 t a rest)
  show ?case
  proof (cases "a = t + 1")
    case True
    obtain t' r where r: "advance_watermark a rest = (t', r)" by (cases "advance_watermark a rest")
    have "\<forall>x \<in> set rest. a < x" using "2.prems"(1,2) by (auto simp: less_le)
    then have i: "a \<le> t'" "{a + 1..t'} \<subseteq> set rest" "t' + 1 \<notin> set rest" "sorted r" "distinct r" "set r = {x \<in> set rest. t' < x}"
      using "2.IH" [OF True] "2.prems" r by auto
    have "{t + 1..t'} \<subseteq> set (a # rest)"
    proof
      fix x assume "x \<in> {t + 1..t'}"
      then have "x = a \<or> x \<in> {a + 1..t'}" using True by auto
      then show "x \<in> set (a # rest)" using i(2) by auto
    qed
    then show ?thesis using True r i by auto
  next
    case False
    then have "t + 1 < a" using "2.prems"(3) by simp
    then have "\<forall>x \<in> set (a # rest). t + 1 < x" using "2.prems"(1) by auto
    then show ?thesis using False "2.prems" by auto
  qed
qed simp

text \<open>Property C39: the record of retired attempts is exact: on the summary of any set of retired attempt
  numbers, noting another one gives the summary of the larger set, nothing when it is there already, and
  an error exactly when more than 1024 numbers would lie above the unbroken run.\<close>

theorem note_retired_is_exact:
  assumes "finite S" "\<forall>a \<in> S. 1 \<le> a" "1 \<le> q"
  shows "note_retired (summary epoch S) q =
    (if q \<in> S then Inr None
     else if 1024 < card {a \<in> insert q S. gap (insert q S) < a} then Inl Exhausted
     else Inr (Some (summary epoch (insert q S))))"
proof -
  let ?t = "gap S" and ?T = "insert q S"
  let ?above = "sorted_list_of_set {a \<in> S. ?t < a}"
  note g = gap_props [OF assms(1)]
  have fin: "finite {a \<in> S. ?t < a}" using assms(1) by simp
  have mem: "q \<le> ?t \<or> q \<in> set ?above \<longleftrightarrow> q \<in> S"
  proof -
    have "q \<in> S" if "q \<le> ?t" using that g(2) assms(3) by auto
    then show ?thesis using fin by auto
  qed
  show ?thesis
  proof (cases "q \<in> S")
    case True
    then show ?thesis using mem by (simp add: note_retired_def summary_def)
  next
    case False
    let ?xs = "sort (?above @ [q])"
    obtain t' rest where r: "advance_watermark ?t ?xs = (t', rest)" by (cases "advance_watermark ?t ?xs")
    have q: "?t < q" "q \<notin> set ?above" using False mem by auto
    have xs: "sorted ?xs" "distinct ?xs" "set ?xs = insert q {a \<in> S. ?t < a}" using q fin by auto
    have above: "\<forall>x \<in> set ?xs. ?t < x" using xs(3) q(1) by auto
    have a: "?t \<le> t'" "{?t + 1..t'} \<subseteq> set ?xs" "t' + 1 \<notin> set ?xs" "sorted rest" "distinct rest" "set rest = {x \<in> set ?xs. t' < x}"
      using advance_watermark_spec [OF xs(1,2) above] unfolding r prod.case by blast+
    have "{1..t'} \<subseteq> ?T"
    proof
      fix x assume "x \<in> {1..t'}"
      then have "x \<in> {1..?t} \<or> x \<in> {?t + 1..t'}" by auto
      then show "x \<in> ?T" using g(2) a(2) unfolding xs(3) by blast
    qed
    moreover have "t' + 1 \<notin> ?T"
    proof
      assume "t' + 1 \<in> ?T"
      moreover have "?t < t' + 1" using a(1) by simp
      ultimately have "t' + 1 \<in> set ?xs" unfolding xs(3) by blast
      then show False using a(3) by contradiction
    qed
    ultimately have gap: "gap ?T = t'" by (intro gap_unique order_trans [OF g(1) a(1)])
    have rest: "rest = sorted_list_of_set {a \<in> ?T. gap ?T < a}"
    proof (rule sorted_distinct_set_unique [OF a(4,5)])
      have "{a \<in> ?T. gap ?T < a} = set rest" unfolding a(6) xs(3) gap using a(1) by auto
      then show "set rest = set (sorted_list_of_set {a \<in> ?T. gap ?T < a})" using assms(1) by simp
    qed simp_all
    then have "length rest = card {a \<in> ?T. gap ?T < a}" by simp
    then show ?thesis using False q r rest gap by (simp add: note_retired_def summary_def)
  qed
qed


theorem note_retired_is_exact_witness:
  "note_retired (summary (JNum 1) {1, 3}) 2 = Inr (Some (summary (JNum 1) {1, 2, 3})) \<and> gap {1, 2, 3} = 3"
proof -
  have s: "insert 2 {1, 3} = {1, 2, 3 :: int}" by auto
  have g: "gap {1, 2, 3} = 3" by (rule gap_unique) auto
  have "{a \<in> {1, 2, 3}. gap {1, 2, 3} < a} = {}" unfolding g by auto
  then have "\<not> 1024 < card {a \<in> insert 2 {1, 3}. gap (insert 2 {1, 3}) < a}" unfolding s by (simp only: card.empty)
  then show ?thesis using note_retired_is_exact [of "{1, 3}" 2 "JNum 1"] g s by simp
qed

section \<open>Round trips\<close>

lemma exec_bind_Inr:
  "exec (bind p f) D = (D', Inr b) \<Longrightarrow> (\<And>D1 a. exec p D = (D1, Inr a) \<Longrightarrow> exec (f a) D1 = (D', Inr b) \<Longrightarrow> P) \<Longrightarrow> P"
  by (auto simp: exec_bind split: prod.splits sum.splits)

lemma exec_look [simp]: "exec (look f) D = (D, f D)"
  by (simp add: look_def)

lemma exec_identityFence [simp]: "exec identityFence D = (D, Inr (current_fence D))"
  by (simp add: identityFence_def)

lemma exec_wrappingKey:
  "exec (wrappingKey candidate create) D = (D1, Inr k) \<Longrightarrow> D1 = D\<lparr>wrapping_key := Some k\<rparr>"
  by (auto simp: wrappingKey_def exec_bind split: option.splits if_splits)

lemma exec_wrappingKey_present: "wrapping_key D = Some k \<Longrightarrow> exec (wrappingKey candidate create) D = (D, Inr k)"
  by (simp add: wrappingKey_def exec_bind)

lemma exec_seal:
  "exec (seal c candidate iv ad p) D = (D1, Inr r) \<Longrightarrow> \<exists>k. D1 = D\<lparr>wrapping_key := Some k\<rparr> \<and> r = \<lparr>rec_iv = iv, rec_sealed = encrypt c k iv ad p, rec_revision = 0\<rparr>"
  unfolding seal_def fmap_def by (auto elim!: exec_bind_Inr dest!: exec_wrappingKey)

lemma exec_unseal:
  "cipher_inverts c \<Longrightarrow> wrapping_key D = Some k \<Longrightarrow> exec (unseal c \<lparr>rec_iv = iv, rec_sealed = encrypt c k iv ad p, rec_revision = n\<rparr> ad) D = (D, Inr p)"
  by (simp add: unseal_def exec_bind exec_wrappingKey_present cipher_inverts_def)

lemma exec_fencedWrite:
  "exec (fencedWrite f onboarding work) D = (D', Inr a) \<Longrightarrow>
    work D (current_fence D) = Inr (D', a) \<and> gen D = generation f \<and> (active (current_fence D) \<or> onboarding)"
  by (auto simp: fencedWrite_def Let_def split: if_splits sum.splits)

text \<open>Property C40: an identity that was saved is loaded again, with its metadata (an empty object where it was
  saved with none) and the fence it was saved under, whatever account was there before.\<close>

theorem saved_identity_loads:
  assumes "cipher_inverts c" "exec (saveIdentity c candidate iv identity meta onboarding fence replaceAccount) D = (D', Inr f)"
  shows "exec (loadIdentity c) D' = (D', Inr (Some (JObj (map (\<lambda>(k, n). (k, field identity k)) identity_sizes), if truthy meta then meta else JObj [], f)))"
proof -
  have v: "valid_identity identity" and arg: "replaceAccount \<Longrightarrow> onboarding"
    using assms(2) by (auto simp: saveIdentity_def split: if_splits)
  obtain D0 f0 D1 r where s: "exec (seal c candidate iv [] (plain_identity identity)) D0 = (D1, Inr r)"
    "exec (fencedWrite f0 onboarding (\<lambda>D current.
          sbind (if onboarding then next_fence current True else Inr current) (\<lambda>nxt.
          Inr ((if replaceAccount then clear_account D else D)\<lparr>fence_rec := Some nxt, identity_rec := Some (r, meta)\<rparr>, nxt)))) D1 = (D', Inr f)"
    using assms(2) by (auto simp: saveIdentity_def split: if_splits elim!: exec_bind_Inr)
  obtain k where k: "D1 = D0\<lparr>wrapping_key := Some k\<rparr>" "r = \<lparr>rec_iv = iv, rec_sealed = encrypt c k iv [] (plain_identity identity), rec_revision = 0\<rparr>"
    using exec_seal [OF s(1)] by blast
  have w: "sbind (if onboarding then next_fence (current_fence D1) True else Inr (current_fence D1)) (\<lambda>nxt.
      Inr ((if replaceAccount then clear_account D1 else D1)\<lparr>fence_rec := Some nxt, identity_rec := Some (r, meta)\<rparr>, nxt)) = Inr (D', f)"
    "active (current_fence D1) \<or> onboarding"
    using exec_fencedWrite [OF s(2)] by blast+
  then have D': "D' = (if replaceAccount then clear_account D1 else D1)\<lparr>fence_rec := Some f, identity_rec := Some (r, meta)\<rparr>" "active f"
    by (auto simp: next_fence_def split: if_splits)
  have st: "current_fence D' = f" "identity_rec D' = Some (r, meta)" "wrapping_key D' = Some k"
    using D'(1) k(1) by (auto simp: current_fence_def clear_account_def)
  show ?thesis
    using st D'(2) identity_roundtrip [OF v] exec_unseal [OF assms(1) st(3)]
    by (simp add: loadIdentity_def meta_of_def exec_bind k(2) fencedWrite_def Let_def)
qed

definition sample_identity :: jsv where
  "sample_identity = JObj [(''edPublic'', JBytes (replicate 32 1)), (''edSecret'', JBytes (replicate 64 2)),
     (''xPublic'', JBytes (replicate 32 3)), (''xSecret'', JBytes (replicate 32 4))]"

definition sample_meta :: jsv where "sample_meta = JObj [(''deviceID'', JStr ''d1'')]"

theorem saved_identity_loads_witness:
  "\<exists>D' f. exec (saveIdentity sample_cipher [1] [2] sample_identity sample_meta False None False) new_db = (D', Inr f)
     \<and> (\<exists>v. exec (loadIdentity sample_cipher) D' = (D', Inr (Some (v, sample_meta, f))) \<and> field v ''xSecret'' = JBytes (replicate 32 4))"
proof -
  let ?x = "exec (saveIdentity sample_cipher [1] [2] sample_identity sample_meta False None False) new_db"
  have "\<not> isl (snd ?x)" by code_simp
  then obtain f where f: "?x = (fst ?x, Inr f)" by (cases "snd ?x") (auto simp: prod_eq_iff)
  have c: "cipher_inverts sample_cipher" using sample_inverts by (simp add: sample_store_def)
  let ?v = "JObj (map (\<lambda>(k, n). (k, field sample_identity k)) identity_sizes)"
  have "field ?v ''xSecret'' = JBytes (replicate 32 4)" by (simp add: identity_sizes_def sample_identity_def)
  moreover have "truthy sample_meta" by (simp add: sample_meta_def)
  ultimately show ?thesis using saved_identity_loads [OF c f] f
    by (intro exI [of _ "fst ?x"] exI [of _ f] conjI exI [of _ ?v]) simp_all
qed


lemma bytes_json_norm: "js_wf v \<Longrightarrow> v \<noteq> JUndef \<Longrightarrow> bytes_json (json_bytes v) = Some (norm v)"
  using json_parse_norm [of v False] by (simp add: bytes_json_def json_bytes_def stringify_def del: json_text.simps)

lemma exec_getSealed:
  assumes "cipher_inverts c" "wrapping_key D = Some key" "js_wf v" "v \<noteq> JUndef"
    and "jget (sealed_recs D) (st, k) = Some \<lparr>rec_iv = iv, rec_sealed = encrypt c key iv [] (json_bytes v), rec_revision = 0\<rparr>"
  shows "exec (getSealed c st k) D = (D, Inr (norm v))"
  using assms exec_unseal [OF assms(1,2)] by (simp add: getSealed_def read_sealed_def exec_bind bytes_json_norm)

text \<open>A value that was put is got again, as JSON keeps it (without undefined members), and
  the values under all other keys of the database read as before.\<close>

theorem sealed_values_roundtrip:
  assumes "cipher_inverts c" "js_wf v" "v \<noteq> JUndef" "exec (putSealed c candidate iv st k v) D = (D', Inr ())"
  shows "exec (getSealed c st k) D' = (D', Inr (norm v))
    \<and> (\<forall>st' k'. (st', k') \<noteq> (st, k) \<longrightarrow> wrapping_key D \<noteq> None \<longrightarrow> snd (exec (getSealed c st' k') D') = snd (exec (getSealed c st' k') D))"
proof -
  obtain f D1 r where s: "exec (seal c candidate iv [] (json_bytes v)) D = (D1, Inr r)"
    "exec (fencedWrite f False (\<lambda>D _. Inr (put_rec st k r D, ()))) D1 = (D', Inr ())"
    using assms(4) by (auto simp: putSealed_def elim!: exec_bind_Inr)
  obtain key where key: "D1 = D\<lparr>wrapping_key := Some key\<rparr>" "r = \<lparr>rec_iv = iv, rec_sealed = encrypt c key iv [] (json_bytes v), rec_revision = 0\<rparr>"
    using exec_seal [OF s(1)] by blast
  have D': "D' = put_rec st k r D1" using exec_fencedWrite [OF s(2)] by simp
  have "exec (getSealed c st k) D' = (D', Inr (norm v))"
    by (rule exec_getSealed [OF assms(1) _ assms(2,3), where key = key and iv = iv]) (simp_all add: D' key put_rec_def)
  moreover have "snd (exec (getSealed c st' k') D') = snd (exec (getSealed c st' k') D)" if "(st', k') \<noteq> (st, k)" "wrapping_key D \<noteq> None" for st' k'
  proof -
    from that(2) obtain w where "wrapping_key D = Some w" by auto
    from exec_wrappingKey_present [OF this] have "D1 = D" using s(1) by (simp add: seal_def exec_fmap)
    then have "wrapping_key D' = wrapping_key D" by (simp add: D' put_rec_def)
    moreover have "jget (sealed_recs D') (st', k') = jget (sealed_recs D) (st', k')" using that(1) by (auto simp: D' put_rec_def key(1) jget_jset)
    ultimately show ?thesis
      by (auto simp: getSealed_def read_sealed_def unseal_def wrappingKey_def exec_bind split: option.splits)
  qed
  ultimately show ?thesis by blast
qed

theorem sealed_values_roundtrip_witness:
  "\<exists>D'. exec (putSealed sample_cipher [1] [2] ''chat'' ''a'' (JObj [(''x'', JNum 1), (''y'', JUndef)])) new_db = (D', Inr ())
     \<and> exec (getSealed sample_cipher ''chat'' ''a'') D' = (D', Inr (JObj [(''x'', JNum 1)]))"
proof -
  let ?v = "JObj [(''x'', JNum 1), (''y'', JUndef)]"
  let ?x = "exec (putSealed sample_cipher [1] [2] ''chat'' ''a'' ?v) new_db"
  have "snd ?x = Inr ()" by code_simp
  then have x: "?x = (fst ?x, Inr ())" by (simp add: prod_eq_iff)
  have c: "cipher_inverts sample_cipher" using sample_inverts by (simp add: sample_store_def)
  have "js_wf ?v" "?v \<noteq> JUndef" by simp_all
  from sealed_values_roundtrip [OF c this x] have "exec (getSealed sample_cipher ''chat'' ''a'') (fst ?x) = (fst ?x, Inr (norm ?v))" by blast
  then show ?thesis using x by (intro exI [of _ "fst ?x"]) simp
qed

section \<open>A fresh store\<close>

lemma exec_initialize_fresh:
  assumes none: "raw_get e D ctl = None" and no: "\<not> list_ex (\<lambda>(n, r). n = namespace e) (jkeys (ratchet_recs D))"
    and run: "exec (initialize e candidate iv key) D = (D', Inr ())"
  shows "active (current_fence D) \<and> (\<exists>k x. D' = (put_ratchet e ctl (encode e k iv ctl 1 (json_bytes (new_control key))) (D\<lparr>wrapping_key := Some k\<rparr>))\<lparr>initialized := x\<rparr>)"
proof -
  have act: "active (current_fence D)" using run by (auto simp: initialize_def exec_bind split: if_splits)
  let ?w = "\<lambda>k. fencedWrite (current_fence D) False (\<lambda>E _. if raw_get e E ctl \<noteq> None then Inr (E, ())
           else Inr ((put_ratchet e ctl (encode e k iv ctl 1 (json_bytes (new_control key))) E)
                       \<lparr>initialized := jset (namespace e) (gen D) (initialized E)\<rparr>, ()))"
  have "exec (bind (wrappingKey candidate True) ?w) D = (D', Inr ())"
    using run act no by (simp add: initialize_def exec_bind decode_at_None [OF none] split: if_splits)
  then obtain D1 k where k: "exec (wrappingKey candidate True) D = (D1, Inr k)" "exec (?w k) D1 = (D', Inr ())" by (rule exec_bind_Inr)
  have D1: "D1 = D\<lparr>wrapping_key := Some k\<rparr>" by (rule exec_wrappingKey [OF k(1)])
  have "raw_get e D1 ctl = None" using none by (simp add: D1 raw_get_def)
  then have "D' = (put_ratchet e ctl (encode e k iv ctl 1 (json_bytes (new_control key))) D1)\<lparr>initialized := jset (namespace e) (gen D) (initialized D1)\<rparr>"
    using exec_fencedWrite [OF k(2)] by simp
  then show ?thesis using act unfolding D1 by blast
qed

lemma byte_array_num_array: "byte_array (num_array b) = b"
  by (simp add: byte_array_def num_array_def o_def)

text \<open>A store opened for the first time in its namespace can be read at once, and its core
  key is the one it was opened with.\<close>

theorem fresh_store_has_its_key:
  assumes "cipher_inverts (env_cipher e)" "length key = 32" "list_all (\<lambda>(n, r). n \<noteq> namespace e) (jkeys (ratchet_recs D))"
    and "length (json_bytes (new_control key)) \<le> Limits_batch" "exec (openRatchetStore e candidate iv key) D = (D', Inr ())"
  shows "\<exists>s. exec (read e []) D' = (D', Inr s) \<and> coreKey e s = Inr key \<and> generation (sn_fence s) = gen D"
proof -
  have none: "raw_get e D ctl = None" using assms(3) jget_None_iff [of "ratchet_recs D" "(namespace e, ctl)"] by (auto simp: raw_get_def list_all_iff)
  have no: "\<not> list_ex (\<lambda>(n, r). n = namespace e) (jkeys (ratchet_recs D))" using assms(3) by (auto simp: list_all_iff list_ex_iff)
  have "exec (initialize e candidate iv key) D = (D', Inr ())" using assms(5) by (simp add: openRatchetStore_def split: if_splits)
  from exec_initialize_fresh [OF none no this] obtain k x where D': "active (current_fence D)"
    "D' = (put_ratchet e ctl (encode e k iv ctl 1 (json_bytes (new_control key))) (D\<lparr>wrapping_key := Some k\<rparr>))\<lparr>initialized := x\<rparr>" by blast
  have "version_ok 1" by (simp add: version_ok_def max_safe_integer_def)
  then have "decode_at e (put_ratchet e ctl (encode e k iv ctl 1 (json_bytes (new_control key))) (D\<lparr>wrapping_key := Some k\<rparr>)) ctl
      = Inr \<lparr>revision = 1, data = json_bytes (new_control key)\<rparr>"
    using decode_put [OF assms(1)] by simp
  then have dec: "decode_at e D' ctl = Inr \<lparr>revision = 1, data = json_bytes (new_control key)\<rparr>" by (simp add: D'(2) decode_at_def raw_get_def)
  let ?s = "\<lparr>sn_namespace = namespace e, sn_fence = current_fence D, records = [(ctl, \<lparr>revision = 1, data = json_bytes (new_control key)\<rparr>)]\<rparr>"
  have f: "current_fence D' = current_fence D" by (simp add: D'(2) current_fence_def)
  have "exec (read e []) D' = (D', Inr ?s)"
    using dec f D'(1) assms(4) by (simp add: read_def validateRefs_def take_snapshot_def jset_def jget_def)
  moreover have "control_doc ?s = Inr (new_control key)" by (simp add: control_doc_def require_def new_control_doc jget_def)
  then have "coreKey e ?s = Inr key"
    by (simp add: coreKey_def validate_def Limits_reads_def jget_def) (simp add: new_control_def js_length_def num_array_def assms(2) byte_array_num_array [unfolded num_array_def])
  ultimately show ?thesis by auto
qed

theorem fresh_store_has_its_key_witness:
  "\<exists>D' s. exec (openRatchetStore sample_store [1] [2] (replicate 32 7)) new_db = (D', Inr ())
     \<and> exec (read sample_store []) D' = (D', Inr s) \<and> coreKey sample_store s = Inr (replicate 32 7)"
proof -
  let ?x = "exec (openRatchetStore sample_store [1] [2] (replicate 32 7)) new_db"
  have "snd ?x = Inr ()" by code_simp
  then have x: "?x = (fst ?x, Inr ())" by (simp add: prod_eq_iff)
  have l: "length (json_bytes (new_control (replicate 32 7))) \<le> Limits_batch" by code_simp
  have n: "list_all (\<lambda>(n, r). n \<noteq> namespace sample_store) (jkeys (ratchet_recs new_db))" by (simp add: new_db_def jkeys_def)
  from fresh_store_has_its_key [OF sample_inverts _ n l x] x show ?thesis by auto
qed

section \<open>Bounded retries\<close>

text \<open>A program that ends after at most so many transactions of its own, whatever the others do.\<close>

fun within :: "nat \<Rightarrow> 'a prog \<Rightarrow> bool" where
  "within n (Ret r) = True"
| "within 0 (Atomic t) = False"
| "within (Suc n) (Atomic t) = (\<forall>D. within n (snd (t D)))"

lemma within_mono: "within n p \<Longrightarrow> n \<le> m \<Longrightarrow> within m p"
proof (induction n p arbitrary: m rule: within.induct)
  case (3 n t)
  then obtain m' where "m = Suc m'" "n \<le> m'" by (cases m) auto
  then show ?case using 3 by auto
qed simp_all

lemma within_bind: "within n p \<Longrightarrow> (\<And>a. within m (f a)) \<Longrightarrow> within (n + m) (bind p f)"
proof (induction n p rule: within.induct)
  case (1 n r)
  show ?case using within_mono [OF 1(2), where m = "n + m"] by (cases r) simp_all
qed (auto simp: snd_map_prod)

lemma within_catch: "within n p \<Longrightarrow> (\<And>e. within m (h e)) \<Longrightarrow> within (n + m) (catch p h)"
proof (induction n p rule: within.induct)
  case (1 n r)
  show ?case using within_mono [OF 1(2), where m = "n + m"] by (cases r) simp_all
qed (auto simp: snd_map_prod)

lemma within_bind_le: "within n p \<Longrightarrow> (\<And>a. within m (f a)) \<Longrightarrow> n + m \<le> k \<Longrightarrow> within k (bind p f)"
  using within_bind within_mono by blast

lemma within_fmap: "within n p \<Longrightarrow> within n (fmap f p)"
  unfolding fmap_def by (rule within_bind_le [where n = n and m = 0]) simp_all

lemma within_look [simp]: "within (Suc n) (look f)"
  by (simp add: look_def)

lemma within_Ret_bind: "(\<And>a. r = Inr a \<Longrightarrow> within n (f a)) \<Longrightarrow> within n (bind (Ret r) f)"
  by (cases r) simp_all

lemma within_fencedWrite: "within (Suc n) (fencedWrite f b w)"
  by (auto simp: fencedWrite_def Let_def split: sum.split prod.split)

lemma within_wrappingKey: "within 2 (wrappingKey candidate create)"
  unfolding wrappingKey_def
  by (rule within_bind_le [of 1 _ 1]) (auto simp: One_nat_def split: option.split)

lemma within_seal: "within 2 (seal c candidate iv ad p)"
  unfolding seal_def by (rule within_fmap [OF within_wrappingKey])

lemma within_read_sealed: "within 2 (read_sealed c before)"
proof -
  have "within 2 (unseal c r ad)" for r ad
    unfolding unseal_def by (rule within_bind_le [OF within_wrappingKey, of 0]) (auto split: option.split)
  then have "within 2 (bind (unseal c r []) (\<lambda>p. case bytes_json p of Some v \<Rightarrow> Ret (Inr v) | None \<Rightarrow> Ret (Inl Thrown)))" for r
    by (rule within_bind_le [of 2 _ 0]) (auto split: option.split)
  then show ?thesis unfolding read_sealed_def by (simp split: option.split)
qed

lemma within_update_attempt: "within 7 (update_attempt c candidate iv st k mutate f)"
  unfolding update_attempt_def Let_def
proof (rule within_bind_le [of 1 _ 6])
  fix b :: "sealed_rec option"
  show "within 6 (bind (catch (read_sealed c b) (\<lambda>_. Ret (Inl Unreadable))) (\<lambda>v. if mutate v = JUndef then Ret (Inr (Some v))
      else bind (seal c candidate iv [] (json_bytes (mutate v))) (\<lambda>r. bind (case f of None \<Rightarrow> identityFence | Some f \<Rightarrow> Ret (Inr f)) (\<lambda>fence.
        fencedWrite fence False (\<lambda>D _. if sameRecord (jget (sealed_recs D) (st, k)) b then Inr (put_rec st k r D, Some (mutate v)) else Inr (D, None))))))"
  proof (rule within_bind_le [of 2 _ 4])
    show "within 2 (catch (read_sealed c b) (\<lambda>_. Ret (Inl Unreadable)))" using within_catch [OF within_read_sealed, of 0] by simp
    fix v
    have "within 2 (bind (case f of None \<Rightarrow> identityFence | Some f \<Rightarrow> Ret (Inr f)) (\<lambda>fence.
        fencedWrite fence False (\<lambda>D _. if sameRecord (jget (sealed_recs D) (st, k)) b then Inr (put_rec st k r D, Some (mutate v)) else Inr (D, None))))" for r
      by (rule within_bind_le [of 1 _ 1]) (auto simp: identityFence_def One_nat_def within_fencedWrite split: option.split)
    then show "within 4 (if mutate v = JUndef then Ret (Inr (Some v))
      else bind (seal c candidate iv [] (json_bytes (mutate v))) (\<lambda>r. bind (case f of None \<Rightarrow> identityFence | Some f \<Rightarrow> Ret (Inr f)) (\<lambda>fence.
        fencedWrite fence False (\<lambda>D _. if sameRecord (jget (sealed_recs D) (st, k)) b then Inr (put_rec st k r D, Some (mutate v)) else Inr (D, None)))))"
      by (cases "mutate v = JUndef") (auto intro: within_bind_le [OF within_seal, of 2])
  qed simp
qed (simp_all add: One_nat_def)

lemma within_update_attempts: "within (7 * n) (update_attempts n c rnd st k mutate f)"
proof (induction n)
  case (Suc n)
  show ?case unfolding update_attempts.simps
    by (rule within_bind_le [OF within_update_attempt, of "7 * n"]) (simp_all add: Suc split: option.split)
qed simp

text \<open>In any schedule, a task that has had that many turns has ended.\<close>

lemma within_turns:
  assumes "i < length ps" "within n (ps ! i)" "n \<le> count_list sched i"
  shows "\<exists>r. snd (fold turn sched (D, ps)) ! i = Ret r"
  using assms
proof (induction sched arbitrary: n D ps)
  case Nil
  then show ?case by (cases "ps ! i") simp_all
next
  case (Cons j sched)
  obtain D' ps' where t: "turn j (D, ps) = (D', ps')" by (cases "turn j (D, ps)")
  have len: "length ps' = length ps" using t by (auto simp: turn_def split: if_splits prog.splits prod.splits)
  show ?case
  proof (cases "j = i")
    case True
    have "within (n - 1) (ps' ! i)"
    proof (cases "ps ! i")
      case (Atomic u)
      obtain n' where n': "n = Suc n'" using Cons.prems(2) Atomic by (cases n) simp_all
      have "ps' ! i = snd (u D)" using t Cons.prems(1) Atomic True by (auto simp: turn_def split: prod.splits)
      then show ?thesis using Cons.prems(2) Atomic n' by simp
    qed (use t Cons.prems(1) True in \<open>simp add: turn_def\<close>)
    moreover have "n - 1 \<le> count_list sched i" using Cons.prems(3) True by simp
    ultimately show ?thesis using Cons.IH [of ps' "n - 1" D'] Cons.prems(1) len t by simp
  next
    case False
    have "ps' ! i = ps ! i" using t False by (auto simp: turn_def split: if_splits prog.splits prod.splits)
    then show ?thesis using Cons.IH [of ps' n D'] Cons.prems len t False by simp
  qed
qed

text \<open>Property C38: an update of a sealed value ends, whatever other tabs do: whichever way the transactions of
  all tasks are scheduled, \<^verbatim>\<open>updateSealed\<close> has ended, with a value or an error, after at most 56 transactions of
  its own, although it starts over whenever another tab changed the record meanwhile.\<close>

theorem retries_are_bounded:
  assumes "i < length ps" "56 \<le> count_list sched i" "ps ! i = finished (updateSealed c rnd st k mutate f)"
  shows "\<exists>r. snd (fold turn sched (D, ps)) ! i = Ret r"
proof (rule within_turns [OF assms(1) _ assms(2)])
  have "within 56 (updateSealed c rnd st k mutate f)" using within_update_attempts [of 8] by (simp add: updateSealed_def)
  then show "within 56 (ps ! i)" unfolding assms(3) by (simp add: finished_def within_fmap)
qed

lemma count_replicate: "count_list (replicate n x) x = n"
  by (induction n) simp_all

theorem retries_are_bounded_witness:
  "\<exists>r. snd (fold turn (replicate 56 0) (opened_db,
     [finished (updateSealed sample_cipher (\<lambda>_. ([1], [2])) ''outbox'' ''m'' (\<lambda>_. JNum 1) None)])) ! 0 = Ret r"
  by (rule retries_are_bounded) (simp_all add: count_replicate)

end
