(* ===== verification/Dm_Trust.thy ===== *)
theory Dm_Trust
  imports Olm_Directory Js_Json
begin

text \<open>
  Which devices of an account may receive secure messages (mobile/src/core/dm-trust.js), the
  claims on their one-time keys (\<^verbatim>\<open>verifyOlmClaim\<close>, mobile/src/core/olm-directory.js) and the
  signing of key records, bundles and resets. The account's first device holds the pinned key;
  every other device needs an approval signed by a device that is trusted already. The approval
  chain is specified as an inductive predicate, and \<open>trustedDevices\<close>, which searches the listing
  until nothing changes, is shown to compute it.
\<close>

section \<open>The signing library\<close>

text \<open>The part of tweetnacl that the sources call: \<^verbatim>\<open>nacl.sign.detached\<close> (None when it throws) and
  \<^verbatim>\<open>nacl.sign.detached.verify\<close>. The public key of a 64-byte secret is its second half.\<close>

record nacl =
  sign_detached :: "bytes \<Rightarrow> bytes \<Rightarrow> bytes option"  \<comment> \<open>message, secret\<close>
  detached_verify :: "bytes \<Rightarrow> bytes \<Rightarrow> bytes \<Rightarrow> bool"  \<comment> \<open>message, signature, key\<close>

definition public_half :: "bytes \<Rightarrow> bytes" where  \<comment> \<open>\<^verbatim>\<open>edSecret.slice(32, 64)\<close>\<close>
  "public_half edSecret = take 32 (drop 32 edSecret)"

section \<open>Signed key records\<close>

definition RECORD_PREFIX :: string where "RECORD_PREFIX = ''noxa-dm-key-v1:''"

text \<open>Of the characters that \<^verbatim>\<open>goJSONString\<close> escapes, three lie below 256.\<close>

definition goJSONString :: "string \<Rightarrow> string" where
  "goJSONString t = concat (map (\<lambda>c. if c = CHR ''<'' \<or> c = CHR ''>'' \<or> c = CHR ''&''
     then [backslash, CHR ''u''] @ hex4 (of_char c) else [c]) (stringify (JStr t)))"

definition quoted :: "string \<Rightarrow> string" where
  "quoted t = quote_char # t @ [quote_char]"

definition record_payload :: "string \<Rightarrow> bytes \<Rightarrow> bytes \<Rightarrow> string" where
  "record_payload uid signingKey encryptionKey =
     ''{'' @ quoted ''UID'' @ '':'' @ goJSONString uid @ '','' @ quoted ''SigningKey'' @ '':'' @ quoted (b64 signingKey)
     @ '','' @ quoted ''EncryptionKey'' @ '':'' @ quoted (b64 encryptionKey) @ ''}''"

definition record_message :: "string \<Rightarrow> bytes" where
  "record_message payload = utf8 (''noxa/dm-identity/v1'' @ [CHR 0x00]) @ utf8 payload"

record key_record =
  kr_signingKey :: bytes
  kr_encryptionKey :: bytes

definition checked_record :: "nacl \<Rightarrow> jsv \<Rightarrow> string \<Rightarrow> key_record option" where
  "checked_record na r uid =
     (if \<not> truthy r \<or> field r ''uid'' \<noteq> JStr uid then None
      else case (field r ''signing_key'', field r ''encryption_key'') of
          (JStr s, JStr e) \<Rightarrow>
            (case (atob s, atob e, atob (if truthy (field r ''signature'') then js_string (field r ''signature'') else [])) of
               (Some signingKey, Some encryptionKey, Some signature) \<Rightarrow>
                 if length signingKey \<noteq> 32 \<or> length encryptionKey \<noteq> 32 \<or> length signature \<noteq> 64 then None
                 else if \<not> detached_verify na (record_message (record_payload uid signingKey encryptionKey)) signature signingKey
                 then None
                 else Some \<lparr>kr_signingKey = signingKey, kr_encryptionKey = encryptionKey\<rparr>
             | _ \<Rightarrow> None)
        | _ \<Rightarrow> None)"

definition parseKeyRecord :: "nacl \<Rightarrow> jsv \<Rightarrow> string \<Rightarrow> key_record option" where
  "parseKeyRecord na encoded uid =
     (case encoded of
        JStr t \<Rightarrow>
          if length t > 2048 \<or> take (length RECORD_PREFIX) t \<noteq> RECORD_PREFIX then None
          else (case Option.bind (Option.bind (atob (drop (length RECORD_PREFIX) t)) text_decode) json_parse of
                  None \<Rightarrow> None
                | Some r \<Rightarrow> checked_record na r uid)
      | _ \<Rightarrow> None)"

definition signKeyRecord :: "nacl \<Rightarrow> string \<Rightarrow> bytes \<Rightarrow> bytes \<Rightarrow> string option" where
  "signKeyRecord na uid xPublic edSecret =
     (let signingKey = public_half edSecret in
      case sign_detached na (record_message (record_payload uid signingKey xPublic)) edSecret of
        None \<Rightarrow> None
      | Some signature \<Rightarrow> Some (RECORD_PREFIX @ b64 (utf8 (stringify (JObj
          [(''uid'', JStr uid), (''signing_key'', JStr (b64 signingKey)), (''encryption_key'', JStr (b64 xPublic)),
           (''signature'', JStr (b64 signature))])))))"

section \<open>Devices\<close>

text \<open>\<^verbatim>\<open>.replace(/-----(BEGIN|END) PUBLIC KEY-----/g, "")\<close> and \<^verbatim>\<open>.replace(/\s+/g, "")\<close>.\<close>

definition BEGIN_MARK :: string where "BEGIN_MARK = ''-----BEGIN PUBLIC KEY-----''"
definition END_MARK :: string where "END_MARK = ''-----END PUBLIC KEY-----''"

fun strip_marks :: "nat \<Rightarrow> string \<Rightarrow> string" where  \<comment> \<open>the number: characters of a mark still to skip\<close>
  "strip_marks n [] = []"
| "strip_marks (Suc n) (c # cs) = strip_marks n cs"
| "strip_marks 0 (c # cs) =
     (if take 26 (c # cs) = BEGIN_MARK then strip_marks 25 cs
      else if take 24 (c # cs) = END_MARK then strip_marks 23 cs
      else c # strip_marks 0 cs)"

definition ed25519FromPEM :: "jsv \<Rightarrow> bytes option" where
  "ed25519FromPEM pem =
     (case atob (filter (\<lambda>c. \<not> regex_space c) (strip_marks 0 (js_string pem))) of
        None \<Rightarrow> None
      | Some raw \<Rightarrow> if length raw = 32 then Some raw else None)"

definition newline :: string where "newline = [CHR 0x0A]"

definition approvalTranscript :: "jsv \<Rightarrow> jsv \<Rightarrow> jsv \<Rightarrow> jsv \<Rightarrow> bytes" where
  "approvalTranscript uid approverID edPublicPEM xPublicB64 =
     utf8 (''noxa-device-approval-v1'' @ newline @ js_string uid @ newline @ js_string approverID
       @ newline @ js_string edPublicPEM @ newline @ js_string xPublicB64)"

record device =
  dv_deviceID :: jsv
  dv_kind :: jsv
  dv_signingKey :: bytes
  dv_x25519 :: bytes
  dv_x25519B64 :: string
  dv_first :: bool

text \<open>What the listing says of one device, when the device is usable: the checks and the entry of
  the \<^verbatim>\<open>valid\<close> map.\<close>

definition device_entry :: "curves \<Rightarrow> jsv \<Rightarrow> device option" where
  "device_entry cv d =
     (case (field d ''ed25519_public_key'', field d ''x25519_public_key'') of
        (JStr pem, JStr x) \<Rightarrow>
          if length pem > 256 \<or> length x \<noteq> 44 then None
          else (case (ed25519FromPEM (JStr pem), atob x) of
                  (Some signingKey, Some x25519) \<Rightarrow>
                    if truthy (field d ''revoked_at'') \<or> b64 x25519 \<noteq> x
                       \<or> \<not> validSigning cv (JStr (drop_pad (b64 signingKey)))
                       \<or> \<not> validCurve cv (JStr (drop_pad (b64 x25519))) then None
                    else Some \<lparr>dv_deviceID = field d ''device_id'', dv_kind = field d ''kind'', dv_signingKey = signingKey,
                      dv_x25519 = x25519, dv_x25519B64 = b64 x25519, dv_first = truthy (field d ''first_device'')\<rparr>
                | _ \<Rightarrow> None)
      | _ \<Rightarrow> None)"

text \<open>The scan of the listing: the names seen, the valid devices and the first device; None where
  the code returns no devices at all.\<close>

fun scan_devices :: "curves \<Rightarrow> jsv list \<Rightarrow> (jsv, device) jmap \<Rightarrow> jsv option \<Rightarrow> jsv list
    \<Rightarrow> ((jsv, device) jmap \<times> jsv option) option" where
  "scan_devices cv seen valid first [] = Some (valid, first)"
| "scan_devices cv seen valid first (d # ds) =
     (let i = field d ''device_id'' in
      if \<not> truthy d \<or> \<not> validText i \<or> i \<in> set seen then None
      else if truthy (field d ''first_device'') \<and> first \<noteq> None then None
      else scan_devices cv (i # seen)
        (case device_entry cv d of None \<Rightarrow> valid | Some v \<Rightarrow> jset i v valid)
        (if truthy (field d ''first_device'') then Some d else first) ds)"

text \<open>One visit of the inner loop: whether a device is to be added.\<close>

definition approval_ok :: "curves \<Rightarrow> jsv \<Rightarrow> bytes \<Rightarrow> jsv \<Rightarrow> bool" where
  "approval_ok cv uid key d =
     (case atob (if truthy (field d ''approval_signature'') then js_string (field d ''approval_signature'') else []) of
        None \<Rightarrow> False
      | Some signature \<Rightarrow> length signature = 64 \<and> JStr (b64 signature) = field d ''approval_signature''
          \<and> verifySignature cv signature
              (approvalTranscript uid (field d ''approved_by'') (field d ''ed25519_public_key'') (field d ''x25519_public_key'')) key)"

definition newly_trusted :: "curves \<Rightarrow> jsv \<Rightarrow> (jsv, device) jmap \<Rightarrow> jsv list \<Rightarrow> jsv \<Rightarrow> bool" where
  "newly_trusted cv uid valid trusted d \<longleftrightarrow>
     field d ''device_id'' \<notin> set trusted \<and> field d ''approved_by'' \<in> set trusted \<and> jhas valid (field d ''device_id'')
     \<and> (case jget valid (field d ''approved_by'') of None \<Rightarrow> False | Some a \<Rightarrow> approval_ok cv uid (dv_signingKey a) d)"

fun trust_pass :: "curves \<Rightarrow> jsv \<Rightarrow> (jsv, device) jmap \<Rightarrow> jsv list \<Rightarrow> jsv list \<Rightarrow> jsv list" where
  "trust_pass cv uid valid [] trusted = trusted"
| "trust_pass cv uid valid (d # ds) trusted = trust_pass cv uid valid ds
     (if newly_trusted cv uid valid trusted d then trusted @ [field d ''device_id''] else trusted)"

lemma trust_pass_grows:
  "\<exists>new. trust_pass cv p valid ds trusted = trusted @ new \<and> set new \<subseteq> (\<lambda>d. field d ''device_id'') ` set ds
    \<and> distinct new \<and> set new \<inter> set trusted = {}"
proof (induction ds arbitrary: trusted)
  case (Cons d ds)
  show ?case
  proof (cases "newly_trusted cv p valid trusted d")
    case True
    then have "field d ''device_id'' \<notin> set trusted" by (simp add: newly_trusted_def)
    then show ?thesis using Cons [of "trusted @ [field d ''device_id'']"] True by force
  next
    case False
    then show ?thesis using Cons [of trusted] by force
  qed
qed simp

text \<open>The outer loop: \<^verbatim>\<open>changed\<close> is that the pass added a device.\<close>

function trust_loop :: "curves \<Rightarrow> jsv \<Rightarrow> (jsv, device) jmap \<Rightarrow> jsv list \<Rightarrow> jsv list \<Rightarrow> jsv list" where
  "trust_loop cv uid valid ds trusted =
     (let trusted' = trust_pass cv uid valid ds trusted in
      if trusted' \<noteq> trusted then trust_loop cv uid valid ds trusted' else trusted')"
  by auto
termination
proof (relation "measure (\<lambda>(cv, p, valid, ds, trusted). card ((\<lambda>d. field d ''device_id'') ` set ds - set trusted))")
  fix cv p valid ds trusted trusted'
  assume t: "trusted' = trust_pass cv p valid ds trusted" and ne: "trusted' \<noteq> trusted"
  obtain new where new: "trust_pass cv p valid ds trusted = trusted @ new" "set new \<subseteq> (\<lambda>d. field d ''device_id'') ` set ds"
    "set new \<inter> set trusted = {}" using trust_pass_grows [of cv p valid ds trusted] by blast
  then obtain x where "x \<in> set new" using ne t by (cases new) auto
  then have "(\<lambda>d. field d ''device_id'') ` set ds - set trusted' \<subset> (\<lambda>d. field d ''device_id'') ` set ds - set trusted"
    using new t by auto
  then have "card ((\<lambda>d. field d ''device_id'') ` set ds - set trusted') < card ((\<lambda>d. field d ''device_id'') ` set ds - set trusted)"
    by (intro psubset_card_mono) auto
  then show "((cv, p, valid, ds, trusted'), cv, p, valid, ds, trusted)
      \<in> measure (\<lambda>(cv, p, valid, ds, trusted). card ((\<lambda>d. field d ''device_id'') ` set ds - set trusted))" by simp
qed simp

declare trust_loop.simps [simp del]

definition equalBytes :: "bytes \<Rightarrow> bytes option \<Rightarrow> bool" where
  "equalBytes a b \<longleftrightarrow> b = Some a"

definition trustedDevices :: "curves \<Rightarrow> jsv \<Rightarrow> jsv \<Rightarrow> bytes option \<Rightarrow> bytes option \<Rightarrow> device list" where
  "trustedDevices cv uid devices pinnedSigningKey authenticatedEncryptionKey =
     (if \<not> validText uid \<or> \<not> is_arr devices \<or> length (arr_of devices) > 64 \<or> authenticatedEncryptionKey = None then []
      else case scan_devices cv [] [] None (arr_of devices) of
          Some (valid, Some first) \<Rightarrow>
            (case jget valid (field first ''device_id'') of
               None \<Rightarrow> []
             | Some root \<Rightarrow>
                 if \<not> equalBytes (dv_signingKey root) pinnedSigningKey
                    \<or> \<not> equalBytes (dv_x25519 root) authenticatedEncryptionKey then []
                 else let trusted = trust_loop cv uid valid (arr_of devices) [field first ''device_id''] in
                   root # List.map_filter (\<lambda>d. if field d ''device_id'' \<noteq> field first ''device_id'' \<and> field d ''device_id'' \<in> set trusted
                     then jget valid (field d ''device_id'') else None) (arr_of devices))
        | _ \<Rightarrow> [])"

section \<open>The approval chain\<close>

abbreviation did :: "jsv \<Rightarrow> jsv" where
  "did d \<equiv> field d ''device_id''"

abbreviation is_first :: "jsv \<Rightarrow> bool" where
  "is_first d \<equiv> truthy (field d ''first_device'')"

text \<open>A listing the code reads at all: named devices, no name twice, at most one first device.\<close>

definition listing_ok :: "jsv list \<Rightarrow> bool" where
  "listing_ok ds \<longleftrightarrow> list_all (\<lambda>d. truthy d \<and> validText (did d)) ds \<and> distinct (map did ds) \<and> length (filter is_first ds) \<le> 1"

text \<open>The specification: the usable first device is approved, and so is a usable device whose
  approval is signed by an approved one.\<close>

inductive approved :: "curves \<Rightarrow> jsv \<Rightarrow> jsv list \<Rightarrow> jsv \<Rightarrow> bool" for cv uid ds where
  approved_first: "d \<in> set ds \<Longrightarrow> is_first d \<Longrightarrow> device_entry cv d = Some v \<Longrightarrow> approved cv uid ds d"
| approved_step: "approved cv uid ds a \<Longrightarrow> device_entry cv a = Some w \<Longrightarrow> d \<in> set ds \<Longrightarrow> device_entry cv d = Some v
    \<Longrightarrow> field d ''approved_by'' = did a \<Longrightarrow> approval_ok cv uid (dv_signingKey w) d \<Longrightarrow> approved cv uid ds d"

inductive_cases approvedE: "approved cv uid ds d"

lemma approved_usable: "approved cv uid ds d \<Longrightarrow> d \<in> set ds \<and> (\<exists>v. device_entry cv d = Some v)"
  by (erule approvedE) auto

lemma device_entry_id: "device_entry cv d = Some v \<Longrightarrow> dv_deviceID v = did d \<and> (dv_first v \<longleftrightarrow> is_first d)"
  by (auto simp: device_entry_def split: jsv.splits if_splits option.splits)

subsection \<open>The scan\<close>

definition add_valid :: "curves \<Rightarrow> jsv \<Rightarrow> (jsv, device) jmap \<Rightarrow> (jsv, device) jmap" where
  "add_valid cv d valid = (case device_entry cv d of None \<Rightarrow> valid | Some v \<Rightarrow> jset (did d) v valid)"

lemma scan_devices_eq:
  "scan_devices cv seen valid first ds =
    (if list_all (\<lambda>d. truthy d \<and> validText (did d)) ds \<and> distinct (map did ds) \<and> set (map did ds) \<inter> set seen = {}
        \<and> length (filter is_first ds) + (if first = None then 0 else 1) \<le> 1
     then Some (fold (add_valid cv) ds valid, case List.find is_first ds of None \<Rightarrow> first | Some d \<Rightarrow> Some d) else None)"
proof (induction ds arbitrary: seen valid first)
  case (Cons d ds)
  have none: "List.find is_first ds = None" if "length (filter is_first ds) = 0"
    using that by (simp add: find_None_iff filter_empty_conv)
  have add: "(case device_entry cv d of None \<Rightarrow> valid | Some v \<Rightarrow> jset (did d) v valid) = add_valid cv d valid" for valid
    by (simp add: add_valid_def)
  show ?case
    by (cases "is_first d"; cases first) (auto simp: Let_def Cons add none)
qed simp

lemma jget_add_valid:
  assumes "distinct (map did ds)"
  shows "jget (fold (add_valid cv) ds valid) i =
    (case List.find (\<lambda>d. did d = i) ds of None \<Rightarrow> jget valid i
     | Some d \<Rightarrow> (case device_entry cv d of None \<Rightarrow> jget valid i | Some v \<Rightarrow> Some v))"
  using assms
proof (induction ds arbitrary: valid)
  case (Cons d ds)
  have "List.find (\<lambda>e. did e = did d) ds = None" using Cons.prems by (simp add: find_None_iff) (metis image_eqI)
  then show ?case using Cons by (auto simp: add_valid_def split: option.splits)
qed simp

lemma find_distinct_key: "distinct (map f xs) \<Longrightarrow> x \<in> set xs \<Longrightarrow> List.find (\<lambda>y. f y = f x) xs = Some x"
  by (induction xs) auto

lemma find_is_first:
  assumes "length (filter is_first ds) \<le> 1" "d \<in> set ds" "is_first d"
  shows "List.find is_first ds = Some d"
proof -
  have "d \<in> set (filter is_first ds)" using assms by simp
  with assms(1) have "filter is_first ds = [d]"
    by (cases "filter is_first ds") (auto simp: Suc_le_eq)
  then show ?thesis by (induction ds) (auto split: if_splits)
qed

text \<open>What the scan of an accepted listing gives.\<close>

lemma scan_listing:
  "scan_devices cv [] [] None ds = (if listing_ok ds then Some (fold (add_valid cv) ds [], List.find is_first ds) else None)"
  by (simp add: scan_devices_eq listing_ok_def split: option.splits)

lemma valid_of_listed:
  assumes "listing_ok ds" "d \<in> set ds"
  shows "jget (fold (add_valid cv) ds []) (did d) = device_entry cv d"
  using assms by (simp add: listing_ok_def jget_add_valid find_distinct_key [of did] split: option.split)

subsection \<open>The search\<close>

lemma trust_pass_fix: "trust_pass cv uid valid ds trusted = trusted \<Longrightarrow> d \<in> set ds \<Longrightarrow> \<not> newly_trusted cv uid valid trusted d"
proof (induction ds)
  case (Cons e ds)
  have "\<not> newly_trusted cv uid valid trusted e"
    using Cons.prems(1) trust_pass_grows [of cv uid valid ds "trusted @ [did e]"] by auto
  then show ?case using Cons by auto
qed simp

lemma trust_loop_fix: "trust_pass cv uid valid ds (trust_loop cv uid valid ds trusted) = trust_loop cv uid valid ds trusted"
proof (induction cv uid valid ds trusted rule: trust_loop.induct)
  case (1 cv uid valid ds trusted)
  then show ?case by (subst (1 2) trust_loop.simps) (simp add: Let_def)
qed

lemma trust_loop_keeps: "set trusted \<subseteq> set (trust_loop cv uid valid ds trusted)"
proof (induction cv uid valid ds trusted rule: trust_loop.induct)
  case (1 cv uid valid ds trusted)
  have "set trusted \<subseteq> set (trust_pass cv uid valid ds trusted)" using trust_pass_grows [of cv uid valid ds trusted] by auto
  then show ?case using 1 by (subst trust_loop.simps) (auto simp: Let_def)
qed

lemma trust_loop_inv:
  assumes "\<And>trusted d. d \<in> set ds \<Longrightarrow> \<forall>i \<in> set trusted. I i \<Longrightarrow> newly_trusted cv uid valid trusted d \<Longrightarrow> I (did d)"
    and "\<forall>i \<in> set trusted. I i" and "i \<in> set (trust_loop cv uid valid ds trusted)"
  shows "I i"
proof -
  have pass: "\<forall>i \<in> set (trust_pass cv uid valid es t). I i" if "set es \<subseteq> set ds" "\<forall>i \<in> set t. I i" for es t
    using that
  proof (induction es arbitrary: t)
    case (Cons e es)
    have "\<forall>i \<in> set (if newly_trusted cv uid valid t e then t @ [did e] else t). I i"
      using assms(1) [of e t] Cons.prems by auto
    then show ?case using Cons.IH [of "if newly_trusted cv uid valid t e then t @ [did e] else t"] Cons.prems(1) by simp
  qed simp
  have "\<forall>i \<in> set (trust_loop cv uid valid ds trusted). I i" if "\<forall>i \<in> set trusted. I i" for trusted
    using that
  proof (induction "card (did ` set ds - set trusted)" arbitrary: trusted rule: less_induct)
    case less
    let ?t = "trust_pass cv uid valid ds trusted"
    have t: "\<forall>i \<in> set ?t. I i" using pass [of ds trusted] less.prems by blast
    show ?case
    proof (cases "?t = trusted")
      case False
      obtain new where new: "?t = trusted @ new" "set new \<subseteq> did ` set ds" "set new \<inter> set trusted = {}"
        using trust_pass_grows [of cv uid valid ds trusted] by blast
      then have "did ` set ds - set ?t \<subset> did ` set ds - set trusted" using False by (cases new) auto
      then have "card (did ` set ds - set ?t) < card (did ` set ds - set trusted)" by (intro psubset_card_mono) auto
      then show ?thesis using less.hyps [OF _ t] False by (subst trust_loop.simps) (simp add: Let_def)
    qed (use t in \<open>subst trust_loop.simps, simp add: Let_def\<close>)
  qed
  then show ?thesis using assms(2, 3) by blast
qed

text \<open>The search finds the devices of the specification.\<close>

lemma trust_loop_approved:
  assumes ok: "listing_ok ds" and root: "root \<in> set ds" "is_first root" "device_entry cv root = Some r" and d: "d \<in> set ds"
  shows "did d \<in> set (trust_loop cv uid (fold (add_valid cv) ds []) ds [did root]) \<longleftrightarrow> approved cv uid ds d"
    (is "_ \<in> set (trust_loop _ _ ?v _ _) \<longleftrightarrow> _")
proof
  have same: "a = b" if "a \<in> set ds" "b \<in> set ds" "did a = did b" for a b
    using ok that by (auto simp: listing_ok_def distinct_map dest: inj_onD)
  have "\<exists>e \<in> set ds. did e = i \<and> approved cv uid ds e" if "i \<in> set (trust_loop cv uid ?v ds [did root])" for i
  proof (rule trust_loop_inv [OF _ _ that])
    show "\<forall>i \<in> set [did root]. \<exists>e \<in> set ds. did e = i \<and> approved cv uid ds e"
      using root approved_first by fastforce
    fix trusted e assume e: "e \<in> set ds" and inv: "\<forall>i \<in> set trusted. \<exists>e \<in> set ds. did e = i \<and> approved cv uid ds e"
      and new: "newly_trusted cv uid ?v trusted e"
    from new inv obtain a where a: "a \<in> set ds" "did a = field e ''approved_by''" "approved cv uid ds a"
      by (auto simp: newly_trusted_def)
    obtain w where w: "device_entry cv a = Some w" "approval_ok cv uid (dv_signingKey w) e"
      using new valid_of_listed [OF ok a(1), of cv] a(2) by (auto simp: newly_trusted_def split: option.splits)
    obtain v where "device_entry cv e = Some v"
      using new valid_of_listed [OF ok e, of cv] by (auto simp: newly_trusted_def jhas_def)
    then have "approved cv uid ds e" using approved_step [OF a(3) w(1) e] a(2) w(2) by simp
    then show "\<exists>e' \<in> set ds. did e' = did e \<and> approved cv uid ds e'" using e by blast
  qed
  then show "did d \<in> set (trust_loop cv uid ?v ds [did root]) \<Longrightarrow> approved cv uid ds d" using same d by metis
next
  assume "approved cv uid ds d"
  then show "did d \<in> set (trust_loop cv uid ?v ds [did root])"
  proof induction
    case (approved_first e v)
    then have "e = root" using find_is_first [of ds e] find_is_first [of ds root] ok root by (simp add: listing_ok_def)
    then show ?case using trust_loop_keeps [of "[did root]" cv uid ?v ds] by simp
  next
    case (approved_step a w e v)
    have "jget ?v (did a) = Some w" "jget ?v (did e) = Some v"
      using valid_of_listed [OF ok] approved_step approved_usable by metis+
    then show ?case using trust_pass_fix [OF trust_loop_fix [of cv uid ?v ds "[did root]"] approved_step(3)] approved_step
      by (auto simp: newly_trusted_def jhas_def)
  qed
qed

text \<open>The listing has a first device that holds the pinned keys.\<close>

definition rooted :: "curves \<Rightarrow> jsv list \<Rightarrow> bytes option \<Rightarrow> bytes option \<Rightarrow> jsv \<Rightarrow> device \<Rightarrow> bool" where
  "rooted cv ds pin enc root r \<longleftrightarrow> listing_ok ds \<and> root \<in> set ds \<and> is_first root \<and> device_entry cv root = Some r
     \<and> pin = Some (dv_signingKey r) \<and> enc = Some (dv_x25519 r)"

lemma trusted_devices_rooted:
  assumes "validText uid" "length ds \<le> 64" and root: "rooted cv ds pin enc root r"
  shows "trustedDevices cv uid (JArr ds) pin enc
    = r # map (\<lambda>d. the (device_entry cv d)) (filter (\<lambda>d. did d \<noteq> did root \<and> approved cv uid ds d) ds)"
proof -
  have ok: "listing_ok ds" and r: "root \<in> set ds" "is_first root" "device_entry cv root = Some r"
    using root by (auto simp: rooted_def)
  have first: "List.find is_first ds = Some root" using find_is_first [of ds root] ok r by (simp add: listing_ok_def)
  have "List.map_filter (\<lambda>d. if did d \<noteq> did root \<and> did d \<in> set (trust_loop cv uid (fold (add_valid cv) ds []) ds [did root])
           then jget (fold (add_valid cv) ds []) (did d) else None) ds
      = map (\<lambda>d. the (device_entry cv d)) (filter (\<lambda>d. did d \<noteq> did root \<and> approved cv uid ds d) ds)"
    unfolding map_filter_def
    using trust_loop_approved [OF ok r, of _ uid] valid_of_listed [OF ok, of _ cv] approved_usable [of cv uid ds]
    by (intro map_cong filter_cong) (auto simp: o_def)
  then show ?thesis
    using assms(1, 2) root first valid_of_listed [OF ok r(1), of cv] r(3)
    by (simp add: trustedDevices_def scan_listing ok equalBytes_def rooted_def Let_def)
qed

lemma trusted_devices_empty:
  assumes "\<not> (validText uid \<and> is_arr devices \<and> length (arr_of devices) \<le> 64 \<and> (\<exists>root r. rooted cv (arr_of devices) pin enc root r))"
  shows "trustedDevices cv uid devices pin enc = []"
proof (rule ccontr)
  assume ne: "trustedDevices cv uid devices pin enc \<noteq> []"
  let ?ds = "arr_of devices"
  have ok: "listing_ok ?ds" and args: "validText uid" "is_arr devices" "length ?ds \<le> 64"
    using ne by (auto simp: trustedDevices_def scan_listing split: if_splits)
  from ne obtain root r where root: "List.find is_first ?ds = Some root"
    "jget (fold (add_valid cv) ?ds []) (did root) = Some r" "equalBytes (dv_signingKey r) pin" "equalBytes (dv_x25519 r) enc"
    by (auto simp: trustedDevices_def scan_listing ok Let_def split: if_splits option.splits)
  then have "root \<in> set ?ds" "is_first root" by (auto simp: find_Some_iff)
  then have "rooted cv ?ds pin enc root r"
    using root valid_of_listed [OF ok, of root cv] by (simp add: rooted_def ok equalBytes_def)
  then show False using assms args by blast
qed

lemma trusted_devices_cases:
  obtains "trustedDevices cv uid devices pin enc = []"
      "\<not> (validText uid \<and> is_arr devices \<and> length (arr_of devices) \<le> 64 \<and> (\<exists>root r. rooted cv (arr_of devices) pin enc root r))"
  | ds root r where "devices = JArr ds" "validText uid" "length ds \<le> 64" "rooted cv ds pin enc root r"
      "trustedDevices cv uid devices pin enc
        = r # map (\<lambda>d. the (device_entry cv d)) (filter (\<lambda>d. did d \<noteq> did root \<and> approved cv uid ds d) ds)"
proof (cases "validText uid \<and> is_arr devices \<and> length (arr_of devices) \<le> 64 \<and> (\<exists>root r. rooted cv (arr_of devices) pin enc root r)")
  case False
  then show ?thesis using that(1) trusted_devices_empty [OF False] by blast
next
  case True
  then obtain ds where ds: "devices = JArr ds" by (cases devices) auto
  then show ?thesis using True that(2) [OF ds] trusted_devices_rooted by auto
qed

lemma trusted_devices_member:
  "v \<in> set (trustedDevices cv uid devices pin enc) \<longleftrightarrow>
    validText uid \<and> is_arr devices \<and> length (arr_of devices) \<le> 64 \<and> (\<exists>root r. rooted cv (arr_of devices) pin enc root r)
    \<and> (\<exists>d. approved cv uid (arr_of devices) d \<and> device_entry cv d = Some v)"
proof (cases rule: trusted_devices_cases [of cv uid devices pin enc])
  case 1
  then show ?thesis by auto
next
  case (2 ds root r)
  then have r: "approved cv uid ds root" "device_entry cv root = Some r" "root \<in> set ds" "listing_ok ds"
    using approved_first [of root ds cv r uid] by (auto simp: rooted_def)
  have one: "d = root" if "approved cv uid ds d" "did d = did root" for d
    using r(3, 4) that approved_usable [OF that(1)] by (auto simp: listing_ok_def distinct_map dest: inj_onD)
  have "(\<exists>d. approved cv uid ds d \<and> device_entry cv d = Some v) \<longleftrightarrow> v = r \<or>
      (\<exists>d \<in> set ds. did d \<noteq> did root \<and> approved cv uid ds d \<and> v = the (device_entry cv d))"
    using one r(1, 2) approved_usable [of cv uid ds] by (metis option.sel)
  then show ?thesis using 2 by (auto simp: image_iff)
qed

lemma trusted_devices_distinct: "distinct (map dv_deviceID (trustedDevices cv uid devices pin enc))"
proof (cases rule: trusted_devices_cases [of cv uid devices pin enc])
  case (2 ds root r)
  define es where "es = filter (\<lambda>d. did d \<noteq> did root \<and> approved cv uid ds d) ds"
  have "\<And>d. d \<in> set es \<Longrightarrow> dv_deviceID (the (device_entry cv d)) = did d"
    using approved_usable [of cv uid ds] device_entry_id [of cv] by (fastforce simp: es_def)
  moreover have "distinct (map did es)" "did root \<notin> set (map did es)"
    using 2(4) by (auto simp: es_def rooted_def listing_ok_def distinct_map_filter)
  moreover have "dv_deviceID r = did root" using 2(4) device_entry_id [of cv root r] by (simp add: rooted_def)
  ultimately have "map dv_deviceID (trustedDevices cv uid devices pin enc) = did root # map did es \<and> distinct (did root # map did es)"
    using 2(5) by (simp flip: es_def)
  then show ?thesis by metis
qed simp

section \<open>Claims on one-time keys\<close>

text \<open>The second argument of \<^verbatim>\<open>verifyOlmClaim\<close>, with its defaults filled in.\<close>

record claim_scope =
  cs_server :: string
  cs_principal :: string
  cs_device :: string
  cs_pinned :: string
  cs_epoch :: int
  cs_until :: jsv
  cs_key :: jsv
  cs_rootSigning :: "bytes option"
  cs_rootEncryption :: "bytes option"
  cs_devices :: jsv
  cs_now :: jsv

datatype claim_error =
    Invalid_time
  | Untrusted_directory
  | Invalid_signature
  | Invalid_bundle
  | Identity_changed
  | Unlisted_key

text \<open>The condition of the long \<^verbatim>\<open>if\<close>: the bundle is the one asked for and it is still good.\<close>

definition claim_ok :: "curves \<Rightarrow> jsv \<Rightarrow> bytes \<Rightarrow> bytes \<Rightarrow> bytes \<Rightarrow> claim_scope \<Rightarrow> bool" where
  "claim_ok cv b signature transcript key sc \<longleftrightarrow>
     length signature = 64 \<and> JStr (b64 signature) = field b ''signature''
     \<and> field b ''server'' = JStr (cs_server sc) \<and> field b ''principal'' = JStr (cs_principal sc)
     \<and> field b ''device_id'' = JStr (cs_device sc)
     \<and> int_of (field b ''issued_at'') \<le> int_of (cs_now sc) + 300
     \<and> (if truthy (cs_until sc)
        then is_safe_integer (cs_until sc) \<and> int_of (cs_until sc) > int_of (cs_now sc)
          \<and> int_of (cs_until sc) \<le> int_of (field b ''expires_at'') + 3600
        else int_of (field b ''expires_at'') > int_of (cs_now sc))
     \<and> (cs_epoch sc = 0 \<or> field b ''account_epoch'' = JNum (cs_epoch sc))
     \<and> verifySignature cv signature transcript key"

definition verifyOlmClaim :: "curves \<Rightarrow> jsv \<Rightarrow> claim_scope \<Rightarrow> claim_error + jsv" where
  "verifyOlmClaim cv b sc =
     (if \<not> safe_positive (cs_now sc) then Inl Invalid_time
      else case List.find (\<lambda>d. dv_deviceID d = JStr (cs_device sc))
          (trustedDevices cv (JStr (cs_principal sc)) (cs_devices sc) (cs_rootSigning sc) (cs_rootEncryption sc)) of
        None \<Rightarrow> Inl Untrusted_directory
      | Some dev \<Rightarrow> (case bundleTranscript cv b of
          None \<Rightarrow> Inl Invalid_bundle
        | Some transcript \<Rightarrow> (case atob (js_string (field b ''signature'')) of
            None \<Rightarrow> Inl Invalid_signature
          | Some signature \<Rightarrow>
              if \<not> claim_ok cv b signature transcript (dv_signingKey dev) sc then Inl Invalid_bundle
              else if cs_pinned sc \<noteq> [] \<and> field b ''identity'' \<noteq> JStr (cs_pinned sc) then Inl Identity_changed
              else (case find_key b (cs_key sc) of None \<Rightarrow> Inl Unlisted_key | Some key \<Rightarrow> Inr key))))"

section \<open>Signing\<close>

text \<open>\<^verbatim>\<open>{ ...value, signature }\<close>.\<close>

fun with_signature :: "jsv \<Rightarrow> bytes \<Rightarrow> jsv" where
  "with_signature (JObj fs) signature = JObj (jset ''signature'' (JStr (b64 signature)) fs)"
| "with_signature v signature = v"

definition signBundle :: "curves \<Rightarrow> nacl \<Rightarrow> jsv \<Rightarrow> bytes \<Rightarrow> jsv option" where
  "signBundle cv na bundle noxaSecret =
     (case bundleTranscript cv bundle of None \<Rightarrow> None
      | Some t \<Rightarrow> map_option (with_signature bundle) (sign_detached na t noxaSecret))"

definition signReset :: "curves \<Rightarrow> nacl \<Rightarrow> jsv \<Rightarrow> bytes \<Rightarrow> jsv option" where
  "signReset cv na r secret =
     (case resetTranscript cv r of None \<Rightarrow> None
      | Some t \<Rightarrow> map_option (with_signature r) (sign_detached na t secret))"

lemma field_with_signature:
  "k \<noteq> ''signature'' \<Longrightarrow> field (with_signature b signature) k = field b k"
  by (cases b) (auto simp: jset_def update_conv')

lemma field_signature: "field (JObj (jset ''signature'' v fs)) ''signature'' = v"
  by (simp add: jset_def update_conv')

lemma bundle_with_signature [simp]: "bundleTranscript cv (with_signature b signature) = bundleTranscript cv b"
proof -
  have "bundle_ok cv (with_signature b signature) = bundle_ok cv b" by (simp add: bundle_ok_def field_with_signature)
  moreover have "bundle_fields (with_signature b signature) = bundle_fields b" by (simp add: bundle_fields_def field_with_signature)
  ultimately show ?thesis by (simp add: bundleTranscript_def field_with_signature split: option.split)
qed

lemma reset_with_signature [simp]: "resetTranscript cv (with_signature r signature) = resetTranscript cv r"
proof -
  have "reset_ok cv (with_signature r signature) = reset_ok cv r" by (simp add: reset_ok_def field_with_signature)
  moreover have "reset_fields (with_signature r signature) = reset_fields r" by (simp add: reset_fields_def field_with_signature)
  ultimately show ?thesis by (simp add: resetTranscript_def)
qed

lemma find_with_signature [simp]: "find_key (with_signature b signature) k = find_key b k"
  by (simp add: find_key_def field_with_signature)

text \<open>What the two libraries promise of a secret and its public half: a signature has 64 bytes
  and both verifiers accept it.\<close>

definition signs_for :: "curves \<Rightarrow> nacl \<Rightarrow> bytes \<Rightarrow> bool" where
  "signs_for cv na secret \<longleftrightarrow> length secret = 64 \<and>
     (\<forall>m. \<exists>s. sign_detached na m secret = Some s \<and> length s = 64
        \<and> detached_verify na m s (public_half secret) \<and> ed_verify cv s m (public_half secret) = Some True)"

lemma signs_forE:
  assumes "signs_for cv na secret"
  obtains s where "sign_detached na m secret = Some s" "length s = 64"
    "detached_verify na m s (public_half secret)" "verifySignature cv s m (public_half secret)"
  using assms by (auto simp: signs_for_def verifySignature_def)

lemma bundle_is_object: "bundleTranscript cv b = Some t \<Longrightarrow> \<exists>fs. b = JObj fs"
  by (cases b) (auto simp: bundleTranscript_def bundle_ok_def split: if_splits)

lemma reset_is_object: "resetTranscript cv r = Some t \<Longrightarrow> \<exists>fs. r = JObj fs"
  by (cases r) (auto simp: resetTranscript_def reset_ok_def split: if_splits)

subsection \<open>Signed bundles and resets are accepted\<close>

lemma signed_bundle:
  assumes "signs_for cv na secret" "bundleTranscript cv b = Some t"
  obtains s where "signBundle cv na b secret = Some (with_signature b s)" "length s = 64"
    "field (with_signature b s) ''signature'' = JStr (b64 s)" "verifySignature cv s t (public_half secret)"
proof -
  obtain s where s: "sign_detached na t secret = Some s" "length s = 64" "verifySignature cv s t (public_half secret)"
    using assms(1) by (rule signs_forE)
  obtain fs where "b = JObj fs" using assms(2) bundle_is_object by blast
  then have "field (with_signature b s) ''signature'' = JStr (b64 s)" by (simp only: with_signature.simps field_signature)
  then show ?thesis using that s assms(2) by (simp add: signBundle_def)
qed

lemma signed_reset_verifies:
  assumes "signs_for cv na secret" "resetTranscript cv r = Some t" "rs_key sc = public_half secret"
    and "field r ''server'' = JStr (rs_server sc)" "field r ''principal'' = JStr (rs_principal sc)"
    "field r ''device'' = JStr (rs_device sc)" "field r ''old_epoch'' = JNum (pin_epoch p)"
    "field r ''old_identity'' = pin_identity p" "field r ''old_signing'' = pin_signing p"
  shows "\<exists>r'. signReset cv na r secret = Some r' \<and> verifyReset cv sc p r'"
proof -
  obtain s where s: "sign_detached na t secret = Some s" "length s = 64" "verifySignature cv s t (public_half secret)"
    using assms(1) by (rule signs_forE)
  obtain fs where "r = JObj fs" using assms(2) reset_is_object by blast
  then have "field (with_signature r s) ''signature'' = JStr (b64 s)" by (simp only: with_signature.simps field_signature)
  then have "verifyReset cv sc p (with_signature r s)"
    using s assms(2-) by (simp add: verifyReset_def field_with_signature)
  then show ?thesis using s assms(2) by (simp add: signReset_def)
qed

lemma signed_bundle_claimed:
  assumes "signs_for cv na secret" "bundleTranscript cv b = Some t"
    and dev: "dev \<in> set (trustedDevices cv (JStr (cs_principal sc)) (cs_devices sc) (cs_rootSigning sc) (cs_rootEncryption sc))"
    "dv_deviceID dev = JStr (cs_device sc)" "dv_signingKey dev = public_half secret"
    and names: "field b ''server'' = JStr (cs_server sc)" "field b ''principal'' = JStr (cs_principal sc)"
    "field b ''device_id'' = JStr (cs_device sc)" "cs_epoch sc \<noteq> 0 \<Longrightarrow> field b ''account_epoch'' = JNum (cs_epoch sc)"
    "cs_pinned sc \<noteq> [] \<Longrightarrow> field b ''identity'' = JStr (cs_pinned sc)"
    and times: "cs_now sc = JNum now" "0 < now" "now \<le> max_safe_integer" "cs_until sc = JUndef"
    "int_of (field b ''issued_at'') \<le> now + 300" "now < int_of (field b ''expires_at'')"
    and key: "find_key b (cs_key sc) = Some key"
  shows "\<exists>b'. signBundle cv na b secret = Some b' \<and> verifyOlmClaim cv b' sc = Inr key"
proof -
  obtain s where s: "signBundle cv na b secret = Some (with_signature b s)" "length s = 64"
    "field (with_signature b s) ''signature'' = JStr (b64 s)" "verifySignature cv s t (public_half secret)"
    using assms(1, 2) by (rule signed_bundle)
  let ?ds = "trustedDevices cv (JStr (cs_principal sc)) (cs_devices sc) (cs_rootSigning sc) (cs_rootEncryption sc)"
  have "List.find (\<lambda>d. dv_deviceID d = dv_deviceID dev) ?ds = Some dev"
    by (rule find_distinct_key [OF trusted_devices_distinct dev(1)])
  then have find: "List.find (\<lambda>d. dv_deviceID d = JStr (cs_device sc)) ?ds = Some dev" using dev(2) by simp
  have "claim_ok cv (with_signature b s) s t (dv_signingKey dev) sc"
    using s names times dev(3) by (auto simp: claim_ok_def field_with_signature)
  then have "verifyOlmClaim cv (with_signature b s) sc = Inr key"
    using find s names times key assms(2) by (auto simp: verifyOlmClaim_def field_with_signature safe_positive_iff)
  then show ?thesis using s(1) by blast
qed

subsection \<open>Signed key records are accepted\<close>

lemma utf8_char_length: "length (utf8_char c) \<le> 2"
  by (simp add: utf8_char_def Let_def)

lemma utf8_length: "length (utf8 t) \<le> 2 * length t"
proof (induction t)
  case (Cons c t)
  then show ?case using utf8_char_length [of c] by (simp add: utf8_def)
qed (simp add: utf8_def)

lemma utf8_ascii: "list_all (\<lambda>c. (of_char c :: nat) < 128) t \<Longrightarrow> length (utf8 t) = length t"
  by (induction t) (auto simp: utf8_def utf8_char_def Let_def)

lemma hex4_ascii: "length (utf8 (hex4 n)) = 4"
proof -
  have "set (hex4 n) \<subseteq> set ''0123456789abcdef''"
    using unat_byte_lt [of "byte_of n"] nth_mem [of "unat (byte_of n) div 16" "''0123456789abcdef''"]
      nth_mem [of "unat (byte_of n) mod 16" "''0123456789abcdef''"]
    unfolding hex4_def hex_byte_def by auto
  then have "list_all (\<lambda>c. (of_char c :: nat) < 128) (hex4 n)" by (auto simp: list_all_iff)
  then show ?thesis by (simp add: utf8_ascii hex4_length)
qed

lemma utf8_Cons: "utf8 (c # t) = utf8_char c @ utf8 t"
  by (simp add: utf8_def)

lemma utf8_json_char_length: "length (utf8 (json_char False c)) \<le> 6"
proof -
  have esc: "length (utf8 ([backslash, CHR ''u''] @ hex4 n)) = 6" for n
    by (simp only: utf8_append length_append hex4_ascii) (simp add: utf8_ascii backslash_def)
  have "length (utf8 t) \<le> 6" if "length t \<le> 2" for t using utf8_length [of t] that by simp
  then show ?thesis using esc [of "of_char c"] by (simp add: json_char_def)
qed

lemma utf8_json_length: "length (utf8 (json_string False t)) \<le> 6 * length t + 4"
proof -
  have "length (utf8 (concat (map (json_char False) t))) \<le> 6 * length t"
  proof (induction t)
    case (Cons c t)
    then show ?case using utf8_json_char_length [of c] by simp
  qed (simp add: utf8_def)
  then show ?thesis using utf8_char_length [of quote_char] utf8_length [of "[quote_char]"]
    by (simp add: json_string_def utf8_Cons)
qed

lemma b64_set: "set (b64 bs) \<subseteq> set (CHR ''='' # b64_alphabet)"
  by (induction bs rule: b64.induct) (simp_all add: b64_char_in sextets)

lemma b64_json_length: "length (utf8 (json_string False (b64 bs))) = length (b64 bs) + 2"
proof -
  have "list_all (\<lambda>c. json_char False c = [c] \<and> (of_char c :: nat) < 128) (CHR ''='' # b64_alphabet)" by code_simp
  then have all: "list_all (\<lambda>c. json_char False c = [c] \<and> (of_char c :: nat) < 128) (b64 bs)"
    using b64_set [of bs] by (auto simp only: list_all_iff)
  have "concat (map (json_char False) t) = t" if "list_all (\<lambda>c. json_char False c = [c] \<and> (of_char c :: nat) < 128) t" for t
    using that by (induction t) auto
  then have "concat (map (json_char False) (b64 bs)) = b64 bs" using all by blast
  moreover have "list_all (\<lambda>c. (of_char c :: nat) < 128) (quote_char # b64 bs @ [quote_char])"
    using all by (simp add: list_all_iff quote_char_def)
  ultimately show ?thesis using utf8_ascii by (simp add: json_string_def)
qed

text \<open>The text of a record fits into the 2048 characters that the parser admits.\<close>

lemma record_length:
  assumes "length uid \<le> 128" "length signingKey = 32" "length xPublic = 32" "length signature = 64"
  shows "length (RECORD_PREFIX @ b64 (utf8 (stringify (JObj
          [(''uid'', JStr uid), (''signing_key'', JStr (b64 signingKey)), (''encryption_key'', JStr (b64 xPublic)),
           (''signature'', JStr (b64 signature))])))) \<le> 2048"
proof -
  have b64: "length (b64 signingKey) = 44" "length (b64 xPublic) = 44" "length (b64 signature) = 88"
    using assms by (simp_all add: b64_length)
  have names: "length (utf8 (json_string False ''uid'')) \<le> 22" "length (utf8 (json_string False ''signing_key'')) \<le> 70"
      "length (utf8 (json_string False ''encryption_key'')) \<le> 88" "length (utf8 (json_string False ''signature'')) \<le> 58"
    using utf8_json_length [of "''uid''"] utf8_json_length [of "''signing_key''"] utf8_json_length [of "''encryption_key''"]
      utf8_json_length [of "''signature''"] by simp_all
  have puncts: "length (utf8 [c]) \<le> 2" for c using utf8_length [of "[c]"] by simp
  let ?o = "stringify (JObj [(''uid'', JStr uid), (''signing_key'', JStr (b64 signingKey)), (''encryption_key'', JStr (b64 xPublic)),
           (''signature'', JStr (b64 signature))])"
  have "length (utf8 ?o) \<le> 6 * length uid + 500"
    using names puncts [of "CHR ''{''"] puncts [of "CHR ''}''"] puncts [of "CHR '',''"] puncts [of "CHR '':''"]
      utf8_json_length [of uid] b64_json_length [of signingKey] b64_json_length [of xPublic] b64_json_length [of signature] b64
    by (simp add: stringify_def utf8_Cons del: utf8_def)
  then show ?thesis using assms(1) by (simp add: b64_length RECORD_PREFIX_def)
qed

section \<open>Keys as text\<close>

text \<open>\<^verbatim>\<open>publicKeyPEM\<close> (mobile/src/core/crypto.js), which every listing carries.\<close>

definition publicKeyPEM :: "bytes \<Rightarrow> string" where
  "publicKeyPEM raw = BEGIN_MARK @ newline @ b64 raw @ newline @ END_MARK @ newline"

lemma strip_marks_skip: "length u = n \<Longrightarrow> strip_marks n (u @ t) = strip_marks 0 t"
  by (induction u arbitrary: n) auto

lemma strip_marks_plain: "CHR ''-'' \<notin> set u \<Longrightarrow> strip_marks 0 (u @ t) = u @ strip_marks 0 t"
  by (induction u) (auto simp: BEGIN_MARK_def END_MARK_def)

lemma strip_marks_begin: "strip_marks 0 (BEGIN_MARK @ t) = strip_marks 0 t"
  using strip_marks_skip [of "tl BEGIN_MARK" 25 t] by (simp add: BEGIN_MARK_def)

lemma strip_marks_end: "strip_marks 0 (END_MARK @ t) = strip_marks 0 t"
  using strip_marks_skip [of "tl END_MARK" 23 t] by (simp add: END_MARK_def BEGIN_MARK_def)

lemma b64_plain: "CHR ''-'' \<notin> set (b64 bs)" "c \<in> set (b64 bs) \<Longrightarrow> \<not> regex_space c"
  using b64_set [of bs] by (auto simp: b64_alphabet_def regex_space_def js_space_def)

lemma ed25519FromPEM_publicKeyPEM:
  assumes "length raw = 32"
  shows "ed25519FromPEM (JStr (publicKeyPEM raw)) = Some raw"
proof -
  have "strip_marks 0 (publicKeyPEM raw) = newline @ b64 raw @ newline @ newline"
    using b64_plain(1) [of raw] strip_marks_plain [of "newline @ b64 raw @ newline" "END_MARK @ newline"]
      strip_marks_plain [of newline "[]"]
    by (simp add: publicKeyPEM_def strip_marks_begin strip_marks_end newline_def)
  moreover have "filter (\<lambda>c. \<not> regex_space c) (newline @ b64 raw @ newline @ newline) = b64 raw"
    using b64_plain(2) [of _ raw] by (simp add: newline_def regex_space_def js_space_def)
  ultimately show ?thesis using assms by (simp add: ed25519FromPEM_def)
qed

lemma drop_pad_b64: "drop_pad (b64 bs) = map b64_char (b64_nums bs)"
proof -
  obtain n where "b64 bs = map b64_char (b64_nums bs) @ replicate n CHR ''=''" using b64_text [of bs] by blast
  moreover have "\<forall>c \<in> set (map b64_char (b64_nums bs)). c \<noteq> CHR ''=''" using b64_char_pad b64_nums_lt by auto
  moreover have "dropWhile (\<lambda>c. c = CHR ''='') (replicate n CHR ''='' @ rev t) = rev t" if "\<forall>c \<in> set t. c \<noteq> CHR ''=''" for n t
  proof -
    have "dropWhile (\<lambda>c. c = CHR ''='') (replicate n CHR ''='' @ rev t) = dropWhile (\<lambda>c. c = CHR ''='') (rev t)"
      by (rule dropWhile_append2) simp
    then show ?thesis using that by (cases "t = []") (simp_all add: dropWhile_eq_self_iff hd_rev)
  qed
  ultimately show ?thesis by (simp add: drop_pad_def)
qed

lemma b64_nums_length: "length (b64_nums bs) = (length bs * 8 + 5) div 6"
proof (induction bs rule: b64_nums.induct)
  case (4 a b c bs)
  have "(Suc (Suc (Suc (length bs))) * 8 + 5) div 6 = 4 + (length bs * 8 + 5) div 6" by presburger
  then show ?case using 4 by simp
qed simp_all

lemma atob_drop_pad: "atob (drop_pad (b64 bs)) = Some bs"
proof -
  let ?t = "map b64_char (b64_nums bs)"
  have alph: "c \<in> set b64_alphabet" if "c \<in> set ?t" for c using that b64_nums_lt b64_char_in by auto
  then have "filter (\<lambda>c. \<not> js_space c) ?t = ?t" using alphabet_no_space by (auto simp: filter_id_conv)
  moreover have "strip_pad ?t = ?t" using alph b64_alphabet_props(3) last_in_set [of ?t] by (auto simp: strip_pad_def)
  moreover have "map (b64_index \<circ> b64_char) (b64_nums bs) = b64_nums bs" by (rule map_idI) (simp add: b64_index_char b64_nums_lt)
  ultimately show ?thesis using alph b64_nums_mod [of bs] by (auto simp: drop_pad_b64 atob_def b64_groups_nums)
qed

lemma rawBase64_b64: "length bs = 32 \<Longrightarrow> rawBase64 (JStr (drop_pad (b64 bs))) 32 = Some bs"
  using atob_drop_pad [of bs] b64_nums_length [of bs] b64_nums_lt [of _ bs] b64_char_in
  by (auto simp: rawBase64_def drop_pad_b64 list_all_iff)

text \<open>A device that is not revoked and shows good keys is usable.\<close>

lemma device_entry_keys:
  assumes "field d ''ed25519_public_key'' = JStr (publicKeyPEM ek)" "field d ''x25519_public_key'' = JStr (b64 xk)"
    and "\<not> truthy (field d ''revoked_at'')" "length ek = 32" "length xk = 32"
    and "ed_point cv ek = Some (ek, False)" "little_endian xk < 2 ^ 255 - 19"
    and "shared_secret cv (42 # replicate 31 0) xk = Some s" "list_ex (\<lambda>v. v \<noteq> 0) s"
  shows "device_entry cv d = Some \<lparr>dv_deviceID = did d, dv_kind = field d ''kind'', dv_signingKey = ek, dv_x25519 = xk,
    dv_x25519B64 = b64 xk, dv_first = is_first d\<rparr>"
proof -
  have len: "length (publicKeyPEM ek) \<le> 256" "length (b64 xk) = 44"
    using assms by (simp_all add: publicKeyPEM_def b64_length BEGIN_MARK_def END_MARK_def newline_def)
  have "validSigning cv (JStr (drop_pad (b64 ek)))" "validCurve cv (JStr (drop_pad (b64 xk)))"
    using assms by (simp_all add: validSigning_def validCurve_def rawBase64_b64)
  then show ?thesis using len assms ed25519FromPEM_publicKeyPEM by (simp add: device_entry_def)
qed

section \<open>Sample material\<close>

definition sample_signature :: bytes where "sample_signature = replicate 64 7"

definition sample_nacl :: nacl where
  "sample_nacl = \<lparr>sign_detached = (\<lambda>_ _. Some sample_signature), detached_verify = (\<lambda>_ _ _. True)\<rparr>"

definition sample_secret :: bytes where
  "sample_secret = replicate 32 9 @ replicate 32 1"

definition sample_device :: "string \<Rightarrow> 8 word \<Rightarrow> (string \<times> jsv) list \<Rightarrow> jsv" where
  "sample_device i k extra = JObj ([(''device_id'', JStr i), (''kind'', JStr ''mobile''), (''ed25519_public_key'', JStr (publicKeyPEM (replicate 32 k))),
     (''x25519_public_key'', JStr (b64 (replicate 32 k)))] @ extra)"

text \<open>The first device is d0; it approves d2, and d2 approves d1, which comes earlier in the listing.\<close>

definition sample_approval :: "string \<Rightarrow> (string \<times> jsv) list" where
  "sample_approval a = [(''approved_by'', JStr a), (''approval_signature'', JStr (b64 sample_signature))]"

definition sample_listing :: jsv where
  "sample_listing = JArr [sample_device ''d1'' 1 (sample_approval ''d2''), sample_device ''d0'' 5 [(''first_device'', JBool True)],
     sample_device ''d2'' 2 (sample_approval ''d0''), sample_device ''d3'' 3 []]"

definition sample_claim :: claim_scope where
  "sample_claim = \<lparr>cs_server = sample_server, cs_principal = ''alice'', cs_device = ''d1'', cs_pinned = [], cs_epoch = 1, cs_until = JUndef,
     cs_key = JStr (replicate 11 CHR ''A''), cs_rootSigning = Some (replicate 32 5), cs_rootEncryption = Some (replicate 32 5),
     cs_devices = sample_listing, cs_now = JNum 1500\<rparr>"

lemma sample_signs: "signs_for sample_curves sample_nacl sample_secret"
  by (simp add: signs_for_def sample_curves_def sample_nacl_def sample_secret_def public_half_def sample_signature_def)

lemma sample_key_small: "little_endian (replicate 32 (k :: 8 word)) < 2 ^ 255 - 19" if "k \<in> {1, 2, 3, 5}"
proof -
  have "list_all (\<lambda>k. little_endian (replicate 32 k) < 2 ^ 255 - 19) [1, 2, 3, 5 :: 8 word]" by code_simp
  then show ?thesis using that by (simp only: list_all_iff list.set)
qed

lemma sample_entry:
  assumes "k \<in> {1, 2, 3, 5}" "extra \<in> {[], sample_approval a, [(''first_device'', JBool True)]}"
  shows "device_entry sample_curves (sample_device i k extra) = Some \<lparr>dv_deviceID = JStr i, dv_kind = JStr ''mobile'',
    dv_signingKey = replicate 32 k, dv_x25519 = replicate 32 k, dv_x25519B64 = b64 (replicate 32 k),
    dv_first = is_first (sample_device i k extra)\<rparr>"
proof -
  let ?d = "sample_device i k extra"
  have "field ?d ''revoked_at'' = JUndef" using assms(2) by (auto simp: sample_device_def sample_approval_def)
  then have r: "\<not> truthy (field ?d ''revoked_at'')" by simp
  have f: "did ?d = JStr i" "field ?d ''kind'' = JStr ''mobile''" "field ?d ''ed25519_public_key'' = JStr (publicKeyPEM (replicate 32 k))"
    "field ?d ''x25519_public_key'' = JStr (b64 (replicate 32 k))"
    by (simp_all add: sample_device_def)
  have c: "ed_point sample_curves (replicate 32 k) = Some (replicate 32 k, False)"
    "shared_secret sample_curves (42 # replicate 31 0) (replicate 32 k) = Some [1]" "list_ex (\<lambda>v. v \<noteq> 0) [1 :: 8 word]"
    by (simp_all add: sample_curves_def)
  have "device_entry sample_curves ?d = Some \<lparr>dv_deviceID = did ?d, dv_kind = field ?d ''kind'', dv_signingKey = replicate 32 k,
      dv_x25519 = replicate 32 k, dv_x25519B64 = b64 (replicate 32 k), dv_first = is_first ?d\<rparr>"
    by (rule device_entry_keys [OF f(3,4) r length_replicate length_replicate c(1) sample_key_small [OF assms(1)] c(2,3)])
  then show ?thesis unfolding f(1,2) .
qed

lemma sample_rooted:
  "rooted sample_curves (arr_of sample_listing) (Some (replicate 32 5)) (Some (replicate 32 5)) (sample_device ''d0'' 5 [(''first_device'', JBool True)])
    \<lparr>dv_deviceID = JStr ''d0'', dv_kind = JStr ''mobile'', dv_signingKey = replicate 32 5, dv_x25519 = replicate 32 5,
      dv_x25519B64 = b64 (replicate 32 5), dv_first = True\<rparr>"
proof -
  have "is_first (sample_device ''d0'' 5 [(''first_device'', JBool True)])" by (simp add: sample_device_def)
  moreover have "listing_ok (arr_of sample_listing)"
    by (simp add: listing_ok_def sample_listing_def sample_device_def sample_approval_def validText_def control_char_def utf8_def utf8_char_def)
  ultimately show ?thesis
    using sample_entry [of 5 "[(''first_device'', JBool True)]" "''x''" "''d0''"] by (simp add: rooted_def sample_listing_def)
qed

lemma sample_approved: "approved sample_curves (JStr ''alice'') (arr_of sample_listing) (sample_device ''d1'' 1 (sample_approval ''d2''))"
proof -
  have sig: "length sample_signature = 64" by (simp add: sample_signature_def)
  have "length (b64 sample_signature) \<noteq> 0" by (simp add: b64_length sig)
  then have "b64 sample_signature \<noteq> []" by blast
  then have ok: "approval_ok sample_curves u key (sample_device i k (sample_approval a))" for u key i k a
    using sig by (simp add: approval_ok_def sample_device_def sample_approval_def verifySignature_def sample_curves_def)
  have signer: "field (sample_device i k (sample_approval a)) ''approved_by'' = did (sample_device a l extra)" for i k a l extra
    by (simp add: sample_device_def sample_approval_def)
  let ?d0 = "sample_device ''d0'' 5 [(''first_device'', JBool True)]" and ?d2 = "sample_device ''d2'' 2 (sample_approval ''d0'')"
    and ?d1 = "sample_device ''d1'' 1 (sample_approval ''d2'')"
  have listed: "?d0 \<in> set (arr_of sample_listing)" "?d1 \<in> set (arr_of sample_listing)" "?d2 \<in> set (arr_of sample_listing)"
    by (simp_all add: sample_listing_def)
  have entry: "device_entry sample_curves ?d0 \<noteq> None" "device_entry sample_curves ?d1 \<noteq> None" "device_entry sample_curves ?d2 \<noteq> None"
    using sample_entry [of 5 "[(''first_device'', JBool True)]" "''x''" "''d0''"] sample_entry [of 1 "sample_approval ''d2''" "''d2''" "''d1''"]
      sample_entry [of 2 "sample_approval ''d0''" "''d0''" "''d2''"] by auto
  then obtain v0 v1 v2 where v: "device_entry sample_curves ?d0 = Some v0" "device_entry sample_curves ?d1 = Some v1" "device_entry sample_curves ?d2 = Some v2"
    by blast
  have "approved sample_curves (JStr ''alice'') (arr_of sample_listing) ?d0"
    using sample_rooted v(1) by (intro approved_first) (simp_all add: rooted_def)
  then have "approved sample_curves (JStr ''alice'') (arr_of sample_listing) ?d2"
    by (rule approved_step [OF _ v(1) listed(3) v(3) signer ok])
  then show ?thesis by (rule approved_step [OF _ v(3) listed(2) v(2) signer ok])
qed

definition sample_key :: jsv where
  "sample_key = JObj [(''id'', JStr (replicate 11 CHR ''A'')), (''key'', sample_curve_key CHR ''D'')]"

lemma sample_bundle_facts:
  "\<exists>t. bundleTranscript sample_curves sample_bundle = Some t" "find_key sample_bundle (cs_key sample_claim) = Some sample_key"
proof -
  have "bundleTranscript sample_curves sample_bundle \<noteq> None" by code_simp
  then show "\<exists>t. bundleTranscript sample_curves sample_bundle = Some t" by blast
  show "find_key sample_bundle (cs_key sample_claim) = Some sample_key" by code_simp
qed

lemma sample_trusted:
  "device_entry sample_curves (sample_device ''d1'' 1 (sample_approval ''d2'')) = Some \<lparr>dv_deviceID = JStr ''d1'', dv_kind = JStr ''mobile'',
    dv_signingKey = replicate 32 1, dv_x25519 = replicate 32 1, dv_x25519B64 = b64 (replicate 32 1), dv_first = False\<rparr>"
  using sample_entry [of 1 "sample_approval ''d2''" "''d2''" "''d1''"] by (simp add: sample_device_def sample_approval_def)

lemma sample_public: "public_half sample_secret = replicate 32 1"
  by (simp add: public_half_def sample_secret_def)

lemma sample_principal: "validText (JStr ''alice'')"
  by (simp add: validText_def control_char_def utf8_def utf8_char_def)

lemma sample_claim_facts:
  "cs_principal sample_claim = ''alice''" "cs_rootSigning sample_claim = Some (replicate 32 5)"
  "cs_rootEncryption sample_claim = Some (replicate 32 5)" "cs_devices sample_claim = JArr (arr_of sample_listing)"
  "cs_device sample_claim = ''d1''" "cs_now sample_claim = JNum 1500" "cs_until sample_claim = JUndef" "cs_epoch sample_claim = 1"
  "cs_pinned sample_claim = []" "field sample_bundle ''server'' = JStr (cs_server sample_claim)"
  "field sample_bundle ''principal'' = JStr ''alice''" "did sample_bundle = JStr ''d1''" "field sample_bundle ''account_epoch'' = JNum 1"
  "int_of (field sample_bundle ''issued_at'') = 1000" "int_of (field sample_bundle ''expires_at'') = 2000"
  "length (arr_of sample_listing) \<le> 64" "did (sample_device i k extra) = JStr i"
  by (simp_all add: sample_claim_def sample_listing_def sample_device_def sample_bundle_def)

lemma sample_claimed:
  "\<exists>b'. signBundle sample_curves sample_nacl sample_bundle sample_secret = Some b' \<and> verifyOlmClaim sample_curves b' sample_claim = Inr sample_key"
proof -
  obtain t where t: "bundleTranscript sample_curves sample_bundle = Some t" using sample_bundle_facts(1) by blast
  let ?v = "\<lparr>dv_deviceID = JStr ''d1'', dv_kind = JStr ''mobile'', dv_signingKey = replicate 32 1, dv_x25519 = replicate 32 1,
    dv_x25519B64 = b64 (replicate 32 1), dv_first = False\<rparr>"
  have "?v \<in> set (trustedDevices sample_curves (JStr ''alice'') (JArr (arr_of sample_listing)) (Some (replicate 32 5)) (Some (replicate 32 5)))"
    unfolding trusted_devices_member using sample_rooted sample_approved sample_trusted sample_principal sample_claim_facts(16)
    unfolding arr_of.simps is_arr.simps by blast
  then show ?thesis
    using signed_bundle_claimed [OF sample_signs t, where sc = sample_claim and dev = ?v and now = 1500 and key = sample_key]
    unfolding sample_claim_facts sample_public by (simp add: sample_bundle_facts(2) max_safe_integer_def)
qed

section \<open>Theorems\<close>

text \<open>Property C7: \<open>trustedDevices\<close> computes the approval chain, whatever the order of the
  listing: it returns a device exactly when the listing is well formed, its one first device
  holds the pinned signing key and the authenticated encryption key, and the device is connected
  to the first one by approvals, each signed by an approved device that is not revoked. No name
  is returned twice.\<close>

theorem trusted_devices_follow_approvals:
  "(v \<in> set (trustedDevices cv uid devices pin enc) \<longleftrightarrow>
      validText uid \<and> is_arr devices \<and> length (arr_of devices) \<le> 64 \<and> (\<exists>root r. rooted cv (arr_of devices) pin enc root r)
      \<and> (\<exists>d. approved cv uid (arr_of devices) d \<and> device_entry cv d = Some v))
    \<and> distinct (map dv_deviceID (trustedDevices cv uid devices pin enc))"
  using trusted_devices_member trusted_devices_distinct by blast

text \<open>Property C8: a one-time key is claimed only from a device of the approval chain: the bundle it
  comes from names the expected server, account, device and epoch, was issued at most 300 seconds ahead,
  has not expired (with a reservation: the reservation runs and ends within an hour of the expiry) and carries a
  signature that verifies under the signing key that the chain gives this device, and the key is
  listed there under the claimed name. A pinned identity is kept.\<close>

theorem claim_is_vouched:
  assumes "verifyOlmClaim cv b sc = Inr key"
  shows "\<exists>d v t signature. v \<in> set (trustedDevices cv (JStr (cs_principal sc)) (cs_devices sc) (cs_rootSigning sc) (cs_rootEncryption sc))
    \<and> approved cv (JStr (cs_principal sc)) (arr_of (cs_devices sc)) d \<and> device_entry cv d = Some v \<and> did d = JStr (cs_device sc)
    \<and> bundleTranscript cv b = Some t \<and> field b ''signature'' = JStr (b64 signature) \<and> verifySignature cv signature t (dv_signingKey v)
    \<and> field b ''server'' = JStr (cs_server sc) \<and> field b ''principal'' = JStr (cs_principal sc) \<and> field b ''device_id'' = did d
    \<and> (cs_pinned sc = [] \<or> field b ''identity'' = JStr (cs_pinned sc))
    \<and> (cs_epoch sc = 0 \<or> field b ''account_epoch'' = JNum (cs_epoch sc))
    \<and> int_of (field b ''issued_at'') \<le> int_of (cs_now sc) + 300
    \<and> (if truthy (cs_until sc) then int_of (cs_now sc) < int_of (cs_until sc) \<and> int_of (cs_until sc) \<le> int_of (field b ''expires_at'') + 3600
       else int_of (cs_now sc) < int_of (field b ''expires_at''))
    \<and> key \<in> set (arr_of (field b ''one_time_keys'')) \<and> field key ''id'' = cs_key sc"
proof -
  let ?ds = "trustedDevices cv (JStr (cs_principal sc)) (cs_devices sc) (cs_rootSigning sc) (cs_rootEncryption sc)"
  from assms obtain dev t signature where
    dev: "List.find (\<lambda>d. dv_deviceID d = JStr (cs_device sc)) ?ds = Some dev"
    and t: "bundleTranscript cv b = Some t" and ok: "claim_ok cv b signature t (dv_signingKey dev) sc"
    and pin: "cs_pinned sc = [] \<or> field b ''identity'' = JStr (cs_pinned sc)" and key: "find_key b (cs_key sc) = Some key"
    by (auto simp: verifyOlmClaim_def split: if_splits option.splits)
  from dev have v: "dev \<in> set ?ds" "dv_deviceID dev = JStr (cs_device sc)" by (auto simp: find_Some_iff)
  then obtain d where d: "approved cv (JStr (cs_principal sc)) (arr_of (cs_devices sc)) d" "device_entry cv d = Some dev"
    using trusted_devices_member by blast
  have k: "key \<in> set (arr_of (field b ''one_time_keys''))" "field key ''id'' = cs_key sc"
    using key by (auto simp: find_key_def find_Some_iff)
  have "did d = JStr (cs_device sc)" using device_entry_id [OF d(2)] v(2) by simp
  moreover have "(if truthy (cs_until sc) then int_of (cs_now sc) < int_of (cs_until sc) \<and> int_of (cs_until sc) \<le> int_of (field b ''expires_at'') + 3600
       else int_of (cs_now sc) < int_of (field b ''expires_at''))" using ok by (auto simp: claim_ok_def split: if_splits)
  ultimately show ?thesis
    using v(1) d t ok pin k unfolding claim_ok_def by metis
qed

theorem claim_is_vouched_witness:
  "\<exists>d. approved sample_curves (JStr ''alice'') (arr_of sample_listing) d \<and> did d = JStr ''d1''"
proof -
  obtain b where "verifyOlmClaim sample_curves b sample_claim = Inr sample_key" using sample_claimed by blast
  from claim_is_vouched [OF this] show ?thesis by (auto simp: sample_claim_def)
qed

text \<open>Property C31: a device that the chain trusts can publish keys: the bundle it signs with its
  own secret, when it is well formed and in time and agrees with what the claimant expects, is
  accepted and gives the listed key.\<close>

theorem signed_bundle_is_claimable:
  assumes "signs_for cv na secret" "bundleTranscript cv b = Some t"
    and "validText (JStr (cs_principal sc))" "cs_devices sc = JArr ds" "length ds \<le> 64"
    and "rooted cv ds (cs_rootSigning sc) (cs_rootEncryption sc) root r" "approved cv (JStr (cs_principal sc)) ds d"
    and "device_entry cv d = Some v" "did d = JStr (cs_device sc)" "dv_signingKey v = public_half secret"
    and "field b ''server'' = JStr (cs_server sc)" "field b ''principal'' = JStr (cs_principal sc)"
    "field b ''device_id'' = JStr (cs_device sc)" "cs_epoch sc = 0 \<or> field b ''account_epoch'' = JNum (cs_epoch sc)"
    "cs_pinned sc = [] \<or> field b ''identity'' = JStr (cs_pinned sc)"
    and "cs_now sc = JNum now" "0 < now" "now \<le> max_safe_integer" "cs_until sc = JUndef"
    "int_of (field b ''issued_at'') \<le> now + 300" "now < int_of (field b ''expires_at'')"
    and "find_key b (cs_key sc) = Some key"
  shows "\<exists>b'. signBundle cv na b secret = Some b' \<and> verifyOlmClaim cv b' sc = Inr key"
proof -
  have "v \<in> set (trustedDevices cv (JStr (cs_principal sc)) (cs_devices sc) (cs_rootSigning sc) (cs_rootEncryption sc))"
    unfolding trusted_devices_member using assms(3-8) by auto
  moreover have "dv_deviceID v = JStr (cs_device sc)" using device_entry_id [OF assms(8)] assms(9) by simp
  ultimately show ?thesis using assms by (intro signed_bundle_claimed [where dev = v and now = now]) auto
qed

theorem signed_bundle_is_claimable_witness:
  "\<exists>b'. signBundle sample_curves sample_nacl sample_bundle sample_secret = Some b' \<and> verifyOlmClaim sample_curves b' sample_claim = Inr sample_key"
proof -
  obtain t where t: "bundleTranscript sample_curves sample_bundle = Some t" using sample_bundle_facts(1) by blast
  show ?thesis
    using signed_bundle_is_claimable [OF sample_signs t, where sc = sample_claim and now = 1500 and key = sample_key,
      unfolded sample_claim_facts, OF sample_principal refl sample_claim_facts(16) sample_rooted sample_approved sample_trusted]
    unfolding sample_claim_facts sample_public by (simp add: sample_bundle_facts(2) max_safe_integer_def)
qed

text \<open>Key records round trip: the record an identity signs is read back by every
  contact as this identity's two public keys.\<close>

theorem key_record_roundtrip:
  assumes "signs_for cv na secret" "length uid \<le> 128" "length xPublic = 32"
  shows "\<exists>t. signKeyRecord na uid xPublic secret = Some t
    \<and> parseKeyRecord na (JStr t) uid = Some \<lparr>kr_signingKey = public_half secret, kr_encryptionKey = xPublic\<rparr>"
proof -
  let ?k = "public_half secret"
  obtain s where s: "sign_detached na (record_message (record_payload uid ?k xPublic)) secret = Some s" "length s = 64"
    "detached_verify na (record_message (record_payload uid ?k xPublic)) s ?k" using assms(1) by (rule signs_forE)
  have k: "length ?k = 32" using assms(1) by (simp add: signs_for_def public_half_def)
  define r where "r = JObj [(''uid'', JStr uid), (''signing_key'', JStr (b64 ?k)), (''encryption_key'', JStr (b64 xPublic)), (''signature'', JStr (b64 s))]"
  have parsed: "json_parse (stringify r) = Some r"
    unfolding stringify_def by (rule json_parse_text) (simp add: r_def)
  have "b64 s \<noteq> []" using s(2) b64_length [of s] by auto
  then have "checked_record na r uid = Some \<lparr>kr_signingKey = ?k, kr_encryptionKey = xPublic\<rparr>"
    using s k assms(3) by (simp add: checked_record_def r_def)
  then have "parseKeyRecord na (JStr (RECORD_PREFIX @ b64 (utf8 (stringify r)))) uid = Some \<lparr>kr_signingKey = ?k, kr_encryptionKey = xPublic\<rparr>"
    using record_length [OF assms(2) k assms(3) s(2)] parsed by (simp add: parseKeyRecord_def flip: r_def)
  then show ?thesis using s(1) by (simp add: signKeyRecord_def Let_def r_def)
qed

theorem key_record_roundtrip_witness:
  "\<exists>t. signKeyRecord sample_nacl ''alice'' (replicate 32 5) sample_secret = Some t
    \<and> parseKeyRecord sample_nacl (JStr t) ''alice'' = Some \<lparr>kr_signingKey = public_half sample_secret, kr_encryptionKey = replicate 32 5\<rparr>"
  by (rule key_record_roundtrip [OF sample_signs]) simp_all

end
