(* ===== verification/Olm_Control.thy ===== *)
theory Olm_Control
  imports Olm_Admission
begin

text \<open>
  Payloads and media controls of the admission contract (mobile/src/core/olm-admission.js): a
  payload is the canonical text of its context and its body; the receiver compares the context,
  refuses duplicate members and hands on the exact text of the body. A control is judged on that
  text by a scanner of its own. Positions in a text are modelled by the text that is left from
  there on. The recursion of the scanners takes fuel, linear in the text (\<open>scan_fuel\<close>,
  \<open>walk_fuel\<close>: more changes nothing).
\<close>

section \<open>Scanning of raw text\<close>

definition skipWS :: "string \<Rightarrow> string" where
  "skipWS s = dropWhile json_ws s"

text \<open>The loop of \<^verbatim>\<open>scanString\<close>, after the opening quote.\<close>

fun scan_chars :: "string \<Rightarrow> string option" where
  "scan_chars [] = None"
| "scan_chars [c] = (if c = quote_char then Some [] else None)"
| "scan_chars (c # d # cs) = (if c = backslash then scan_chars cs else if c = quote_char then Some (d # cs) else scan_chars (d # cs))"

definition scanString :: "string \<Rightarrow> string option" where
  "scanString s = (case s of [] \<Rightarrow> None | c # cs \<Rightarrow> if c = quote_char then scan_chars cs else None)"

definition closer :: "char \<Rightarrow> char" where
  "closer c = (if c = CHR ''{'' then CHR ''}'' else CHR '']'')"

definition in_word :: "char \<Rightarrow> bool" where
  "in_word c \<longleftrightarrow> c \<notin> set '',}]'' \<and> \<not> json_ws c"

definition after_colon :: "string \<Rightarrow> string option" where
  "after_colon s = (case s of c # cs \<Rightarrow> if c = CHR '':'' then Some cs else None | [] \<Rightarrow> None)"

text \<open>Where the value of an item starts: in an object, after its name and a colon.\<close>

definition item_start :: "char \<Rightarrow> string \<Rightarrow> string option" where
  "item_start c s = (if c = CHR ''{'' then Option.bind (scanString (skipWS s)) (\<lambda>r. after_colon (skipWS r)) else Some s)"

fun scan_value :: "nat \<Rightarrow> string \<Rightarrow> string option" and scan_items :: "nat \<Rightarrow> char \<Rightarrow> string \<Rightarrow> string option" where
  "scan_value 0 s = None"
| "scan_value (Suc n) s =
     (case skipWS s of
        [] \<Rightarrow> None
      | c # cs \<Rightarrow>
          if c = quote_char then scan_chars cs
          else if c = CHR ''{'' \<or> c = CHR ''['' then
            (let r = skipWS cs in if r \<noteq> [] \<and> hd r = closer c then Some (tl r) else scan_items n c r)
          else if in_word c then Some (dropWhile in_word cs) else None)"
| "scan_items 0 c s = None"
| "scan_items (Suc n) c s =
     (case item_start c s of
        None \<Rightarrow> None
      | Some t \<Rightarrow> (case scan_value n t of
          None \<Rightarrow> None
        | Some r \<Rightarrow> (case skipWS r of
            [] \<Rightarrow> None
          | d # ds \<Rightarrow> if d = CHR '','' then scan_items n c ds else if d = closer c then Some ds else None)))"

definition scanValue :: "string \<Rightarrow> string option" where
  "scanValue s = scan_value (2 * length s + 2) s"

text \<open>\<^verbatim>\<open>s.slice(i, j)\<close>, with the text left at \<^verbatim>\<open>i\<close> and at \<^verbatim>\<open>j\<close>.\<close>

definition between :: "string \<Rightarrow> string \<Rightarrow> string" where
  "between s r = take (length s - length r) s"

definition string_key :: "string \<Rightarrow> string option" where  \<comment> \<open>\<^verbatim>\<open>JSON.parse\<close> of the text of a name\<close>
  "string_key t = (case json_parse t of Some (JStr k) \<Rightarrow> Some k | _ \<Rightarrow> None)"

lemma skipWS_length: "length (skipWS s) \<le> length s"
  by (simp add: skipWS_def length_dropWhile_le)

lemma skipWS_split: "skipWS s = c # cs \<Longrightarrow> length cs < length s"
  using skipWS_length [of s] by simp

lemma scan_chars_shorter: "scan_chars s = Some r \<Longrightarrow> length r < length s"
  by (induction s rule: scan_chars.induct) (auto split: if_splits)

lemma scanString_shorter: "scanString s = Some r \<Longrightarrow> length r < length s"
  by (auto simp: scanString_def split: list.splits if_splits dest: scan_chars_shorter)

lemma after_colon_shorter: "after_colon s = Some r \<Longrightarrow> length r < length s"
  by (auto simp: after_colon_def split: list.splits if_splits)

lemma item_start_shorter: "item_start c s = Some t \<Longrightarrow> length t \<le> length s"
proof (cases "c = CHR ''{''")
  case True
  assume "item_start c s = Some t"
  then obtain r where r: "scanString (skipWS s) = Some r" "after_colon (skipWS r) = Some t"
    by (auto simp: item_start_def True bind_eq_Some_conv)
  show ?thesis using scanString_shorter [OF r(1)] after_colon_shorter [OF r(2)] skipWS_length [of s] skipWS_length [of r] by simp
qed (simp add: item_start_def)

lemma scan_shorter:
  "(\<forall>s r. scan_value n s = Some r \<longrightarrow> length r < length s) \<and> (\<forall>c s r. scan_items n c s = Some r \<longrightarrow> length r < length s)"
proof (induction n)
  case (Suc n)
  note IH = Suc.IH [THEN conjunct1, rule_format] Suc.IH [THEN conjunct2, rule_format]
  show ?case
  proof (intro conjI allI impI)
    fix s r assume a: "scan_value (Suc n) s = Some r"
    then obtain c cs where s: "skipWS s = c # cs" by (auto split: list.splits)
    from a have "scan_chars cs = Some r \<or> r = tl (skipWS cs) \<or> scan_items n c (skipWS cs) = Some r \<or> r = dropWhile in_word cs"
      by (simp add: s Let_def split: if_splits)
    then consider "scan_chars cs = Some r" | "r = tl (skipWS cs)" | "scan_items n c (skipWS cs) = Some r" | "r = dropWhile in_word cs" by blast
    then have "length r \<le> length cs"
    proof cases
      case 2
      then show ?thesis using skipWS_length [of cs] by simp
    next
      case 3
      then show ?thesis using IH(2) [OF 3] skipWS_length [of cs] by simp
    qed (use scan_chars_shorter [of cs r] length_dropWhile_le [of in_word cs] in simp_all)
    then show "length r < length s" using skipWS_split [OF s] by simp
  next
    fix c s r assume "scan_items (Suc n) c s = Some r"
    then obtain t u d ds where u: "item_start c s = Some t" "scan_value n t = Some u" "skipWS u = d # ds"
      and d: "scan_items n c ds = Some r \<or> r = ds"
      by (auto split: option.splits list.splits if_splits)
    have "length r \<le> length ds" using d IH(2) [of c ds r] by auto
    then show "length r < length s" using item_start_shorter [OF u(1)] IH(1) [OF u(2)] skipWS_split [OF u(3)] by simp
  qed
qed simp

lemma scanValue_shorter: "scanValue s = Some r \<Longrightarrow> length r < length s"
  unfolding scanValue_def using scan_shorter by blast

lemma member_shorter:
  assumes "scanString (skipWS s) = Some r" "Some t = after_colon (skipWS r)" "scanValue (skipWS t) = Some u" "skipWS u = d # ds"
  shows "length ds < length s"
  using scanString_shorter [OF assms(1)] after_colon_shorter [OF assms(2) [symmetric]] scanValue_shorter [OF assms(3)] skipWS_split [OF assms(4)]
    skipWS_length [of s] skipWS_length [of r] skipWS_length [of t] by simp

text \<open>The loop of \<^verbatim>\<open>rawMembers\<close>.\<close>

function raw_members :: "string \<Rightarrow> ((string \<times> string) list \<times> string) option" where
  "raw_members s =
     (let ks = skipWS s in
      case scanString ks of
        None \<Rightarrow> None
      | Some r \<Rightarrow> (case (string_key (between ks r), after_colon (skipWS r)) of
          (Some key, Some t) \<Rightarrow>
            (let vs = skipWS t in
             case scanValue vs of
               None \<Rightarrow> None
             | Some u \<Rightarrow> (case skipWS u of
                 [] \<Rightarrow> None
               | d # ds \<Rightarrow>
                   if d = CHR '','' then map_option (apfst ((#) (key, between vs u))) (raw_members ds)
                   else if d = CHR ''}'' then Some ([(key, between vs u)], ds) else None))
        | _ \<Rightarrow> None))"
  by auto
termination
  by (relation "measure length") (auto intro: member_shorter)

declare raw_members.simps [simp del]

definition rawMembers :: "string \<Rightarrow> (string \<times> string) list option" where
  "rawMembers s =
     (case skipWS s of
        [] \<Rightarrow> None
      | c # cs \<Rightarrow>
          if c \<noteq> CHR ''{'' then None
          else let r = skipWS cs in
            (case (if r \<noteq> [] \<and> hd r = CHR ''}'' then Some ([], tl r) else raw_members r) of
               None \<Rightarrow> None
             | Some (ms, u) \<Rightarrow> if skipWS u = [] then Some ms else None))"

definition exactMembers :: "string \<Rightarrow> string list \<Rightarrow> (string \<times> string) list option" where
  "exactMembers s allowed = (case rawMembers s of
     None \<Rightarrow> None
   | Some ms \<Rightarrow> if list_all (\<lambda>(k, _). k \<in> set allowed) ms \<and> distinct (map fst ms) then Some ms else None)"

text \<open>\<^verbatim>\<open>compactSize\<close>: the size without the white space outside of strings.\<close>

fun compact_size :: "bool \<Rightarrow> bool \<Rightarrow> string \<Rightarrow> nat" where
  "compact_size inString escaped [] = 0"
| "compact_size inString escaped (ch # cs) =
     (if inString then
        length (utf8 [ch]) + (if escaped then compact_size True False cs else if ch = backslash then compact_size True True cs
          else compact_size (ch \<noteq> quote_char) False cs)
      else if json_ws ch then compact_size False False cs
      else length (utf8 [ch]) + compact_size (ch = quote_char) False cs)"

definition compactSize :: "string \<Rightarrow> nat" where
  "compactSize raw = compact_size False False raw"

text \<open>\<^verbatim>\<open>int64Literal\<close>. Above the safe integers \<^verbatim>\<open>Number\<close> rounds, but to a number that is not safe
  either, so that the callers refuse both; minus zero is zero.\<close>

definition int64Literal :: "string \<Rightarrow> int option" where
  "int64Literal raw =
     (let neg = raw \<noteq> [] \<and> hd raw = CHR ''-''; ds = (if neg then tl raw else raw) in
      if ds = [] \<or> \<not> list_all digit_char ds \<or> (hd ds = CHR ''0'' \<and> length ds > 1) \<or> length ds > 19 then None
      else Some (if neg then - int (digits_value ds) else int (digits_value ds)))"

section \<open>Controls\<close>

definition MAX_CONTROL_TTL :: int where "MAX_CONTROL_TTL = 300"
definition MAX_CONTROL_DATA :: nat where "MAX_CONTROL_DATA = 4096"
definition CONTROL_CLOCK_SKEW :: int where "CONTROL_CLOCK_SKEW = 300"

definition word_char :: "char \<Rightarrow> bool" where  \<comment> \<open>\<^verbatim>\<open>[a-z0-9._-]\<close>\<close>
  "word_char c \<longleftrightarrow> (CHR ''a'' \<le> c \<and> c \<le> CHR ''z'') \<or> digit_char c \<or> c \<in> set ''._-''"

definition controlWord :: "jsv \<Rightarrow> bool" where
  "controlWord v = (case v of JStr s \<Rightarrow> 1 \<le> length s \<and> length s \<le> 64 \<and> list_all word_char s | _ \<Rightarrow> False)"

text \<open>The parsed body: kind, scope type and id, epoch, expiry and the data when there is some.\<close>

record control =
  ct_kind :: jsv
  ct_type :: jsv
  ct_id :: jsv
  ct_epoch :: int
  ct_expires_at :: int
  ct_data :: "jsv option"

text \<open>\<^verbatim>\<open>x === undefined ? undefined : JSON.parse(x)\<close>; None where \<^verbatim>\<open>JSON.parse\<close> throws.\<close>

definition parse_optional :: "string option \<Rightarrow> jsv option" where
  "parse_optional x = (case x of None \<Rightarrow> Some JUndef | Some t \<Rightarrow> json_parse t)"

definition control_fields :: "string \<Rightarrow> string \<Rightarrow> string \<Rightarrow> string \<Rightarrow> string option \<Rightarrow> control option" where
  "control_fields kind_raw scope_raw epoch_raw expires_raw data_raw =
     (case exactMembers scope_raw [''type'', ''id''] of
        None \<Rightarrow> None
      | Some sc \<Rightarrow>
          (case (json_parse kind_raw, parse_optional (map_of sc ''type''), parse_optional (map_of sc ''id''),
                 int64Literal epoch_raw, int64Literal expires_raw) of
             (Some kind, Some type, Some i, Some epoch, Some expiresAt) \<Rightarrow>
               if \<not> controlWord kind \<or> \<not> controlWord type \<or> \<not> adm_validText i \<or> epoch < 0 \<or> epoch > max_safe_integer
                  \<or> \<not> (0 < expiresAt \<and> expiresAt \<le> max_safe_integer) then None
               else
                 (case data_raw of
                    None \<Rightarrow> Some \<lparr>ct_kind = kind, ct_type = type, ct_id = i, ct_epoch = epoch, ct_expires_at = expiresAt, ct_data = None\<rparr>
                  | Some raw \<Rightarrow>
                      if compactSize raw > MAX_CONTROL_DATA then None
                      else (case json_parse raw of
                              None \<Rightarrow> None
                            | Some d \<Rightarrow> Some \<lparr>ct_kind = kind, ct_type = type, ct_id = i, ct_epoch = epoch, ct_expires_at = expiresAt, ct_data = Some d\<rparr>))
           | _ \<Rightarrow> None))"

definition parse_control_text :: "string \<Rightarrow> control option" where
  "parse_control_text t =
     (if length (utf8 t) = 0 \<or> length (utf8 t) > MAX_CONTROL_DATA + 1024 then None
      else case exactMembers t [''kind'', ''scope'', ''epoch'', ''expires_at'', ''data''] of
          None \<Rightarrow> None
        | Some members \<Rightarrow>
            (case (map_of members ''kind'', map_of members ''scope'', map_of members ''epoch'', map_of members ''expires_at'') of
               (Some kind, Some scope, Some epoch, Some expires) \<Rightarrow> control_fields kind scope epoch expires (map_of members ''data'')
             | _ \<Rightarrow> None))"

definition parseControlBody :: "jsv \<Rightarrow> control option" where
  "parseControlBody body = parse_control_text (case body of JStr t \<Rightarrow> t | _ \<Rightarrow> stringify body)"

definition validateControlSend :: "jsv \<Rightarrow> int \<Rightarrow> control option" where
  "validateControlSend body now = (case parseControlBody body of
     None \<Rightarrow> None
   | Some b \<Rightarrow> if ct_expires_at b \<le> now \<or> ct_expires_at b > now + MAX_CONTROL_TTL then None else Some b)"

datatype control_status = Delivered | Expired | Invalid

definition judgeControl :: "jsv \<Rightarrow> int \<Rightarrow> control_status \<times> control option" where
  "judgeControl raw now = (case parseControlBody raw of
     None \<Rightarrow> (Invalid, None)
   | Some b \<Rightarrow>
       if ct_expires_at b > now + MAX_CONTROL_TTL + CONTROL_CLOCK_SKEW then (Invalid, None)
       else (if ct_expires_at b \<le> now then Expired else Delivered, Some b))"

definition controlDisposition :: "jsv \<Rightarrow> int \<Rightarrow> control_status" where
  "controlDisposition body now = fst (judgeControl body now)"

text \<open>What the archive keeps.\<close>

definition controlArchiveBody :: "control option \<Rightarrow> jsv" where
  "controlArchiveBody b = (case b of None \<Rightarrow> JNull
   | Some c \<Rightarrow> JObj [(''kind'', ct_kind c), (''scope'', JObj [(''type'', ct_type c), (''id'', ct_id c)]),
       (''epoch'', JNum (ct_epoch c)), (''expires_at'', JNum (ct_expires_at c))])"

section \<open>Payloads\<close>

definition sealPayload :: "jsv \<Rightarrow> jsv \<Rightarrow> jsv \<Rightarrow> string option" where
  "sealPayload m target body =
     (let plaintext = canonicalJSON (JObj [(''context'', payloadContext m target), (''body'', body)]) in
      if body = JUndef \<or> length (utf8 plaintext) > 65536 then None else Some plaintext)"

text \<open>The tokens of \<^verbatim>\<open>checkPayloadFields\<close>: a string, a punctuation character, or a run of other
  characters that are not white space. A string that does not end in the text is no token of the
  first kind; in it, a backslash takes the next character unless that ends the line.\<close>

fun string_token :: "string \<Rightarrow> string option" where
  "string_token [] = None"
| "string_token [c] = (if c = quote_char then Some [] else None)"
| "string_token (c # d # cs) =
     (if c = backslash then (if d = CHR 0x0A \<or> d = CHR 0x0D then None else string_token cs)
      else if c = quote_char then Some (d # cs) else string_token (d # cs))"

definition punctuation :: "char \<Rightarrow> bool" where
  "punctuation c \<longleftrightarrow> c \<in> set ''{}[],:''"

lemma string_token_shorter: "string_token s = Some r \<Longrightarrow> length r < length s"
  by (induction s rule: string_token.induct) (auto split: if_splits)

function tokens :: "string \<Rightarrow> string list" where
  "tokens [] = []"
| "tokens (c # cs) =
     (case (if c = quote_char then string_token cs else None) of
        Some r \<Rightarrow> between (c # cs) r # tokens r
      | None \<Rightarrow>
          if punctuation c then [c] # tokens cs
          else if regex_space c then tokens cs
          else (c # takeWhile (\<lambda>d. \<not> punctuation d \<and> \<not> regex_space d) cs)
             # tokens (dropWhile (\<lambda>d. \<not> punctuation d \<and> \<not> regex_space d) cs))"
  by pat_completeness auto
termination
  by (relation "measure length")
    (auto dest!: string_token_shorter split: if_splits simp: le_imp_less_Suc length_dropWhile_le)

text \<open>The walk over the tokens. Reading past the end gives \<^verbatim>\<open>undefined\<close>, which is no token; only the
  loop that skips an opaque value would then go on for ever.\<close>

datatype walked = Rest "string list" | Refused | Endless

fun skip_value :: "nat \<Rightarrow> string list \<Rightarrow> walked" where
  "skip_value depth [] = (if depth = 0 then Rest [] else Endless)"
| "skip_value 0 ts = Rest ts"
| "skip_value (Suc d) (t # ts) = skip_value (if t = ''{'' \<or> t = ''['' then Suc (Suc d) else if t = ''}'' \<or> t = '']'' then d else Suc d) ts"

fun walk :: "nat \<Rightarrow> bool \<Rightarrow> bool \<Rightarrow> string list \<Rightarrow> walked" and
    walk_members :: "nat \<Rightarrow> bool \<Rightarrow> jsv list \<Rightarrow> string list \<Rightarrow> walked" and
    walk_elems :: "nat \<Rightarrow> string list \<Rightarrow> walked" where
  "walk 0 strict outer ts = Endless"
| "walk (Suc n) strict outer ts =
     (case ts of
        [] \<Rightarrow> Rest []
      | t # us \<Rightarrow>
          if \<not> strict then (if t = ''{'' \<or> t = ''['' then skip_value 1 us else Rest us)
          else if t = ''{'' then walk_members n outer [] us
          else if t = ''['' then walk_elems n us
          else Rest us)"
| "walk_members 0 outer seen ts = Endless"
| "walk_members (Suc n) outer seen ts =
     (case ts of
        [] \<Rightarrow> Refused
      | t # us \<Rightarrow>
          if t = ''}'' then Rest us
          else (case json_parse t of
                  None \<Rightarrow> Refused
                | Some key \<Rightarrow>
                    if key \<in> set seen \<or> (outer \<and> key \<noteq> JStr ''context'' \<and> key \<noteq> JStr ''body'') then Refused
                    else (case walk n (if outer then key = JStr ''context'' else True) False (tl us) of
                            Rest r \<Rightarrow> if r \<noteq> [] \<and> hd r = '','' then walk_members n outer (key # seen) (tl r) else Rest (tl r)
                          | w \<Rightarrow> w)))"
| "walk_elems 0 ts = Endless"
| "walk_elems (Suc n) ts =
     (if ts \<noteq> [] \<and> hd ts = '']'' then Rest (tl ts)
      else (case walk n True False ts of
              Rest r \<Rightarrow> if r \<noteq> [] \<and> hd r = '','' then walk_elems n (tl r) else Rest (tl r)
            | w \<Rightarrow> w))"

definition checkPayloadFields :: "string \<Rightarrow> walked" where
  "checkPayloadFields plaintext = (let ts = tokens plaintext in walk (2 * length ts + 2) True True ts)"

datatype opened = Opened jsv "string option" | Refused_payload | Endless_check

definition openPayloadRaw :: "jsv \<Rightarrow> jsv \<Rightarrow> jsv \<Rightarrow> opened" where
  "openPayloadRaw m target plaintext =
     (case plaintext of
        JStr t \<Rightarrow>
          if length (utf8 t) > 65536 then Refused_payload
          else (case json_parse t of
                  None \<Rightarrow> Refused_payload
                | Some p \<Rightarrow>
                    (case checkPayloadFields t of
                       Endless \<Rightarrow> Endless_check
                     | Refused \<Rightarrow> Refused_payload
                     | Rest _ \<Rightarrow>
                         if \<not> equalJSON (field p ''context'') (payloadContext m target) \<or> field p ''body'' = JUndef then Refused_payload
                         else (case rawMembers t of
                                 None \<Rightarrow> Refused_payload
                               | Some ms \<Rightarrow> Opened (field p ''body'') (map_of ms ''body''))))
      | _ \<Rightarrow> Refused_payload)"

definition openPayload :: "jsv \<Rightarrow> jsv \<Rightarrow> jsv \<Rightarrow> jsv option" where
  "openPayload m target plaintext = (case openPayloadRaw m target plaintext of Opened body _ \<Rightarrow> Some body | _ \<Rightarrow> None)"

section \<open>Fuel\<close>

lemma scan_fuel:
  "(\<forall>s m. 2 * length s + 1 \<le> n \<longrightarrow> 2 * length s + 1 \<le> m \<longrightarrow> scan_value n s = scan_value m s)
   \<and> (\<forall>c s m. 2 * length s + 2 \<le> n \<longrightarrow> 2 * length s + 2 \<le> m \<longrightarrow> scan_items n c s = scan_items m c s)"
proof (induction n)
  case (Suc n)
  note IH = Suc.IH [THEN conjunct1, rule_format] Suc.IH [THEN conjunct2, rule_format]
  show ?case
  proof (intro conjI allI impI)
    fix s :: string and m assume n: "2 * length s + 1 \<le> Suc n" "2 * length s + 1 \<le> m"
    then obtain k where m: "m = Suc k" by (cases m) auto
    show "scan_value (Suc n) s = scan_value m s"
    proof (cases "skipWS s")
      case (Cons c cs)
      have "scan_items n c (skipWS cs) = scan_items k c (skipWS cs)"
        by (intro IH; use n skipWS_split [OF Cons] skipWS_length [of cs] in \<open>simp add: m\<close>)
      then show ?thesis unfolding m scan_value.simps Let_def Cons by (simp only: list.case)
    qed (simp add: m)
  next
    fix c :: char and s :: string and m assume n: "2 * length s + 2 \<le> Suc n" "2 * length s + 2 \<le> m"
    then obtain k where m: "m = Suc k" by (cases m) auto
    have v: "scan_value n t = scan_value k t" if "item_start c s = Some t" for t
      by (intro IH; use n item_start_shorter [OF that] in \<open>simp add: m\<close>)
    have e: "scan_items n c ds = scan_items k c ds" if "item_start c s = Some t" "scan_value k t = Some r" "skipWS r = d # ds" for t r d ds
      by (intro IH; use n item_start_shorter [OF that(1)] scan_shorter [THEN conjunct1, rule_format, OF that(2)] skipWS_split [OF that(3)] in \<open>simp add: m\<close>)
    show "scan_items (Suc n) c s = scan_items m c s"
      unfolding m using v e by (simp split: option.splits list.splits)
  qed
qed simp

lemma skip_value_shorter: "skip_value d ts = Rest r \<Longrightarrow> length r \<le> length ts"
  by (induction d ts rule: skip_value.induct) (auto split: if_splits)

lemma walk_shorter:
  "(\<forall>st out ts r. walk n st out ts = Rest r \<longrightarrow> length r \<le> length ts - 1)
   \<and> (\<forall>out seen ts r. walk_members n out seen ts = Rest r \<longrightarrow> length r \<le> length ts - 1)
   \<and> (\<forall>ts r. walk_elems n ts = Rest r \<longrightarrow> length r \<le> length ts - 1)"
proof (induction n)
  case (Suc n)
  note IH = Suc.IH [THEN conjunct1, rule_format] Suc.IH [THEN conjunct2, THEN conjunct1, rule_format]
    Suc.IH [THEN conjunct2, THEN conjunct2, rule_format]
  show ?case
  proof (intro conjI allI impI)
    fix st out ts r assume a: "walk (Suc n) st out ts = Rest r"
    then show "length r \<le> length ts - 1"
    proof (cases ts)
      case (Cons t us)
      then have "skip_value 1 us = Rest r \<or> walk_members n out [] us = Rest r \<or> walk_elems n us = Rest r \<or> r = us"
        using a by (simp split: if_splits)
      then show ?thesis using skip_value_shorter [of 1 us r] IH(2) [of out "[]" us r] IH(3) [of us r] Cons by auto
    qed simp
  next
    fix out seen ts r assume a: "walk_members (Suc n) out seen ts = Rest r"
    then obtain t us where ts: "ts = t # us" by (cases ts) auto
    from a have "r = us \<or> (\<exists>st u key. walk n st False (tl us) = Rest u \<and> (walk_members n out (key # seen) (tl u) = Rest r \<or> r = tl u))"
      unfolding ts walk_members.simps list.case by (auto split: if_splits option.splits walked.splits)
    then show "length r \<le> length ts - 1"
      using IH(1) [of _ False "tl us"] IH(2) [of out _ _ r] by (fastforce simp: ts)
  next
    fix ts r assume "walk_elems (Suc n) ts = Rest r"
    then have "r = tl ts \<or> (\<exists>u. walk n True False ts = Rest u \<and> (walk_elems n (tl u) = Rest r \<or> r = tl u))"
      by (auto split: if_splits walked.splits)
    then show "length r \<le> length ts - 1"
      using IH(1) [of True False ts] IH(3) [of _ r] by fastforce
  qed
qed simp

lemma walk_fuel:
  "(\<forall>st out ts m. 2 * length ts + 1 \<le> n \<longrightarrow> 2 * length ts + 1 \<le> m \<longrightarrow> walk n st out ts = walk m st out ts)
   \<and> (\<forall>out seen ts m. 2 * length ts + 2 \<le> n \<longrightarrow> 2 * length ts + 2 \<le> m \<longrightarrow> walk_members n out seen ts = walk_members m out seen ts)
   \<and> (\<forall>ts m. 2 * length ts + 2 \<le> n \<longrightarrow> 2 * length ts + 2 \<le> m \<longrightarrow> walk_elems n ts = walk_elems m ts)"
proof (induction n)
  case (Suc n)
  note IH = Suc.IH [THEN conjunct1, rule_format] Suc.IH [THEN conjunct2, THEN conjunct1, rule_format]
    Suc.IH [THEN conjunct2, THEN conjunct2, rule_format]
  show ?case
  proof (intro conjI allI impI)
    fix st out and ts :: "string list" and m assume n: "2 * length ts + 1 \<le> Suc n" "2 * length ts + 1 \<le> m"
    then obtain k where m: "m = Suc k" by (cases m) auto
    show "walk (Suc n) st out ts = walk m st out ts"
    proof (cases ts)
      case (Cons t us)
      have "walk_members n out [] us = walk_members k out [] us" "walk_elems n us = walk_elems k us"
        by (intro IH; use n in \<open>simp add: m Cons\<close>)+
      then show ?thesis unfolding m Cons walk.simps by (simp only: list.case)
    qed (simp add: m)
  next
    fix out seen and ts :: "string list" and m assume n: "2 * length ts + 2 \<le> Suc n" "2 * length ts + 2 \<le> m"
    then obtain k where m: "m = Suc k" by (cases m) auto
    show "walk_members (Suc n) out seen ts = walk_members m out seen ts"
    proof (cases ts)
      case (Cons t us)
      have w: "walk n st False (tl us) = walk k st False (tl us)" for st by (intro IH; use n in \<open>simp add: m Cons\<close>)
      have e: "walk_members n out sn (tl r) = walk_members k out sn (tl r)" if "walk k st False (tl us) = Rest r" for st r sn
        by (intro IH; use n walk_shorter [THEN conjunct1, rule_format, OF that] in \<open>simp add: m Cons\<close>)
      have "(case walk k st False (tl us) of Rest r \<Rightarrow> if r \<noteq> [] \<and> hd r = '','' then walk_members n out sn (tl r) else Rest (tl r) | w \<Rightarrow> w)
          = (case walk k st False (tl us) of Rest r \<Rightarrow> if r \<noteq> [] \<and> hd r = '','' then walk_members k out sn (tl r) else Rest (tl r) | w \<Rightarrow> w)" for st sn
        using e [of st _ sn] by (simp split: walked.split)
      then show ?thesis unfolding m Cons walk_members.simps list.case w by (simp only:)
    qed (simp add: m)
  next
    fix ts :: "string list" and m assume n: "2 * length ts + 2 \<le> Suc n" "2 * length ts + 2 \<le> m"
    then obtain k where m: "m = Suc k" by (cases m) auto
    have w: "walk n True False ts = walk k True False ts" by (intro IH; use n in \<open>simp add: m\<close>)
    have e: "walk_elems n (tl r) = walk_elems k (tl r)" if "walk k True False ts = Rest r" "r \<noteq> []" for r
      by (intro IH; use n that(2) walk_shorter [THEN conjunct1, rule_format, OF that(1)] in \<open>cases r; simp add: m\<close>)
    show "walk_elems (Suc n) ts = walk_elems m ts"
      unfolding m walk_elems.simps w using e by (simp split: walked.split)
  qed
qed simp

section \<open>The scanners on canonical text\<close>

lemma scan_chars_plain: "c \<noteq> quote_char \<Longrightarrow> c \<noteq> backslash \<Longrightarrow> scan_chars (c # s) = scan_chars s"
  by (cases s) simp_all

lemma string_token_plain: "c \<noteq> quote_char \<Longrightarrow> c \<noteq> backslash \<Longrightarrow> string_token (c # s) = string_token s"
  by (cases s) simp_all

lemma hex4_plain: "c \<in> set (hex4 n) \<Longrightarrow> c \<noteq> quote_char \<and> c \<noteq> backslash"
proof -
  assume "c \<in> set (hex4 n)"
  moreover have "set (hex4 n) \<subseteq> set ''0123456789abcdef''"
    using unat_byte_lt [of "byte_of n"] nth_mem [of "unat (byte_of n) div 16" "''0123456789abcdef''"]
      nth_mem [of "unat (byte_of n) mod 16" "''0123456789abcdef''"]
    unfolding hex4_def hex_byte_def by auto
  ultimately have "c \<in> set ''0123456789abcdef''" by blast
  then show ?thesis by (auto simp: quote_char_def backslash_def)
qed

text \<open>The shapes of an encoded character: itself, or a backslash, a character and plain ones.\<close>

lemma json_char_shape:
  "(json_char esc c = [c] \<and> c \<noteq> quote_char \<and> c \<noteq> backslash)
   \<or> (\<exists>d u. json_char esc c = backslash # d # u \<and> d \<noteq> CHR 0x0A \<and> d \<noteq> CHR 0x0D \<and> (\<forall>x \<in> set u. x \<noteq> quote_char \<and> x \<noteq> backslash))"
  using hex4_plain [of _ "of_char c"]
  by (auto simp: json_char_def quote_char_def backslash_def)

lemma scan_chars_json: "scan_chars (concat (map (json_char esc) t) @ quote_char # rest) = Some rest"
proof (induction t)
  case (Cons c t)
  have plain: "scan_chars (u @ s) = scan_chars s" if "\<forall>x \<in> set u. x \<noteq> quote_char \<and> x \<noteq> backslash" for u s
    using that by (induction u) (auto simp: scan_chars_plain)
  show ?case using json_char_shape [of esc c] Cons plain by (auto simp: scan_chars_plain)
qed (cases rest; simp add: quote_char_def backslash_def)

lemma string_token_json: "string_token (concat (map (json_char esc) t) @ quote_char # rest) = Some rest"
proof (induction t)
  case (Cons c t)
  have plain: "string_token (u @ s) = string_token s" if "\<forall>x \<in> set u. x \<noteq> quote_char \<and> x \<noteq> backslash" for u s
    using that by (induction u) (auto simp: string_token_plain)
  show ?case using json_char_shape [of esc c] Cons plain by (auto simp: string_token_plain)
qed (cases rest; simp add: quote_char_def backslash_def)

lemma scanString_json [simp]: "scanString (json_string esc k @ rest) = Some rest"
  by (simp add: scanString_def json_string_def scan_chars_json)

lemma between_append [simp]: "between (t @ r) r = t"
  by (simp add: between_def)

lemma skipWS_text: "s \<noteq> [] \<Longrightarrow> \<not> json_ws (hd s) \<Longrightarrow> skipWS (s @ r) = s @ r"
  by (cases s) (simp_all add: skipWS_def)

lemma skipWS_json [simp]: "skipWS (json_text esc v @ r) = json_text esc v @ r" "skipWS (json_string esc k @ r) = json_string esc k @ r"
  using json_head [of esc v] by (auto simp: skipWS_text) (simp add: skipWS_def json_string_def quote_char_def json_ws_def)

lemma skipWS_simps [simp]:
  "skipWS [] = []"
  "skipWS (CHR '','' # r) = CHR '','' # r" "skipWS (CHR '']'' # r) = CHR '']'' # r"
  "skipWS (CHR ''}'' # r) = CHR ''}'' # r" "skipWS (CHR '':'' # r) = CHR '':'' # r" "skipWS (CHR ''{'' # r) = CHR ''{'' # r"
  by (simp_all add: skipWS_def json_ws_def)

text \<open>Where a word ends.\<close>

definition word_end :: "string \<Rightarrow> bool" where
  "word_end r \<longleftrightarrow> r = [] \<or> \<not> in_word (hd r)"

lemma word_end_simps [simp]: "word_end []" "word_end (CHR '','' # r)" "word_end (CHR '']'' # r)" "word_end (CHR ''}'' # r)"
  by (simp_all add: word_end_def in_word_def)

lemma digits_in_word: "digit_char c \<Longrightarrow> in_word c" "in_word (CHR ''-'')"
  using digit_not_ws by (auto simp: in_word_def digit_char_def less_eq_char_def)

lemma dropWhile_word: "list_all in_word w \<Longrightarrow> word_end r \<Longrightarrow> dropWhile in_word (w @ r) = r"
  by (cases r) (auto simp: word_end_def dropWhile_append1 dropWhile_append2 list_all_iff)

lemma scan_word:
  assumes "w \<noteq> []" "list_all in_word w" "hd w \<noteq> quote_char" "hd w \<noteq> CHR ''{''" "hd w \<noteq> CHR ''[''" "word_end r"
  shows "scan_value (Suc n) (w @ r) = Some r"
proof -
  obtain c cs where w: "w = c # cs" using assms(1) by (cases w) auto
  have "\<not> json_ws c" using assms(2) by (simp add: w in_word_def)
  then have "skipWS (w @ r) = c # cs @ r" by (simp add: w skipWS_def)
  then show ?thesis using assms dropWhile_word [of cs r] by (simp add: w)
qed

lemma int_word: "list_all in_word (string_of_int i) \<and> hd (string_of_int i) \<noteq> quote_char \<and> hd (string_of_int i) \<noteq> CHR ''{''
    \<and> hd (string_of_int i) \<noteq> CHR ''[''"
proof -
  have "list_all in_word (string_of_int i)"
    using string_of_nat_digits digits_in_word by (auto simp: string_of_int_def list_all_iff)
  then show ?thesis using string_of_int_head [of i] by (auto simp: quote_char_def digit_char_def less_eq_char_def)
qed

lemma scan_json:
  "json_ok v \<Longrightarrow> word_end rest \<Longrightarrow> jfuel v \<le> n \<Longrightarrow> scan_value n (json_text esc v @ rest) = Some rest"
  "list_all json_ok vs \<Longrightarrow> vs \<noteq> [] \<Longrightarrow> efuel vs \<le> n
    \<Longrightarrow> scan_items n (CHR ''['') (join '','' (elem_texts esc vs) @ '']'' @ rest) = Some rest"
  "list_all (\<lambda>(k, v). json_ok v) fs \<Longrightarrow> fs \<noteq> [] \<Longrightarrow> mfuel fs \<le> n
    \<Longrightarrow> scan_items n (CHR ''{'') (join '','' (member_texts esc fs) @ ''}'' @ rest) = Some rest"
proof (induction esc v and esc vs and esc fs arbitrary: n rest and n rest and n rest rule: json_text_elem_texts_member_texts.induct)
  case (2 esc)
  then show ?case using scan_word [of "''null''" rest] by (cases n) (simp_all add: in_word_def json_ws_def quote_char_def)
next
  case (3 esc b)
  then show ?case using scan_word [of "''true''" rest] scan_word [of "''false''" rest]
    by (cases n; cases b) (simp_all add: in_word_def json_ws_def quote_char_def)
next
  case (4 esc i)
  then show ?case using scan_word [of "string_of_int i" rest] int_word [of i] string_of_int_head [of i] by (cases n) simp_all
next
  case (5 esc)
  then show ?case using scan_word [of "''0.5''" rest] by (cases n) (simp_all add: in_word_def json_ws_def quote_char_def)
next
  case (6 esc t)
  then show ?case
    by (cases n) (simp_all add: json_string_def skipWS_def json_ws_def quote_char_def scan_chars_json [unfolded quote_char_def])
next
  case (8 esc vs)
  then obtain m where m: "n = Suc m" "efuel vs \<le> m" by (cases n) auto
  have sk: "skipWS (CHR ''['' # t) = CHR ''['' # t" for t by (simp add: skipWS_def json_ws_def)
  show ?case
  proof (cases vs)
    case (Cons v ws)
    have h: "join '','' (elem_texts esc vs) \<noteq> []" "\<not> json_ws (hd (join '','' (elem_texts esc vs)))" "hd (join '','' (elem_texts esc vs)) \<noteq> CHR '']''"
      using json_join_head [of esc v ws] json_head [of esc v] json_not_close [of esc v] unfolding Cons by simp_all
    show ?thesis using 8 m h skipWS_text [OF h(1,2), of "'']'' @ rest"] Cons
      by (auto simp: quote_char_def hd_append closer_def sk)
  qed (simp_all add: m quote_char_def closer_def sk)
next
  case (9 esc fs)
  then obtain m where m: "n = Suc m" "mfuel fs \<le> m" by (cases n) auto
  show ?case
  proof (cases fs)
    case (Cons f gs)
    obtain k v where f: "f = (k, v)" by (cases f)
    have h: "join '','' (member_texts esc fs) \<noteq> []" "\<not> json_ws (hd (join '','' (member_texts esc fs)))" "hd (join '','' (member_texts esc fs)) \<noteq> CHR ''}''"
      using 9(2) by (auto simp: Cons f join_Cons hd_append json_string_def quote_char_def json_ws_def)
    show ?thesis using 9 m h skipWS_text [OF h(1,2), of "''}'' @ rest"] Cons
      by (auto simp: quote_char_def hd_append closer_def)
  qed (simp_all add: m quote_char_def closer_def)
next
  case (11 esc v vs)
  then obtain m where m: "n = Suc m" "jfuel v \<le> m" "efuel vs \<le> m" by (cases n) auto
  have v: "scan_value m (json_text esc v @ r) = Some r" if "word_end r" for r using 11 m that by simp
  show ?case
  proof (cases vs)
    case Nil
    then show ?thesis using v [of "CHR '']'' # rest"] by (simp add: m item_start_def closer_def)
  next
    case (Cons w ws)
    then show ?thesis
      using v [of "CHR '','' # join '','' (elem_texts esc vs) @ '']'' @ rest"] "11.IH"(2) [OF _ _ m(3), of rest] "11.prems"(1)
      by (simp add: m join_Cons item_start_def closer_def)
  qed
next
  case (13 esc k v fs)
  then obtain m where m: "n = Suc m" "jfuel v \<le> m" "mfuel fs \<le> m" by (cases n) auto
  have ok: "json_ok v" "v \<noteq> JUndef" using "13.prems"(1) by auto
  have v: "scan_value m (json_text esc v @ r) = Some r" if "word_end r" for r
    using "13.IH"(2) [OF ok(2,1) that m(2)] .
  show ?case
  proof (cases fs)
    case Nil
    then show ?thesis using v [of "CHR ''}'' # rest"] ok by (simp add: m item_start_def after_colon_def closer_def)
  next
    case (Cons f gs)
    then have ne: "member_texts esc fs \<noteq> []" using "13.prems"(1) by (cases f) auto
    have "scan_items m (CHR ''{'') (join '','' (member_texts esc fs) @ ''}'' @ rest) = Some rest"
      by (rule "13.IH"(3)) (use "13.prems" Cons ok m in auto)
    then show ?thesis
      using v [of "CHR '','' # join '','' (member_texts esc fs) @ ''}'' @ rest"] ok ne
      by (simp add: m join_Cons item_start_def after_colon_def closer_def)
  qed
qed simp_all

lemma scanValue_json:
  assumes "json_ok v" "word_end rest"
  shows "scanValue (json_text esc v @ rest) = Some rest"
  unfolding scanValue_def by (rule scan_json(1) [OF assms]) (use jfuel_bound(1) [OF assms(1), of esc] in simp)

lemma string_key_json [simp]: "string_key (json_string esc k) = Some k"
  using json_parse_text [of "JStr k" esc] by (simp add: string_key_def)

lemma raw_members_json:
  assumes "list_all (\<lambda>(k, v). json_ok v) fs" "fs \<noteq> []"
  shows "raw_members (join '','' (member_texts esc fs) @ ''}'' @ rest) = Some (map (\<lambda>(k, v). (k, json_text esc v)) fs, rest)"
  using assms
proof (induction fs)
  case (Cons f fs)
  obtain k v where f: "f = (k, v)" by (cases f)
  have ok: "json_ok v" "v \<noteq> JUndef" using Cons.prems(1) by (auto simp: f)
  show ?case
  proof (cases "fs = []")
    case True
    then show ?thesis using scanValue_json [OF ok(1), of "CHR ''}'' # rest" esc] ok(2)
      by (simp add: f raw_members.simps [of "json_string esc k @ _"] after_colon_def)
  next
    case False
    then have ne: "member_texts esc fs \<noteq> []" using Cons.prems(1) by (cases fs) (auto split: if_splits)
    let ?u = "CHR '','' # join '','' (member_texts esc fs) @ ''}'' @ rest"
    have "between (json_text esc v @ ?u) ?u = json_text esc v" by (rule between_append)
    then show ?thesis using scanValue_json [OF ok(1), of ?u esc] ok(2) False ne Cons.IH Cons.prems(1)
      by (simp add: f raw_members.simps [of "json_string esc k @ _"] after_colon_def join_Cons)
  qed
qed simp

lemma rawMembers_json:
  assumes "json_ok (JObj fs)"
  shows "rawMembers (json_text esc (JObj fs)) = Some (map (\<lambda>(k, v). (k, json_text esc v)) fs)"
proof (cases "fs = []")
  case False
  then obtain k v gs where fs: "fs = (k, v) # gs" by (cases fs) auto
  have "v \<noteq> JUndef" using assms by (auto simp: fs)
  then obtain t where t: "join '','' (member_texts esc fs) @ ''}'' = json_string esc k @ t" by (auto simp: fs join_Cons)
  have "hd (json_string esc k @ t) \<noteq> CHR ''}''" by (simp add: json_string_def quote_char_def)
  moreover have "raw_members (json_string esc k @ t) = Some (map (\<lambda>(k, v). (k, json_text esc v)) fs, [])"
    using raw_members_json [of fs esc "[]"] assms False by (simp add: t [symmetric])
  ultimately show ?thesis by (simp add: rawMembers_def t)
qed (simp add: rawMembers_def)

section \<open>Tokens of canonical text\<close>

definition sep_tokens :: "string list list \<Rightarrow> string list" where
  "sep_tokens tss = (case tss of [] \<Rightarrow> [] | ts # uss \<Rightarrow> ts @ concat (map (\<lambda>us. '','' # us) uss))"

fun toks :: "bool \<Rightarrow> jsv \<Rightarrow> string list" where
  "toks esc (JArr vs) = [''[''] @ sep_tokens (map (toks esc) vs) @ ['']'']"
| "toks esc (JObj fs) = [''{''] @ sep_tokens (map (\<lambda>(k, v). [json_string esc k, '':''] @ toks esc v) fs) @ [''}'']"
| "toks esc v = [json_text esc v]"

lemma sep_tokens_Cons: "sep_tokens (ts # uss) = ts @ (if uss = [] then [] else '','' # sep_tokens uss)"
  by (cases uss) (simp_all add: sep_tokens_def)

lemma sep_tokens_Nil [simp]: "sep_tokens [] = []"
  by (simp add: sep_tokens_def)

declare tokens.simps [simp del]

lemma tokens_Nil [simp]: "tokens [] = []"
  by (simp add: tokens.simps)

lemma tokens_punct: "punctuation c \<Longrightarrow> tokens (c # cs) = [c] # tokens cs"
  by (auto simp: tokens.simps punctuation_def quote_char_def)

lemmas tokens_punct_simps [simp] = tokens_punct [of "CHR ''{''"] tokens_punct [of "CHR ''}''"] tokens_punct [of "CHR ''[''"]
  tokens_punct [of "CHR '']''"] tokens_punct [of "CHR '',''"] tokens_punct [of "CHR '':''"]

lemma punctuation_simps [simp]:
  "punctuation (CHR ''{'')" "punctuation (CHR ''}'')" "punctuation (CHR ''['')" "punctuation (CHR '']'')" "punctuation (CHR '','')" "punctuation (CHR '':'')"
  by (simp_all add: punctuation_def)

lemma tokens_string [simp]: "tokens (json_string esc t @ rest) = json_string esc t # tokens rest"
proof -
  have "between (json_string esc t @ rest) rest = json_string esc t" by simp
  then show ?thesis by (simp add: json_string_def tokens.simps string_token_json)
qed

definition plain_char :: "char \<Rightarrow> bool" where
  "plain_char c \<longleftrightarrow> \<not> punctuation c \<and> \<not> regex_space c \<and> c \<noteq> quote_char"

definition token_end :: "string \<Rightarrow> bool" where
  "token_end r \<longleftrightarrow> r = [] \<or> punctuation (hd r)"

lemma tokens_word:
  assumes "w \<noteq> []" "list_all plain_char w" "token_end r"
  shows "tokens (w @ r) = w # tokens r"
proof -
  obtain c cs where w: "w = c # cs" using assms(1) by (cases w) auto
  let ?P = "\<lambda>d. \<not> punctuation d \<and> \<not> regex_space d"
  have "takeWhile ?P (cs @ r) = cs \<and> dropWhile ?P (cs @ r) = r"
    using assms(2, 3) by (cases r) (auto simp: w list_all_iff plain_char_def token_end_def takeWhile_tail)
  then show ?thesis using assms(2) by (simp add: w tokens.simps plain_char_def)
qed

lemma int_plain: "list_all plain_char (string_of_int i)"
proof -
  have "digit_char c \<Longrightarrow> plain_char c" "plain_char (CHR ''-'')" for c
    by (auto simp: plain_char_def digit_char_def punctuation_def regex_space_def js_space_def quote_char_def less_eq_char_def)
  then show ?thesis using string_of_nat_digits by (auto simp: string_of_int_def list_all_iff)
qed

lemma tokens_json:
  "json_ok v \<Longrightarrow> token_end rest \<Longrightarrow> tokens (json_text esc v @ rest) = toks esc v @ tokens rest"
  "list_all json_ok vs \<Longrightarrow> tokens (join '','' (elem_texts esc vs) @ '']'' @ rest) = sep_tokens (map (toks esc) vs) @ '']'' # tokens rest"
  "list_all (\<lambda>(k, v). json_ok v) fs \<Longrightarrow> tokens (join '','' (member_texts esc fs) @ ''}'' @ rest)
    = sep_tokens (map (\<lambda>(k, v). [json_string esc k, '':''] @ toks esc v) fs) @ ''}'' # tokens rest"
proof (induction esc v and esc vs and esc fs arbitrary: rest and rest and rest rule: json_text_elem_texts_member_texts.induct)
  case (2 esc)
  then show ?case using tokens_word [of "''null''" rest]
    by (simp add: plain_char_def punctuation_def regex_space_def js_space_def quote_char_def)
next
  case (3 esc b)
  then show ?case using tokens_word [of "''true''" rest] tokens_word [of "''false''" rest]
    by (simp add: plain_char_def punctuation_def regex_space_def js_space_def quote_char_def)
next
  case (4 esc i)
  then show ?case using tokens_word [of "string_of_int i" rest] int_plain [of i] string_of_int_head [of i] by simp
next
  case (5 esc)
  then show ?case using tokens_word [of "''0.5''" rest]
    by (simp add: plain_char_def punctuation_def regex_space_def js_space_def quote_char_def)
next
  case (11 esc v vs)
  have v: "tokens (json_text esc v @ r) = toks esc v @ tokens r" if "token_end r" for r using 11 that by simp
  show ?case using v [of "CHR '']'' # rest"] v [of "CHR '','' # join '','' (elem_texts esc vs) @ '']'' @ rest"] "11.IH"(2) [of rest] "11.prems"
    by (cases vs) (simp_all add: join_Cons sep_tokens_Cons token_end_def)
next
  case (13 esc k v fs)
  have ok: "json_ok v" "v \<noteq> JUndef" using "13.prems"(1) by auto
  have v: "tokens (json_text esc v @ r) = toks esc v @ tokens r" if "token_end r" for r
    using "13.IH"(2) [OF ok(2,1) that] .
  show ?case
  proof (cases fs)
    case Nil
    then show ?thesis using v [of "CHR ''}'' # rest"] ok by (simp add: sep_tokens_Cons token_end_def)
  next
    case (Cons f gs)
    then have ne: "member_texts esc fs \<noteq> []" "fs \<noteq> []" using "13.prems"(1) by (cases f; auto)+
    then show ?thesis
      using v [of "CHR '','' # join '','' (member_texts esc fs) @ ''}'' @ rest"] ok "13.IH"(3) [of rest] "13.prems"
      by (simp add: join_Cons sep_tokens_Cons token_end_def)
  qed
qed simp_all

section \<open>The walk over canonical text\<close>

definition bracket :: "string \<Rightarrow> bool" where
  "bracket t \<longleftrightarrow> t \<in> {''{'', ''}'', ''['', '']''}"

lemma json_string_no_bracket [simp]: "json_string esc k \<noteq> ''{''" "json_string esc k \<noteq> ''}''" "json_string esc k \<noteq> ''[''" "json_string esc k \<noteq> '']''"
  by (simp_all add: json_string_def quote_char_def)

lemma string_of_int_no_bracket [simp]:
  "string_of_int i \<noteq> ''{''" "string_of_int i \<noteq> ''}''" "string_of_int i \<noteq> ''[''" "string_of_int i \<noteq> '']''"
  using string_of_int_head [of i] by (auto simp: digit_char_def less_eq_char_def)

lemma skip_step: "\<not> bracket t \<Longrightarrow> skip_value (Suc d) (t # ts) = skip_value (Suc d) ts"
  by (auto simp: bracket_def)

lemma skip_sep:
  assumes "\<And>ts d r. ts \<in> set tss \<Longrightarrow> skip_value (Suc d) (ts @ r) = skip_value (Suc d) r"
  shows "skip_value (Suc d) (sep_tokens tss @ r) = skip_value (Suc d) r"
proof (cases tss)
  case (Cons ts uss)
  have "skip_value (Suc d) (concat (map (\<lambda>us. '','' # us) uss) @ r) = skip_value (Suc d) r"
    using assms unfolding Cons by (induction uss) (auto simp: skip_step bracket_def)
  then show ?thesis using assms by (simp add: sep_tokens_def Cons)
qed simp

lemma skip_done [simp]: "skip_value 0 ts = Rest ts"
  by (cases ts) simp_all

definition member_toks :: "bool \<Rightarrow> string \<times> jsv \<Rightarrow> string list" where
  "member_toks esc f = [json_string esc (fst f), '':''] @ toks esc (snd f)"

lemma member_toks_pair: "member_toks esc (k, v) = json_string esc k # '':'' # toks esc v"
  by (simp add: member_toks_def)

lemma toks_object: "toks esc (JObj fs) = [''{''] @ sep_tokens (map (member_toks esc) fs) @ [''}'']"
proof -
  have "(\<lambda>(k, v). [json_string esc k, '':''] @ toks esc v) = member_toks esc" by (auto simp: fun_eq_iff member_toks_def)
  then show ?thesis by simp
qed

lemma skip_member:
  "(\<And>d r. skip_value (Suc d) (toks esc v @ r) = skip_value (Suc d) r)
    \<Longrightarrow> skip_value (Suc d) (member_toks esc (k, v) @ r) = skip_value (Suc d) r"
  by (simp add: skip_step bracket_def member_toks_def)

lemma skip_toks: "skip_value (Suc d) (toks esc v @ r) = skip_value (Suc d) r"
proof (induction esc v arbitrary: d r rule: toks.induct)
  case (1 esc vs)
  have "skip_value (Suc (Suc d)) (sep_tokens (map (toks esc) vs) @ '']'' # r) = skip_value (Suc (Suc d)) ('']'' # r)"
    by (rule skip_sep) (use 1 in auto)
  then show ?case by simp
next
  case (2 esc fs)
  have "skip_value (Suc (Suc d)) (sep_tokens (map (member_toks esc) fs) @ ''}'' # r) = skip_value (Suc (Suc d)) (''}'' # r)"
    by (rule skip_sep) (use 2 skip_member in auto)
  then show ?case by (simp add: toks_object del: toks.simps)
qed (simp_all add: skip_step bracket_def)

lemma walk_opaque: "walk (Suc n) False outer (toks esc v @ r) = Rest r"
proof -
  have e: "skip_value (Suc 0) (sep_tokens (map (toks esc) vs) @ '']'' # r) = skip_value (Suc 0) ('']'' # r)" for vs
    by (rule skip_sep) (auto simp: skip_toks)
  have m: "skip_value (Suc 0) (sep_tokens (map (member_toks esc) fs) @ ''}'' # r) = skip_value (Suc 0) (''}'' # r)" for fs
    by (rule skip_sep) (auto intro: skip_member skip_toks)
  show ?thesis
    by (cases v) (use e m in \<open>simp_all add: toks_object del: toks.simps(2)\<close>)
qed

lemma toks_head: "\<exists>t ts. toks esc v = t # ts \<and> t \<noteq> '']'' \<and> t \<noteq> ''}''"
  by (cases v) auto

lemma walk_toks:
  "json_ok v \<Longrightarrow> 2 * length (toks esc v) \<le> n \<Longrightarrow> walk n True False (toks esc v @ r) = Rest r"
proof (induction esc v arbitrary: n r rule: toks.induct)
  case (1 esc vs)
  have elems: "walk_elems k (sep_tokens (map (toks esc) ws) @ '']'' # r) = Rest r"
    if "set ws \<subseteq> set vs" "2 * length (sep_tokens (map (toks esc) ws)) + 2 \<le> k" for ws k
    using that
  proof (induction ws arbitrary: k)
    case (Cons w ws)
    obtain j where j: "k = Suc j" using Cons.prems by (cases k) auto
    have w: "walk j True False (toks esc w @ r') = Rest r'" for r'
      by (rule "1.IH") (use Cons.prems 1 j in \<open>auto simp: sep_tokens_Cons list_all_iff split: if_splits\<close>)
    obtain t ts where t: "toks esc w = t # ts" "t \<noteq> '']''" using toks_head [of esc w] by blast
    show ?case
    proof (cases "ws = []")
      case True
      then show ?thesis using w [of "'']'' # r"] t by (simp add: j sep_tokens_Cons)
    next
      case False
      have "walk_elems j (sep_tokens (map (toks esc) ws) @ '']'' # r) = Rest r"
        by (rule Cons.IH) (use Cons.prems j False in \<open>auto simp: sep_tokens_Cons\<close>)
      then show ?thesis using w [of "'','' # sep_tokens (map (toks esc) ws) @ '']'' # r"] t False by (simp add: j sep_tokens_Cons)
    qed
  qed (auto dest!: Suc_le_D)
  obtain m where m: "n = Suc m" using 1 by (cases n) auto
  then show ?case using elems [of vs m] 1 by simp
next
  case (2 esc fs)
  have members: "walk_members k False seen (sep_tokens (map (member_toks esc) gs) @ ''}'' # r) = Rest r"
    if "set gs \<subseteq> set fs" "distinct (map fst gs)" "\<forall>k \<in> set (map fst gs). JStr k \<notin> set seen"
      "2 * length (sep_tokens (map (member_toks esc) gs)) + 2 \<le> k" for gs k seen
    using that
  proof (induction gs arbitrary: k seen)
    case (Cons g gs)
    obtain key v where g: "g = (key, v)" by (cases g)
    obtain j where j: "k = Suc j" using Cons.prems by (cases k) auto
    have w: "walk j True False (toks esc v @ r') = Rest r'" for r'
      by (rule "2.IH" [of "(key, v)" key v]) (use Cons.prems 2 j g in \<open>auto simp: sep_tokens_Cons member_toks_def list_all_iff split: if_splits\<close>)
    have key: "json_parse (json_string esc key) = Some (JStr key)" using json_parse_text [of "JStr key" esc] by simp
    show ?case
    proof (cases "gs = []")
      case True
      then show ?thesis using w [of "''}'' # r"] key Cons.prems by (simp add: j g sep_tokens_Cons member_toks_pair)
    next
      case False
      have "walk_members j False (JStr key # seen) (sep_tokens (map (member_toks esc) gs) @ ''}'' # r) = Rest r"
        by (rule Cons.IH) (use Cons.prems j False g in \<open>auto simp: sep_tokens_Cons\<close>)
      then show ?thesis using w [of "'','' # sep_tokens (map (member_toks esc) gs) @ ''}'' # r"] key Cons.prems False
        by (simp add: j g sep_tokens_Cons member_toks_pair)
    qed
  qed (auto dest!: Suc_le_D)
  obtain m where m: "n = Suc m" using 2 by (cases n) auto
  then show ?case using members [of fs "[]" m] 2 by (simp add: toks_object del: toks.simps)
qed (auto simp: numeral_2_eq_2 dest!: Suc_le_D)

section \<open>Sealed payloads\<close>

lemma payload_fields:
  assumes "json_ok ctx" "json_ok b"
  shows "checkPayloadFields (canonicalJSON (JObj [(''context'', ctx), (''body'', b)])) = Rest []"
proof -
  let ?p = "JObj [(''context'', ctx), (''body'', b)]"
  have p: "json_ok ?p" using assms by simp
  let ?ts = "toks True ?p"
  have ts: "tokens (canonicalJSON ?p) = ?ts"
    using tokens_json(1) [OF p, of "[]" True] by (simp add: canonicalJSON_def token_end_def del: toks.simps json_text.simps)
  have q: "json_parse (json_string True k) = Some (JStr k)" for k using json_parse_text [of "JStr k" True] by simp
  have split: "?ts = ''{'' # json_string True ''context'' # '':'' # toks True ctx @ '','' # json_string True ''body'' # '':'' # toks True b @ [''}'']"
    by (simp add: sep_tokens_def)
  define j where "j = 2 * length (toks True ctx) + 2 * length (toks True b) + 12"
  have len: "2 * length ?ts + 2 = Suc (Suc (Suc (Suc j)))" by (simp add: sep_tokens_def j_def)
  have c: "walk (Suc (Suc j)) True False (toks True ctx @ r) = Rest r" for r by (rule walk_toks [OF assms(1)]) (simp add: j_def)
  have "walk_members (Suc (Suc j)) True [JStr ''context''] (json_string True ''body'' # '':'' # toks True b @ [''}'']) = Rest []"
    by (simp add: q walk_opaque del: walk.simps)
  then have "walk_members (Suc (Suc (Suc j))) True [] (json_string True ''context'' # '':'' # toks True ctx @ '','' # json_string True ''body'' # '':'' # toks True b @ [''}'']) = Rest []"
    by (subst walk_members.simps) (simp add: q c del: walk.simps walk_members.simps)
  then have "walk (Suc (Suc (Suc (Suc j)))) True True ?ts = Rest []"
    unfolding split by (subst walk.simps) (simp del: walk.simps walk_members.simps)
  then show ?thesis unfolding checkPayloadFields_def Let_def ts len .
qed

lemma payload_opens:
  assumes "json_ok (payloadContext m target)" "js_wf body" "sealPayload m target body = Some p"
  shows "openPayloadRaw m target (JStr p) = Opened (norm body) (Some (canonicalJSON body))"
proof -
  have p: "p = canonicalJSON (JObj [(''context'', payloadContext m target), (''body'', norm body)])" "length (utf8 p) \<le> 65536" "body \<noteq> JUndef"
    using assms(3) by (auto simp: sealPayload_def Let_def canonicalJSON_def split: if_splits)
  let ?o = "JObj [(''context'', payloadContext m target), (''body'', norm body)]"
  have b: "json_ok (norm body)" using json_ok_norm [OF assms(2)] .
  then have ok: "json_ok ?o" using assms(1) by simp
  have "json_parse p = Some ?o" unfolding p(1) canonicalJSON_def by (rule json_parse_text [OF ok])
  moreover have "rawMembers p = Some [(''context'', json_text True (payloadContext m target)), (''body'', canonicalJSON body)]"
    using rawMembers_json [OF ok, of True] by (simp add: p(1) canonicalJSON_def)
  ultimately show ?thesis
    using p payload_fields [OF assms(1) b] by (simp add: openPayloadRaw_def equalJSON_def)
qed

section \<open>Controls in canonical text\<close>

text \<open>What the scanners read from the texts of the members of a control, as a function of the
  members themselves.\<close>

definition int_literal :: "jsv \<Rightarrow> int option" where
  "int_literal v = int64Literal (json_text False v)"

definition member_value :: "(string \<times> jsv) list \<Rightarrow> string \<Rightarrow> jsv" where
  "member_value gs k = (case map_of gs k of None \<Rightarrow> JUndef | Some v \<Rightarrow> v)"

definition control_of :: "jsv \<Rightarrow> jsv \<Rightarrow> jsv \<Rightarrow> jsv \<Rightarrow> jsv option \<Rightarrow> control option" where
  "control_of kind scope epoch expires d =
     (case (scope, int_literal epoch, int_literal expires) of
        (JObj gs, Some e, Some x) \<Rightarrow>
          if list_all (\<lambda>(k, _). k \<in> set [''type'', ''id'']) gs \<and> controlWord kind \<and> controlWord (member_value gs ''type'')
             \<and> adm_validText (member_value gs ''id'') \<and> 0 \<le> e \<and> e \<le> max_safe_integer \<and> 0 < x \<and> x \<le> max_safe_integer
          then Some \<lparr>ct_kind = kind, ct_type = member_value gs ''type'', ct_id = member_value gs ''id'', ct_epoch = e, ct_expires_at = x, ct_data = d\<rparr>
          else None
      | _ \<Rightarrow> None)"

lemma int64Literal_json: "int64Literal (json_text esc v) = int_literal v"
proof -
  have "int64Literal (c # cs) = None" if "c \<noteq> CHR ''-''" "\<not> digit_char c" for c cs
    using that by (simp add: int64Literal_def)
  then show ?thesis
    by (cases v) (simp_all add: int_literal_def json_string_def quote_char_def digit_char_def less_eq_char_def)
qed

lemma map_of_texts: "map_of (map (\<lambda>(k, v). (k, json_text esc v)) fs) k = map_option (json_text esc) (map_of fs k)"
  by (induction fs) auto

lemma map_fst_texts: "map fst (map (\<lambda>(k, v). (k, json_text esc v)) fs) = map fst fs"
  by (induction fs) auto

lemma exactMembers_json:
  assumes "json_ok (JObj fs)"
  shows "exactMembers (json_text esc (JObj fs)) allowed
    = (if list_all (\<lambda>(k, _). k \<in> set allowed) fs then Some (map (\<lambda>(k, v). (k, json_text esc v)) fs) else None)"
proof -
  have "list_all (\<lambda>(k, _). k \<in> set allowed) (map (\<lambda>(k, v). (k, json_text esc v)) fs) = list_all (\<lambda>(k, _). k \<in> set allowed) fs"
    by (induction fs) auto
  then show ?thesis
    using assms rawMembers_json [OF assms, of esc] map_fst_texts [of esc fs] by (simp add: exactMembers_def del: map_map)
qed

lemma exactMembers_other:
  assumes "\<And>fs. v \<noteq> JObj fs" "json_ok v"
  shows "exactMembers (json_text esc v) allowed = None"
proof -
  have "hd (json_text esc v) \<noteq> CHR ''{''"
    using assms int_word by (cases v) (auto simp: json_string_def quote_char_def)
  then have "rawMembers (json_text esc v) = None"
    using skipWS_json(1) [of esc v "[]"] json_head [of esc v] by (cases "json_text esc v") (simp_all add: rawMembers_def)
  then show ?thesis by (simp add: exactMembers_def)
qed

lemma parse_optional_json:
  "list_all (\<lambda>(k, v). json_ok v) gs \<Longrightarrow> parse_optional (map_option (json_text esc) (map_of gs k)) = Some (member_value gs k)"
  by (induction gs) (auto simp: parse_optional_def member_value_def json_parse_text)

lemma control_fields_json:
  assumes ok: "json_ok kind" "json_ok scope" "\<And>d. dv = Some d \<Longrightarrow> json_ok d"
    and small: "\<And>d. dv = Some d \<Longrightarrow> compactSize (json_text esc d) \<le> MAX_CONTROL_DATA"
  shows "control_fields (json_text esc kind) (json_text esc scope) (json_text esc epoch) (json_text esc expires) (map_option (json_text esc) dv)
    = control_of kind scope epoch expires dv"
proof (cases "\<exists>gs. scope = JObj gs")
  case True
  then obtain gs where gs: "scope = JObj gs" by blast
  have l: "list_all (\<lambda>(k, v). json_ok v) gs" using ok(2) by (simp add: gs)
  note facts = control_fields_def control_of_def int64Literal_json json_parse_text [OF ok(1)] map_of_texts parse_optional_json [OF l] exactMembers_json
  show ?thesis
  proof (cases dv)
    case None
    then show ?thesis using ok(2) unfolding gs by (auto simp: facts not_le not_less simp del: json_text.simps split: option.split)
  next
    case (Some d)
    have "compactSize (json_text esc d) \<le> MAX_CONTROL_DATA" "json_parse (json_text esc d) = Some d"
      using small [OF Some] json_parse_text [OF ok(3) [OF Some]] by simp_all
    then show ?thesis using ok(2) unfolding gs Some by (auto simp: facts not_le not_less simp del: json_text.simps split: option.split)
  qed
next
  case False
  then show ?thesis using exactMembers_other [OF _ ok(2), of esc] by (auto simp: control_fields_def control_of_def split: jsv.split)
qed

lemma parse_control_json:
  assumes ok: "json_ok (JObj fs)" and size: "length (utf8 (json_text esc (JObj fs))) \<le> MAX_CONTROL_DATA + 1024"
    and small: "\<And>d. map_of fs ''data'' = Some d \<Longrightarrow> compactSize (json_text esc d) \<le> MAX_CONTROL_DATA"
  shows "parse_control_text (json_text esc (JObj fs)) =
    (if list_all (\<lambda>(k, _). k \<in> set [''kind'', ''scope'', ''epoch'', ''expires_at'', ''data'']) fs
     then (case (map_of fs ''kind'', map_of fs ''scope'', map_of fs ''epoch'', map_of fs ''expires_at'') of
             (Some kind, Some scope, Some epoch, Some expires) \<Rightarrow> control_of kind scope epoch expires (map_of fs ''data'')
           | _ \<Rightarrow> None)
     else None)"
proof -
  have member: "json_ok v" if "map_of fs k = Some v" for k v
    using ok map_of_SomeD [OF that] by (auto simp: list_all_iff)
  have "length (utf8 (json_text esc (JObj fs))) \<noteq> 0" using utf8_inject [of "json_text esc (JObj fs)" "[]"] by (auto simp: utf8_def)
  moreover have "control_fields (json_text esc a) (json_text esc b) (json_text esc c) (json_text esc d) (map_option (json_text esc) (map_of fs ''data''))
      = control_of a b c d (map_of fs ''data'')" if "map_of fs ''kind'' = Some a" "map_of fs ''scope'' = Some b" for a b c d
    by (rule control_fields_json [OF member [OF that(1)] member [OF that(2)] member small])
  ultimately show ?thesis
    using size exactMembers_json [OF ok] by (simp add: parse_control_text_def map_of_texts del: json_text.simps split: option.split)
qed

lemma parsed_control_small:
  assumes "parse_control_text (json_text esc (JObj fs)) = Some b" "json_ok (JObj fs)"
  shows "length (utf8 (json_text esc (JObj fs))) \<le> MAX_CONTROL_DATA + 1024"
    and "map_of fs ''data'' = Some d \<Longrightarrow> compactSize (json_text esc d) \<le> MAX_CONTROL_DATA"
proof -
  show "length (utf8 (json_text esc (JObj fs))) \<le> MAX_CONTROL_DATA + 1024"
    using assms(1) unfolding parse_control_text_def by (simp split: if_splits)
  have big: "control_fields k s e x (Some raw) = None" if "compactSize raw > MAX_CONTROL_DATA" for k s e x raw
    using that by (simp add: control_fields_def split: option.split)
  show "compactSize (json_text esc d) \<le> MAX_CONTROL_DATA" if d: "map_of fs ''data'' = Some d"
  proof (rule ccontr)
    assume "\<not> compactSize (json_text esc d) \<le> MAX_CONTROL_DATA"
    then have "parse_control_text (json_text esc (JObj fs)) = None"
      using exactMembers_json [OF assms(2)] big [of "json_text esc d"] d
      by (simp add: parse_control_text_def map_of_texts del: json_text.simps split: option.split)
    then show False using assms(1) by simp
  qed
qed

text \<open>The parse does not depend on whether the text is escaped, as long as the sizes allow it.\<close>

lemma parse_escaped:
  assumes wf: "js_wf (JObj fs)" and send: "parseControlBody (JObj fs) = Some b"
    and size: "length (utf8 (canonicalJSON (JObj fs))) \<le> MAX_CONTROL_DATA + 1024"
    and small: "compactSize (canonicalJSON (field (JObj fs) ''data'')) \<le> MAX_CONTROL_DATA"
  shows "parseControlBody (JStr (canonicalJSON (JObj fs))) = Some b"
proof -
  obtain gs where gs: "norm (JObj fs) = JObj gs" by simp
  have ok: "json_ok (JObj gs)" using json_ok_norm [OF wf] unfolding gs .
  have same: "json_text esc (JObj fs) = json_text esc (JObj gs)" for esc using json_text_norm(1) [of esc "JObj fs"] gs by metis
  have plain: "parse_control_text (json_text False (JObj gs)) = Some b"
    using send by (simp add: parseControlBody_def stringify_def same del: json_text.simps)
  have d: "compactSize (json_text True d) \<le> MAX_CONTROL_DATA" if "map_of gs ''data'' = Some d" for d
  proof -
    have "field (norm (JObj fs)) ''data'' = d" using that gs by simp
    moreover have "d \<noteq> JUndef" using ok map_of_SomeD [OF that] by (auto simp: list_all_iff)
    ultimately have "d = norm (field (JObj fs) ''data'')" using field_norm [of fs "''data''"] wf by (auto split: if_splits)
    then show ?thesis using small by (simp add: canonicalJSON_def del: field.simps)
  qed
  have "parse_control_text (json_text True (JObj gs)) = parse_control_text (json_text False (JObj gs))"
    using parse_control_json [OF ok _ d] size parse_control_json [OF ok parsed_control_small(1) [OF plain ok] parsed_control_small(2) [OF plain ok]]
    by (simp add: canonicalJSON_def same del: json_text.simps)
  then show ?thesis using plain by (simp add: parseControlBody_def canonicalJSON_def same del: json_text.simps)
qed

section \<open>Sample controls\<close>

definition sample_control :: "string \<Rightarrow> (string \<times> jsv) list" where
  "sample_control t = [(''kind'', JStr ''media-key''), (''scope'', JObj [(''type'', JStr ''voice''), (''id'', JStr ''room'')]),
     (''epoch'', JNum 3), (''expires_at'', JNum 1100), (''data'', JStr t)]"

definition sample_parsed :: "string \<Rightarrow> control" where
  "sample_parsed t = \<lparr>ct_kind = JStr ''media-key'', ct_type = JStr ''voice'', ct_id = JStr ''room'', ct_epoch = 3, ct_expires_at = 1100, ct_data = Some (JStr t)\<rparr>"

lemma sample_control_of:
  "control_of (JStr ''media-key'') (JObj [(''type'', JStr ''voice''), (''id'', JStr ''room'')]) (JNum 3) (JNum 1100) (Some (JStr t)) = Some (sample_parsed t)"
proof -
  have "int_literal (JNum 3) = Some 3" "int_literal (JNum 1100) = Some 1100" by code_simp+
  then show ?thesis
    by (simp add: control_of_def sample_parsed_def member_value_def controlWord_def word_char_def digit_char_def less_eq_char_def
        adm_validText_def max_safe_integer_def utf8_def utf8_char_def control_char_def)
qed

lemma sample_control_ok: "json_ok (JObj (sample_control t))" "js_wf (JObj (sample_control t))"
  by (simp_all add: sample_control_def)

lemma sample_parse:
  assumes "length (utf8 (json_text esc (JObj (sample_control t)))) \<le> MAX_CONTROL_DATA + 1024" "compactSize (json_string esc t) \<le> MAX_CONTROL_DATA"
  shows "parse_control_text (json_text esc (JObj (sample_control t))) = Some (sample_parsed t)"
proof (subst parse_control_json [OF sample_control_ok(1) assms(1)])
  show "compactSize (json_text esc d) \<le> MAX_CONTROL_DATA" if "map_of (sample_control t) ''data'' = Some d" for d
    using that assms(2) by (auto simp: sample_control_def)
qed (simp add: sample_control_def sample_control_of)

text \<open>The size of a string in a text, and of a sample control.\<close>

lemma utf8_Cons_length: "length (utf8 (c # t)) = length (utf8 [c]) + length (utf8 t)"
  by (simp add: utf8_def)

lemma utf8_Nil [simp]: "utf8 [] = []"
  by (simp add: utf8_def)

lemma compact_json_char: "compact_size True False (json_char esc c @ s) = length (utf8 (json_char esc c)) + compact_size True False s"
proof -
  have plain: "compact_size True False (u @ s) = length (utf8 u) + compact_size True False s"
    if "\<forall>x \<in> set u. x \<noteq> quote_char \<and> x \<noteq> backslash" for u
    using that
  proof (induction u)
    case (Cons x u)
    then show ?case using utf8_Cons_length [of x u] by simp
  qed simp
  have bs: "backslash \<noteq> quote_char" by (simp add: backslash_def quote_char_def)
  from json_char_shape [of esc c] consider "json_char esc c = [c]" "c \<noteq> quote_char" "c \<noteq> backslash"
    | d u where "json_char esc c = backslash # d # u" "\<forall>x \<in> set u. x \<noteq> quote_char \<and> x \<noteq> backslash" by blast
  then show ?thesis
  proof cases
    case 1
    then show ?thesis using plain [of "[c]"] by simp
  next
    case (2 d u)
    then show ?thesis using plain [of u] bs utf8_Cons_length [of backslash "d # u"] utf8_Cons_length [of d u] by simp
  qed
qed

lemma compact_json_string: "compactSize (json_string esc t) = length (utf8 (json_string esc t))"
proof -
  have "compact_size True False (concat (map (json_char esc) t) @ [quote_char])
      = length (utf8 (concat (map (json_char esc) t))) + length (utf8 [quote_char])"
  proof (induction t)
    case Nil
    then show ?case by (simp add: quote_char_def backslash_def)
  next
    case (Cons c t)
    then show ?case using compact_json_char [of esc c] by simp
  qed
  moreover have "\<not> json_ws quote_char" by (simp add: quote_char_def json_ws_def)
  ultimately show ?thesis
    using utf8_Cons_length [of quote_char "concat (map (json_char esc) t) @ [quote_char]"] by (simp add: compactSize_def json_string_def)
qed

definition sample_prefix :: "bool \<Rightarrow> string" where
  "sample_prefix esc = butlast (json_text esc (JObj (butlast (sample_control [])))) @ '','' @ json_string esc ''data'' @ '':''"

lemma sample_text: "json_text esc (JObj (sample_control t)) = sample_prefix esc @ json_string esc t @ ''}''"
  by (simp add: sample_prefix_def sample_control_def butlast_append)

lemma sample_prefix_length: "length (utf8 (sample_prefix True)) \<le> 200" "length (utf8 (sample_prefix False)) \<le> 200"
  by code_simp+

lemma sample_size: "length (utf8 (json_text esc (JObj (sample_control t)))) \<le> 202 + length (utf8 (json_string esc t))"
proof -
  have "length (utf8 (sample_prefix esc)) \<le> 200" using sample_prefix_length by (cases esc) auto
  moreover have "length (utf8 ''}'') \<le> 2" by code_simp
  ultimately show ?thesis by (simp add: sample_text del: json_text.simps)
qed

text \<open>Text of less-than signs: one byte each as it is, six when they are escaped.\<close>

lemma less_signs:
  "length (utf8 (json_string False (replicate n (CHR ''<'')))) = n + 2" "length (utf8 (json_string True (replicate n (CHR ''<'')))) = 6 * n + 2"
proof -
  have q: "length (utf8 [quote_char]) = 1" by code_simp
  have c: "length (utf8 (json_char False (CHR ''<''))) = 1" "length (utf8 (json_char True (CHR ''<''))) = 6" by code_simp+
  have "length (utf8 (concat (map (json_char False) (replicate n (CHR ''<''))))) = n"
    by (induction n) (use c in simp_all)
  moreover have "length (utf8 (concat (map (json_char True) (replicate n (CHR ''<''))))) = 6 * n"
    by (induction n) (use c in simp_all)
  ultimately show "length (utf8 (json_string False (replicate n (CHR ''<'')))) = n + 2" "length (utf8 (json_string True (replicate n (CHR ''<'')))) = 6 * n + 2"
    using q utf8_Cons_length [of quote_char "concat (map (json_char False) (replicate n (CHR ''<''))) @ [quote_char]"]
      utf8_Cons_length [of quote_char "concat (map (json_char True) (replicate n (CHR ''<''))) @ [quote_char]"]
    by (simp_all add: json_string_def)
qed

definition sample_control_manifest :: jsv where
  "sample_control_manifest = JObj [(''version'', JStr ADMISSION_VERSION), (''server'', JStr sample_server), (''sender'', JStr ''alice''),
     (''device'', JStr ''d1''), (''account_epoch'', JNum 1), (''attempt_id'', JStr ''7''), (''logical_id'', JStr ''m1''),
     (''purpose'', JStr ''control''), (''scope'', JStr ''direct''), (''peer'', JStr ''bob'')]"

definition sample_target :: jsv where
  "sample_target = JObj [(''principal'', JStr ''bob''), (''device'', JStr ''e1''), (''account_epoch'', JNum 3), (''identity'', JStr ''k2'')]"

lemma sample_context: "json_ok (payloadContext sample_control_manifest sample_target)"
  by code_simp

lemma sample_sealed: "sealPayload sample_control_manifest sample_target (JObj (sample_control ''key'')) \<noteq> None"
  by code_simp

lemma sample_sent: "validateControlSend (JObj (sample_control t)) 1000 = Some (sample_parsed t)" if "length (utf8 (json_string False t)) \<le> 4096"
  using sample_parse [of False t] sample_size [of False t] that
  by (simp add: validateControlSend_def parseControlBody_def stringify_def compact_json_string MAX_CONTROL_DATA_def MAX_CONTROL_TTL_def sample_parsed_def
      del: json_text.simps)

section \<open>Theorems\<close>

text \<open>A sealed payload opens for the target it was sealed for: the receiver gets the
  body back (as JSON carries it) together with its exact canonical text, and the check for
  duplicate members ends.\<close>

theorem sealed_payload_opens:
  assumes "json_ok (payloadContext m target)" "js_wf body" "sealPayload m target body = Some p"
  shows "openPayloadRaw m target (JStr p) = Opened (norm body) (Some (canonicalJSON body))"
  using assms by (rule payload_opens)

theorem sealed_payload_opens_witness:
  "\<exists>p. sealPayload sample_control_manifest sample_target (JObj (sample_control ''key'')) = Some p
    \<and> openPayloadRaw sample_control_manifest sample_target (JStr p)
      = Opened (norm (JObj (sample_control ''key''))) (Some (canonicalJSON (JObj (sample_control ''key''))))"
proof -
  obtain p where p: "sealPayload sample_control_manifest sample_target (JObj (sample_control ''key'')) = Some p"
    using sample_sealed by blast
  then show ?thesis using sealed_payload_opens [OF sample_context sample_control_ok(2) p] by blast
qed

text \<open>Property C32: a media control arrives as it was sent: when the sender's check accepts it and
  its escaped text is within the receiver's limits, the receiver opens the payload, judges
  exactly the body that the sender parsed as delivered at every time before its expiry, its clock
  being at most the allowed skew behind, and what the archive keeps of it has no data.\<close>

theorem control_arrives_as_sent:
  assumes wf: "json_ok (payloadContext m target)" "js_wf (JObj fs)"
    and send: "validateControlSend (JObj fs) now = Some b" "sealPayload m target (JObj fs) = Some p"
    and size: "length (utf8 (canonicalJSON (JObj fs))) \<le> MAX_CONTROL_DATA + 1024"
      "compactSize (canonicalJSON (field (JObj fs) ''data'')) \<le> MAX_CONTROL_DATA"
    and clock: "now \<le> now' + CONTROL_CLOCK_SKEW" "now' < ct_expires_at b"
  shows "\<exists>raw. openPayloadRaw m target (JStr p) = Opened (norm (JObj fs)) (Some raw)
    \<and> judgeControl (JStr raw) now' = (Delivered, Some b) \<and> field (controlArchiveBody (Some b)) ''data'' = JUndef"
proof -
  have b: "parseControlBody (JObj fs) = Some b" "ct_expires_at b \<le> now + MAX_CONTROL_TTL"
    using send(1) by (auto simp: validateControlSend_def split: option.splits if_splits)
  have "parseControlBody (JStr (canonicalJSON (JObj fs))) = Some b" by (rule parse_escaped [OF wf(2) b(1) size])
  then have "judgeControl (JStr (canonicalJSON (JObj fs))) now' = (Delivered, Some b)"
    using b(2) clock by (simp add: judgeControl_def)
  then show ?thesis using payload_opens [OF wf send(2)] by (simp add: controlArchiveBody_def del: norm.simps)
qed

theorem control_arrives_as_sent_witness:
  "\<exists>p raw. openPayloadRaw sample_control_manifest sample_target (JStr p) = Opened (norm (JObj (sample_control ''key''))) (Some raw)
    \<and> judgeControl (JStr raw) 900 = (Delivered, Some (sample_parsed ''key''))"
proof -
  obtain p where p: "sealPayload sample_control_manifest sample_target (JObj (sample_control ''key'')) = Some p"
    using sample_sealed by blast
  have l: "length (utf8 (json_string True ''key'')) = 5" "length (utf8 (json_string False ''key'')) = 5" by code_simp+
  have d: "field (JObj (sample_control ''key'')) ''data'' = JStr ''key''" by (simp add: sample_control_def)
  have "\<exists>raw. openPayloadRaw sample_control_manifest sample_target (JStr p) = Opened (norm (JObj (sample_control ''key''))) (Some raw)
      \<and> judgeControl (JStr raw) 900 = (Delivered, Some (sample_parsed ''key'')) \<and> field (controlArchiveBody (Some (sample_parsed ''key''))) ''data'' = JUndef"
    by (rule control_arrives_as_sent [OF sample_context sample_control_ok(2) sample_sent p])
      (use sample_size [of True "''key''"] l d in \<open>simp_all add: canonicalJSON_def compact_json_string MAX_CONTROL_DATA_def CONTROL_CLOCK_SKEW_def sample_parsed_def
        del: field.simps json_text.simps(9)\<close>)
  then show ?thesis by blast
qed

text \<open>The two checks of a control do not agree: the sender measures its data before the
  characters less, greater and ampersand are escaped, the receiver after. A control whose data is 700
  less-than signs passes the sender's check and is sealed, and every receiver judges it
  invalid, at any time.\<close>

theorem escaped_control_is_refused:
  "validateControlSend (JObj (sample_control (replicate 700 (CHR ''<'')))) 1000 = Some (sample_parsed (replicate 700 (CHR ''<'')))
    \<and> judgeControl (JStr (canonicalJSON (JObj (sample_control (replicate 700 (CHR ''<'')))))) now = (Invalid, None)"
proof
  let ?t = "replicate 700 (CHR ''<'')"
  show "validateControlSend (JObj (sample_control ?t)) 1000 = Some (sample_parsed ?t)"
    by (rule sample_sent) (simp add: less_signs)
  have "parse_control_text (json_text True (JObj (sample_control ?t))) = None"
  proof (rule ccontr)
    assume "parse_control_text (json_text True (JObj (sample_control ?t))) \<noteq> None"
    then obtain b where "parse_control_text (json_text True (JObj (sample_control ?t))) = Some b" by blast
    from parsed_control_small(2) [OF this sample_control_ok(1), of "JStr ?t"]
    show False by (simp add: sample_control_def compact_json_string less_signs MAX_CONTROL_DATA_def)
  qed
  then show "judgeControl (JStr (canonicalJSON (JObj (sample_control ?t)))) now = (Invalid, None)"
    by (simp add: judgeControl_def parseControlBody_def canonicalJSON_def del: json_text.simps)
qed

end
