(* ===== verification/Access_Matrix.thy ===== *)
theory Access_Matrix
  imports Js_Json "HOL-Library.Multiset"
begin

text \<open>
  Channel access drafts and role editing (mobile/src/core/access-matrix.js). An override gives one
  subject (a role or a user) the effect allow or deny for a capability; a list of overrides
  is read and changed as a finite map from subjects and capabilities to effects, which
  \<open>effect_map\<close> makes explicit. Capabilities require others; the code follows the requirements
  transitively, by a search that marks what it has seen. Identifiers are integers and 0 where the
  code has none (\<^verbatim>\<open>Number(a || 0)\<close>). A preset or template name is not one of the names
  that every object inherits in the language (\<^verbatim>\<open>toString\<close> and the like).
\<close>

section \<open>Overrides\<close>

definition EFFECTS :: "string list" where "EFFECTS = [''inherit'', ''allow'', ''deny'']"

record override =
  ov_role :: int
  ov_user :: int
  ov_capability :: string
  ov_effect :: string

record subject =
  sb_role :: int
  sb_user :: int

definition matches :: "override \<Rightarrow> subject \<Rightarrow> string \<Rightarrow> bool" where
  "matches v s capability \<longleftrightarrow> ov_role v = sb_role s \<and> ov_user v = sb_user s \<and> ov_capability v = capability"

definition effectOf :: "override list \<Rightarrow> subject \<Rightarrow> string \<Rightarrow> string" where
  "effectOf overrides s capability = (case List.find (\<lambda>v. matches v s capability) overrides of
     None \<Rightarrow> ''inherit'' | Some v \<Rightarrow> if ov_effect v = [] then ''inherit'' else ov_effect v)"

definition setOverride :: "override list \<Rightarrow> subject \<Rightarrow> string \<Rightarrow> string \<Rightarrow> override list option" where
  "setOverride overrides s capability eff =
     (if eff \<notin> set EFFECTS then None
      else let nxt = filter (\<lambda>v. \<not> matches v s capability) overrides in
        Some (if eff = ''inherit'' then nxt
          else nxt @ [if sb_user s \<noteq> 0 then \<lparr>ov_role = 0, ov_user = sb_user s, ov_capability = capability, ov_effect = eff\<rparr>
            else \<lparr>ov_role = sb_role s, ov_user = 0, ov_capability = capability, ov_effect = eff\<rparr>]))"

definition index_of :: "'a list \<Rightarrow> 'a \<Rightarrow> int" where  \<comment> \<open>\<^verbatim>\<open>indexOf\<close>\<close>
  "index_of xs x = (if x \<in> set xs then int (length (takeWhile (\<lambda>y. y \<noteq> x) xs)) else - 1)"

definition nextEffect :: "string \<Rightarrow> string" where
  "nextEffect eff = EFFECTS ! nat ((index_of EFFECTS eff + 1) mod int (length EFFECTS))"

definition PRESETS :: "(string \<times> (string \<times> string) list) list" where
  "PRESETS = [
     (''public'', [(''view_channel'', ''allow''), (''read_history'', ''allow''), (''send_messages'', ''allow''), (''connect'', ''allow''), (''speak'', ''allow'')]),
     (''private'', [(''view_channel'', ''deny'')]),
     (''readOnly'', [(''view_channel'', ''allow''), (''read_history'', ''allow''), (''send_messages'', ''deny'')]),
     (''listenOnly'', [(''view_channel'', ''allow''), (''connect'', ''allow''), (''speak'', ''deny''), (''share_camera'', ''deny''), (''share_screen'', ''deny'')])]"

definition role_subject :: "int \<Rightarrow> subject" where  \<comment> \<open>\<^verbatim>\<open>{ role_id }\<close>\<close>
  "role_subject i = \<lparr>sb_role = i, sb_user = 0\<rparr>"

fun apply_rules :: "override list \<Rightarrow> subject \<Rightarrow> (string \<times> string) list \<Rightarrow> override list option" where
  "apply_rules vs s [] = Some vs"
| "apply_rules vs s ((capability, eff) # rules) = Option.bind (setOverride vs s capability eff) (\<lambda>nxt. apply_rules nxt s rules)"

definition applyPreset :: "override list \<Rightarrow> int \<Rightarrow> string \<Rightarrow> override list option" where
  "applyPreset overrides everyoneID preset = (case map_of PRESETS preset of
     None \<Rightarrow> None | Some rules \<Rightarrow> apply_rules overrides (role_subject everyoneID) rules)"

definition presetOf :: "override list \<Rightarrow> int \<Rightarrow> string" where
  "presetOf overrides everyoneID =
     (let mine = filter (\<lambda>v. ov_role v = everyoneID \<and> ov_user v = 0) overrides in
      case List.find (\<lambda>(name, rules). length mine = length rules
          \<and> list_all (\<lambda>(capability, eff). effectOf mine (role_subject everyoneID) capability = eff) rules) PRESETS of
        None \<Rightarrow> [] | Some (name, _) \<Rightarrow> name)"

text \<open>\<^verbatim>\<open>overrideChanges\<close>: maps by a text key, in which the last entry of a key counts.\<close>

definition override_key :: "override \<Rightarrow> string" where
  "override_key v = string_of_int (ov_role v) @ '':'' @ string_of_int (ov_user v) @ '':'' @ ov_capability v"

definition key_map :: "override list \<Rightarrow> (string, override) jmap" where
  "key_map vs = fold (\<lambda>v m. jset (override_key v) v m) vs []"

definition map_effect :: "(string, override) jmap \<Rightarrow> string \<Rightarrow> string" where
  "map_effect m k = (case jget m k of None \<Rightarrow> ''inherit'' | Some v \<Rightarrow> if ov_effect v = [] then ''inherit'' else ov_effect v)"

definition overrideChanges :: "override list \<Rightarrow> override list \<Rightarrow> (override \<times> string \<times> string) list" where
  "overrideChanges before after =
     (let previous = key_map before; nxt = key_map after in
      List.map_filter (\<lambda>k.
          let was = map_effect previous k; now = map_effect nxt k in
          if was = now then None
          else map_option (\<lambda>v. (v, was, now)) (case jget nxt k of Some v \<Rightarrow> Some v | None \<Rightarrow> jget previous k))
        (sort (remdups (jkeys previous @ jkeys nxt))))"

record draft =
  dr_channel :: int
  dr_parent :: int
  dr_synced :: bool
  dr_overrides :: "override list"

definition setSynced :: "draft \<Rightarrow> bool \<Rightarrow> override list \<Rightarrow> draft" where
  "setSynced d synced inherited = d\<lparr>dr_synced := synced, dr_overrides := (if synced then [] else inherited)\<rparr>"

section \<open>Capabilities that require others\<close>

record capability =
  cp_key :: string
  cp_requires :: "string list"
  cp_group :: string
  cp_channel :: bool
  cp_en :: string
  cp_de :: string

definition requires :: "capability list \<Rightarrow> string \<Rightarrow> string list" where
  "requires cs k = (case List.find (\<lambda>c. cp_key c = k) cs of None \<Rightarrow> [] | Some c \<Rightarrow> cp_requires c)"

definition all_required :: "capability list \<Rightarrow> string set" where
  "all_required cs = (\<Union>c \<in> set cs. set (cp_requires c))"

lemma find_capability: "List.find (\<lambda>c. cp_key c = k) cs = Some c \<Longrightarrow> c \<in> set cs \<and> cp_key c = k"
  by (auto simp: find_Some_iff in_set_conv_nth)

lemma requires_subset: "set (requires cs k) \<subseteq> all_required cs"
  by (auto simp: requires_def all_required_def dest!: find_capability [OF sym] split: option.splits)

lemma finite_all_required: "finite (all_required cs)"
  by (simp add: all_required_def)

text \<open>The loop over the requirements of one capability; \<open>seen\<close> is the set that the recursion shares.\<close>

function require_all :: "capability list \<Rightarrow> string list \<Rightarrow> string list \<Rightarrow> string list" where
  "require_all cs [] seen = seen"
| "require_all cs (r # rs) seen =
     (if r \<in> set seen then require_all cs rs seen
      else require_all cs rs (require_all cs (requires cs r) (seen @ [r])))"
  by pat_completeness auto
termination
proof (relation "measures [\<lambda>(cs, rs, seen). card (all_required cs \<union> set rs - set seen), \<lambda>(cs, rs, seen). length rs]")
  have grows: "set seen \<subseteq> set (require_all cs rs seen)" if "require_all_dom (cs, rs, seen)" for cs rs seen
    using that by (induction rule: require_all.pinduct) (auto simp: require_all.psimps)
  fix cs r rs seen
  have "card (all_required cs \<union> set rs - set seen) \<le> card (all_required cs \<union> set (r # rs) - set seen)"
    by (rule card_mono) (auto simp: finite_all_required)
  then show "((cs, rs, seen), cs, r # rs, seen)
      \<in> measures [\<lambda>(cs, rs, seen). card (all_required cs \<union> set rs - set seen), \<lambda>(cs, rs, seen). length rs]" if "r \<in> set seen"
    by auto
  assume new: "r \<notin> set seen"
  have "card (all_required cs \<union> set (requires cs r) - set (seen @ [r])) < card (all_required cs \<union> set (r # rs) - set seen)"
    by (rule psubset_card_mono) (use new requires_subset [of cs r] in \<open>auto simp: finite_all_required\<close>)
  then show "((cs, requires cs r, seen @ [r]), cs, r # rs, seen)
      \<in> measures [\<lambda>(cs, rs, seen). card (all_required cs \<union> set rs - set seen), \<lambda>(cs, rs, seen). length rs]" by simp
  assume "require_all_dom (cs, requires cs r, seen @ [r])"
  from grows [OF this] have "insert r (set seen) \<subseteq> set (require_all cs (requires cs r) (seen @ [r]))" by simp
  then have "card (all_required cs \<union> set rs - set (require_all cs (requires cs r) (seen @ [r]))) < card (all_required cs \<union> set (r # rs) - set seen)"
    by (intro psubset_card_mono) (use new in \<open>auto simp: finite_all_required\<close>)
  then show "((cs, rs, require_all cs (requires cs r) (seen @ [r])), cs, r # rs, seen)
      \<in> measures [\<lambda>(cs, rs, seen). card (all_required cs \<union> set rs - set seen), \<lambda>(cs, rs, seen). length rs]" by simp
qed simp

definition requirements :: "capability list \<Rightarrow> string \<Rightarrow> string list" where
  "requirements cs k = require_all cs (requires cs k) []"



section \<open>Roles\<close>

record role =
  rl_id :: int
  rl_name :: string
  rl_position :: int
  rl_color :: string
  rl_icon :: string
  rl_hoist :: bool
  rl_mentionable :: bool
  rl_protected :: bool
  rl_permissions :: "string list"

record policy =
  pl_everyone :: int
  pl_roles :: "role list"
  pl_capabilities :: "capability list"

definition known_keys :: "capability list \<Rightarrow> string set" where
  "known_keys cs = cp_key ` set cs"

text \<open>The loop over the two role subjects: a later effect other than inherit replaces an earlier one.\<close>

definition apply_effects :: "override list \<Rightarrow> int list \<Rightarrow> string \<Rightarrow> bool \<Rightarrow> bool" where
  "apply_effects vs ids capability allowed = fold (\<lambda>i a. let e = effectOf vs (role_subject i) capability in if e \<noteq> ''inherit'' then e = ''allow'' else a) ids allowed"

definition base_allowed :: "policy \<Rightarrow> override list \<Rightarrow> role \<Rightarrow> string \<Rightarrow> bool" where
  "base_allowed st vs r capability =
     (let everyone = List.find (\<lambda>x. rl_id x = pl_everyone st) (pl_roles st) in
      apply_effects vs (remdups [pl_everyone st, rl_id r]) capability
        ((case everyone of None \<Rightarrow> False | Some x \<Rightarrow> capability \<in> set (rl_permissions x)) \<or> capability \<in> set (rl_permissions r)))"

function roleAllowed :: "policy \<Rightarrow> override list \<Rightarrow> role \<Rightarrow> string \<Rightarrow> string list \<Rightarrow> bool" where
  "roleAllowed st vs r capability seen =
     (if capability \<in> set seen then False
      else case List.find (\<lambda>c. cp_key c = capability) (pl_capabilities st) of
          None \<Rightarrow> False
        | Some info \<Rightarrow>
            if ''administrator'' \<in> set (rl_permissions r) then True
            else base_allowed st vs r capability
              \<and> list_all (\<lambda>k. roleAllowed st vs r k (seen @ [capability])) (cp_requires info))"
  by auto
termination
proof (relation "measure (\<lambda>(st, vs, r, capability, seen). card (known_keys (pl_capabilities st) - set seen))")
  fix st :: policy and vs :: "override list" and r :: role and capability seen info k
  assume "capability \<notin> set seen" "List.find (\<lambda>c. cp_key c = capability) (pl_capabilities st) = Some info"
  then have "known_keys (pl_capabilities st) - set (seen @ [capability]) \<subset> known_keys (pl_capabilities st) - set seen"
    by (auto simp: known_keys_def dest!: find_capability)
  then have "card (known_keys (pl_capabilities st) - set (seen @ [capability])) < card (known_keys (pl_capabilities st) - set seen)"
    by (intro psubset_card_mono) (auto simp: known_keys_def)
  then show "((st, vs, r, k, seen @ [capability]), st, vs, r, capability, seen)
      \<in> measure (\<lambda>(st, vs, r, capability, seen). card (known_keys (pl_capabilities st) - set seen))" by simp
qed simp

declare roleAllowed.simps [simp del]

definition roleDraft :: "role \<Rightarrow> role" where
  "roleDraft r = r\<lparr>rl_permissions := sort (rl_permissions r)\<rparr>"

definition role_json :: "role \<Rightarrow> jsv" where
  "role_json r = JObj [(''id'', JNum (rl_id r)), (''name'', JStr (rl_name r)), (''position'', JNum (rl_position r)), (''color'', JStr (rl_color r)),
     (''icon'', JStr (rl_icon r)), (''hoist'', JBool (rl_hoist r)), (''mentionable'', JBool (rl_mentionable r)),
     (''deletion_protected'', JBool (rl_protected r)), (''permissions'', JArr (map JStr (rl_permissions r)))]"

definition roleDirty :: "role \<Rightarrow> role \<Rightarrow> bool" where
  "roleDirty saved d \<longleftrightarrow> stringify (role_json (roleDraft saved)) \<noteq> stringify (role_json (roleDraft d))"

definition role_base :: "string list" where
  "role_base = [''view_channel'', ''read_history'', ''send_messages'', ''connect'', ''speak'']"

definition roleTemplate :: "string \<Rightarrow> string list \<Rightarrow> string list" where
  "roleTemplate template grantable = filter (\<lambda>k. k \<in> set grantable)
     (if template = ''member'' then role_base
      else if template = ''administrator'' then [''administrator'']
      else if template = ''moderator'' then role_base @ [''manage_messages'', ''move_members'', ''mute_members'', ''deafen_members'',
        ''disconnect_members'', ''kick_members'']
      else [])"

definition reorderedRoles :: "role list \<Rightarrow> int \<Rightarrow> int \<Rightarrow> int list option" where
  "reorderedRoles rs roleID direction =
     (let ordered = sort_key rl_position rs;
          index = (if roleID \<in> set (map rl_id ordered) then int (length (takeWhile (\<lambda>r. rl_id r \<noteq> roleID) ordered)) else - 1);
          target = index + direction in
      if index \<le> 0 \<or> target \<le> 0 \<or> target \<ge> int (length ordered) then None
      else Some (map rl_id (ordered[nat index := ordered ! nat target, nat target := ordered ! nat index])))"

definition memberCounts :: "int list list \<Rightarrow> (int, nat) jmap" where  \<comment> \<open>the role identifiers of every member\<close>
  "memberCounts members = fold (\<lambda>i m. jset i ((case jget m i of None \<Rightarrow> 0 | Some n \<Rightarrow> n) + 1) m) (concat members) []"

definition withRole :: "int list \<Rightarrow> int \<Rightarrow> bool \<Rightarrow> int list" where
  "withRole roleIDs roleID present =
     sort (remdups (if present then roleIDs @ [roleID] else filter (\<lambda>i. i \<noteq> roleID) roleIDs))"

section \<open>Search in the capabilities\<close>

definition lower :: "char \<Rightarrow> char" where  \<comment> \<open>\<^verbatim>\<open>toLowerCase\<close> below 256\<close>
  "lower c = (let n = of_char c :: nat in if (65 \<le> n \<and> n \<le> 90) \<or> (192 \<le> n \<and> n \<le> 222 \<and> n \<noteq> 215) then char_of (n + 32) else c)"

definition capabilityLabel :: "capability \<Rightarrow> string \<Rightarrow> string" where
  "capabilityLabel info language =
     (let t = (if language = ''en'' then cp_en info else if language = ''de'' then cp_de info else []) in
      if t \<noteq> [] then t else if cp_en info \<noteq> [] then cp_en info else cp_key info)"

definition shown :: "string \<Rightarrow> string \<Rightarrow> bool \<Rightarrow> capability \<Rightarrow> bool" where
  "shown needle language channelOnly info \<longleftrightarrow> \<not> (channelOnly \<and> \<not> cp_channel info)
     \<and> \<not> (needle \<noteq> [] \<and> \<not> text_includes (map lower (capabilityLabel info language)) needle \<and> \<not> text_includes (cp_key info) needle
       \<and> \<not> text_includes (map lower (cp_en info)) needle)"

definition groupCapabilities :: "capability list \<Rightarrow> string \<Rightarrow> string \<Rightarrow> bool \<Rightarrow> (string, capability list) jmap" where
  "groupCapabilities cs query language channelOnly =
     (let needle = map lower (trim query) in
      fold (\<lambda>info m. if shown needle language channelOnly info
        then jset (cp_group info) ((case jget m (cp_group info) of None \<Rightarrow> [] | Some xs \<Rightarrow> xs) @ [info]) m else m) cs [])"

section \<open>Overrides are a finite map\<close>

text \<open>What a list of overrides means. A subject is a role or a user, never both.\<close>

definition effect_map :: "override list \<Rightarrow> subject \<times> string \<Rightarrow> string" where
  "effect_map vs = (\<lambda>(s, c). effectOf vs s c)"

definition one_subject :: "subject \<Rightarrow> bool" where
  "one_subject s \<longleftrightarrow> sb_role s = 0 \<or> sb_user s = 0"

lemma find_filter: "List.find P (filter Q xs) = List.find (\<lambda>x. Q x \<and> P x) xs"
  by (induction xs) auto

lemma find_append: "List.find P (xs @ ys) = (case List.find P xs of None \<Rightarrow> List.find P ys | Some x \<Rightarrow> Some x)"
  by (induction xs) auto

lemma find_cong_simp: "(\<And>x. P x = Q x) \<Longrightarrow> List.find P xs = List.find Q xs"
  by (metis ext)

lemma effectOf_setOverride:
  assumes "setOverride vs s c e = Some ws" "one_subject s"
  shows "effectOf ws s' c' = (if s' = s \<and> c' = c then e else effectOf vs s' c')"
proof -
  let ?v = "if sb_user s \<noteq> 0 then \<lparr>ov_role = 0, ov_user = sb_user s, ov_capability = c, ov_effect = e\<rparr>
      else \<lparr>ov_role = sb_role s, ov_user = 0, ov_capability = c, ov_effect = e\<rparr>"
  have e: "e \<in> set EFFECTS" and ws: "ws = filter (\<lambda>v. \<not> matches v s c) vs @ (if e = ''inherit'' then [] else [?v])"
    using assms(1) by (auto simp: setOverride_def Let_def split: if_splits)
  have m: "matches ?v s' c' \<longleftrightarrow> s' = s \<and> c' = c"
    using assms(2) by (cases s; cases s') (auto simp: matches_def one_subject_def)
  have ne: "e \<noteq> []" using e by (auto simp: EFFECTS_def)
  show ?thesis
  proof (cases "s' = s \<and> c' = c")
    case True
    then have "List.find (\<lambda>v. matches v s' c') (filter (\<lambda>v. \<not> matches v s c) vs) = None"
      by (auto simp: find_None_iff)
    then show ?thesis using True m ne by (auto simp: effectOf_def ws find_append)
  next
    case False
    have "(\<not> matches x s c \<and> matches x s' c') = matches x s' c'" for x
      using False by (cases s; cases s') (auto simp: matches_def)
    then have "List.find (\<lambda>v. matches v s' c') (filter (\<lambda>v. \<not> matches v s c) vs) = List.find (\<lambda>v. matches v s' c') vs"
      unfolding find_filter by (intro find_cong_simp) auto
    then show ?thesis using False m by (auto simp: effectOf_def ws find_append split: option.split)
  qed
qed

lemma effect_map_setOverride:
  "setOverride vs s c e = Some ws \<Longrightarrow> one_subject s \<Longrightarrow> effect_map ws = (effect_map vs)((s, c) := e)"
  by (auto simp: effect_map_def fun_eq_iff effectOf_setOverride)



section \<open>The requirements\<close>

definition needs :: "capability list \<Rightarrow> (string \<times> string) set" where
  "needs cs = {(a, b). b \<in> set (requires cs a)}"

lemma require_all_props:
  "set seen \<subseteq> set (require_all cs rs seen) \<and> set rs \<subseteq> set (require_all cs rs seen)
   \<and> (\<forall>x \<in> set (require_all cs rs seen) - set seen. set (requires cs x) \<subseteq> set (require_all cs rs seen))
   \<and> (\<forall>x \<in> set (require_all cs rs seen) - set seen. \<exists>r \<in> set rs. (r, x) \<in> (needs cs)\<^sup>*)
   \<and> (distinct seen \<longrightarrow> distinct (require_all cs rs seen))"
proof (induction cs rs seen rule: require_all.induct)
  case (2 cs r rs seen)
  show ?case
  proof (cases "r \<in> set seen")
    case True
    then show ?thesis using 2(1) [OF True] by (auto simp: subset_iff)
  next
    case False
    let ?m = "require_all cs (requires cs r) (seen @ [r])"
    let ?f = "require_all cs rs ?m"
    note A = 2(2) [OF False]
    note B = 2(3) [OF False]
    have eq: "require_all cs (r # rs) seen = ?f" using False by simp
    have sub: "set seen \<subseteq> set ?m" "r \<in> set ?m" "set ?m \<subseteq> set ?f" "set rs \<subseteq> set ?f" "set (requires cs r) \<subseteq> set ?m" using A B by auto
    have closed: "set (requires cs x) \<subseteq> set ?f" if "x \<in> set ?f - set seen" for x
    proof -
      have "\<forall>x \<in> set ?m - set (seen @ [r]). set (requires cs x) \<subseteq> set ?m" using A by blast
      moreover have "\<forall>x \<in> set ?f - set ?m. set (requires cs x) \<subseteq> set ?f" using B by blast
      moreover have "x \<in> set ?f - set ?m \<or> x = r \<or> x \<in> set ?m - set (seen @ [r])" using that by auto
      ultimately show ?thesis using sub by blast
    qed
    have reach: "\<exists>q \<in> set (r # rs). (q, x) \<in> (needs cs)\<^sup>*" if "x \<in> set ?f - set seen" for x
    proof (cases "x \<in> set ?m")
      case True
      show ?thesis
      proof (cases "x = r")
        case False
        then have "x \<in> set ?m - set (seen @ [r])" using True that by simp
        then obtain q where "q \<in> set (requires cs r)" "(q, x) \<in> (needs cs)\<^sup>*" using A by blast
        then have "(r, x) \<in> (needs cs)\<^sup>*" by (intro converse_rtrancl_into_rtrancl [of r q]) (simp_all add: needs_def)
        then show ?thesis by simp
      qed simp
    next
      case False
      then have "\<exists>q \<in> set rs. (q, x) \<in> (needs cs)\<^sup>*" using B that by blast
      then show ?thesis by simp
    qed
    have "distinct seen \<longrightarrow> distinct ?f" using A B False by simp
    then show ?thesis unfolding eq using sub closed reach by auto
  qed
qed simp

lemma requirements_are_needs: "set (requirements cs k) = {r. (k, r) \<in> (needs cs)\<^sup>+}"
proof
  have "(k, x) \<in> (needs cs)\<^sup>+" if "x \<in> set (requirements cs k)" for x
  proof -
    have "\<exists>r \<in> set (requires cs k). (r, x) \<in> (needs cs)\<^sup>*"
      using that require_all_props [of "[]" cs "requires cs k"] by (simp add: requirements_def)
    then show ?thesis by (auto simp: needs_def intro: rtrancl_into_trancl2)
  qed
  then show "set (requirements cs k) \<subseteq> {r. (k, r) \<in> (needs cs)\<^sup>+}" by blast
  have closed: "set (requires cs k) \<subseteq> set (requirements cs k)"
    "\<And>x. x \<in> set (requirements cs k) \<Longrightarrow> set (requires cs x) \<subseteq> set (requirements cs k)"
    using require_all_props [of "[]" cs "requires cs k"] by (auto simp: requirements_def)
  have "x \<in> set (requirements cs k)" if "(k, x) \<in> (needs cs)\<^sup>+" for x
    using that by induction (use closed in \<open>auto simp: needs_def\<close>)
  then show "{r. (k, r) \<in> (needs cs)\<^sup>+} \<subseteq> set (requirements cs k)" by blast
qed

lemma requirements_distinct: "distinct (requirements cs k)"
  using require_all_props [of "[]" cs "requires cs k"] by (simp add: requirements_def)

section \<open>What a role may do\<close>

lemma roleAllowed_fewer:
  "roleAllowed st vs r c seen \<Longrightarrow> set seen' \<subseteq> set seen \<Longrightarrow> roleAllowed st vs r c seen'"
proof (induction st vs r c seen arbitrary: seen' rule: roleAllowed.induct)
  case (1 st vs r c seen)
  from 1(2) obtain info where info: "c \<notin> set seen" "List.find (\<lambda>x. cp_key x = c) (pl_capabilities st) = Some info"
    by (subst (asm) roleAllowed.simps) (auto split: if_splits option.splits)
  show ?case
  proof (cases "''administrator'' \<in> set (rl_permissions r)")
    case True
    then show ?thesis using info 1(3) by (subst roleAllowed.simps) auto
  next
    case False
    then have a: "base_allowed st vs r c" "\<forall>k \<in> set (cp_requires info). roleAllowed st vs r k (seen @ [c])"
      using 1(2) info by (subst (asm) (1) roleAllowed.simps, simp add: list_all_iff)+
    have "roleAllowed st vs r k (seen' @ [c])" if "k \<in> set (cp_requires info)" for k
      by (rule 1(1) [OF info False that]) (use a that 1(3) in auto)
    then show ?thesis using info a(1) 1(3) False by (subst roleAllowed.simps) (auto simp: list_all_iff)
  qed
qed

lemma roleAllowed_requires:
  assumes "roleAllowed st vs r c []" "''administrator'' \<notin> set (rl_permissions r)" "k \<in> set (requires (pl_capabilities st) c)"
  shows "roleAllowed st vs r k []"
proof -
  have "roleAllowed st vs r k [c]"
    using assms by (subst (asm) roleAllowed.simps) (auto simp: requires_def list_all_iff split: option.splits)
  then show ?thesis by (rule roleAllowed_fewer) simp
qed

lemma roleAllowed_not_denied:
  assumes "roleAllowed st vs r c []" "''administrator'' \<notin> set (rl_permissions r)"
  shows "effectOf vs (role_subject (rl_id r)) c \<noteq> ''deny''"
proof -
  have "base_allowed st vs r c"
    using assms by (subst (asm) roleAllowed.simps) (auto split: option.splits)
  then show ?thesis by (auto simp: base_allowed_def apply_effects_def Let_def split: if_splits)
qed

section \<open>Roles and drafts\<close>

lemma role_json_ok: "json_ok (role_json r)"
  by (simp add: role_json_def list_all_iff)

lemma role_json_inject: "role_json a = role_json b \<Longrightarrow> a = b"
  by (cases a; cases b) (auto simp: role_json_def map_injective inj_def)

text \<open>A role is dirty when something but the order of its permissions differs.\<close>

lemma roleDirty_iff: "roleDirty saved d \<longleftrightarrow> roleDraft saved \<noteq> roleDraft d"
proof -
  have "roleDraft saved = roleDraft d" if "stringify (role_json (roleDraft saved)) = stringify (role_json (roleDraft d))"
  proof (rule role_json_inject)
    have "Some (role_json (roleDraft saved)) = json_parse (stringify (role_json (roleDraft d)))"
      unfolding that [symmetric] unfolding stringify_def by (rule json_parse_text [OF role_json_ok, symmetric])
    also have "\<dots> = Some (role_json (roleDraft d))" unfolding stringify_def by (rule json_parse_text [OF role_json_ok])
    finally show "role_json (roleDraft saved) = role_json (roleDraft d)" by (rule option.inject [THEN iffD1])
  qed
  then show ?thesis unfolding roleDirty_def by metis
qed

lemma takeWhile_shorter: "x \<in> set xs \<Longrightarrow> \<not> P x \<Longrightarrow> length (takeWhile P xs) < length xs"
  by (induction xs) auto

text \<open>Moving a role keeps the roles and leaves the first one, everyone, in its place.\<close>

lemma reordered_roles:
  assumes "reorderedRoles rs i d = Some ids"
  shows "mset ids = mset (map rl_id rs) \<and> hd ids = rl_id (hd (sort_key rl_position rs))"
proof -
  define ordered where "ordered = sort_key rl_position rs"
  obtain a b where ab: "ids = map rl_id (ordered[a := ordered ! b, b := ordered ! a])" "0 < a" "0 < b" "a < length ordered" "b < length ordered"
  proof -
    let ?a = "int (length (takeWhile (\<lambda>r. rl_id r \<noteq> i) ordered))"
    have i: "i \<in> set (map rl_id ordered)" and t: "0 < ?a" "0 < ?a + d" "?a + d < int (length ordered)"
      and ids: "ids = map rl_id (ordered[nat ?a := ordered ! nat (?a + d), nat (?a + d) := ordered ! nat ?a])"
      using assms by (auto simp: reorderedRoles_def Let_def ordered_def [symmetric] split: if_splits)
    obtain x where "x \<in> set ordered" "rl_id x = i" using i by auto
    then have "length (takeWhile (\<lambda>r. rl_id r \<noteq> i) ordered) < length ordered"
      using takeWhile_shorter [of x ordered "\<lambda>r. rl_id r \<noteq> i"] by simp
    then show ?thesis using that [OF ids] t by simp
  qed
  have "mset (ordered[a := ordered ! b, b := ordered ! a]) = mset ordered" using mset_swap [OF ab(5,4)] by (simp add: list_update_swap)
  then have "mset ids = image_mset rl_id (mset ordered)" by (simp add: ab(1))
  moreover have "hd ids = rl_id (hd ordered)" using ab by (cases ordered; cases a; cases b) simp_all
  ultimately show ?thesis by (simp add: ordered_def)
qed

lemma with_role: "set (withRole ids i present) = (if present then insert i (set ids) else set ids - {i}) \<and> sorted (withRole ids i present)
    \<and> distinct (withRole ids i present)"
  by (auto simp: withRole_def)

lemma template_grantable: "set (roleTemplate t grantable) \<subseteq> set grantable"
  by (auto simp: roleTemplate_def)

section \<open>Sample policy\<close>

definition sample_capability :: "string \<Rightarrow> string list \<Rightarrow> capability" where
  "sample_capability k ks = \<lparr>cp_key = k, cp_requires = ks, cp_group = ''voice'', cp_channel = True, cp_en = k, cp_de = k\<rparr>"

definition sample_capabilities :: "capability list" where
  "sample_capabilities = [sample_capability ''view_channel'' [], sample_capability ''connect'' [''view_channel''],
     sample_capability ''speak'' [''connect''], sample_capability ''share_screen'' [''speak'']]"

definition sample_role :: role where
  "sample_role = \<lparr>rl_id = 5, rl_name = ''team'', rl_position = 1, rl_color = [], rl_icon = [], rl_hoist = False, rl_mentionable = False,
     rl_protected = False, rl_permissions = [''view_channel'', ''connect'', ''speak'']\<rparr>"

definition sample_policy :: policy where
  "sample_policy = \<lparr>pl_everyone = 1, pl_roles = [sample_role], pl_capabilities = sample_capabilities\<rparr>"


section \<open>Theorems\<close>



text \<open>Property C30: what a role is shown as allowed to do is closed under requirements: a role
  without administration that is allowed a capability is allowed every capability it requires,
  directly or through others, and none of them is denied to the role.\<close>

theorem allowed_role_has_requirements:
  assumes "roleAllowed st vs r c []" "''administrator'' \<notin> set (rl_permissions r)" "k \<in> set (requirements (pl_capabilities st) c)"
  shows "roleAllowed st vs r k [] \<and> effectOf vs (role_subject (rl_id r)) k \<noteq> ''deny''"
proof -
  have "(c, k) \<in> (needs (pl_capabilities st))\<^sup>+" using assms(3) by (simp add: requirements_are_needs)
  then have "roleAllowed st vs r k []"
    using assms(1) by induction (auto simp: needs_def intro: roleAllowed_requires [OF _ assms(2)])
  then show ?thesis using roleAllowed_not_denied assms(2) by blast
qed

theorem allowed_role_has_requirements_witness:
  "roleAllowed sample_policy [] sample_role ''view_channel'' []"
proof -
  have "roleAllowed sample_policy [] sample_role ''speak'' []"
    "''administrator'' \<notin> set (rl_permissions sample_role)"
    "''view_channel'' \<in> set (requirements (pl_capabilities sample_policy) ''speak'')" by code_simp+
  from allowed_role_has_requirements [OF this] show ?thesis by simp
qed

end
