(* ===== verification/Upload_Queue.thy ===== *)
theory Upload_Queue
  imports Js_Json
begin

text \<open>
  The upload queue of a tab (mobile/src/core/upload-queue.js) as a machine: its state, one
  definition per function, and the events that may come in any order. An item is an object that
  the code keeps on using after it left the list (the running upload may have been dismissed), so
  the state has all items by number and the list of the numbers that are shown. The transfer
  itself (\<^verbatim>\<open>uploadStream\<close>, \<^verbatim>\<open>sealAttachment\<close>) runs between \<open>pump_uploads\<close> and \<open>finish\<close>; what it reports comes
  with the event. Listeners are only notified and are left out.
\<close>

section \<open>State\<close>

datatype upload_status = Queued | Active | Done | Failed | Canceled

text \<open>The promise \<^verbatim>\<open>item.done\<close>.\<close>

datatype promise = Pending | Resolved | Rejected

record target =
  tg_channel :: int
  tg_folder :: string
  tg_sealed :: bool
  tg_name :: string

record item =
  it_owner :: string
  it_target :: target
  it_name :: string
  it_size :: nat
  it_total :: nat
  it_sent :: nat
  it_status :: upload_status
  it_error :: string
  it_result :: "string option"
  it_controller :: "bool option"  \<comment> \<open>the abort controller, and whether it was aborted\<close>
  it_settled :: bool
  it_done :: promise

record queue =
  q_sequence :: nat
  q_items :: "(nat, item) jmap"
  q_listed :: "nat list"
  q_running :: "nat option"
  q_refused :: "string option"  \<comment> \<open>the error with which the running transfer began\<close>
  q_owner :: string
  q_open :: bool

definition empty_queue :: queue where
  "empty_queue = \<lparr>q_sequence = 0, q_items = [], q_listed = [], q_running = None, q_refused = None, q_owner = [], q_open = False\<rparr>"

definition change :: "nat \<Rightarrow> (item \<Rightarrow> item) \<Rightarrow> queue \<Rightarrow> queue" where
  "change i f q = q\<lparr>q_items := jupd i f (q_items q)\<rparr>"

definition status_of :: "queue \<Rightarrow> nat \<Rightarrow> upload_status option" where
  "status_of q i = map_option it_status (jget (q_items q) i)"

definition find_item :: "queue \<Rightarrow> nat \<Rightarrow> item option" where  \<comment> \<open>\<^verbatim>\<open>items.find(entry => entry.id === id)\<close>\<close>
  "find_item q i = (if i \<in> set (q_listed q) then jget (q_items q) i else None)"

section \<open>Operations\<close>

text \<open>\<^verbatim>\<open>settle\<close> and the functions it gives the item.\<close>

definition settle_item :: "item \<Rightarrow> item" where
  "settle_item x = x\<lparr>it_settled := False, it_done := Pending\<rparr>"

definition resolve :: "item \<Rightarrow> item" where
  "resolve x = x\<lparr>it_settled := True, it_done := (if it_done x = Pending then Resolved else it_done x)\<rparr>"

definition reject :: "item \<Rightarrow> item" where
  "reject x = x\<lparr>it_settled := True, it_done := (if it_done x = Pending then Rejected else it_done x)\<rparr>"

definition abort :: "item \<Rightarrow> item" where  \<comment> \<open>\<^verbatim>\<open>item.controller?.abort()\<close>\<close>
  "abort x = x\<lparr>it_controller := map_option (\<lambda>_. True) (it_controller x)\<rparr>"

text \<open>The checks with which \<^verbatim>\<open>transfer\<close> begins; None when the upload goes on.\<close>

definition MAX_ATTACHMENT_BYTES :: nat where "MAX_ATTACHMENT_BYTES = 25 * 1024 * 1024"

definition transfer_refused :: "queue \<Rightarrow> item \<Rightarrow> string option" where
  "transfer_refused q x =
     (if q_owner q \<noteq> it_owner x then Some ''the account changed; this upload was discarded''
      else if \<not> q_open q then Some ''not connected''
      else if tg_sealed (it_target x) \<and> it_size x > MAX_ATTACHMENT_BYTES then Some ''attachment exceeds 25 MiB''
      else None)"

definition start_item :: "item \<Rightarrow> item" where
  "start_item x = x\<lparr>it_status := Active, it_sent := 0, it_error := [], it_controller := Some False\<rparr>"

text \<open>\<^verbatim>\<open>pump\<close> up to its \<^verbatim>\<open>await\<close>.\<close>

definition pump_uploads :: "queue \<Rightarrow> queue" where
  "pump_uploads q =
     (if q_running q \<noteq> None then q
      else case List.find (\<lambda>i. status_of q i = Some Queued) (q_listed q) of
          None \<Rightarrow> q
        | Some i \<Rightarrow> (case jget (q_items q) i of
            None \<Rightarrow> q
          | Some x \<Rightarrow> change i start_item (q\<lparr>q_running := Some i, q_refused := transfer_refused q x\<rparr>)))"

text \<open>\<^verbatim>\<open>enqueueUpload\<close>: a file is its name and its size; without one the call throws.\<close>

definition add_upload :: "string \<Rightarrow> nat \<Rightarrow> target \<Rightarrow> queue \<Rightarrow> queue" where
  "add_upload file_name bytes t q =
     (let n = Suc (q_sequence q);
          name = (if tg_name t \<noteq> [] then tg_name t else if file_name \<noteq> [] then file_name else ''file'');
          x = \<lparr>it_owner = q_owner q, it_target = t\<lparr>tg_name := name\<rparr>, it_name = name, it_size = bytes, it_total = bytes, it_sent = 0,
               it_status = Queued, it_error = [], it_result = None, it_controller = None, it_settled = False, it_done = Pending\<rparr> in
      pump_uploads (q\<lparr>q_sequence := n, q_items := jset n x (q_items q), q_listed := q_listed q @ [n]\<rparr>))"

definition enqueueUpload :: "(string \<times> nat) option \<Rightarrow> target \<Rightarrow> queue \<Rightarrow> queue option" where
  "enqueueUpload file t q = map_option (\<lambda>(file_name, bytes). add_upload file_name bytes t q) file"

text \<open>The rest of \<^verbatim>\<open>pump\<close> once the transfer ends: its result, or the message of its error.\<close>

definition finish_item :: "string + string \<Rightarrow> item \<Rightarrow> item" where
  "finish_item outcome x =
     (case outcome of
        Inr result \<Rightarrow> resolve (x\<lparr>it_result := Some result, it_status := Done, it_sent := it_total x\<rparr>)
      | Inl message \<Rightarrow>
          if it_status x = Active then
            (if it_controller x = Some True then x\<lparr>it_status := Canceled, it_error := []\<rparr> else x\<lparr>it_status := Failed, it_error := message\<rparr>)
          else x)\<lparr>it_controller := None\<rparr>"

definition finish :: "string + string \<Rightarrow> queue \<Rightarrow> queue" where
  "finish outcome q =
     (case q_running q of
        None \<Rightarrow> q
      | Some i \<Rightarrow> pump_uploads ((change i (finish_item (case q_refused q of Some m \<Rightarrow> Inl m | None \<Rightarrow> outcome)) q)\<lparr>q_running := None, q_refused := None\<rparr>))"

definition progress :: "nat \<Rightarrow> queue \<Rightarrow> queue" where  \<comment> \<open>\<^verbatim>\<open>onProgress\<close>\<close>
  "progress sent q = (case q_running q of None \<Rightarrow> q | Some i \<Rightarrow> change i (\<lambda>x. x\<lparr>it_sent := sent\<rparr>) q)"

definition sealed_total :: "nat \<Rightarrow> queue \<Rightarrow> queue" where  \<comment> \<open>\<^verbatim>\<open>item.total = blob.length\<close>\<close>
  "sealed_total blob q =
     (case q_running q of
        None \<Rightarrow> q
      | Some i \<Rightarrow> change i (\<lambda>x. if tg_sealed (it_target x) then x\<lparr>it_total := blob\<rparr> else x) q)"

definition cancelUpload :: "nat \<Rightarrow> queue \<Rightarrow> queue" where
  "cancelUpload i q =
     (case find_item q i of
        None \<Rightarrow> q
      | Some x \<Rightarrow> if it_status x \<noteq> Queued \<and> it_status x \<noteq> Active then q
          else change i (\<lambda>x. reject (abort (x\<lparr>it_status := Canceled\<rparr>))) q)"

definition retryUpload :: "nat \<Rightarrow> queue \<Rightarrow> queue" where
  "retryUpload i q =
     (case find_item q i of
        None \<Rightarrow> q
      | Some x \<Rightarrow> if it_status x \<noteq> Failed \<and> it_status x \<noteq> Canceled then q
          else pump_uploads (change i (\<lambda>x. let y = x\<lparr>it_status := Queued, it_sent := 0, it_error := []\<rparr> in if it_settled y then settle_item y else y) q))"

definition dismiss_item :: "item \<Rightarrow> item" where
  "dismiss_item x =
     (let y = (if it_status x = Queued \<or> it_status x = Active then abort (x\<lparr>it_status := Canceled\<rparr>) else x) in
      if it_settled y then y else reject y)"

definition dismissUpload :: "nat \<Rightarrow> queue \<Rightarrow> queue" where
  "dismissUpload i q = (if i \<in> set (q_listed q) then change i dismiss_item (q\<lparr>q_listed := remove1 i (q_listed q)\<rparr>) else q)"

definition clearFinished :: "queue \<Rightarrow> queue" where
  "clearFinished q = fold dismissUpload (filter (\<lambda>i. status_of q i = Some Done) (q_listed q)) q"

definition discardUploads :: "queue \<Rightarrow> queue" where
  "discardUploads q = fold dismissUpload (q_listed q) q"

definition pendingUploads :: "queue \<Rightarrow> nat list" where
  "pendingUploads q = filter (\<lambda>i. status_of q i = Some Queued \<or> status_of q i = Some Active) (q_listed q)"

section \<open>Runs\<close>

text \<open>The connection and the account change from outside.\<close>

inductive upload_step :: "queue \<Rightarrow> queue \<Rightarrow> bool" where
  "enqueueUpload file t q = Some q' \<Longrightarrow> upload_step q q'"
| "upload_step q (cancelUpload i q)"
| "upload_step q (retryUpload i q)"
| "upload_step q (dismissUpload i q)"
| "upload_step q (clearFinished q)"
| "upload_step q (discardUploads q)"
| "upload_step q (progress sent q)"
| "upload_step q (sealed_total blob q)"
| "upload_step q (finish outcome q)"
| "upload_step q (q\<lparr>q_owner := account, q_open := connected\<rparr>)"

inductive_cases upload_stepE: "upload_step q q'"

definition upload_reached :: "queue \<Rightarrow> bool" where
  "upload_reached = upload_step\<^sup>*\<^sup>* empty_queue"

section \<open>The invariant\<close>

text \<open>What the caller that awaits an item has been told, by the status of the item and whether it
  is still in the list: a failed item can be retried, so its caller waits until it is dismissed; a
  done one has been told success, or before it that the item was cancelled.\<close>

fun promise_ok :: "bool \<Rightarrow> upload_status \<Rightarrow> promise \<Rightarrow> bool" where
  "promise_ok listed Queued d \<longleftrightarrow> listed \<and> d = Pending"
| "promise_ok listed Active d \<longleftrightarrow> listed \<and> d = Pending"
| "promise_ok listed Failed d \<longleftrightarrow> d = (if listed then Pending else Rejected)"
| "promise_ok listed Canceled d \<longleftrightarrow> d = Rejected"
| "promise_ok listed Done d \<longleftrightarrow> d \<noteq> Pending"

text \<open>An active item is the running one and was not aborted; the promise of an item is settled as its flag says
  and as its status requires; only the running item has a controller.\<close>

definition item_ok :: "nat option \<Rightarrow> nat set \<Rightarrow> nat \<Rightarrow> item \<Rightarrow> bool" where
  "item_ok run listed i x \<longleftrightarrow> (it_status x = Active \<longrightarrow> run = Some i \<and> it_controller x = Some False)
     \<and> (it_settled x \<longleftrightarrow> it_done x \<noteq> Pending)
     \<and> promise_ok (i \<in> listed) (it_status x) (it_done x)
     \<and> (it_controller x \<noteq> None \<longrightarrow> run = Some i)"

definition core_ok :: "queue \<Rightarrow> bool" where
  "core_ok q \<longleftrightarrow> distinct (q_listed q) \<and> (\<forall>i \<in> set (q_listed q). jhas (q_items q) i)
     \<and> (\<forall>i. jhas (q_items q) i \<longrightarrow> i \<le> q_sequence q)
     \<and> (\<forall>i x. jget (q_items q) i = Some x \<longrightarrow> item_ok (q_running q) (set (q_listed q)) i x)
     \<and> (\<forall>i. q_running q = Some i \<longrightarrow> jhas (q_items q) i)"

definition busy :: "queue \<Rightarrow> bool" where
  "busy q \<longleftrightarrow> (q_running q = None \<longrightarrow> (\<forall>i \<in> set (q_listed q). status_of q i \<noteq> Some Queued))"

definition queue_ok :: "queue \<Rightarrow> bool" where
  "queue_ok q \<longleftrightarrow> core_ok q \<and> busy q"

lemma core_item: "core_ok q \<Longrightarrow> jget (q_items q) i = Some x \<Longrightarrow> item_ok (q_running q) (set (q_listed q)) i x"
  by (simp add: core_ok_def)

lemma core_rest:
  assumes "core_ok q"
  shows "distinct (q_listed q)" "i \<in> set (q_listed q) \<Longrightarrow> jhas (q_items q) i" "jhas (q_items q) i \<Longrightarrow> i \<le> q_sequence q"
    "q_running q = Some i \<Longrightarrow> jhas (q_items q) i"
  using assms by (simp_all add: core_ok_def)

lemma coreI:
  assumes "distinct (q_listed q)" "\<And>i. i \<in> set (q_listed q) \<Longrightarrow> jhas (q_items q) i" "\<And>i. jhas (q_items q) i \<Longrightarrow> i \<le> q_sequence q"
    "\<And>i x. jget (q_items q) i = Some x \<Longrightarrow> item_ok (q_running q) (set (q_listed q)) i x" "\<And>i. q_running q = Some i \<Longrightarrow> jhas (q_items q) i"
  shows "core_ok q"
  using assms by (simp add: core_ok_def)

lemma item_promise:
  assumes "item_ok run listed i x"
  shows "(it_status x \<in> {Queued, Active} \<longrightarrow> it_done x = Pending \<and> i \<in> listed)
    \<and> (it_status x = Active \<longrightarrow> it_controller x = Some False)
    \<and> (it_status x = Failed \<longrightarrow> it_done x = (if i \<in> listed then Pending else Rejected))
    \<and> (it_status x = Canceled \<longrightarrow> it_done x = Rejected)
    \<and> (it_status x = Done \<longrightarrow> it_done x \<noteq> Pending)
    \<and> (it_done x = Resolved \<longrightarrow> it_status x = Done)"
  using assms by (cases "it_status x") (auto simp: item_ok_def)

text \<open>An item that is not concerned stays in order when the running item or the list changes.\<close>

lemma item_ok_idle: "item_ok None listed i x \<Longrightarrow> item_ok run listed i x"
  by (auto simp: item_ok_def)

lemma item_ok_other: "item_ok (Some j) listed i x \<Longrightarrow> j \<noteq> i \<Longrightarrow> item_ok None listed i x"
  by (auto simp: item_ok_def)

lemma item_ok_listed: "item_ok run listed i x \<Longrightarrow> (i \<in> listed \<longleftrightarrow> i \<in> listed') \<Longrightarrow> item_ok run listed' i x"
  by (simp add: item_ok_def)

lemma core_change:
  assumes "core_ok q" "\<And>x. jget (q_items q) i = Some x \<Longrightarrow> item_ok (q_running q) (set (q_listed q)) i (f x)"
  shows "core_ok (change i f q)"
proof (rule coreI)
  fix j x assume "jget (q_items (change i f q)) j = Some x"
  then show "item_ok (q_running (change i f q)) (set (q_listed (change i f q))) j x"
    using core_item [OF assms(1)] assms(2) by (cases "j = i") (auto simp: change_def)
qed (use core_rest [OF assms(1)] in \<open>auto simp: change_def\<close>)

lemma busy_change:
  assumes "busy q" "\<And>x. jget (q_items q) i = Some x \<Longrightarrow> it_status (f x) = Queued \<Longrightarrow> it_status x = Queued"
  shows "busy (change i f q)"
  unfolding busy_def
proof (intro impI ballI)
  fix j assume "q_running (change i f q) = None" "j \<in> set (q_listed (change i f q))"
  then have "status_of q j \<noteq> Some Queued" using assms(1) by (simp add: busy_def change_def)
  then show "status_of (change i f q) j \<noteq> Some Queued"
    using assms(2) by (cases "jget (q_items q) j"; cases "j = i") (auto simp: status_of_def change_def)
qed

lemma pump_ok:
  assumes "core_ok q"
  shows "queue_ok (pump_uploads q)"
proof (cases "q_running q = None \<and> (\<exists>i \<in> set (q_listed q). status_of q i = Some Queued)")
  case True
  then obtain i where i: "List.find (\<lambda>i. status_of q i = Some Queued) (q_listed q) = Some i"
    by (cases "List.find (\<lambda>i. status_of q i = Some Queued) (q_listed q)") (auto simp: find_None_iff)
  then have l: "i \<in> set (q_listed q)" "status_of q i = Some Queued" by (auto simp: find_Some_iff)
  then obtain x where x: "jget (q_items q) i = Some x" "it_status x = Queued" by (auto simp: status_of_def)
  let ?q = "q\<lparr>q_running := Some i, q_refused := transfer_refused q x\<rparr>"
  have p: "pump_uploads q = change i start_item ?q" using True i x by (simp add: pump_uploads_def)
  have "core_ok ?q"
    by (rule coreI) (use core_rest [OF assms] core_item [OF assms] True x in \<open>auto simp: jhas_def intro: item_ok_idle\<close>)
  moreover have "item_ok (Some i) (set (q_listed q)) i (start_item x)"
    using core_item [OF assms x(1)] x(2) l(1) by (simp add: item_ok_def start_item_def)
  ultimately have "core_ok (change i start_item ?q)" using x by (intro core_change) simp_all
  then show ?thesis unfolding p by (simp add: queue_ok_def busy_def change_def)
next
  case False
  then have "q_running q = None \<longrightarrow> List.find (\<lambda>i. status_of q i = Some Queued) (q_listed q) = None" by (auto simp: find_None_iff)
  then have "pump_uploads q = q" "busy q" using False by (auto simp: pump_uploads_def busy_def)
  then show ?thesis using assms by (simp add: queue_ok_def)
qed

lemma add_ok:
  assumes "queue_ok q"
  shows "queue_ok (add_upload name bytes t q)"
proof -
  have core: "core_ok q" using assms by (simp add: queue_ok_def)
  have new: "\<not> jhas (q_items q) (Suc (q_sequence q))" using core_rest(3) [OF core] by fastforce
  then have l: "Suc (q_sequence q) \<notin> set (q_listed q)" using core_rest(2) [OF core] by blast
  have "core_ok (q\<lparr>q_sequence := Suc (q_sequence q), q_items := jset (Suc (q_sequence q)) x (q_items q), q_listed := q_listed q @ [Suc (q_sequence q)]\<rparr>)"
    if x: "it_status x = Queued" "it_done x = Pending" "\<not> it_settled x" "it_controller x = None" for x
  proof (rule coreI, goal_cases)
    case (4 i y)
    then show ?case
      using item_ok_listed [OF core_item [OF core, of i y]] x by (cases "i = Suc (q_sequence q)") (auto simp: item_ok_def)
  qed (use core_rest [OF core] l in \<open>auto intro: le_SucI\<close>)
  then show ?thesis unfolding add_upload_def Let_def by (intro pump_ok) simp
qed

lemma enqueue_ok: "queue_ok q \<Longrightarrow> enqueueUpload file t q = Some q' \<Longrightarrow> queue_ok q'"
  by (auto simp: enqueueUpload_def add_ok)

lemma finish_item_ok:
  assumes "item_ok (Some i) listed i x"
  shows "item_ok None listed i (finish_item r x)"
  using assms by (cases r; cases "it_status x"; cases "it_done x") (simp_all add: item_ok_def finish_item_def resolve_def)

lemma finish_ok:
  assumes "queue_ok q"
  shows "queue_ok (finish outcome q)"
proof (cases "q_running q")
  case (Some i)
  have core: "core_ok q" using assms by (simp add: queue_ok_def)
  have "core_ok ((change i (finish_item r) q)\<lparr>q_running := None, q_refused := None\<rparr>)" for r
  proof (rule coreI, goal_cases)
    case (4 j y)
    then show ?case
      using core_item [OF core, of j] finish_item_ok [of i _ _ r] item_ok_other [of i] Some by (cases "j = i") (auto simp: change_def)
  qed (use core_rest [OF core] in \<open>auto simp: change_def\<close>)
  then show ?thesis using Some pump_ok by (simp add: finish_def)
qed (use assms in \<open>simp add: finish_def\<close>)

lemma cancel_ok:
  assumes "queue_ok q"
  shows "queue_ok (cancelUpload i q)"
proof -
  have core: "core_ok q" and b: "busy q" using assms by (simp_all add: queue_ok_def)
  have "item_ok (q_running q) (set (q_listed q)) i (reject (abort (x\<lparr>it_status := Canceled\<rparr>)))"
    if "jget (q_items q) i = Some x" "it_status x = Queued \<or> it_status x = Active" for x
    using core_item [OF core that(1)] that(2) by (auto simp: item_ok_def reject_def abort_def)
  then have "queue_ok (change i (\<lambda>x. reject (abort (x\<lparr>it_status := Canceled\<rparr>))) q)"
    if "jget (q_items q) i = Some x" "it_status x = Queued \<or> it_status x = Active" for x
    using that unfolding queue_ok_def by (intro conjI core_change [OF core] busy_change [OF b]) (simp_all add: reject_def abort_def)
  then show ?thesis using assms by (auto simp: cancelUpload_def find_item_def split: option.split)
qed

definition requeue :: "item \<Rightarrow> item" where
  "requeue x = (let y = x\<lparr>it_status := Queued, it_sent := 0, it_error := []\<rparr> in if it_settled y then settle_item y else y)"

lemma retry_ok:
  assumes "queue_ok q"
  shows "queue_ok (retryUpload i q)"
proof -
  have core: "core_ok q" using assms by (simp add: queue_ok_def)
  have "item_ok (q_running q) (set (q_listed q)) i (requeue x)" if "jget (q_items q) i = Some x" "i \<in> set (q_listed q)" for x
    using core_item [OF core that(1)] that(2) by (cases "it_done x") (simp_all add: item_ok_def requeue_def settle_item_def Let_def)
  then have "queue_ok (pump_uploads (change i requeue q))" if "i \<in> set (q_listed q)" using that by (intro pump_ok core_change [OF core]) simp
  then show ?thesis using assms by (simp add: retryUpload_def find_item_def requeue_def [abs_def] split: option.split)
qed

lemma dismiss_ok:
  assumes "queue_ok q"
  shows "queue_ok (dismissUpload i q)"
proof (cases "i \<in> set (q_listed q)")
  case True
  have core: "core_ok q" and b: "busy q" using assms by (simp_all add: queue_ok_def)
  have s: "set (remove1 i (q_listed q)) = set (q_listed q) - {i}" using core by (simp add: core_ok_def)
  let ?q = "change i dismiss_item (q\<lparr>q_listed := remove1 i (q_listed q)\<rparr>)"
  have d: "item_ok (q_running q) (set (q_listed q) - {i}) i (dismiss_item x)" if "jget (q_items q) i = Some x" for x
    using core_item [OF core that] by (cases "it_status x"; cases "it_done x") (simp_all add: item_ok_def dismiss_item_def abort_def reject_def Let_def split: if_splits)
  have "core_ok ?q"
  proof (rule coreI, goal_cases)
    case (4 j y)
    then show ?case using d item_ok_listed [OF core_item [OF core, of j y], of "set (q_listed q) - {i}"]
      by (cases "j = i") (auto simp: change_def s)
  qed (use core_rest [OF core] s in \<open>auto simp: change_def\<close>)
  moreover have "status_of ?q j = status_of q j" if "j \<noteq> i" for j using that by (simp add: status_of_def change_def)
  then have "busy ?q" using b s by (auto simp: busy_def change_def)
  ultimately show ?thesis using True by (simp add: queue_ok_def dismissUpload_def)
qed (use assms in \<open>simp add: dismissUpload_def\<close>)

lemma dismiss_all_ok: "queue_ok q \<Longrightarrow> queue_ok (fold dismissUpload ns q)"
  by (induction ns arbitrary: q) (simp_all add: dismiss_ok)

lemma counters_ok:
  assumes "queue_ok q" "\<And>x. it_status (f x) = it_status x" "\<And>x. it_settled (f x) = it_settled x" "\<And>x. it_done (f x) = it_done x"
    "\<And>x. it_controller (f x) = it_controller x"
  shows "queue_ok (change i f q)"
proof -
  have core: "core_ok q" and b: "busy q" using assms(1) by (simp_all add: queue_ok_def)
  show ?thesis unfolding queue_ok_def
    using core_item [OF core, of i] by (intro conjI core_change [OF core] busy_change [OF b]) (simp_all add: item_ok_def assms(2-5))
qed

lemma progress_ok: "queue_ok q \<Longrightarrow> queue_ok (progress sent q)"
  by (cases "q_running q") (simp_all add: progress_def counters_ok)

lemma sealed_total_ok: "queue_ok q \<Longrightarrow> queue_ok (sealed_total blob q)"
  by (cases "q_running q") (simp_all add: sealed_total_def counters_ok)

lemma outside_ok: "queue_ok q \<Longrightarrow> queue_ok (q\<lparr>q_owner := account, q_open := connected\<rparr>)"
  by (simp add: queue_ok_def core_ok_def busy_def status_of_def)

lemma upload_step_ok: "upload_step q q' \<Longrightarrow> queue_ok q \<Longrightarrow> queue_ok q'"
  by (erule upload_stepE) (simp_all add: enqueue_ok finish_ok cancel_ok retry_ok dismiss_ok progress_ok sealed_total_ok clearFinished_def discardUploads_def dismiss_all_ok outside_ok)

lemma upload_reached_ok: "upload_reached q \<Longrightarrow> queue_ok q"
  unfolding upload_reached_def
proof (induction rule: rtranclp_induct)
  case base
  show ?case by (simp add: queue_ok_def core_ok_def busy_def empty_queue_def jhas_def)
qed (rule upload_step_ok)

section \<open>Theorems\<close>

definition plain_target :: target where
  "plain_target = \<lparr>tg_channel = 4, tg_folder = [], tg_sealed = False, tg_name = ''a.txt''\<rparr>"

text \<open>Two uploads of a connected account: the first runs, is cancelled and put back in the queue.\<close>

definition sample_queue :: queue where
  "sample_queue = retryUpload 1 (cancelUpload 1 (add_upload ''b.txt'' 20 plain_target (add_upload ''a.txt'' 10 plain_target
     (empty_queue\<lparr>q_owner := ''alice'', q_open := True\<rparr>))))"

lemma step_add: "upload_step q (add_upload name bytes t q)"
  by (rule upload_step.intros(1) [of "Some (name, bytes)" t]) (simp add: enqueueUpload_def)

lemma sample_reached: "upload_reached sample_queue"
  unfolding upload_reached_def sample_queue_def
  by (rule rtranclp.rtrancl_into_rtrancl, rule rtranclp.rtrancl_into_rtrancl, rule rtranclp.rtrancl_into_rtrancl,
      rule rtranclp.rtrancl_into_rtrancl, rule rtranclp.rtrancl_into_rtrancl, rule rtranclp.rtrancl_refl) (rule step_add upload_step.intros(2-10))+

text \<open>Property C10: in every state that the functions of the queue, the transfers and changes of account
  and connection lead to, in any order, uploads run one at a time and none waits for nothing: two
  items are never both active, even when one was cancelled and put back, and when nothing runs no
  listed item is queued. What the caller that awaits an item was told fits its status: nothing yet while the
  item waits or runs (it is then in the list, and one that runs was not aborted) or failed and can be retried;
  that it was rejected when it is cancelled, or failed and was dismissed; success only when it is done,
  and a done item has been answered one way or the other.\<close>

theorem uploads_run_one_at_a_time:
  assumes "upload_reached q"
  shows "(status_of q i = Some Active \<longrightarrow> q_running q = Some i)
    \<and> (status_of q i = Some Active \<longrightarrow> status_of q j = Some Active \<longrightarrow> i = j)
    \<and> (q_running q = None \<longrightarrow> i \<in> set (q_listed q) \<longrightarrow> status_of q i \<noteq> Some Queued)
    \<and> (jget (q_items q) i = Some x \<longrightarrow>
         (it_status x \<in> {Queued, Active} \<longrightarrow> it_done x = Pending \<and> i \<in> set (q_listed q))
         \<and> (it_status x = Active \<longrightarrow> it_controller x = Some False)
         \<and> (it_status x = Failed \<longrightarrow> it_done x = (if i \<in> set (q_listed q) then Pending else Rejected))
         \<and> (it_status x = Canceled \<longrightarrow> it_done x = Rejected)
         \<and> (it_status x = Done \<longrightarrow> it_done x \<noteq> Pending)
         \<and> (it_done x = Resolved \<longrightarrow> it_status x = Done))"
proof -
  have ok: "core_ok q" "busy q" using upload_reached_ok [OF assms] by (simp_all add: queue_ok_def)
  have active: "q_running q = Some k" if "status_of q k = Some Active" for k
    using that core_item [OF ok(1), of k] by (auto simp: status_of_def item_ok_def)
  have "status_of q i = Some Active \<longrightarrow> q_running q = Some i" using active by blast
  moreover have "status_of q i = Some Active \<longrightarrow> status_of q j = Some Active \<longrightarrow> i = j" using active [of i] active [of j] by auto
  moreover have "q_running q = None \<longrightarrow> i \<in> set (q_listed q) \<longrightarrow> status_of q i \<noteq> Some Queued" using ok(2) by (simp add: busy_def)
  moreover note impI [OF item_promise [OF core_item [OF ok(1), of i x]], of "jget (q_items q) i = Some x"]
  ultimately show ?thesis by (intro conjI) assumption+
qed

theorem uploads_run_one_at_a_time_witness:
  "status_of sample_queue 1 = Some Queued \<and> (\<exists>x. jget (q_items sample_queue) 1 = Some x \<and> it_done x = Pending)"
proof -
  have s: "status_of sample_queue 1 = Some Queued" by code_simp
  then obtain x where x: "jget (q_items sample_queue) 1 = Some x" "it_status x = Queued" by (auto simp: status_of_def)
  have "it_status x \<in> {Queued, Active} \<longrightarrow> it_done x = Pending \<and> 1 \<in> set (q_listed sample_queue)"
    using uploads_run_one_at_a_time [OF sample_reached, of 1 1 x] x(1) by blast
  then show ?thesis using s x by blast
qed

text \<open>A cancelled upload can still be shown as done: when the transfer completes although it was
  cancelled, the item becomes done, while the caller that awaits it was told that it was cancelled. \<^verbatim>\<open>uploadStream\<close>
  completes so for an empty file cancelled while its socket opens: the signal is next read between slices.\<close>

theorem canceled_upload_can_finish:
  "\<exists>q x. upload_reached q \<and> jget (q_items q) 1 = Some x \<and> it_status x = Done \<and> it_done x = Rejected"
proof -
  let ?q = "finish (Inr ''ok'') (cancelUpload 1 (add_upload ''a.txt'' 0 plain_target (empty_queue\<lparr>q_owner := ''alice'', q_open := True\<rparr>)))"
  have "upload_reached ?q"
    unfolding upload_reached_def
    by (rule rtranclp.rtrancl_into_rtrancl, rule rtranclp.rtrancl_into_rtrancl, rule rtranclp.rtrancl_into_rtrancl,
        rule rtranclp.rtrancl_into_rtrancl, rule rtranclp.rtrancl_refl) (rule step_add upload_step.intros(2-10))+
  moreover have "case jget (q_items ?q) 1 of Some x \<Rightarrow> it_status x = Done \<and> it_done x = Rejected | None \<Rightarrow> False" by code_simp
  then have "\<exists>x. jget (q_items ?q) 1 = Some x \<and> it_status x = Done \<and> it_done x = Rejected" by (auto split: option.splits)
  ultimately show ?thesis by blast
qed

end
