(* ===== verification/Outbox.thy ===== *)
theory Outbox
  imports Ratchet_Functions
begin

text \<open>
  Messages written while offline (mobile/src/core/outbox.js), as programs on the local database. An
  entry is the object the code stores under its identifier; what a session answers to a send, its
  connection and the clock come with the record \<open>outlet\<close>. A flush returns what the code keeps while it
  runs and, in the order they happen, the messages it hands to a session and the entries it shows. A
  send is a step of its own: it is recorded with the database as it is when the message goes out.

  Numbers are whole, entries have a number as \<^verbatim>\<open>createdAt\<close>, and the text of an error that reading an
  entry throws is left out. The request for background synchronisation, the guard that lets one
  flush per session run and the timer for held messages are outside the database and left out.
\<close>

section \<open>Entries\<close>

definition OUTBOX_TTL :: int where "OUTBOX_TTL = 14 * 24 * 3600 * 1000"

definition obj_set :: "string \<Rightarrow> jsv \<Rightarrow> jsv \<Rightarrow> jsv" where  \<comment> \<open>\<^verbatim>\<open>{ ...e, k: v }\<close>\<close>
  "obj_set k v e = merge_fields e (JObj [(k, v)])"

definition obj_drop :: "string list \<Rightarrow> jsv \<Rightarrow> jsv" where  \<comment> \<open>the rest of a destructuring\<close>
  "obj_drop ks e = JObj (filter (\<lambda>(k, v). k \<notin> set ks) (members e))"

definition number_of_value :: "jsv \<Rightarrow> int" where
  "number_of_value v = (case v of JNum i \<Rightarrow> i | _ \<Rightarrow> 0)"

abbreviation committed :: "jsv \<Rightarrow> bool" where
  "committed e \<equiv> truthy (field e ''committed'')"

abbreviation entry_id :: "jsv \<Rightarrow> string" where
  "entry_id e \<equiv> js_string (field e ''id'')"

record options =
  op_id :: string
  op_sentAt :: jsv
  op_holdUntil :: int
  op_replyTo :: int

definition new_entry :: "jsv \<Rightarrow> string \<Rightarrow> options \<Rightarrow> int \<Rightarrow> jsv" where
  "new_entry tgt text opts now = merge_fields (merge_fields (JObj [(''id'', JStr (op_id opts))]) tgt)
     (JObj [(''text'', JStr text), (''sentAt'', op_sentAt opts), (''createdAt'', JNum now), (''holdUntil'', JNum (op_holdUntil opts)),
       (''replyTo'', JNum (op_replyTo opts))])"

text \<open>The change \<^verbatim>\<open>enqueue\<close> makes, and what it returns after it.\<close>

definition enqueue_change :: "jsv \<Rightarrow> jsv \<Rightarrow> jsv" where
  "enqueue_change entry existing =
     (if \<not> committed existing then entry
      else if truthy (field existing ''failed'') \<or> truthy (field existing ''error'') then obj_drop [''failed'', ''error''] existing
      else JUndef)"

definition enqueue_result :: "jsv \<Rightarrow> jsv" where
  "enqueue_result v = (if \<not> committed v then v else obj_set ''replaced'' (JBool False) (obj_drop [''failed'', ''error''] v))"

definition enqueue :: "cipher \<Rightarrow> (nat \<Rightarrow> bytes \<times> bytes) \<Rightarrow> jsv \<Rightarrow> string \<Rightarrow> options \<Rightarrow> int \<Rightarrow> jsv prog" where
  "enqueue c rnd tgt text opts now =
     fmap enqueue_result (updateSealed c rnd ''outbox'' (op_id opts) (enqueue_change (new_entry tgt text opts now)) None)"

section \<open>Listing\<close>

definition expires :: "int \<Rightarrow> jsv \<Rightarrow> bool" where
  "expires now e \<longleftrightarrow> \<not> committed e \<and> \<not> truthy (field e ''expired'')
     \<and> (case field e ''createdAt'' of JNum t \<Rightarrow> now - t > OUTBOX_TTL | _ \<Rightarrow> False)"

definition expired_entry :: "jsv \<Rightarrow> jsv" where
  "expired_entry e = obj_set ''text'' (JStr []) (obj_set ''expired'' (JBool True) e)"

definition unreadable_entry :: "string \<Rightarrow> jsv" where
  "unreadable_entry i = JObj [(''id'', JStr i), (''unreadable'', JBool True), (''createdAt'', JNum 0)]"

definition write_expired :: "cipher \<Rightarrow> bytes \<times> bytes \<Rightarrow> id_fence option \<Rightarrow> string \<Rightarrow> jsv \<Rightarrow> unit prog" where
  "write_expired c rnd fence i e =
     catch (case fence of Some f \<Rightarrow> putSealedIn c (fst rnd) (snd rnd) f ''outbox'' i e | None \<Rightarrow> putSealed c (fst rnd) (snd rnd) ''outbox'' i e)
       (\<lambda>_. Ret (Inr ()))"

definition pending_entry :: "cipher \<Rightarrow> bytes \<times> bytes \<Rightarrow> int \<Rightarrow> id_fence option \<Rightarrow> string \<Rightarrow> jsv option prog" where
  "pending_entry c rnd now fence i =
     bind (catch (fmap Some (getSealed c ''outbox'' i)) (\<lambda>_. Ret (Inr None))) (\<lambda>got. case got of
       None \<Rightarrow> Ret (Inr (Some (unreadable_entry i)))
     | Some e \<Rightarrow> if \<not> truthy e then Ret (Inr None)
         else if expires now e then fmap (\<lambda>_. Some (expired_entry e)) (write_expired c rnd fence i (expired_entry e))
         else Ret (Inr (Some e)))"

primrec pending_entries :: "cipher \<Rightarrow> (nat \<Rightarrow> bytes \<times> bytes) \<Rightarrow> int \<Rightarrow> id_fence option \<Rightarrow> string list \<Rightarrow> jsv list prog" where
  "pending_entries c rnd now fence [] = Ret (Inr [])"
| "pending_entries c rnd now fence (i # ids) =
     bind (pending_entry c (rnd (length ids)) now fence i) (\<lambda>e.
       fmap (\<lambda>es. (case e of None \<Rightarrow> es | Some v \<Rightarrow> v # es)) (pending_entries c rnd now fence ids))"

definition pending :: "cipher \<Rightarrow> (nat \<Rightarrow> bytes \<times> bytes) \<Rightarrow> int \<Rightarrow> id_fence option \<Rightarrow> jsv list prog" where
  "pending c rnd now fence = bind (store_keys ''outbox'') (\<lambda>ids.
     fmap (sort_key (\<lambda>e. number_of_value (field e ''createdAt''))) (pending_entries c rnd now fence ids))"

definition remove_entry :: "string \<Rightarrow> unit prog" where
  "remove_entry i = deleteKey ''outbox'' i"

definition waitingCount :: "cipher \<Rightarrow> (nat \<Rightarrow> bytes \<times> bytes) \<Rightarrow> int \<Rightarrow> nat prog" where
  "waitingCount c rnd now = fmap (\<lambda>es. length (filter (\<lambda>e. truthy (field e ''unreadable'')
     \<or> ((\<not> truthy (field e ''expired'') \<or> committed e) \<and> \<not> truthy (field e ''failed''))) es)) (pending c rnd now None)"

section \<open>Flushing\<close>

text \<open>What a send throws, and how it ends.\<close>

record send_error =
  er_message :: string
  er_code :: string
  er_blocked :: bool
  er_retryable :: bool
  er_retryAfterMS :: int
  er_original :: "string option"  \<comment> \<open>\<^verbatim>\<open>error.committed?.record?.body?.text\<close>\<close>

datatype send_reply = Accepted | Mismatch | Refused send_error

definition failure :: "send_reply \<Rightarrow> send_error option" where
  "failure r = (case r of Accepted \<Rightarrow> None
     | Mismatch \<Rightarrow> Some \<lparr>er_message = ''logical_mismatch: a different message was already sent with this ID'', er_code = ''logical_mismatch'',
         er_blocked = False, er_retryable = False, er_retryAfterMS = 0, er_original = None\<rparr>
     | Refused e \<Rightarrow> Some e)"

record outlet =
  ol_pendingRules :: bool
  ol_dm_ratchet :: bool
  ol_groups :: bool
  ol_groups_ratchet :: bool
  ol_now :: "nat \<Rightarrow> int"  \<comment> \<open>the clock, by the number of entries that are left\<close>
  ol_reply :: "nat \<Rightarrow> send_reply"  \<comment> \<open>to the n-th send\<close>
  ol_open :: "nat \<Rightarrow> bool"  \<comment> \<open>the connection when the n-th send has thrown\<close>
  ol_alive :: "nat \<Rightarrow> bool"  \<comment> \<open>and when the flush goes on after it\<close>

definition destination :: "jsv \<Rightarrow> string" where
  "destination e =
     (if field e ''kind'' = JStr ''channel'' then ''channel:'' @ js_string (field e ''scope'')
      else if field e ''kind'' = JStr ''conversation'' then ''conversation:'' @ js_string (field e ''conversation'')
      else ''dm:'' @ js_string (field e ''peer''))"

definition secure :: "outlet \<Rightarrow> jsv \<Rightarrow> bool" where  \<comment> \<open>\<^verbatim>\<open>ratchet\<close>\<close>
  "secure ol e \<longleftrightarrow> (field e ''kind'' = JStr ''dm'' \<and> ol_dm_ratchet ol)
     \<or> (field e ''kind'' = JStr ''conversation'' \<and> ol_groups ol \<and> ol_groups_ratchet ol)"

definition entry_text :: "jsv \<Rightarrow> jsv" where
  "entry_text e = (if committed e then field (field e ''committed'') ''text'' else field e ''text'')"

definition value_or_zero :: "jsv \<Rightarrow> jsv" where "value_or_zero v = (if truthy v then v else JNum 0)"

definition shown_state :: "jsv \<Rightarrow> jsv" where
  "shown_state e = JObj [(''text'', entry_text e), (''sentAt'', field e ''sentAt''),
     (''expired'', JBool ((truthy (field e ''expired'') \<and> \<not> committed e) \<or> truthy (field e ''failed''))),
     (''holdUntil'', if committed e then JNum 0 else value_or_zero (field e ''holdUntil'')), (''replyTo'', value_or_zero (field e ''replyTo''))]"

datatype outbox_event = Call jsv jsv send_reply db | Shown string string jsv

definition show_entry :: "outlet \<Rightarrow> jsv \<Rightarrow> outbox_event list" where
  "show_entry ol e = (if field e ''kind'' = JStr ''conversation'' \<and> \<not> ol_groups ol then []
     else [Shown (destination e) (entry_id e) (shown_state e)])"

definition showPending :: "cipher \<Rightarrow> (nat \<Rightarrow> bytes \<times> bytes) \<Rightarrow> int \<Rightarrow> outlet \<Rightarrow> outbox_event list prog" where
  "showPending c rnd now ol = fmap (\<lambda>es. concat (map (show_entry ol) (filter (\<lambda>e. \<not> truthy (field e ''unreadable'')) es)))
     (pending c rnd now None)"

record flushing =
  fl_calls :: nat
  fl_sent :: nat
  fl_nextHeld :: "int option"  \<comment> \<open>None for \<^verbatim>\<open>Infinity\<close>\<close>
  fl_waiting :: "string list"
  fl_events :: "outbox_event list"

definition fresh_flush :: flushing where
  "fresh_flush = \<lparr>fl_calls = 0, fl_sent = 0, fl_nextHeld = None, fl_waiting = [], fl_events = []\<rparr>"

definition add_events :: "outbox_event list \<Rightarrow> flushing \<Rightarrow> flushing" where
  "add_events es s = s\<lparr>fl_events := fl_events s @ es\<rparr>"

text \<open>A step of the loop ends with whether the loop goes on.\<close>

definition go_on :: "flushing \<Rightarrow> (bool \<times> flushing) prog" where "go_on s = Ret (Inr (True, s))"
definition break :: "flushing \<Rightarrow> (bool \<times> flushing) prog" where "break s = Ret (Inr (False, s))"

definition sameFence :: "id_fence \<Rightarrow> id_fence \<Rightarrow> bool" where
  "sameFence a b \<longleftrightarrow> generation a = generation b \<and> active a \<and> active b"

definition keepQueued :: "cipher \<Rightarrow> (nat \<Rightarrow> bytes \<times> bytes) \<Rightarrow> id_fence \<Rightarrow> jsv \<Rightarrow> unit prog" where
  "keepQueued c rnd fence entry = catch
     (fmap (\<lambda>_. ()) (updateSealed c rnd ''outbox'' (entry_id entry) (\<lambda>cur. if truthy cur then entry else JUndef) (Some fence)))
     (\<lambda>_. Ret (Inr ()))"

definition stopsFlush :: "outlet \<Rightarrow> nat \<Rightarrow> send_error \<Rightarrow> bool" where
  "stopsFlush ol n err \<longleftrightarrow> \<not> ol_alive ol n \<or> er_code err = ''rate-limit'' \<or> er_retryAfterMS err \<noteq> 0"

text \<open>The sends of one entry: at most two more after the first, while the server asks to wait.\<close>

primrec try_send :: "nat \<Rightarrow> outlet \<Rightarrow> jsv \<Rightarrow> flushing \<Rightarrow> (send_reply \<times> flushing) prog" where
  "try_send 0 ol current s = Atomic (\<lambda>D. let r = ol_reply ol (fl_calls s) in
     (D, Ret (Inr (r, add_events [Call current (entry_text current) r D] (s\<lparr>fl_calls := Suc (fl_calls s)\<rparr>)))))"
| "try_send (Suc k) ol current s = Atomic (\<lambda>D. let r = ol_reply ol (fl_calls s);
       s' = add_events [Call current (entry_text current) r D] (s\<lparr>fl_calls := Suc (fl_calls s)\<rparr>) in
     (D, case r of Refused err \<Rightarrow> if er_retryAfterMS err \<noteq> 0 \<and> ol_open ol (fl_calls s) then try_send k ol current s' else Ret (Inr (r, s'))
         | _ \<Rightarrow> Ret (Inr (r, s'))))"

definition adopt_original :: "send_error \<Rightarrow> bool \<Rightarrow> jsv \<Rightarrow> bool \<times> jsv" where
  "adopt_original err changed current = (case er_original err of
     Some original \<Rightarrow> if committed current \<and> JStr original \<noteq> field (field current ''committed'') ''text''
       then (True, obj_set ''committed'' (JObj [(''text'', JStr original)]) current) else (changed, current)
   | None \<Rightarrow> (changed, current))"

definition failed_send :: "cipher \<Rightarrow> (nat \<Rightarrow> bytes \<times> bytes) \<Rightarrow> outlet \<Rightarrow> id_fence \<Rightarrow> send_error \<Rightarrow> bool \<Rightarrow> jsv \<Rightarrow> flushing \<Rightarrow> (bool \<times> flushing) prog" where
  "failed_send c rnd ol fence err changed0 current0 s =
     (if er_code err = ''fenced'' then break s
      else bind identityFence (\<lambda>now_fence.
        if \<not> sameFence fence now_fence then break s
        else case adopt_original err changed0 current0 of (changed, current) \<Rightarrow>
          if er_blocked err then
            (let e = obj_set ''error'' (JStr (er_message err)) current in
             bind (keepQueued c rnd fence e) (\<lambda>_.
               go_on (add_events (show_entry ol e) (s\<lparr>fl_waiting := destination current # fl_waiting s\<rparr>))))
          else if er_retryable err then
            bind (if changed then keepQueued c rnd fence current else Ret (Inr ())) (\<lambda>_.
              if stopsFlush ol (fl_calls s) err then break s else go_on (s\<lparr>fl_waiting := destination current # fl_waiting s\<rparr>))
          else bind (keepQueued c rnd fence (obj_set ''error'' (JStr (er_message err)) (obj_set ''failed'' (JBool True) current)))
            (\<lambda>_. go_on s)))"

definition deliver :: "cipher \<Rightarrow> (nat \<Rightarrow> bytes \<times> bytes) \<Rightarrow> outlet \<Rightarrow> id_fence \<Rightarrow> bool \<Rightarrow> jsv \<Rightarrow> flushing \<Rightarrow> (bool \<times> flushing) prog" where
  "deliver c rnd ol fence changed current s0 =
     bind (try_send 2 ol current s0) (\<lambda>(r, s). case failure r of
       Some err \<Rightarrow> failed_send c rnd ol fence err changed current s
     | None \<Rightarrow> bind (catch (fmap (\<lambda>_. True) (deleteKeyIn fence ''outbox'' (entry_id current))) (\<lambda>_. Ret (Inr False))) (\<lambda>deleted.
         if deleted then go_on (s\<lparr>fl_sent := Suc (fl_sent s)\<rparr>) else break s))"

definition commit_change :: "jsv \<Rightarrow> jsv" where
  "commit_change cur = (if truthy cur \<and> \<not> committed cur \<and> \<not> truthy (field cur ''failed'')
     then obj_set ''committed'' (JObj [(''text'', field cur ''text'')]) cur else JUndef)"

definition held :: "int \<Rightarrow> jsv \<Rightarrow> bool" where
  "held now e \<longleftrightarrow> (case field e ''holdUntil'' of JNum t \<Rightarrow> t > now | _ \<Rightarrow> False) \<and> \<not> committed e"

text \<open>A draft for a secure session is committed before it goes out.\<close>

definition attempt :: "cipher \<Rightarrow> (bool \<Rightarrow> nat \<Rightarrow> bytes \<times> bytes) \<Rightarrow> outlet \<Rightarrow> id_fence \<Rightarrow> jsv \<Rightarrow> flushing \<Rightarrow> (bool \<times> flushing) prog" where
  "attempt c rnd ol fence entry s =
     (if secure ol entry \<and> \<not> committed entry then
        bind (catch (fmap Inr (updateSealed c (rnd False) ''outbox'' (entry_id entry) commit_change (Some fence))) (\<lambda>e. Ret (Inr (Inl e)))) (\<lambda>r.
          case r of
            Inl e \<Rightarrow> if e = Fenced then break s else go_on s
          | Inr latest \<Rightarrow> if \<not> truthy latest \<or> truthy (field latest ''failed'') \<or> \<not> committed latest then go_on s
              else deliver c (rnd True) ol fence True latest s)
      else deliver c (rnd True) ol fence False entry s)"

definition visit :: "cipher \<Rightarrow> (bool \<Rightarrow> nat \<Rightarrow> bytes \<times> bytes) \<Rightarrow> outlet \<Rightarrow> id_fence \<Rightarrow> int \<Rightarrow> jsv \<Rightarrow> flushing \<Rightarrow> (bool \<times> flushing) prog" where
  "visit c rnd ol fence now entry s =
     (if truthy (field entry ''unreadable'') then go_on s
      else bind identityFence (\<lambda>now_fence.
        if \<not> sameFence fence now_fence then break s
        else if truthy (field entry ''failed'') \<or> (truthy (field entry ''expired'') \<and> \<not> committed entry) then go_on (add_events (show_entry ol entry) s)
        else if field entry ''kind'' = JStr ''conversation'' \<and> \<not> ol_groups ol then go_on s
        else if destination entry \<in> set (fl_waiting s) then go_on s
        else if held now entry then
          go_on (s\<lparr>fl_nextHeld := Some (case fl_nextHeld s of None \<Rightarrow> number_of_value (field entry ''holdUntil'')
            | Some t \<Rightarrow> min t (number_of_value (field entry ''holdUntil'')))\<rparr>)
        else attempt c rnd ol fence entry s))"

primrec visits :: "cipher \<Rightarrow> (nat \<Rightarrow> bool \<Rightarrow> nat \<Rightarrow> bytes \<times> bytes) \<Rightarrow> outlet \<Rightarrow> id_fence \<Rightarrow> jsv list \<Rightarrow> flushing \<Rightarrow> flushing prog" where
  "visits c rnd ol fence [] s = Ret (Inr s)"
| "visits c rnd ol fence (e # es) s =
     bind (visit c (rnd (length es)) ol fence (ol_now ol (length es)) e s) (\<lambda>(go, s'). if go then visits c rnd ol fence es s' else Ret (Inr s'))"

definition flush :: "cipher \<Rightarrow> (nat \<Rightarrow> bytes \<times> bytes) \<Rightarrow> (nat \<Rightarrow> bool \<Rightarrow> nat \<Rightarrow> bytes \<times> bytes) \<Rightarrow> int \<Rightarrow> outlet \<Rightarrow> flushing prog" where
  "flush c rnd0 rnd now ol =
     (if ol_pendingRules ol then Ret (Inr fresh_flush)
      else bind identityFence (\<lambda>fence. bind (pending c rnd0 now (Some fence)) (\<lambda>es. visits c rnd ol fence es fresh_flush)))"

section \<open>Results under any schedule\<close>

text \<open>How a program can end when the others may change the database between its transactions in any way that keeps \<open>P\<close>.\<close>

inductive ends :: "(db \<Rightarrow> bool) \<Rightarrow> 'a prog \<Rightarrow> db_error + 'a \<Rightarrow> bool" for P where
  ends_Ret: "ends P (Ret r) r"
| ends_Atomic: "P D \<Longrightarrow> ends P (snd (t D)) r \<Longrightarrow> ends P (Atomic t) r"

inductive_simps ends_simps [simp]: "ends P (Ret x) r"
inductive_cases ends_AtomicE [elim!]: "ends P (Atomic t) r"

text \<open>The databases that the transactions of a program run on when it runs alone.\<close>

primrec visited :: "'a prog \<Rightarrow> db \<Rightarrow> db list" where
  "visited (Ret r) = (\<lambda>D. [])"
| "visited (Atomic t) = (\<lambda>D. D # (case map_prod id visited (t D) of (D', k) \<Rightarrow> k D'))"

lemma ends_exec: "list_all P (visited p D) \<Longrightarrow> ends P p (snd (exec p D))"
proof (induction p arbitrary: D)
  case (Atomic t)
  obtain D' p where t: "t D = (D', p)" by (cases "t D")
  have "ends P p (snd (exec p D'))"
    by (rule Atomic.IH [of "(D', p)"]) (use t Atomic.prems in \<open>auto simp: snds.simps intro: rangeI [of t D, unfolded t]\<close>)
  then show ?case using t Atomic.prems by (auto intro: ends_Atomic [of P D])
qed simp

lemma ends_bind:
  "ends P (bind p f) r \<Longrightarrow> (\<exists>e. r = Inl e \<and> ends P p (Inl e)) \<or> (\<exists>a. ends P p (Inr a) \<and> ends P (f a) r)"
proof (induction p)
  case (Ret x)
  then show ?case by (cases x) auto
next
  case (Atomic t)
  from Atomic.prems have "\<exists>D. P D \<and> ends P (snd (map_prod id (\<lambda>p. bind p f) (t D))) r" by auto
  then obtain D where D: "P D" "ends P (bind (snd (t D)) f) r" by (auto simp: snd_map_prod)
  have "(\<exists>e. r = Inl e \<and> ends P (snd (t D)) (Inl e)) \<or> (\<exists>a. ends P (snd (t D)) (Inr a) \<and> ends P (f a) r)"
    by (rule Atomic.IH [OF rangeI [of t D] _ D(2)]) (cases "t D", simp add: snds.simps)
  then show ?case using D(1) by (auto intro: ends_Atomic)
qed

lemma ends_bindE:
  assumes "ends P (bind p f) (Inr b)"
  obtains a where "ends P p (Inr a)" "ends P (f a) (Inr b)"
  using ends_bind [OF assms] by auto

lemma ends_catch:
  "ends P (catch p h) r \<Longrightarrow> (\<exists>a. r = Inr a \<and> ends P p (Inr a)) \<or> (\<exists>e. ends P p (Inl e) \<and> ends P (h e) r)"
proof (induction p)
  case (Ret x)
  then show ?case by (cases x) auto
next
  case (Atomic t)
  from Atomic.prems have "\<exists>D. P D \<and> ends P (snd (map_prod id (\<lambda>p. catch p h) (t D))) r" by auto
  then obtain D where D: "P D" "ends P (catch (snd (t D)) h) r" by (auto simp: snd_map_prod)
  have "(\<exists>a. r = Inr a \<and> ends P (snd (t D)) (Inr a)) \<or> (\<exists>e. ends P (snd (t D)) (Inl e) \<and> ends P (h e) r)"
    by (rule Atomic.IH [OF rangeI [of t D] _ D(2)]) (cases "t D", simp add: snds.simps)
  then show ?case using D(1) by (auto intro: ends_Atomic)
qed

lemma ends_fmapE:
  assumes "ends P (fmap f p) (Inr b)"
  obtains a where "ends P p (Inr a)" "b = f a"
  using assms unfolding fmap_def by (auto elim!: ends_bindE)

lemma obj_set_fields: "obj_set k v e = JObj (jset k v (members e))"
  by (simp add: obj_set_def merge_fields_def, simp add: members_def)

lemma field_members: "field e k = (case jget (members e) k of Some v \<Rightarrow> v | None \<Rightarrow> JUndef)"
  by (cases e) (simp_all add: members_def jget_def)

lemma field_obj_set [simp]: "field (obj_set k v e) k' = (if k' = k then v else field e k')"
  unfolding field_members [of "obj_set k v e"] field_members [of e] by (simp add: obj_set_fields members_def)

lemma destination_obj_set [simp]:
  assumes "k \<notin> {''kind'', ''scope'', ''conversation'', ''peer''}"
  shows "destination (obj_set k v e) = destination e"
proof -
  have "''kind'' \<noteq> k" "''scope'' \<noteq> k" "''conversation'' \<noteq> k" "''peer'' \<noteq> k" using assms by auto
  then show ?thesis by (simp add: destination_def)
qed

section \<open>The order of the messages\<close>

text \<open>A message is settled when the server took it or refused it for good.\<close>

definition settled :: "send_reply \<Rightarrow> bool" where
  "settled r = (case failure r of None \<Rightarrow> True | Some err \<Rightarrow> \<not> er_blocked err \<and> \<not> er_retryable err)"

fun sends :: "outbox_event list \<Rightarrow> (jsv \<times> send_reply) list" where
  "sends [] = []"
| "sends (Call e t r D # evs) = (e, r) # sends evs"
| "sends (Shown d i v # evs) = sends evs"

lemma sends_append [simp]: "sends (xs @ ys) = sends xs @ sends ys"
  by (induction xs rule: sends.induct) simp_all

lemma sends_show [simp]: "sends (show_entry ol e) = []"
  by (simp add: show_entry_def)

definition settled_after :: "string \<Rightarrow> (jsv \<times> send_reply) list \<Rightarrow> bool" where
  "settled_after i L \<longleftrightarrow> (\<exists>(e, r) \<in> set L. entry_id e = i \<and> settled r)"

text \<open>Nothing to the destination is open; every message went out after the earlier ones to its destination were settled.\<close>

definition cleared :: "string set \<Rightarrow> (jsv \<times> send_reply) list \<Rightarrow> bool" where
  "cleared W L \<longleftrightarrow> (\<forall>xs e r ys. L = xs @ (e, r) # ys \<longrightarrow> destination e \<notin> W \<longrightarrow> settled_after (entry_id e) ((e, r) # ys))"

definition in_order :: "(jsv \<times> send_reply) list \<Rightarrow> bool" where
  "in_order L \<longleftrightarrow> (\<forall>xs e1 r1 ys e2 r2 zs. L = xs @ (e1, r1) # ys @ (e2, r2) # zs \<longrightarrow> destination e1 = destination e2
     \<longrightarrow> entry_id e1 \<noteq> entry_id e2 \<longrightarrow> settled_after (entry_id e1) ((e1, r1) # ys))"

lemma settled_after_append [simp]: "settled_after i (xs @ ys) \<longleftrightarrow> settled_after i xs \<or> settled_after i ys"
  by (auto simp: settled_after_def)

lemma cleared_mono: "cleared W L \<Longrightarrow> W \<subseteq> W' \<Longrightarrow> cleared W' L"
  unfolding cleared_def by blast

lemma append_split:
  "L @ B = xs @ y # ys \<Longrightarrow> (\<exists>us. L = xs @ y # us \<and> ys = us @ B) \<or> (\<exists>us. B = us @ y # ys \<and> xs = L @ us)"
proof (induction L arbitrary: xs)
  case (Cons a L)
  then show ?case by (cases xs) auto
qed simp

lemma in_order_snoc:
  assumes "in_order L" "cleared W (L' :: (jsv \<times> send_reply) list)" "L = L' @ B" "\<forall>(e, r) \<in> set B. entry_id e = entry_id x" "destination x \<notin> W"
  shows "in_order (L @ [(x, r)])"
  unfolding in_order_def
proof (intro allI impI)
  fix xs e1 r1 ys e2 r2 zs
  assume eq: "L @ [(x, r)] = xs @ (e1, r1) # ys @ (e2, r2) # zs" and d: "destination e1 = destination e2" and i: "entry_id e1 \<noteq> entry_id e2"
  show "settled_after (entry_id e1) ((e1, r1) # ys)"
  proof (cases zs rule: rev_cases)
    case Nil
    then have "L @ [(x, r)] = (xs @ (e1, r1) # ys) @ [(e2, r2)]" using eq by simp
    then have L: "L = xs @ (e1, r1) # ys" and x: "e2 = x" unfolding append1_eq_conv by simp_all
    have "(e1, r1) \<notin> set B" using assms(4) i x by auto
    then obtain us where us: "L' = xs @ (e1, r1) # us" "ys = us @ B"
      using append_split [of L' B xs "(e1, r1)" ys] L assms(3) by auto
    have "settled_after (entry_id e1) ((e1, r1) # us)" using assms(2) [unfolded cleared_def, rule_format, OF us(1)] assms(5) d x by simp
    then show ?thesis using us by (auto simp: settled_after_def)
  next
    case (snoc zs' z)
    then have "L @ [(x, r)] = (xs @ (e1, r1) # ys @ (e2, r2) # zs') @ [z]" using eq by simp
    then have "L = xs @ (e1, r1) # ys @ (e2, r2) # zs'" unfolding append1_eq_conv by simp
    then show ?thesis using assms(1) [unfolded in_order_def, rule_format, OF _ d i] by blast
  qed
qed

lemma in_order_block:
  assumes "in_order L" "cleared W L" "destination x \<notin> W"
  shows "in_order (L @ map (Pair x) rs)"
proof (induction rs rule: rev_induct)
  case (snoc r rs)
  show ?case
    using in_order_snoc [OF snoc assms(2) refl, of x r] assms(3) by simp
qed (simp add: assms(1))

lemma cleared_block:
  assumes "cleared W L" "rs \<noteq> []" "settled (last rs) \<or> destination x \<in> W'" "W \<subseteq> W'"
  shows "cleared W' (L @ map (Pair x) rs)"
  unfolding cleared_def
proof (intro allI impI)
  fix xs e r ys assume eq: "L @ map (Pair x) rs = xs @ (e, r) # ys" and d: "destination e \<notin> W'"
  consider us where "L = xs @ (e, r) # us" "ys = us @ map (Pair x) rs" | us where "map (Pair x) rs = us @ (e, r) # ys"
    using append_split [OF eq] by blast
  then show "settled_after (entry_id e) ((e, r) # ys)"
  proof cases
    case 1
    then have "settled_after (entry_id e) ((e, r) # us)" using assms(1) [unfolded cleared_def, rule_format, OF 1(1)] assms(4) d by blast
    then show ?thesis using 1 by (auto simp: settled_after_def)
  next
    case 2
    then have e: "e = x" by (auto simp: map_eq_append_conv)
    then have "settled (last rs)" using assms(3) d by simp
    moreover have "(x, last rs) \<in> set ((e, r) # ys)"
    proof -
      have "last (map (Pair x) rs) = (x, last rs)" using assms(2) by (simp add: last_map)
      then have "last ((e, r) # ys) = (x, last rs)" using 2 by simp
      then show ?thesis by (metis last_in_set list.distinct(1))
    qed
    ultimately show ?thesis using e by (auto simp: settled_after_def)
  qed
qed

lemma try_send_block:
  "ends P (try_send k ol x s) (Inr (r, s')) \<Longrightarrow> \<exists>rs. sends (fl_events s') = sends (fl_events s) @ map (Pair x) rs \<and> rs \<noteq> [] \<and> last rs = r
     \<and> fl_waiting s' = fl_waiting s"
proof (induction k arbitrary: s)
  case 0
  then show ?case by (auto simp: Let_def add_events_def intro!: exI [of _ "[r]"])
next
  case (Suc k)
  let ?r = "ol_reply ol (fl_calls s)"
  from Suc.prems obtain D where D: "ends P (case ?r of Refused err \<Rightarrow> if er_retryAfterMS err \<noteq> 0 \<and> ol_open ol (fl_calls s)
        then try_send k ol x (add_events [Call x (entry_text x) ?r D] (s\<lparr>fl_calls := Suc (fl_calls s)\<rparr>))
        else Ret (Inr (?r, add_events [Call x (entry_text x) ?r D] (s\<lparr>fl_calls := Suc (fl_calls s)\<rparr>)))
      | _ \<Rightarrow> Ret (Inr (?r, add_events [Call x (entry_text x) ?r D] (s\<lparr>fl_calls := Suc (fl_calls s)\<rparr>)))) (Inr (r, s'))"
    by (auto simp: Let_def)
  show ?case
  proof (cases "(r, s') = (?r, add_events [Call x (entry_text x) ?r D] (s\<lparr>fl_calls := Suc (fl_calls s)\<rparr>))")
    case True
    then show ?thesis by (auto simp: add_events_def intro!: exI [of _ "[r]"])
  next
    case False
    then have "ends P (try_send k ol x (add_events [Call x (entry_text x) ?r D] (s\<lparr>fl_calls := Suc (fl_calls s)\<rparr>))) (Inr (r, s'))"
      using D by (auto split: send_reply.splits if_splits)
    from Suc.IH [OF this] obtain rs where "sends (fl_events s') = sends (fl_events s) @ map (Pair x) (?r # rs)" "rs \<noteq> []" "last rs = r" "fl_waiting s' = fl_waiting s"
      by (auto simp: add_events_def)
    then show ?thesis by (intro exI [of _ "?r # rs"]) simp
  qed
qed

lemma failed_send_waiting:
  assumes "ends P (failed_send c rnd ol fence err changed x s) (Inr (go, s'))"
  shows "sends (fl_events s') = sends (fl_events s) \<and> set (fl_waiting s) \<subseteq> set (fl_waiting s')
    \<and> (go \<longrightarrow> er_blocked err \<or> er_retryable err \<longrightarrow> destination x \<in> set (fl_waiting s'))"
proof -
  have d: "destination (snd (adopt_original err changed x)) = destination x"
    by (simp add: adopt_original_def split: option.split)
  show ?thesis
    using assms d unfolding failed_send_def
    by (auto simp: go_on_def break_def add_events_def Let_def split: if_splits prod.splits elim!: ends_bindE)
qed

lemma deliver_order:
  assumes "ends P (deliver c rnd ol fence changed x s) (Inr (go, s'))" "in_order (sends (fl_events s))"
    "cleared (set (fl_waiting s)) (sends (fl_events s))" "destination x \<notin> set (fl_waiting s)"
  shows "in_order (sends (fl_events s')) \<and> (go \<longrightarrow> cleared (set (fl_waiting s')) (sends (fl_events s')))"
proof -
  obtain r s1 where t: "ends P (try_send 2 ol x s) (Inr (r, s1))" and rest: "ends P (case failure r of
       Some err \<Rightarrow> failed_send c rnd ol fence err changed x s1
     | None \<Rightarrow> bind (catch (fmap (\<lambda>_. True) (deleteKeyIn fence ''outbox'' (entry_id x))) (\<lambda>_. Ret (Inr False))) (\<lambda>deleted.
         if deleted then go_on (s1\<lparr>fl_sent := Suc (fl_sent s1)\<rparr>) else break s1)) (Inr (go, s'))"
    using assms(1) unfolding deliver_def by (auto elim!: ends_bindE)
  obtain rs where rs: "sends (fl_events s1) = sends (fl_events s) @ map (Pair x) rs" "rs \<noteq> []" "last rs = r" "fl_waiting s1 = fl_waiting s"
    using try_send_block [OF t] by blast
  have s': "sends (fl_events s') = sends (fl_events s1) \<and> set (fl_waiting s1) \<subseteq> set (fl_waiting s')
      \<and> (go \<longrightarrow> settled r \<or> destination x \<in> set (fl_waiting s'))"
    using rest failed_send_waiting
    by (cases "failure r") (fastforce simp: settled_def go_on_def break_def split: if_splits elim!: ends_bindE)+
  show ?thesis
    using in_order_block [OF assms(2-4)] cleared_block [OF assms(3) rs(2), of x "set (fl_waiting s')"] s' rs by auto
qed

text \<open>An identifier belongs to one destination (an entry is stored again only for a retry).\<close>

definition addressed :: "cipher \<Rightarrow> bytes \<Rightarrow> (string \<Rightarrow> string) \<Rightarrow> db \<Rightarrow> bool" where
  "addressed c w dest D \<longleftrightarrow> wrapping_key D = Some w \<and> list_all (\<lambda>((st, k), r). st = ''outbox'' \<longrightarrow>
     (case decrypt c w (rec_iv r) [] (rec_sealed r) of None \<Rightarrow> True | Some p \<Rightarrow> (case bytes_json p of None \<Rightarrow> True
       | Some v \<Rightarrow> field v ''id'' = JStr k \<and> destination v = dest k))) (sealed_recs D)"

abbreviation placed :: "(string \<Rightarrow> string) \<Rightarrow> string \<Rightarrow> jsv \<Rightarrow> bool" where
  "placed dest k v \<equiv> field v ''id'' = JStr k \<and> destination v = dest k"

lemma addressed_unseal:
  assumes "addressed c w dest D" "jget (sealed_recs D) (''outbox'', k) = Some r" "ends (addressed c w dest) (read_sealed c (Some r)) (Inr v)"
  shows "placed dest k v"
proof -
  have "((''outbox'', k), r) \<in> set (sealed_recs D)" using jget_in [OF assms(2)] .
  then have "case decrypt c w (rec_iv r) [] (rec_sealed r) of None \<Rightarrow> True | Some p \<Rightarrow> (case bytes_json p of None \<Rightarrow> True | Some v \<Rightarrow> placed dest k v)"
    using assms(1) by (auto simp: addressed_def list_all_iff)
  then show ?thesis
    using assms(3)
    by (auto simp: read_sealed_def unseal_def wrappingKey_def look_def addressed_def [of c w dest] split: option.splits elim!: ends_bindE)
qed

lemma ends_getSealed:
  assumes "ends (addressed c w dest) (getSealed c ''outbox'' k) (Inr v)"
  shows "v = JUndef \<or> placed dest k v"
proof -
  from assms obtain D where D: "addressed c w dest D" "ends (addressed c w dest) (read_sealed c (jget (sealed_recs D) (''outbox'', k))) (Inr v)"
    unfolding getSealed_def look_def by (auto elim!: ends_bindE)
  show ?thesis
    using D addressed_unseal [OF D(1)] by (cases "jget (sealed_recs D) (''outbox'', k)") (auto simp: read_sealed_def)
qed

lemma good_commit: "placed dest k v \<Longrightarrow> commit_change v \<noteq> JUndef \<Longrightarrow> placed dest k (commit_change v)"
  by (auto simp: commit_change_def split: if_splits)

lemma ends_commit_attempt:
  assumes "ends (addressed c w dest) (update_attempt c candidate iv ''outbox'' k commit_change f) (Inr (Some v))"
  shows "v = JUndef \<or> placed dest k v"
proof -
  let ?A = "addressed c w dest"
  obtain before u where u: "ends ?A (look (\<lambda>D. Inr (jget (sealed_recs D) (''outbox'', k)))) (Inr before)"
    "ends ?A (catch (read_sealed c before) (\<lambda>_. Ret (Inl Unreadable))) (Inr u)"
    and v: "v = u \<or> (v = commit_change u \<and> v \<noteq> JUndef)"
    using assms unfolding update_attempt_def fencedWrite_def Let_def
    by (auto elim!: ends_bindE split: if_splits)
  obtain D where D: "?A D" "before = jget (sealed_recs D) (''outbox'', k)" using u(1) unfolding look_def by auto
  have r: "ends ?A (read_sealed c before) (Inr u)" using ends_catch [OF u(2)] by auto
  have "u = JUndef \<or> placed dest k u"
  proof (cases before)
    case None
    then show ?thesis using r by (simp add: read_sealed_def)
  next
    case (Some x)
    then show ?thesis using addressed_unseal [OF D(1) D(2) [symmetric, unfolded Some]] r by blast
  qed
  moreover have "commit_change JUndef = JUndef" by (simp add: commit_change_def)
  ultimately show ?thesis using v good_commit by auto
qed

lemma ends_commit:
  "ends (addressed c w dest) (update_attempts n c rnd ''outbox'' k commit_change f) (Inr v) \<Longrightarrow> v = JUndef \<or> placed dest k v"
proof (induction n)
  case (Suc n)
  from Suc.prems obtain x where "ends (addressed c w dest) (update_attempt c (fst (rnd n)) (snd (rnd n)) ''outbox'' k commit_change f) (Inr x)"
    "ends (addressed c w dest) (case x of Some v \<Rightarrow> Ret (Inr v) | None \<Rightarrow> update_attempts n c rnd ''outbox'' k commit_change f) (Inr v)"
    by (auto elim!: ends_bindE)
  then show ?case using Suc.IH by (cases x) (auto dest!: ends_commit_attempt)
qed simp

lemma ends_pending_entry:
  assumes "ends (addressed c w dest) (pending_entry c rnd now fence k) (Inr (Some e))"
  shows "truthy (field e ''unreadable'') \<or> placed dest k e"
proof -
  let ?A = "addressed c w dest"
  obtain got where got: "ends ?A (catch (fmap Some (getSealed c ''outbox'' k)) (\<lambda>_. Ret (Inr None))) (Inr got)"
    and e: "case got of None \<Rightarrow> e = unreadable_entry k | Some v \<Rightarrow> truthy v \<and> (e = v \<or> e = expired_entry v)"
    using assms unfolding pending_entry_def by (auto elim!: ends_bindE ends_fmapE split: option.splits if_splits)
  show ?thesis
  proof (cases got)
    case None
    then show ?thesis using e by (simp add: unreadable_entry_def)
  next
    case (Some v)
    then have "ends ?A (getSealed c ''outbox'' k) (Inr v)" using ends_catch [OF got] by (auto elim!: ends_fmapE)
    then show ?thesis using ends_getSealed e Some by (fastforce simp: expired_entry_def)
  qed
qed

lemma ends_pending_entries:
  "ends (addressed c w dest) (pending_entries c rnd now fence ids) (Inr es) \<Longrightarrow> e \<in> set es
    \<Longrightarrow> truthy (field e ''unreadable'') \<or> placed dest (entry_id e) e"
proof (induction ids arbitrary: es)
  case (Cons i ids)
  then show ?case using ends_pending_entry [of c w dest "rnd (length ids)" now fence i e]
    by (auto elim!: ends_bindE ends_fmapE split: option.splits)
qed simp

lemma ends_pending:
  "ends (addressed c w dest) (pending c rnd now fence) (Inr es) \<Longrightarrow> e \<in> set es
    \<Longrightarrow> truthy (field e ''unreadable'') \<or> placed dest (entry_id e) e"
  unfolding pending_def by (elim ends_bindE ends_fmapE) (simp add: ends_pending_entries)

text \<open>A visit that hands a message to a session: the listed entry, or what the commit of its draft stored.\<close>

lemma attempt_ends:
  assumes "ends P (attempt c rnd ol fence e s) (Inr (go, s'))"
  shows "s' = s \<or> ends P (deliver c (rnd True) ol fence False e s) (Inr (go, s'))
    \<or> (\<exists>x. truthy x \<and> ends P (updateSealed c (rnd False) ''outbox'' (entry_id e) commit_change (Some fence)) (Inr x)
        \<and> ends P (deliver c (rnd True) ol fence True x s) (Inr (go, s')))"
proof (cases "secure ol e \<and> \<not> committed e")
  case True
  let ?u = "updateSealed c (rnd False) ''outbox'' (entry_id e) commit_change (Some fence)"
  obtain r where r: "ends P (catch (fmap Inr ?u) (\<lambda>e. Ret (Inr (Inl e)))) (Inr r)"
    "ends P (case r of Inl e \<Rightarrow> if e = Fenced then break s else go_on s
       | Inr latest \<Rightarrow> if \<not> truthy latest \<or> truthy (field latest ''failed'') \<or> \<not> committed latest then go_on s
           else deliver c (rnd True) ol fence True latest s) (Inr (go, s'))"
    by (rule ends_bindE [OF assms [unfolded attempt_def if_P [OF True]]])
  show ?thesis
  proof (cases r)
    case (Inl x)
    then show ?thesis using r(2) by (simp add: go_on_def break_def split: if_splits)
  next
    case (Inr x)
    then have "ends P ?u (Inr x)" using ends_catch [OF r(1)] by (auto elim!: ends_fmapE)
    then show ?thesis using r(2) Inr by (auto simp: go_on_def split: if_splits)
  qed
next
  case False
  show ?thesis using assms [unfolded attempt_def if_not_P [OF False]] by blast
qed

lemma visit_ends:
  assumes "ends P (visit c rnd ol fence now e s) (Inr (go, s'))"
  shows "(sends (fl_events s') = sends (fl_events s) \<and> fl_waiting s' = fl_waiting s)
    \<or> (\<not> truthy (field e ''unreadable'') \<and> destination e \<notin> set (fl_waiting s) \<and> ends P (attempt c rnd ol fence e s) (Inr (go, s')))"
  using assms unfolding visit_def
  by (auto simp: go_on_def break_def add_events_def simp del: js_string.simps truthy.simps field.simps split: if_splits elim!: ends_bindE)

lemma visit_order:
  assumes "ends (addressed c w dest) (visit c rnd ol fence now e s) (Inr (go, s'))" "in_order (sends (fl_events s))"
    "cleared (set (fl_waiting s)) (sends (fl_events s))" "truthy (field e ''unreadable'') \<or> placed dest (entry_id e) e"
  shows "in_order (sends (fl_events s')) \<and> (go \<longrightarrow> cleared (set (fl_waiting s')) (sends (fl_events s')))"
proof (cases "sends (fl_events s') = sends (fl_events s) \<and> fl_waiting s' = fl_waiting s")
  case False
  then have e: "\<not> truthy (field e ''unreadable'')" "destination e \<notin> set (fl_waiting s)"
    and a: "ends (addressed c w dest) (attempt c rnd ol fence e s) (Inr (go, s'))"
    using visit_ends [OF assms(1)] by blast+
  consider "ends (addressed c w dest) (deliver c (rnd True) ol fence False e s) (Inr (go, s'))"
    | x where "truthy x" "ends (addressed c w dest) (updateSealed c (rnd False) ''outbox'' (entry_id e) commit_change (Some fence)) (Inr x)"
      "ends (addressed c w dest) (deliver c (rnd True) ol fence True x s) (Inr (go, s'))"
    using attempt_ends [OF a] False by blast
  then show ?thesis
  proof cases
    case 1
    then show ?thesis using deliver_order assms(2,3) e(2) by blast
  next
    case (2 x)
    then have "x = JUndef \<or> placed dest (entry_id e) x" unfolding updateSealed_def by (auto dest!: ends_commit)
    then have "destination x = destination e" using e(1) assms(4) 2(1) by auto
    then show ?thesis using deliver_order [OF 2(3) assms(2,3)] e(2) by simp
  qed
qed (use assms(2,3) in simp)

lemma visits_order:
  assumes "ends (addressed c w dest) (visits c rnd ol fence es s) (Inr s')" "in_order (sends (fl_events s))"
    "cleared (set (fl_waiting s)) (sends (fl_events s))" "\<forall>e \<in> set es. truthy (field e ''unreadable'') \<or> placed dest (entry_id e) e"
  shows "in_order (sends (fl_events s'))"
  using assms
proof (induction es arbitrary: s)
  case (Cons e es)
  let ?A = "addressed c w dest"
  obtain go s1 where v: "ends ?A (visit c (rnd (length es)) ol fence (ol_now ol (length es)) e s) (Inr (go, s1))"
    "ends ?A (if go then visits c rnd ol fence es s1 else Ret (Inr s1)) (Inr s')"
    using Cons.prems(1) by (auto elim!: ends_bindE)
  then show ?case using visit_order [OF v(1) Cons.prems(2,3)] Cons.IH Cons.prems(4) by (auto split: if_splits)
qed simp

section \<open>A flush that runs alone\<close>

lemma exec_catch: "exec (catch p h) D = (case exec p D of (D', Inl e) \<Rightarrow> exec (h e) D' | (D', Inr a) \<Rightarrow> (D', Inr a))"
proof (induction p arbitrary: D)
  case (Atomic t)
  show ?case using Atomic [OF rangeI, of "snd (t D)" D "fst (t D)"] by (cases "t D") (simp add: snds.simps)
qed (simp split: sum.split)

text \<open>What is stored under a key of the outbox.\<close>

definition stored :: "cipher \<Rightarrow> db \<Rightarrow> string \<Rightarrow> db_error + jsv" where
  "stored c D k = (case jget (sealed_recs D) (''outbox'', k) of None \<Rightarrow> Inr JUndef
     | Some r \<Rightarrow> (case wrapping_key D of None \<Rightarrow> Inl Key_missing
       | Some w \<Rightarrow> (case decrypt c w (rec_iv r) [] (rec_sealed r) of None \<Rightarrow> Inl Thrown
         | Some p \<Rightarrow> (case bytes_json p of None \<Rightarrow> Inl Thrown | Some v \<Rightarrow> Inr v))))"

definition store :: "cipher \<Rightarrow> bytes \<Rightarrow> string \<Rightarrow> jsv \<Rightarrow> db \<Rightarrow> db" where
  "store c iv k v D = put_rec ''outbox'' k \<lparr>rec_iv = iv, rec_sealed = encrypt c (the (wrapping_key D)) iv [] (json_bytes v), rec_revision = 0\<rparr> D"

lemma store_fields [simp]: "wrapping_key (store c iv k v D) = wrapping_key D" "current_fence (store c iv k v D) = current_fence D"
  "jget (sealed_recs (store c iv k v D)) (''outbox'', k') = (if k' = k then
     Some \<lparr>rec_iv = iv, rec_sealed = encrypt c (the (wrapping_key D)) iv [] (json_bytes v), rec_revision = 0\<rparr> else jget (sealed_recs D) (''outbox'', k'))"
  by (simp_all add: store_def put_rec_def current_fence_def)

lemma stored_store:
  assumes "cipher_inverts c" "wrapping_key D = Some w" "js_wf v" "v \<noteq> JUndef"
  shows "stored c (store c iv k v D) k' = (if k' = k then Inr (norm v) else stored c D k')"
  using assms by (simp add: stored_def cipher_inverts_def bytes_json_norm cong: option.case_cong)

lemma exec_getSealed_outbox: "exec (getSealed c ''outbox'' k) D = (D, stored c D k)"
  by (simp add: getSealed_def read_sealed_def unseal_def wrappingKey_def exec_bind stored_def split: option.split)

lemma exec_read_sealed: "exec (read_sealed c (jget (sealed_recs D) (''outbox'', k))) D = (D, stored c D k)"
  using exec_getSealed_outbox [of c k D] by (simp add: getSealed_def exec_bind)

lemma exec_seal_present:
  "wrapping_key D = Some w \<Longrightarrow> exec (seal c candidate iv [] p) D = (D, Inr \<lparr>rec_iv = iv, rec_sealed = encrypt c w iv [] p, rec_revision = 0\<rparr>)"
  by (simp add: seal_def exec_fmap exec_wrappingKey_present)

abbreviation fenced_off :: "db \<Rightarrow> id_fence \<Rightarrow> bool" where
  "fenced_off D f \<equiv> generation (current_fence D) \<noteq> generation f \<or> \<not> active (current_fence D)"

lemma exec_update_attempt:
  assumes "wrapping_key D = Some w"
  shows "exec (update_attempt c candidate iv ''outbox'' k mutate f) D = (case stored c D k of Inl e \<Rightarrow> (D, Inl Unreadable)
    | Inr v \<Rightarrow> if mutate v = JUndef then (D, Inr (Some v))
        else if fenced_off D (case f of Some x \<Rightarrow> x | None \<Rightarrow> current_fence D) then (D, Inl Fenced)
        else (store c iv k (mutate v) D, Inr (Some (mutate v))))"
  using assms
  by (cases f) (simp_all add: update_attempt_def exec_bind exec_catch exec_read_sealed exec_seal_present fencedWrite_def sameRecord_def store_def Let_def
      split: sum.split prod.split)

lemma exec_updateSealed:
  assumes "wrapping_key D = Some w"
  shows "exec (updateSealed c rnd ''outbox'' k mutate f) D = (case stored c D k of Inl e \<Rightarrow> (D, Inl Unreadable)
    | Inr v \<Rightarrow> if mutate v = JUndef then (D, Inr v)
        else if fenced_off D (case f of Some x \<Rightarrow> x | None \<Rightarrow> current_fence D) then (D, Inl Fenced)
        else (store c (snd (rnd 7)) k (mutate v) D, Inr (mutate v)))"
proof -
  have eight: "(8 :: nat) = Suc 7" by simp
  show ?thesis unfolding updateSealed_def eight update_attempts.simps exec_bind exec_update_attempt [OF assms]
    by (simp split: sum.split)
qed

lemma json_ok_wf: "json_ok v \<Longrightarrow> js_wf v"
  by (induction v rule: js_wf.induct) (auto simp: list_all_iff)

lemma stored_ok: "stored c D k = Inr v \<Longrightarrow> v = JUndef \<or> json_ok v"
  using json_parse_ok by (auto simp: stored_def bytes_json_def split: option.splits)

lemma in_jset: "x \<in> set (jset k v m) \<Longrightarrow> x = (k, v) \<or> x \<in> set m"
  unfolding jset_def by (induction m) (auto split: if_splits)

lemma wf_obj_set:
  assumes "js_wf e" "js_wf v"
  shows "js_wf (obj_set k v e)"
proof -
  have "distinct (map fst (members e))" "list_all (\<lambda>(k, v). js_wf v) (members e)" using assms(1) by (cases e; simp add: members_def)+
  then show ?thesis using assms(2) by (auto simp: obj_set_fields list_all_iff jset_def distinct_update dest!: in_jset [unfolded jset_def])
qed

text \<open>The database after a step for one entry differs at most in what is stored under its key.\<close>

definition touches :: "string \<Rightarrow> db \<Rightarrow> db \<Rightarrow> bool" where
  "touches k D D' \<longleftrightarrow> wrapping_key D' = wrapping_key D
     \<and> (\<forall>k'. k' \<noteq> k \<longrightarrow> jget (sealed_recs D') (''outbox'', k') = jget (sealed_recs D) (''outbox'', k'))"

abbreviation has :: "db \<Rightarrow> string \<Rightarrow> bool" where
  "has D k \<equiv> jhas (sealed_recs D) (''outbox'', k)"

lemma touches_refl [simp]: "touches k D D"
  by (simp add: touches_def)

lemma touches_store [simp]: "touches k D (store c iv k v D)"
  by (simp add: touches_def)

lemma touches_trans: "touches k D D' \<Longrightarrow> touches k D' D'' \<Longrightarrow> touches k D D''"
  by (simp add: touches_def)

lemma stored_touches: "touches k D D' \<Longrightarrow> k' \<noteq> k \<Longrightarrow> stored c D' k' = stored c D k'"
  by (simp add: touches_def stored_def cong: option.case_cong)

lemma has_touches: "touches k D D' \<Longrightarrow> k' \<noteq> k \<Longrightarrow> has D' k' = has D k'"
  by (simp add: touches_def jhas_def)

lemma has_store [simp]: "has (store c iv k v D) k' \<longleftrightarrow> k' = k \<or> has D k'"
  by (simp add: jhas_def)

lemma json_ok_obj_set: "json_ok e \<Longrightarrow> field e k' \<noteq> JUndef \<Longrightarrow> json_ok v \<Longrightarrow> json_ok (obj_set k v e)"
  using json_ok_jset [of "members e" v k] by (cases e) (simp_all add: obj_set_fields members_def)

text \<open>An entry with a text, as it is stored.\<close>

definition holds :: "cipher \<Rightarrow> db \<Rightarrow> jsv \<Rightarrow> bool" where
  "holds c D x \<longleftrightarrow> stored c D (entry_id x) = Inr x \<and> truthy x \<and> json_ok x \<and> field x ''text'' \<noteq> JUndef"

text \<open>The message of an entry is kept: its destination, and its text or the one a failed send reports as the original.\<close>

definition says :: "string option \<Rightarrow> jsv \<Rightarrow> jsv \<Rightarrow> bool" where
  "says original v v' \<longleftrightarrow> destination v' = destination v \<and> (entry_text v' = entry_text v \<or> map_option JStr original = Some (entry_text v'))"

lemma keepQueued_kept:
  assumes "cipher_inverts c" "wrapping_key D = Some w" "holds c D x" "json_ok z" "entry_id z = entry_id x" "says original x z" "truthy z"
    "exec (keepQueued c rnd f z) D = (D', Inr ())"
  shows "\<exists>v'. stored c D' (entry_id x) = Inr v' \<and> truthy v' \<and> says original x v'"
proof -
  have z: "z \<noteq> JUndef" "js_wf z" "norm z = z" using assms(4) json_ok_wf norm_id by auto
  have "D' = D \<or> D' = store c (snd (rnd 7)) (entry_id z) z D"
    using assms(3,5,8) by (auto simp: keepQueued_def exec_catch exec_fmap exec_updateSealed [OF assms(2)] holds_def split: sum.splits if_splits)
  then have "stored c D' (entry_id x) = Inr x \<or> stored c D' (entry_id x) = Inr z"
    using stored_store [OF assms(1,2) z(2,1)] z(3) assms(3,5) by (auto simp: holds_def)
  then show ?thesis using assms(3,6,7) by (auto simp: holds_def says_def)
qed

lemma adopt_original_says:
  assumes "adopt_original err changed x = (changed', y)" "json_ok x" "field x ''text'' \<noteq> JUndef" "truthy x"
  shows "json_ok y \<and> says (er_original err) x y \<and> field y ''text'' \<noteq> JUndef \<and> truthy y"
proof (cases "y = x")
  case True
  then show ?thesis using assms(2-4) by (simp add: says_def)
next
  case False
  then obtain original where o: "er_original err = Some original" "y = obj_set ''committed'' (JObj [(''text'', JStr original)]) x"
    using assms(1) by (auto simp: adopt_original_def split: option.splits if_splits)
  have "json_ok y" unfolding o(2) by (rule json_ok_obj_set [OF assms(2,3)]) simp
  moreover have "truthy y" unfolding o(2) obj_set_fields by simp
  moreover have "field y ''text'' \<noteq> JUndef" unfolding o(2) field_obj_set using assms(3) by simp
  moreover have "entry_text y = JStr original" "destination y = destination x" unfolding o(2) by (simp_all add: entry_text_def)
  ultimately show ?thesis unfolding says_def o(1) option.map by metis
qed

lemma says_obj_set [simp]: "says original x (obj_set ''error'' v y) = says original x y" "says original x (obj_set ''failed'' v y) = says original x y"
proof -
  have "entry_text (obj_set ''error'' v y) = entry_text y" "entry_text (obj_set ''failed'' v y) = entry_text y" by (simp_all add: entry_text_def)
  then show "says original x (obj_set ''error'' v y) = says original x y" "says original x (obj_set ''failed'' v y) = says original x y"
    unfolding says_def by simp_all
qed

lemma exec_keepQueued:
  assumes "wrapping_key D = Some w"
  shows "\<exists>D'. exec (keepQueued c rnd f x) D = (D', Inr ()) \<and> touches (entry_id x) D D' \<and> (has D k \<longrightarrow> has D' k)"
  by (auto simp: keepQueued_def exec_catch exec_fmap exec_updateSealed [OF assms] split: sum.split)

text \<open>What a step adds to the events: entries that are shown, and sends of the entry.\<close>

definition adds :: "jsv \<Rightarrow> db \<Rightarrow> flushing \<Rightarrow> flushing \<Rightarrow> bool" where
  "adds x D s s' \<longleftrightarrow> set (fl_events s) \<subseteq> set (fl_events s')
     \<and> (\<forall>ev \<in> set (fl_events s'). ev \<in> set (fl_events s) \<or> (\<exists>d i v. ev = Shown d i v) \<or> (\<exists>r. ev = Call x (entry_text x) r D))"

lemma adds_trans: "adds x D s s' \<Longrightarrow> adds x D s' s'' \<Longrightarrow> adds x D s s''"
  unfolding adds_def by blast

lemma adds_events: "fl_events s' = fl_events s \<Longrightarrow> adds x D s s'" "fl_events s' = fl_events s @ show_entry ol e \<Longrightarrow> adds x D s s'"
  by (auto simp: adds_def show_entry_def split: if_splits)

lemma exec_try_send:
  "\<exists>r s'. exec (try_send k ol x s) D = (D, Inr (r, s')) \<and> adds x D s s' \<and> Call x (entry_text x) r D \<in> set (fl_events s')"
proof (induction k arbitrary: s)
  case 0
  then show ?case by (auto simp: Let_def adds_def add_events_def)
next
  case (Suc k)
  let ?r = "ol_reply ol (fl_calls s)"
  let ?s = "add_events [Call x (entry_text x) ?r D] (s\<lparr>fl_calls := Suc (fl_calls s)\<rparr>)"
  have a: "adds x D s ?s" "Call x (entry_text x) ?r D \<in> set (fl_events ?s)" by (auto simp: adds_def add_events_def)
  show ?case
  proof (cases "exec (try_send (Suc k) ol x s) D = (D, Inr (?r, ?s))")
    case False
    then have "exec (try_send (Suc k) ol x s) D = exec (try_send k ol x ?s) D"
      by (simp add: Let_def split: send_reply.splits if_splits)
    then show ?thesis using Suc.IH [of ?s] adds_trans [OF a(1)] by auto
  qed (use a in auto)
qed

lemma exec_failed_send:
  assumes "wrapping_key D = Some w"
  shows "\<exists>D' go s'. exec (failed_send c rnd ol f err changed x s) D = (D', Inr (go, s')) \<and> touches (entry_id x) D D' \<and> adds x D0 s s'
    \<and> (has D k \<longrightarrow> has D' k)
    \<and> (cipher_inverts c \<longrightarrow> holds c D x \<longrightarrow> (\<exists>v'. stored c D' (entry_id x) = Inr v' \<and> truthy v' \<and> says (er_original err) x v'))"
proof -
  obtain changed' y where y: "adopt_original err changed x = (changed', y)" by force
  have i: "entry_id y = entry_id x" using y by (auto simp: adopt_original_def split: option.splits if_splits)
  have keep: "\<exists>D'. exec (keepQueued c rnd f z) D = (D', Inr ()) \<and> touches (entry_id x) D D' \<and> (has D k \<longrightarrow> has D' k)"
    if "entry_id z = entry_id x" for z using exec_keepQueued [OF assms, of c rnd f z k] that by simp
  obtain D1 where 1: "exec (keepQueued c rnd f (obj_set ''error'' (JStr (er_message err)) y)) D = (D1, Inr ())" "touches (entry_id x) D D1" "has D k \<longrightarrow> has D1 k"
    using keep [of "obj_set ''error'' (JStr (er_message err)) y"] i by auto
  obtain D2 where 2: "exec (keepQueued c rnd f y) D = (D2, Inr ())" "touches (entry_id x) D D2" "has D k \<longrightarrow> has D2 k"
    using keep [of y] i by auto
  obtain D3 where 3: "exec (keepQueued c rnd f (obj_set ''error'' (JStr (er_message err)) (obj_set ''failed'' (JBool True) y))) D = (D3, Inr ())"
    "touches (entry_id x) D D3" "has D k \<longrightarrow> has D3 k"
    using keep [of "obj_set ''error'' (JStr (er_message err)) (obj_set ''failed'' (JBool True) y)"] i by auto
  have kept: "\<exists>v'. stored c E (entry_id x) = Inr v' \<and> truthy v' \<and> says (er_original err) x v'" if "cipher_inverts c" "holds c D x" "E \<in> {D, D1, D2, D3}" for E
  proof -
    have "json_ok y" "says (er_original err) x y" "field y ''text'' \<noteq> JUndef" "truthy y"
      using adopt_original_says [OF y] that(2) by (auto simp: holds_def)
    moreover have "json_ok (obj_set ''error'' (JStr (er_message err)) y)" "json_ok (obj_set ''failed'' (JBool True) y)"
      using json_ok_obj_set [OF calculation(1,3)] by auto
    moreover have "json_ok (obj_set ''error'' (JStr (er_message err)) (obj_set ''failed'' (JBool True) y))"
      using calculation(3) by (intro json_ok_obj_set [OF calculation(6), where k' = "''text''"]) simp_all
    moreover have "truthy (obj_set k v z)" for k v z by (simp add: obj_set_fields)
    ultimately show ?thesis
      using that i 1(1) 2(1) 3(1) keepQueued_kept [OF that(1) assms that(2)]
      by (auto simp: holds_def says_def [of _ x x])
  qed
  show ?thesis
    using 1 2 3 kept by (auto simp: failed_send_def exec_bind y go_on_def break_def add_events_def Let_def intro: adds_events)
qed

text \<open>A message that was not accepted is kept.\<close>

definition taken :: "outbox_event set \<Rightarrow> string \<Rightarrow> bool" where
  "taken evs i \<longleftrightarrow> (\<exists>x t D0. entry_id x = i \<and> Call x t Accepted D0 \<in> evs)"

definition kept :: "outbox_event set \<Rightarrow> string \<Rightarrow> jsv \<Rightarrow> jsv \<Rightarrow> bool" where
  "kept evs i v v' \<longleftrightarrow> says None v v' \<or> (\<exists>x t err D0. entry_id x = i \<and> Call x t (Refused err) D0 \<in> evs \<and> says (er_original err) v v')"

definition survives :: "cipher \<Rightarrow> outbox_event set \<Rightarrow> string \<Rightarrow> db \<Rightarrow> db \<Rightarrow> bool" where
  "survives c evs i D D' \<longleftrightarrow> (\<forall>v. stored c D i = Inr v \<longrightarrow> truthy v \<longrightarrow> field v ''text'' \<noteq> JUndef \<longrightarrow>
     taken evs i \<or> (\<exists>v'. stored c D' i = Inr v' \<and> kept evs i v v'))"

lemma survives_refl: "survives c evs i D D"
  by (auto simp: survives_def kept_def says_def)

lemma survives_mono: "survives c evs i D D' \<Longrightarrow> evs \<subseteq> evs' \<Longrightarrow> stored c D'' i = stored c D' i \<Longrightarrow> survives c evs' i D D''"
  unfolding survives_def taken_def kept_def by (simp, blast)

lemma exec_deliver:
  assumes "wrapping_key D = Some w"
  shows "\<exists>D' go s'. exec (deliver c rnd ol f changed x s) D = (D', Inr (go, s')) \<and> touches (entry_id x) D D' \<and> adds x D s s'
    \<and> (has D k \<longrightarrow> has D' k \<or> (k = entry_id x \<and> Call x (entry_text x) Accepted D \<in> set (fl_events s')))
    \<and> (cipher_inverts c \<longrightarrow> holds c D x \<longrightarrow> survives c (set (fl_events s')) (entry_id x) D D')"
proof -
  obtain r s1 where t: "exec (try_send 2 ol x s) D = (D, Inr (r, s1))" "adds x D s s1" "Call x (entry_text x) r D \<in> set (fl_events s1)"
    using exec_try_send [of 2 ol x s D] by blast
  show ?thesis
  proof (cases "failure r")
    case (Some err)
    obtain D' go s' where f: "exec (failed_send c rnd ol f err changed x s1) D = (D', Inr (go, s'))" "touches (entry_id x) D D'" "adds x D s1 s'"
      "has D k \<longrightarrow> has D' k"
      "cipher_inverts c \<longrightarrow> holds c D x \<longrightarrow> (\<exists>v'. stored c D' (entry_id x) = Inr v' \<and> truthy v' \<and> says (er_original err) x v')"
      using exec_failed_send [OF assms] by metis
    have "r = Refused err \<or> er_original err = None" using Some by (auto simp: failure_def split: send_reply.splits)
    moreover have "Call x (entry_text x) r D \<in> set (fl_events s')" using t(3) f(3) by (auto simp: adds_def)
    ultimately have "kept (set (fl_events s')) (entry_id x) x v'" if "says (er_original err) x v'" for v'
      using that unfolding kept_def by metis
    then have "survives c (set (fl_events s')) (entry_id x) D D'" if "cipher_inverts c" "holds c D x"
      using that f(5) by (auto simp: survives_def holds_def)
    then show ?thesis using t Some f adds_trans [OF t(2)] by (auto simp: deliver_def exec_bind)
  next
    case None
    then have r: "r = Accepted" by (simp add: failure_def split: send_reply.splits)
    have "touches (entry_id x) D (D\<lparr>sealed_recs := jdel (''outbox'', entry_id x) (sealed_recs D)\<rparr>)" by (simp add: touches_def)
    moreover have "adds x D s (s1\<lparr>fl_sent := Suc (fl_sent s1)\<rparr>)" using t(2) by (simp add: adds_def)
    moreover have "survives c (set (fl_events s1)) (entry_id x) D D'" for D' using t(3) unfolding r survives_def taken_def by blast
    ultimately show ?thesis
      using t None r by (auto simp: deliver_def exec_bind exec_catch exec_fmap deleteKeyIn_def fencedWrite_def go_on_def break_def Let_def jhas_def)
  qed
qed

text \<open>The outbox as the code leaves it: the identifier of an entry is its key.\<close>

definition outbox_ok :: "cipher \<Rightarrow> db \<Rightarrow> bool" where
  "outbox_ok c D \<longleftrightarrow> wrapping_key D \<noteq> None \<and> jwf (sealed_recs D)
     \<and> (\<forall>k v. stored c D k = Inr v \<longrightarrow> v = JUndef \<or> field v ''id'' = JStr k)"

text \<open>An entry as it was listed is what is stored, unless the flush only shows it or passes it by.\<close>

definition listed :: "cipher \<Rightarrow> db \<Rightarrow> jsv \<Rightarrow> bool" where
  "listed c D e \<longleftrightarrow> truthy (field e ''unreadable'') \<or> (truthy (field e ''expired'') \<and> \<not> committed e)
     \<or> (stored c D (entry_id e) = Inr e \<and> truthy e)"

text \<open>A send to a secure session happens while its text is stored as the committed one.\<close>

definition durable :: "cipher \<Rightarrow> outlet \<Rightarrow> outbox_event \<Rightarrow> bool" where
  "durable c ol ev = (case ev of Shown d i v \<Rightarrow> True | Call x t r D \<Rightarrow> secure ol x \<longrightarrow>
     (\<exists>v. stored c D (entry_id x) = Inr v \<and> committed v \<and> field (field v ''committed'') ''text'' = t))"

definition step_ok :: "cipher \<Rightarrow> outlet \<Rightarrow> string \<Rightarrow> db \<Rightarrow> flushing \<Rightarrow> db \<Rightarrow> flushing \<Rightarrow> bool" where
  "step_ok c ol i D s D' s' \<longleftrightarrow> touches i D D' \<and> set (fl_events s) \<subseteq> set (fl_events s')
     \<and> (\<forall>ev \<in> set (fl_events s'). ev \<in> set (fl_events s) \<or> durable c ol ev)
     \<and> (has D i \<longrightarrow> has D' i \<or> taken (set (fl_events s')) i)"

lemma step_ok_quiet: "fl_events s' = fl_events s \<or> fl_events s' = fl_events s @ show_entry ol e \<Longrightarrow> step_ok c ol i D s D s'"
  by (auto simp: step_ok_def durable_def show_entry_def split: if_splits)

lemma exec_deliver_ok:
  assumes "wrapping_key D = Some w" "durable c ol (Call x (entry_text x) Accepted D)"
  shows "\<exists>D' go s'. exec (deliver c rnd ol f changed x s) D = (D', Inr (go, s')) \<and> step_ok c ol (entry_id x) D s D' s'
    \<and> (cipher_inverts c \<longrightarrow> holds c D x \<longrightarrow> survives c (set (fl_events s')) (entry_id x) D D')"
proof -
  obtain D' go s' where d: "exec (deliver c rnd ol f changed x s) D = (D', Inr (go, s'))" "touches (entry_id x) D D'" "adds x D s s'"
    "has D (entry_id x) \<longrightarrow> has D' (entry_id x) \<or> Call x (entry_text x) Accepted D \<in> set (fl_events s')"
    "cipher_inverts c \<longrightarrow> holds c D x \<longrightarrow> survives c (set (fl_events s')) (entry_id x) D D'"
    using exec_deliver [OF assms(1), of c rnd ol f changed x s "entry_id x"] by blast
  have dur: "durable c ol (Call x (entry_text x) r D)" for r using assms(2) by (simp add: durable_def)
  have "durable c ol ev" if "ev \<in> set (fl_events s')" "ev \<notin> set (fl_events s)" for ev
    using d(3) that dur by (auto simp: adds_def durable_def [of c ol "Shown _ _ _"])
  then show ?thesis using d by (auto simp: step_ok_def adds_def taken_def)
qed

lemma commit_stored:
  assumes "cipher_inverts c" "wrapping_key D = Some w" "stored c D i = Inr e" "commit_change e = x" "x \<noteq> JUndef"
  shows "\<exists>v. stored c (store c iv i x D) i = Inr v \<and> committed v \<and> field (field v ''committed'') ''text'' = entry_text x"
proof -
  have x: "x = obj_set ''committed'' (JObj [(''text'', field e ''text'')]) e" "truthy e"
    using assms(4,5) by (auto simp: commit_change_def split: if_splits)
  have e: "json_ok e" using stored_ok [OF assms(3)] x(2) by auto
  have t: "field e ''text'' = JUndef \<or> json_ok (field e ''text'')"
    using e by (cases e) (auto simp: list_all_iff dest!: map_of_SomeD split: option.split)
  have wf: "js_wf x" unfolding x(1) by (rule wf_obj_set) (use json_ok_wf [OF e] t json_ok_wf in auto)
  have fs: "distinct (map fst (jset ''committed'' (JObj [(''text'', field e ''text'')]) (members e)))"
    using wf unfolding x(1) obj_set_fields by simp
  have "field (norm x) ''committed'' = norm (JObj [(''text'', field e ''text'')])"
    using field_norm [OF fs, of "''committed''"] field_obj_set [of "''committed''" "JObj [(''text'', field e ''text'')]" e "''committed''"]
    unfolding x(1) obj_set_fields by simp
  moreover have "field (norm (JObj [(''text'', field e ''text'')])) ''text'' = field e ''text''" using t by (auto simp: norm_id)
  moreover have "entry_text x = field e ''text''" unfolding x(1) by (simp add: entry_text_def)
  ultimately show ?thesis using stored_store [OF assms(1,2) wf assms(5)] by simp
qed

lemma survives_commit:
  assumes "cipher_inverts c" "wrapping_key D = Some w" "stored c D (entry_id e) = Inr e" "truthy e" "\<not> committed e"
    "x = obj_set ''committed'' (JObj [(''text'', field e ''text'')]) e"
    "holds c (store c iv (entry_id e) x D) x \<longrightarrow> survives c evs (entry_id e) (store c iv (entry_id e) x D) D'"
  shows "survives c evs (entry_id e) D D'"
proof (cases "field e ''text'' = JUndef")
  case True
  then show ?thesis using assms(3) by (simp add: survives_def)
next
  case False
  have e: "json_ok e" using stored_ok [OF assms(3)] assms(4) by auto
  then have "json_ok (field e ''text'')" using json_ok_field [OF e, of "''text''"] False by blast
  then have x: "json_ok x" unfolding assms(6) by (intro json_ok_obj_set [OF e False]) simp
  have f: "entry_id x = entry_id e" "field x ''text'' \<noteq> JUndef" "truthy x" using False unfolding assms(6) by (simp_all add: obj_set_fields [symmetric]) (simp add: obj_set_fields)
  have st: "stored c (store c iv (entry_id e) x D) (entry_id e) = Inr x"
    using stored_store [OF assms(1,2) json_ok_wf [OF x], of iv "entry_id e" "entry_id e"] norm_id [OF x] f(3) by (cases x) auto
  have same: "destination x = destination e" "entry_text x = entry_text e" using assms(5) unfolding assms(6) by (simp_all add: entry_text_def)
  have "holds c (store c iv (entry_id e) x D) x" using st x f by (simp add: holds_def)
  then have "survives c evs (entry_id e) (store c iv (entry_id e) x D) D'" using assms(7) by blast
  then have "taken evs (entry_id e) \<or> (\<exists>v'. stored c D' (entry_id e) = Inr v' \<and> kept evs (entry_id e) x v')"
    unfolding survives_def using st f(2,3) by blast
  moreover have "kept evs (entry_id e) x v' = kept evs (entry_id e) e v'" for v' unfolding kept_def says_def same ..
  ultimately show ?thesis unfolding survives_def assms(3) by auto
qed

lemma exec_attempt:
  assumes "cipher_inverts c" "wrapping_key D = Some w" "stored c D (entry_id e) = Inr e" "truthy e" "\<not> truthy (field e ''failed'')"
  shows "\<exists>D' go s'. exec (attempt c rnd ol f e s) D = (D', Inr (go, s')) \<and> step_ok c ol (entry_id e) D s D' s'
    \<and> survives c (set (fl_events s')) (entry_id e) D D'"
proof (cases "secure ol e \<and> \<not> committed e")
  case True
  let ?x = "commit_change e"
  let ?D = "store c (snd (rnd False 7)) (entry_id e) ?x D"
  have x: "?x = obj_set ''committed'' (JObj [(''text'', field e ''text'')]) e" using True assms(4,5) by (simp add: commit_change_def)
  then have ne: "?x \<noteq> JUndef" "truthy ?x" by (simp_all add: obj_set_fields)
  have c: "committed ?x" "\<not> truthy (field ?x ''failed'')" "entry_id ?x = entry_id e" using assms(5) by (simp_all add: x)
  have u: "exec (updateSealed c (rnd False) ''outbox'' (entry_id e) commit_change (Some f)) D
      = (if fenced_off D f then (D, Inl Fenced) else (?D, Inr ?x))"
    using exec_updateSealed [OF assms(2)] assms(3) ne(1) by simp
  show ?thesis
  proof (cases "fenced_off D f")
    case True
    with \<open>secure ol e \<and> \<not> committed e\<close> show ?thesis
      using step_ok_quiet [of s s] by (auto simp: attempt_def exec_bind exec_catch exec_fmap u break_def survives_refl)
  next
    case False
    have "durable c ol (Call ?x (entry_text ?x) Accepted ?D)"
      using commit_stored [OF assms(1-3) refl ne(1)] c(3) by (auto simp: durable_def)
    then obtain D' go s' where d: "exec (deliver c (rnd True) ol f True ?x s) ?D = (D', Inr (go, s'))" "step_ok c ol (entry_id e) ?D s D' s'"
      "holds c ?D ?x \<longrightarrow> survives c (set (fl_events s')) (entry_id e) ?D D'"
      using exec_deliver_ok [of ?D w c ol ?x "rnd True" f True s] assms(1,2) c(3) by auto
    have "survives c (set (fl_events s')) (entry_id e) D D'"
      using survives_commit [OF assms(1-4) _ x d(3)] \<open>secure ol e \<and> \<not> committed e\<close> by blast
    moreover have "step_ok c ol (entry_id e) D s D' s'"
      using d(2) touches_trans [OF touches_store] by (auto simp: step_ok_def)
    ultimately show ?thesis
      using d(1) True False ne c by (auto simp: attempt_def exec_bind exec_catch exec_fmap u)
  qed
next
  case False
  have "durable c ol (Call e (entry_text e) Accepted D)" using False assms(3) by (auto simp: durable_def entry_text_def)
  then obtain D' go s' where "exec (deliver c (rnd True) ol f False e s) D = (D', Inr (go, s'))" "step_ok c ol (entry_id e) D s D' s'"
    "holds c D e \<longrightarrow> survives c (set (fl_events s')) (entry_id e) D D'"
    using exec_deliver_ok [OF assms(2), of c ol e "rnd True" f False s] assms(1) by blast
  moreover have "survives c (set (fl_events s')) (entry_id e) D D'" if "\<not> holds c D e"
    using that assms(3,4) stored_ok [OF assms(3)] by (auto simp: survives_def holds_def)
  ultimately show ?thesis using False by (simp only: attempt_def if_False) blast
qed

lemma exec_visit:
  assumes "cipher_inverts c" "wrapping_key D = Some w" "listed c D e"
  shows "\<exists>D' go s'. exec (visit c rnd ol f now e s) D = (D', Inr (go, s')) \<and> step_ok c ol (entry_id e) D s D' s'
    \<and> survives c (set (fl_events s')) (entry_id e) D D'"
proof (cases "truthy (field e ''unreadable'') \<or> \<not> sameFence f (current_fence D) \<or> truthy (field e ''failed'') \<or> (truthy (field e ''expired'') \<and> \<not> committed e)")
  case True
  then show ?thesis using step_ok_quiet [where e = e]
    by (auto simp: visit_def exec_bind go_on_def break_def add_events_def survives_refl)
next
  case False
  then obtain D' go s' where "exec (attempt c rnd ol f e s) D = (D', Inr (go, s'))" "step_ok c ol (entry_id e) D s D' s'"
    "survives c (set (fl_events s')) (entry_id e) D D'"
    using exec_attempt [OF assms(1,2), of e rnd ol f s] assms(3) by (auto simp: listed_def)
  then show ?thesis using False step_ok_quiet [where e = e]
    by (auto simp: visit_def exec_bind go_on_def survives_refl)
qed

lemma listed_touches: "touches k D D' \<Longrightarrow> entry_id e \<noteq> k \<Longrightarrow> listed c D e \<Longrightarrow> listed c D' e"
  by (auto simp: listed_def stored_touches)

lemma exec_visits:
  assumes "cipher_inverts c" "wrapping_key D = Some w" "\<forall>e \<in> set es. listed c D e" "distinct (map entry_id es)"
    "\<forall>ev \<in> set (fl_events s). durable c ol ev"
  shows "\<exists>D' s'. exec (visits c rnd ol f es s) D = (D', Inr s') \<and> set (fl_events s) \<subseteq> set (fl_events s') \<and> (\<forall>ev \<in> set (fl_events s'). durable c ol ev)
    \<and> (\<forall>i. has D i \<longrightarrow> has D' i \<or> taken (set (fl_events s')) i) \<and> (\<forall>i. survives c (set (fl_events s')) i D D')
    \<and> (\<forall>i. i \<notin> entry_id ` set es \<longrightarrow> stored c D' i = stored c D i)"
  using assms(2-5)
proof (induction es arbitrary: D s)
  case (Cons e es)
  obtain D1 go s1 where v: "exec (visit c (rnd (length es)) ol f (ol_now ol (length es)) e s) D = (D1, Inr (go, s1))" and ok: "step_ok c ol (entry_id e) D s D1 s1"
    and su: "survives c (set (fl_events s1)) (entry_id e) D D1"
    using exec_visit [OF assms(1) Cons.prems(1)] Cons.prems(2) by (metis list.set_intros(1))
  have w: "wrapping_key D1 = Some w" using ok Cons.prems(1) by (simp add: step_ok_def touches_def)
  have t: "touches (entry_id e) D D1" using ok by (simp add: step_ok_def)
  have new: "entry_id e \<notin> entry_id ` set es" using Cons.prems(3) by simp
  have l: "\<forall>e' \<in> set es. listed c D1 e'"
    using new Cons.prems(2) by (metis image_eqI list.set_intros(2) listed_touches [OF t])
  have d: "\<forall>ev \<in> set (fl_events s1). durable c ol ev" using ok Cons.prems(4) by (auto simp: step_ok_def)
  have h: "has D1 i \<or> taken (set (fl_events s1)) i" if "has D i" for i
    using ok that has_touches [of "entry_id e" D D1 i] by (cases "i = entry_id e") (auto simp: step_ok_def)
  have o: "stored c D1 i = stored c D i" if "i \<noteq> entry_id e" for i by (rule stored_touches [OF t that])
  show ?case
  proof (cases go)
    case False
    have "survives c (set (fl_events s1)) i D D1" for i
      using su survives_mono [OF survives_refl subset_refl o] by (cases "i = entry_id e") simp_all
    then show ?thesis using False v d h ok o by (auto simp: exec_bind step_ok_def)
  next
    case True
    obtain D' s' where r: "exec (visits c rnd ol f es s1) D1 = (D', Inr s')" "set (fl_events s1) \<subseteq> set (fl_events s')"
      "\<forall>ev \<in> set (fl_events s'). durable c ol ev" "\<forall>i. has D1 i \<longrightarrow> has D' i \<or> taken (set (fl_events s')) i"
      "\<forall>i. survives c (set (fl_events s')) i D1 D'" "\<forall>i. i \<notin> entry_id ` set es \<longrightarrow> stored c D' i = stored c D1 i"
      using Cons.IH [OF w l _ d] Cons.prems(3) by auto
    have "set (fl_events s) \<subseteq> set (fl_events s')" using r(2) ok by (auto simp: step_ok_def)
    moreover have "has D' i \<or> taken (set (fl_events s')) i" if "has D i" for i
      using h [OF that] r(2,4) unfolding taken_def by blast
    moreover have "survives c (set (fl_events s')) i D D'" for i
    proof (cases "i = entry_id e")
      case True
      then show ?thesis using survives_mono [OF su r(2)] r(6) new by blast
    next
      case False
      then show ?thesis using r(5) o unfolding survives_def by metis
    qed
    moreover have "stored c D' i = stored c D i" if "i \<notin> entry_id ` set (e # es)" for i using that r(6) o by simp
    ultimately show ?thesis using v r(1,3) True by (simp add: exec_bind)
  qed
qed (simp add: survives_refl)

lemma outbox_id: "outbox_ok c D \<Longrightarrow> stored c D i = Inr v \<Longrightarrow> truthy v \<Longrightarrow> field v ''id'' = JStr i"
  unfolding outbox_ok_def by (metis truthy.simps(1))

lemma exec_write_expired:
  assumes "wrapping_key D = Some w"
  shows "exec (write_expired c rnd fo i e) D = (D, Inr ()) \<or> exec (write_expired c rnd fo i e) D = (store c (snd rnd) i e D, Inr ())"
  using exec_seal_present [OF assms]
  by (cases fo) (simp_all add: write_expired_def exec_catch putSealedIn_def putSealed_def exec_bind fencedWrite_def store_def assms Let_def)

lemma outbox_store:
  assumes "cipher_inverts c" "outbox_ok c D" "stored c D i = Inr v" "truthy v"
  shows "outbox_ok c (store c iv i (expired_entry v) D)"
proof -
  obtain w where w: "wrapping_key D = Some w" using assms(2) by (auto simp: outbox_ok_def)
  have v: "json_ok v" "field v ''id'' = JStr i" using stored_ok [OF assms(3)] assms(4) outbox_id [OF assms(2-4)] by auto
  let ?x = "expired_entry v"
  have wf: "js_wf ?x" unfolding expired_entry_def by (intro wf_obj_set json_ok_wf [OF v(1)]) simp_all
  obtain fs where fs: "?x = JObj fs" by (simp add: expired_entry_def obj_set_fields)
  have "field ?x ''id'' = JStr i" using v(2) by (simp add: expired_entry_def)
  then have "field (norm ?x) ''id'' = JStr i" using field_norm [of fs "''id''"] wf unfolding fs by simp
  then have "stored c (store c iv i ?x D) k = Inr u \<Longrightarrow> u = JUndef \<or> field u ''id'' = JStr k" for k u
    using stored_store [OF assms(1) w wf] fs assms(2) by (auto simp: outbox_ok_def split: if_splits)
  moreover have "jwf (sealed_recs (store c iv i ?x D))" using assms(2) by (simp add: outbox_ok_def store_def put_rec_def)
  ultimately show ?thesis using w unfolding outbox_ok_def by (auto simp: store_def put_rec_def)
qed

lemma exec_pending_entry:
  assumes "cipher_inverts c" "outbox_ok c D"
  shows "\<exists>D' r. exec (pending_entry c rnd now fo i) D = (D', Inr r) \<and> outbox_ok c D' \<and> touches i D D' \<and> has D' i = has D i
    \<and> (\<forall>e. r = Some e \<longrightarrow> entry_id e = i \<and> listed c D' e) \<and> (\<forall>v. stored c D i = Inr v \<longrightarrow> \<not> expires now v \<longrightarrow> stored c D' i = Inr v)"
proof (cases "stored c D i")
  case (Inl x)
  then show ?thesis using assms(2)
    by (auto simp: pending_entry_def exec_bind exec_catch exec_fmap exec_getSealed_outbox unreadable_entry_def listed_def)
next
  case (Inr v)
  obtain w where w: "wrapping_key D = Some w" using assms(2) by (auto simp: outbox_ok_def)
  show ?thesis
  proof (cases "truthy v \<and> expires now v")
    case False
    have "entry_id v = i \<and> listed c D v" if "truthy v"
    proof -
      have "field v ''id'' = JStr i" using outbox_id [OF assms(2) Inr that] .
      then show ?thesis using Inr that by (simp add: listed_def)
    qed
    then show ?thesis using False Inr assms(2) by (auto simp: pending_entry_def exec_bind exec_catch exec_fmap exec_getSealed_outbox)
  next
    case True
    then have i: "field v ''id'' = JStr i" using outbox_id [OF assms(2) Inr] by simp
    have h: "has D i" using Inr True by (auto simp: stored_def jhas_def split: option.splits)
    have e: "entry_id (expired_entry v) = i" "listed c D' (expired_entry v)" for D'
      using i True by (simp_all add: expired_entry_def listed_def expires_def)
    obtain D' where D': "exec (write_expired c rnd fo i (expired_entry v)) D = (D', Inr ())" "D' = D \<or> D' = store c (snd rnd) i (expired_entry v) D"
      using exec_write_expired [OF w] by metis
    have "outbox_ok c D'" "touches i D D'" "has D' i" using D'(2) assms outbox_store [OF assms Inr] True h by auto
    then show ?thesis using True Inr D'(1) e h by (auto simp: pending_entry_def exec_bind exec_catch exec_fmap exec_getSealed_outbox)
  qed
qed

lemma exec_pending_entries:
  assumes "cipher_inverts c" "outbox_ok c D" "distinct ids"
  shows "\<exists>D' es. exec (pending_entries c rnd now fo ids) D = (D', Inr es) \<and> outbox_ok c D' \<and> (\<forall>k. has D' k = has D k)
    \<and> (\<forall>k. k \<notin> set ids \<longrightarrow> stored c D' k = stored c D k) \<and> set (map entry_id es) \<subseteq> set ids \<and> distinct (map entry_id es) \<and> (\<forall>e \<in> set es. listed c D' e)
    \<and> (\<forall>k v. stored c D k = Inr v \<longrightarrow> \<not> expires now v \<longrightarrow> stored c D' k = Inr v)"
  using assms(2,3)
proof (induction ids arbitrary: D)
  case (Cons i ids)
  obtain D1 r where 1: "exec (pending_entry c (rnd (length ids)) now fo i) D = (D1, Inr r)" "outbox_ok c D1" "touches i D D1" "has D1 i = has D i"
    "\<forall>e. r = Some e \<longrightarrow> entry_id e = i \<and> listed c D1 e" "\<forall>v. stored c D i = Inr v \<longrightarrow> \<not> expires now v \<longrightarrow> stored c D1 i = Inr v"
    using exec_pending_entry [OF assms(1) Cons.prems(1), of "rnd (length ids)" now fo i] by (elim exE conjE) (rule that)
  obtain D' es where 2: "exec (pending_entries c rnd now fo ids) D1 = (D', Inr es)" "outbox_ok c D'" "\<forall>k. has D' k = has D1 k"
    "\<forall>k. k \<notin> set ids \<longrightarrow> stored c D' k = stored c D1 k" "set (map entry_id es) \<subseteq> set ids" "distinct (map entry_id es)" "\<forall>e \<in> set es. listed c D' e"
    "\<forall>k v. stored c D1 k = Inr v \<longrightarrow> \<not> expires now v \<longrightarrow> stored c D' k = Inr v"
    using Cons.IH [OF 1(2)] Cons.prems(2) by auto
  have kp: "stored c D' k = Inr v" if "stored c D k = Inr v" "\<not> expires now v" for k v
    using that 1(6) 2(8) stored_touches [OF 1(3), of k c] by (cases "k = i") auto
  have h: "has D' k = has D k" for k using 2(3) 1(4) has_touches [OF 1(3), of k] by (cases "k = i") auto
  have s: "stored c D' k = stored c D k" if "k \<notin> set (i # ids)" for k using that 2(4) stored_touches [OF 1(3), of k] by simp
  show ?case
  proof (cases r)
    case None
    have "set (map entry_id es) \<subseteq> set (i # ids)" using 2(5) by auto
    then show ?thesis using None 1(1) 2(1,2,6,7) h s kp by (simp add: exec_bind exec_fmap)
  next
    case (Some e)
    then have e: "entry_id e = i" "listed c D1 e" using 1(5) by auto
    have "listed c D' e" using e 2(4) Cons.prems(2) by (auto simp: listed_def)
    moreover have "i \<notin> set (map entry_id es)" using 2(5) Cons.prems(2) by auto
    ultimately have "set (map entry_id (e # es)) \<subseteq> set (i # ids)" "distinct (map entry_id (e # es))" "\<forall>x \<in> set (e # es). listed c D' x"
      using 2(5-7) e(1) by auto
    then show ?thesis using 1(1) 2(1,2) h s kp Some by (simp add: exec_bind exec_fmap)
  qed
qed simp

lemma exec_flush:
  assumes "cipher_inverts c" "outbox_ok c D"
  shows "\<exists>D' s. exec (flush c rnd0 rnd now ol) D = (D', Inr s) \<and> (\<forall>ev \<in> set (fl_events s). durable c ol ev)
    \<and> (\<forall>i. has D i \<longrightarrow> has D' i \<or> taken (set (fl_events s)) i)
    \<and> (\<forall>i v. stored c D i = Inr v \<longrightarrow> truthy v \<longrightarrow> field v ''text'' \<noteq> JUndef \<longrightarrow> \<not> expires now v \<longrightarrow>
         taken (set (fl_events s)) i \<or> (\<exists>v'. stored c D' i = Inr v' \<and> kept (set (fl_events s)) i v v'))"
proof (cases "ol_pendingRules ol")
  case True
  then show ?thesis by (simp add: flush_def fresh_flush_def kept_def says_def)
next
  case False
  let ?ids = "sort (map snd (filter (\<lambda>(s, k). s = ''outbox'') (jkeys (sealed_recs D))))"
  have "distinct (jkeys (sealed_recs D))" using assms(2) by (simp add: outbox_ok_def jwf_def)
  then have "distinct ?ids" by (auto simp: distinct_map inj_on_def)
  from exec_pending_entries [OF assms this, of rnd0 now "Some (current_fence D)"] obtain D1 es where p: "exec (pending_entries c rnd0 now (Some (current_fence D)) ?ids) D = (D1, Inr es)"
    "outbox_ok c D1" "\<forall>k. has D1 k = has D k" "distinct (map entry_id es)" "\<forall>e \<in> set es. listed c D1 e"
    "\<forall>k v. stored c D k = Inr v \<longrightarrow> \<not> expires now v \<longrightarrow> stored c D1 k = Inr v"
    by (elim exE conjE) (rule that)
  let ?es = "sort_key (\<lambda>e. number_of_value (field e ''createdAt'')) es"
  have "distinct (map entry_id ?es)" using p(4) by (auto simp: distinct_map)
  moreover obtain w where w: "wrapping_key D1 = Some w" using p(2) by (auto simp: outbox_ok_def)
  ultimately obtain D' s where v: "exec (visits c rnd ol (current_fence D) ?es fresh_flush) D1 = (D', Inr s)" "\<forall>ev \<in> set (fl_events s). durable c ol ev"
    "\<forall>i. has D1 i \<longrightarrow> has D' i \<or> taken (set (fl_events s)) i" "\<forall>i. survives c (set (fl_events s)) i D1 D'"
    using exec_visits [OF assms(1) w, of ?es fresh_flush ol rnd "current_fence D"] p(5) by (auto simp: fresh_flush_def)
  have f: "exec (flush c rnd0 rnd now ol) D = (D', Inr s)"
    using False p(1) v(1) by (simp add: flush_def exec_bind pending_def store_keys_def exec_fmap)
  have "taken (set (fl_events s)) i \<or> (\<exists>v'. stored c D' i = Inr v' \<and> kept (set (fl_events s)) i u v')"
    if "stored c D i = Inr u" "truthy u" "field u ''text'' \<noteq> JUndef" "\<not> expires now u" for i u
    using v(4) p(6) that unfolding survives_def by blast
  then show ?thesis using f v(2,3) p(3) by blast
qed

section \<open>Samples\<close>

definition sample_options :: "string \<Rightarrow> options" where
  "sample_options i = \<lparr>op_id = i, op_sentAt = JNum 7, op_holdUntil = 0, op_replyTo = 0\<rparr>"

definition sample_peer :: jsv where
  "sample_peer = JObj [(''kind'', JStr ''dm''), (''peer'', JStr ''bob'')]"

text \<open>Two messages to one peer, written at 5 and 6.\<close>

definition sample_outbox :: db where
  "sample_outbox = fst (exec (bind (enqueue sample_cipher (\<lambda>_. ([1], [2])) sample_peer ''hi'' (sample_options ''m'') 5)
     (\<lambda>_. enqueue sample_cipher (\<lambda>_. ([1], [3])) sample_peer ''you'' (sample_options ''n'') 6)) (new_db\<lparr>wrapping_key := Some [9]\<rparr>))"

definition sample_outlet :: "bool \<Rightarrow> send_reply \<Rightarrow> outlet" where
  "sample_outlet b r = \<lparr>ol_pendingRules = False, ol_dm_ratchet = b, ol_groups = False, ol_groups_ratchet = False, ol_now = \<lambda>_. 10,
     ol_reply = \<lambda>_. r, ol_open = \<lambda>_. True, ol_alive = \<lambda>_. True\<rparr>"

definition sample_rnd :: "nat \<Rightarrow> bool \<Rightarrow> nat \<Rightarrow> bytes \<times> bytes" where
  "sample_rnd n b k = ([1], [4, of_nat n, if b then 1 else 0])"

definition sample_flush :: "bool \<Rightarrow> send_reply \<Rightarrow> flushing prog" where
  "sample_flush b r = flush sample_cipher (\<lambda>_. ([1], [5])) sample_rnd 10 (sample_outlet b r)"

lemma outbox_okI:
  assumes "wrapping_key D \<noteq> None" "jwf (sealed_recs D)"
    "list_all (\<lambda>((st, k), r). st = ''outbox'' \<longrightarrow> (case stored c D k of Inl _ \<Rightarrow> True | Inr v \<Rightarrow> field v ''id'' = JStr k)) (sealed_recs D)"
  shows "outbox_ok c D"
  unfolding outbox_ok_def
proof (intro conjI allI impI)
  fix k v assume v: "stored c D k = Inr v"
  show "v = JUndef \<or> field v ''id'' = JStr k"
  proof (cases "jget (sealed_recs D) (''outbox'', k)")
    case None
    then show ?thesis using v by (simp add: stored_def)
  next
    case (Some r)
    then show ?thesis using jget_in [OF Some] assms(3) v by (fastforce simp: list_all_iff)
  qed
qed (use assms in auto)

lemma sample_outbox_ok: "outbox_ok sample_cipher sample_outbox"
proof (rule outbox_okI)
  show "wrapping_key sample_outbox \<noteq> None" by code_simp
  show "jwf (sealed_recs sample_outbox)" by code_simp
  show "list_all (\<lambda>((st, k), r). st = ''outbox'' \<longrightarrow> (case stored sample_cipher sample_outbox k of Inl _ \<Rightarrow> True | Inr v \<Rightarrow> field v ''id'' = JStr k)) (sealed_recs sample_outbox)"
    by code_simp
qed

lemma sample_cipher_inverts: "cipher_inverts sample_cipher"
  using sample_inverts by (simp add: sample_store_def)

lemma addressed_fewer:
  "addressed c w dest D \<Longrightarrow> wrapping_key D' = Some w \<Longrightarrow> list_all (\<lambda>r. r \<in> set (sealed_recs D)) (sealed_recs D') \<Longrightarrow> addressed c w dest D'"
  by (auto simp: addressed_def list_all_iff)

lemma sample_run: "list_all (addressed sample_cipher [9] (\<lambda>_. ''dm:bob'')) (visited (sample_flush False Accepted) sample_outbox)"
proof -
  have a: "addressed sample_cipher [9] (\<lambda>_. ''dm:bob'') sample_outbox" by code_simp
  have "let rs = sealed_recs sample_outbox in list_all (\<lambda>D. wrapping_key D = Some [9] \<and> list_all (\<lambda>r. r \<in> set rs) (sealed_recs D))
      (visited (sample_flush False Accepted) sample_outbox)" by code_simp
  then show ?thesis unfolding Let_def list_all_iff [of _ "visited _ _"] by (intro ballI addressed_fewer [OF a]) auto
qed

section \<open>Theorems\<close>

text \<open>Property C11: a flush keeps the order of the messages to one destination, whatever other tabs do meanwhile, so
  long as an identifier stays with its destination: when a message goes out after another one to the same peer,
  conversation or channel, that one was accepted or refused for good before; none overtakes one that is to be tried again.\<close>

theorem flush_keeps_order:
  assumes "ends (addressed c w dest) (flush c rnd0 rnd now ol) (Inr s)"
    and "sends (fl_events s) = xs @ (e1, r1) # ys @ (e2, r2) # zs" "destination e1 = destination e2" "entry_id e1 \<noteq> entry_id e2"
  shows "\<exists>(e, r) \<in> set ((e1, r1) # ys). entry_id e = entry_id e1 \<and> settled r"
proof -
  have start: "in_order (sends (fl_events fresh_flush))" "cleared (set (fl_waiting fresh_flush)) (sends (fl_events fresh_flush))"
    by (simp_all add: fresh_flush_def in_order_def cleared_def)
  have "in_order (sends (fl_events s))"
  proof (cases "ol_pendingRules ol")
    case True
    then show ?thesis using assms(1) start by (simp add: flush_def)
  next
    case False
    then obtain fence es where "ends (addressed c w dest) (pending c rnd0 now (Some fence)) (Inr es)"
      "ends (addressed c w dest) (visits c rnd ol fence es fresh_flush) (Inr s)"
      using assms(1) by (auto simp: flush_def elim!: ends_bindE)
    then show ?thesis using visits_order start ends_pending by blast
  qed
  then have "settled_after (entry_id e1) ((e1, r1) # ys)"
    using assms(2-4) unfolding in_order_def by blast
  then show ?thesis by (simp add: settled_after_def)
qed

theorem flush_keeps_order_witness:
  "\<exists>s e1 r1 e2 r2. snd (exec (sample_flush False Accepted) sample_outbox) = Inr s \<and> sends (fl_events s) = [(e1, r1), (e2, r2)]
     \<and> entry_id e1 \<noteq> entry_id e2 \<and> (\<exists>(e, r) \<in> set [(e1, r1)]. entry_id e = entry_id e1 \<and> settled r)"
proof -
  have "case snd (exec (sample_flush False Accepted) sample_outbox) of Inl _ \<Rightarrow> False
    | Inr s \<Rightarrow> (case sends (fl_events s) of [(e1, r1), (e2, r2)] \<Rightarrow> destination e1 = destination e2 \<and> entry_id e1 \<noteq> entry_id e2 | _ \<Rightarrow> False)"
    by code_simp
  then obtain s e1 r1 e2 r2 where s: "snd (exec (sample_flush False Accepted) sample_outbox) = Inr s" "sends (fl_events s) = [] @ (e1, r1) # [] @ (e2, r2) # []"
    "destination e1 = destination e2" "entry_id e1 \<noteq> entry_id e2"
    by (auto split: sum.splits list.splits prod.splits)
  have "ends (addressed sample_cipher [9] (\<lambda>_. ''dm:bob'')) (sample_flush False Accepted) (Inr s)"
    using ends_exec [OF sample_run] s(1) by simp
  then have "\<exists>(e, r) \<in> set [(e1, r1)]. entry_id e = entry_id e1 \<and> settled r"
    using flush_keeps_order [OF _ s(2-4)] unfolding sample_flush_def by blast
  then show ?thesis using s by auto
qed

text \<open>Property C12: a flush that runs alone commits before it sends: it ends, and every message it handed to a session with
  secure messaging went out while the outbox held an attempt committed with exactly that text.\<close>

theorem flush_commits_before_sending:
  assumes "cipher_inverts c" "outbox_ok c D"
  shows "\<exists>D' s. exec (flush c rnd0 rnd now ol) D = (D', Inr s) \<and> (\<forall>x t r D0. Call x t r D0 \<in> set (fl_events s) \<longrightarrow> secure ol x \<longrightarrow>
    (\<exists>v. exec (getSealed c ''outbox'' (entry_id x)) D0 = (D0, Inr v) \<and> committed v \<and> field (field v ''committed'') ''text'' = t))"
proof -
  obtain D' s where f: "exec (flush c rnd0 rnd now ol) D = (D', Inr s)" "\<forall>ev \<in> set (fl_events s). durable c ol ev"
    using exec_flush [OF assms] by blast
  have "\<exists>v. stored c D0 (entry_id x) = Inr v \<and> committed v \<and> field (field v ''committed'') ''text'' = t"
    if "Call x t r D0 \<in> set (fl_events s)" "secure ol x" for x t r D0
    using bspec [OF f(2) that(1)] that(2) by (simp add: durable_def)
  then show ?thesis using f(1) by (simp add: exec_getSealed_outbox)
qed

theorem flush_commits_before_sending_witness:
  "\<exists>s x D0 v. snd (exec (sample_flush True Accepted) sample_outbox) = Inr s \<and> Call x (JStr ''hi'') Accepted D0 \<in> set (fl_events s)
     \<and> exec (getSealed sample_cipher ''outbox'' (entry_id x)) D0 = (D0, Inr v) \<and> field (field v ''committed'') ''text'' = JStr ''hi''"
proof -
  have "case snd (exec (sample_flush True Accepted) sample_outbox) of Inl _ \<Rightarrow> False
    | Inr s \<Rightarrow> (case fl_events s of Call x t r D0 # _ \<Rightarrow> t = JStr ''hi'' \<and> r = Accepted \<and> secure (sample_outlet True Accepted) x | _ \<Rightarrow> False)"
    by code_simp
  then obtain s x D0 evs where s: "snd (exec (sample_flush True Accepted) sample_outbox) = Inr s" "fl_events s = Call x (JStr ''hi'') Accepted D0 # evs"
    "secure (sample_outlet True Accepted) x"
    by (auto split: sum.splits list.splits outbox_event.splits)
  have "\<exists>D' s. exec (sample_flush True Accepted) sample_outbox = (D', Inr s) \<and> (\<forall>x t r D0. Call x t r D0 \<in> set (fl_events s) \<longrightarrow> secure (sample_outlet True Accepted) x \<longrightarrow>
    (\<exists>v. exec (getSealed sample_cipher ''outbox'' (entry_id x)) D0 = (D0, Inr v) \<and> committed v \<and> field (field v ''committed'') ''text'' = t))"
    unfolding sample_flush_def by (rule flush_commits_before_sending [OF sample_cipher_inverts sample_outbox_ok])
  then obtain D' where "exec (sample_flush True Accepted) sample_outbox = (D', Inr s)" "\<forall>x t r D0. Call x t r D0 \<in> set (fl_events s) \<longrightarrow> secure (sample_outlet True Accepted) x \<longrightarrow>
    (\<exists>v. exec (getSealed sample_cipher ''outbox'' (entry_id x)) D0 = (D0, Inr v) \<and> committed v \<and> field (field v ''committed'') ''text'' = t)"
    using s(1) by auto
  then have "\<exists>v. exec (getSealed sample_cipher ''outbox'' (entry_id x)) D0 = (D0, Inr v) \<and> committed v \<and> field (field v ''committed'') ''text'' = JStr ''hi''"
    using s(2,3) by (metis list.set_intros(1))
  then obtain v where "exec (getSealed sample_cipher ''outbox'' (entry_id x)) D0 = (D0, Inr v)" "field (field v ''committed'') ''text'' = JStr ''hi''"
    by blast
  then show ?thesis using s by (intro exI [of _ s] exI [of _ x] exI [of _ D0] exI [of _ v]) simp
qed

text \<open>Property C13: a message leaves the outbox only when the server took it. After a flush that runs alone every
  entry is still stored unless the session accepted it, in whatever way its send failed; and an entry that
  can be read and does not expire still has its destination and its text (the committed text, once it is committed), or the
  text that a failed send of this entry reported as the original of the operation.\<close>

theorem unsent_messages_stay:
  assumes "cipher_inverts c" "outbox_ok c D"
  shows "\<exists>D' s. exec (flush c rnd0 rnd now ol) D = (D', Inr s)
    \<and> (\<forall>i. jhas (sealed_recs D) (''outbox'', i) \<longrightarrow> jhas (sealed_recs D') (''outbox'', i)
        \<or> (\<exists>x t D0. entry_id x = i \<and> Call x t Accepted D0 \<in> set (fl_events s)))
    \<and> (\<forall>i v. exec (getSealed c ''outbox'' i) D = (D, Inr v) \<longrightarrow> truthy v \<longrightarrow> field v ''text'' \<noteq> JUndef \<longrightarrow> \<not> expires now v \<longrightarrow>
        (\<exists>x t D0. entry_id x = i \<and> Call x t Accepted D0 \<in> set (fl_events s))
        \<or> (\<exists>v'. exec (getSealed c ''outbox'' i) D' = (D', Inr v') \<and> destination v' = destination v
             \<and> (entry_text v' = entry_text v
                 \<or> (\<exists>x t err D0 original. entry_id x = i \<and> Call x t (Refused err) D0 \<in> set (fl_events s)
                      \<and> er_original err = Some original \<and> entry_text v' = JStr original))))"
proof -
  obtain D' s where f: "exec (flush c rnd0 rnd now ol) D = (D', Inr s)" "\<forall>i. has D i \<longrightarrow> has D' i \<or> taken (set (fl_events s)) i"
    "\<forall>i v. stored c D i = Inr v \<longrightarrow> truthy v \<longrightarrow> field v ''text'' \<noteq> JUndef \<longrightarrow> \<not> expires now v \<longrightarrow>
       taken (set (fl_events s)) i \<or> (\<exists>v'. stored c D' i = Inr v' \<and> kept (set (fl_events s)) i v v')"
    using exec_flush [OF assms, of rnd0 rnd now ol] by blast
  have "destination v' = destination v \<and> (entry_text v' = entry_text v
      \<or> (\<exists>x t err D0 original. entry_id x = i \<and> Call x t (Refused err) D0 \<in> set (fl_events s) \<and> er_original err = Some original \<and> entry_text v' = JStr original))"
    if "kept (set (fl_events s)) i v v'" for i v v'
    using that unfolding kept_def says_def by (auto 4 4)
  then have "(\<exists>x t D0. entry_id x = i \<and> Call x t Accepted D0 \<in> set (fl_events s)) \<or> (\<exists>v'. stored c D' i = Inr v' \<and> destination v' = destination v
      \<and> (entry_text v' = entry_text v \<or> (\<exists>x t err D0 original. entry_id x = i \<and> Call x t (Refused err) D0 \<in> set (fl_events s)
           \<and> er_original err = Some original \<and> entry_text v' = JStr original)))"
    if "stored c D i = Inr v" "truthy v" "field v ''text'' \<noteq> JUndef" "\<not> expires now v" for i v
    using f(3) that unfolding taken_def by meson
  moreover have "\<forall>i. has D i \<longrightarrow> has D' i \<or> (\<exists>x t D0. entry_id x = i \<and> Call x t Accepted D0 \<in> set (fl_events s))"
    using f(2) unfolding taken_def .
  ultimately show ?thesis using f(1) unfolding exec_getSealed_outbox prod.inject by (intro exI [of _ D'] exI [of _ s] conjI) blast+
qed

theorem unsent_messages_stay_witness:
  "\<exists>D' s. exec (sample_flush True Mismatch) sample_outbox = (D', Inr s) \<and> jhas (sealed_recs D') (''outbox'', ''m'')"
proof -
  have "case snd (exec (sample_flush True Mismatch) sample_outbox) of Inl _ \<Rightarrow> False | Inr s \<Rightarrow> list_all (\<lambda>(x, r). r = Mismatch) (sends (fl_events s))"
    "jhas (sealed_recs sample_outbox) (''outbox'', ''m'')"
    by code_simp+
  moreover have "Call x t r D0 \<in> set evs \<Longrightarrow> (x, r) \<in> set (sends evs)" for x t r D0 evs by (induction evs rule: sends.induct) auto
  moreover have "\<exists>D' s. exec (sample_flush True Mismatch) sample_outbox = (D', Inr s)
    \<and> (\<forall>i. jhas (sealed_recs sample_outbox) (''outbox'', i) \<longrightarrow> jhas (sealed_recs D') (''outbox'', i)
        \<or> (\<exists>x t D0. entry_id x = i \<and> Call x t Accepted D0 \<in> set (fl_events s)))"
    using unsent_messages_stay [OF sample_cipher_inverts sample_outbox_ok] unfolding sample_flush_def by blast
  ultimately show ?thesis by (fastforce simp: list_all_iff)
qed

text \<open>The write of an expired draft is not compared with what is stored meanwhile: tab 0 lists the outbox just after the
  time to live of a message, tab 1 commits and sends that message between the read and the write of
  tab 0. Afterwards the attempt, whose outcome is uncertain, is stored as an empty, expired draft.\<close>

definition uncertain :: send_reply where
  "uncertain = Refused \<lparr>er_message = ''uncertain'', er_code = ''uncertain'', er_blocked = False, er_retryable = True, er_retryAfterMS = 0,
     er_original = Some ''hi''\<rparr>"

definition race_start :: "db \<times> flushing prog list" where
  "race_start = (fst (exec (enqueue sample_cipher (\<lambda>_. ([1], [2])) sample_peer ''hi'' (sample_options ''m'') 5) (new_db\<lparr>wrapping_key := Some [9]\<rparr>)),
     [fmap (\<lambda>_. fresh_flush) (pending sample_cipher (\<lambda>_. ([1], [6])) (OUTBOX_TTL + 6) None),
      flush sample_cipher (\<lambda>_. ([1], [5])) sample_rnd (OUTBOX_TTL + 5) (sample_outlet True uncertain)])"

definition race_lost :: "db \<times> flushing prog list \<Rightarrow> bool" where
  "race_lost R = (case snd R ! 1 of Atomic t \<Rightarrow> False | Ret res \<Rightarrow> (case res of Inl e \<Rightarrow> False | Inr s \<Rightarrow> fl_events s \<noteq> [] \<and>
     (case hd (fl_events s) of Shown d i v \<Rightarrow> False | Call x t r D0 \<Rightarrow> t = JStr ''hi'' \<and> r = uncertain
       \<and> (case stored sample_cipher D0 (entry_id x) of Inl e \<Rightarrow> False | Inr u \<Rightarrow> committed u)
       \<and> (case stored sample_cipher (fst R) (entry_id x) of Inl e \<Rightarrow> False | Inr v \<Rightarrow> \<not> committed v \<and> field v ''text'' = JStr []))))"

lemma race_lostD:
  assumes "race_lost R"
  shows "\<exists>s x D0 u v. snd R ! 1 = Ret (Inr s) \<and> Call x (JStr ''hi'') uncertain D0 \<in> set (fl_events s)
    \<and> stored sample_cipher D0 (entry_id x) = Inr u \<and> committed u \<and> stored sample_cipher (fst R) (entry_id x) = Inr v \<and> \<not> committed v \<and> field v ''text'' = JStr []"
proof -
  obtain s where s: "snd R ! 1 = Ret (Inr s)" using assms by (auto simp: race_lost_def split: prog.splits sum.splits)
  then obtain x t r D0 where e: "hd (fl_events s) = Call x t r D0" "fl_events s \<noteq> []"
    using assms by (auto simp: race_lost_def split: outbox_event.splits)
  then have "Call x t r D0 \<in> set (fl_events s)" using hd_in_set [OF e(2)] by simp
  then show ?thesis using assms s e by (auto simp: race_lost_def split: sum.splits)
qed

theorem expiry_overwrites_commit:
  "\<exists>sched s x D0 u v. snd (fold turn sched race_start) ! 1 = Ret (Inr s) \<and> Call x (JStr ''hi'') uncertain D0 \<in> set (fl_events s)
     \<and> stored sample_cipher D0 (entry_id x) = Inr u \<and> committed u
     \<and> stored sample_cipher (fst (fold turn sched race_start)) (entry_id x) = Inr v \<and> \<not> committed v \<and> field v ''text'' = JStr []"
proof -
  have "race_lost (fold turn ([1, 1, 0, 0, 0] @ replicate 20 1 @ replicate 10 0) race_start)" by code_simp
  from race_lostD [OF this] show ?thesis by blast
qed

end
