(* ===== verification/Spec2Isabelle.thy ===== *)
theory Spec2Isabelle
  imports Media_Worker_Guarantees Media_Key_Safety Ratchet_Safety Ratchet_Functions Dm_Trust Olm_Control
    Access_Matrix Upload_Queue Outbox
begin

text \<open>
  This library verifies the parts of noXa that protect its users' keys and messages in the
  JavaScript clients: the encryption of media frames on the desktop client and the device-to-device
  message encryption of the mobile client. Every definition that models code keeps the name the code
  gives it, where Isabelle allows that.

  \<^bold>\<open>The program's parts and their theories.\<close>

  \<^item> Media frames (\<^verbatim>\<open>src/client/frontend/src/\<close>). A publication's frames are encrypted in a worker
    (\<^verbatim>\<open>media-e2ee-core.js\<close>): \<open>Media_Worker\<close> has its state as the record \<open>worker\<close>, one definition per
    message handler and per stage of the encode and decode pipelines, and the run of its serial queue as a
    step function; \<open>Media_Worker_Frames\<close>, \<open>Media_Worker_Safety\<close> and \<open>Media_Worker_Guarantees\<close> prove what
    leaves the pipelines on every run. Its receivers keep a replay window (\<^verbatim>\<open>media-replay.js\<close>,
    \<open>Media_Replay\<close>, timestamps and sequence numbers as 32-bit words) and frame envelopes with clear H.264
    headers (\<^verbatim>\<open>media-frame-envelope.js\<close>, \<^verbatim>\<open>hardware-probe-frame.js\<close>, \<open>Media_Envelope\<close>).
  \<^item> Media keys (\<^verbatim>\<open>media-keys.js\<close>). \<open>Media_Key_Control\<close> has the control message, its builder and parser, the
    recipients and the startup inbox; \<open>Media_Key_Engine\<close> the engine that issues, distributes, ratchets,
    pauses and retires epochs, as a machine whose events (rosters, timers, replies, controls) come in any
    order; \<open>Media_Key_Safety\<close> proves who can know a key and when a sender is silenced.
  \<^item> Olm keys and evidence (\<^verbatim>\<open>src/mobile/src/core/olm-keys.js\<close>, \<^verbatim>\<open>olm-directory.js\<close>, \<^verbatim>\<open>olm-reset.js\<close>,
    \<^verbatim>\<open>olm-admission.js\<close>): \<open>Olm_Directory\<close> has bundles, reserved claims, resets and chains of resets and their
    signed transcripts, \<open>Olm_Admission\<close> manifests and frozen attempts, \<open>Olm_Control\<close> the payloads of an attempt
    and the media controls in them, with the scanners of their raw text, over \<open>Js_Text\<close> (UTF-8, base64,
    decimal texts) and \<open>Js_Json\<close> (JavaScript values, \<^verbatim>\<open>JSON.stringify\<close>, \<^verbatim>\<open>JSON.parse\<close> and canonical JSON).
  \<^item> Device trust (\<^verbatim>\<open>dm-trust.js\<close>, \<open>Dm_Trust\<close>): signed key records, the devices of an account that a chain of
    approvals connects to its first device, the claims on their one-time keys (\<^verbatim>\<open>verifyOlmClaim\<close>) and the
    signing of records, bundles and resets.
  \<^item> The local database (\<^verbatim>\<open>db.js\<close>, \<open>Local_Db\<close>), the device identity and sign-out (\<^verbatim>\<open>identity-store.js\<close>,
    \<open>Identity_Store\<close>) and the ratchet store on top of it (\<^verbatim>\<open>ratchet-store.js\<close>, \<open>Ratchet_Store\<close>): sessions,
    one-time keys, trust, sends, receipts and account transitions in one IndexedDB database that all tabs
    of the app share. What is shared into the app (\<^verbatim>\<open>share-store.js\<close>, \<open>Share_Store\<close>) is in the same database; it is
    the one store that may be written while nobody is signed in.
  \<^item> The outbox (\<^verbatim>\<open>outbox.js\<close>, \<open>Outbox\<close>): messages written offline, as programs on the same database. The theorems show
    that a flush keeps the order to each destination whatever other tabs do, and that one that runs alone commits
    an attempt before it sends it and keeps every message that was not accepted.
  \<^item> Access rules of channels and roles (\<^verbatim>\<open>access-matrix.js\<close>, \<open>Access_Matrix\<close>): a list of overrides as a
    finite map from subjects and capabilities to effects, and the requirements between capabilities, whose
    search is proved to be the transitive closure; the theorems show that edits keep the map consistent with
    the requirements and that what a role is shown as allowed is closed under them.
  \<^item> The upload queue (\<^verbatim>\<open>upload-queue.js\<close>, \<open>Upload_Queue\<close>): a machine with one definition per function, whose
    calls and transfer events come in any order; its invariant ties the status of an upload, its promise and
    the one running transfer.

  \<^bold>\<open>How the database and its clients are modelled.\<close> The database is the record \<open>db\<close>. An asynchronous function
  is a value of type \<open>'a prog\<close>: a tree whose nodes are its IndexedDB transactions, each an atomic function
  on the database that also gives the rest of the program; \<open>bind\<close> and \<open>catch\<close> are \<^verbatim>\<open>await\<close> and \<^verbatim>\<open>try\<close>. A thrown
  error is \<open>Inl\<close>. \<open>exec\<close> runs a program alone, \<open>turn\<close> runs the next transaction of one of several programs.
  Random bytes (initialisation vectors, candidate keys), the time and JavaScript values from callers are
  arguments; values from callers are well formed (\<open>js_wf\<close>: an object has each key once).

  The proofs use rely and guarantee. \<open>rg G K Q p\<close> says that the program \<open>p\<close>, started where \<open>K\<close> holds and
  while every other program keeps \<open>G\<close>, keeps \<open>G\<close> at each of its transactions and ends with \<open>Q\<close>; the locale
  \<open>guarantee\<close> has the rules for transactions, and is interpreted on the guarantee \<open>guar\<close> of the ratchet
  store (\<open>Ratchet_Guarantee\<close>). \<open>Ratchet_Accounts\<close> has the invariant of a store and its main lemma
  \<open>commit_keeps\<close>; \<open>Ratchet_Operations\<close>, \<open>Ratchet_Sending\<close> and \<open>Ratchet_Tabs\<close> show that every operation of
  the four modules keeps the guarantee. \<open>Ratchet_Machine\<close> puts them together: \<open>runs\<close> starts any operation at
  any time and interleaves all transactions. \<open>Ratchet_Safety\<close> states what holds in every reachable state
  and along every run, with the abstract store \<open>vault\<close> and the compare and swap \<open>swap\<close> that a commit refines;
  \<open>Ratchet_Functions\<close> has the bound on the retries of an update, round trips and the record of retired attempts;
  \<open>Ratchet_Sample\<close> is the sample run on which the theorems are applied.

  \<^bold>\<open>Abstractions.\<close> Opening and sealing the records of one read or commit of the ratchet store takes the wrapping key in the
  transaction of the records; the code takes it in transactions of its own before or after. The key does
  not change between them (\<open>wrapping_key_is_never_replaced\<close>), so the results agree; the number of transactions does not, and
  no theorem counts those of a ratchet operation. The names \<^verbatim>\<open>wrapping-key\<close>, \<^verbatim>\<open>identity\<close> and
  \<^verbatim>\<open>identity-fence\<close> of the device store are fields of \<open>db\<close>; the functions that take a store and a key are started with other names
  only (\<open>free_name\<close>), as all their callers do. Strings hold characters of 8 bits: surrogates and code points
  above 255 do not occur. Numbers are integers; a fraction is one value without digits, and \<^verbatim>\<open>undefined\<close> is printed as
  \<^verbatim>\<open>null\<close>. The epoch in the name of an attempt is read as decimal digits, which is how the store writes it.
  The sending device of a manifest is the target with the local flag, which \<open>validateManifest\<close> checks.

  \<^bold>\<open>What is a parameter.\<close> AES-GCM is the record \<open>cipher\<close> with the hypothesis \<open>cipher_inverts\<close> (decryption
  inverts encryption under the same key, vector and additional data); the curves and SHA-256 of libolm and
  WebCrypto are the record \<open>curves\<close>, the signatures of tweetnacl the record \<open>nacl\<close> with the hypothesis \<open>signs_for\<close> (a
  signature has 64 bytes and verifies under the public half of its secret); the cipher of the media worker is a parameter of its pipelines. Where a
  theorem needs one of them, its witness instantiates it.

  \<^bold>\<open>Bounds and fuel.\<close> Loops that retry are recursive on the number of attempts the code allows (16 after the
  first in \<open>validated\<close> and \<open>retrySend\<close>, 8 in \<open>updateSealed\<close>). \<open>candidate_refs\<close>, the loop over pages of
  obligations in \<open>abandonRecoveryTransition\<close>, has the number of pages as an argument and ends with
  \<open>Out_of_pages\<close> when it is used up; the guarantees hold for every such number. The chain of resets is
  bounded by the limit the code has. The search for approved devices ends because every pass but the last adds
  one (\<open>trust_loop\<close>); those over the requirements of a capability because each call marks one more as seen. The parsers of JSON and the scanners of raw text take fuel that is linear in the text;
  \<open>parse_fuel\<close>, \<open>scan_fuel\<close> and \<open>walk_fuel\<close> show that more changes nothing. Integers that JavaScript keeps below 2 to the 53 are \<open>int\<close> with the
  code's own range checks; those of the replay window are machine words.

  \<^bold>\<open>What is not modelled.\<close> The Go server, SFU and desktop backend; the user interfaces; generated bindings and
  vendored scripts. In \<^verbatim>\<open>media-keys.js\<close> the status listener and its throttle timer. \<^verbatim>\<open>clearStores\<close> of \<^verbatim>\<open>db.js\<close> is modelled but no code calls it, so the machine does not start it.
  Other modules of the mobile core (\<^verbatim>\<open>ratchet-consumer.js\<close>, \<^verbatim>\<open>direct.js\<close>, \<^verbatim>\<open>voice.js\<close> and others) use these parts and are
  left out. Of \<^verbatim>\<open>upload-queue.js\<close> only the reset that tests call is left out, and the transfer of the bytes
  (\<^verbatim>\<open>files.js\<close>) is an event with any outcome. Of \<^verbatim>\<open>outbox.js\<close> the guard that lets one flush per session run, the
  timer for held messages and the request for background synchronisation are left out.
\<close>

end
